(* ===== verification/Prelude.thy ===== *)
theory Prelude
  imports Main "HOL-Library.Word"
begin

text \<open>
  Shared vocabulary of the development: the error values of \<^verbatim>\<open>include/cbmpc/core/error.h\<close>, the
  result type in which every early return and every failed \<^verbatim>\<open>cb_assert\<close> is a value, and the
  generic facts on lists, maps, congruences and machine words that the component theories share.
  The collections \<open>res_simps\<close> and \<open>mod_simps\<close> gather what the component proofs unfold.
\<close>

named_theorems res_simps \<open>evaluation of the result type\<close>
named_theorems mod_simps \<open>modular operations on values in range\<close>

section \<open>Machine types\<close>

type_synonym u8 = "8 word"
type_synonym u16 = "16 word"
type_synonym u32 = "32 word"
type_synonym u64 = "64 word"
type_synonym u128 = "128 word"
type_synonym bytes = "8 word list"

section \<open>Error values\<close>

text \<open>
  The non-zero values of \<^verbatim>\<open>error_t\<close>. \<^verbatim>\<open>E_CRYPTO\<close> and \<^verbatim>\<open>E_ECDSA_2P_BIT_LEAK\<close> are declared in
  \<^verbatim>\<open>crypto/base.h\<close>. The value \<^verbatim>\<open>SUCCESS\<close> is the right injection of the result type.
\<close>

datatype error_t =
    UNINITIALIZED_ERROR | E_GENERAL | E_BADARG | E_FORMAT | E_NOT_SUPPORTED | E_NOT_FOUND
  | E_INSUFFICIENT | E_RANGE | E_NET_GENERAL | E_CF_MPC_BENCHMARK | E_CRYPTO | E_ECDSA_2P_BIT_LEAK

definition ERRCODE :: "u32 \<Rightarrow> u32 \<Rightarrow> u32" where
  "ERRCODE category code = or 0xff000000 (or (push_bit 16 category) code)"

definition ECATEGORY :: "u32 \<Rightarrow> u32" where
  "ECATEGORY code = and (drop_bit 16 code) 0x00ff"

fun error_value :: "error_t \<Rightarrow> u32" where
  "error_value UNINITIALIZED_ERROR = ERRCODE 0x01 0x0000"
| "error_value E_GENERAL = ERRCODE 0x01 0x0001"
| "error_value E_BADARG = ERRCODE 0x01 0x0002"
| "error_value E_FORMAT = ERRCODE 0x01 0x0003"
| "error_value E_NOT_SUPPORTED = ERRCODE 0x01 0x0005"
| "error_value E_NOT_FOUND = ERRCODE 0x01 0x0006"
| "error_value E_INSUFFICIENT = ERRCODE 0x01 0x000c"
| "error_value E_RANGE = ERRCODE 0x01 0x0012"
| "error_value E_NET_GENERAL = ERRCODE 0x03 0x0001"
| "error_value E_CF_MPC_BENCHMARK = ERRCODE 0x0a 0x0001"
| "error_value E_CRYPTO = ERRCODE 0x04 1"
| "error_value E_ECDSA_2P_BIT_LEAK = ERRCODE 0x04 2"

text \<open>
  A call ends with a value, with an error code, with a failed \<^verbatim>\<open>cb_assert\<close> (the exception
  \<^verbatim>\<open>assertion_failed_t\<close>), or it reads or writes outside an object, which C++ leaves undefined.
\<close>

datatype fault = Err error_t | Assert_Failed | Out_Of_Bounds

type_synonym 'a res = "fault + 'a"

abbreviation success :: "unit res" where "success \<equiv> Inr ()"
abbreviation error :: "error_t \<Rightarrow> 'a res" where "error e \<equiv> Inl (Err e)"

fun bind_res :: "'a res \<Rightarrow> ('a \<Rightarrow> 'b res) \<Rightarrow> 'b res" where
  "bind_res (Inl e) f = Inl e"
| "bind_res (Inr x) f = f x"

definition cb_assert :: "bool \<Rightarrow> unit res" where
  "cb_assert b = (if b then Inr () else Inl Assert_Failed)"

lemma cb_assert_simps [simp]:
  "b \<Longrightarrow> cb_assert b = Inr ()"
  "\<not> b \<Longrightarrow> cb_assert b = Inl Assert_Failed"
  by (simp_all add: cb_assert_def)

lemma cb_assert_eq_Inr [simp]: "cb_assert b = Inr u \<longleftrightarrow> b"
  by (simp add: cb_assert_def)

lemma bind_res_assoc [res_simps]:
  "bind_res (bind_res r f) g = bind_res r (\<lambda>x. bind_res (f x) g)"
  by (cases r) simp_all

lemma bind_res_eq_Inr [res_simps]:
  "bind_res r f = Inr y \<longleftrightarrow> (\<exists>x. r = Inr x \<and> f x = Inr y)"
  by (cases r) simp_all

lemma bind_res_eq_Inl [res_simps]:
  "bind_res r f = Inl e \<longleftrightarrow> r = Inl e \<or> (\<exists>x. r = Inr x \<and> f x = Inl e)"
  by (cases r) auto

lemma bind_res_cong [fundef_cong]:
  "r = r' \<Longrightarrow> (\<And>x. r' = Inr x \<Longrightarrow> f x = g x) \<Longrightarrow> bind_res r f = bind_res r' g"
  by (cases r') auto

lemma bind_res_split:
  "P (bind_res r f) \<longleftrightarrow> (\<forall>e. r = Inl e \<longrightarrow> P (Inl e)) \<and> (\<forall>x. r = Inr x \<longrightarrow> P (f x))"
  by (cases r) auto

text \<open>The loop that runs a fallible step over a list, carrying a state.\<close>

fun fold_res :: "('a \<Rightarrow> 's \<Rightarrow> 's res) \<Rightarrow> 'a list \<Rightarrow> 's \<Rightarrow> 's res" where
  "fold_res f [] s = Inr s"
| "fold_res f (x # xs) s = bind_res (f x s) (fold_res f xs)"

fun map_res :: "('a \<Rightarrow> 'b res) \<Rightarrow> 'a list \<Rightarrow> 'b list res" where
  "map_res f [] = Inr []"
| "map_res f (x # xs) = bind_res (f x) (\<lambda>y. bind_res (map_res f xs) (\<lambda>ys. Inr (y # ys)))"

lemma fold_res_cong [fundef_cong]:
  "xs = ys \<Longrightarrow> s = t \<Longrightarrow> (\<And>x st. x \<in> set ys \<Longrightarrow> f x st = g x st) \<Longrightarrow> fold_res f xs s = fold_res g ys t"
  by (induction xs arbitrary: ys s t) (auto intro!: bind_res_cong)

lemma map_res_cong [fundef_cong]:
  "xs = ys \<Longrightarrow> (\<And>x. x \<in> set ys \<Longrightarrow> f x = g x) \<Longrightarrow> map_res f xs = map_res g ys"
  by (induction xs arbitrary: ys) auto

lemma map_res_Inr: "(\<And>x. x \<in> set xs \<Longrightarrow> f x = Inr (g x)) \<Longrightarrow> map_res f xs = Inr (map g xs)"
  by (induction xs) auto

lemma map_res_length: "map_res f xs = Inr ys \<Longrightarrow> length ys = length xs"
  by (induction xs arbitrary: ys) (auto simp: res_simps)

lemma map_res_nth:
  "map_res f xs = Inr ys \<Longrightarrow> i < length xs \<Longrightarrow> f (xs ! i) = Inr (ys ! i)"
  by (induction xs arbitrary: ys i) (auto simp: res_simps nth_Cons split: nat.splits)

lemma fold_res_append:
  "fold_res f (xs @ ys) s = bind_res (fold_res f xs s) (fold_res f ys)"
  by (induction xs arbitrary: s) (auto simp: bind_res_assoc intro!: bind_res_cong)

lemma unat_small: "n < 2 ^ LENGTH('a) \<Longrightarrow> unat (word_of_nat n :: 'a::len word) = n"
  by (simp add: unat_of_nat take_bit_nat_eq_self)

end
