(* ===== verification/Barrett.thy ===== *)
theory Barrett
  imports Prelude
begin

text \<open>
  The constant-time reduction \<^verbatim>\<open>mod_t::_mod\<close> of \<^verbatim>\<open>crypto/base_mod.cpp\<close> on the values of its operands:
  Barrett's estimate of the quotient from \<open>mu\<close>, the difference taken modulo \<open>b^(k+1)\<close>, and two
  conditional subtractions of which the second one sees \<open>k\<close> words only. \<^verbatim>\<open>Limbs\<close> shows that the word
  routine computes this function. It is exact under \<open>barrett_ok\<close>, a condition on the modulus alone,
  and there are valid moduli outside that condition on which it is wrong.
\<close>

section \<open>Sizes\<close>

text \<open>\<^verbatim>\<open>BN_num_bits\<close> of a number's magnitude, and its number of 64-bit words (the field \<^verbatim>\<open>top\<close>).\<close>

fun num_bits :: "nat \<Rightarrow> nat" where
  "num_bits n = (if n = 0 then 0 else Suc (num_bits (n div 2)))"

declare num_bits.simps [simp del]

definition bn_top :: "int \<Rightarrow> nat" where
  "bn_top x = (num_bits (nat \<bar>x\<bar>) + 63) div 64"

definition MAX_MODULUS_BITS :: nat where "MAX_MODULUS_BITS = 8192"

definition MAX_MODULUS_WORDS :: nat where "MAX_MODULUS_WORDS = (MAX_MODULUS_BITS + 64 - 1) div 64"

definition is_valid_modulus :: "int \<Rightarrow> bool" where
  "is_valid_modulus m \<longleftrightarrow> 1 < m \<and> num_bits (nat m) \<le> MAX_MODULUS_BITS \<and> odd m"

lemma num_bits_0 [simp]: "num_bits 0 = 0"
  by (subst num_bits.simps) simp

lemma num_bits_bounds: "n < 2 ^ num_bits n \<and> (0 < n \<longrightarrow> 2 ^ num_bits n \<le> 2 * n)"
proof (induction n rule: num_bits.induct)
  case (1 n)
  show ?case
  proof (cases "n = 0")
    case True
    then show ?thesis by simp
  next
    case False
    then have *: "num_bits n = Suc (num_bits (n div 2))" by (subst num_bits.simps) simp
    have IH: "n div 2 < 2 ^ num_bits (n div 2)" "0 < n div 2 \<longrightarrow> 2 ^ num_bits (n div 2) \<le> 2 * (n div 2)"
      using "1.IH" [OF False] by auto
    show ?thesis
    proof (cases "n div 2 = 0")
      case True
      then have "n = 1" using False by linarith
      then show ?thesis using * by simp
    next
      case 2: False
      have "n < 2 * 2 ^ num_bits (n div 2)" using IH(1) by linarith
      moreover have "2 ^ num_bits (n div 2) \<le> n" using IH(2) 2 by linarith
      ultimately show ?thesis by (simp add: *)
    qed
  qed
qed

lemma num_bits_le_iff: "num_bits n \<le> k \<longleftrightarrow> n < 2 ^ k"
proof
  assume "num_bits n \<le> k"
  then have "(2::nat) ^ num_bits n \<le> 2 ^ k" by (simp add: power_increasing)
  with num_bits_bounds [of n] show "n < 2 ^ k" by linarith
next
  assume *: "n < 2 ^ k"
  show "num_bits n \<le> k"
  proof (cases "n = 0")
    case True
    then show ?thesis by simp
  next
    case False
    then have "(2::nat) ^ num_bits n \<le> 2 * n" using num_bits_bounds [of n] by simp
    also have "\<dots> < 2 ^ Suc k" using * by simp
    finally have "num_bits n < Suc k" by (rule power_less_imp_less_exp [rotated]) simp
    then show ?thesis by simp
  qed
qed

lemma bn_top_le_iff: "bn_top x \<le> k \<longleftrightarrow> \<bar>x\<bar> < 2 ^ (64 * k)"
proof -
  have "bn_top x \<le> k \<longleftrightarrow> num_bits (nat \<bar>x\<bar>) \<le> 64 * k"
    by (auto simp: bn_top_def)
  also have "\<dots> \<longleftrightarrow> nat \<bar>x\<bar> < 2 ^ (64 * k)" by (rule num_bits_le_iff)
  also have "\<dots> \<longleftrightarrow> \<bar>x\<bar> < 2 ^ (64 * k)" by (simp add: nat_less_iff)
  finally show ?thesis .
qed

lemma bn_top_pos: "bn_top x = 0 \<longleftrightarrow> x = 0"
  using bn_top_le_iff [of x 0] by auto

lemma bn_top_bounds:
  assumes "0 < m"
  shows "2 ^ (64 * (bn_top m - 1)) \<le> m" "m < 2 ^ (64 * bn_top m)" "0 < bn_top m"
proof -
  show "m < 2 ^ (64 * bn_top m)" using bn_top_le_iff [of m "bn_top m"] assms by simp
  show t: "0 < bn_top m" using bn_top_pos [of m] assms by simp
  then have "\<not> bn_top m \<le> bn_top m - 1" by simp
  then show "2 ^ (64 * (bn_top m - 1)) \<le> m" using assms by (simp only: bn_top_le_iff)
qed

lemma bn_top_eqI:
  assumes "2 ^ (64 * k) \<le> x" "x < 2 ^ (64 * Suc k)"
  shows "bn_top x = Suc k"
proof -
  have "0 \<le> x" using assms(1) by (rule order_trans [rotated]) simp
  then have "bn_top x \<le> Suc k" "\<not> bn_top x \<le> k" using assms by (simp_all add: bn_top_le_iff)
  then show ?thesis by simp
qed

section \<open>The reduction\<close>

text \<open>
  The part after the size checks, for \<open>k\<close> words: \<open>q1\<close>, \<open>q2\<close>, \<open>q3\<close>, \<open>r1\<close> and \<open>r2\<close> are the code's. The first
  comparison looks at all \<open>k + 1\<close> words of the difference, what is kept of it are \<open>k\<close> words.
\<close>

definition barrett_difference :: "nat \<Rightarrow> int \<Rightarrow> int \<Rightarrow> int \<Rightarrow> int" where
  "barrett_difference k m mu x =
     (let bk1 = 2 ^ (64 * (k + 1));
          q1 = x div 2 ^ (64 * (k - 1)); q2 = q1 * mu; q3 = q2 div bk1;
          r2 = (q3 * m) mod bk1
      in (x mod bk1 - r2) mod bk1)"

definition barrett_correct :: "int \<Rightarrow> int \<Rightarrow> int \<Rightarrow> int" where
  "barrett_correct bk m r1 =
     (let low = r1 mod bk; high = r1 div bk;
          low = (if low < m \<and> high = 0 then low else (low - m) mod bk)
      in if low < m then low else (low - m) mod bk)"

definition barrett_tail :: "nat \<Rightarrow> int \<Rightarrow> int \<Rightarrow> int \<Rightarrow> int" where
  "barrett_tail k m mu x = barrett_correct (2 ^ (64 * k)) m (barrett_difference k m mu x)"

definition barrett_mod :: "int \<Rightarrow> int \<Rightarrow> int res" where
  "barrett_mod m x =
     (let k = bn_top m; mu = 2 ^ (64 * (2 * k)) div m
      in bind_res (cb_assert (0 \<le> x)) (\<lambda>_.
         bind_res (cb_assert (bn_top mu = k + 1)) (\<lambda>_.
         bind_res (cb_assert (bn_top x \<le> 2 * k)) (\<lambda>_.
           if bn_top x < k then Inr x
           else bind_res (cb_assert (k \<le> MAX_MODULUS_WORDS)) (\<lambda>_. Inr (barrett_tail k m mu x))))))"

definition barrett_ok :: "int \<Rightarrow> bool" where
  "barrett_ok m \<longleftrightarrow> is_valid_modulus m \<and>
     (let k = bn_top m in 2 ^ (64 * (2 * k)) mod m + 2 ^ (64 * (k - 1)) \<le> 2 ^ (64 * k))"

section \<open>Exactness\<close>

lemma barrett_estimate:
  fixes b B m x mu s q1 q3 r :: int
  assumes pos: "0 < B" "0 < b" "0 < m" and x: "0 \<le> x" "x < b * b * B * B"
    and mu: "m * mu = b * b * B * B - s" and s: "0 \<le> s"
    and q1: "q1 = x div B" and q3: "q3 = (q1 * mu) div (b * b * B)" and r: "r = x - q3 * m"
  shows "0 \<le> r" "r < B + s + m"
proof -
  let ?W = "b * b * B"
  have W: "0 < ?W" using pos by simp
  have q1B: "q1 * B \<le> x" "x < q1 * B + B"
    using pos(1) mod_div_mult_eq [of x B] pos_mod_bound [of B x] pos_mod_sign [of B x]
    unfolding q1 by linarith+
  have q1W: "0 \<le> q1" "q1 \<le> ?W"
  proof -
    show "0 \<le> q1" using x pos by (simp add: q1 pos_imp_zdiv_nonneg_iff)
    have "q1 * B < ?W * B" using q1B(1) x(2) by linarith
    then show "q1 \<le> ?W" using pos(1) by (simp add: mult_less_cancel_right)
  qed
  have q3W: "q3 * ?W \<le> q1 * mu" "q1 * mu < q3 * ?W + ?W"
    using W mod_div_mult_eq [of "q1 * mu" ?W] pos_mod_bound [of ?W "q1 * mu"] pos_mod_sign [of ?W "q1 * mu"]
    unfolding q3 by linarith+
  have "q1 * mu * m = q1 * (m * mu)" by (simp add: algebra_simps)
  then have e: "q1 * mu * m = q1 * (?W * B) - q1 * s" by (simp add: mu algebra_simps)
  have rW: "r * ?W = x * ?W - (q3 * ?W) * m" by (simp add: r algebra_simps)
  have "(q3 * ?W) * m \<le> q1 * mu * m" using q3W(1) pos(3) by simp
  then have "r * ?W \<ge> (x - q1 * B) * ?W + q1 * s" unfolding rW e by (simp add: algebra_simps)
  moreover have "0 \<le> (x - q1 * B) * ?W + q1 * s" using q1B W q1W s by simp
  ultimately have "0 \<le> r * ?W" by simp
  then show "0 \<le> r" using W by (simp add: zero_le_mult_iff)
  have "q1 * mu * m < (q3 * ?W + ?W) * m" using q3W(2) pos(3) by simp
  then have "r * ?W < (x - q1 * B) * ?W + q1 * s + m * ?W" unfolding rW e by (simp add: algebra_simps)
  also have "\<dots> \<le> B * ?W + ?W * s + m * ?W"
    using q1B W q1W s by (intro add_mono mult_right_mono) auto
  also have "\<dots> = (B + s + m) * ?W" by (simp add: algebra_simps)
  finally show "r < B + s + m" using W by (simp add: mult_less_cancel_right)
qed

lemma conditional_subtractions:
  assumes "0 \<le> r" "r < 3 * m" "r < m + bk" "0 < m" "m < bk"
  shows "barrett_correct bk m r = r mod m"
proof (cases "r < m")
  case True
  then have "r mod bk = r" "r div bk = 0" "r mod m = r" using assms by auto
  then show ?thesis using True by (simp add: barrett_correct_def)
next
  case False
  have "\<not> (r mod bk < m \<and> r div bk = 0)"
    using False assms by (metis div_mult_mod_eq add_0 mult_zero_left)
  moreover have "(r mod bk - m) mod bk = r - m"
    using False assms by (simp add: mod_diff_left_eq)
  moreover have "(r - m - m) mod bk = r - m - m" if "\<not> r - m < m" using that assms by simp
  moreover have "r mod m = (if r - m < m then r - m else r - m - m)"
  proof (cases "r - m < m")
    case True
    then have "(r - m) mod m = r - m" using False by (intro mod_pos_pos_trivial) auto
    with True show ?thesis by (simp only: minus_mod_self2 if_True)
  next
    case 2: False
    then have "(r - m - m) mod m = r - m - m" using assms by (intro mod_pos_pos_trivial) auto
    with 2 show ?thesis by (simp only: minus_mod_self2 if_False)
  qed
  ultimately show ?thesis by (auto simp: barrett_correct_def Let_def)
qed

lemma barrett_tail_exact:
  assumes ok: "barrett_ok m" and k: "k = bn_top m" and x: "0 \<le> x" "x < 2 ^ (64 * (2 * k))"
  shows "barrett_tail k m (2 ^ (64 * (2 * k)) div m) x = x mod m"
proof -
  define b B :: int where "b = 2 ^ 64" and "B = 2 ^ (64 * (k - 1))"
  have m: "1 < m" using ok by (simp add: barrett_ok_def is_valid_modulus_def)
  have kB: "B \<le> m" "m < 2 ^ (64 * k)" "0 < k" using bn_top_bounds [of m] m by (simp_all add: k B_def)
  have pw: "2 ^ (64 * k) = b * B" "2 ^ (64 * (k + 1)) = b * b * B" "2 ^ (64 * (2 * k)) = b * b * B * B"
    using kB(3) by (cases k; simp add: b_def B_def power_add power_mult algebra_simps power_mult_distrib)+
  have pos: "0 < B" "0 < b" "0 < m" using m by (simp_all add: b_def B_def)
  define mu s where "mu = (b * b * B * B) div m" and "s = (b * b * B * B) mod m"
  have s: "m * mu = b * b * B * B - s" "0 \<le> s" "s < m" "s + B \<le> b * B"
  proof -
    have "2 ^ (64 * (2 * k)) mod m + B \<le> 2 ^ (64 * k)"
      using ok by (simp add: barrett_ok_def Let_def B_def k)
    then show "s + B \<le> b * B" by (simp only: s_def pw)
  qed (use m in \<open>simp_all add: mu_def s_def minus_mod_eq_mult_div\<close>)
  define q3 where "q3 = (x div B * mu) div (b * b * B)"
  define r where "r = x - q3 * m"
  have r: "0 \<le> r" "r < B + s + m"
    using barrett_estimate [OF pos x(1) _ s(1,2) refl q3_def r_def] x(2) by (simp_all only: pw)
  have "4 \<le> b" by (simp add: b_def)
  then have "2 * (b * B) < b * b * B" using pos by simp
  then have "r < b * b * B" using r s kB(2) by (simp add: pw)
  then have "(x mod (b * b * B) - (q3 * m) mod (b * b * B)) mod (b * b * B) = r"
    using r(1) by (simp add: r_def mod_diff_eq)
  then have "barrett_difference k m (2 ^ (64 * (2 * k)) div m) x = r"
    unfolding barrett_difference_def Let_def pw B_def [symmetric] mu_def [symmetric] q3_def [symmetric] .
  moreover have "r mod m = x mod m" by (simp add: r_def mod_diff_right_eq [of x "q3 * m", symmetric])
  moreover have "r < m + b * B" "r < 3 * m" "m < b * B" using r(2) s(3,4) kB(1,2) by (simp_all add: pw)
  ultimately show ?thesis
    using conditional_subtractions [of r m "b * B"] r(1) pos
    by (simp only: barrett_tail_def pw(1))
qed

lemma barrett_mu_top:
  assumes "is_valid_modulus m" and k: "k = bn_top m"
  shows "bn_top (2 ^ (64 * (2 * k)) div m) = k + 1"
proof -
  define b B :: int where "b = 2 ^ 64" and "B = 2 ^ (64 * (k - 1))"
  have m: "1 < m" "odd m" using assms by (simp_all add: is_valid_modulus_def)
  have kB: "B \<le> m" "m < 2 ^ (64 * k)" "0 < k" using bn_top_bounds [of m] m by (simp_all add: k B_def)
  have pw: "2 ^ (64 * k) = b * B" "2 ^ (64 * (k + 1)) = b * b * B" "2 ^ (64 * (2 * k)) = b * b * B * B"
    using kB(3) by (cases k; simp add: b_def B_def power_add power_mult algebra_simps power_mult_distrib)+
  have pos: "0 < B" "0 < b" by (simp_all add: b_def B_def)
  let ?mu = "(b * b * B * B) div m"
  have "B \<noteq> m"
  proof
    assume "B = m"
    then have "odd (2 ^ (64 * (k - 1)) :: int)" "1 < (2 ^ (64 * (k - 1)) :: int)" using m by (simp_all add: B_def)
    then show False by (cases "k - 1") auto
  qed
  then have "B * (b * b * B) < m * (b * b * B)" using kB(1) pos by simp
  then have "b * b * B * B < b * b * B * m" by (simp only: mult.commute)
  moreover have "?mu * m \<le> b * b * B * B"
    using m(1) div_mult_mod_eq [of "b * b * B * B" m] pos_mod_sign [of m "b * b * B * B"] by linarith
  ultimately have "?mu * m < b * b * B * m" by linarith
  then have "?mu < b * b * B" using m(1) by (simp only: mult_less_cancel_right)
  moreover have "b * B * m \<le> b * B * (b * B)" using kB(2) pos by (simp add: pw)
  then have "(b * B * m) div m \<le> b * b * B * B div m" using m(1) by (intro zdiv_mono1) (simp_all add: ac_simps)
  then have "b * B \<le> ?mu" using m(1) by simp
  moreover have "0 < b * B" using pos by simp
  ultimately have "bn_top ?mu \<le> k + 1" "\<not> bn_top ?mu \<le> k"
    by (simp_all only: bn_top_le_iff pw)
  then have "bn_top ?mu = k + 1" by simp
  then show ?thesis by (simp only: pw)
qed

lemma barrett_mod_exact:
  assumes ok: "barrett_ok m" and x: "0 \<le> x" "bn_top x \<le> 2 * bn_top m"
  shows "barrett_mod m x = Inr (x mod m)"
proof -
  have m: "is_valid_modulus m" "1 < m" using ok by (simp_all add: barrett_ok_def is_valid_modulus_def)
  have "num_bits (nat m) \<le> MAX_MODULUS_BITS" using m(1) by (simp add: is_valid_modulus_def)
  then have w: "bn_top m \<le> MAX_MODULUS_WORDS"
    using m(2) by (simp add: bn_top_def MAX_MODULUS_WORDS_def MAX_MODULUS_BITS_def)
  have small: "x mod m = x" if "bn_top x < bn_top m"
  proof -
    have "bn_top x \<le> bn_top m - 1" using that by simp
    then show ?thesis using x bn_top_bounds [of m] m(2) by (simp add: bn_top_le_iff)
  qed
  have "x < 2 ^ (64 * (2 * bn_top m))" using x by (simp add: bn_top_le_iff)
  with barrett_tail_exact [OF ok refl x(1)] small barrett_mu_top [OF m(1) refl] x w show ?thesis
    by (auto simp: barrett_mod_def Let_def)
qed

text \<open>For a one-word modulus the condition always holds.\<close>

lemma barrett_ok_one_word:
  assumes "is_valid_modulus m" "m < 2 ^ 64"
  shows "barrett_ok m"
proof -
  have m: "1 < m" using assms by (simp add: is_valid_modulus_def)
  then have "bn_top m = 1" using bn_top_le_iff [of m 1] bn_top_pos [of m] assms(2) by auto
  moreover have "2 ^ 128 mod m < m" using m by simp
  ultimately show ?thesis using assms by (simp add: barrett_ok_def)
qed

text \<open>
  A valid modulus of three words and the product of two reduced operands on which the reduction is
  not the remainder: the estimated remainder exceeds the modulus by \<open>b^k\<close> or more, and the second
  subtraction compares the low words only. The operands are \<open>m - 2\<close> and \<open>m - 2^96 + 1\<close>, their product
  is congruent to \<open>2^97 - 2\<close>.
\<close>

lemma barrett_defect_mu: "2 ^ (64 * (2 * 3)) div (2 ^ 192 - 2 ^ 96 + 1) = (2 ^ 192 + 2 ^ 96 - 1 :: int)"
  by (rule int_div_pos_eq [where r = "2 ^ 192 - 2 ^ 97 + 1"]) simp_all

lemma barrett_defect_top:
  "bn_top (2 ^ 192 - 2 ^ 96 + 1) = 3" "bn_top ((2 ^ 192 - 2 ^ 96 - 1) * (2 ^ 192 - 2 ^ 97 + 2)) = 6"
  "bn_top (2 ^ 192 + 2 ^ 96 - 1) = 4"
  using bn_top_eqI [of 2 "2 ^ 192 - 2 ^ 96 + 1"] bn_top_eqI [of 5 "(2 ^ 192 - 2 ^ 96 - 1) * (2 ^ 192 - 2 ^ 97 + 2)"]
    bn_top_eqI [of 3 "2 ^ 192 + 2 ^ 96 - 1"] by simp_all

lemma barrett_defect_difference:
  "barrett_difference 3 (2 ^ 192 - 2 ^ 96 + 1) (2 ^ 192 + 2 ^ 96 - 1)
     ((2 ^ 192 - 2 ^ 96 - 1) * (2 ^ 192 - 2 ^ 97 + 2)) = 2 ^ 193"
  by (simp add: barrett_difference_def)

lemma barrett_defect_tail:
  "barrett_tail 3 (2 ^ 192 - 2 ^ 96 + 1) (2 ^ 192 + 2 ^ 96 - 1)
     ((2 ^ 192 - 2 ^ 96 - 1) * (2 ^ 192 - 2 ^ 97 + 2)) = 2 ^ 96 - 1"
  unfolding barrett_tail_def barrett_defect_difference by (simp add: barrett_correct_def)

lemma barrett_defect_value:
  "barrett_mod (2 ^ 192 - 2 ^ 96 + 1) ((2 ^ 192 - 2 ^ 96 - 1) * (2 ^ 192 - 2 ^ 97 + 2))
     = Inr (2 ^ 96 - 1)"
proof -
  have "(3::nat) \<le> MAX_MODULUS_WORDS" by (simp add: MAX_MODULUS_WORDS_def MAX_MODULUS_BITS_def)
  moreover have "(0::int) \<le> (2 ^ 192 - 2 ^ 96 - 1) * (2 ^ 192 - 2 ^ 97 + 2)" by simp
  moreover have "(4::nat) = 3 + 1" "(6::nat) \<le> 2 * 3" "\<not> (6::nat) < 3" by simp_all
  ultimately show ?thesis
    unfolding barrett_mod_def Let_def barrett_defect_top(1,2) barrett_defect_mu barrett_defect_top(3) barrett_defect_tail
    by (simp only: cb_assert_simps bind_res.simps if_False)
qed

lemma barrett_defect_valid: "is_valid_modulus (2 ^ 192 - 2 ^ 96 + 1)"
proof -
  have "num_bits (nat (2 ^ 192 - 2 ^ 96 + 1)) \<le> 192" by (simp add: num_bits_le_iff)
  then have "num_bits (nat (2 ^ 192 - 2 ^ 96 + 1)) \<le> MAX_MODULUS_BITS"
    unfolding MAX_MODULUS_BITS_def by (rule order_trans) simp
  then show ?thesis by (simp add: is_valid_modulus_def)
qed

end
