(* ===== verification/Modular.thy ===== *)
theory Modular
  imports Barrett
begin

text \<open>
  Modular arithmetic of \<^verbatim>\<open>crypto/base_mod.cpp\<close> on values. A \<^verbatim>\<open>bn_t\<close> is an unbounded integer (the
  BIGNUM it wraps), a \<^verbatim>\<open>mod_t\<close> is its modulus \<open>m\<close>. The flag \<open>vt\<close> says whether the thread is inside a
  \<^verbatim>\<open>vartime_scope_t\<close>: there the reducing OpenSSL routine runs on any operands, outside it the
  operands are first checked to be reduced, and a failed check is \<^verbatim>\<open>Assert_Failed\<close>.
  The inverse \<^verbatim>\<open>BN_mod_inverse\<close> of OpenSSL is the parameter \<open>bn_inv\<close>; the locale \<open>mod_inverse\<close> states
  what the code relies on. The limb routines below these operations are in \<^verbatim>\<open>Limbs\<close>.
\<close>

section \<open>Operations\<close>

definition is_in_range :: "int \<Rightarrow> int \<Rightarrow> bool" where
  "is_in_range m a \<longleftrightarrow> 0 \<le> a \<and> a < m"

definition mod_check :: "int \<Rightarrow> int \<Rightarrow> unit res" where
  "mod_check m a = cb_assert (is_in_range m a)"

definition mod_add :: "bool \<Rightarrow> int \<Rightarrow> int \<Rightarrow> int \<Rightarrow> int res" where
  "mod_add vt m a b =
     (if vt then Inr ((a + b) mod m)
      else bind_res (mod_check m a) (\<lambda>_. bind_res (mod_check m b) (\<lambda>_. Inr ((a + b) mod m))))"

definition mod_sub :: "bool \<Rightarrow> int \<Rightarrow> int \<Rightarrow> int \<Rightarrow> int res" where
  "mod_sub vt m a b =
     (if vt then Inr ((a - b) mod m)
      else bind_res (mod_check m a) (\<lambda>_. bind_res (mod_check m b) (\<lambda>_. Inr ((a - b) mod m))))"

text \<open>\<^verbatim>\<open>bn_mod_sub_fixed_top\<close>: subtract, and add the modulus back when the subtraction borrows.\<close>

definition sub_fixed_top :: "int \<Rightarrow> int \<Rightarrow> int \<Rightarrow> int" where
  "sub_fixed_top a b m = (if a < b then a - b + m else a - b)"

definition mod_neg :: "bool \<Rightarrow> int \<Rightarrow> int \<Rightarrow> int res" where
  "mod_neg vt m a =
     (if vt then Inr (if a = 0 then a else (m - a) mod m)
      else bind_res (mod_check m a)
             (\<lambda>_. let r = sub_fixed_top m a m in Inr (sub_fixed_top r m m)))"

definition mod_mul :: "bool \<Rightarrow> int \<Rightarrow> int \<Rightarrow> int \<Rightarrow> int res" where
  "mod_mul vt m a b =
     (if vt then Inr ((a * b) mod m)
      else bind_res (mod_check m a) (\<lambda>_. bind_res (mod_check m b) (\<lambda>_.
             if a = 0 \<or> b = 0 then Inr 0
             else bind_res (cb_assert (bn_top a + bn_top b \<le> 2 * MAX_MODULUS_WORDS))
                    (\<lambda>_. barrett_mod m (a * b)))))"

text \<open>
  \<^verbatim>\<open>mod_t::_mod\<close>: \<^verbatim>\<open>BN_div\<close> keeps the sign of the dividend, the constant-time path rejects it. An
  operand of more than twice the words of the modulus is first reduced by the square of the modulus.
\<close>

definition mod_reduce :: "bool \<Rightarrow> int \<Rightarrow> int \<Rightarrow> int res" where
  "mod_reduce vt m x = (if vt then Inr (sgn x * (\<bar>x\<bar> mod m)) else barrett_mod m x)"

lemma num_bits_square: "1 < m \<Longrightarrow> num_bits (nat m) < num_bits (nat (m * m))"
proof -
  assume m: "1 < m"
  have "2 ^ num_bits (nat m) \<le> 2 * nat m" using num_bits_bounds [of "nat m"] m by simp
  also have "\<dots> \<le> nat m * nat m" using m by (intro mult_right_mono) auto
  finally have "\<not> num_bits (nat (m * m)) \<le> num_bits (nat m)"
    using m by (simp add: num_bits_le_iff nat_mult_distrib)
  then show ?thesis by simp
qed

function mod_mod :: "bool \<Rightarrow> int \<Rightarrow> int \<Rightarrow> int res" where
  "mod_mod vt m x =
     (if m \<le> 1 then Inl Assert_Failed
      else if 2 * bn_top m < bn_top x
      then (if num_bits (nat (m * m)) \<le> MAX_MODULUS_BITS
            then bind_res (mod_mod vt (m * m) x) (mod_reduce vt m) else Inl Assert_Failed)
      else mod_reduce vt m x)"
  by auto

termination
  by (relation "measure (\<lambda>(vt, m, x). MAX_MODULUS_BITS - num_bits (nat m))")
    (auto intro!: diff_less_mono2 num_bits_square intro: order_less_le_trans [OF num_bits_square])

declare mod_mod.simps [simp del]

text \<open>\<^verbatim>\<open>mod_t::mod(int)\<close>, for a C \<^verbatim>\<open>int\<close> operand.\<close>

definition mod_int :: "bool \<Rightarrow> int \<Rightarrow> int \<Rightarrow> int res" where
  "mod_int vt m a =
     (let is_negative = a < 0; abs_a = \<bar>a\<bar>
      in bind_res (if m \<le> abs_a then mod_mod vt m abs_a else Inr abs_a)
           (\<lambda>reduced_abs. if is_negative \<and> reduced_abs \<noteq> 0 then mod_neg vt m reduced_abs
                          else Inr reduced_abs))"

type_synonym bn_inverse = "int \<Rightarrow> int \<Rightarrow> int option"

text \<open>
  \<^verbatim>\<open>random_masking_inv\<close>: up to 128 masks, drawn by the generator and given here as the function
  \<open>rnd\<close> of the attempt; a zero mask or a non-invertible product takes the next one.
\<close>

fun random_masking_loop ::
  "bn_inverse \<Rightarrow> int \<Rightarrow> int \<Rightarrow> (nat \<Rightarrow> int) \<Rightarrow> nat \<Rightarrow> nat \<Rightarrow> int res" where
  "random_masking_loop bn_inv m a rnd attempt 0 = Inl Assert_Failed"
| "random_masking_loop bn_inv m a rnd attempt (Suc left) =
     (if rnd attempt = 0 then random_masking_loop bn_inv m a rnd (Suc attempt) left
      else bind_res (mod_mul False m a (rnd attempt))
             (\<lambda>masked_a. case bn_inv masked_a m of
                 Some r \<Rightarrow> mod_mul False m r (rnd attempt)
               | None \<Rightarrow> random_masking_loop bn_inv m a rnd (Suc attempt) left))"

definition random_masking_inv :: "bn_inverse \<Rightarrow> int \<Rightarrow> int \<Rightarrow> (nat \<Rightarrow> int) \<Rightarrow> int res" where
  "random_masking_inv bn_inv m a rnd = random_masking_loop bn_inv m a rnd 0 128"

definition mod_inv_vartime :: "bn_inverse \<Rightarrow> int \<Rightarrow> int \<Rightarrow> int res" where
  "mod_inv_vartime bn_inv m a = (case bn_inv a m of Some r \<Rightarrow> Inr r | None \<Rightarrow> Inl Assert_Failed)"

definition mod_div_vartime :: "bn_inverse \<Rightarrow> int \<Rightarrow> int \<Rightarrow> int \<Rightarrow> int res" where
  "mod_div_vartime bn_inv m a b = bind_res (mod_inv_vartime bn_inv m b) (mod_mul True m a)"

section \<open>Values in range\<close>

lemma mod_in_range [simp, intro]: "0 < m \<Longrightarrow> is_in_range m (a mod m)"
  by (simp add: is_in_range_def)

lemma is_in_range_mod: "is_in_range m a \<Longrightarrow> a mod m = a"
  by (simp add: is_in_range_def)

lemma is_in_range_zero [simp]: "0 < m \<Longrightarrow> is_in_range m 0"
  by (simp add: is_in_range_def)

lemma mod_check_simps [simp]:
  "is_in_range m a \<Longrightarrow> mod_check m a = Inr ()"
  "\<not> is_in_range m a \<Longrightarrow> mod_check m a = Inl Assert_Failed"
  by (simp_all add: mod_check_def)

lemma mod_add_in_range [mod_simps]:
  "vt \<or> is_in_range m a \<and> is_in_range m b \<Longrightarrow> mod_add vt m a b = Inr ((a + b) mod m)"
  by (auto simp: mod_add_def)

lemma mod_sub_in_range [mod_simps]:
  "vt \<or> is_in_range m a \<and> is_in_range m b \<Longrightarrow> mod_sub vt m a b = Inr ((a - b) mod m)"
  by (auto simp: mod_sub_def)

lemma bn_top_in_range: "is_in_range m a \<Longrightarrow> bn_top a \<le> bn_top m"
  using bn_top_bounds(2) [of m] by (auto simp: is_in_range_def bn_top_le_iff)

lemma bn_top_product:
  assumes "is_in_range m a" "is_in_range m b"
  shows "bn_top (a * b) \<le> 2 * bn_top m"
proof -
  have "a * b \<le> m * m" "m < 2 ^ (64 * bn_top m)" "0 < m"
    using assms bn_top_bounds(2) [of m] by (auto simp: is_in_range_def intro: mult_mono)
  then have "a * b < 2 ^ (64 * bn_top m) * 2 ^ (64 * bn_top m)"
    by (intro order_le_less_trans [OF _ mult_strict_mono]) auto
  then show ?thesis
    using assms by (simp add: is_in_range_def bn_top_le_iff flip: power_add)
qed

lemma valid_modulus_words:
  assumes "is_valid_modulus m"
  shows "bn_top m \<le> MAX_MODULUS_WORDS"
  using assms unfolding is_valid_modulus_def bn_top_def MAX_MODULUS_WORDS_def MAX_MODULUS_BITS_def
  by (auto intro: order_trans [OF div_le_mono])

lemma barrett_ok_valid: "barrett_ok m \<Longrightarrow> is_valid_modulus m" "barrett_ok m \<Longrightarrow> 1 < m" "barrett_ok m \<Longrightarrow> odd m"
  by (simp_all add: barrett_ok_def is_valid_modulus_def)

lemma mod_mul_in_range [mod_simps]:
  assumes "vt \<or> barrett_ok m \<and> is_in_range m a \<and> is_in_range m b"
  shows "mod_mul vt m a b = Inr ((a * b) mod m)"
proof (cases vt)
  case True
  then show ?thesis by (simp add: mod_mul_def)
next
  case False
  with assms have *: "barrett_ok m" "is_in_range m a" "is_in_range m b" by auto
  have "bn_top a + bn_top b \<le> 2 * MAX_MODULUS_WORDS"
    using bn_top_in_range [OF *(2)] bn_top_in_range [OF *(3)]
      valid_modulus_words [OF barrett_ok_valid(1) [OF *(1)]] by linarith
  moreover have "0 \<le> a * b" using * by (simp add: is_in_range_def)
  ultimately show ?thesis
    using * False bn_top_product [OF *(2,3)] by (auto simp: mod_mul_def barrett_mod_exact)
qed

text \<open>
  On an operand of at most twice the words of the modulus the reduction gives the remainder, with the
  sign of the operand in a vartime scope.
\<close>

lemma mod_mod_eq:
  assumes "1 < m" "bn_top x \<le> 2 * bn_top m" "vt \<or> barrett_ok m \<and> 0 \<le> x"
  shows "mod_mod vt m x = Inr (if 0 \<le> x then x mod m else - ((- x) mod m))"
  using assms by (subst mod_mod.simps) (auto simp: mod_reduce_def barrett_mod_exact sgn_if)

lemma mod_neg_in_range [mod_simps]:
  assumes "is_in_range m a"
  shows "mod_neg vt m a = Inr ((- a) mod m)"
proof (cases "a = 0")
  case True
  with assms show ?thesis
    by (auto simp: mod_neg_def sub_fixed_top_def is_in_range_def)
next
  case False
  with assms have *: "(m - a) mod m = m - a" "(- a) mod m = m - a"
    by (auto simp: is_in_range_def zmod_zminus1_eq_if)
  with assms False show ?thesis
    by (auto simp: mod_neg_def sub_fixed_top_def is_in_range_def)
qed

text \<open>Outside a vartime scope an unreduced operand is always caught.\<close>

lemma mod_ops_reject_unreduced:
  assumes "\<not> is_in_range m a \<or> \<not> is_in_range m b"
  shows "mod_add False m a b = Inl Assert_Failed"
    and "mod_sub False m a b = Inl Assert_Failed"
    and "mod_mul False m a b = Inl Assert_Failed"
  using assms by (cases "is_in_range m a"; auto simp: mod_add_def mod_sub_def mod_mul_def)+

lemma mod_int_eq:
  assumes "1 < m" "\<bar>a\<bar> < 2 ^ 64" "vt \<or> barrett_ok m"
  shows "mod_int vt m a = Inr (a mod m)"
proof -
  have "bn_top \<bar>a\<bar> \<le> 1" using assms(2) by (simp add: bn_top_le_iff)
  then have "bn_top \<bar>a\<bar> \<le> 2 * bn_top m" using bn_top_bounds(3) [of m] assms(1) by linarith
  then have *: "(if m \<le> \<bar>a\<bar> then mod_mod vt m \<bar>a\<bar> else Inr \<bar>a\<bar>) = Inr (\<bar>a\<bar> mod m)"
    using assms(1,3) by (auto simp: mod_mod_eq)
  show ?thesis
  proof (cases "a < 0 \<and> \<bar>a\<bar> mod m \<noteq> 0")
    case True
    have "mod_neg vt m (\<bar>a\<bar> mod m) = Inr ((- (\<bar>a\<bar> mod m)) mod m)"
      using assms by (intro mod_neg_in_range) auto
    also have "(- (\<bar>a\<bar> mod m)) mod m = a mod m"
      using True by (simp add: mod_minus_eq)
    finally have "mod_neg vt m (\<bar>a\<bar> mod m) = Inr (a mod m)" .
    then show ?thesis unfolding mod_int_def Let_def * using True by auto
  next
    case False
    moreover have "m \<noteq> a mod m"
      using pos_mod_bound [of m a] assms by linarith
    ultimately have "\<bar>a\<bar> mod m = a mod m"
      by (cases "a < 0") (auto simp: zmod_zminus1_eq_if split: if_splits)
    then show ?thesis unfolding mod_int_def Let_def * using False by auto
  qed
qed

section \<open>Congruence\<close>

definition eqm :: "int \<Rightarrow> int \<Rightarrow> int \<Rightarrow> bool" where
  "eqm q a b \<longleftrightarrow> a mod q = b mod q"

lemma eqm_refl [simp, intro]: "eqm q a a"
  by (simp add: eqm_def)

lemma eqm_sym: "eqm q a b \<Longrightarrow> eqm q b a"
  by (simp add: eqm_def)

lemma eqm_trans [trans]: "eqm q a b \<Longrightarrow> eqm q b c \<Longrightarrow> eqm q a c"
  by (simp add: eqm_def)

lemma eqm_eq_trans [trans]: "eqm q a b \<Longrightarrow> b = c \<Longrightarrow> eqm q a c"
  "a = b \<Longrightarrow> eqm q b c \<Longrightarrow> eqm q a c"
  by simp_all

lemma eqm_add: "eqm q a b \<Longrightarrow> eqm q c d \<Longrightarrow> eqm q (a + c) (b + d)"
  unfolding eqm_def by (metis mod_add_eq)

lemma eqm_diff: "eqm q a b \<Longrightarrow> eqm q c d \<Longrightarrow> eqm q (a - c) (b - d)"
  unfolding eqm_def by (metis mod_diff_eq)

lemma eqm_mult: "eqm q a b \<Longrightarrow> eqm q c d \<Longrightarrow> eqm q (a * c) (b * d)"
  unfolding eqm_def by (metis mod_mult_eq)

lemma eqm_minus: "eqm q a b \<Longrightarrow> eqm q (- a) (- b)"
  unfolding eqm_def by (metis mod_minus_eq)

lemma eqm_mod [simp]: "eqm q (a mod q) b \<longleftrightarrow> eqm q a b" "eqm q a (b mod q) \<longleftrightarrow> eqm q a b"
  by (simp_all add: eqm_def)

lemma eqm_sum: "(\<And>i. i \<in> A \<Longrightarrow> eqm q (f i) (g i)) \<Longrightarrow> eqm q (sum f A) (sum g A)"
  by (induction A rule: infinite_finite_induct) (auto intro: eqm_add)

lemma eqm_prod: "(\<And>i. i \<in> A \<Longrightarrow> eqm q (f i) (g i)) \<Longrightarrow> eqm q (prod f A) (prod g A)"
  by (induction A rule: infinite_finite_induct) (auto intro: eqm_mult)

lemma eqm_in_range: "eqm q a b \<Longrightarrow> is_in_range q a \<Longrightarrow> is_in_range q b \<Longrightarrow> a = b"
  by (simp add: eqm_def is_in_range_mod)

lemmas eqm_intros = eqm_add eqm_diff eqm_mult eqm_minus eqm_sum eqm_prod

lemma eqm_zero_iff: "eqm q a 0 \<longleftrightarrow> q dvd a"
  by (simp add: eqm_def dvd_eq_mod_eq_0)

section \<open>Prime moduli and inverses\<close>

text \<open>
  The orders of the supported curves are odd primes, so that every non-zero residue is coprime to
  them, and the constant-time reduction is exact on them (\<open>barrett_ok\<close>).
\<close>

definition field_modulus :: "int \<Rightarrow> bool" where
  "field_modulus q \<longleftrightarrow> 2 < q \<and> odd q \<and> list_all (\<lambda>d. coprime d q) [1..q - 1] \<and> barrett_ok q"

lemma field_modulus_barrett: "field_modulus q \<Longrightarrow> barrett_ok q"
  by (simp add: field_modulus_def)

lemma field_modulus_gt: "field_modulus q \<Longrightarrow> 2 < q"
  by (simp add: field_modulus_def)

lemma field_modulus_coprime:
  assumes "field_modulus q" and "a mod q \<noteq> 0"
  shows "coprime a q"
proof -
  have "0 < a mod q" "a mod q < q"
    using assms field_modulus_gt [OF assms(1)] pos_mod_sign [of q a] by (auto simp: le_less)
  then have "coprime (a mod q) q"
    using assms(1) by (auto simp: field_modulus_def list_all_iff)
  moreover have "coprime a q \<longleftrightarrow> coprime (a mod q) q"
    using field_modulus_gt [OF assms(1)] by (simp add: coprime_mod_left_iff)
  ultimately show ?thesis by simp
qed

lemma field_modulus_prod:
  assumes "field_modulus q" and "finite A" and "\<And>i. i \<in> A \<Longrightarrow> f i mod q \<noteq> 0"
  shows "coprime (prod f A) q"
  using assms by (intro prod_coprime_left) (auto intro: field_modulus_coprime)

text \<open>
  What the code relies on from its modular inverse, stated for the valid moduli and reduced operands
  it is called with.
\<close>

locale mod_inverse =
  fixes bn_inv :: bn_inverse
  assumes inv_coprime:
    "is_valid_modulus m \<Longrightarrow> is_in_range m a \<Longrightarrow> coprime a m \<Longrightarrow> \<exists>r. bn_inv a m = Some r"
    and inv_sound:
    "is_valid_modulus m \<Longrightarrow> is_in_range m a \<Longrightarrow> bn_inv a m = Some r \<Longrightarrow>
       is_in_range m r \<and> (a * r) mod m = 1"
begin

lemma vartime_inverse:
  assumes "is_valid_modulus m" "coprime a m" "is_in_range m a"
  shows "\<exists>r. mod_inv_vartime bn_inv m a = Inr r \<and> is_in_range m r \<and> eqm m (a * r) 1"
  using inv_coprime [OF assms(1,3,2)] inv_sound [OF assms(1,3)] assms(1)
  by (auto simp: mod_inv_vartime_def eqm_def is_valid_modulus_def)

lemma vartime_division:
  assumes "is_valid_modulus m" "coprime b m" "is_in_range m b"
  shows "\<exists>r. mod_div_vartime bn_inv m a b = Inr r \<and> is_in_range m r \<and> eqm m (r * b) a"
proof -
  obtain v where v: "mod_inv_vartime bn_inv m b = Inr v" "eqm m (b * v) 1"
    using vartime_inverse [OF assms] by blast
  have "eqm m ((a * v) mod m * b) (a * (b * v))"
    by (simp add: eqm_def mod_mult_left_eq mult.assoc mult.commute [of b])
  also have "eqm m (a * (b * v)) (a * 1)"
    by (intro eqm_mult v) simp
  finally have "eqm m ((a * v) mod m * b) a" by simp
  with v assms(1) show ?thesis
    by (simp add: mod_div_vartime_def mod_simps is_valid_modulus_def)
qed

lemma random_masking_correct:
  assumes ok: "barrett_ok m" and a: "is_in_range m a" "coprime a m"
    and masks: "\<And>i. is_in_range m (rnd i)"
    and k: "attempt \<le> k" "k < attempt + n" "rnd k \<noteq> 0" "coprime (rnd k) m"
  shows "\<exists>r. random_masking_loop bn_inv m a rnd attempt n = Inr r \<and> is_in_range m r \<and> eqm m (a * r) 1"
  using k
proof (induction n arbitrary: attempt)
  case 0
  then show ?case by simp
next
  case (Suc n)
  note m = barrett_ok_valid(1,2) [OF ok]
  let ?c = "rnd attempt" and ?p = "(a * rnd attempt) mod m"
  have p: "mod_mul False m a ?c = Inr ?p" "is_in_range m ?p"
    using a masks m ok by (simp_all add: mod_simps)
  have rec: "\<exists>r. random_masking_loop bn_inv m a rnd (Suc attempt) n = Inr r \<and> is_in_range m r \<and> eqm m (a * r) 1"
    if "attempt \<noteq> k"
    using that Suc.prems by (intro Suc.IH) auto
  show ?case
  proof (cases "bn_inv ?p m")
    case None
    have "attempt \<noteq> k"
    proof
      assume "attempt = k"
      then have "coprime (a * ?c) m" using a(2) Suc.prems by simp
      then have "coprime ?p m" using m(2) by (simp add: coprime_mod_left_iff)
      with inv_coprime [OF m(1) p(2)] None show False by auto
    qed
    with rec p None show ?thesis by (cases "?c = 0") auto
  next
    case (Some r)
    have r: "is_in_range m r" "eqm m (?p * r) 1"
      using inv_sound [OF m(1) p(2) Some] m(2) by (simp_all add: eqm_def)
    show ?thesis
    proof (cases "?c = 0")
      case True
      then have "attempt \<noteq> k" using Suc.prems by auto
      with rec True show ?thesis by simp
    next
      case False
      let ?s = "(r * ?c) mod m"
      have "random_masking_loop bn_inv m a rnd attempt (Suc n) = Inr ?s"
        using False p Some r(1) masks ok by (simp add: mod_simps)
      moreover have "eqm m (a * ?s) (?p * r)"
        by (simp add: eqm_def mod_mult_right_eq mod_mult_left_eq algebra_simps)
      ultimately show ?thesis
        using r(2) m(2) by (auto intro: eqm_trans)
    qed
  qed
qed

end

end
