(* ===== verification/Lagrange.thy ===== *)
theory Lagrange
  imports Modular
begin

text \<open>
  Polynomial evaluation and Lagrange interpolation of \<^verbatim>\<open>crypto/lagrange.cpp\<close>, on scalars modulo the
  curve order and on curve points. Points are a type of class \<open>ab_group_add\<close> (the group of the curve
  library); \<open>smul k P\<close> is the scalar multiplication \<^verbatim>\<open>k * P\<close>.
  The main results are the correctness of \<^verbatim>\<open>horner_poly\<close> and that \<^verbatim>\<open>lagrange_interpolate\<close> evaluates
  the polynomial of degree below the number of points at any abscissa.
\<close>

section \<open>Curve points\<close>

primrec nmul :: "nat \<Rightarrow> 'p::ab_group_add \<Rightarrow> 'p" where
  "nmul 0 P = 0"
| "nmul (Suc n) P = P + nmul n P"

definition smul :: "int \<Rightarrow> 'p::ab_group_add \<Rightarrow> 'p" where
  "smul k P = (if 0 \<le> k then nmul (nat k) P else - nmul (nat (- k)) P)"

section \<open>Horner evaluation\<close>

definition horner_poly :: "bool \<Rightarrow> int \<Rightarrow> int list \<Rightarrow> int \<Rightarrow> int res" where
  "horner_poly vt q a x =
     bind_res (cb_assert (a \<noteq> []))
       (\<lambda>_. fold_res (\<lambda>ai b. bind_res (mod_mul vt q b x) (\<lambda>t. mod_add vt q ai t))
              (rev (butlast a)) (last a))"

definition horner_poly_point :: "'p::ab_group_add list \<Rightarrow> int \<Rightarrow> 'p res" where
  "horner_poly_point A x =
     bind_res (cb_assert (A \<noteq> [])) (\<lambda>_. Inr (fold (\<lambda>Ai B. Ai + smul x B) (rev (butlast A)) (last A)))"

text \<open>\<^verbatim>\<open>small_mul_vartime\<close> is double-and-add over the bits of a C \<^verbatim>\<open>unsigned\<close>.\<close>

function small_mul_loop :: "u32 \<Rightarrow> 'p::ab_group_add \<Rightarrow> 'p \<Rightarrow> 'p" where
  "small_mul_loop magnitude doubled result =
     (if magnitude = 0 then result
      else small_mul_loop (drop_bit 1 magnitude) (doubled + doubled)
             (if and magnitude 1 \<noteq> 0 then result + doubled else result))"
  by pat_completeness auto
termination
proof (relation "measure (\<lambda>(k, _, _). unat k)", simp, clarsimp)
  fix k :: u32
  assume "k \<noteq> 0"
  then have "unat k \<noteq> 0" by (simp add: unat_eq_zero)
  then show "unat (drop_bit (Suc 0) k) < unat k"
    by (simp add: unat_div drop_bit_Suc)
qed

declare small_mul_loop.simps [simp del]

definition small_mul_vartime :: "u32 \<Rightarrow> 'p::ab_group_add \<Rightarrow> 'p" where
  "small_mul_vartime magnitude P = small_mul_loop magnitude P 0"

definition horner_poly_small_vartime :: "'p::ab_group_add list \<Rightarrow> 32 word \<Rightarrow> 'p res" where
  "horner_poly_small_vartime A x =
     bind_res (cb_assert (A \<noteq> []))
       (\<lambda>_. let negative = sint x < 0; magnitude = (if negative then 0 - x else x)
             in Inr (fold (\<lambda>Ai B. let product = small_mul_vartime magnitude B
                                   in if negative then Ai - product else Ai + product)
                      (rev (butlast A)) (last A)))"

section \<open>Interpolation\<close>

text \<open>
  The vartime \<^verbatim>\<open>lagrange_basis\<close>: products of \<^verbatim>\<open>x - pid\<close> and \<^verbatim>\<open>current_pid - pid\<close> over the other
  participants, and their quotient.
\<close>

definition basis_step :: "int \<Rightarrow> int \<Rightarrow> int \<Rightarrow> int \<Rightarrow> int \<times> int \<Rightarrow> (int \<times> int) res" where
  "basis_step q x current_pid pid nd =
     bind_res (cb_assert (0 < pid))
       (\<lambda>_. if current_pid = pid then Inr nd
             else bind_res (mod_sub True q x pid) (\<lambda>a. bind_res (mod_mul True q (fst nd) a)
                 (\<lambda>numerator. bind_res (mod_sub True q current_pid pid) (\<lambda>b.
                    bind_res (mod_mul True q (snd nd) b) (\<lambda>denominator. Inr (numerator, denominator))))))"

definition lagrange_basis :: "bn_inverse \<Rightarrow> int \<Rightarrow> int \<Rightarrow> int list \<Rightarrow> int \<Rightarrow> int res" where
  "lagrange_basis bn_inv q x pids current_pid =
     bind_res (fold_res (basis_step q x current_pid) pids (1, 1))
       (\<lambda>(numerator, denominator). mod_div_vartime bn_inv q numerator denominator)"

definition interpolate_step ::
  "bool \<Rightarrow> bn_inverse \<Rightarrow> int \<Rightarrow> int \<Rightarrow> int list \<Rightarrow> int \<times> int \<Rightarrow> int \<Rightarrow> int res" where
  "interpolate_step vt bn_inv q x all_pids sp secret =
     bind_res (lagrange_basis bn_inv q x all_pids (snd sp)) (\<lambda>lambda.
     bind_res (mod_mul vt q lambda (fst sp)) (\<lambda>t. mod_add vt q secret t))"

definition lagrange_partial_interpolate ::
  "bool \<Rightarrow> bn_inverse \<Rightarrow> int \<Rightarrow> int \<Rightarrow> int list \<Rightarrow> int list \<Rightarrow> int list \<Rightarrow> int res" where
  "lagrange_partial_interpolate vt bn_inv q x shares pids_for_shares all_pids =
     bind_res (cb_assert (length pids_for_shares = length shares)) (\<lambda>_.
     bind_res (cb_assert (length shares \<le> length all_pids)) (\<lambda>_.
     fold_res (interpolate_step vt bn_inv q x all_pids) (zip shares pids_for_shares) 0))"

definition lagrange_interpolate ::
  "bool \<Rightarrow> bn_inverse \<Rightarrow> int \<Rightarrow> int \<Rightarrow> int list \<Rightarrow> int list \<Rightarrow> int res" where
  "lagrange_interpolate vt bn_inv q x shares pids =
     bind_res (cb_assert (length shares = length pids))
       (\<lambda>_. lagrange_partial_interpolate vt bn_inv q x shares pids pids)"

definition interpolate_exponent_step ::
  "bn_inverse \<Rightarrow> int \<Rightarrow> int \<Rightarrow> int list \<Rightarrow> 'p \<times> int \<Rightarrow> 'p::ab_group_add \<Rightarrow> 'p res" where
  "interpolate_exponent_step bn_inv q x all_pids sp R =
     bind_res (lagrange_basis bn_inv q x all_pids (snd sp)) (\<lambda>lambda. Inr (R + smul lambda (fst sp)))"

definition lagrange_partial_interpolate_exponent ::
  "bn_inverse \<Rightarrow> int \<Rightarrow> int \<Rightarrow> 'p::ab_group_add list \<Rightarrow> int list \<Rightarrow> int list \<Rightarrow> 'p res" where
  "lagrange_partial_interpolate_exponent bn_inv q x shares pids_for_shares all_pids =
     bind_res (cb_assert (length shares = length pids_for_shares)) (\<lambda>_.
     bind_res (cb_assert (length shares \<le> length all_pids)) (\<lambda>_.
     bind_res (cb_assert (0 < length shares)) (\<lambda>_.
     fold_res (interpolate_exponent_step bn_inv q x all_pids) (zip shares pids_for_shares) 0)))"

definition lagrange_interpolate_exponent ::
  "bn_inverse \<Rightarrow> int \<Rightarrow> int \<Rightarrow> 'p::ab_group_add list \<Rightarrow> int list \<Rightarrow> 'p res" where
  "lagrange_interpolate_exponent bn_inv q x shares pids =
     bind_res (cb_assert (length shares = length pids))
       (\<lambda>_. lagrange_partial_interpolate_exponent bn_inv q x shares pids pids)"

section \<open>Scalar multiplication\<close>

lemma nmul_add: "nmul (m + n) P = nmul m P + nmul n P"
  by (induction m) (simp_all add: algebra_simps)

lemma nmul_mult: "nmul (m * n) P = nmul m (nmul n P)"
  by (induction m) (simp_all add: nmul_add)

lemma nmul_plus: "nmul n (P + Q) = nmul n P + nmul n Q"
  by (induction n) (simp_all add: algebra_simps)

lemma nmul_zero [simp]: "nmul n 0 = 0"
  by (induction n) simp_all

lemma nmul_minus: "nmul n (- P) = - nmul n P"
  using nmul_plus [of n P "- P"] by (simp add: eq_neg_iff_add_eq_0 add.commute)

lemma smul_of_nat [simp]: "smul (int n) P = nmul n P"
  by (simp add: smul_def)

lemma smul_zero [simp]: "smul k 0 = 0" "smul 0 P = 0"
  by (simp_all add: smul_def)

lemma smul_one [simp]: "smul 1 P = P"
  by (simp add: smul_def)

lemma smul_minus: "smul (- k) P = - smul k P"
  by (auto simp: smul_def)

lemma nmul_diff: "n \<le> m \<Longrightarrow> nmul (m - n) P = nmul m P - nmul n P"
  using nmul_add [of "m - n" n P] by simp

lemma smul_diff_nat: "smul (int a - int b) P = nmul a P - nmul b P"
proof (cases "b \<le> a")
  case True
  then show ?thesis by (simp add: nmul_diff flip: of_nat_diff)
next
  case False
  then have "int a - int b = - int (b - a)" by (simp add: of_nat_diff)
  with False show ?thesis by (simp add: smul_minus nmul_diff del: of_nat_diff)
qed

lemma int_eq_diff_nat: "k = int (nat k) - int (nat (- k))"
  by simp

lemma smul_add: "smul (k + l) P = smul k P + smul l P"
proof -
  let ?a = "nat k" and ?b = "nat (- k)" and ?c = "nat l" and ?d = "nat (- l)"
  have k: "smul k P = nmul ?a P - nmul ?b P" and l: "smul l P = nmul ?c P - nmul ?d P"
    using smul_diff_nat [of ?a ?b P, folded int_eq_diff_nat]
      smul_diff_nat [of ?c ?d P, folded int_eq_diff_nat] by simp_all
  have "k + l = int (?a + ?c) - int (?b + ?d)" by simp
  then have "smul (k + l) P = nmul (?a + ?c) P - nmul (?b + ?d) P" by (simp only: smul_diff_nat)
  then show ?thesis unfolding k l by (simp add: nmul_add algebra_simps)
qed

lemma smul_diff: "smul (k - l) P = smul k P - smul l P"
  using smul_add [of k "- l" P] by (simp add: smul_minus)

lemma smul_plus: "smul k (P + Q) = smul k P + smul k Q"
  by (auto simp: smul_def nmul_plus)

lemma smul_neg: "smul k (- P) = - smul k P"
  by (auto simp: smul_def nmul_minus)

lemma smul_smul: "smul k (smul l P) = smul (k * l) P"
proof -
  have nn: "smul (int a) (smul (int b) P) = smul (int a * int b) P" for a b
    by (metis nmul_mult of_nat_mult smul_of_nat)
  obtain a b where k: "k = int a \<or> k = - int a" and l: "l = int b \<or> l = - int b"
    by (meson int_cases2)
  then show ?thesis
    by (elim disjE) (simp_all only: smul_minus smul_neg nn mult_minus_left mult_minus_right minus_minus)
qed

lemma smul_sum: "smul (sum f A) P = (\<Sum>i\<in>A. smul (f i) P)"
  by (induction A rule: infinite_finite_induct) (simp_all add: smul_add)

text \<open>Reducing the scalar does not matter on a point whose order divides the modulus.\<close>

lemma smul_multiple: "smul q P = 0 \<Longrightarrow> smul (k * q) P = 0"
  by (simp flip: smul_smul)

lemma smul_mod: "smul q P = 0 \<Longrightarrow> smul (k mod q) P = smul k P"
  using smul_add [of "k div q * q" "k mod q" P] by (simp add: smul_multiple)

lemma smul_eqm: "smul q P = 0 \<Longrightarrow> eqm q k l \<Longrightarrow> smul k P = smul l P"
  by (metis eqm_def smul_mod)

section \<open>Horner evaluation is polynomial evaluation\<close>

definition poly_eval :: "int list \<Rightarrow> int \<Rightarrow> int" where
  "poly_eval b x = foldr (\<lambda>a acc. a + x * acc) b 0"

lemma poly_eval_simps [simp]:
  "poly_eval [] x = 0"
  "poly_eval (a # b) x = a + x * poly_eval b x"
  by (simp_all add: poly_eval_def)

lemma poly_eval_snoc: "poly_eval (b @ [a]) x = poly_eval b x + a * x ^ length b"
  by (induction b) (simp_all add: algebra_simps)

lemma poly_eval_monomials: "poly_eval b x = (\<Sum>k < length b. b ! k * x ^ k)"
  by (induction b rule: rev_induct) (simp_all add: poly_eval_snoc nth_append)

lemma horner_fold:
  assumes q: "0 < q" "vt \<or> barrett_ok q" and "list_all (is_in_range q) a" "is_in_range q x" "is_in_range q b"
  shows "\<exists>r. fold_res (\<lambda>ai b. bind_res (mod_mul vt q b x) (\<lambda>t. mod_add vt q ai t)) (rev a) b = Inr r
     \<and> is_in_range q r \<and> eqm q r (poly_eval a x + b * x ^ length a)"
  using assms(3,5)
proof (induction a arbitrary: b rule: rev_induct)
  case Nil
  then show ?case by simp
next
  case (snoc c a)
  let ?b = "(c + (b * x) mod q) mod q"
  have step: "bind_res (mod_mul vt q b x) (\<lambda>t. mod_add vt q c t) = Inr ?b"
    using snoc.prems q assms(4) by (auto simp: mod_simps)
  obtain r where r: "fold_res (\<lambda>ai b. bind_res (mod_mul vt q b x) (\<lambda>t. mod_add vt q ai t)) (rev a) ?b = Inr r"
    "is_in_range q r" "eqm q r (poly_eval a x + ?b * x ^ length a)"
    using snoc.IH [of ?b] snoc.prems assms(1) by auto
  have "eqm q ?b (c + b * x)" by (simp add: eqm_def mod_simps mod_add_right_eq)
  then have "eqm q (poly_eval a x + ?b * x ^ length a) (poly_eval a x + (c + b * x) * x ^ length a)"
    by (intro eqm_intros) auto
  also have "\<dots> = poly_eval (a @ [c]) x + b * x ^ length (a @ [c])"
    by (simp add: poly_eval_snoc algebra_simps)
  finally show ?case using r step by (auto intro: eqm_trans)
qed

theorem horner_poly_correct:
  assumes q: "0 < q" "vt \<or> barrett_ok q" and "a \<noteq> []" "list_all (is_in_range q) a" "is_in_range q x"
  shows "horner_poly vt q a x = Inr (poly_eval a x mod q)"
proof -
  have split: "a = butlast a @ [last a]" using assms(3) by simp
  then have "list_all (is_in_range q) (butlast a)" "is_in_range q (last a)"
    using assms(3,4) by (auto simp: list_all_iff dest: in_set_butlastD)
  then obtain r where r: "horner_poly vt q a x = Inr r" "is_in_range q r"
    "eqm q r (poly_eval (butlast a) x + last a * x ^ length (butlast a))"
    using horner_fold [OF q _ assms(5), of "butlast a" "last a"] assms(3)
    by (auto simp: horner_poly_def)
  have "poly_eval (butlast a) x + last a * x ^ length (butlast a) = poly_eval a x"
    by (subst (3) split) (simp only: poly_eval_snoc)
  with r have "r = poly_eval a x mod q" by (simp add: eqm_def is_in_range_mod)
  with r show ?thesis by simp
qed

lemma horner_poly_reject_empty: "horner_poly vt q [] x = Inl Assert_Failed"
  by (simp add: horner_poly_def)

lemma small_mul_loop_correct: "small_mul_loop k D R = R + smul (uint k) D"
proof (induction k D R rule: small_mul_loop.induct)
  case (1 k D R)
  show ?case
  proof (cases "k = 0")
    case True
    then show ?thesis by (subst small_mul_loop.simps) simp
  next
    case False
    have k: "uint k = 2 * uint (drop_bit 1 k) + uint (and k 1)"
      by (simp add: drop_bit_Suc uint_div and_one_eq uint_mod flip: mod_2_eq_odd)
    have odd: "and k 1 \<noteq> 0 \<Longrightarrow> uint (and k 1) = 1" by (auto simp: and_one_eq)
    have "smul (uint (drop_bit 1 k)) (D + D) = smul (2 * uint (drop_bit 1 k)) D"
      by (simp only: smul_plus mult_2 smul_add)
    with 1 False k odd show ?thesis
      by (subst small_mul_loop.simps) (auto simp: smul_add add.assoc algebra_simps)
  qed
qed

lemma small_mul_vartime_correct: "small_mul_vartime k P = smul (uint k) P"
  by (simp add: small_mul_vartime_def small_mul_loop_correct)

text \<open>
  The small-scalar evaluation agrees with \<^verbatim>\<open>horner_poly\<close> for every C \<^verbatim>\<open>int\<close>, \<^verbatim>\<open>INT_MIN\<close> included, where
  the magnitude is computed in unsigned arithmetic.
\<close>

lemma sint_eq_uint_if:
  fixes x :: "32 word"
  shows "sint x = uint x - (if bit x 31 then 2 ^ 32 else 0)"
  using take_bit_int_eq_self [of "uint x" 32] uint_lt2p [of x]
  by (simp add: sint_uint signed_take_bit_eq_take_bit_minus bit_uint_iff)

lemma magnitude_of_int:
  fixes x :: "32 word"
  shows "uint (if sint x < 0 then 0 - x else x) = \<bar>sint x\<bar>"
proof -
  have b: "0 \<le> uint x" "uint x < 2 ^ 32" using uint_lt2p [of x] by simp_all
  show ?thesis
  proof (cases "sint x < 0")
    case True
    with b have s: "sint x = uint x - 2 ^ 32" by (auto simp: sint_eq_uint_if split: if_splits)
    then have "bit x 31" using True b by (auto simp: sint_eq_uint_if split: if_splits)
    then have "uint x \<noteq> 0" by (metis bit_0_eq bot_fun_def bot_bool_def unsigned_eq_0_iff)
    then have "uint (- x) = 2 ^ 32 - uint x"
      using b by (simp add: uint_word_ariths zmod_zminus1_eq_if)
    with True s b show ?thesis by simp
  next
    case False
    with b have "sint x = uint x" by (auto simp: sint_eq_uint_if split: if_splits)
    with False show ?thesis by simp
  qed
qed

theorem horner_poly_small_vartime_eq:
  "horner_poly_small_vartime A x = horner_poly_point A (sint x)"
proof -
  let ?m = "if sint x < 0 then 0 - x else x"
  have "(let product = small_mul_vartime ?m B in if sint x < 0 then Ai - product else Ai + product)
      = Ai + smul (sint x) B" for Ai B :: 'a
    using magnitude_of_int [of x] smul_minus [of "sint x" B]
    by (cases "sint x < 0") (simp_all add: Let_def small_mul_vartime_correct)
  then show ?thesis by (simp add: horner_poly_small_vartime_def horner_poly_point_def Let_def)
qed

section \<open>The interpolation identity\<close>

text \<open>
  The weights of the interpolation points \<open>S\<close> at \<open>x\<close>, with \<open>iv\<close> an inverse modulo \<open>q\<close>. The two facts
  that carry the proof: multiplying a weight by \<open>i - a\<close> removes \<open>a\<close> from the point set, and the
  weights of a non-empty set add up to one.
\<close>

definition weight :: "(int \<Rightarrow> int) \<Rightarrow> int set \<Rightarrow> int \<Rightarrow> int \<Rightarrow> int" where
  "weight iv S x i = (\<Prod>j\<in>S - {i}. (x - j) * iv (i - j))"

definition separated :: "int \<Rightarrow> int set \<Rightarrow> bool" where
  "separated q S \<longleftrightarrow> (\<forall>i\<in>S. \<forall>j\<in>S. i \<noteq> j \<longrightarrow> (i - j) mod q \<noteq> 0)"

lemma separated_mono: "separated q S \<Longrightarrow> T \<subseteq> S \<Longrightarrow> separated q T"
  unfolding separated_def by (meson subsetD)

lemma weight_remove:
  assumes iv: "\<And>a. a mod q \<noteq> 0 \<Longrightarrow> eqm q (a * iv a) 1"
    and S: "finite S" "separated q S" "i \<in> S" "a \<in> S"
  shows "eqm q (weight iv S x i * (i - a)) (if i = a then 0 else (x - a) * weight iv (S - {a}) x i)"
proof (cases "i = a")
  case True
  then show ?thesis by simp
next
  case False
  let ?w = "weight iv (S - {a}) x i"
  have ins: "S - {i} = insert a (S - {a} - {i})" using S False by auto
  have w: "weight iv S x i = (x - a) * iv (i - a) * ?w"
    unfolding weight_def by (subst ins, subst prod.insert) (use S(1) in auto)
  have "eqm q ((i - a) * iv (i - a)) 1"
    using S False by (intro iv) (auto simp: separated_def)
  then have "eqm q ((x - a) * ?w * ((i - a) * iv (i - a))) ((x - a) * ?w * 1)"
    by (intro eqm_mult) auto
  moreover have "weight iv S x i * (i - a) = (x - a) * ?w * ((i - a) * iv (i - a))"
    unfolding w by (simp only: mult_ac)
  ultimately show ?thesis using False by (simp only: if_False mult_1_right)
qed

lemma weighted_sum_remove:
  assumes iv: "\<And>a. a mod q \<noteq> 0 \<Longrightarrow> eqm q (a * iv a) 1"
    and S: "finite S" "separated q S" "a \<in> S"
  shows "eqm q (\<Sum>i\<in>S. weight iv S x i * (i - a) * g i)
               ((x - a) * (\<Sum>i\<in>S - {a}. weight iv (S - {a}) x i * g i))"
proof -
  let ?h = "\<lambda>i. (if i = a then 0 else (x - a) * weight iv (S - {a}) x i) * g i"
  have "eqm q (\<Sum>i\<in>S. weight iv S x i * (i - a) * g i) (\<Sum>i\<in>S. ?h i)"
    using S by (intro eqm_sum eqm_mult weight_remove [OF iv]) auto
  also have "(\<Sum>i\<in>S. ?h i) = (\<Sum>i\<in>S - {a}. ?h i)"
    using S by (intro sum.mono_neutral_right) auto
  also have "\<dots> = (x - a) * (\<Sum>i\<in>S - {a}. weight iv (S - {a}) x i * g i)"
    by (auto simp: sum_distrib_left mult.assoc intro!: sum.cong)
  finally show ?thesis .
qed

lemma weights_sum_one:
  assumes iv: "\<And>a. a mod q \<noteq> 0 \<Longrightarrow> eqm q (a * iv a) 1"
  shows "finite S \<Longrightarrow> S \<noteq> {} \<Longrightarrow> separated q S \<Longrightarrow> eqm q (\<Sum>i\<in>S. weight iv S x i) 1"
proof (induction "card S" arbitrary: S rule: less_induct)
  case less
  show ?case
  proof (cases "\<exists>a\<in>S. \<exists>b\<in>S. a \<noteq> b")
    case False
    then obtain a where "S = {a}" using less.prems(2) by blast
    then show ?thesis by (simp add: weight_def)
  next
    case True
    then obtain a b where ab: "a \<in> S" "b \<in> S" "a \<noteq> b" by blast
    let ?s = "\<Sum>i\<in>S. weight iv S x i"
    have one: "eqm q (\<Sum>i\<in>S. weight iv S x i * (i - c) * 1) ((x - c) * 1)"
      if c: "c \<in> S" "S - {c} \<noteq> {}" for c
    proof -
      have "eqm q (\<Sum>i\<in>S - {c}. weight iv (S - {c}) x i) 1"
        using less.prems c by (intro less.hyps card_Diff1_less) (auto intro: separated_mono)
      then have "eqm q ((x - c) * (\<Sum>i\<in>S - {c}. weight iv (S - {c}) x i * 1)) ((x - c) * 1)"
        by (intro eqm_mult) simp_all
      with weighted_sum_remove [OF iv less.prems(1,3) c(1), of x "\<lambda>_. 1"] show ?thesis
        by (rule eqm_trans)
    qed
    have "eqm q ((a - b) * ?s) ((x - b) - (x - a))"
    proof -
      have "(a - b) * ?s = (\<Sum>i\<in>S. weight iv S x i * (i - b) * 1) - (\<Sum>i\<in>S. weight iv S x i * (i - a) * 1)"
        by (simp add: sum_distrib_left algebra_simps flip: sum_subtractf)
      moreover have "S - {a} \<noteq> {}" "S - {b} \<noteq> {}" using ab by auto
      note eqm_diff [OF one [OF ab(2) this(2)] one [OF ab(1) this(1)]]
      ultimately show ?thesis by (simp only: mult_1_right)
    qed
    then have "eqm q (iv (a - b) * ((a - b) * ?s)) (iv (a - b) * (a - b))"
      by (intro eqm_mult) auto
    moreover have u: "eqm q ((a - b) * iv (a - b)) 1"
      using ab less.prems(3) by (intro iv) (auto simp: separated_def)
    have "eqm q ((a - b) * iv (a - b) * ?s) (1 * ?s)"
      using u by (intro eqm_mult) auto
    ultimately show ?thesis
      using u by (metis eqm_sym eqm_trans mult.assoc mult.commute mult_1)
  qed
qed

lemma interpolation_identity:
  assumes iv: "\<And>a. a mod q \<noteq> 0 \<Longrightarrow> eqm q (a * iv a) 1"
  shows "finite S \<Longrightarrow> separated q S \<Longrightarrow> length b \<le> card S \<Longrightarrow>
     eqm q (\<Sum>i\<in>S. weight iv S x i * poly_eval b i) (poly_eval b x)"
proof (induction b arbitrary: S)
  case Nil
  then show ?case by simp
next
  case (Cons c b)
  then obtain a where a: "a \<in> S" by fastforce
  let ?w = "weight iv S x" and ?g = "poly_eval b"
  have "(\<Sum>i\<in>S. ?w i * poly_eval (c # b) i)
      = c * (\<Sum>i\<in>S. ?w i) + a * (\<Sum>i\<in>S. ?w i * ?g i) + (\<Sum>i\<in>S. ?w i * (i - a) * ?g i)"
    by (simp add: sum_distrib_left algebra_simps flip: sum.distrib)
  moreover have "eqm q (\<Sum>i\<in>S. ?w i) 1"
    using Cons.prems a by (intro weights_sum_one [OF iv]) auto
  moreover have "eqm q (\<Sum>i\<in>S. ?w i * ?g i) (?g x)"
    using Cons.prems by (intro Cons.IH) auto
  moreover have "eqm q (\<Sum>i\<in>S. ?w i * (i - a) * ?g i) ((x - a) * ?g x)"
  proof -
    have "eqm q (\<Sum>i\<in>S - {a}. weight iv (S - {a}) x i * ?g i) (?g x)"
      using Cons.prems a by (intro Cons.IH) (auto intro: separated_mono simp: card_Diff_singleton)
    then show ?thesis
      using weighted_sum_remove [OF iv Cons.prems(1,2) a, of x ?g] by (auto intro: eqm_trans eqm_mult)
  qed
  ultimately have "eqm q (\<Sum>i\<in>S. ?w i * poly_eval (c # b) i) (c * 1 + a * ?g x + (x - a) * ?g x)"
    by (simp only:) (intro eqm_add eqm_mult; simp)
  then show ?case by (simp add: algebra_simps)
qed

section \<open>The interpolation routines\<close>

definition modinv :: "int \<Rightarrow> int \<Rightarrow> int" where
  "modinv q a = (SOME r. eqm q (a * r) 1)"

lemma modinv_coprime:
  assumes "coprime a q"
  shows "eqm q (a * modinv q a) 1"
  unfolding modinv_def
proof (rule someI_ex)
  obtain u v where "u * a + v * q = 1"
    using bezout_int [of a q] assms by (auto simp: coprime_iff_gcd_eq_1)
  then have "a * u = 1 + (- v) * q" by (simp add: algebra_simps)
  then show "\<exists>r. eqm q (a * r) 1" by (metis eqm_def mod_mult_self1)
qed

lemma modinv_prime: "field_modulus q \<Longrightarrow> a mod q \<noteq> 0 \<Longrightarrow> eqm q (a * modinv q a) 1"
  by (rule modinv_coprime) (rule field_modulus_coprime)

lemma eqm_cancel:
  assumes "coprime d q" "eqm q (a * d) (b * d)"
  shows "eqm q a b"
proof -
  have "eqm q (a * d * modinv q d) (b * d * modinv q d)"
    by (rule eqm_mult [OF assms(2) eqm_refl])
  moreover have "eqm q (c * (d * modinv q d)) (c * 1)" for c
    by (intro eqm_mult modinv_coprime assms(1)) auto
  ultimately show ?thesis by (metis eqm_sym eqm_trans mult.assoc mult_1_right)
qed

text \<open>What a valid set of interpolation points is: positive, distinct and distinct modulo \<open>q\<close>.\<close>

definition good_pids :: "int \<Rightarrow> int list \<Rightarrow> bool" where
  "good_pids q pids \<longleftrightarrow> distinct pids \<and> list_all (\<lambda>p. 0 < p) pids
     \<and> list_all (\<lambda>p. list_all (\<lambda>p'. p = p' \<or> (p - p') mod q \<noteq> 0) pids) pids"

lemma good_pids_simps:
  assumes "good_pids q pids"
  shows "distinct pids" "p \<in> set pids \<Longrightarrow> 0 < p" "separated q (set pids)"
  using assms unfolding good_pids_def separated_def list_all_iff by (simp_all, meson)

lemma good_pids_subset:
  assumes "good_pids q pids" "distinct pids'" "set pids' \<subseteq> set pids"
  shows "good_pids q pids'"
  using assms unfolding good_pids_def list_all_iff by (meson subsetD)

lemma basis_step_Inr:
  "0 < pid \<Longrightarrow> basis_step q x cur pid (n, d) =
     Inr (if cur = pid then (n, d) else ((n * ((x - pid) mod q)) mod q, (d * ((cur - pid) mod q)) mod q))"
  by (simp add: basis_step_def mod_add_def mod_sub_def mod_mul_def)

lemma basis_fold:
  assumes "1 < q" "distinct pids" "\<And>p. p \<in> set pids \<Longrightarrow> 0 < p" "is_in_range q n" "is_in_range q d"
  shows "\<exists>n' d'. fold_res (basis_step q x cur) pids (n, d) = Inr (n', d')
     \<and> is_in_range q n' \<and> is_in_range q d'
     \<and> eqm q n' (n * (\<Prod>j\<in>set pids - {cur}. x - j)) \<and> eqm q d' (d * (\<Prod>j\<in>set pids - {cur}. cur - j))"
  using assms
proof (induction pids arbitrary: n d)
  case Nil
  then show ?case by auto
next
  case (Cons p pids)
  show ?case
  proof (cases "cur = p")
    case True
    with Cons.prems have "set (p # pids) - {cur} = set pids - {cur}" by auto
    with Cons True show ?thesis by (simp add: basis_step_Inr)
  next
    case False
    let ?n = "(n * ((x - p) mod q)) mod q" and ?d = "(d * ((cur - p) mod q)) mod q"
    have set: "set (p # pids) - {cur} = insert p (set pids - {cur})" using False by auto
    have "p \<notin> set pids - {cur}" using Cons.prems by auto
    then have pr: "(\<Prod>j\<in>set (p # pids) - {cur}. f j) = f p * (\<Prod>j\<in>set pids - {cur}. f j)" for f :: "int \<Rightarrow> int"
      unfolding set by simp
    obtain n' d' where IH: "fold_res (basis_step q x cur) pids (?n, ?d) = Inr (n', d')"
      "is_in_range q n'" "is_in_range q d'"
      "eqm q n' (?n * (\<Prod>j\<in>set pids - {cur}. x - j))" "eqm q d' (?d * (\<Prod>j\<in>set pids - {cur}. cur - j))"
      using Cons.IH [of ?n ?d] Cons.prems by auto
    have r: "eqm q ((a * (b mod q)) mod q * c) (a * (b * c))" for a b c
      by (simp add: eqm_def mod_mult_left_eq mod_mult_right_eq mult.assoc)
    have "eqm q n' (n * (\<Prod>j\<in>set (p # pids) - {cur}. x - j))"
      unfolding pr by (rule eqm_trans [OF IH(4) r])
    moreover have "eqm q d' (d * (\<Prod>j\<in>set (p # pids) - {cur}. cur - j))"
      unfolding pr by (rule eqm_trans [OF IH(5) r])
    ultimately show ?thesis
      using IH(1-3) False Cons.prems by (simp add: basis_step_Inr)
  qed
qed

lemma lagrange_basis_nonpositive_pid:
  assumes "\<exists>p\<in>set pids. p \<le> 0"
  shows "lagrange_basis bn_inv q x pids cur = Inl Assert_Failed"
proof -
  have "fold_res (basis_step q x cur) pids nd = Inl Assert_Failed" for nd
    using assms
  proof (induction pids arbitrary: nd)
    case (Cons p pids)
    show ?case
    proof (cases "0 < p")
      case True
      with Cons show ?thesis by (cases nd) (auto simp: basis_step_Inr)
    qed (simp add: basis_step_def)
  qed simp
  then show ?thesis by (simp add: lagrange_basis_def)
qed

context mod_inverse
begin

lemma lagrange_basis_weight:
  assumes q: "field_modulus q" and pids: "good_pids q pids" and cur: "cur \<in> set pids"
  shows "\<exists>r. lagrange_basis bn_inv q x pids cur = Inr r \<and> is_in_range q r
     \<and> eqm q r (weight (modinv q) (set pids) x cur)"
proof -
  have q1: "1 < q" "odd q" using q by (auto simp: field_modulus_def)
  let ?N = "\<Prod>j\<in>set pids - {cur}. x - j" and ?D = "\<Prod>j\<in>set pids - {cur}. cur - j"
  obtain n d where nd: "fold_res (basis_step q x cur) pids (1, 1) = Inr (n, d)"
    "is_in_range q d" "eqm q n ?N" "eqm q d ?D"
    using basis_fold [of q pids 1 1 x cur] good_pids_simps [OF pids] q1
    by (auto simp: is_in_range_def)
  have D: "coprime ?D q"
    using good_pids_simps [OF pids] cur by (intro field_modulus_prod q) (auto simp: separated_def)
  then have d: "coprime d q"
    using nd(4) q1 by (metis coprime_mod_left_iff eqm_def not_one_less_zero)
  obtain r where r: "mod_div_vartime bn_inv q n d = Inr r" "is_in_range q r" "eqm q (r * d) n"
    using vartime_division [OF barrett_ok_valid(1) [OF field_modulus_barrett [OF q]] d nd(2)] by blast
  have "weight (modinv q) (set pids) x cur * ?D
      = (\<Prod>j\<in>set pids - {cur}. (x - j) * ((cur - j) * modinv q (cur - j)))"
    unfolding weight_def prod.distrib [symmetric] by (intro prod.cong) auto
  also have "eqm q \<dots> (\<Prod>j\<in>set pids - {cur}. (x - j) * 1)"
    using good_pids_simps [OF pids] cur
    by (intro eqm_prod eqm_mult modinv_prime q) (auto simp: separated_def)
  finally have w: "eqm q (weight (modinv q) (set pids) x cur * ?D) ?N" by simp
  have "eqm q (r * ?D) (r * d)" using nd(4) by (intro eqm_mult) (auto intro: eqm_sym)
  also note r(3)
  also note nd(3)
  also note eqm_sym [OF w]
  finally have "eqm q r (weight (modinv q) (set pids) x cur)" by (rule eqm_cancel [OF D])
  with r nd show ?thesis by (simp add: lagrange_basis_def)
qed

lemma partial_interpolate_fold:
  assumes q: "field_modulus q" and pids: "good_pids q all_pids"
    and sp: "\<And>s p. (s, p) \<in> set sps \<Longrightarrow> is_in_range q s \<and> p \<in> set all_pids" and acc: "is_in_range q acc"
  shows "\<exists>r. fold_res (interpolate_step vt bn_inv q x all_pids) sps acc = Inr r \<and> is_in_range q r
     \<and> eqm q r (acc + (\<Sum>(s, p)\<leftarrow>sps. weight (modinv q) (set all_pids) x p * s))"
  using sp acc
proof (induction sps arbitrary: acc)
  case Nil
  then show ?case by simp
next
  case (Cons sp sps)
  obtain s p where sp: "sp = (s, p)" by (cases sp)
  let ?w = "weight (modinv q) (set all_pids) x"
  have q0: "0 < q" using field_modulus_gt [OF q] by simp
  have s: "is_in_range q s" "p \<in> set all_pids" using Cons.prems(1) [of s p] sp by auto
  obtain l where l: "lagrange_basis bn_inv q x all_pids p = Inr l" "is_in_range q l" "eqm q l (?w p)"
    using lagrange_basis_weight [OF q pids s(2), of x] by auto
  let ?acc = "(acc + (l * s) mod q) mod q"
  have step: "interpolate_step vt bn_inv q x all_pids sp acc = Inr ?acc"
    using l s Cons.prems(2) q0 field_modulus_barrett [OF q] by (simp add: interpolate_step_def sp mod_simps)
  have acc: "eqm q ?acc (acc + ?w p * s)"
    using l(3) by (simp add: eqm_def mod_add_right_eq) (metis mod_add_right_eq mod_mult_left_eq)
  obtain r where r: "fold_res (interpolate_step vt bn_inv q x all_pids) sps ?acc = Inr r"
    "is_in_range q r" "eqm q r (?acc + (\<Sum>(s, p)\<leftarrow>sps. ?w p * s))"
    using Cons.IH [of ?acc] Cons.prems(1) q0 by auto
  have "eqm q r (acc + ?w p * s + (\<Sum>(s, p)\<leftarrow>sps. ?w p * s))"
    by (rule eqm_trans [OF r(3) eqm_add [OF acc eqm_refl]])
  with r step show ?case by (simp add: sp add.assoc)
qed

lemma partial_interpolate_weights:
  assumes q: "field_modulus q" and pids: "good_pids q all_pids" "set pids \<subseteq> set all_pids"
    and len: "length shares = length pids" "length pids \<le> length all_pids"
    and shares: "list_all (is_in_range q) shares"
  shows "lagrange_partial_interpolate vt bn_inv q x shares pids all_pids
     = Inr ((\<Sum>(s, p)\<leftarrow>zip shares pids. weight (modinv q) (set all_pids) x p * s) mod q)"
proof -
  have "\<And>s p. (s, p) \<in> set (zip shares pids) \<Longrightarrow> is_in_range q s \<and> p \<in> set all_pids"
    using shares pids(2) by (auto simp: list_all_iff dest: set_zip_leftD set_zip_rightD)
  from partial_interpolate_fold [OF q pids(1) this, of "zip shares pids" 0 vt x] field_modulus_gt [OF q]
  show ?thesis
    using len by (auto simp: lagrange_partial_interpolate_def eqm_def is_in_range_mod)
qed

text \<open>Interpolating the values of a polynomial of degree below the number of points evaluates it.\<close>

lemma interpolate_polynomial:
  assumes q: "field_modulus q" and pids: "good_pids q pids" and b: "length b \<le> length pids"
    and shares: "shares = map (\<lambda>p. poly_eval b p mod q) pids"
  shows "lagrange_interpolate vt bn_inv q x shares pids = Inr (poly_eval b x mod q)"
proof -
  let ?w = "weight (modinv q) (set pids) x"
  have sums: "(\<Sum>(s, p)\<leftarrow>zip shares pids. ?w p * s) = (\<Sum>p\<leftarrow>pids. ?w p * (poly_eval b p mod q))"
    unfolding shares by (simp add: zip_map1 zip_same_conv_map o_def case_prod_beta)
  have "(\<Sum>(s, p)\<leftarrow>zip shares pids. ?w p * s) = (\<Sum>p\<in>set pids. ?w p * (poly_eval b p mod q))"
    using sum_list_distinct_conv_sum_set [OF good_pids_simps(1) [OF pids]] sums by simp
  also have "eqm q \<dots> (\<Sum>p\<in>set pids. ?w p * poly_eval b p)"
    by (intro eqm_sum eqm_mult) auto
  also have "eqm q \<dots> (poly_eval b x)"
    using good_pids_simps [OF pids] b
    by (intro interpolation_identity modinv_prime q) (auto simp: distinct_card)
  finally have "eqm q (\<Sum>(s, p)\<leftarrow>zip shares pids. ?w p * s) (poly_eval b x)" .
  moreover have "list_all (is_in_range q) shares"
    using field_modulus_gt [OF q] by (simp add: shares list_all_iff)
  ultimately show ?thesis
    using partial_interpolate_weights [OF q pids, of pids shares vt x]
    by (simp add: lagrange_interpolate_def eqm_def shares)
qed

text \<open>The interpolation in the exponent is the scalar interpolation times the generator.\<close>

lemma partial_exponent_refines:
  assumes G: "smul q G = 0" and ne: "shares \<noteq> []"
    and scalar: "lagrange_partial_interpolate True bn_inv q x shares pids all_pids = Inr r"
  shows "lagrange_partial_interpolate_exponent bn_inv q x (map (\<lambda>s. smul s G) shares) pids all_pids
     = Inr (smul r G)"
proof -
  let ?f = "interpolate_step True bn_inv q x all_pids"
  let ?F = "interpolate_exponent_step bn_inv q x all_pids"
  have step: "fold_res ?F (zip (map (\<lambda>s. smul s G) ss) ps) (smul a G) = Inr (smul r G)"
    if "fold_res ?f (zip ss ps) a = Inr r" for ss ps a r
    using that
  proof (induction ss arbitrary: ps a)
    case (Cons s ss)
    show ?case
    proof (cases ps)
      case Nil
      then show ?thesis using Cons.prems by simp
    next
      case (Cons p ps')
      obtain l where l: "lagrange_basis bn_inv q x all_pids p = Inr l"
        and rest: "fold_res ?f (zip ss ps') ((a + (l * s) mod q) mod q) = Inr r"
        using Cons.prems Cons
        by (auto simp: res_simps interpolate_step_def [of True bn_inv q x all_pids "(s, p)" a] mod_mul_def mod_add_def)
      have "smul ((a + (l * s) mod q) mod q) G = smul a G + smul l (smul s G)"
        by (simp add: smul_mod [OF G] smul_add smul_smul)
      then show ?thesis using Cons.IH [OF rest] l Cons by (simp add: interpolate_exponent_step_def)
    qed
  qed simp
  show ?thesis
    using scalar step [of shares pids 0 r] ne
    by (auto simp: lagrange_partial_interpolate_def lagrange_partial_interpolate_exponent_def res_simps)
qed

end

end
