(* ===== verification/Secret_Sharing.thy ===== *)
theory Secret_Sharing
  imports Lagrange "HOL-Library.Multiset" "HOL-Library.Char_ord" "HOL-Library.List_Lexorder"
begin

text \<open>
  Secret sharing over access structures: \<^verbatim>\<open>crypto/secret_sharing.cpp\<close> and its header. An access
  structure is a tree of \<^verbatim>\<open>node_t\<close>; the parent pointer of a node is its position in the tree, so the
  operations that follow it take the path to the root. The generator of random scalars (\<^verbatim>\<open>drbg\<close> or the
  system generator) is the parameter \<open>gen\<close>, threading its state; \<open>pid\<close> is \<^verbatim>\<open>pid_from_name\<close>, a hash
  of the participant's name.
\<close>

section \<open>Nodes\<close>

type_synonym pname_t = string

text \<open>\<^verbatim>\<open>node_e\<close>; a value read from the wire may be outside the enumeration.\<close>

datatype node_e = NONE | LEAF | AND | OR | THRESHOLD | NODE_E_OTHER int

datatype node_t = Node (ntype: node_e) (nname: pname_t) (nthreshold: int) (nchildren: "node_t list")

definition get_n :: "node_t \<Rightarrow> nat" where
  "get_n node = length (nchildren node)"

definition get_sorted_children :: "node_t \<Rightarrow> node_t list" where
  "get_sorted_children node = sort_key nname (nchildren node)"

fun clone :: "node_t \<Rightarrow> node_t" where
  "clone (Node ty nm th ch) = Node ty nm th (map clone ch)"

definition add_child_node :: "node_t \<Rightarrow> node_t \<Rightarrow> node_t" where
  "add_child_node p c = Node (ntype p) (nname p) (nthreshold p) (nchildren p @ [c])"

fun validate_tree :: "bool \<Rightarrow> node_t \<Rightarrow> pname_t set \<Rightarrow> pname_t set res" where
  "validate_tree has_parent (Node ty nm th ch) names =
     (if nm = [] \<and> has_parent then error E_BADARG
      else if \<not> has_parent \<and> nm \<noteq> [] then error E_BADARG
      else if nm \<in> names then error E_BADARG
      else let names' = insert nm names; n = int (length ch);
               children = fold_res (\<lambda>c ns. validate_tree True c ns) ch names'
           in case ty of
                LEAF \<Rightarrow> if th \<noteq> 0 then error E_BADARG
                        else if n \<noteq> 0 then error E_BADARG else Inr names'
              | AND \<Rightarrow> if th \<noteq> 0 then error E_BADARG
                       else if n = 0 then error E_BADARG else children
              | OR \<Rightarrow> if th \<noteq> 0 then error E_BADARG
                      else if n = 0 then error E_BADARG else children
              | THRESHOLD \<Rightarrow> if th < 1 then error E_BADARG
                             else if n < th then error E_BADARG else children
              | _ \<Rightarrow> error E_BADARG)"

text \<open>\<^verbatim>\<open>find\<close>: the first node of that name in preorder, here with its ancestors up to the root.\<close>

fun find_path :: "node_t \<Rightarrow> pname_t \<Rightarrow> node_t list option"
and find_path_list :: "node_t list \<Rightarrow> pname_t \<Rightarrow> node_t list option" where
  "find_path (Node ty nm th ch) name =
     (if nm = name then Some [Node ty nm th ch]
      else case find_path_list ch name of
             Some path \<Rightarrow> Some (path @ [Node ty nm th ch]) | None \<Rightarrow> None)"
| "find_path_list [] name = None"
| "find_path_list (c # cs) name =
     (case find_path c name of Some path \<Rightarrow> Some path | None \<Rightarrow> find_path_list cs name)"

fun list_leaf_names :: "node_t \<Rightarrow> pname_t set" where
  "list_leaf_names (Node ty nm th ch) =
     (if ty = LEAF then {nm} else (\<Union>c\<in>set ch. list_leaf_names c))"

fun get_node_path :: "pname_t \<Rightarrow> bool \<Rightarrow> pname_t \<Rightarrow> pname_t" where
  "get_node_path parent_path has_parent nm = (if \<not> has_parent then [] else parent_path @ ''/'' @ nm)"

fun list_leaf_paths :: "bool \<Rightarrow> node_t \<Rightarrow> pname_t \<Rightarrow> pname_t list" where
  "list_leaf_paths has_parent (Node ty nm th ch) parent_path =
     (let path = get_node_path parent_path has_parent nm
      in if ty = LEAF then [path] else concat (map (\<lambda>c. list_leaf_paths True c path) ch))"

text \<open>
  \<^verbatim>\<open>get_path\<close>: the names from the root down to the node joined by slashes, skipping what is empty so
  far; the node comes with its ancestors.
\<close>

definition get_path :: "node_t list \<Rightarrow> pname_t" where
  "get_path path = fold (\<lambda>n p. if p = [] then nname n else nname n @ ''/'' @ p) path []"

section \<open>Quorum test\<close>

fun threshold_loop :: "int \<Rightarrow> int \<Rightarrow> bool res list \<Rightarrow> bool res" where
  "threshold_loop th cnt [] = Inr False"
| "threshold_loop th cnt (r # rs) =
     bind_res r (\<lambda>b. if \<not> b then threshold_loop th cnt rs
                     else if th \<le> cnt + 1 then Inr True else threshold_loop th (cnt + 1) rs)"

fun or_loop :: "bool res list \<Rightarrow> bool res" where
  "or_loop [] = Inr False"
| "or_loop (r # rs) = bind_res r (\<lambda>b. if b then Inr True else or_loop rs)"

fun and_loop :: "bool res list \<Rightarrow> bool res" where
  "and_loop [] = Inr True"
| "and_loop (r # rs) = bind_res r (\<lambda>b. if \<not> b then Inr False else and_loop rs)"

fun enough_for_quorum :: "pname_t set \<Rightarrow> node_t \<Rightarrow> bool res" where
  "enough_for_quorum names (Node ty nm th ch) =
     (let results = map (enough_for_quorum names) ch
      in case ty of
           LEAF \<Rightarrow> Inr (nm \<in> names)
         | OR \<Rightarrow> or_loop results
         | AND \<Rightarrow> and_loop results
         | THRESHOLD \<Rightarrow> threshold_loop th 0 results
         | NONE \<Rightarrow> Inr False
         | NODE_E_OTHER _ \<Rightarrow> Inl Assert_Failed)"

section \<open>Sharing\<close>

type_synonym 'r generator = "int \<Rightarrow> 'r \<Rightarrow> int \<times> 'r"

fun draw :: "'r generator \<Rightarrow> int \<Rightarrow> nat \<Rightarrow> 'r \<Rightarrow> int list \<times> 'r" where
  "draw gen q 0 r = ([], r)"
| "draw gen q (Suc n) r =
     (let (s, r') = gen q r; (ss, r'') = draw gen q n r' in (s # ss, r''))"

definition share_and :: "'r generator \<Rightarrow> int \<Rightarrow> int \<Rightarrow> nat \<Rightarrow> 'r \<Rightarrow> (int list \<times> 'r) res" where
  "share_and gen q x n r =
     bind_res (cb_assert (0 < n)) (\<lambda>_.
       let (ss, r') = draw gen q (n - 1) r
       in bind_res (fold_res (\<lambda>s sum. mod_add False q sum s) ss 0) (\<lambda>sum.
          bind_res (mod_sub False q x sum) (\<lambda>s0. Inr (s0 # ss, r'))))"

definition share_threshold ::
  "'r generator \<Rightarrow> int \<Rightarrow> int \<Rightarrow> int \<Rightarrow> nat \<Rightarrow> int list \<Rightarrow> 'r \<Rightarrow> (int list \<times> int list \<times> 'r) res" where
  "share_threshold gen q a threshold n pids r =
     bind_res (cb_assert (0 < threshold)) (\<lambda>_.
     bind_res (cb_assert (threshold \<le> int n)) (\<lambda>_.
     bind_res (cb_assert (n \<le> length pids)) (\<lambda>_.
       let (bs, r') = draw gen q (nat threshold - 1) r; b = a # bs
       in bind_res (map_res (\<lambda>p. bind_res (cb_assert (p \<noteq> 0)) (\<lambda>_. horner_poly False q b p)) (take n pids))
            (\<lambda>shares. Inr (shares, b, r')))))"

record ('p, 'r) share_state =
  ac_shares :: "pname_t \<rightharpoonup> int"
  ac_internal_shares :: "pname_t \<rightharpoonup> int"
  ac_internal_pub_shares :: "pname_t \<rightharpoonup> 'p"
  rng :: 'r

lemma size_zip_children:
  "(\<Sum>x\<leftarrow>zip ns as. f (fst x)) \<le> (\<Sum>n\<leftarrow>ns. (f n :: nat))"
  by (induction ns as rule: list_induct2') auto

lemma sum_sorted_children: "(\<Sum>n\<leftarrow>get_sorted_children t. (f n :: nat)) = (\<Sum>n\<leftarrow>nchildren t. f n)"
proof -
  have "mset (map f (get_sorted_children t)) = mset (map f (nchildren t))"
    by (simp add: get_sorted_children_def)
  then show ?thesis by (metis sum_mset_sum_list)
qed

lemma size_children: "(\<Sum>n\<leftarrow>nchildren t. Suc (2 * size n)) < 2 * size t"
proof (cases t)
  case (Node ty nm th ch)
  have "(\<Sum>n\<leftarrow>ch. Suc (2 * size n)) \<le> 2 * size_list size ch" by (induction ch) auto
  then show ?thesis using Node by simp
qed

lemma size_sorted_children:
  "(\<Sum>x\<leftarrow>zip (get_sorted_children t) as. Suc (2 * size (fst x))) < 2 * size t"
  "(\<Sum>n\<leftarrow>get_sorted_children t. Suc (2 * size n)) < 2 * size t"
  using size_zip_children [of "\<lambda>n. Suc (2 * size n)" "get_sorted_children t" as] size_children [of t]
  by (simp_all only: sum_sorted_children)

function (sequential) share_recursive ::
  "'r generator \<Rightarrow> (pname_t \<Rightarrow> int) \<Rightarrow> int \<Rightarrow> 'p::ab_group_add \<Rightarrow> bool \<Rightarrow> node_t \<Rightarrow> int
     \<Rightarrow> ('p, 'r) share_state \<Rightarrow> ('p, 'r) share_state res"
and share_children ::
  "'r generator \<Rightarrow> (pname_t \<Rightarrow> int) \<Rightarrow> int \<Rightarrow> 'p::ab_group_add \<Rightarrow> bool \<Rightarrow> (node_t \<times> int) list
     \<Rightarrow> ('p, 'r) share_state \<Rightarrow> ('p, 'r) share_state res" where
  "share_recursive gen pid q G output_additional_data node a st =
     (let sorted_children = get_sorted_children node; n = length sorted_children;
          st1 = (if output_additional_data
                 then st\<lparr>ac_internal_shares := (ac_internal_shares st)(nname node \<mapsto> a),
                         ac_internal_pub_shares := (ac_internal_pub_shares st)(nname node \<mapsto> smul a G)\<rparr>
                 else st)
      in case ntype node of
           LEAF \<Rightarrow> Inr (st1\<lparr>ac_shares := (ac_shares st1)(nname node \<mapsto> a)\<rparr>)
         | OR \<Rightarrow> share_children gen pid q G output_additional_data (map (\<lambda>c. (c, a)) sorted_children) st1
         | AND \<Rightarrow> bind_res (share_and gen q a n (rng st1)) (\<lambda>(children_a, r').
                  share_children gen pid q G output_additional_data (zip sorted_children children_a) (st1\<lparr>rng := r'\<rparr>))
         | THRESHOLD \<Rightarrow> bind_res (share_threshold gen q a (nthreshold node) n
                           (map (\<lambda>c. pid (nname c)) sorted_children) (rng st1)) (\<lambda>(children_a, b, r').
                  share_children gen pid q G output_additional_data (zip sorted_children children_a) (st1\<lparr>rng := r'\<rparr>))
         | _ \<Rightarrow> Inr st1)"
| "share_children gen pid q G output_additional_data [] st = Inr st"
| "share_children gen pid q G output_additional_data ((c, a) # cs) st =
     bind_res (share_recursive gen pid q G output_additional_data c a st)
       (\<lambda>st'. share_children gen pid q G output_additional_data cs st')"
  by pat_completeness auto

termination
  by (relation "measure (\<lambda>x. case x of
      Inl (_, _, _, _, _, node, _, _) \<Rightarrow> 2 * size node
    | Inr (_, _, _, _, _, cs, _) \<Rightarrow> (\<Sum>x\<leftarrow>cs. Suc (2 * size (fst x))))")
    (simp_all add: o_def size_sorted_children)

declare share_recursive.simps [simp del]

definition init_share_state :: "'r \<Rightarrow> ('p, 'r) share_state" where
  "init_share_state r =
     \<lparr>ac_shares = Map.empty, ac_internal_shares = Map.empty, ac_internal_pub_shares = Map.empty, rng = r\<rparr>"

definition ac_share ::
  "'r generator \<Rightarrow> (pname_t \<Rightarrow> int) \<Rightarrow> 'p::ab_group_add itself \<Rightarrow> node_t \<Rightarrow> int \<Rightarrow> int \<Rightarrow> 'r
     \<Rightarrow> (pname_t \<rightharpoonup> int) res" where
  "ac_share gen pid TYPE('p) root q x r =
     bind_res (share_recursive gen pid q (0 :: 'p) False root x (init_share_state r))
       (\<lambda>st. Inr (ac_shares st))"

text \<open>
  The curve of an access structure is valid or missing; \<open>order\<close> and \<open>G\<close> are its order and generator.
\<close>

record 'p ecurve =
  order :: int
  generator :: 'p

record 'p ac_t =
  root :: "node_t option"
  curve :: "'p ecurve option"

definition ac_validate_tree :: "'p ac_t \<Rightarrow> pname_t set res" where
  "ac_validate_tree ac =
     (case root ac of None \<Rightarrow> error E_BADARG
      | Some t \<Rightarrow> (case curve ac of None \<Rightarrow> error E_BADARG | Some _ \<Rightarrow> validate_tree False t {}))"

definition ac_enough_for_quorum :: "'p ac_t \<Rightarrow> pname_t set \<Rightarrow> bool res" where
  "ac_enough_for_quorum ac names =
     (case root ac of None \<Rightarrow> Inr False | Some t \<Rightarrow> enough_for_quorum names t)"

definition share_with_internals ::
  "'r generator \<Rightarrow> (pname_t \<Rightarrow> int) \<Rightarrow> 'p::ab_group_add ac_t \<Rightarrow> int \<Rightarrow> int \<Rightarrow> 'r \<Rightarrow> ('p, 'r) share_state res" where
  "share_with_internals gen pid ac q x r =
     (case root ac of None \<Rightarrow> error E_BADARG
      | Some t \<Rightarrow> (case curve ac of None \<Rightarrow> error E_BADARG
        | Some c \<Rightarrow> if q \<noteq> order c then error E_BADARG
                    else share_recursive gen pid q (generator c) True t x (init_share_state r)))"

section \<open>Reconstruction\<close>

text \<open>
  The loops over the children of a node, on the children's results: an \<^verbatim>\<open>OR\<close> node takes the first
  success and skips \<^verbatim>\<open>E_INSUFFICIENT\<close>, a \<^verbatim>\<open>THRESHOLD\<close> node collects \<^verbatim>\<open>threshold\<close> successes with their
  participant ids. Both are used for scalars and for points.
\<close>

fun or_result :: "'a res list \<Rightarrow> 'a res" where
  "or_result [] = error E_INSUFFICIENT"
| "or_result (Inr x # rs) = Inr x"
| "or_result (Inl e # rs) = (if e = Err E_INSUFFICIENT then or_result rs else Inl e)"

fun threshold_collect :: "int \<Rightarrow> ('a res \<times> int) list \<Rightarrow> ('a \<times> int) list \<Rightarrow> ('a \<times> int) list res" where
  "threshold_collect th [] acc = Inr acc"
| "threshold_collect th ((Inl e, p) # rs) acc =
     (if e = Err E_INSUFFICIENT then threshold_collect th rs acc else Inl e)"
| "threshold_collect th ((Inr s, p) # rs) acc =
     (if th \<le> int (length acc) then Inl Out_Of_Bounds
      else if int (length (acc @ [(s, p)])) = th then Inr (acc @ [(s, p)])
      else threshold_collect th rs (acc @ [(s, p)]))"

definition threshold_result ::
  "int \<Rightarrow> ('a list \<Rightarrow> int list \<Rightarrow> 'a res) \<Rightarrow> ('a res \<times> int) list \<Rightarrow> 'a res" where
  "threshold_result th interpolate rs =
     bind_res (threshold_collect th rs []) (\<lambda>acc.
       if int (length acc) < th then error E_INSUFFICIENT
       else interpolate (map fst acc) (map snd acc))"

fun reconstruct_recursive ::
  "bn_inverse \<Rightarrow> (pname_t \<Rightarrow> int) \<Rightarrow> int \<Rightarrow> (pname_t \<rightharpoonup> int) \<Rightarrow> node_t \<Rightarrow> int res" where
  "reconstruct_recursive bn_inv pid q shares (Node ty nm th ch) =
     (let results = map (reconstruct_recursive bn_inv pid q shares) ch
      in case ty of
           LEAF \<Rightarrow> (case shares nm of None \<Rightarrow> error E_INSUFFICIENT | Some s \<Rightarrow> Inr s)
         | OR \<Rightarrow> or_result results
         | AND \<Rightarrow> fold_res (\<lambda>r x. bind_res r (\<lambda>share. mod_add False q x share)) results 0
         | THRESHOLD \<Rightarrow> threshold_result th (lagrange_interpolate False bn_inv q 0)
                         (zip results (map (\<lambda>c. pid (nname c)) ch))
         | NONE \<Rightarrow> error E_CRYPTO
         | NODE_E_OTHER _ \<Rightarrow> Inr 0)"

text \<open>The AND case starts from the first child; with no child the point stays default-constructed.\<close>

definition and_points :: "'p::ab_group_add res list \<Rightarrow> 'p res" where
  "and_points rs =
     (case rs of [] \<Rightarrow> Inr 0
      | r # rs' \<Rightarrow> bind_res r (\<lambda>P. fold_res (\<lambda>r P. bind_res r (\<lambda>Pi. Inr (P + Pi))) rs' P))"

fun reconstruct_exponent_recursive ::
  "bn_inverse \<Rightarrow> (pname_t \<Rightarrow> int) \<Rightarrow> int \<Rightarrow> (pname_t \<rightharpoonup> 'p::ab_group_add) \<Rightarrow> node_t \<Rightarrow> 'p res" where
  "reconstruct_exponent_recursive bn_inv pid q shares (Node ty nm th ch) =
     (let results = map (reconstruct_exponent_recursive bn_inv pid q shares) ch
      in case ty of
           LEAF \<Rightarrow> (case shares nm of None \<Rightarrow> error E_INSUFFICIENT | Some P \<Rightarrow> Inr P)
         | OR \<Rightarrow> or_result results
         | AND \<Rightarrow> and_points results
         | THRESHOLD \<Rightarrow> threshold_result th (lagrange_interpolate_exponent bn_inv q 0)
                         (zip results (map (\<lambda>c. pid (nname c)) ch))
         | NONE \<Rightarrow> error E_CRYPTO
         | NODE_E_OTHER _ \<Rightarrow> Inr 0)"

text \<open>
  \<^verbatim>\<open>reconstruct_exponent\<close> checks every share point first; \<open>check\<close> is \<^verbatim>\<open>curve.check\<close> with infinity
  allowed, and \<open>names\<close> lists the keys of the share map in its order.
\<close>

definition reconstruct_exponent ::
  "bn_inverse \<Rightarrow> (pname_t \<Rightarrow> int) \<Rightarrow> ('p \<Rightarrow> unit res) \<Rightarrow> 'p::ab_group_add ac_t \<Rightarrow> pname_t list \<Rightarrow> (pname_t \<rightharpoonup> 'p) \<Rightarrow> 'p res" where
  "reconstruct_exponent bn_inv pid check ac names shares =
     (case root ac of None \<Rightarrow> error E_BADARG
      | Some t \<Rightarrow> (case curve ac of None \<Rightarrow> error E_BADARG
        | Some c \<Rightarrow> bind_res (fold_res (\<lambda>nm _. case shares nm of None \<Rightarrow> Inr () | Some P \<Rightarrow> check P) names ())
            (\<lambda>_. reconstruct_exponent_recursive bn_inv pid (order c) shares t)))"

section \<open>Verification against the ancestors' public data\<close>

definition pub_lookup :: "(pname_t \<rightharpoonup> 'p) \<Rightarrow> node_t \<Rightarrow> 'p res" where
  "pub_lookup pub_data node = (case pub_data (nname node) of None \<Rightarrow> error E_BADARG | Some P \<Rightarrow> Inr P)"

definition verify_node ::
  "bn_inverse \<Rightarrow> (pname_t \<Rightarrow> int) \<Rightarrow> int \<Rightarrow> (pname_t \<rightharpoonup> 'p::ab_group_add) \<Rightarrow> node_t \<Rightarrow> 'p \<Rightarrow> 'p res" where
  "verify_node bn_inv pid q pub_data node expected_pub_share =
     (let sorted_children = get_sorted_children node
      in bind_res (pub_lookup pub_data node) (\<lambda>my_pub_share.
         bind_res (case ntype node of
             LEAF \<Rightarrow> if my_pub_share \<noteq> expected_pub_share then error E_CRYPTO else success
           | OR \<Rightarrow> if my_pub_share \<noteq> expected_pub_share then error E_CRYPTO else success
           | AND \<Rightarrow> bind_res (fold_res (\<lambda>c acc. bind_res (pub_lookup pub_data c) (\<lambda>P. Inr (acc + P)))
                               sorted_children 0)
                      (\<lambda>expected_sum. if expected_sum \<noteq> my_pub_share then error E_CRYPTO else success)
           | THRESHOLD \<Rightarrow>
               let t = nat (nthreshold node); quorum_nodes = take t sorted_children;
                   quorum_pids = map (\<lambda>c. pid (nname c)) quorum_nodes
               in bind_res (map_res (pub_lookup pub_data) quorum_nodes) (\<lambda>quorum.
                  if length sorted_children < t then Inl Out_Of_Bounds
                  else bind_res (lagrange_interpolate_exponent bn_inv q 0 quorum quorum_pids) (\<lambda>P.
                  if my_pub_share \<noteq> P then error E_CRYPTO
                  else fold_res (\<lambda>c _. bind_res (pub_lookup pub_data c) (\<lambda>child_pub.
                         bind_res (lagrange_interpolate_exponent bn_inv q (pid (nname c)) quorum quorum_pids)
                           (\<lambda>P. if child_pub \<noteq> P then error E_CRYPTO else success)))
                       (drop t sorted_children) ()))
           | _ \<Rightarrow> error E_BADARG)
         (\<lambda>_. Inr my_pub_share)))"

text \<open>The loop goes from the leaf to the root; each node hands its public share to its parent.\<close>

definition verify_share_against_ancestors_pub_data ::
  "bn_inverse \<Rightarrow> (pname_t \<Rightarrow> int) \<Rightarrow> 'p::ab_group_add ac_t \<Rightarrow> bool \<Rightarrow> 'p \<Rightarrow> int \<Rightarrow> (pname_t \<rightharpoonup> 'p) \<Rightarrow> pname_t \<Rightarrow> unit res" where
  "verify_share_against_ancestors_pub_data bn_inv pid ac same_curve Q si pub_data leaf =
     (case curve ac of None \<Rightarrow> error E_BADARG
      | Some c \<Rightarrow> if \<not> same_curve then error E_BADARG
        else (case root ac of None \<Rightarrow> Inl Out_Of_Bounds
          | Some t \<Rightarrow> (case find_path t leaf of None \<Rightarrow> error E_NOT_FOUND
            | Some path \<Rightarrow> if ntype (hd path) \<noteq> LEAF then error E_NOT_FOUND
              else bind_res (fold_res (verify_node bn_inv pid (order c) pub_data) path (smul si (generator c)))
                     (\<lambda>expected_pub_share. if Q \<noteq> expected_pub_share then error E_CRYPTO else success))))"

section \<open>Public data nodes\<close>

fun list_pub_data_nodes :: "node_t \<Rightarrow> node_t set" where
  "list_pub_data_nodes (Node ty nm th ch) =
     (if ty = LEAF then {}
      else (\<Union>c\<in>set ch. list_pub_data_nodes c)
             \<union> (if ty = AND \<or> ty = THRESHOLD then {Node ty nm th ch} else {}))"

definition get_pub_data_size :: "node_t \<Rightarrow> int" where
  "get_pub_data_size node =
     (if ntype node = AND then int (get_n node)
      else if ntype node = THRESHOLD then nthreshold node else 0)"

end
