(* ===== verification/Sharing_Correct.thy ===== *)
theory Sharing_Correct
  imports Secret_Sharing
begin

text \<open>
  Correctness of the access-structure sharing: what \<^verbatim>\<open>validate_tree\<close> accepts, what the quorum test
  decides, that sharing produces a consistent assignment of values to the nodes, and that
  reconstruction from any set of leaves returns the secret exactly when the set is a quorum.
  The abstract objects are \<open>satisfied\<close> (the monotone formula the tree denotes) and \<open>consistent\<close> (the
  relation between the values of a node and of its children).
\<close>

section \<open>Abstract specification\<close>

fun node_names :: "node_t \<Rightarrow> pname_t list" where
  "node_names (Node ty nm th ch) = nm # concat (map node_names ch)"

fun wf_node :: "node_t \<Rightarrow> bool" where
  "wf_node (Node ty nm th ch) =
     ((case ty of LEAF \<Rightarrow> th = 0 \<and> ch = []
        | AND \<Rightarrow> th = 0 \<and> ch \<noteq> []
        | OR \<Rightarrow> th = 0 \<and> ch \<noteq> []
        | THRESHOLD \<Rightarrow> 1 \<le> th \<and> th \<le> int (length ch)
        | _ \<Rightarrow> False) \<and> list_all (\<lambda>c. nname c \<noteq> [] \<and> wf_node c) ch)"

fun satisfied :: "pname_t set \<Rightarrow> node_t \<Rightarrow> bool" where
  "satisfied A (Node ty nm th ch) =
     (case ty of LEAF \<Rightarrow> nm \<in> A
      | AND \<Rightarrow> list_all (satisfied A) ch
      | OR \<Rightarrow> list_ex (satisfied A) ch
      | THRESHOLD \<Rightarrow> th \<le> int (length (filter (satisfied A) ch))
      | _ \<Rightarrow> False)"

fun consistent :: "int \<Rightarrow> (pname_t \<Rightarrow> int) \<Rightarrow> (pname_t \<Rightarrow> int) \<Rightarrow> node_t \<Rightarrow> bool" where
  "consistent q pid v (Node ty nm th ch) =
     ((case ty of OR \<Rightarrow> list_all (\<lambda>c. v (nname c) = v nm) ch
        | AND \<Rightarrow> v nm = (\<Sum>c\<leftarrow>ch. v (nname c)) mod q
        | THRESHOLD \<Rightarrow> (\<exists>b. length b \<le> nat th \<and> v nm = poly_eval b 0 mod q
             \<and> list_all (\<lambda>c. v (nname c) = poly_eval b (pid (nname c)) mod q) ch)
        | _ \<Rightarrow> True) \<and> list_all (consistent q pid v) ch)"

text \<open>The participant ids of the children of a threshold node are distinct and between 1 and q - 1.\<close>

fun pids_ok :: "int \<Rightarrow> (pname_t \<Rightarrow> int) \<Rightarrow> node_t \<Rightarrow> bool" where
  "pids_ok q pid (Node ty nm th ch) =
     ((ty = THRESHOLD \<longrightarrow> list_all (\<lambda>c. 0 < pid (nname c) \<and> pid (nname c) < q) ch
        \<and> distinct (map (\<lambda>c. pid (nname c)) ch)) \<and> list_all (pids_ok q pid) ch)"

section \<open>Tree validation\<close>

lemma nname_in_node_names: "nname t \<in> set (node_names t)"
  by (cases t) simp

lemma validate_children:
  assumes "\<And>c ns ns'. c \<in> set ch \<Longrightarrow> validate_tree True c ns = Inr ns' \<longleftrightarrow>
      wf_node c \<and> nname c \<noteq> [] \<and> distinct (node_names c) \<and> set (node_names c) \<inter> ns = {}
      \<and> ns' = ns \<union> set (node_names c)"
  shows "fold_res (\<lambda>c ns. validate_tree True c ns) ch ns = Inr ns' \<longleftrightarrow>
      list_all (\<lambda>c. nname c \<noteq> [] \<and> wf_node c) ch \<and> distinct (concat (map node_names ch))
      \<and> set (concat (map node_names ch)) \<inter> ns = {} \<and> ns' = ns \<union> set (concat (map node_names ch))"
  using assms
proof (induction ch arbitrary: ns)
  case Nil
  then show ?case by auto
next
  case (Cons c ch)
  have c: "validate_tree True c ns = Inr x \<longleftrightarrow>
      wf_node c \<and> nname c \<noteq> [] \<and> distinct (node_names c) \<and> set (node_names c) \<inter> ns = {}
      \<and> x = ns \<union> set (node_names c)" for x
    using Cons.prems by simp
  have IH: "fold_res (\<lambda>c ns. validate_tree True c ns) ch ms = Inr ns' \<longleftrightarrow>
      list_all (\<lambda>c. nname c \<noteq> [] \<and> wf_node c) ch \<and> distinct (concat (map node_names ch))
      \<and> set (concat (map node_names ch)) \<inter> ms = {} \<and> ns' = ms \<union> set (concat (map node_names ch))" for ms
    using Cons.prems by (intro Cons.IH) simp
  show ?case
    by (simp only: fold_res.simps bind_res_eq_Inr c IH) auto
qed

theorem validate_tree_iff:
  "validate_tree par t names = Inr names' \<longleftrightarrow>
     wf_node t \<and> (nname t = [] \<longleftrightarrow> \<not> par) \<and> distinct (node_names t)
     \<and> set (node_names t) \<inter> names = {} \<and> names' = names \<union> set (node_names t)"
proof (induction t arbitrary: par names names')
  case (Node ty nm th ch)
  have ch: "fold_res (\<lambda>c ns. validate_tree True c ns) ch ns = Inr ns' \<longleftrightarrow>
      list_all (\<lambda>c. nname c \<noteq> [] \<and> wf_node c) ch \<and> distinct (concat (map node_names ch))
      \<and> set (concat (map node_names ch)) \<inter> ns = {} \<and> ns' = ns \<union> set (concat (map node_names ch))" for ns ns'
    by (rule validate_children, subst Node.IH) (auto intro: Node.IH)
  show ?case
  proof (cases "(nm = [] \<longleftrightarrow> \<not> par) \<and> nm \<notin> names")
    case False
    then show ?thesis by (auto simp: Let_def)
  next
    case True
    let ?shape = "case ty of LEAF \<Rightarrow> th = 0 \<and> ch = [] | AND \<Rightarrow> th = 0 \<and> ch \<noteq> [] | OR \<Rightarrow> th = 0 \<and> ch \<noteq> []
            | THRESHOLD \<Rightarrow> 1 \<le> th \<and> th \<le> int (length ch) | _ \<Rightarrow> False"
    have eq: "validate_tree par (Node ty nm th ch) names =
        (if ?shape then fold_res (\<lambda>c ns. validate_tree True c ns) ch (insert nm names) else error E_BADARG)"
      using True by (cases ty) (auto simp: Let_def)
    show ?thesis
    proof (cases ?shape)
      case False
      then show ?thesis unfolding eq wf_node.simps by (simp only: if_False) simp
    next
      case shape: True
      show ?thesis
        unfolding eq wf_node.simps node_names.simps if_P [OF shape] ch using True shape by auto
    qed
  qed
qed

lemma validate_tree_error:
  "validate_tree par t names = Inl e \<Longrightarrow> e = Err E_BADARG"
proof (induction t arbitrary: par names e)
  case (Node ty nm th ch)
  have "fold_res (\<lambda>c ns. validate_tree True c ns) cs ns = Inl e \<Longrightarrow> set cs \<subseteq> set ch \<Longrightarrow> e = Err E_BADARG" for cs ns e
    by (induction cs arbitrary: ns) (auto simp: res_simps dest: Node.IH)
  with Node.prems show ?case
    by (auto simp: Let_def split: if_splits node_e.splits)
qed

section \<open>The quorum test decides the formula\<close>

lemma or_loop_Inr: "or_loop (map Inr bs) = Inr (list_ex id bs)"
  by (induction bs) simp_all

lemma and_loop_Inr: "and_loop (map Inr bs) = Inr (list_all id bs)"
  by (induction bs) simp_all

lemma threshold_loop_Inr:
  "cnt < th \<Longrightarrow> threshold_loop th cnt (map Inr bs) = Inr (th \<le> cnt + int (length (filter id bs)))"
  by (induction bs arbitrary: cnt) auto

theorem enough_for_quorum_satisfied:
  "wf_node t \<Longrightarrow> enough_for_quorum A t = Inr (satisfied A t)"
proof (induction t)
  case (Node ty nm th ch)
  have "map (enough_for_quorum A) ch = map Inr (map (satisfied A) ch)"
    using Node by (simp add: list_all_iff)
  with Node.prems show ?case
    by (cases ty)
       (simp_all add: Let_def or_loop_Inr and_loop_Inr threshold_loop_Inr list_ex_iff list_all_iff
         filter_map o_def del: map_map)
qed

lemma satisfied_mono: "A \<subseteq> B \<Longrightarrow> satisfied A t \<Longrightarrow> satisfied B t"
proof (induction t)
  case (Node ty nm th ch)
  have "length (filter (satisfied A) ch) \<le> length (filter (satisfied B) ch)"
    using Node.IH Node.prems(1) by (induction ch) auto
  with Node show ?case
    by (cases ty) (auto simp: list_all_iff list_ex_iff)
qed

lemma satisfied_leaves: "satisfied A t \<longleftrightarrow> satisfied (A \<inter> list_leaf_names t) t"
proof -
  have "satisfied A t \<longleftrightarrow> satisfied B t" if "A \<inter> list_leaf_names t = B \<inter> list_leaf_names t" for A B
    using that
  proof (induction t)
    case (Node ty nm th ch)
    show ?case
    proof (cases "ty = LEAF")
      case False
      have "satisfied A c \<longleftrightarrow> satisfied B c" if "c \<in> set ch" for c
        using Node.prems False that by (intro Node.IH) auto
      with False show ?thesis by (cases ty) (auto simp: list_all_iff list_ex_iff cong: filter_cong)
    qed (use Node in auto)
  qed
  then show ?thesis by blast
qed

section \<open>Reconstruction\<close>

lemma good_pids_of_range:
  assumes "distinct ps" "\<And>p. p \<in> set ps \<Longrightarrow> 0 < p \<and> p < q"
  shows "good_pids q ps"
proof -
  have "p = p' \<or> (p - p') mod q \<noteq> 0" if "p \<in> set ps" "p' \<in> set ps" for p p'
  proof -
    have "\<bar>p - p'\<bar> < q" using assms(2) [OF that(1)] assms(2) [OF that(2)] by arith
    then have "p \<noteq> p' \<Longrightarrow> \<not> q dvd \<bar>p - p'\<bar>" by (intro zdvd_not_zless) auto
    then show ?thesis by (auto simp: dvd_eq_mod_eq_0 [symmetric])
  qed
  then show ?thesis unfolding good_pids_def list_all_iff using assms by (intro conjI ballI) auto
qed

lemma or_result_first:
  assumes "\<And>r. r \<in> set rs \<Longrightarrow> r = Inr x \<or> r = error E_INSUFFICIENT"
  shows "or_result rs = (if Inr x \<in> set rs then Inr x else error E_INSUFFICIENT)"
  using assms by (induction rs rule: or_result.induct) auto

text \<open>The collected successes are the first \<open>th\<close> ones.\<close>

definition successes :: "('a res \<times> int) list \<Rightarrow> ('a \<times> int) list" where
  "successes rs = List.map_filter (\<lambda>(r, p). case r of Inl _ \<Rightarrow> None | Inr s \<Rightarrow> Some (s, p)) rs"

lemma successes_simps [simp]:
  "successes [] = []"
  "successes ((Inl e, p) # rs) = successes rs"
  "successes ((Inr s, p) # rs) = (s, p) # successes rs"
  by (simp_all add: successes_def List.map_filter_simps)

lemma threshold_collect_take:
  assumes "\<And>e p. (Inl e, p) \<in> set rs \<Longrightarrow> e = Err E_INSUFFICIENT" and "int (length acc) < th"
  shows "threshold_collect th rs acc = Inr (acc @ take (nat th - length acc) (successes rs))"
  using assms
proof (induction th rs acc rule: threshold_collect.induct)
  case (1 th acc)
  then show ?case by simp
next
  case (2 th e p rs acc)
  have "e = Err E_INSUFFICIENT" by (rule 2(2) [of e p]) simp
  moreover have "threshold_collect th rs acc = Inr (acc @ take (nat th - length acc) (successes rs))"
    if "e = Err E_INSUFFICIENT"
    using that 2(2,3) by (intro 2(1)) auto
  ultimately show ?case by simp
next
  case (3 th s p rs acc)
  show ?case
  proof (cases "int (length (acc @ [(s, p)])) = th")
    case True
    then have "nat th - length acc = 1" by auto
    with 3(3) True show ?thesis by simp
  next
    case False
    with 3(3) have l: "int (length (acc @ [(s, p)])) < th" by simp
    then have "nat th - length acc = Suc (nat th - length (acc @ [(s, p)]))" by auto
    moreover have "threshold_collect th rs (acc @ [(s, p)])
        = Inr ((acc @ [(s, p)]) @ take (nat th - length (acc @ [(s, p)])) (successes rs))"
      using l 3(2,3) False by (intro 3(1)) auto
    ultimately show ?thesis using 3(3) False by simp
  qed
qed

lemma set_successes: "(s, p) \<in> set (successes rs) \<longleftrightarrow> (Inr s, p) \<in> set rs"
  by (induction rs) (auto split: sum.splits simp: successes_def List.map_filter_simps)

lemma successes_filter:
  assumes "\<And>c. c \<in> set ch \<Longrightarrow> f c = (if P c then Inr (h c) else error E_INSUFFICIENT)"
  shows "successes (zip (map f ch) (map g ch)) = map (\<lambda>c. (h c, g c)) (filter P ch)"
  using assms by (induction ch) auto

lemma threshold_result_eq:
  assumes th: "1 \<le> th" "th \<le> int (length ch)"
    and res: "\<And>c. c \<in> set ch \<Longrightarrow> f c = (if P c then Inr (h c) else error E_INSUFFICIENT)"
  shows "threshold_result th interpolate (zip (map f ch) (map g ch)) =
     (if th \<le> int (length (filter P ch))
      then interpolate (map h (take (nat th) (filter P ch))) (map g (take (nat th) (filter P ch)))
      else error E_INSUFFICIENT)"
proof -
  let ?rs = "zip (map f ch) (map g ch)"
  have "e = Err E_INSUFFICIENT" if "(Inl e, p) \<in> set ?rs" for e p
    using that res by (auto simp: set_zip split: if_splits)
  then have "threshold_collect th ?rs [] = Inr (take (nat th) (successes ?rs))"
    using th by (subst threshold_collect_take) auto
  moreover have "int (min (length (filter P ch)) (nat th)) < th \<longleftrightarrow> \<not> th \<le> int (length (filter P ch))"
    using th by (auto simp: min_def split: if_splits)
  ultimately show ?thesis
    using successes_filter [of ch f P h g, OF res]
    by (simp add: threshold_result_def take_map o_def)
qed

lemma fold_res_insufficient:
  assumes "\<And>r. r \<in> set rs \<Longrightarrow> (\<exists>x. r = Inr x \<and> is_in_range q x) \<or> r = error E_INSUFFICIENT"
    and "error E_INSUFFICIENT \<in> set rs" "0 < q" "is_in_range q a"
  shows "fold_res (\<lambda>r x. bind_res r (\<lambda>share. mod_add False q x share)) rs a = error E_INSUFFICIENT"
  using assms
proof (induction rs arbitrary: a)
  case (Cons r rs)
  consider (err) "r = error E_INSUFFICIENT" | (ok) x where "r = Inr x" "is_in_range q x"
    using Cons.prems(1) [of r] by auto
  then show ?case
  proof cases
    case ok
    then show ?thesis using Cons by (simp add: mod_simps)
  qed simp
qed simp

lemma fold_res_mod_add:
  assumes "list_all (is_in_range q) xs" "is_in_range q a" "0 < q"
  shows "fold_res (\<lambda>s sum. mod_add vt q sum s) xs a = Inr ((a + sum_list xs) mod q)"
  using assms
proof (induction xs arbitrary: a)
  case Nil
  then show ?case by (simp add: is_in_range_mod)
next
  case (Cons x xs)
  then show ?case by (simp add: mod_simps mod_add_left_eq add.assoc)
qed

lemma fold_res_bind_Inr:
  "fold_res (\<lambda>r x. bind_res r (\<lambda>share. f x share)) (map Inr xs) a = fold_res (\<lambda>s x. f x s) xs a"
  by (induction xs arbitrary: a) (auto intro!: bind_res_cong)

text \<open>The value map restricted to a set of parties.\<close>

definition shares_of :: "(pname_t \<Rightarrow> int) \<Rightarrow> pname_t set \<Rightarrow> node_t \<Rightarrow> (pname_t \<rightharpoonup> int) \<Rightarrow> bool" where
  "shares_of v A t shares \<longleftrightarrow>
     (\<forall>l\<in>list_leaf_names t. shares l = (if l \<in> A then Some (v l) else None))"

lemma shares_of_child:
  "shares_of v A (Node ty nm th ch) shares \<Longrightarrow> ty \<noteq> LEAF \<Longrightarrow> c \<in> set ch \<Longrightarrow> shares_of v A c shares"
  by (auto simp: shares_of_def)

context mod_inverse
begin

lemma reconstruct_threshold:
  assumes q: "field_modulus q" and th: "1 \<le> th" "th \<le> int (length ch)"
    and pids: "list_all (\<lambda>c. 0 < pid (nname c) \<and> pid (nname c) < q) ch" "distinct (map (\<lambda>c. pid (nname c)) ch)"
    and b: "length b \<le> nat th" "\<And>c. c \<in> set ch \<Longrightarrow> v (nname c) = poly_eval b (pid (nname c)) mod q"
    and res: "\<And>c. c \<in> set ch \<Longrightarrow> f c = (if P c then Inr (v (nname c)) else error E_INSUFFICIENT)"
  shows "threshold_result th (lagrange_interpolate vt bn_inv q 0) (zip (map f ch) (map (\<lambda>c. pid (nname c)) ch))
     = (if th \<le> int (length (filter P ch)) then Inr (poly_eval b 0 mod q) else error E_INSUFFICIENT)"
proof -
  let ?sel = "take (nat th) (filter P ch)"
  have sub: "set ?sel \<subseteq> set ch" by (meson filter_is_subset set_take_subset subset_trans)
  have "good_pids q (map (\<lambda>c. pid (nname c)) ?sel)"
  proof (rule good_pids_of_range)
    show "distinct (map (\<lambda>c. pid (nname c)) ?sel)"
      using pids(2) by (simp add: distinct_map_filter flip: take_map)
    show "0 < p \<and> p < q" if "p \<in> set (map (\<lambda>c. pid (nname c)) ?sel)" for p
      using that pids(1) sub by (auto simp: list_all_iff)
  qed
  moreover have "map (\<lambda>c. v (nname c)) ?sel = map (\<lambda>p. poly_eval b p mod q) (map (\<lambda>c. pid (nname c)) ?sel)"
    using b(2) sub by auto
  ultimately have "lagrange_interpolate vt bn_inv q 0 (map (\<lambda>c. v (nname c)) ?sel) (map (\<lambda>c. pid (nname c)) ?sel)
      = Inr (poly_eval b 0 mod q)" if "th \<le> int (length (filter P ch))"
    using b(1) that by (intro interpolate_polynomial q) auto
  then show ?thesis
    by (subst threshold_result_eq [OF th res]) simp_all
qed

theorem reconstruct_consistent:
  assumes q: "field_modulus q"
  shows "wf_node t \<Longrightarrow> pids_ok q pid t \<Longrightarrow> consistent q pid v t \<Longrightarrow>
     (\<And>n. n \<in> set (node_names t) \<Longrightarrow> is_in_range q (v n)) \<Longrightarrow> shares_of v A t shares \<Longrightarrow>
     reconstruct_recursive bn_inv pid q shares t =
       (if satisfied A t then Inr (v (nname t)) else error E_INSUFFICIENT)"
proof (induction t)
  case (Node ty nm th ch)
  have q0: "0 < q" using field_modulus_gt [OF q] by simp
  show ?case
  proof (cases "ty = LEAF")
    case True
    with Node.prems(5) show ?thesis by (simp add: shares_of_def)
  next
    case False
    let ?r = "reconstruct_recursive bn_inv pid q shares"
    have res: "?r c = (if satisfied A c then Inr (v (nname c)) else error E_INSUFFICIENT)" if "c \<in> set ch" for c
      using that Node.prems False
      by (intro Node.IH) (auto simp: list_all_iff intro: shares_of_child)
    have rng: "is_in_range q (v (nname c))" if "c \<in> set ch" for c
      using Node.prems(4) [of "nname c"] that nname_in_node_names [of c] by auto
    consider (AND) "ty = AND" | (OR) "ty = OR" | (THR) "ty = THRESHOLD"
      using Node.prems(1) False by (cases ty) auto
    then show ?thesis
    proof cases
      case OR
      have "or_result (map ?r ch) =
          (if Inr (v nm) \<in> set (map ?r ch) then Inr (v nm) else error E_INSUFFICIENT)"
        using OR Node.prems(3) res by (intro or_result_first) (auto simp: list_all_iff split: if_splits)
      moreover have "Inr (v nm) \<in> set (map ?r ch) \<longleftrightarrow> list_ex (satisfied A) ch"
        using OR Node.prems(3) res by (force simp: list_all_iff list_ex_iff)
      ultimately show ?thesis using OR by simp
    next
      case AND
      show ?thesis
      proof (cases "list_all (satisfied A) ch")
        case True
        then have "map ?r ch = map Inr (map (\<lambda>c. v (nname c)) ch)" using res by (simp add: list_all_iff)
        then show ?thesis
          using AND True Node.prems(3) rng q0
          by (simp add: fold_res_bind_Inr fold_res_mod_add list_all_iff del: map_map)
      next
        case False
        then have "error E_INSUFFICIENT \<in> set (map ?r ch)" using res by (force simp: list_all_iff)
        moreover have "\<And>r. r \<in> set (map ?r ch) \<Longrightarrow> (\<exists>x. r = Inr x \<and> is_in_range q x) \<or> r = error E_INSUFFICIENT"
          using res rng by auto
        ultimately have "fold_res (\<lambda>r x. bind_res r (\<lambda>share. mod_add False q x share)) (map ?r ch) 0
            = error E_INSUFFICIENT"
          using q0 by (intro fold_res_insufficient) auto
        then show ?thesis using AND False by simp
      qed
    next
      case THR
      from Node.prems(3) THR obtain b where b: "length b \<le> nat th" "v nm = poly_eval b 0 mod q"
        "\<And>c. c \<in> set ch \<Longrightarrow> v (nname c) = poly_eval b (pid (nname c)) mod q"
        by (auto simp: list_all_iff)
      have "1 \<le> th" "th \<le> int (length ch)" using Node.prems(1) THR by auto
      then have "threshold_result th (lagrange_interpolate False bn_inv q 0)
          (zip (map ?r ch) (map (\<lambda>c. pid (nname c)) ch))
        = (if th \<le> int (length (filter (satisfied A) ch)) then Inr (poly_eval b 0 mod q) else error E_INSUFFICIENT)"
        using Node.prems(2) THR b res by (intro reconstruct_threshold [where v = v] q) auto
      then show ?thesis using THR b(2) by simp
    qed
  qed
qed

end

section \<open>Sharing\<close>

definition good_gen :: "'r generator \<Rightarrow> bool" where
  "good_gen gen \<longleftrightarrow> (\<forall>q r. 0 < q \<longrightarrow> is_in_range q (fst (gen q r)))"

lemma draw_in_range:
  "good_gen gen \<Longrightarrow> 0 < q \<Longrightarrow> draw gen q n r = (ss, r') \<Longrightarrow>
     length ss = n \<and> list_all (is_in_range q) ss"
  by (induction n arbitrary: r ss r')
     (auto simp: good_gen_def split: prod.splits, metis fst_conv)

theorem share_and_correct:
  assumes "good_gen gen" "0 < q" "0 < n" "is_in_range q x"
  shows "\<exists>shares r'. share_and gen q x n r = Inr (shares, r') \<and> length shares = n
     \<and> list_all (is_in_range q) shares \<and> sum_list shares mod q = x"
proof -
  obtain ss r' where d: "draw gen q (n - 1) r = (ss, r')" by (cases "draw gen q (n - 1) r")
  have ss: "length ss = n - 1" "list_all (is_in_range q) ss"
    using draw_in_range [OF assms(1,2) d] by auto
  have sum: "fold_res (\<lambda>s sum. mod_add False q sum s) ss 0 = Inr (sum_list ss mod q)"
    using fold_res_mod_add [OF ss(2), of 0 False] assms(2) by simp
  have "(x - sum_list ss mod q) mod q + sum_list ss = (x - sum_list ss) mod q + sum_list ss"
    by (simp add: mod_diff_right_eq)
  then have "((x - sum_list ss mod q) mod q + sum_list ss) mod q = x"
    using assms(4) by (simp add: mod_add_left_eq is_in_range_mod)
  then show ?thesis
    using d ss sum assms by (simp add: share_and_def mod_simps is_in_range_mod)
qed

theorem share_threshold_correct:
  assumes "good_gen gen" "barrett_ok q" "0 < threshold" "threshold \<le> int n" "n \<le> length pids" "is_in_range q a"
    and pids: "\<And>p. p \<in> set (take n pids) \<Longrightarrow> 0 < p \<and> p < q"
  shows "\<exists>b r'. share_threshold gen q a threshold n pids r
      = Inr (map (\<lambda>p. poly_eval b p mod q) (take n pids), b, r')
     \<and> length b = nat threshold \<and> poly_eval b 0 mod q = a"
proof -
  obtain bs r' where d: "draw gen q (nat threshold - 1) r = (bs, r')"
    by (cases "draw gen q (nat threshold - 1) r")
  have bs: "length (a # bs) = nat threshold" "list_all (is_in_range q) (a # bs)"
    using draw_in_range [OF assms(1) _ d] barrett_ok_valid(2) [OF assms(2)] assms(3,6) by auto
  have "map_res (\<lambda>p. bind_res (cb_assert (p \<noteq> 0)) (\<lambda>_. horner_poly False q (a # bs) p)) (take n pids)
      = Inr (map (\<lambda>p. poly_eval (a # bs) p mod q) (take n pids))"
  proof (rule map_res_Inr)
    fix p
    assume "p \<in> set (take n pids)"
    then show "bind_res (cb_assert (p \<noteq> 0)) (\<lambda>_. horner_poly False q (a # bs) p) = Inr (poly_eval (a # bs) p mod q)"
      using pids [of p] bs(2) assms(2) barrett_ok_valid(2) [OF assms(2)]
      by (simp add: horner_poly_correct is_in_range_def)
  qed
  with d bs assms(3-6) show ?thesis
    by (intro exI [of _ "a # bs"] exI [of _ r']) (simp add: share_threshold_def is_in_range_mod)
qed

lemma consistent_cong:
  "(\<And>n. n \<in> set (node_names t) \<Longrightarrow> v n = v' n) \<Longrightarrow> consistent q pid v t = consistent q pid v' t"
proof (induction t)
  case (Node ty nm th ch)
  have ch: "consistent q pid v c = consistent q pid v' c" if "c \<in> set ch" for c
    using that Node.prems by (intro Node.IH) auto
  have nm: "v (nname c) = v' (nname c)" if "c \<in> set ch" for c
    using that Node.prems nname_in_node_names [of c] by auto
  have "(\<Sum>c\<leftarrow>ch. v (nname c)) = (\<Sum>c\<leftarrow>ch. v' (nname c))"
    using nm by (intro arg_cong [where f = sum_list]) simp
  moreover have "v nm = v' nm" using Node.prems by simp
  ultimately show ?case
    using ch nm by (cases ty) (auto simp: list_all_iff)
qed

lemma leaf_names_subset: "list_leaf_names t \<subseteq> set (node_names t)"
  by (induction t) auto

text \<open>
  The state after sharing the nodes with names \<open>N\<close> and leaves \<open>L\<close> by the values \<open>v\<close>.
\<close>

definition shared_state ::
  "bool \<Rightarrow> 'p::ab_group_add \<Rightarrow> (pname_t \<Rightarrow> int) \<Rightarrow> pname_t set \<Rightarrow> pname_t set
     \<Rightarrow> ('p, 'r) share_state \<Rightarrow> ('p, 'r) share_state \<Rightarrow> bool" where
  "shared_state out G v N L st st' \<longleftrightarrow>
     ac_shares st' = (\<lambda>n. if n \<in> L then Some (v n) else ac_shares st n)
   \<and> ac_internal_shares st' = (\<lambda>n. if out \<and> n \<in> N then Some (v n) else ac_internal_shares st n)
   \<and> ac_internal_pub_shares st' = (\<lambda>n. if out \<and> n \<in> N then Some (smul (v n) G) else ac_internal_pub_shares st n)"

definition node_value :: "int \<Rightarrow> (pname_t \<Rightarrow> int) \<Rightarrow> (pname_t \<Rightarrow> int) \<Rightarrow> node_t \<times> int \<Rightarrow> bool" where
  "node_value q pid v ca \<longleftrightarrow> v (nname (fst ca)) = snd ca \<and> consistent q pid v (fst ca)
     \<and> (\<forall>n\<in>set (node_names (fst ca)). is_in_range q (v n))"

lemma node_value_cong:
  assumes "\<And>n. n \<in> set (node_names (fst ca)) \<Longrightarrow> v n = v' n"
  shows "node_value q pid v ca = node_value q pid v' ca"
  using assms nname_in_node_names [of "fst ca"] consistent_cong [of "fst ca" v v' q pid]
  by (simp add: node_value_def)

definition shares_nodes ::
  "int \<Rightarrow> (pname_t \<Rightarrow> int) \<Rightarrow> bool \<Rightarrow> 'p::ab_group_add \<Rightarrow> (node_t \<times> int) list
     \<Rightarrow> ('p, 'r) share_state \<Rightarrow> ('p, 'r) share_state \<Rightarrow> (pname_t \<Rightarrow> int) \<Rightarrow> bool" where
  "shares_nodes q pid out G cs st st' v \<longleftrightarrow>
     list_all (node_value q pid v) cs
   \<and> shared_state out G v (\<Union>c\<in>fst ` set cs. set (node_names c)) (\<Union>c\<in>fst ` set cs. list_leaf_names c) st st'"

lemma shares_nodes_cons:
  assumes c: "shares_nodes q pid out G [(c, a)] st st1 v1"
    and cs: "shares_nodes q pid out G cs st1 st2 v2"
    and disj: "set (node_names c) \<inter> (\<Union>d\<in>fst ` set cs. set (node_names d)) = {}"
  shows "shares_nodes q pid out G ((c, a) # cs) st st2 (\<lambda>n. if n \<in> set (node_names c) then v1 n else v2 n)"
proof -
  let ?v = "\<lambda>n. if n \<in> set (node_names c) then v1 n else v2 n"
  have "node_value q pid ?v (c, a)"
    using c by (subst node_value_cong [of _ _ v1]) (auto simp: shares_nodes_def)
  moreover have "node_value q pid ?v d" if "d \<in> set cs" for d
    using cs that disj by (subst node_value_cong [of _ _ v2]) (auto simp: shares_nodes_def list_all_iff)
  moreover have "shared_state out G ?v (\<Union>d\<in>fst ` set ((c, a) # cs). set (node_names d))
      (\<Union>d\<in>fst ` set ((c, a) # cs). list_leaf_names d) st st2"
    using c cs disj leaf_names_subset by (fastforce simp: shares_nodes_def shared_state_def)
  ultimately show ?thesis by (simp add: shares_nodes_def list_all_iff)
qed

lemma share_children_shares:
  assumes "\<And>c a st. (c, a) \<in> set cs \<Longrightarrow>
      \<exists>st' v. share_recursive gen pid q G out c a st = Inr st' \<and> shares_nodes q pid out G [(c, a)] st st' v"
    and "distinct (concat (map (\<lambda>ca. node_names (fst ca)) cs))"
  shows "\<exists>st' v. share_children gen pid q G out cs st = Inr st' \<and> shares_nodes q pid out G cs st st' v"
  using assms
proof (induction cs arbitrary: st)
  case Nil
  then show ?case by (simp add: shares_nodes_def shared_state_def)
next
  case (Cons ca cs)
  obtain c a where ca: "ca = (c, a)" by (cases ca)
  obtain st1 v1 where 1: "share_recursive gen pid q G out c a st = Inr st1"
    "shares_nodes q pid out G [(c, a)] st st1 v1"
    using Cons.prems(1) [of c a st] ca by auto
  obtain st2 v2 where 2: "share_children gen pid q G out cs st1 = Inr st2"
    "shares_nodes q pid out G cs st1 st2 v2"
    using Cons.IH [of st1] Cons.prems by auto
  have "set (node_names c) \<inter> (\<Union>d\<in>fst ` set cs. set (node_names d)) = {}"
    using Cons.prems(2) by (auto simp: ca)
  from shares_nodes_cons [OF 1(2) 2(2) this] show ?case using 1(1) 2(1) ca by auto
qed

lemma share_node_from_children:
  assumes cs: "shares_nodes q pid out G cs (st1\<lparr>rng := r'\<rparr>) st' v" and keys: "fst ` set cs = set ch"
    and st1: "st1 = (if out then st\<lparr>ac_internal_shares := (ac_internal_shares st)(nm \<mapsto> a),
                         ac_internal_pub_shares := (ac_internal_pub_shares st)(nm \<mapsto> smul a G)\<rparr> else st)"
    and fresh: "nm \<notin> (\<Union>c\<in>set ch. set (node_names c))" and ty: "ty \<noteq> LEAF" and a: "is_in_range q a"
    and loc: "case ty of OR \<Rightarrow> list_all (\<lambda>c. v (nname c) = a) ch
        | AND \<Rightarrow> a = (\<Sum>c\<leftarrow>ch. v (nname c)) mod q
        | THRESHOLD \<Rightarrow> (\<exists>b. length b \<le> nat th \<and> a = poly_eval b 0 mod q
             \<and> list_all (\<lambda>c. v (nname c) = poly_eval b (pid (nname c)) mod q) ch)
        | _ \<Rightarrow> True"
  shows "shares_nodes q pid out G [(Node ty nm th ch, a)] st st' (v(nm := a))"
proof -
  let ?v = "v(nm := a)"
  have v: "?v n = v n" if "c \<in> set ch" "n \<in> set (node_names c)" for c n
    using that fresh by auto
  have vn: "?v (nname c) = v (nname c)" if "c \<in> set ch" for c
    using v [OF that nname_in_node_names] .
  have "consistent q pid v c \<and> (\<forall>n\<in>set (node_names c). is_in_range q (v n))" if c: "c \<in> set ch" for c
  proof -
    obtain b where "(c, b) \<in> set cs" using c keys by (metis (no_types, lifting) imageE prod.collapse)
    then show ?thesis using cs by (auto simp: shares_nodes_def list_all_iff node_value_def)
  qed
  then have child: "consistent q pid ?v c \<and> (\<forall>n\<in>set (node_names c). is_in_range q (?v n))" if "c \<in> set ch" for c
    using consistent_cong [of c ?v v q pid] v [OF that] that by simp
  have sum: "(\<Sum>c\<leftarrow>ch. ?v (nname c)) = (\<Sum>c\<leftarrow>ch. v (nname c))"
    using vn by (intro arg_cong [where f = sum_list] map_cong) auto
  have "consistent q pid ?v (Node ty nm th ch)"
    unfolding consistent.simps sum using loc child vn by (cases ty) (auto simp: list_all_iff)
  moreover have "shared_state out G ?v (insert nm (\<Union>c\<in>set ch. set (node_names c)))
      (\<Union>c\<in>set ch. list_leaf_names c) st st'"
    using cs fresh leaf_names_subset unfolding keys st1
    by (fastforce simp: shares_nodes_def shared_state_def keys split: if_splits)
  ultimately show ?thesis
    using child a ty by (auto simp: shares_nodes_def node_value_def)
qed

lemma sorted_children_set: "set (get_sorted_children t) = set (nchildren t)"
  by (simp add: get_sorted_children_def)

lemma sorted_children_length: "length (get_sorted_children t) = length (nchildren t)"
  by (simp add: get_sorted_children_def)

lemma sorted_children_sum: "(\<Sum>c\<leftarrow>get_sorted_children t. f c) = (\<Sum>c\<leftarrow>nchildren t. (f c :: int))"
proof -
  have "mset (map f (get_sorted_children t)) = mset (map f (nchildren t))"
    by (simp add: get_sorted_children_def)
  then show ?thesis by (metis sum_mset_sum_list)
qed

lemma sorted_children_distinct:
  "distinct (concat (map node_names (nchildren t))) \<Longrightarrow> distinct (concat (map node_names (get_sorted_children t)))"
proof -
  assume d: "distinct (concat (map node_names (nchildren t)))"
  have "mset (map (\<lambda>c. mset (node_names c)) (get_sorted_children t)) = mset (map (\<lambda>c. mset (node_names c)) (nchildren t))"
    by (simp add: get_sorted_children_def)
  then have "(\<Sum>c\<leftarrow>get_sorted_children t. mset (node_names c)) = (\<Sum>c\<leftarrow>nchildren t. mset (node_names c))"
    by (metis sum_mset_sum_list)
  then have "mset (concat (map node_names (get_sorted_children t))) = mset (concat (map node_names (nchildren t)))"
    by (simp add: mset_concat o_def)
  then show ?thesis using d by (metis mset_eq_imp_distinct_iff)
qed

lemma zip_values:
  "length as = length cs \<Longrightarrow> list_all (node_value q pid v) (zip cs as) \<Longrightarrow> map (\<lambda>c. v (nname c)) cs = as"
  by (induction cs as rule: list_induct2') (auto simp: node_value_def)

lemma map_eq_replicateD: "map f xs = replicate n a \<Longrightarrow> x \<in> set xs \<Longrightarrow> f x = a"
  by (metis imageI in_set_replicate list.set_map)

lemma fst_set_zip: "length as = length cs \<Longrightarrow> fst ` set (zip cs as) = set cs"
  by (metis list.set_map map_fst_zip)

theorem share_recursive_shares:
  assumes gen: "good_gen gen" and q: "barrett_ok q"
  shows "wf_node t \<Longrightarrow> pids_ok q pid t \<Longrightarrow> distinct (node_names t) \<Longrightarrow> is_in_range q a \<Longrightarrow>
     \<exists>st' v. share_recursive gen pid q G out t a st = Inr st' \<and> shares_nodes q pid out G [(t, a)] st st' v"
proof (induction t arbitrary: a st)
  case (Node ty nm th ch)
  have q0: "0 < q" using barrett_ok_valid(2) [OF q] by simp
  let ?t = "Node ty nm th ch" and ?sc = "get_sorted_children (Node ty nm th ch)"
  define st1 where "st1 = (if out then st\<lparr>ac_internal_shares := (ac_internal_shares st)(nm \<mapsto> a),
       ac_internal_pub_shares := (ac_internal_pub_shares st)(nm \<mapsto> smul a G)\<rparr> else st)"
  have sc: "set ?sc = set ch" "length ?sc = length ch" by (simp_all add: sorted_children_set sorted_children_length)
  have dist: "distinct (concat (map node_names ?sc))"
    using Node.prems(3) by (intro sorted_children_distinct) simp
  have fresh: "nm \<notin> (\<Union>c\<in>set ch. set (node_names c))" using Node.prems(3) by auto
  have kids: "\<exists>st' v. share_children gen pid q G out (zip ?sc as) st0 = Inr st'
      \<and> shares_nodes q pid out G (zip ?sc as) st0 st' v"
    if "length as = length ch" "list_all (is_in_range q) as" for as st0
  proof (rule share_children_shares)
    have "map fst (zip ?sc as) = ?sc" using that(1) sc(2) by simp
    then show "distinct (concat (map (\<lambda>ca. node_names (fst ca)) (zip ?sc as)))"
      using dist by (metis (no_types, lifting) map_map o_apply map_cong)
    fix c b st
    assume "(c, b) \<in> set (zip ?sc as)"
    then have c: "c \<in> set ch" "b \<in> set as" using sc(1) by (auto dest: set_zip_leftD set_zip_rightD)
    then have "distinct (node_names c)" using Node.prems(3) by (simp add: distinct_concat_iff)
    with c that(2) Node.prems(1,2)
    show "\<exists>st' v. share_recursive gen pid q G out c b st = Inr st' \<and> shares_nodes q pid out G [(c, b)] st st' v"
      by (intro Node.IH) (auto simp: list_all_iff)
  qed
  have finish: ?case
    if len: "length as = length ch" and rng: "list_all (is_in_range q) as" and ty: "ty \<noteq> LEAF"
      and run: "share_recursive gen pid q G out ?t a st = share_children gen pid q G out (zip ?sc as) (st1\<lparr>rng := r'\<rparr>)"
      and loc: "\<And>v. map (\<lambda>c. v (nname c)) ?sc = as \<Longrightarrow>
        (case ty of OR \<Rightarrow> list_all (\<lambda>c. v (nname c) = a) ch
        | AND \<Rightarrow> a = (\<Sum>c\<leftarrow>ch. v (nname c)) mod q
        | THRESHOLD \<Rightarrow> (\<exists>b. length b \<le> nat th \<and> a = poly_eval b 0 mod q
             \<and> list_all (\<lambda>c. v (nname c) = poly_eval b (pid (nname c)) mod q) ch)
        | _ \<Rightarrow> True)" for as r'
  proof -
    obtain st' v where v: "share_children gen pid q G out (zip ?sc as) (st1\<lparr>rng := r'\<rparr>) = Inr st'"
      "shares_nodes q pid out G (zip ?sc as) (st1\<lparr>rng := r'\<rparr>) st' v"
      using kids [OF len rng] by blast
    have "map (\<lambda>c. v (nname c)) ?sc = as"
      using v(2) len sc(2) by (intro zip_values) (auto simp: shares_nodes_def)
    from share_node_from_children [OF v(2) _ st1_def fresh ty Node.prems(4) loc [OF this]]
    show ?thesis using run v(1) fst_set_zip [of as ?sc] len sc by auto
  qed
  show ?case
  proof (cases ty)
    case LEAF
    then show ?thesis
      using Node.prems by (auto simp: share_recursive.simps shares_nodes_def node_value_def shared_state_def
          intro!: exI [of _ "\<lambda>_. a"])
  next
    case OR
    show ?thesis
    proof (rule finish [of "replicate (length ch) a" "rng st1"])
      show "share_recursive gen pid q G out ?t a st
          = share_children gen pid q G out (zip ?sc (replicate (length ch) a)) (st1\<lparr>rng := rng st1\<rparr>)"
        using OR sc(2) by (simp add: share_recursive.simps st1_def zip_replicate2 take_map)
    qed (use OR Node.prems(4) sc in \<open>auto simp: list_all_iff dest: map_eq_replicateD\<close>)
  next
    case AND
    then have "0 < length ch" using Node.prems(1) by simp
    then obtain as r' where as: "share_and gen q a (length ch) (rng st1) = Inr (as, r')" "length as = length ch"
      "list_all (is_in_range q) as" "sum_list as mod q = a"
      using share_and_correct [OF gen q0 _ Node.prems(4)] by blast
    show ?thesis
    proof (rule finish [of as r'])
      show "share_recursive gen pid q G out ?t a st
          = share_children gen pid q G out (zip ?sc as) (st1\<lparr>rng := r'\<rparr>)"
        using AND sc(2) as(1) by (cases out) (simp_all add: share_recursive.simps st1_def)
    qed (use AND as sorted_children_sum [of _ ?t] in auto)
  next
    case THRESHOLD
    let ?ps = "map (\<lambda>c. pid (nname c)) ?sc"
    obtain b r' where b: "share_threshold gen q a th (length ch) ?ps (rng st1)
        = Inr (map (\<lambda>p. poly_eval b p mod q) (take (length ch) ?ps), b, r')"
      "length b = nat th" "poly_eval b 0 mod q = a"
      using share_threshold_correct [OF gen q, of th "length ch" ?ps a "rng st1"] Node.prems THRESHOLD sc
      by (auto simp: list_all_iff)
    let ?as = "map (\<lambda>p. poly_eval b p mod q) ?ps"
    show ?thesis
    proof (rule finish [of ?as r'])
      show "share_recursive gen pid q G out ?t a st
          = share_children gen pid q G out (zip ?sc ?as) (st1\<lparr>rng := r'\<rparr>)"
        using THRESHOLD sc(2) b(1) by (cases out) (simp_all add: share_recursive.simps st1_def Let_def)
    qed (use THRESHOLD sc b q0 in \<open>auto simp: list_all_iff intro!: exI [of _ b]\<close>)
  qed (use Node.prems in auto)
qed

text \<open>Sharing a secret over a valid tree, and reconstructing it from the shares of any set of parties.\<close>

lemma validated_root:
  assumes "validate_tree par t {} = Inr names"
  shows "wf_node t" "distinct (node_names t)"
  using assms by (simp_all add: validate_tree_iff)

lemma share_root:
  fixes G :: "'p::ab_group_add"
  assumes "good_gen gen" "barrett_ok q" "validate_tree False t {} = Inr names" "pids_ok q pid t" "is_in_range q x"
  shows "\<exists>st v. share_recursive gen pid q G out t x (init_share_state r) = Inr st
     \<and> v (nname t) = x \<and> consistent q pid v t \<and> (\<forall>n\<in>set (node_names t). is_in_range q (v n))
     \<and> ac_shares st = (\<lambda>n. if n \<in> list_leaf_names t then Some (v n) else None)
     \<and> ac_internal_shares st = (\<lambda>n. if out \<and> n \<in> set (node_names t) then Some (v n) else None)
     \<and> ac_internal_pub_shares st = (\<lambda>n. if out \<and> n \<in> set (node_names t) then Some (smul (v n) G) else None)"
proof -
  obtain st v where "share_recursive gen pid q G out t x (init_share_state r) = Inr st"
    "shares_nodes q pid out G [(t, x)] (init_share_state r) st v"
    using share_recursive_shares [OF assms(1,2) validated_root(1) [OF assms(3)] assms(4)
        validated_root(2) [OF assms(3)] assms(5)] by blast
  then show ?thesis
    by (intro exI [of _ st] exI [of _ v])
       (simp add: shares_nodes_def node_value_def shared_state_def init_share_state_def cong: if_cong)
qed

context mod_inverse
begin

lemma share_reconstruct:
  assumes "field_modulus q" "good_gen gen" "validate_tree False t {} = Inr names" "pids_ok q pid t"
    "is_in_range q x" "ac_share gen pid TYPE('p::ab_group_add) t q x r = Inr shares"
  shows "reconstruct_recursive bn_inv pid q (shares |` A) t =
     (if satisfied A t then Inr x else error E_INSUFFICIENT)"
proof -
  have q0: "barrett_ok q" using field_modulus_barrett [OF assms(1)] .
  obtain st v where v: "share_recursive gen pid q (0::'p) False t x (init_share_state r) = Inr st"
    "v (nname t) = x" "consistent q pid v t" "\<forall>n\<in>set (node_names t). is_in_range q (v n)"
    "ac_shares st = (\<lambda>n. if n \<in> list_leaf_names t then Some (v n) else None)"
    using share_root [where G = "0::'p" and out = False, OF assms(2) q0 assms(3-5)] by blast
  have "shares_of v A t (shares |` A)"
    using assms(6) v(1) by (auto simp: ac_share_def shares_of_def restrict_map_def v(5))
  then show ?thesis
    using reconstruct_consistent [OF assms(1) validated_root(1) [OF assms(3)] assms(4) v(3)] v(2,4) by auto
qed

end

section \<open>Linearity\<close>

lemma poly_eval_append_zeros: "poly_eval (b @ replicate n 0) x = poly_eval b x"
  by (induction b) (simp_all, induction n, simp_all)

lemma poly_eval_add:
  "length b = length c \<Longrightarrow> poly_eval (map2 (+) b c) x = poly_eval b x + poly_eval c x"
  by (induction b c rule: list_induct2) (simp_all add: algebra_simps)

lemma poly_sum_exists:
  assumes "length b \<le> n" "length c \<le> n"
  shows "\<exists>d. length d \<le> n \<and> (\<forall>x. poly_eval d x = poly_eval b x + poly_eval c x)"
proof -
  let ?b = "b @ replicate (n - length b) 0" and ?c = "c @ replicate (n - length c) 0"
  have "length ?b = n" "length ?c = n" using assms by simp_all
  then show ?thesis
    using poly_eval_add [of ?b ?c] by (intro exI [of _ "map2 (+) ?b ?c"]) (simp add: poly_eval_append_zeros)
qed

lemma eqm_sum_list_add:
  "eqm q (\<Sum>c\<leftarrow>cs. (f c + g c) mod q) ((\<Sum>c\<leftarrow>cs. f c) + (\<Sum>c\<leftarrow>cs. g c))"
proof (induction cs)
  case (Cons c cs)
  have "eqm q ((f c + g c) mod q + (\<Sum>c\<leftarrow>cs. (f c + g c) mod q)) (f c + g c + ((\<Sum>c\<leftarrow>cs. f c) + (\<Sum>c\<leftarrow>cs. g c)))"
    by (intro eqm_add Cons.IH) simp
  then show ?case by (simp add: algebra_simps)
qed simp

text \<open>Adding two consistent assignments node by node gives a consistent assignment.\<close>

lemma consistent_add:
  "consistent q pid v t \<Longrightarrow> consistent q pid w t \<Longrightarrow> consistent q pid (\<lambda>n. (v n + w n) mod q) t"
proof (induction t)
  case (Node ty nm th ch)
  let ?u = "\<lambda>n. (v n + w n) mod q"
  have kids: "list_all (consistent q pid ?u) ch"
    using Node by (auto simp: list_all_iff)
  show ?case
  proof (cases ty)
    case AND
    have "(\<Sum>c\<leftarrow>ch. ?u (nname c)) mod q = ((\<Sum>c\<leftarrow>ch. v (nname c)) + (\<Sum>c\<leftarrow>ch. w (nname c))) mod q"
      using eqm_sum_list_add unfolding eqm_def .
    with AND Node.prems kids show ?thesis by (simp add: mod_add_eq)
  next
    case THRESHOLD
    from Node.prems THRESHOLD obtain b c where
      b: "length b \<le> nat th" "v nm = poly_eval b 0 mod q" "\<And>n. n \<in> set ch \<Longrightarrow> v (nname n) = poly_eval b (pid (nname n)) mod q"
      and c: "length c \<le> nat th" "w nm = poly_eval c 0 mod q" "\<And>n. n \<in> set ch \<Longrightarrow> w (nname n) = poly_eval c (pid (nname n)) mod q"
      by (auto simp: list_all_iff)
    obtain d where "length d \<le> nat th" "\<And>x. poly_eval d x = poly_eval b x + poly_eval c x"
      using poly_sum_exists [OF b(1) c(1)] by blast
    with THRESHOLD b c kids show ?thesis
      by (auto simp: list_all_iff mod_add_eq intro!: exI [of _ d])
  qed (use Node.prems kids in \<open>auto simp: list_all_iff\<close>)
qed

end
