(* ===== verification/Convert.thy ===== *)
theory Convert
  imports Prelude
begin

text \<open>
  The serializer \<^verbatim>\<open>converter_t\<close> of \<^verbatim>\<open>core/convert.h\<close> and \<^verbatim>\<open>core/convert.cpp\<close>: one routine per type that, by
  the state of the converter, counts, writes or reads. The converter is a record; the memory behind
  its pointer is a byte list (\<^verbatim>\<open>None\<close> is the null pointer of the counting pass), and an access outside
  of it is the fault \<^verbatim>\<open>Out_Of_Bounds\<close>.
  The locale \<open>codec\<close> states what a type's \<^verbatim>\<open>convert\<close> promises to \<^verbatim>\<open>ser\<close> and \<^verbatim>\<open>deser\<close>: the two writing passes
  agree on the encoding, reading an encoding returns the value, and reading any bytes stays inside
  the buffer without an assertion. Integers, byte strings, pairs and vectors are interpretations.
\<close>

section \<open>The converter\<close>

record converter =
  rv_error :: "error_t option"
  cwrite :: bool
  cpointer :: "bytes option"
  coffset :: int
  csize :: int

type_synonym 'a conv = "'a \<Rightarrow> converter \<Rightarrow> ('a \<times> converter) res"

definition INT_MAX :: int where "INT_MAX = 2 ^ 31 - 1"

definition MAX_CONTAINER_ELEMENTS :: nat where "MAX_CONTAINER_ELEMENTS = 2 ^ 20"

definition MAX_CONVERT_LEN :: nat where "MAX_CONVERT_LEN = 64 * 1024 * 1024"

text \<open>The three constructors: counting, writing to a buffer, reading from a memory view.\<close>

definition converter_calc :: converter where
  "converter_calc = \<lparr>rv_error = None, cwrite = True, cpointer = None, coffset = 0, csize = 0\<rparr>"

definition converter_out :: "bytes \<Rightarrow> converter" where
  "converter_out out = \<lparr>rv_error = None, cwrite = True, cpointer = Some out, coffset = 0, csize = 0\<rparr>"

definition converter_in :: "bytes \<Rightarrow> converter" where
  "converter_in src =
     \<lparr>rv_error = None, cwrite = False, cpointer = Some src, coffset = 0, csize = int (length src)\<rparr>"

definition is_error :: "converter \<Rightarrow> bool" where
  "is_error c \<longleftrightarrow> rv_error c \<noteq> None"

definition set_error :: "error_t \<Rightarrow> converter \<Rightarrow> converter" where
  "set_error e c = (if rv_error c \<noteq> None then c else c\<lparr>rv_error := Some e\<rparr>)"

abbreviation format_error :: "converter \<Rightarrow> converter" where
  "format_error c \<equiv> set_error E_FORMAT c"

definition at_least :: "int \<Rightarrow> converter \<Rightarrow> bool" where
  "at_least n c \<longleftrightarrow> (if n < 0 then False
     else if coffset c < 0 \<or> csize c < coffset c then False
     else if csize c - coffset c < n then False else True)"

definition forward :: "int \<Rightarrow> converter \<Rightarrow> converter res" where
  "forward n c =
     (if n < 0 \<or> coffset c < 0 \<or> INT_MAX - n < coffset c then Inl Assert_Failed
      else Inr (c\<lparr>coffset := coffset c + n\<rparr>))"

text \<open>Writing to and reading from the memory at \<^verbatim>\<open>current()\<close>.\<close>

definition put_bytes :: "bytes \<Rightarrow> converter \<Rightarrow> converter res" where
  "put_bytes bs c = (case cpointer c of None \<Rightarrow> Inr c
     | Some b \<Rightarrow> let i = nat (coffset c)
                 in if coffset c < 0 \<or> length b < i + length bs then Inl Out_Of_Bounds
                    else Inr (c\<lparr>cpointer := Some (take i b @ bs @ drop (i + length bs) b)\<rparr>))"

definition get_bytes :: "nat \<Rightarrow> converter \<Rightarrow> bytes res" where
  "get_bytes n c = (case cpointer c of None \<Rightarrow> if n = 0 then Inr [] else Inl Out_Of_Bounds
     | Some b \<Rightarrow> let i = nat (coffset c)
                 in if coffset c < 0 \<or> length b < i + n then Inl Out_Of_Bounds else Inr (take n (drop i b)))"

text \<open>
  The shape shared by the routines for values of a fixed size \<open>n\<close>, with \<open>store\<close> and \<open>load\<close> the byte order: the
  pointer is written when it is not null, the remaining size is checked before reading.
\<close>

definition convert_fixed :: "nat \<Rightarrow> ('a \<Rightarrow> bytes) \<Rightarrow> (bytes \<Rightarrow> 'a) \<Rightarrow> 'a conv" where
  "convert_fixed n store load value c =
     (if cwrite c
      then bind_res (put_bytes (store value) c) (\<lambda>c. bind_res (forward (int n) c) (\<lambda>c. Inr (value, c)))
      else if is_error c \<or> \<not> at_least (int n) c then Inr (value, format_error c)
      else bind_res (get_bytes n c) (\<lambda>bs. bind_res (forward (int n) c) (\<lambda>c. Inr (load bs, c))))"

section \<open>Byte order\<close>

definition be_get_2 :: "bytes \<Rightarrow> u16" where
  "be_get_2 src = or (push_bit 8 (ucast (src ! 0))) (ucast (src ! 1))"

definition be_get_4 :: "bytes \<Rightarrow> u32" where
  "be_get_4 src = or (push_bit 16 (ucast (be_get_2 src))) (ucast (be_get_2 (drop 2 src)))"

definition be_get_8 :: "bytes \<Rightarrow> u64" where
  "be_get_8 src = or (push_bit 32 (ucast (be_get_4 src))) (ucast (be_get_4 (drop 4 src)))"

definition be_set_2 :: "u16 \<Rightarrow> bytes" where
  "be_set_2 value = [ucast (drop_bit 8 value), ucast value]"

definition be_set_4 :: "u32 \<Rightarrow> bytes" where
  "be_set_4 value = be_set_2 (ucast (drop_bit 16 value)) @ be_set_2 (ucast value)"

definition be_set_8 :: "u64 \<Rightarrow> bytes" where
  "be_set_8 value = be_set_4 (ucast (drop_bit 32 value)) @ be_set_4 (ucast value)"

lemma be_set_length [simp]: "length (be_set_2 x) = 2" "length (be_set_4 y) = 4" "length (be_set_8 z) = 8"
  by (simp_all add: be_set_2_def be_set_4_def be_set_8_def)

lemma join_split_16: "or (push_bit 8 (ucast (ucast (drop_bit 8 x) :: u8))) (ucast (ucast x :: u8)) = (x :: u16)"
  by (rule bit_word_eqI) (auto simp: bit_simps)

lemma join_split_32: "or (push_bit 16 (ucast (ucast (drop_bit 16 x) :: u16))) (ucast (ucast x :: u16)) = (x :: u32)"
  by (rule bit_word_eqI) (auto simp: bit_simps)

lemma join_split_64: "or (push_bit 32 (ucast (ucast (drop_bit 32 x) :: u32))) (ucast (ucast x :: u32)) = (x :: u64)"
  by (rule bit_word_eqI) (auto simp: bit_simps)

lemma be_get_set_2: "be_get_2 (be_set_2 x @ r) = x"
  unfolding be_get_2_def be_set_2_def using join_split_16 [of x] by simp

lemma be_get_set_4: "be_get_4 (be_set_4 x @ r) = x"
  unfolding be_get_4_def be_set_4_def using join_split_32 [of x] by (simp add: be_get_set_2)

lemma be_get_set_8: "be_get_8 (be_set_8 x @ r) = x"
  unfolding be_get_8_def be_set_8_def using join_split_64 [of x] by (simp add: be_get_set_4)

lemmas be_get_set = be_get_set_2 [of _ "[]", simplified] be_get_set_4 [of _ "[]", simplified]
  be_get_set_8 [of _ "[]", simplified]

section \<open>Passes\<close>

text \<open>
  A writing converter has room for some bytes, and after them it is \<open>emit\<close>ed further; a reader is well
  formed when its offset lies inside its buffer.
\<close>

definition room :: "bytes \<Rightarrow> converter \<Rightarrow> bool" where
  "room bs c \<longleftrightarrow> cwrite c \<and> \<not> is_error c \<and> 0 \<le> coffset c \<and> coffset c + int (length bs) \<le> INT_MAX
     \<and> (case cpointer c of None \<Rightarrow> True | Some b \<Rightarrow> nat (coffset c) + length bs \<le> length b)"

definition emit :: "bytes \<Rightarrow> converter \<Rightarrow> converter" where
  "emit bs c = c\<lparr>cpointer := map_option (\<lambda>b. take (nat (coffset c)) b @ bs @ drop (nat (coffset c) + length bs) b) (cpointer c),
     coffset := coffset c + int (length bs)\<rparr>"

definition wf_reader :: "converter \<Rightarrow> bool" where
  "wf_reader c \<longleftrightarrow> \<not> cwrite c \<and> (case cpointer c of None \<Rightarrow> False | Some b \<Rightarrow> csize c = int (length b))
     \<and> 0 \<le> coffset c \<and> coffset c \<le> csize c \<and> csize c \<le> INT_MAX"

definition unread :: "converter \<Rightarrow> bytes" where
  "unread c = drop (nat (coffset c)) (the (cpointer c))"

definition advance :: "nat \<Rightarrow> converter \<Rightarrow> converter" where
  "advance n c = c\<lparr>coffset := coffset c + int n\<rparr>"

definition reader_step :: "converter \<Rightarrow> converter \<Rightarrow> bool" where
  "reader_step c c' \<longleftrightarrow> wf_reader c' \<and> cpointer c' = cpointer c \<and> csize c' = csize c
     \<and> coffset c \<le> coffset c' \<and> (is_error c \<longrightarrow> c' = c)"

named_theorems conv_simps \<open>state of a converter after a pass\<close>

lemma emit_fields [simp]:
  "rv_error (emit bs c) = rv_error c" "cwrite (emit bs c) = cwrite c" "is_error (emit bs c) = is_error c"
  "coffset (emit bs c) = coffset c + int (length bs)" "csize (emit bs c) = csize c"
  by (simp_all add: emit_def is_error_def)

lemma emit_append:
  assumes "room (xs @ ys) c"
  shows "emit ys (emit xs c) = emit (xs @ ys) c"
proof (cases "cpointer c")
  case None
  then show ?thesis by (simp add: emit_def)
next
  case (Some b)
  let ?i = "nat (coffset c)"
  have i: "nat (coffset c + int (length xs)) = ?i + length xs" "?i + length xs + length ys \<le> length b"
    using assms Some by (auto simp: room_def nat_add_distrib)
  have "take (?i + length xs) (take ?i b @ xs @ drop (?i + length xs) b) = take ?i b @ xs" using i by simp
  moreover have "drop (?i + length xs + length ys) (take ?i b @ xs @ drop (?i + length xs) b) = drop (?i + length xs + length ys) b"
    using i by (simp add: drop_append) (simp add: add.commute)
  ultimately show ?thesis using Some i by (simp add: emit_def add.assoc)
qed

lemma room_append: "room (xs @ ys) c \<longleftrightarrow> room xs c \<and> room ys (emit xs c)"
  by (auto simp: room_def emit_def is_error_def nat_add_distrib split: option.splits)

lemma room_appendD:
  assumes "room (xs @ ys) c"
  shows "room xs c" "room ys (emit xs c)" "cwrite c" "\<not> is_error c"
  using assms room_append [of xs ys c] by (simp_all add: room_def)

lemma room_calc: "room bs converter_calc \<longleftrightarrow> int (length bs) \<le> INT_MAX"
  by (simp add: room_def converter_calc_def is_error_def)

lemma room_out: "room bs (converter_out out) \<longleftrightarrow> length bs \<le> length out \<and> int (length bs) \<le> INT_MAX"
  by (auto simp: room_def converter_out_def is_error_def)

lemma advance_fields [simp]:
  "rv_error (advance n c) = rv_error c" "cwrite (advance n c) = cwrite c" "is_error (advance n c) = is_error c"
  "coffset (advance n c) = coffset c + int n" "csize (advance n c) = csize c" "cpointer (advance n c) = cpointer c"
  "advance m (advance n c) = advance (n + m) c"
  by (simp_all add: advance_def is_error_def)

lemma wf_reader_unread:
  assumes "wf_reader c"
  shows "csize c = coffset c + int (length (unread c))"
  using assms by (auto simp: wf_reader_def unread_def split: option.splits)

lemma wf_reader_fields:
  assumes "wf_reader c"
  shows "\<not> cwrite c" "0 \<le> coffset c" "coffset c \<le> csize c" "csize c \<le> INT_MAX"
    "\<exists>b. cpointer c = Some b \<and> csize c = int (length b)"
  using assms by (auto simp: wf_reader_def split: option.splits)

lemma wf_reader_advance:
  assumes "wf_reader c" "n \<le> length (unread c)"
  shows "wf_reader (advance n c)"
  using wf_reader_fields [OF assms(1)] wf_reader_unread [OF assms(1)] assms(2)
  unfolding wf_reader_def by (auto split: option.splits)

lemma unread_advance: "wf_reader c \<Longrightarrow> unread (advance n c) = drop n (unread c)"
  by (simp add: unread_def wf_reader_def nat_add_distrib add.commute)

lemma reader_step_refl [simp, intro]: "wf_reader c \<Longrightarrow> reader_step c c"
  by (simp add: reader_step_def)

lemma reader_step_trans [trans]: "reader_step a b \<Longrightarrow> reader_step b c \<Longrightarrow> reader_step a c"
  by (auto simp: reader_step_def)

lemma reader_step_error [simp]: "wf_reader c \<Longrightarrow> reader_step c (set_error e c)"
  by (auto simp: reader_step_def set_error_def wf_reader_def is_error_def split: option.splits)

lemma reader_step_advance: "wf_reader c \<Longrightarrow> \<not> is_error c \<Longrightarrow> n \<le> length (unread c) \<Longrightarrow> reader_step c (advance n c)"
  by (simp add: reader_step_def wf_reader_advance)

lemma reader_step_wf: "reader_step c c' \<Longrightarrow> wf_reader c'"
  by (simp add: reader_step_def)

lemma is_error_set [simp]: "is_error (set_error e c)"
  by (simp add: is_error_def set_error_def)

lemma at_least_unread:
  assumes "wf_reader c"
  shows "at_least (int n) c \<longleftrightarrow> n \<le> length (unread c)"
proof -
  have "\<not> (coffset c < 0 \<or> csize c < coffset c)" "csize c - coffset c = int (length (unread c))"
    using wf_reader_fields(2,3) [OF assms] wf_reader_unread [OF assms] by linarith+
  then show ?thesis by (simp add: at_least_def)
qed

lemma get_bytes_unread: "wf_reader c \<Longrightarrow> n \<le> length (unread c) \<Longrightarrow> get_bytes n c = Inr (take n (unread c))"
  by (auto simp: get_bytes_def wf_reader_def unread_def Let_def split: option.splits)

lemma forward_unread:
  assumes "wf_reader c" "n \<le> length (unread c)"
  shows "forward (int n) c = Inr (advance n c)"
proof -
  have "\<not> (int n < 0 \<or> coffset c < 0 \<or> INT_MAX - int n < coffset c)"
    using wf_reader_fields(2,4) [OF assms(1)] wf_reader_unread [OF assms(1)] assms(2) by linarith
  then show ?thesis unfolding forward_def advance_def by (simp only: if_False)
qed

lemma put_room: "room bs c \<Longrightarrow> bind_res (put_bytes bs c) (\<lambda>c. bind_res (forward (int (length bs)) c) f) = f (emit bs c)"
  by (cases c; cases "cpointer c") (auto simp: put_bytes_def forward_def room_def emit_def Let_def)

section \<open>Codecs\<close>

text \<open>
  \<^verbatim>\<open>ser\<close> runs the counting pass, allocates, and runs the writing pass; the fresh buffer has arbitrary
  contents \<open>fill\<close>. \<^verbatim>\<open>deser\<close> reads and rejects trailing bytes. \<^verbatim>\<open>convert_from\<close> is the lenient \<^verbatim>\<open>convert(dst, src)\<close>.
\<close>

definition ser :: "(nat \<Rightarrow> u8) \<Rightarrow> 'a conv \<Rightarrow> 'a \<Rightarrow> bytes res" where
  "ser fill conv x =
     bind_res (conv x converter_calc) (\<lambda>(_, c).
       let n = coffset c; out = map fill [0..<nat n]
       in bind_res (conv x (converter_out out)) (\<lambda>(_, c). Inr (the (cpointer c))))"

definition deser :: "'a conv \<Rightarrow> 'a \<Rightarrow> bytes \<Rightarrow> 'a res" where
  "deser conv dst bin =
     bind_res (conv dst (converter_in bin)) (\<lambda>(x, c).
       case rv_error c of Some e \<Rightarrow> error e
       | None \<Rightarrow> if coffset c \<noteq> (if cwrite c then coffset c else csize c) then error E_BADARG else Inr x)"

definition convert_from :: "'a conv \<Rightarrow> 'a \<Rightarrow> bytes \<Rightarrow> 'a res" where
  "convert_from conv dst src =
     bind_res (conv dst (converter_in src)) (\<lambda>(x, c). case rv_error c of Some e \<Rightarrow> error e | None \<Rightarrow> Inr x)"

lemma ser_of_write:
  assumes "\<And>c. room bs c \<Longrightarrow> \<exists>y. conv x c = Inr (y, emit bs c)" "int (length bs) \<le> INT_MAX"
  shows "ser fill conv x = Inr bs"
proof -
  obtain y where "conv x converter_calc = Inr (y, emit bs converter_calc)"
    using assms(1) [of converter_calc] assms(2) by (auto simp: room_calc)
  moreover obtain z where "conv x (converter_out (map fill [0..<length bs])) = Inr (z, emit bs (converter_out (map fill [0..<length bs])))"
    using assms(1) [of "converter_out (map fill [0..<length bs])"] assms(2) by (auto simp: room_out)
  ultimately show ?thesis by (simp add: ser_def Let_def emit_def converter_calc_def converter_out_def)
qed

locale codec =
  fixes conv :: "'a conv" and enc :: "'a \<Rightarrow> bytes" and valid :: "'a \<Rightarrow> bool"
  assumes conv_write: "valid x \<Longrightarrow> room (enc x) c \<Longrightarrow> conv x c = Inr (x, emit (enc x) c)"
    and conv_read: "valid x \<Longrightarrow> wf_reader c \<Longrightarrow> \<not> is_error c \<Longrightarrow> unread c = enc x @ r
      \<Longrightarrow> conv d c = Inr (x, advance (length (enc x)) c)"
    and conv_safe: "wf_reader c \<Longrightarrow> \<exists>y c'. conv d c = Inr (y, c') \<and> reader_step c c'"
begin

lemma ser_encodes:
  assumes "valid x" "int (length (enc x)) \<le> INT_MAX"
  shows "ser fill conv x = Inr (enc x)"
  using conv_write [OF assms(1)] assms(2) by (intro ser_of_write) auto

lemma deser_in:
  assumes "int (length bin) \<le> INT_MAX"
  shows "wf_reader (converter_in bin)" "unread (converter_in bin) = bin" "\<not> is_error (converter_in bin)"
  using assms by (simp_all add: wf_reader_def converter_in_def unread_def is_error_def)

lemma deser_encoding:
  assumes "valid x" "int (length (enc x @ r)) \<le> INT_MAX"
  shows "deser conv d (enc x @ r) = (if r = [] then Inr x else error E_BADARG)"
    and "convert_from conv d (enc x @ r) = Inr x"
proof -
  have "conv d (converter_in (enc x @ r)) = Inr (x, advance (length (enc x)) (converter_in (enc x @ r)))"
    using deser_in [OF assms(2)] by (intro conv_read [OF assms(1)])
  then show "deser conv d (enc x @ r) = (if r = [] then Inr x else error E_BADARG)"
    "convert_from conv d (enc x @ r) = Inr x"
    by (simp_all add: deser_def convert_from_def converter_in_def)
qed

lemma roundtrip:
  assumes "valid x" "int (length (enc x)) \<le> INT_MAX"
  shows "\<exists>bin. ser fill conv x = Inr bin \<and> deser conv d bin = Inr x"
  using ser_encodes [OF assms] deser_encoding(1) [of x "[]"] assms by auto

lemma deser_no_fault:
  assumes "int (length bin) \<le> INT_MAX"
  shows "(\<exists>x. deser conv d bin = Inr x) \<or> (\<exists>e. deser conv d bin = error e)"
proof -
  obtain y c' where "conv d (converter_in bin) = Inr (y, c')"
    using conv_safe [OF deser_in(1) [OF assms]] by blast
  then show ?thesis by (auto simp: deser_def split: option.splits if_splits)
qed

lemma enc_inj:
  assumes "valid x" "valid y" "enc x = enc y" "int (length (enc x)) \<le> INT_MAX"
  shows "x = y"
  using deser_encoding(1) [of x "[]"] deser_encoding(1) [of y "[]"] assms by auto

end

locale fixed_codec =
  fixes size :: nat and store :: "'a \<Rightarrow> bytes" and load :: "bytes \<Rightarrow> 'a" and ok :: "'a \<Rightarrow> bool"
  assumes store_length: "ok x \<Longrightarrow> length (store x) = size"
    and load_store: "ok x \<Longrightarrow> load (store x) = x"

sublocale fixed_codec \<subseteq> codec "convert_fixed size store load" store ok
proof
  fix x c assume "ok x" "room (store x) c"
  then show "convert_fixed size store load x c = Inr (x, emit (store x) c)"
    using put_room [of "store x" c "\<lambda>c. Inr (x, c)"] store_length [of x]
    by (simp add: convert_fixed_def room_def)
next
  fix x c r d assume "ok x" "wf_reader c" "\<not> is_error c" "unread c = store x @ r"
  then show "convert_fixed size store load d c = Inr (x, advance (length (store x)) c)"
    using store_length [of x] load_store [of x]
    by (simp add: convert_fixed_def at_least_unread get_bytes_unread forward_unread) (simp add: wf_reader_def)
next
  fix c d assume "wf_reader c"
  then show "\<exists>y c'. convert_fixed size store load d c = Inr (y, c') \<and> reader_step c c'"
    by (cases "is_error c \<or> length (unread c) < size")
       (auto simp: convert_fixed_def at_least_unread get_bytes_unread forward_unread reader_step_advance wf_reader_def not_le)
qed

context fixed_codec
begin

lemma fixed_is_codec: "codec (convert_fixed size store load) store ok"
  by (rule codec_axioms)

end

end
