(* ===== verification/Convert_Types.thy ===== *)
theory Convert_Types
  imports Convert
begin

text \<open>
  The \<^verbatim>\<open>convert\<close> routines of the basic types and containers (\<^verbatim>\<open>core/convert.cpp\<close>, \<^verbatim>\<open>core/convert.h\<close> and
  \<^verbatim>\<open>buf_t::convert\<close> in \<^verbatim>\<open>core/buf.cpp\<close>), each shown to be a codec: an interpretation where the type is
  closed, a lemma inside the locale where the routine is a template over another codec.
\<close>

section \<open>Integers\<close>

definition convert_u8 :: "u8 conv" where
  "convert_u8 = convert_fixed 1 (\<lambda>v. [v]) (\<lambda>bs. bs ! 0)"

definition convert_u16 :: "u16 conv" where
  "convert_u16 = convert_fixed 2 be_set_2 be_get_2"

definition convert_u32 :: "u32 conv" where
  "convert_u32 = convert_fixed 4 be_set_4 be_get_4"

definition convert_u64 :: "u64 conv" where
  "convert_u64 = convert_fixed 8 be_set_8 be_get_8"

lemma fixed_u8: "fixed_codec 1 (\<lambda>v. [v]) (\<lambda>bs. bs ! 0) (\<lambda>_. True)"
  by unfold_locales simp_all

lemma fixed_u16: "fixed_codec 2 be_set_2 be_get_2 (\<lambda>_. True)"
  by unfold_locales (simp_all add: be_get_set)

lemma fixed_u32: "fixed_codec 4 be_set_4 be_get_4 (\<lambda>_. True)"
  by unfold_locales (simp_all add: be_get_set)

lemma fixed_u64: "fixed_codec 8 be_set_8 be_get_8 (\<lambda>_. True)"
  by unfold_locales (simp_all add: be_get_set)

interpretation c_u8: codec convert_u8 "\<lambda>v. [v]" "\<lambda>_. True"
  unfolding convert_u8_def by (rule fixed_codec.fixed_is_codec [OF fixed_u8])

interpretation c_u16: codec convert_u16 be_set_2 "\<lambda>_. True"
  unfolding convert_u16_def by (rule fixed_codec.fixed_is_codec [OF fixed_u16])

interpretation c_u32: codec convert_u32 be_set_4 "\<lambda>_. True"
  unfolding convert_u32_def by (rule fixed_codec.fixed_is_codec [OF fixed_u32])

interpretation c_u64: codec convert_u64 be_set_8 "\<lambda>_. True"
  unfolding convert_u64_def by (rule fixed_codec.fixed_is_codec [OF fixed_u64])

text \<open>
  The routines that go through a value of another type: the temporary is converted, and on a
  successful read the value is set from it.
\<close>

definition convert_via :: "('a \<Rightarrow> 'b) \<Rightarrow> ('b \<Rightarrow> 'a) \<Rightarrow> 'b conv \<Rightarrow> 'a conv" where
  "convert_via to from conv value c =
     bind_res (conv (to value) c) (\<lambda>(v, c). Inr (if \<not> is_error c \<and> \<not> cwrite c then from v else value, c))"

context codec
begin

lemma via_codec: "codec (convert_via to from conv) (\<lambda>x. enc (to x)) (\<lambda>x. valid (to x) \<and> from (to x) = x)"
proof
  fix x c assume "valid (to x) \<and> from (to x) = x" "room (enc (to x)) c"
  then show "convert_via to from conv x c = Inr (x, emit (enc (to x)) c)"
    using conv_write [of "to x" c] by (simp add: convert_via_def room_def)
next
  fix x c r d assume "valid (to x) \<and> from (to x) = x" "wf_reader c" "\<not> is_error c" "unread c = enc (to x) @ r"
  then show "convert_via to from conv d c = Inr (x, advance (length (enc (to x))) c)"
    using conv_read [of "to x" c r "to d"] wf_reader_fields(1) [of c] by (simp add: convert_via_def)
next
  fix c d assume "wf_reader c"
  then obtain y c' where "conv (to d) c = Inr (y, c')" "reader_step c c'" using conv_safe by blast
  then show "\<exists>y c'. convert_via to from conv d c = Inr (y, c') \<and> reader_step c c'"
    by (simp add: convert_via_def)
qed

end

definition convert_bool :: "bool conv" where
  "convert_bool = convert_via (\<lambda>b. if b then 1 else 0) (\<lambda>v. v \<noteq> 0) convert_u8"

definition convert_i8 :: "int conv" where "convert_i8 = convert_via word_of_int sint convert_u8"
definition convert_i16 :: "int conv" where "convert_i16 = convert_via word_of_int sint convert_u16"
definition convert_i32 :: "int conv" where "convert_i32 = convert_via word_of_int sint convert_u32"
definition convert_i64 :: "int conv" where "convert_i64 = convert_via word_of_int sint convert_u64"

text \<open>The range of a signed integer of \<open>n\<close> bits.\<close>

definition fits_signed :: "nat \<Rightarrow> int \<Rightarrow> bool" where
  "fits_signed n x \<longleftrightarrow> - (2 ^ (n - 1)) \<le> x \<and> x < 2 ^ (n - 1)"

lemma sint_of_int_fits: "fits_signed LENGTH('a::len) x \<Longrightarrow> sint (word_of_int x :: 'a word) = x"
  by (simp add: fits_signed_def sint_sbintrunc' signed_take_bit_int_eq_self)

lemma codec_weaken:
  assumes "codec conv enc valid" "\<And>x. valid' x \<Longrightarrow> valid x"
  shows "codec conv enc valid'"
  using assms unfolding codec_def by blast

interpretation c_bool: codec convert_bool "\<lambda>b. [if b then 1 else 0]" "\<lambda>_. True"
  unfolding convert_bool_def by (rule codec_weaken [OF c_u8.via_codec]) simp

interpretation c_i16: codec convert_i16 "\<lambda>x. be_set_2 (word_of_int x)" "fits_signed 16"
  unfolding convert_i16_def
  by (rule codec_weaken [OF c_u16.via_codec]) (use sint_of_int_fits [where 'a = 16] in simp)

interpretation c_i32: codec convert_i32 "\<lambda>x. be_set_4 (word_of_int x)" "fits_signed 32"
  unfolding convert_i32_def
  by (rule codec_weaken [OF c_u32.via_codec]) (use sint_of_int_fits [where 'a = 32] in simp)

interpretation c_i64: codec convert_i64 "\<lambda>x. be_set_8 (word_of_int x)" "fits_signed 64"
  unfolding convert_i64_def
  by (rule codec_weaken [OF c_u64.via_codec]) (use sint_of_int_fits [where 'a = 64] in simp)

interpretation c_i8: codec convert_i8 "\<lambda>x. [word_of_int x]" "fits_signed 8"
  unfolding convert_i8_def
  by (rule codec_weaken [OF c_u8.via_codec]) (use sint_of_int_fits [where 'a = 8] in simp)

section \<open>Sequences\<close>

text \<open>\<^verbatim>\<open>convert(first, last...)\<close>: the rest only when the first one left no error.\<close>

definition convert_pair :: "'a conv \<Rightarrow> 'b conv \<Rightarrow> ('a \<times> 'b) conv" where
  "convert_pair ca cb = (\<lambda>(x, y) c.
     bind_res (ca x c) (\<lambda>(x, c).
       if is_error c then Inr ((x, y), c) else bind_res (cb y c) (\<lambda>(y, c). Inr ((x, y), c))))"

lemma pair_codec:
  fixes ca :: "'a conv" and cb :: "'b conv"
  assumes "codec ca ea va" "codec cb eb vb"
  shows "codec (convert_pair ca cb) (\<lambda>(x, y). ea x @ eb y) (\<lambda>(x, y). va x \<and> vb y)"
proof
  fix x :: "'a \<times> 'b" and c assume *: "case x of (x, y) \<Rightarrow> va x \<and> vb y" "room (case x of (x, y) \<Rightarrow> ea x @ eb y) c"
  obtain a b where x: "x = (a, b)" by fastforce
  have r: "room (ea a) c" "room (eb b) (emit (ea a) c)" using * x room_append by auto
  then have "\<not> is_error c" by (simp add: room_def)
  then show "convert_pair ca cb x c = Inr (x, emit (case x of (x, y) \<Rightarrow> ea x @ eb y) c)"
    using codec.conv_write [OF assms(1) _ r(1)] codec.conv_write [OF assms(2) _ r(2)] * x
    by (simp add: convert_pair_def emit_append)
next
  fix x d :: "'a \<times> 'b" and c r assume *: "case x of (x, y) \<Rightarrow> va x \<and> vb y" "wf_reader c" "\<not> is_error c"
    "unread c = (case x of (x, y) \<Rightarrow> ea x @ eb y) @ r"
  obtain a b where x: "x = (a, b)" by fastforce
  obtain da db where d: "d = (da, db)" by fastforce
  let ?c = "advance (length (ea a)) c"
  have u: "unread c = ea a @ (eb b @ r)" using * x by simp
  then have "wf_reader ?c" "unread ?c = eb b @ r" using *(2) by (simp_all add: wf_reader_advance unread_advance)
  then have "cb db ?c = Inr (b, advance (length (eb b)) ?c)" using codec.conv_read [OF assms(2), of b ?c r db] * x by simp
  moreover have "ca da c = Inr (a, ?c)" using codec.conv_read [OF assms(1), of a c "eb b @ r" da] * x u by simp
  ultimately show "convert_pair ca cb d c = Inr (x, advance (length (case x of (x, y) \<Rightarrow> ea x @ eb y)) c)"
    using *(3) by (simp add: convert_pair_def d x)
next
  fix c and d :: "'a \<times> 'b" assume wf: "wf_reader c"
  obtain da db where d: "d = (da, db)" by fastforce
  obtain x c1 where 1: "ca da c = Inr (x, c1)" "reader_step c c1"
    using codec.conv_safe [OF assms(1) wf] by blast
  obtain y c2 where 2: "cb db c1 = Inr (y, c2)" "reader_step c1 c2"
    using codec.conv_safe [OF assms(2) reader_step_wf [OF 1(2)]] by blast
  have "reader_step c c2" using 1(2) 2(2) by (rule reader_step_trans)
  with 1 2 show "\<exists>y c'. convert_pair ca cb d c = Inr (y, c') \<and> reader_step c c'"
    by (auto simp: convert_pair_def d)
qed

text \<open>A loop over elements that stops at the first error.\<close>

fun convert_elems :: "'a conv \<Rightarrow> 'a list conv" where
  "convert_elems conv [] c = Inr ([], c)"
| "convert_elems conv (x # xs) c =
     (if is_error c then Inr (x # xs, c)
      else bind_res (conv x c) (\<lambda>(y, c). bind_res (convert_elems conv xs c) (\<lambda>(ys, c). Inr (y # ys, c))))"

context codec
begin

lemma elems_write:
  "list_all valid xs \<Longrightarrow> room (concat (map enc xs)) c \<Longrightarrow>
     convert_elems conv xs c = Inr (xs, emit (concat (map enc xs)) c)"
proof (induction xs arbitrary: c)
  case Nil
  then show ?case by (cases c; cases "cpointer c") (auto simp: emit_def)
next
  case (Cons x xs)
  have r: "room (enc x) c" "room (concat (map enc xs)) (emit (enc x) c)" using Cons.prems room_append by auto
  then have "\<not> is_error c" by (simp add: room_def)
  then show ?case
    using Cons.IH [OF _ r(2)] conv_write [OF _ r(1)] Cons.prems by (simp add: emit_append)
qed

lemma elems_read:
  "list_all valid xs \<Longrightarrow> length ds = length xs \<Longrightarrow> wf_reader c \<Longrightarrow> \<not> is_error c \<Longrightarrow>
     unread c = concat (map enc xs) @ r \<Longrightarrow>
     convert_elems conv ds c = Inr (xs, advance (length (concat (map enc xs))) c)"
proof (induction xs arbitrary: c ds)
  case Nil
  then show ?case by (cases c) (simp add: advance_def)
next
  case (Cons x xs)
  obtain d ds' where d: "ds = d # ds'" using Cons.prems(2) by (cases ds) auto
  let ?c = "advance (length (enc x)) c"
  have "unread c = enc x @ (concat (map enc xs) @ r)" using Cons.prems by simp
  moreover from this have "wf_reader ?c" "unread ?c = concat (map enc xs) @ r"
    using Cons.prems by (simp_all add: wf_reader_advance unread_advance)
  ultimately show ?case
    using Cons.IH [of ds' ?c] conv_read [of x c _ d] Cons.prems d by simp
qed

lemma elems_safe: "wf_reader c \<Longrightarrow> \<exists>ys c'. convert_elems conv ds c = Inr (ys, c') \<and> reader_step c c'"
proof (induction ds arbitrary: c)
  case (Cons d ds)
  show ?case
  proof (cases "is_error c")
    case False
    obtain y c1 where 1: "conv d c = Inr (y, c1)" "reader_step c c1" using conv_safe [OF Cons.prems] by blast
    obtain ys c2 where 2: "convert_elems conv ds c1 = Inr (ys, c2)" "reader_step c1 c2"
      using Cons.IH [OF reader_step_wf [OF 1(2)]] by blast
    have "reader_step c c2" using 1(2) 2(2) by (rule reader_step_trans)
    with 1 2 False show ?thesis by simp
  qed (use Cons.prems in simp)
qed simp

end

section \<open>Length prefixes\<close>

text \<open>
  \<^verbatim>\<open>convert_len\<close>: one to four bytes, the number of bytes in the leading bits. The reader runs on after an
  error, which leaves the byte unchanged, and then drops the length.
\<close>

definition finish_len :: "u32 \<Rightarrow> converter \<Rightarrow> (u32 \<times> converter) res" where
  "finish_len len c =
     (if is_error c then Inr (0, c)
      else if MAX_CONVERT_LEN < unat len then Inr (0, format_error c) else Inr (len, c))"

definition write_len :: "u32 \<Rightarrow> bytes" where
  "write_len len =
     (if len \<le> 0x7f then [ucast len]
      else if len \<le> 0x3fff then [or (ucast (drop_bit 8 len)) 0x80, ucast len]
      else if len \<le> 0x1fffff then [or (ucast (drop_bit 16 len)) 0xc0, ucast (drop_bit 8 len), ucast len]
      else [or (ucast (drop_bit 24 len)) 0xe0, ucast (drop_bit 16 len), ucast (drop_bit 8 len), ucast len])"

definition read_len_byte :: "u32 \<Rightarrow> u8 \<Rightarrow> converter \<Rightarrow> (u32 \<Rightarrow> u8 \<Rightarrow> converter \<Rightarrow> 'r res) \<Rightarrow> 'r res" where
  "read_len_byte len b c f =
     bind_res (convert_u8 b c) (\<lambda>(b, c). f (or (push_bit 8 len) (ucast b)) b c)"

definition convert_len :: "u32 conv" where
  "convert_len len c =
     (if cwrite c
      then bind_res (cb_assert (unat len \<le> MAX_CONVERT_LEN)) (\<lambda>_.
           bind_res (fold_res (\<lambda>b c. bind_res (convert_u8 b c) (\<lambda>(_, c). Inr c)) (write_len len) c)
             (\<lambda>c. Inr (len, c)))
      else bind_res (convert_u8 0 c) (\<lambda>(b, c).
        if is_error c then Inr (0, c)
        else if and b 0x80 = 0 then finish_len (ucast b) c
        else if and b 0x40 = 0 then read_len_byte (ucast (and b 0x3f)) b c (\<lambda>len b c. finish_len len c)
        else if and b 0x20 = 0 then
          read_len_byte (ucast (and b 0x1f)) b c (\<lambda>len b c. read_len_byte len b c (\<lambda>len b c. finish_len len c))
        else
          read_len_byte (ucast (and b 0x1f)) b c (\<lambda>len b c. read_len_byte len b c (\<lambda>len b c.
            read_len_byte len b c (\<lambda>len b c. finish_len len c)))))"

lemma write_len_fold:
  "room bs c \<Longrightarrow> fold_res (\<lambda>b c. bind_res (convert_u8 b c) (\<lambda>(_, c). Inr c)) bs c = Inr (emit bs c)"
proof (induction bs arbitrary: c)
  case Nil
  then show ?case by (cases c; cases "cpointer c") (auto simp: emit_def)
next
  case (Cons b bs)
  have r: "room [b] c" "room bs (emit [b] c)" using Cons.prems room_append [of "[b]" bs c] by auto
  then have "convert_u8 b c = Inr (b, emit [b] c)" using c_u8.conv_write by simp
  then show ?case using Cons.IH [OF r(2)] emit_append [of "[b]" bs c] Cons.prems by simp
qed

lemma bit_small:
  fixes len :: u32
  assumes "unat len < 2 ^ k" "k \<le> n"
  shows "\<not> bit len n"
proof -
  have "take_bit k (unat len) = unat len" using assms(1) by (simp add: take_bit_nat_eq_self)
  then have "\<not> bit (unat len) n" using assms(2) by (metis bit_take_bit_iff leD)
  then show ?thesis by (simp add: bit_unsigned_iff)
qed

lemma bits_prefix:
  "bit (0x80 :: u8) n \<longleftrightarrow> n = 7" "bit (0xc0 :: u8) n \<longleftrightarrow> n = 6 \<or> n = 7"
  "bit (0xe0 :: u8) n \<longleftrightarrow> n = 5 \<or> n = 6 \<or> n = 7"
  "bit (0x40 :: u8) n \<longleftrightarrow> n = 6" "bit (0x20 :: u8) n \<longleftrightarrow> n = 5"
  "bit (0x3f :: u8) n \<longleftrightarrow> n < 6" "bit (0x1f :: u8) n \<longleftrightarrow> n < 5"
  by (cases "n < 8"; auto simp: numeral_eq_Suc less_Suc_eq dest: bit_imp_le_length)+

lemma bits_prefix_int:
  "bit (0x80 :: int) n \<longleftrightarrow> n = 7" "bit (0xc0 :: int) n \<longleftrightarrow> n = 6 \<or> n = 7"
  "bit (0xe0 :: int) n \<longleftrightarrow> n = 5 \<or> n = 6 \<or> n = 7"
  "bit (0x3f :: int) n \<longleftrightarrow> n < 6" "bit (0x1f :: int) n \<longleftrightarrow> n < 5"
  by (auto simp: bit_numeral_rec bit_1_iff split: nat.splits)

lemma test_bit_80: "and (b :: u8) 0x80 = 0 \<longleftrightarrow> \<not> bit b 7"
  using and_exp_eq_0_iff_not_bit [of b 7] by simp

lemma test_bit_40: "and (b :: u8) 0x40 = 0 \<longleftrightarrow> \<not> bit b 6"
  using and_exp_eq_0_iff_not_bit [of b 6] by simp

lemma test_bit_20: "and (b :: u8) 0x20 = 0 \<longleftrightarrow> \<not> bit b 5"
  using and_exp_eq_0_iff_not_bit [of b 5] by simp

lemmas len_bits = bit_or_iff bit_and_iff bits_prefix bits_prefix_int bit_unsigned_iff bit_drop_bit_eq bit_push_bit_iff

lemma bits_below: "unat (len :: u32) < 2 ^ k \<Longrightarrow> bit len n \<Longrightarrow> n < k"
  using bit_small [of len k n] by (meson not_le)

lemma len_join_1:
  assumes "unat (len :: u32) < 2 ^ 7"
  shows "ucast (ucast len :: u8) = len" "\<not> bit (ucast len :: u8) 7"
proof -
  show "ucast (ucast len :: u8) = len"
    by (rule bit_word_eqI) (auto simp: len_bits dest: bits_below [OF assms])
  show "\<not> bit (ucast len :: u8) 7" by (auto simp: len_bits dest: bits_below [OF assms])
qed

lemma len_join_2:
  assumes "unat (len :: u32) < 2 ^ 14"
  defines "b \<equiv> or (ucast (drop_bit 8 len)) 0x80 :: u8"
  shows "bit b 7" "\<not> bit b 6" "or (push_bit 8 (ucast (and b 0x3f))) (ucast (ucast len :: u8)) = len"
proof -
  show "bit b 7" "\<not> bit b 6" by (auto simp: b_def len_bits dest: bits_below [OF assms(1)])
  show "or (push_bit 8 (ucast (and b 0x3f))) (ucast (ucast len :: u8)) = len"
    unfolding b_def by (rule bit_word_eqI) (auto simp: len_bits dest: bits_below [OF assms(1)])
qed

lemma len_join_3:
  assumes "unat (len :: u32) < 2 ^ 21"
  defines "b \<equiv> or (ucast (drop_bit 16 len)) 0xc0 :: u8"
  shows "bit b 7" "bit b 6" "\<not> bit b 5"
    "or (push_bit 8 (or (push_bit 8 (ucast (and b 0x1f))) (ucast (ucast (drop_bit 8 len) :: u8)))) (ucast (ucast len :: u8)) = len"
proof -
  show "bit b 7" "bit b 6" "\<not> bit b 5" by (auto simp: b_def len_bits dest: bits_below [OF assms(1)])
  show "or (push_bit 8 (or (push_bit 8 (ucast (and b 0x1f))) (ucast (ucast (drop_bit 8 len) :: u8)))) (ucast (ucast len :: u8)) = len"
    unfolding b_def by (rule bit_word_eqI) (auto simp: len_bits dest: bits_below [OF assms(1)])
qed

lemma len_join_4:
  assumes "unat (len :: u32) < 2 ^ 27"
  defines "b \<equiv> or (ucast (drop_bit 24 len)) 0xe0 :: u8"
  shows "bit b 7" "bit b 6" "bit b 5"
    "or (push_bit 8 (or (push_bit 8 (or (push_bit 8 (ucast (and b 0x1f))) (ucast (ucast (drop_bit 16 len) :: u8))))
        (ucast (ucast (drop_bit 8 len) :: u8)))) (ucast (ucast len :: u8)) = len"
proof -
  show "bit b 7" "bit b 6" "bit b 5" by (auto simp: b_def len_bits)
  show "or (push_bit 8 (or (push_bit 8 (or (push_bit 8 (ucast (and b 0x1f))) (ucast (ucast (drop_bit 16 len) :: u8))))
        (ucast (ucast (drop_bit 8 len) :: u8)))) (ucast (ucast len :: u8)) = len"
  proof (rule bit_word_eqI)
    fix n assume "n < LENGTH(32)"
    then show "bit (or (push_bit 8 (or (push_bit 8 (or (push_bit 8 (ucast (and b 0x1f))) (ucast (ucast (drop_bit 16 len) :: u8))))
        (ucast (ucast (drop_bit 8 len) :: u8)))) (ucast (ucast len :: u8)) :: u32) n = bit len n"
      by (cases "16 \<le> n") (auto simp: b_def len_bits dest: bits_below [OF assms(1)])
  qed
qed


lemma read_byte:
  "wf_reader c \<Longrightarrow> \<not> is_error c \<Longrightarrow> unread c = x # r \<Longrightarrow>
     convert_u8 d c = Inr (x, advance 1 c) \<and> wf_reader (advance 1 c) \<and> unread (advance 1 c) = r"
  using c_u8.conv_read [where x = x and c = c and r = r and d = d] by (simp add: wf_reader_advance unread_advance)

lemma read_len_byte_step:
  assumes "wf_reader c" "\<not> is_error c" "unread c = x # r"
  shows "read_len_byte len b c f = f (or (push_bit 8 len) (ucast x)) x (advance 1 c)"
  using read_byte [OF assms] by (simp add: read_len_byte_def)

lemma finish_len_le: "finish_len len c = Inr (n, c') \<Longrightarrow> unat n \<le> MAX_CONVERT_LEN \<and> (is_error c' \<longrightarrow> n = 0)"
  by (auto simp: finish_len_def split: if_splits)

lemma finish_len_safe:
  "wf_reader c \<Longrightarrow> \<exists>y c'. finish_len len c = Inr (y, c') \<and> reader_step c c'"
  by (simp add: finish_len_def)

lemma read_len_byte_safe:
  assumes "wf_reader c" "\<And>len b c. wf_reader c \<Longrightarrow> \<exists>y c'. f len b c = Inr (y, c') \<and> reader_step c c'"
  shows "\<exists>y c'. read_len_byte len b c f = Inr (y, c') \<and> reader_step c c'"
proof -
  obtain x c1 where 1: "convert_u8 b c = Inr (x, c1)" "reader_step c c1"
    using c_u8.conv_safe [OF assms(1)] by blast
  obtain y c2 where "f (or (push_bit 8 len) (ucast x)) x c1 = Inr (y, c2)" "reader_step c1 c2"
    using assms(2) [OF reader_step_wf [OF 1(2)]] by blast
  with 1 show ?thesis using reader_step_trans by (auto simp: read_len_byte_def)
qed

lemma convert_len_read:
  assumes "unat len \<le> MAX_CONVERT_LEN" "wf_reader c" "\<not> is_error c" "unread c = write_len len @ r"
  shows "convert_len d c = Inr (len, advance (length (write_len len)) c)"
proof -
  note wr = wf_reader_fields(1) [OF assms(2)]
  have max: "\<not> MAX_CONVERT_LEN < unat len" and small: "unat len < 2 ^ 27"
    using assms(1) by (simp_all add: MAX_CONVERT_LEN_def)
  note step = read_len_byte_step read_byte
  consider "len \<le> 0x7f" | "\<not> len \<le> 0x7f" "len \<le> 0x3fff" | "\<not> len \<le> 0x7f" "\<not> len \<le> 0x3fff" "len \<le> 0x1fffff"
    | "\<not> len \<le> 0x7f" "\<not> len \<le> 0x3fff" "\<not> len \<le> 0x1fffff" by blast
  then show ?thesis
  proof cases
    case 1
    then have "unat len < 2 ^ 7" by (simp add: word_le_nat_alt)
    from len_join_1 [OF this] show ?thesis
      using 1 assms wr max read_byte [OF assms(2,3), of "ucast len" r 0]
      by (simp add: convert_len_def write_len_def finish_len_def test_bit_80)
  next
    case 2
    then have "unat len < 2 ^ 14" by (simp add: word_le_nat_alt)
    note j = len_join_2 [OF this]
    let ?b = "or (ucast (drop_bit 8 len)) 0x80 :: u8"
    have u: "unread c = ?b # ucast len # r" using assms(4) 2 by (simp add: write_len_def)
    note s1 = read_byte [OF assms(2,3) u]
    show ?thesis
      using 2 j wr max s1 assms(3) by (simp add: convert_len_def write_len_def finish_len_def test_bit_80 test_bit_40 read_len_byte_step)
  next
    case 3
    then have "unat len < 2 ^ 21" by (simp add: word_le_nat_alt)
    note j = len_join_3 [OF this]
    let ?b = "or (ucast (drop_bit 16 len)) 0xc0 :: u8"
    have u: "unread c = ?b # ucast (drop_bit 8 len) # ucast len # r" using assms(4) 3 by (simp add: write_len_def)
    note s1 = read_byte [OF assms(2,3) u]
    note s2 = read_byte [of "advance 1 c", OF _ _ s1 [THEN conjunct2, THEN conjunct2]]
    show ?thesis
      using 3 j wr max s1 s2 assms(3)
      by (simp add: convert_len_def write_len_def finish_len_def test_bit_80 test_bit_40 test_bit_20 read_len_byte_step)
  next
    case 4
    note j = len_join_4 [OF small]
    let ?b = "or (ucast (drop_bit 24 len)) 0xe0 :: u8"
    have u: "unread c = ?b # ucast (drop_bit 16 len) # ucast (drop_bit 8 len) # ucast len # r"
      using assms(4) 4 by (simp add: write_len_def)
    note s1 = read_byte [OF assms(2,3) u]
    note s2 = read_byte [of "advance 1 c", OF _ _ s1 [THEN conjunct2, THEN conjunct2]]
    note s3 = read_byte [of "advance (Suc (Suc 0)) c" "ucast (drop_bit 8 len)" "ucast len # r"]
    show ?thesis
      using 4 j wr max s1 s2 s3 assms(3)
      by (simp add: convert_len_def write_len_def finish_len_def test_bit_80 test_bit_40 test_bit_20 read_len_byte_step)
  qed
qed

lemma convert_len_safe: "wf_reader c \<Longrightarrow> \<exists>y c'. convert_len d c = Inr (y, c') \<and> reader_step c c'"
proof -
  assume wf: "wf_reader c"
  obtain b c1 where 1: "convert_u8 0 c = Inr (b, c1)" "reader_step c c1" using c_u8.conv_safe [OF wf] by blast
  have "\<exists>y c'. convert_len d c = Inr (y, c') \<and> reader_step c1 c'"
    using reader_step_wf [OF 1(2)] 1 wf_reader_fields(1) [OF wf]
    by (auto simp: convert_len_def intro!: finish_len_safe read_len_byte_safe)
  then show ?thesis using 1(2) reader_step_trans by blast
qed

interpretation c_len: codec convert_len write_len "\<lambda>len. unat len \<le> MAX_CONVERT_LEN"
proof
  fix x c assume "unat x \<le> MAX_CONVERT_LEN" "room (write_len x) c"
  then show "convert_len x c = Inr (x, emit (write_len x) c)"
    using write_len_fold [of "write_len x" c] by (simp add: convert_len_def room_def)
qed (fact convert_len_read convert_len_safe)+

end
