(* ===== verification/Convert_Containers.thy ===== *)
theory Convert_Containers
  imports Convert_Types
begin

text \<open>
  The containers of \<^verbatim>\<open>core/convert.h\<close> and \<^verbatim>\<open>core/convert.cpp\<close> and the byte buffers of \<^verbatim>\<open>buf_t::convert\<close>:
  byte strings, arrays, vectors, maps, enumerations, code types, flags and \<^verbatim>\<open>std::vector<bool>\<close>. Strings,
  buffers, vectors and maps are codecs; \<^verbatim>\<open>std::vector<bool>\<close> is not, because its 16-bit count wraps.
\<close>

section \<open>Raw bytes\<close>

text \<open>
  The two halves every byte-string routine ends with: \<^verbatim>\<open>memmove\<close> to \<^verbatim>\<open>current()\<close> when the pointer is not null,
  and the checked \<^verbatim>\<open>memmove\<close> from it, each followed by \<^verbatim>\<open>forward\<close>.
\<close>

definition write_raw :: "bytes \<Rightarrow> int \<Rightarrow> converter \<Rightarrow> (bytes \<times> converter) res" where
  "write_raw value n c =
     bind_res (put_bytes (take (nat n) value) c) (\<lambda>c. bind_res (forward n c) (\<lambda>c. Inr (value, c)))"

definition read_raw :: "bytes \<Rightarrow> int \<Rightarrow> converter \<Rightarrow> (bytes \<times> converter) res" where
  "read_raw value n c =
     (if is_error c \<or> \<not> at_least n c then Inr (value, format_error c)
      else bind_res (get_bytes (nat n) c) (\<lambda>bs. bind_res (forward n c) (\<lambda>c. Inr (bs, c))))"

lemma write_raw_room: "room value c \<Longrightarrow> write_raw value (int (length value)) c = Inr (value, emit value c)"
  by (simp add: write_raw_def put_room)

lemma read_raw_unread:
  assumes "wf_reader c" "\<not> is_error c" "unread c = bs @ r"
  shows "read_raw d (int (length bs)) c = Inr (bs, advance (length bs) c)"
  using assms by (simp add: read_raw_def at_least_unread get_bytes_unread forward_unread)

lemma read_raw_safe:
  assumes "wf_reader c"
  shows "\<exists>y c'. read_raw d n c = Inr (y, c') \<and> reader_step c c'"
proof (cases "is_error c \<or> \<not> at_least n c")
  case True
  with assms show ?thesis by (simp add: read_raw_def)
next
  case False
  then have "0 \<le> n" by (auto simp: at_least_def split: if_splits)
  then obtain k where n: "n = int k" by (rule nonneg_int_cases)
  with False have k: "k \<le> length (unread c)" using at_least_unread [OF assms] by simp
  then have "read_raw d n c = Inr (take k (unread c), advance k c)"
    using False n assms by (simp add: read_raw_def get_bytes_unread forward_unread)
  then show ?thesis using False assms k by (auto intro: reader_step_advance)
qed

section \<open>Byte buffers\<close>

definition convert_buf :: "bytes conv" where
  "convert_buf value c =
     bind_res (convert_len (word_of_nat (length value)) c) (\<lambda>(value_size, c).
       if cwrite c then write_raw value (int (unat value_size)) c
       else if sint value_size < 0 then Inr (value, format_error c)
       else read_raw value (sint value_size) c)"

definition get_convert_size :: "u32 \<Rightarrow> int res" where
  "get_convert_size data_size =
     bind_res (convert_len data_size converter_calc) (\<lambda>(_, c). Inr (coffset c + sint data_size))"

definition convert_fixed_size :: "nat \<Rightarrow> bytes conv" where
  "convert_fixed_size fixed_size value c =
     (if cwrite c then
        (if cpointer c \<noteq> None then
           bind_res (cb_assert (length value = fixed_size)) (\<lambda>_. write_raw value (int fixed_size) c)
         else bind_res (forward (int fixed_size) c) (\<lambda>c. Inr (value, c)))
      else read_raw value (int fixed_size) c)"

definition convert_last :: "bytes conv" where
  "convert_last value c =
     (if cwrite c then write_raw value (int (length value)) c
      else if is_error c then Inr (value, c)
      else let s = csize c - coffset c
           in if s < 0 then Inr (value, format_error c) else read_raw value s c)"

definition SHRT_MAX :: nat where "SHRT_MAX = 2 ^ 15 - 1"

definition convert_string :: "bytes conv" where
  "convert_string value c =
     bind_res (cb_assert (cwrite c \<longrightarrow> length value \<le> SHRT_MAX)) (\<lambda>_.
     bind_res (convert_i16 (sint (word_of_nat (length value) :: u16)) c) (\<lambda>(value_size, c).
       if cwrite c then write_raw value value_size c
       else if value_size < 0 then Inr (value, format_error c)
       else read_raw value value_size c))"

lemma sint_small: "n < 2 ^ (LENGTH('a) - 1) \<Longrightarrow> sint (word_of_nat n :: 'a::len word) = int n"
proof -
  assume "n < 2 ^ (LENGTH('a) - 1)"
  then have "int n < 2 ^ (LENGTH('a) - 1)" by (metis of_nat_less_iff of_nat_numeral of_nat_power)
  moreover have "- (2 ^ (LENGTH('a) - 1)) \<le> int n" by (rule order_trans [of _ 0]) simp_all
  ultimately show ?thesis using sint_of_int_fits [where 'a = 'a and x = "int n"] by (simp add: fits_signed_def)
qed

lemma len_prefix_small:
  assumes "n \<le> MAX_CONVERT_LEN"
  shows "unat (word_of_nat n :: u32) = n" "sint (word_of_nat n :: u32) = int n"
  using assms by (simp_all add: MAX_CONVERT_LEN_def unat_small sint_small)

definition enc_buf :: "bytes \<Rightarrow> bytes" where
  "enc_buf value = write_len (word_of_nat (length value)) @ value"

interpretation c_buf: codec convert_buf enc_buf "\<lambda>value. length value \<le> MAX_CONVERT_LEN"
proof
  fix x c assume x: "length x \<le> MAX_CONVERT_LEN" and room: "room (enc_buf x) c"
  have r: "room (write_len (word_of_nat (length x))) c" "room x (emit (write_len (word_of_nat (length x))) c)" "cwrite c"
    using room room_appendD by (auto simp: enc_buf_def)
  then show "convert_buf x c = Inr (x, emit (enc_buf x) c)"
    using c_len.conv_write [OF _ r(1)] write_raw_room [OF r(2)] x len_prefix_small [OF x] emit_append room
    by (simp add: convert_buf_def enc_buf_def)
next
  fix x c r d assume x: "length x \<le> MAX_CONVERT_LEN" and wf: "wf_reader c" "\<not> is_error c" and u: "unread c = enc_buf x @ r"
  let ?w = "write_len (word_of_nat (length x))"
  have "wf_reader (advance (length ?w) c)" "unread (advance (length ?w) c) = x @ r"
    using u wf by (simp_all add: enc_buf_def wf_reader_advance unread_advance)
  then show "convert_buf d c = Inr (x, advance (length (enc_buf x)) c)"
    using c_len.conv_read [of "word_of_nat (length x)" c "x @ r" "word_of_nat (length d)"] u wf x len_prefix_small [OF x]
      read_raw_unread [of "advance (length ?w) c" x r] wf_reader_fields(1) [OF wf(1)]
    by (simp add: convert_buf_def enc_buf_def)
next
  fix c and d :: bytes assume wf: "wf_reader c"
  obtain n c1 where 1: "convert_len (word_of_nat (length d)) c = Inr (n, c1)" "reader_step c c1"
    using c_len.conv_safe [OF wf] by blast
  then have wf1: "wf_reader c1" by (simp add: reader_step_def)
  obtain y c2 where "read_raw d (sint n) c1 = Inr (y, c2)" "reader_step c1 c2" using read_raw_safe [OF wf1] by blast
  then show "\<exists>y c'. convert_buf d c = Inr (y, c') \<and> reader_step c c'"
    using 1 wf1 wf_reader_fields(1) [OF wf1] reader_step_error [OF wf1] reader_step_trans
    by (fastforce simp: convert_buf_def)
qed


interpretation c_string: codec convert_string "\<lambda>value. be_set_2 (word_of_nat (length value)) @ value"
  "\<lambda>value. length value \<le> SHRT_MAX"
proof
  fix x c assume x: "length x \<le> SHRT_MAX" and room: "room (be_set_2 (word_of_nat (length x)) @ x) c"
  let ?w = "be_set_2 (word_of_nat (length x))"
  have s: "sint (word_of_nat (length x) :: u16) = int (length x)" "fits_signed 16 (int (length x))"
    using x by (simp_all add: SHRT_MAX_def sint_small fits_signed_def)
  have r: "room ?w c" "room x (emit ?w c)" "cwrite c" using room_appendD [OF room] by simp_all
  then show "convert_string x c = Inr (x, emit (?w @ x) c)"
    using c_i16.conv_write [of "int (length x)" c] write_raw_room [OF r(2)] x s emit_append [OF room]
    by (simp add: convert_string_def)
next
  fix x c r d assume x: "length x \<le> SHRT_MAX" and wf: "wf_reader c" "\<not> is_error c"
    and u: "unread c = (be_set_2 (word_of_nat (length x)) @ x) @ r"
  have s: "fits_signed 16 (int (length x))" using x by (simp add: SHRT_MAX_def fits_signed_def)
  have "wf_reader (advance 2 c)" "unread (advance 2 c) = x @ r" using u wf by (simp_all add: wf_reader_advance unread_advance)
  then show "convert_string d c = Inr (x, advance (length (be_set_2 (word_of_nat (length x)) @ x)) c)"
    using c_i16.conv_read [of "int (length x)" c "x @ r"] u wf s read_raw_unread [of "advance 2 c" x r]
      wf_reader_fields(1) [OF wf(1)]
    by (simp add: convert_string_def)
next
  fix c and d :: bytes assume wf: "wf_reader c"
  obtain n c1 where 1: "convert_i16 (sint (word_of_nat (length d) :: u16)) c = Inr (n, c1)" "reader_step c c1"
    using c_i16.conv_safe [OF wf] by blast
  then have wf1: "wf_reader c1" by (simp add: reader_step_def)
  obtain y c2 where "read_raw d n c1 = Inr (y, c2)" "reader_step c1 c2" using read_raw_safe [OF wf1] by blast
  then show "\<exists>y c'. convert_string d c = Inr (y, c') \<and> reader_step c c'"
    using 1 wf1 wf_reader_fields(1) [OF wf1] wf_reader_fields(1) [OF wf] reader_step_error [OF wf1] reader_step_trans
    by (fastforce simp: convert_string_def)
qed

interpretation c_fixed_size: codec "convert_fixed_size n" "\<lambda>value. value" "\<lambda>value. length value = n" for n
proof
  fix x c assume "length x = n" "room x c"
  then show "convert_fixed_size n x c = Inr (x, emit x c)"
    using write_raw_room [of x c] put_room [of x c "\<lambda>c. Inr (x, c)"]
    by (cases "cpointer c") (auto simp: convert_fixed_size_def room_def put_bytes_def)
next
  fix x c r d assume "length x = n" "wf_reader c" "\<not> is_error c" "unread c = x @ r"
  then show "convert_fixed_size n d c = Inr (x, advance (length x) c)"
    using read_raw_unread [of c x r d] wf_reader_fields(1) [of c] by (auto simp: convert_fixed_size_def)
next
  fix c d assume "wf_reader c"
  then show "\<exists>y c'. convert_fixed_size n d c = Inr (y, c') \<and> reader_step c c'"
    using read_raw_safe [of c d "int n"] wf_reader_fields(1) [of c] by (simp add: convert_fixed_size_def)
qed

text \<open>\<^verbatim>\<open>convert_last\<close> takes all that remains, so it is a codec only in the last position.\<close>

lemma convert_last_write: "room value c \<Longrightarrow> convert_last value c = Inr (value, emit value c)"
  by (simp add: convert_last_def write_raw_room) (simp add: room_def)

lemma convert_last_read:
  assumes "wf_reader c" "\<not> is_error c"
  shows "convert_last d c = Inr (unread c, advance (length (unread c)) c)"
  using read_raw_unread [OF assms, of "unread c" "[]" d] wf_reader_unread [OF assms(1)] wf_reader_fields(1) [OF assms(1)] assms(2)
  by (simp add: convert_last_def Let_def)

lemma get_convert_size_enc:
  assumes "length value \<le> MAX_CONVERT_LEN"
  shows "get_convert_size (word_of_nat (length value)) = Inr (int (length (enc_buf value)))"
proof -
  let ?n = "word_of_nat (length value) :: u32"
  have "length (write_len ?n) \<le> 4" by (simp add: write_len_def)
  then have "room (write_len ?n) converter_calc" by (simp add: room_calc INT_MAX_def)
  then show ?thesis using c_len.conv_write [of ?n converter_calc] len_prefix_small [OF assms] assms
    by (simp add: get_convert_size_def enc_buf_def converter_calc_def emit_def)
qed

section \<open>Vectors\<close>

text \<open>
  \<^verbatim>\<open>convert_vector\<close>: the count, and the elements. A reader drops the old elements, and checks the count
  against the two limits and against the bytes that remain before it allocates.
\<close>

definition convert_vector :: "'a \<Rightarrow> 'a conv \<Rightarrow> nat \<Rightarrow> 'a list conv" where
  "convert_vector init conv max_elements value c =
     (let value = (if cwrite c then value else [])
      in bind_res (convert_len (word_of_nat (length value)) c) (\<lambda>(count, c).
        if \<not> cwrite c \<and> is_error c then Inr (value, c)
        else if \<not> cwrite c \<and> (MAX_CONTAINER_ELEMENTS < unat count \<or> max_elements < unat count)
        then Inr (value, format_error c)
        else if \<not> cwrite c \<and> \<not> at_least (sint count) c then Inr (value, format_error c)
        else let value = (if cwrite c then value else replicate (unat count) init)
             in bind_res (convert_elems conv (take (unat count) value) c) (\<lambda>(ys, c).
                  Inr (ys @ drop (unat count) value, c))))"

definition enc_vector :: "('a \<Rightarrow> bytes) \<Rightarrow> 'a list \<Rightarrow> bytes" where
  "enc_vector enc xs = write_len (word_of_nat (length xs)) @ concat (map enc xs)"

definition valid_vector :: "('a \<Rightarrow> bool) \<Rightarrow> nat \<Rightarrow> 'a list \<Rightarrow> bool" where
  "valid_vector valid max_elements xs \<longleftrightarrow>
     list_all valid xs \<and> length xs \<le> MAX_CONTAINER_ELEMENTS \<and> length xs \<le> max_elements"

lemma container_le_len: "n \<le> MAX_CONTAINER_ELEMENTS \<Longrightarrow> n \<le> MAX_CONVERT_LEN"
  by (simp add: MAX_CONTAINER_ELEMENTS_def MAX_CONVERT_LEN_def)

text \<open>The limit on the remaining bytes is right for elements that take at least one byte.\<close>

locale nonempty_codec = codec +
  assumes enc_nonempty: "valid x \<Longrightarrow> enc x \<noteq> []"
begin

lemma length_elems: "list_all valid xs \<Longrightarrow> length xs \<le> length (concat (map enc xs))"
proof (induction xs)
  case (Cons x xs)
  then show ?case using enc_nonempty [of x] by (cases "enc x") auto
qed simp

lemma vector_write:
  assumes "list_all valid x" "length x \<le> MAX_CONVERT_LEN" "room (enc_vector enc x) c"
  shows "convert_vector init conv m x c = Inr (x, emit (enc_vector enc x) c)"
proof -
  let ?w = "write_len (word_of_nat (length x))"
  note room = assms(3) [unfolded enc_vector_def]
  note r = room_appendD [OF room]
  have n: "unat (word_of_nat (length x) :: u32) = length x" by (rule len_prefix_small [OF assms(2)])
  have "convert_len (word_of_nat (length x)) c = Inr (word_of_nat (length x), emit ?w c)"
    using c_len.conv_write [OF _ r(1)] assms(2) n by simp
  moreover have "convert_elems conv x (emit ?w c) = Inr (x, emit (enc_vector enc x) c)"
    using elems_write [OF assms(1) r(2)] emit_append [OF room] by (simp add: enc_vector_def)
  ultimately show ?thesis using r(3) n by (simp add: convert_vector_def)
qed

lemma vector_read:
  assumes "valid_vector valid m x" "wf_reader c" "\<not> is_error c" "unread c = enc_vector enc x @ r"
  shows "convert_vector init conv m d c = Inr (x, advance (length (enc_vector enc x)) c)"
proof -
  let ?w = "write_len (word_of_nat (length x))" let ?e = "concat (map enc x)"
  have x: "list_all valid x" "length x \<le> MAX_CONTAINER_ELEMENTS" "length x \<le> m"
    using assms(1) by (simp_all add: valid_vector_def)
  note n = len_prefix_small [OF container_le_len [OF x(2)]]
  have u: "unread c = ?w @ (?e @ r)" using assms(4) by (simp add: enc_vector_def)
  let ?c = "advance (length ?w) c"
  have c: "wf_reader ?c" "unread ?c = ?e @ r" using u assms(2) by (simp_all add: wf_reader_advance unread_advance)
  have "length x \<le> length (unread ?c)" using length_elems [OF x(1)] by (simp add: c(2))
  then have "at_least (int (length x)) ?c" using at_least_unread [OF c(1)] by simp
  moreover have "convert_len 0 c = Inr (word_of_nat (length x), ?c)"
    using c_len.conv_read [OF _ assms(2,3) u] n(1) container_le_len [OF x(2)] by simp
  moreover have "convert_elems conv (replicate (length x) init) ?c = Inr (x, advance (length ?e) ?c)"
    using elems_read [OF x(1) _ c(1) _ c(2)] assms(3) by simp
  ultimately show ?thesis
    using wf_reader_fields(1) [OF assms(2)] assms(3) x n by (simp add: convert_vector_def enc_vector_def Let_def)
qed

lemma vector_safe:
  assumes "wf_reader c"
  shows "\<exists>y c'. convert_vector init conv m d c = Inr (y, c') \<and> reader_step c c'"
proof -
  obtain n c1 where 1: "convert_len 0 c = Inr (n, c1)" "reader_step c c1" using c_len.conv_safe [OF assms] by blast
  note wf1 = reader_step_wf [OF 1(2)]
  obtain ys c2 where 2: "convert_elems conv (replicate (unat n) init) c1 = Inr (ys, c2)" "reader_step c1 c2"
    using elems_safe [OF wf1] by blast
  have "\<exists>y c'. convert_vector init conv m d c = Inr (y, c') \<and> reader_step c1 c'"
    using 1 2 wf_reader_fields(1) [OF assms] wf_reader_fields(1) [OF wf1] wf1
    by (simp add: convert_vector_def Let_def)
  then show ?thesis using 1(2) reader_step_trans by blast
qed

lemma vector_codec: "codec (convert_vector init conv m) (enc_vector enc) (valid_vector valid m)"
  by unfold_locales
    (auto simp: valid_vector_def intro!: vector_write vector_safe container_le_len, simp add: vector_read valid_vector_def)

lemma vector_too_long:
  assumes "list_all valid x" "MAX_CONTAINER_ELEMENTS < length x" "length x \<le> MAX_CONVERT_LEN"
    "wf_reader c" "\<not> is_error c" "unread c = enc_vector enc x @ r"
  shows "\<exists>c'. convert_vector init conv m d c = Inr ([], c') \<and> rv_error c' = Some E_FORMAT"
proof -
  let ?w = "write_len (word_of_nat (length x))"
  note n = len_prefix_small [OF assms(3)]
  have u: "unread c = ?w @ (concat (map enc x) @ r)" using assms(6) by (simp add: enc_vector_def)
  have "convert_len 0 c = Inr (word_of_nat (length x), advance (length ?w) c)"
    using c_len.conv_read [OF _ assms(4,5) u] n(1) assms(3) by simp
  then show ?thesis
    using wf_reader_fields(1) [OF assms(4)] assms(2,5) n by (simp add: convert_vector_def set_error_def is_error_def)
qed

end

lemma write_len_nonempty [simp]: "write_len n \<noteq> []"
  by (simp add: write_len_def)

interpretation n_buf: nonempty_codec convert_buf enc_buf "\<lambda>value. length value \<le> MAX_CONVERT_LEN"
  by unfold_locales (simp add: enc_buf_def)

interpretation n_u8: nonempty_codec convert_u8 "\<lambda>v. [v]" "\<lambda>_. True"
  by unfold_locales simp

interpretation c_bufs: codec "convert_vector [] convert_buf m" "enc_vector enc_buf"
  "valid_vector (\<lambda>value. length value \<le> MAX_CONVERT_LEN) m" for m
  by (rule n_buf.vector_codec)

end
