(* ===== verification/Convert_Maps.thy ===== *)
theory Convert_Maps
  imports Convert_Containers "HOL-Library.List_Lexorder"
begin

text \<open>
  The remaining routines of \<^verbatim>\<open>core/convert.h\<close> and \<^verbatim>\<open>core/convert.cpp\<close>: ordered maps, fixed arrays, enumerations, code
  types, flags and \<^verbatim>\<open>std::vector<bool>\<close>. A \<^verbatim>\<open>std::map\<close> is the list of its items in key order.
\<close>

section \<open>Maps\<close>

fun write_items :: "'k conv \<Rightarrow> 'v conv \<Rightarrow> ('k \<times> 'v) list conv" where
  "write_items ck cv [] c = Inr ([], c)"
| "write_items ck cv ((key, item) # m) c =
     (if is_error c then Inr ((key, item) # m, c)
      else bind_res (ck key c) (\<lambda>(_, c). bind_res (cv item c) (\<lambda>(item, c).
        bind_res (write_items ck cv m c) (\<lambda>(m, c). Inr ((key, item) # m, c)))))"

fun read_items :: "'k::linorder \<Rightarrow> 'k conv \<Rightarrow> 'v \<Rightarrow> 'v conv \<Rightarrow> nat \<Rightarrow> ('k \<times> 'v) list conv" where
  "read_items key0 ck inst cv 0 m c = Inr (m, c)"
| "read_items key0 ck inst cv (Suc n) m c =
     (if is_error c then Inr (m, c)
      else bind_res (ck key0 c) (\<lambda>(key, c).
        if is_error c then Inr (m, c)
        else if key \<in> fst ` set m then Inr (m, format_error c)
        else bind_res (cv inst c) (\<lambda>(item, c).
          if is_error c then Inr (insort_key fst (key, item) m, c)
          else read_items key0 ck inst cv n (insort_key fst (key, item) m) c)))"

definition convert_with_instance :: "'k::linorder \<Rightarrow> 'k conv \<Rightarrow> 'v \<Rightarrow> 'v conv \<Rightarrow> ('k \<times> 'v) list conv" where
  "convert_with_instance key0 ck inst cv value c =
     (let value = (if cwrite c then value else [])
      in bind_res (convert_len (word_of_nat (length value)) c) (\<lambda>(count, c).
        if cwrite c then
          bind_res (write_items ck cv (take (unat count) value) c) (\<lambda>(m, c). Inr (m @ drop (unat count) value, c))
        else if MAX_CONTAINER_ELEMENTS < unat count then Inr (value, format_error c)
        else read_items key0 ck inst cv (unat count) value c))"

definition enc_map :: "('k \<Rightarrow> bytes) \<Rightarrow> ('v \<Rightarrow> bytes) \<Rightarrow> ('k \<times> 'v) list \<Rightarrow> bytes" where
  "enc_map ek ev m = write_len (word_of_nat (length m)) @ concat (map (\<lambda>(k, v). ek k @ ev v) m)"

definition valid_map :: "('k::linorder \<Rightarrow> bool) \<Rightarrow> ('v \<Rightarrow> bool) \<Rightarrow> ('k \<times> 'v) list \<Rightarrow> bool" where
  "valid_map vk vv m \<longleftrightarrow> sorted_wrt (<) (map fst m) \<and> list_all (\<lambda>(k, v). vk k \<and> vv v) m
     \<and> length m \<le> MAX_CONTAINER_ELEMENTS"

lemma insort_key_last:
  "(\<forall>y \<in> set m. fst y < k) \<Longrightarrow> insort_key fst (k, v) m = m @ [(k, v)]"
  by (induction m) (auto simp: not_le)

locale map_codec = k: codec ck ek vk + v: codec cv ev vv
  for ck :: "('k::linorder) conv" and ek vk and cv :: "'v conv" and ev vv
begin

abbreviation enc_items where "enc_items m \<equiv> concat (map (\<lambda>(k, v). ek k @ ev v) m)"

lemma write_items_room:
  "list_all (\<lambda>(k, v). vk k \<and> vv v) m \<Longrightarrow> room (enc_items m) c \<Longrightarrow>
     write_items ck cv m c = Inr (m, emit (enc_items m) c)"
proof (induction m arbitrary: c)
  case Nil
  then show ?case by (cases c; cases "cpointer c") (auto simp: emit_def)
next
  case (Cons x m)
  obtain k v where x: "x = (k, v)" by fastforce
  have room: "room (ek k @ (ev v @ enc_items m)) c" using Cons.prems(2) x by simp
  note r1 = room_appendD [OF room] note r2 = room_appendD [OF r1(2)]
  have "emit (enc_items m) (emit (ev v) (emit (ek k) c)) = emit (enc_items (x # m)) c"
    using emit_append [OF r1(2)] emit_append [OF room] x by simp
  then show ?case
    using Cons.IH [OF _ r2(2)] Cons.prems(1) k.conv_write [OF _ r1(1)] v.conv_write [OF _ r2(1)] r1(4) x by simp
qed

lemma read_items_unread:
  "list_all (\<lambda>(k, v). vk k \<and> vv v) m \<Longrightarrow> sorted_wrt (<) (map fst (acc @ m)) \<Longrightarrow> wf_reader c \<Longrightarrow> \<not> is_error c \<Longrightarrow>
     unread c = enc_items m @ r \<Longrightarrow>
     read_items key0 ck inst cv (length m) acc c = Inr (acc @ m, advance (length (enc_items m)) c)"
proof (induction m arbitrary: acc c)
  case Nil
  then show ?case by (cases c) (simp add: advance_def)
next
  case (Cons x m)
  obtain k v where x: "x = (k, v)" by fastforce
  let ?c1 = "advance (length (ek k)) c" let ?c2 = "advance (length (ev v)) ?c1"
  have u: "unread c = ek k @ (ev v @ (enc_items m @ r))" using Cons.prems(5) x by simp
  have c1: "wf_reader ?c1" "unread ?c1 = ev v @ (enc_items m @ r)" using u Cons.prems(3) by (simp_all add: wf_reader_advance unread_advance)
  have c2: "wf_reader ?c2" "unread ?c2 = enc_items m @ r"
    using c1 wf_reader_advance [OF c1(1)] unread_advance [OF c1(1)] by simp_all
  have less: "\<forall>y \<in> set acc. fst y < k" using Cons.prems(2) x by (auto simp: sorted_wrt_append)
  then have new: "k \<notin> fst ` set acc" by auto
  have "ck key0 c = Inr (k, ?c1)" using k.conv_read [OF _ Cons.prems(3,4) u] Cons.prems(1) x by simp
  moreover have "cv inst ?c1 = Inr (v, ?c2)" using v.conv_read [OF _ c1(1) _ c1(2)] Cons.prems(1,4) x by simp
  ultimately show ?case
    using Cons.IH [OF _ _ c2(1) _ c2(2), of "acc @ [x]"] Cons.prems new insort_key_last [OF less] x by simp
qed

lemma read_items_safe:
  "wf_reader c \<Longrightarrow> \<exists>y c'. read_items key0 ck inst cv n acc c = Inr (y, c') \<and> reader_step c c'"
proof (induction n arbitrary: acc c)
  case (Suc n)
  obtain k c1 where 1: "ck key0 c = Inr (k, c1)" "reader_step c c1" using k.conv_safe [OF Suc.prems] by blast
  note wf1 = reader_step_wf [OF 1(2)]
  obtain v c2 where 2: "cv inst c1 = Inr (v, c2)" "reader_step c1 c2" using v.conv_safe [OF wf1] by blast
  note wf2 = reader_step_wf [OF 2(2)]
  obtain m c3 where 3: "read_items key0 ck inst cv n (insort_key fst (k, v) acc) c2 = Inr (m, c3)" "reader_step c2 c3"
    using Suc.IH [OF wf2] by blast
  have "reader_step c c2" using 1(2) 2(2) by (rule reader_step_trans)
  moreover from this have "reader_step c c3" using 3(2) by (rule reader_step_trans)
  moreover have "reader_step c (format_error c1)" using 1(2) reader_step_error [OF wf1] by (rule reader_step_trans)
  ultimately show ?case using 1 2 3 Suc.prems by simp
qed simp

lemma map_codec: "codec (convert_with_instance key0 ck inst cv) (enc_map ek ev) (valid_map vk vv)"
proof
  fix m c assume m: "valid_map vk vv m" and room: "room (enc_map ek ev m) c"
  note r = room_appendD [OF room [unfolded enc_map_def]]
  have len: "length m \<le> MAX_CONVERT_LEN" using m container_le_len by (auto simp: valid_map_def)
  note n = len_prefix_small [OF len]
  show "convert_with_instance key0 ck inst cv m c = Inr (m, emit (enc_map ek ev m) c)"
    using c_len.conv_write [OF _ r(1)] write_items_room [OF _ r(2)] m r(3) n len emit_append [OF room [unfolded enc_map_def]]
    by (simp add: convert_with_instance_def enc_map_def valid_map_def)
next
  fix m c r d assume m: "valid_map vk vv m" and wf: "wf_reader c" "\<not> is_error c" and u: "unread c = enc_map ek ev m @ r"
  let ?w = "write_len (word_of_nat (length m))" let ?c = "advance (length ?w) c"
  have len: "length m \<le> MAX_CONVERT_LEN" using m container_le_len by (auto simp: valid_map_def)
  note n = len_prefix_small [OF len]
  have u': "unread c = ?w @ (enc_items m @ r)" using u by (simp add: enc_map_def)
  have c: "wf_reader ?c" "unread ?c = enc_items m @ r" using u' wf(1) by (simp_all add: wf_reader_advance unread_advance)
  have "convert_len 0 c = Inr (word_of_nat (length m), ?c)" using c_len.conv_read [OF _ wf u'] len n by simp
  then show "convert_with_instance key0 ck inst cv d c = Inr (m, advance (length (enc_map ek ev m)) c)"
    using read_items_unread [of m "[]" ?c] m c wf n wf_reader_fields(1) [OF wf(1)]
    by (simp add: convert_with_instance_def enc_map_def valid_map_def)
next
  fix c d assume wf: "wf_reader c"
  obtain n c1 where 1: "convert_len 0 c = Inr (n, c1)" "reader_step c c1" using c_len.conv_safe [OF wf] by blast
  note wf1 = reader_step_wf [OF 1(2)]
  obtain m c2 where 2: "read_items key0 ck inst cv (unat n) [] c1 = Inr (m, c2)" "reader_step c1 c2"
    using read_items_safe [OF wf1] by blast
  have "reader_step c c2" "reader_step c (format_error c1)"
    using reader_step_trans [OF 1(2)] 2(2) reader_step_error [OF wf1] by simp_all
  then show "\<exists>y c'. convert_with_instance key0 ck inst cv d c = Inr (y, c') \<and> reader_step c c'"
    using 1 2 wf_reader_fields(1) [OF wf1] wf_reader_fields(1) [OF wf] by (simp add: convert_with_instance_def)
qed

end

interpretation m_named: map_codec convert_string "\<lambda>value. be_set_2 (word_of_nat (length value)) @ value"
  "\<lambda>value. length value \<le> SHRT_MAX" convert_buf enc_buf "\<lambda>value. length value \<le> MAX_CONVERT_LEN" ..

section \<open>Arrays and enumerations\<close>

text \<open>A fixed array converts every element, errors or not.\<close>

fun convert_array :: "'a conv \<Rightarrow> 'a list conv" where
  "convert_array conv [] c = Inr ([], c)"
| "convert_array conv (x # xs) c =
     bind_res (conv x c) (\<lambda>(y, c). bind_res (convert_array conv xs c) (\<lambda>(ys, c). Inr (y # ys, c)))"

context codec
begin

lemma array_write:
  "list_all valid xs \<Longrightarrow> room (concat (map enc xs)) c \<Longrightarrow> convert_array conv xs c = Inr (xs, emit (concat (map enc xs)) c)"
proof (induction xs arbitrary: c)
  case Nil
  then show ?case by (cases c; cases "cpointer c") (auto simp: emit_def)
next
  case (Cons x xs)
  have r: "room (enc x) c" "room (concat (map enc xs)) (emit (enc x) c)" using Cons.prems room_append by auto
  then show ?case using Cons.IH [OF _ r(2)] conv_write [OF _ r(1)] Cons.prems by (simp add: emit_append)
qed

lemma array_read:
  assumes "list_all valid xs" "length ds = length xs" "wf_reader c" "\<not> is_error c" "unread c = concat (map enc xs) @ r"
  shows "convert_array conv ds c = Inr (xs, advance (length (concat (map enc xs))) c)"
  using assms
proof (induction xs arbitrary: c ds)
  case Nil
  then show ?case by (cases c) (simp add: advance_def)
next
  case (Cons x xs)
  obtain d ds' where d: "ds = d # ds'" using Cons.prems(2) by (cases ds) auto
  let ?c = "advance (length (enc x)) c"
  have "unread c = enc x @ (concat (map enc xs) @ r)" using Cons.prems by simp
  moreover from this have "wf_reader ?c" "unread ?c = concat (map enc xs) @ r"
    using Cons.prems by (simp_all add: wf_reader_advance unread_advance)
  ultimately show ?case using Cons.IH [of ds' ?c] conv_read [of x c _ d] Cons.prems d by simp
qed

end

definition convert_enum :: "('e \<Rightarrow> u32) \<Rightarrow> (u32 \<Rightarrow> 'e) \<Rightarrow> 'e conv" where
  "convert_enum to from value c =
     bind_res (convert_u32 (to value) c) (\<lambda>(tmp, c). Inr (if is_error c then value else from tmp, c))"

lemma enum_codec: "codec (convert_enum to from) (\<lambda>x. be_set_4 (to x)) (\<lambda>x. from (to x) = x)"
proof
  fix x c assume "from (to x) = x" "room (be_set_4 (to x)) c"
  then show "convert_enum to from x c = Inr (x, emit (be_set_4 (to x)) c)"
    using c_u32.conv_write [of "to x" c] by (simp add: convert_enum_def)
next
  fix x c r d assume "from (to x) = x" "wf_reader c" "\<not> is_error c" "unread c = be_set_4 (to x) @ r"
  then show "convert_enum to from d c = Inr (x, advance (length (be_set_4 (to x))) c)"
    using c_u32.conv_read [where x = "to x" and c = c and r = r and d = "to d"] by (simp add: convert_enum_def)
next
  fix c d assume "wf_reader c"
  then show "\<exists>y c'. convert_enum to from d c = Inr (y, c') \<and> reader_step c c'"
    using c_u32.conv_safe [where c = c and d = "to d"] by (auto simp: convert_enum_def)
qed

section \<open>Code types\<close>

definition convert_code_type :: "u64 \<Rightarrow> u64 list \<Rightarrow> converter \<Rightarrow> (u64 \<times> converter) res" where
  "convert_code_type code others c =
     bind_res (convert_u64 code c) (\<lambda>(value, c).
       if is_error c then Inr (0, c)
       else if cwrite c then Inr (value, c)
       else if value = code \<or> (\<exists>code' \<in> set others. code' \<noteq> 0 \<and> value = code') then Inr (value, c)
       else Inr (0, format_error c))"

definition is_code_type :: "bytes \<Rightarrow> u64 \<Rightarrow> bool" where
  "is_code_type bin code_type \<longleftrightarrow> 8 \<le> length bin \<and> be_get_8 bin = code_type"

lemma code_type_read:
  assumes "wf_reader c" "\<not> is_error c" "unread c = be_set_8 v @ r"
  shows "\<exists>c'. convert_code_type code others c =
           Inr (if v = code \<or> v \<in> set others \<and> v \<noteq> 0 then v else 0, c')
         \<and> (is_error c' \<longleftrightarrow> \<not> (v = code \<or> v \<in> set others \<and> v \<noteq> 0))"
  using c_u64.conv_read [where x = v and c = c and r = r and d = code] assms wf_reader_fields(1) [OF assms(1)]
  by (auto simp: convert_code_type_def)

lemma is_code_type_set: "is_code_type (be_set_8 v @ r) code \<longleftrightarrow> v = code"
  by (simp add: is_code_type_def be_get_set_8)

section \<open>Flags\<close>

text \<open>The shift of a 64-bit value by 64 in the base case is undefined in C++.\<close>

fun flags_to_buf :: "u64 \<Rightarrow> nat \<Rightarrow> bool list \<Rightarrow> u64 res" where
  "flags_to_buf buf ofs [] = Inr buf"
| "flags_to_buf buf ofs (first # rest) =
     bind_res (cb_assert (ofs < 64)) (\<lambda>_. flags_to_buf (if first then or buf (push_bit ofs 1) else buf) (ofs + 1) rest)"

fun flags_from_buf :: "u64 \<Rightarrow> nat \<Rightarrow> bool list \<Rightarrow> converter \<Rightarrow> (bool list \<times> converter) res" where
  "flags_from_buf buf ofs [] c =
     (if 64 \<le> ofs then Inl Out_Of_Bounds
      else Inr ([], if drop_bit ofs buf \<noteq> 0 then format_error c else c))"
| "flags_from_buf buf ofs (first # rest) c =
     bind_res (cb_assert (ofs < 64)) (\<lambda>_.
       bind_res (flags_from_buf buf (ofs + 1) rest c) (\<lambda>(rest, c). Inr ((and (drop_bit ofs buf) 1 \<noteq> 0) # rest, c)))"

definition convert_flags :: "bool list conv" where
  "convert_flags args c =
     bind_res (if cwrite c then flags_to_buf 0 0 args else Inr 0) (\<lambda>buf.
       bind_res (convert_u64 buf c) (\<lambda>(buf, c).
         if \<not> is_error c \<and> \<not> cwrite c then flags_from_buf buf 0 args c else Inr (args, c)))"

lemma flags_to_buf_bits:
  "ofs + length args \<le> 64 \<Longrightarrow> \<exists>b. flags_to_buf buf ofs args = Inr b
     \<and> (\<forall>i. bit b i \<longleftrightarrow> bit buf i \<or> ofs \<le> i \<and> i < ofs + length args \<and> args ! (i - ofs))"
proof (induction args arbitrary: buf ofs)
  case (Cons first rest)
  let ?buf = "if first then or buf (push_bit ofs 1) else buf"
  obtain b where b: "flags_to_buf ?buf (ofs + 1) rest = Inr b"
    "\<forall>i. bit b i \<longleftrightarrow> bit ?buf i \<or> ofs + 1 \<le> i \<and> i < ofs + 1 + length rest \<and> rest ! (i - (ofs + 1))"
    using Cons.IH [of "ofs + 1" ?buf] Cons.prems by auto
  have nth: "ofs < i \<Longrightarrow> (first # rest) ! (i - ofs) = rest ! (i - (ofs + 1))" for i by (simp add: nth_Cons')
  have "bit ?buf i \<longleftrightarrow> bit buf i \<or> i = ofs \<and> first" for i
    using Cons.prems by (auto simp: bit_or_iff bit_push_bit_iff bit_exp_iff possible_bit_def)
  then have "bit b i \<longleftrightarrow> bit buf i \<or> ofs \<le> i \<and> i < ofs + length (first # rest) \<and> (first # rest) ! (i - ofs)" for i
    using b(2) nth [of i] by (cases "i = ofs") auto
  then show ?case using b(1) Cons.prems by auto
qed auto

lemma flags_from_buf_bits:
  "ofs + length args < 64 \<Longrightarrow> flags_from_buf buf ofs args c =
     Inr (map (\<lambda>i. bit buf (ofs + i)) [0..<length args], if drop_bit (ofs + length args) buf \<noteq> 0 then format_error c else c)"
proof (induction args arbitrary: ofs)
  case (Cons first rest)
  have "map (\<lambda>i. bit buf (ofs + i)) [0..<length (first # rest)] = bit buf ofs # map (\<lambda>i. bit buf (ofs + 1 + i)) [0..<length rest]"
    by (simp del: upt_Suc add: upt_conv_Cons map_Suc_upt [symmetric] o_def)
  moreover have "and (drop_bit ofs buf) 1 \<noteq> 0 \<longleftrightarrow> bit buf ofs" by (simp add: and_one_eq bit_iff_odd_drop_bit odd_iff_mod_2_eq_one)
  ultimately show ?case using Cons.IH [of "ofs + 1"] Cons.prems by simp
qed auto

text \<open>Fewer than 64 flags survive a round trip; a reader rejects a word with a bit set beyond them.\<close>

lemma flags_write_read:
  assumes "length args < 64" "room (be_set_8 b) c" "flags_to_buf 0 0 args = Inr b"
  shows "convert_flags args c = Inr (args, emit (be_set_8 b) c)"
    and "wf_reader c' \<Longrightarrow> \<not> is_error c' \<Longrightarrow> unread c' = be_set_8 b @ r \<Longrightarrow> length ds = length args \<Longrightarrow>
      convert_flags ds c' = Inr (args, advance 8 c')"
proof -
  have "cwrite c" using assms(2) by (simp add: room_def)
  then show "convert_flags args c = Inr (args, emit (be_set_8 b) c)"
    using assms c_u64.conv_write [of b c] by (simp add: convert_flags_def)
next
  assume c': "wf_reader c'" "\<not> is_error c'" "unread c' = be_set_8 b @ r" "length ds = length args"
  have bits: "bit b i \<longleftrightarrow> i < length args \<and> args ! i" for i
    using flags_to_buf_bits [of 0 args 0] assms(1,3) by auto
  have "drop_bit (length args) b = 0" by (rule bit_word_eqI) (simp add: bit_drop_bit_eq bits)
  moreover have "map (bit b) [0..<length args] = args" by (rule nth_equalityI) (simp_all add: bits)
  ultimately show "convert_flags ds c' = Inr (args, advance 8 c')"
    using c_u64.conv_read [where x = b and c = c' and r = r and d = 0] c' wf_reader_fields(1) [OF c'(1)]
      flags_from_buf_bits [of 0 ds b] assms(1)
    by (simp add: convert_flags_def)
qed

section \<open>Vectors of booleans\<close>

definition convert_vector_bool :: "bool list conv" where
  "convert_vector_bool value c =
     (let value = (if cwrite c then value else [])
      in bind_res (convert_i16 (sint (word_of_nat (length value) :: u16)) c) (\<lambda>(count, c).
        if \<not> cwrite c \<and> (count < 0 \<or> int MAX_CONTAINER_ELEMENTS < count) then Inr (value, format_error c)
        else let value = (if cwrite c then value else replicate (nat count) False)
             in bind_res (convert_elems convert_bool (take (nat count) value) c) (\<lambda>(ys, c).
                  Inr (ys @ drop (nat count) value, c))))"


definition enc_vector_bool :: "bool list \<Rightarrow> bytes" where
  "enc_vector_bool xs = be_set_2 (word_of_nat (length xs)) @ map (\<lambda>b. if b then 1 else 0) xs"

lemma vector_bool_write:
  assumes "length xs mod 2 ^ 16 = k" "k \<le> SHRT_MAX" "room (enc_vector_bool (take k xs)) c"
  shows "convert_vector_bool xs c = Inr (xs, emit (enc_vector_bool (take k xs)) c)"
proof -
  let ?w = "be_set_2 (word_of_nat k)"
  have k: "length (take k xs) = k" using assms(1) mod_less_eq_dividend [of "length xs" "2 ^ 16"] by simp
  have w: "(word_of_nat (length xs) :: u16) = word_of_nat k"
    using assms(1) word_of_nat_eq_iff [where 'a = 16, of "length xs" k] by (auto simp: take_bit_eq_mod)
  then have s: "sint (word_of_nat (length xs) :: u16) = int k" "fits_signed 16 (int k)"
    using assms(2) by (simp_all add: SHRT_MAX_def sint_small fits_signed_def)
  have room: "room (?w @ concat (map (\<lambda>b. [if b then 1 else 0]) (take k xs))) c"
    using assms(3) k by (simp add: enc_vector_bool_def concat_map_singleton o_def)
  note r = room_appendD [OF room]
  have "convert_i16 (int k) c = Inr (int k, emit ?w c)" using c_i16.conv_write [OF s(2)] r(1) by simp
  moreover have "convert_elems convert_bool (take k xs) (emit ?w c) = Inr (take k xs, emit (enc_vector_bool (take k xs)) c)"
    using c_bool.elems_write [OF _ r(2)] emit_append [OF room] k
    by (simp add: enc_vector_bool_def list_all_iff concat_map_singleton o_def)
  ultimately show ?thesis using r(3) s by (simp add: convert_vector_bool_def)
qed

lemma vector_bool_read:
  assumes "length xs \<le> SHRT_MAX" "wf_reader c" "\<not> is_error c" "unread c = enc_vector_bool xs @ r"
  shows "convert_vector_bool d c = Inr (xs, advance (length (enc_vector_bool xs)) c)"
proof -
  let ?c = "advance 2 c"
  have s: "fits_signed 16 (int (length xs))" "\<not> int MAX_CONTAINER_ELEMENTS < int (length xs)"
    using assms(1) by (simp_all add: SHRT_MAX_def fits_signed_def MAX_CONTAINER_ELEMENTS_def)
  have u: "unread c = be_set_2 (word_of_int (int (length xs))) @ (map (\<lambda>b. if b then 1 else 0) xs @ r)"
    using assms(4) by (simp add: enc_vector_bool_def)
  have c: "wf_reader ?c" "unread ?c = concat (map (\<lambda>b. [if b then 1 else 0]) xs) @ r"
    using u assms(2) by (simp_all add: wf_reader_advance unread_advance concat_map_singleton o_def)
  have "convert_i16 0 c = Inr (int (length xs), ?c)" using c_i16.conv_read [OF s(1) assms(2,3) u] by simp
  moreover have "convert_elems convert_bool (replicate (length xs) False) ?c = Inr (xs, advance (length xs) ?c)"
    using c_bool.elems_read [OF _ _ c(1) _ c(2), of "replicate (length xs) False"] assms(3)
    by (simp add: list_all_iff concat_map_singleton o_def)
  ultimately show ?thesis
    using wf_reader_fields(1) [OF assms(2)] s by (simp add: convert_vector_bool_def enc_vector_bool_def)
qed

end
