(* ===== verification/Tree_Convert.thy ===== *)
theory Tree_Convert
  imports Sharing_Correct Convert_Maps
begin

text \<open>
  Serialization of access structures: \<^verbatim>\<open>node_t::convert_node\<close>, \<^verbatim>\<open>ac_owned_t::convert\<close> (\<^verbatim>\<open>crypto/secret_sharing.cpp\<close>)
  and \<^verbatim>\<open>ecurve_t::convert\<close>, \<^verbatim>\<open>ecurve_t::find\<close> (\<^verbatim>\<open>crypto/base_ecc.cpp\<close>). The table of curves is a parameter. Nodes of
  bounded depth are a codec; a reader accepts a validated tree or nothing.
\<close>

section \<open>Nodes\<close>

definition MAX_AC_TREE_LEVEL :: nat where "MAX_AC_TREE_LEVEL = 64"

fun node_e_int :: "node_e \<Rightarrow> int" where
  "node_e_int NONE = 0"
| "node_e_int LEAF = 1"
| "node_e_int AND = 2"
| "node_e_int OR = 3"
| "node_e_int THRESHOLD = 4"
| "node_e_int (NODE_E_OTHER i) = i"

definition node_e_of_int :: "int \<Rightarrow> node_e" where
  "node_e_of_int i = (if i = 0 then NONE else if i = 1 then LEAF else if i = 2 then AND
     else if i = 3 then OR else if i = 4 then THRESHOLD else NODE_E_OTHER i)"

definition name_bytes :: "pname_t \<Rightarrow> bytes" where
  "name_bytes = map (\<lambda>ch. word_of_nat (of_char ch))"

definition bytes_name :: "bytes \<Rightarrow> pname_t" where
  "bytes_name = map (\<lambda>b. char_of (unat b))"

definition convert_name :: "pname_t conv" where
  "convert_name = convert_via name_bytes bytes_name convert_string"

text \<open>\<^verbatim>\<open>node_t()\<close>, the node a reader starts from; the code leaves its fields uninitialized and sets them all.\<close>

definition fresh_node :: node_t where "fresh_node = Node NONE [] 0 []"

fun write_children :: "node_t conv \<Rightarrow> node_t list conv" where
  "write_children conv [] c = Inr ([], c)"
| "write_children conv (x # xs) c =
     bind_res (conv x c) (\<lambda>(y, c).
       if is_error c then Inr (y # xs, c)
       else bind_res (write_children conv xs c) (\<lambda>(ys, c). Inr (y # ys, c)))"

fun read_children :: "node_t conv \<Rightarrow> nat \<Rightarrow> node_t conv" where
  "read_children conv 0 node c = Inr (node, c)"
| "read_children conv (Suc n) node c =
     bind_res (conv fresh_node c) (\<lambda>(child, c).
       if is_error c then Inr (node, c) else read_children conv n (add_child_node node child) c)"

function convert_node :: "nat \<Rightarrow> node_t conv" where
  "convert_node level node c =
     (if MAX_AC_TREE_LEVEL < level then Inr (node, format_error c)
      else bind_res (convert_i32 (node_e_int (ntype node)) c) (\<lambda>(temp, c).
        bind_res (convert_pair convert_name convert_i32 (nname node, nthreshold node) c) (\<lambda>((name, threshold), c).
        bind_res (convert_len (word_of_nat (get_n node)) c) (\<lambda>(n, c).
          let node = Node (node_e_of_int temp) name threshold (nchildren node)
          in if cwrite c
             then bind_res (write_children (\<lambda>x c. convert_node (level + 1) x c) (nchildren node) c) (\<lambda>(ch, c).
                    Inr (Node (node_e_of_int temp) name threshold ch, c))
             else read_children (\<lambda>x c. convert_node (level + 1) x c) (unat n) node c))))"
  by pat_completeness auto
termination by (relation "measure (\<lambda>(level, _). Suc MAX_AC_TREE_LEVEL - level)") auto

declare convert_node.simps [simp del]

text \<open>\<^verbatim>\<open>c.is_write() ? children[i] : new node_t()\<close>\<close>

definition convert_new :: "nat \<Rightarrow> node_t conv" where
  "convert_new level node c = convert_node level (if cwrite c then node else fresh_node) c"

fun enc_node :: "node_t \<Rightarrow> bytes" where
  "enc_node (Node ty nm th ch) =
     be_set_4 (word_of_int (node_e_int ty)) @ be_set_2 (word_of_nat (length nm)) @ name_bytes nm @ be_set_4 (word_of_int th)
       @ write_len (word_of_nat (length ch)) @ concat (map enc_node ch)"

fun node_fits :: "nat \<Rightarrow> node_t \<Rightarrow> bool" where
  "node_fits left (Node ty nm th ch) \<longleftrightarrow> 0 < left \<and> ty \<in> {NONE, LEAF, AND, OR, THRESHOLD}
     \<and> length nm \<le> SHRT_MAX \<and> fits_signed 32 th \<and> length ch \<le> MAX_CONVERT_LEN \<and> list_all (node_fits (left - 1)) ch"

lemma name_of_bytes [simp]: "bytes_name (name_bytes nm) = nm"
proof -
  have "unat (word_of_nat (of_char ch) :: u8) = of_char ch" for ch
    by (rule unat_small) (use nat_of_char_less_256 in simp)
  then show ?thesis by (simp add: bytes_name_def name_bytes_def comp_def)
qed

lemma name_bytes_length [simp]: "length (name_bytes nm) = length nm"
  by (simp add: name_bytes_def)

interpretation c_name: codec convert_name "\<lambda>nm. be_set_2 (word_of_nat (length nm)) @ name_bytes nm" "\<lambda>nm. length nm \<le> SHRT_MAX"
proof -
  show "codec convert_name (\<lambda>nm. be_set_2 (word_of_nat (length nm)) @ name_bytes nm) (\<lambda>nm. length nm \<le> SHRT_MAX)"
    using codec_weaken [OF c_string.via_codec [of name_bytes bytes_name], of "\<lambda>nm. length nm \<le> SHRT_MAX"]
    by (simp add: convert_name_def)
qed

interpretation c_label: codec "convert_pair convert_name convert_i32"
  "\<lambda>(nm, th). be_set_2 (word_of_nat (length nm)) @ name_bytes nm @ be_set_4 (word_of_int th)"
  "\<lambda>(nm, th). length nm \<le> SHRT_MAX \<and> fits_signed 32 th"
  using pair_codec [OF c_name.codec_axioms c_i32.codec_axioms] by (simp add: case_prod_unfold)

lemma children_write:
  assumes "\<And>x c. x \<in> set xs \<Longrightarrow> room (enc_node x) c \<Longrightarrow> conv x c = Inr (x, emit (enc_node x) c)"
    "room (concat (map enc_node xs)) c"
  shows "write_children conv xs c = Inr (xs, emit (concat (map enc_node xs)) c)"
  using assms
proof (induction xs arbitrary: c)
  case Nil
  then show ?case by (cases c; cases "cpointer c") (auto simp: emit_def)
next
  case (Cons x xs)
  have room: "room (enc_node x @ concat (map enc_node xs)) c" using Cons.prems(2) by simp
  note r = room_appendD [OF room]
  have "write_children conv xs (emit (enc_node x) c) = Inr (xs, emit (concat (map enc_node xs)) (emit (enc_node x) c))"
    using Cons.IH [OF Cons.prems(1) r(2)] by simp
  then show ?case using Cons.prems(1) [of x c] r emit_append [OF room] by simp
qed

lemma children_read:
  assumes "\<And>x c r. x \<in> set xs \<Longrightarrow> wf_reader c \<Longrightarrow> \<not> is_error c \<Longrightarrow> unread c = enc_node x @ r \<Longrightarrow>
      conv fresh_node c = Inr (x, advance (length (enc_node x)) c)"
    "wf_reader c" "\<not> is_error c" "unread c = concat (map enc_node xs) @ r"
  shows "read_children conv (length xs) (Node ty nm th ch) c =
     Inr (Node ty nm th (ch @ xs), advance (length (concat (map enc_node xs))) c)"
  using assms
proof (induction xs arbitrary: c ch)
  case Nil
  then show ?case by (cases c) (simp add: advance_def)
next
  case (Cons x xs)
  let ?c = "advance (length (enc_node x)) c"
  have u: "unread c = enc_node x @ (concat (map enc_node xs) @ r)" using Cons.prems(4) by simp
  have c: "wf_reader ?c" "unread ?c = concat (map enc_node xs) @ r"
    using u Cons.prems(2) by (simp_all add: wf_reader_advance unread_advance)
  have "read_children conv (length xs) (Node ty nm th (ch @ [x])) ?c =
      Inr (Node ty nm th ((ch @ [x]) @ xs), advance (length (concat (map enc_node xs))) ?c)"
    by (rule Cons.IH [OF _ c(1) _ c(2)]) (use Cons.prems(1,3) in auto)
  then show ?case using Cons.prems(1) [OF _ Cons.prems(2,3) u] Cons.prems(3) by (simp add: add_child_node_def)
qed

lemma children_safe:
  assumes "\<And>c. wf_reader c \<Longrightarrow> \<exists>y c'. conv fresh_node c = Inr (y, c') \<and> reader_step c c'" "wf_reader c"
  shows "\<exists>y c'. read_children conv n node c = Inr (y, c') \<and> reader_step c c'"
  using assms(2)
proof (induction n arbitrary: c node)
  case (Suc n)
  obtain y c1 where 1: "conv fresh_node c = Inr (y, c1)" "reader_step c c1" using assms(1) [OF Suc.prems] by blast
  obtain z c2 where 2: "read_children conv n (add_child_node node y) c1 = Inr (z, c2)" "reader_step c1 c2"
    using Suc.IH [OF reader_step_wf [OF 1(2)]] by blast
  have "reader_step c c2" using 1(2) 2(2) by (rule reader_step_trans)
  with 1 2 show ?case by simp
qed simp

lemma node_e_of_int_inverse: "ty \<in> {NONE, LEAF, AND, OR, THRESHOLD} \<Longrightarrow> node_e_of_int (node_e_int ty) = ty \<and> fits_signed 32 (node_e_int ty)"
  by (auto simp: node_e_of_int_def fits_signed_def)

lemma node_step_write:
  assumes "\<And>x c. node_fits left x \<Longrightarrow> room (enc_node x) c \<Longrightarrow> convert_node (level + 1) x c = Inr (x, emit (enc_node x) c)"
    "level \<le> MAX_AC_TREE_LEVEL" "node_fits (Suc left) x" "room (enc_node x) c"
  shows "convert_node level x c = Inr (x, emit (enc_node x) c)"
proof -
  obtain ty nm th ch where x: "x = Node ty nm th ch" by (cases x)
  let ?t = "be_set_4 (word_of_int (node_e_int ty))" let ?w = "write_len (word_of_nat (length ch))"
  let ?l = "be_set_2 (word_of_nat (length nm)) @ name_bytes nm @ be_set_4 (word_of_int th)"
  let ?c1 = "emit ?t c" let ?c2 = "emit ?l ?c1" let ?c3 = "emit ?w ?c2"
  have room: "room (?t @ (?l @ (?w @ concat (map enc_node ch)))) c" using assms(4) x by simp
  note r1 = room_appendD [OF room] note r2 = room_appendD [OF r1(2)] note r3 = room_appendD [OF r2(2)]
  have fits: "ty \<in> {NONE, LEAF, AND, OR, THRESHOLD}" "length nm \<le> SHRT_MAX" "fits_signed 32 th"
    "length ch \<le> MAX_CONVERT_LEN" "list_all (node_fits left) ch" using assms(3) x by simp_all
  have "convert_i32 (node_e_int ty) c = Inr (node_e_int ty, ?c1)"
    using c_i32.conv_write [OF _ r1(1)] node_e_of_int_inverse [OF fits(1)] by simp
  moreover have "convert_pair convert_name convert_i32 (nm, th) ?c1 = Inr ((nm, th), ?c2)"
    using c_label.conv_write [of "(nm, th)" ?c1] r2(1) fits(2,3) by simp
  moreover have "convert_len (word_of_nat (length ch)) ?c2 = Inr (word_of_nat (length ch), ?c3)"
    using c_len.conv_write [OF _ r3(1)] len_prefix_small [OF fits(4)] fits(4) by simp
  moreover have "write_children (convert_node (level + 1)) ch ?c3 = Inr (ch, emit (concat (map enc_node ch)) ?c3)"
    by (rule children_write [OF assms(1) r3(2)]) (use fits(5) in \<open>auto simp: list_all_iff\<close>)
  moreover have "emit (concat (map enc_node ch)) ?c3 = emit (enc_node x) c"
    using emit_append [OF r2(2)] emit_append [OF r1(2)] emit_append [OF room] x by simp
  ultimately show ?thesis
    using assms(2) node_e_of_int_inverse [OF fits(1)] r1(3) x
    by (simp add: convert_node.simps [of level] get_n_def)
qed

lemma node_step_read:
  assumes "\<And>x c r. node_fits left x \<Longrightarrow> wf_reader c \<Longrightarrow> \<not> is_error c \<Longrightarrow> unread c = enc_node x @ r \<Longrightarrow>
      convert_node (level + 1) fresh_node c = Inr (x, advance (length (enc_node x)) c)"
    "level \<le> MAX_AC_TREE_LEVEL" "node_fits (Suc left) x" "wf_reader c" "\<not> is_error c" "unread c = enc_node x @ r"
  shows "convert_node level fresh_node c = Inr (x, advance (length (enc_node x)) c)"
proof -
  obtain ty nm th ch where x: "x = Node ty nm th ch" by (cases x)
  let ?t = "be_set_4 (word_of_int (node_e_int ty))" let ?w = "write_len (word_of_nat (length ch))"
  let ?l = "be_set_2 (word_of_nat (length nm)) @ name_bytes nm @ be_set_4 (word_of_int th)" let ?e = "concat (map enc_node ch)"
  let ?c1 = "advance (length ?t) c" let ?c2 = "advance (length ?l) ?c1" let ?c3 = "advance (length ?w) ?c2"
  have u: "unread c = ?t @ (?l @ (?w @ (?e @ r)))" using assms(6) x by simp
  have c1: "wf_reader ?c1" "unread ?c1 = ?l @ (?w @ (?e @ r))"
    using u assms(4) by (simp_all add: wf_reader_advance unread_advance)
  have c2: "wf_reader ?c2" "unread ?c2 = ?w @ (?e @ r)"
    using wf_reader_advance [OF c1(1), of "length ?l"] unread_advance [OF c1(1), of "length ?l"] c1(2) by simp_all
  have c3: "wf_reader ?c3" "unread ?c3 = ?e @ r"
    using wf_reader_advance [OF c2(1), of "length ?w"] unread_advance [OF c2(1), of "length ?w"] c2(2) by simp_all
  have fits: "ty \<in> {NONE, LEAF, AND, OR, THRESHOLD}" "length nm \<le> SHRT_MAX" "fits_signed 32 th"
    "length ch \<le> MAX_CONVERT_LEN" "list_all (node_fits left) ch" using assms(3) x by simp_all
  have "convert_i32 0 c = Inr (node_e_int ty, ?c1)"
    using c_i32.conv_read [OF _ assms(4,5) u] node_e_of_int_inverse [OF fits(1)] by simp
  moreover have "convert_pair convert_name convert_i32 ([], 0) ?c1 = Inr ((nm, th), ?c2)"
    using c_label.conv_read [of "(nm, th)" ?c1 "?w @ (?e @ r)"] c1 assms(5) fits(2,3) by simp
  moreover have "convert_len 0 ?c2 = Inr (word_of_nat (length ch), ?c3)"
    using c_len.conv_read [OF _ c2(1) _ c2(2)] len_prefix_small [OF fits(4)] fits(4) assms(5) by simp
  moreover have "read_children (convert_node (level + 1)) (length ch) (Node ty nm th []) ?c3 =
      Inr (Node ty nm th ([] @ ch), advance (length ?e) ?c3)"
    using children_read [of ch "convert_node (level + 1)" ?c3 r, OF assms(1)] c3 fits(5) assms(5) by (simp add: list_all_iff)
  ultimately show ?thesis
    using assms(2) node_e_of_int_inverse [OF fits(1)] wf_reader_fields(1) [OF assms(4)] x len_prefix_small [OF fits(4)]
    by (simp add: convert_node.simps [of level] get_n_def fresh_node_def)
qed

lemma node_safe: "wf_reader c \<Longrightarrow> \<exists>y c'. convert_node level node c = Inr (y, c') \<and> reader_step c c'"
proof (induction "Suc MAX_AC_TREE_LEVEL - level" arbitrary: level node c rule: less_induct)
  case less
  show ?case
  proof (cases "MAX_AC_TREE_LEVEL < level")
    case False
    obtain t c1 where 1: "convert_i32 (node_e_int (ntype node)) c = Inr (t, c1)" "reader_step c c1"
      using c_i32.conv_safe [OF less.prems] by blast
    note wf1 = reader_step_wf [OF 1(2)]
    obtain l c2 where 2: "convert_pair convert_name convert_i32 (nname node, nthreshold node) c1 = Inr (l, c2)" "reader_step c1 c2"
      using c_label.conv_safe [OF wf1] by blast
    note wf2 = reader_step_wf [OF 2(2)]
    obtain n c3 where 3: "convert_len (word_of_nat (get_n node)) c2 = Inr (n, c3)" "reader_step c2 c3"
      using c_len.conv_safe [OF wf2] by blast
    note wf3 = reader_step_wf [OF 3(2)]
    obtain nm th where l: "l = (nm, th)" by fastforce
    obtain y c4 where 4: "read_children (convert_node (level + 1)) (unat n) (Node (node_e_of_int t) nm th (nchildren node)) c3 = Inr (y, c4)"
      "reader_step c3 c4" using children_safe [of "convert_node (level + 1)", OF less.hyps wf3] False by fastforce
    have "reader_step c c4" using 1(2) 2(2) 3(2) 4(2) by (blast intro: reader_step_trans)
    then show ?thesis
      using 1 2 3 4 l False wf_reader_fields(1) [OF wf3] by (simp add: convert_node.simps [of level])
  qed (use less.prems in \<open>simp add: convert_node.simps\<close>)
qed

lemma node_codec: "left + level = Suc MAX_AC_TREE_LEVEL \<Longrightarrow> codec (convert_new level) enc_node (node_fits left)"
proof (induction left arbitrary: level)
  case 0
  show ?case
  proof
    fix c d assume "wf_reader c"
    then show "\<exists>y c'. convert_new level d c = Inr (y, c') \<and> reader_step c c'"
      using node_safe wf_reader_fields(1) [of c] by (simp add: convert_new_def)
  qed (metis node_fits.elims(2) less_not_refl)+
next
  case (Suc left)
  then have ih: "codec (convert_new (level + 1)) enc_node (node_fits left)" by simp
  have l: "level \<le> MAX_AC_TREE_LEVEL" using Suc.prems by simp
  have W: "convert_node (level + 1) x c = Inr (x, emit (enc_node x) c)" if "node_fits left x" "room (enc_node x) c" for x c
    using codec.conv_write [OF ih that] that(2) by (simp add: convert_new_def room_def)
  have R: "convert_node (level + 1) fresh_node c = Inr (x, advance (length (enc_node x)) c)"
    if "node_fits left x" "wf_reader c" "\<not> is_error c" "unread c = enc_node x @ r" for x c r
    using codec.conv_read [OF ih that] wf_reader_fields(1) [OF that(2)] by (simp add: convert_new_def)
  show ?case
  proof
    fix x c assume "node_fits (Suc left) x" "room (enc_node x) c"
    then show "convert_new level x c = Inr (x, emit (enc_node x) c)"
      using node_step_write [OF W l] by (simp add: convert_new_def room_def)
  next
    fix x c r d assume "node_fits (Suc left) x" "wf_reader c" "\<not> is_error c" "unread c = enc_node x @ r"
    then show "convert_new level d c = Inr (x, advance (length (enc_node x)) c)"
      using node_step_read [OF R l] wf_reader_fields(1) [of c] by (simp add: convert_new_def)
  next
    fix c d assume "wf_reader c"
    then show "\<exists>y c'. convert_new level d c = Inr (y, c') \<and> reader_step c c'"
      using node_safe wf_reader_fields(1) [of c] by (simp add: convert_new_def)
  qed
qed

interpretation c_root: codec "convert_new 1" enc_node "node_fits MAX_AC_TREE_LEVEL"
  by (rule node_codec) simp

section \<open>Curves\<close>

text \<open>The table \<^verbatim>\<open>g_curves\<close> with the OpenSSL codes is the parameter \<open>curves\<close>.\<close>

fun ecurve_find :: "(u16 \<times> 'c) list \<Rightarrow> u16 \<Rightarrow> 'c option" where
  "ecurve_find curves openssl_id =
     (if openssl_id = 0 then None else map_option snd (find (\<lambda>(code, _). openssl_id = code) curves))"

definition convert_curve :: "('c \<Rightarrow> u16) \<Rightarrow> (u16 \<times> 'c) list \<Rightarrow> 'c option conv" where
  "convert_curve code curves ptr c =
     bind_res (convert_u16 (case ptr of Some k \<Rightarrow> code k | None \<Rightarrow> 0) c) (\<lambda>(curve_code, c).
       if is_error c then Inr (ptr, c)
       else if curve_code \<noteq> 0 then
         (case ecurve_find curves curve_code of None \<Rightarrow> Inr (ptr, format_error c) | Some k \<Rightarrow> Inr (Some k, c))
       else if cwrite c then Inr (None, c)
       else Inr (ptr, format_error c))"

section \<open>Access structures\<close>

definition ac_convert :: "('p ecurve \<Rightarrow> u16) \<Rightarrow> (u16 \<times> 'p ecurve) list \<Rightarrow> 'p ac_t conv" where
  "ac_convert code curves ac c =
     bind_res (convert_bool (root ac \<noteq> None) c) (\<lambda>(exists, c).
       if \<not> exists then Inr (if cwrite c then ac else ac\<lparr>root := None, curve := None\<rparr>, c)
       else bind_res (convert_curve code curves (curve ac) c) (\<lambda>(k, c).
         if \<not> cwrite c \<and> k = None then Inr (ac\<lparr>root := None, curve := None\<rparr>, set_error E_FORMAT c)
         else bind_res (convert_node 1 (if cwrite c then the (root ac) else fresh_node) c) (\<lambda>(r, c).
           if cwrite c then Inr (ac\<lparr>root := Some r, curve := k\<rparr>, c)
           else if is_error c then Inr (ac\<lparr>root := None, curve := k\<rparr>, set_error UNINITIALIZED_ERROR c)
           else case ac_validate_tree (ac\<lparr>root := Some r, curve := k\<rparr>) of
                  Inr _ \<Rightarrow> Inr (ac\<lparr>root := Some r, curve := k\<rparr>, c)
                | Inl (Err rv) \<Rightarrow> Inr (ac\<lparr>root := None, curve := k\<rparr>, set_error rv c)
                | Inl f \<Rightarrow> Inl f)))"

definition ac_fits :: "('p ecurve \<Rightarrow> u16) \<Rightarrow> (u16 \<times> 'p ecurve) list \<Rightarrow> 'p ac_t \<Rightarrow> bool" where
  "ac_fits code curves ac \<longleftrightarrow> (case (root ac, curve ac) of
     (None, None) \<Rightarrow> True
   | (Some t, Some k) \<Rightarrow> code k \<noteq> 0 \<and> ecurve_find curves (code k) = Some k \<and> node_fits MAX_AC_TREE_LEVEL t
       \<and> (\<exists>names. validate_tree False t {} = Inr names)
   | _ \<Rightarrow> False)"

definition enc_ac :: "('p ecurve \<Rightarrow> u16) \<Rightarrow> 'p ac_t \<Rightarrow> bytes" where
  "enc_ac code ac = (case root ac of None \<Rightarrow> [0]
     | Some t \<Rightarrow> [1] @ be_set_2 (case curve ac of Some k \<Rightarrow> code k | None \<Rightarrow> 0) @ enc_node t)"

lemma curve_codec:
  "codec (convert_curve code curves) (\<lambda>k. be_set_2 (case k of Some k \<Rightarrow> code k | None \<Rightarrow> 0))
     (\<lambda>k. \<exists>k'. k = Some k' \<and> code k' \<noteq> 0 \<and> ecurve_find curves (code k') = Some k')"
proof
  fix x c assume x: "\<exists>k'. x = Some k' \<and> code k' \<noteq> 0 \<and> ecurve_find curves (code k') = Some k'"
    "room (be_set_2 (case x of Some k \<Rightarrow> code k | None \<Rightarrow> 0)) c"
  then show "convert_curve code curves x c = Inr (x, emit (be_set_2 (case x of Some k \<Rightarrow> code k | None \<Rightarrow> 0)) c)"
    using c_u16.conv_write [OF _ x(2)] by (auto simp: convert_curve_def room_def simp del: ecurve_find.simps)
next
  fix x c r d assume x: "\<exists>k'. x = Some k' \<and> code k' \<noteq> 0 \<and> ecurve_find curves (code k') = Some k'"
    "wf_reader c" "\<not> is_error c" "unread c = be_set_2 (case x of Some k \<Rightarrow> code k | None \<Rightarrow> 0) @ r"
  then show "convert_curve code curves d c = Inr (x, advance (length (be_set_2 (case x of Some k \<Rightarrow> code k | None \<Rightarrow> 0))) c)"
    using c_u16.conv_read [OF _ x(2-4)] by (auto simp: convert_curve_def simp del: ecurve_find.simps)
next
  fix c d assume "wf_reader c"
  then obtain y c1 where 1: "convert_u16 (case d of Some k \<Rightarrow> code k | None \<Rightarrow> 0) c = Inr (y, c1)" "reader_step c c1"
    using c_u16.conv_safe by blast
  moreover have "reader_step c (format_error c1)" using 1(2) reader_step_error [OF reader_step_wf [OF 1(2)]] by (rule reader_step_trans)
  ultimately show "\<exists>y c'. convert_curve code curves d c = Inr (y, c') \<and> reader_step c c'"
    using wf_reader_fields(1) [OF reader_step_wf [OF 1(2)]]
    by (auto simp: convert_curve_def simp del: ecurve_find.simps split: option.splits)
qed

lemma ac_write:
  assumes "ac_fits code curves ac" "room (enc_ac code ac) c"
  shows "ac_convert code curves ac c = Inr (ac, emit (enc_ac code ac) c)"
proof (cases "root ac")
  case None
  then show ?thesis using assms c_bool.conv_write [of False c] by (simp add: ac_convert_def enc_ac_def room_def)
next
  case (Some t)
  then obtain k where k: "curve ac = Some k" "code k \<noteq> 0" "ecurve_find curves (code k) = Some k" "node_fits MAX_AC_TREE_LEVEL t"
    using assms(1) by (auto simp: ac_fits_def split: option.splits)
  have room: "room ([1] @ (be_set_2 (code k) @ enc_node t)) c" using assms(2) Some k by (simp add: enc_ac_def)
  note r1 = room_appendD [OF room] note r2 = room_appendD [OF r1(2)]
  let ?c1 = "emit [1] c" let ?c2 = "emit (be_set_2 (code k)) ?c1"
  have "convert_bool True c = Inr (True, ?c1)" using c_bool.conv_write [of True c] r1(1) by simp
  moreover have "convert_curve code curves (Some k) ?c1 = Inr (Some k, ?c2)"
    using codec.conv_write [OF curve_codec, where x = "Some k" and c = ?c1] k r2(1) by simp
  moreover have "convert_node 1 t ?c2 = Inr (t, emit (enc_node t) ?c2)"
    using c_root.conv_write [OF k(4) r2(2)] r2(3) by (simp add: convert_new_def)
  moreover have "emit (enc_node t) ?c2 = emit (enc_ac code ac) c"
    using emit_append [OF r1(2)] emit_append [OF room] Some k by (simp add: enc_ac_def)
  ultimately show ?thesis using Some k r1(3) by (simp add: ac_convert_def)
qed

lemma ac_read:
  fixes ac d :: "'p ac_t"
  assumes "ac_fits code curves ac" "wf_reader c" "\<not> is_error c" "unread c = enc_ac code ac @ r"
  shows "ac_convert code curves d c = Inr (ac, advance (length (enc_ac code ac)) c)"
proof (cases "root ac")
  case None
  then have "ac = d\<lparr>root := None, curve := None\<rparr>" using assms(1) by (auto simp: ac_fits_def split: option.splits)
  then show ?thesis
    using None assms c_bool.conv_read [where x = False and c = c and r = r and d = "root d \<noteq> None"] wf_reader_fields(1) [OF assms(2)]
    by (simp add: ac_convert_def enc_ac_def)
next
  case (Some t)
  then obtain k names where k: "curve ac = Some k" "code k \<noteq> 0" "ecurve_find curves (code k) = Some k"
    "node_fits MAX_AC_TREE_LEVEL t" "validate_tree False t {} = Inr names"
    using assms(1) by (auto simp: ac_fits_def split: option.splits)
  then have ac: "d\<lparr>root := Some t, curve := Some k\<rparr> = ac" using Some by simp
  have u: "unread c = [if True then 1 else 0] @ (be_set_2 (code k) @ (enc_node t @ r))" using assms(4) Some k by (simp add: enc_ac_def)
  let ?c1 = "advance 1 c" let ?c2 = "advance 2 ?c1"
  have c1: "wf_reader ?c1" "unread ?c1 = be_set_2 (code k) @ (enc_node t @ r)"
    using u assms(2) by (simp_all add: wf_reader_advance unread_advance)
  have c2: "wf_reader ?c2" "unread ?c2 = enc_node t @ r"
    using wf_reader_advance [OF c1(1), of 2] unread_advance [OF c1(1), of 2] c1(2) by simp_all
  have "convert_bool (root d \<noteq> None) c = Inr (True, ?c1)" using c_bool.conv_read [OF _ assms(2,3) u] by simp
  moreover have "convert_curve code curves (curve d) ?c1 = Inr (Some k, ?c2)"
    using codec.conv_read [OF curve_codec, where x = "Some k" and c = ?c1 and r = "enc_node t @ r" and d = "curve d"] k c1 assms(3) by simp
  moreover have "convert_node 1 fresh_node ?c2 = Inr (t, advance (length (enc_node t)) ?c2)"
    using c_root.conv_read [OF k(4) c2(1) _ c2(2)] assms(3) wf_reader_fields(1) [OF assms(2)] by (simp add: convert_new_def)
  ultimately show ?thesis
    using Some k assms(3) wf_reader_fields(1) [OF assms(2)] ac by (simp add: ac_convert_def enc_ac_def ac_validate_tree_def)
qed

text \<open>Whatever a reader is given, it stays inside its buffer and accepts a validated tree with a curve, or nothing.\<close>

lemma ac_read_any:
  assumes "wf_reader c"
  shows "\<exists>ac c'. ac_convert code curves d c = Inr (ac, c') \<and> reader_step c c'
    \<and> (\<not> is_error c' \<longrightarrow> root ac = None \<and> curve ac = None
         \<or> (\<exists>t k names. root ac = Some t \<and> curve ac = Some k \<and> validate_tree False t {} = Inr names))"
proof -
  obtain e c1 where 1: "convert_bool (root d \<noteq> None) c = Inr (e, c1)" "reader_step c c1"
    using c_bool.conv_safe [OF assms] by blast
  note wf1 = reader_step_wf [OF 1(2)]
  obtain k c2 where 2: "convert_curve code curves (curve d) c1 = Inr (k, c2)" "reader_step c1 c2"
    using codec.conv_safe [OF curve_codec wf1] by blast
  note wf2 = reader_step_wf [OF 2(2)]
  obtain t c3 where 3: "convert_node 1 fresh_node c2 = Inr (t, c3)" "reader_step c2 c3"
    using node_safe [OF wf2] by blast
  note wf3 = reader_step_wf [OF 3(2)]
  note s2 = reader_step_trans [OF 1(2) 2(2)]
  note s3 = reader_step_trans [OF s2 3(2)]
  note e2 = reader_step_trans [OF s2 reader_step_error [OF wf2]]
  note e3 = reader_step_trans [OF s3 reader_step_error [OF wf3]]
  note w = wf_reader_fields(1) [OF wf1] wf_reader_fields(1) [OF wf2] wf_reader_fields(1) [OF wf3]
  show ?thesis
  proof (cases "\<not> e \<or> k = None \<or> is_error c3")
    case True
    then show ?thesis using 1 2 3 w s3 e2 e3 by (auto simp: ac_convert_def)
  next
    case False
    then obtain k' where "e" "k = Some k'" "\<not> is_error c3" by auto
    then show ?thesis using 1 2 3 w s3 e3 validate_tree_error [of False t "{}"]
      by (cases "validate_tree False t {}") (auto simp: ac_convert_def ac_validate_tree_def)
  qed
qed

lemma ac_codec: "codec (ac_convert code curves) (enc_ac code) (ac_fits code curves)"
  by unfold_locales (simp_all add: ac_write ac_read, use ac_read_any in blast)


end
