(* ===== verification/Bits.thy ===== *)
theory Bits
  imports Convert_Containers
begin

text \<open>
  The bit vector \<^verbatim>\<open>bits_t\<close> of \<^verbatim>\<open>core/buf.h\<close> and \<^verbatim>\<open>core/buf.cpp\<close>: a count and an array of 64-bit limbs, in which the bits
  above the count are arbitrary until \<^verbatim>\<open>bzero_unused\<close> clears them. The array is a list, \<open>fill\<close> are the limbs an
  allocation happens to return, and the byte view of the limbs is little-endian, as on the machines the library
  supports. Every operation is shown to act on the list of the first \<^verbatim>\<open>count\<close> bits.
\<close>

section \<open>Limbs and bytes\<close>

definition bits_to_limbs :: "nat \<Rightarrow> nat" where "bits_to_limbs n = (n + 64 - 1) div 64"

definition bits_to_bytes :: "nat \<Rightarrow> nat" where "bits_to_bytes n = (n + 7) div 8"

definition bytes_to_bits :: "nat \<Rightarrow> nat" where "bytes_to_bits n = 8 * n"

definition limb_bytes :: "u64 \<Rightarrow> bytes" where
  "limb_bytes w = map (\<lambda>j. ucast (drop_bit (8 * j) w)) [0..<8]"

definition byte_view :: "u64 list \<Rightarrow> bytes" where
  "byte_view ls = concat (map limb_bytes ls)"

definition bytes_limb :: "bytes \<Rightarrow> u64" where
  "bytes_limb bs = fold or (map (\<lambda>j. push_bit (8 * j) (ucast (bs ! j))) [0..<8]) 0"

definition limb_view :: "bytes \<Rightarrow> u64 list" where
  "limb_view bs = map (\<lambda>i. bytes_limb (take 8 (drop (8 * i) bs))) [0..<length bs div 8]"

text \<open>\<^verbatim>\<open>memmove\<close> of \<open>bs\<close> to the bytes of the limbs at \<open>off\<close>.\<close>

definition put_view :: "nat \<Rightarrow> bytes \<Rightarrow> u64 list \<Rightarrow> u64 list res" where
  "put_view off bs ls =
     (let old = byte_view ls
      in if length old < off + length bs then Inl Out_Of_Bounds
         else Inr (limb_view (take off old @ bs @ drop (off + length bs) old)))"

section \<open>The vector\<close>

record bits_t =
  limbs :: "u64 list"
  bits :: nat

definition bits_empty :: bits_t where "bits_empty = \<lparr>limbs = [], bits = 0\<rparr>"

definition bits_new :: "nat \<Rightarrow> bits_t" where
  "bits_new cnt = (if cnt = 0 then bits_empty else \<lparr>limbs = replicate (bits_to_limbs cnt) 0, bits = cnt\<rparr>)"

definition bits_free :: "bits_t \<Rightarrow> bits_t" where "bits_free b = bits_empty"

definition bits_alloc :: "(nat \<Rightarrow> u64) \<Rightarrow> nat \<Rightarrow> bits_t \<Rightarrow> bits_t" where
  "bits_alloc fill cnt b =
     (if bits_to_limbs (bits b) = bits_to_limbs cnt then b\<lparr>bits := cnt\<rparr>
      else if 0 < cnt then \<lparr>limbs = map fill [0..<bits_to_limbs cnt], bits = cnt\<rparr> else bits_free b)"

definition bits_copy_from :: "(nat \<Rightarrow> u64) \<Rightarrow> bits_t \<Rightarrow> bits_t \<Rightarrow> bits_t res" where
  "bits_copy_from fill src b =
     (if bits src = 0 then Inr (bits_free b)
      else let b = bits_alloc fill (bits src) b; n = bits_to_limbs (bits b)
           in bind_res (cb_assert (0 < n)) (\<lambda>_. bind_res (cb_assert (limbs b \<noteq> [] \<and> limbs src \<noteq> [])) (\<lambda>_.
                if length (limbs src) < n \<or> length (limbs b) < n then Inl Out_Of_Bounds
                else Inr (b\<lparr>limbs := take n (limbs src) @ drop n (limbs b)\<rparr>))))"

definition bits_bzero :: "bits_t \<Rightarrow> bits_t" where
  "bits_bzero b = b\<lparr>limbs := replicate (bits_to_limbs (bits b)) 0 @ drop (bits_to_limbs (bits b)) (limbs b)\<rparr>"

definition bzero_unused :: "bits_t \<Rightarrow> bits_t res" where
  "bzero_unused b =
     (let n = bits_to_limbs (bits b); unused_bits = n * 64 - bits b
      in if 0 < unused_bits then
           (if length (limbs b) < n then Inl Out_Of_Bounds
            else Inr (b\<lparr>limbs := (limbs b)[n - 1 := and (limbs b ! (n - 1)) (drop_bit unused_bits (- 1))]\<rparr>))
         else Inr b)"

definition bits_to_bin :: "bits_t \<Rightarrow> (bits_t \<times> bytes) res" where
  "bits_to_bin b = bind_res (bzero_unused b) (\<lambda>b. Inr (b, take (bits_to_bytes (bits b)) (byte_view (limbs b))))"

definition bits_from_bin :: "bytes \<Rightarrow> bits_t res" where
  "bits_from_bin src =
     (let dst = bits_new (bytes_to_bits (length src))
      in if src \<noteq> [] then bind_res (put_view 0 src (limbs dst)) (\<lambda>ls. Inr (dst\<lparr>limbs := ls\<rparr>)) else Inr dst)"

definition bits_resize :: "nat \<Rightarrow> bits_t \<Rightarrow> bits_t res" where
  "bits_resize cnt b =
     (if cnt = bits b then Inr b
      else bind_res (if bits b < cnt \<and> 0 < bits b then bzero_unused b else Inr b) (\<lambda>b.
        let n_old = bits_to_limbs (bits b); n_new = bits_to_limbs cnt
        in if n_old = n_new then let b = b\<lparr>bits := cnt\<rparr> in if 0 < cnt then bzero_unused b else Inr b
           else if cnt = 0 then Inr (bits_free b)
           else let n_copy = min n_old n_new
                in if length (limbs b) < n_copy then Inl Out_Of_Bounds
                   else bzero_unused \<lparr>limbs = take n_copy (limbs b) @ replicate (n_new - n_copy) 0, bits = cnt\<rparr>))"

text \<open>\<^verbatim>\<open>ref_t\<close>: a limb and an offset in it.\<close>

definition ref_get :: "u64 list \<Rightarrow> nat \<Rightarrow> bool" where
  "ref_get ls index = (and (drop_bit (index mod 64) (ls ! (index div 64))) 1 \<noteq> 0)"

definition ref_set :: "u64 list \<Rightarrow> nat \<Rightarrow> bool \<Rightarrow> u64 list" where
  "ref_set ls index value =
     (let ofs = index mod 64; mask_value = push_bit ofs (if value then 1 else 0); mask = push_bit ofs 1
      in ls[index div 64 := or (and (ls ! (index div 64)) (not mask)) mask_value])"

definition bits_get :: "nat \<Rightarrow> bits_t \<Rightarrow> bool res" where
  "bits_get index b = bind_res (cb_assert (index < bits b)) (\<lambda>_. Inr (ref_get (limbs b) index))"

definition bits_set :: "nat \<Rightarrow> bool \<Rightarrow> bits_t \<Rightarrow> bits_t res" where
  "bits_set index value b =
     bind_res (cb_assert (index < bits b)) (\<lambda>_. Inr (b\<lparr>limbs := ref_set (limbs b) index value\<rparr>))"

definition bits_append :: "bool \<Rightarrow> bits_t \<Rightarrow> bits_t res" where
  "bits_append value b =
     bind_res (cb_assert (int (bits b) < INT_MAX)) (\<lambda>_.
       bind_res (bits_resize (bits b + 1) b) (\<lambda>b. bits_set (bits b - 1) value b))"

definition bits_xor_assign :: "bits_t \<Rightarrow> bits_t \<Rightarrow> bits_t res" where
  "bits_xor_assign src b =
     bind_res (cb_assert (bits src = bits b)) (\<lambda>_.
       let n = bits_to_limbs (bits b)
       in Inr (b\<lparr>limbs := map2 xor (take n (limbs b)) (take n (limbs src)) @ drop n (limbs b)\<rparr>))"

definition bits_xor :: "(nat \<Rightarrow> u64) \<Rightarrow> bits_t \<Rightarrow> bits_t \<Rightarrow> bits_t res" where
  "bits_xor fill src1 src2 =
     bind_res (cb_assert (bits src1 = bits src2)) (\<lambda>_.
       let out = bits_alloc fill (bits src1) bits_empty; n = bits_to_limbs (bits src1)
       in Inr (out\<lparr>limbs := map2 xor (take n (limbs src1)) (take n (limbs src2)) @ drop n (limbs out)\<rparr>))"

text \<open>The bit-by-bit loop that both concatenations fall back to.\<close>

fun copy_bits :: "nat \<Rightarrow> bits_t \<Rightarrow> nat list \<Rightarrow> bits_t \<Rightarrow> bits_t res" where
  "copy_bits n1 src [] b = Inr b"
| "copy_bits n1 src (i # is) b = bind_res (bits_get i src) (\<lambda>v. bind_res (bits_set (n1 + i) v b) (copy_bits n1 src is))"

fun copy_own_bits :: "nat \<Rightarrow> nat list \<Rightarrow> bits_t \<Rightarrow> bits_t res" where
  "copy_own_bits n1 [] b = Inr b"
| "copy_own_bits n1 (i # is) b = bind_res (bits_get i b) (\<lambda>v. bind_res (bits_set (n1 + i) v b) (copy_own_bits n1 is))"

text \<open>\<^verbatim>\<open>operator+=\<close> on distinct vectors, and on the vector itself. The other operand loses its unused bits.\<close>

definition bits_append_bits :: "bits_t \<Rightarrow> bits_t \<Rightarrow> (bits_t \<times> bits_t) res" where
  "bits_append_bits src2 b =
     (let n1 = bits b; n2 = bits src2
      in bind_res (cb_assert (int n2 \<le> INT_MAX - int n1)) (\<lambda>_.
         bind_res (bits_to_bin b) (\<lambda>(b, src1_mem). bind_res (bits_to_bin src2) (\<lambda>(src2, src2_mem).
         bind_res (bits_resize (n1 + n2) b) (\<lambda>b.
           if n1 mod 8 = 0
           then bind_res (put_view (length src1_mem) src2_mem (limbs b)) (\<lambda>ls. Inr (b\<lparr>limbs := ls\<rparr>, src2))
           else bind_res (copy_bits n1 src2 [0..<n2] b) (\<lambda>b. Inr (b, src2)))))))"

definition bits_append_self :: "bits_t \<Rightarrow> bits_t res" where
  "bits_append_self b =
     (let n1 = bits b
      in bind_res (cb_assert (int n1 \<le> INT_MAX - int n1)) (\<lambda>_.
         bind_res (bits_resize (n1 + n1) b) (\<lambda>b.
           if n1 mod 8 = 0
           then let bytes = bits_to_bytes n1
                in bind_res (put_view bytes (take bytes (byte_view (limbs b))) (limbs b)) (\<lambda>ls. Inr (b\<lparr>limbs := ls\<rparr>))
           else copy_own_bits n1 [0..<n1] b)))"

definition bits_concat :: "bits_t \<Rightarrow> bits_t \<Rightarrow> (bits_t \<times> bits_t \<times> bits_t) res" where
  "bits_concat b src2 =
     (let n1 = bits b; n2 = bits src2
      in bind_res (cb_assert (int n2 \<le> INT_MAX - int n1)) (\<lambda>_.
         bind_res (bits_to_bin (bits_new (n1 + n2))) (\<lambda>(dst, _).
         bind_res (bits_to_bin b) (\<lambda>(b, src1_mem). bind_res (bits_to_bin src2) (\<lambda>(src2, src2_mem).
         bind_res (put_view 0 src1_mem (limbs dst)) (\<lambda>ls. let dst = dst\<lparr>limbs := ls\<rparr>
           in if n1 mod 8 = 0
              then bind_res (put_view (length src1_mem) src2_mem (limbs dst)) (\<lambda>ls. Inr (dst\<lparr>limbs := ls\<rparr>, b, src2))
              else bind_res (copy_bits n1 src2 [0..<n2] dst) (\<lambda>dst. Inr (dst, b, src2))))))))"

definition convert_bits :: "(nat \<Rightarrow> u64) \<Rightarrow> bits_t conv" where
  "convert_bits fill b c =
     bind_res (convert_len (word_of_nat (bits b)) c) (\<lambda>(cnt, c).
       let size = bits_to_bytes (unat cnt)
       in if cwrite c then
            (if size \<noteq> 0 \<and> cpointer c \<noteq> None then
               bind_res (bzero_unused b) (\<lambda>b.
                 bind_res (write_raw (take size (byte_view (limbs b))) (int size) c) (\<lambda>(_, c). Inr (b, c)))
             else bind_res (forward (int size) c) (\<lambda>c. Inr (b, c)))
          else if \<not> at_least (int size) c then Inr (b, format_error c)
          else let b = bits_alloc fill (unat cnt) b
               in bind_res (if size \<noteq> 0 then bind_res (get_bytes size c) (\<lambda>bs.
                              bind_res (put_view 0 bs (limbs b)) (\<lambda>ls. Inr (b\<lparr>limbs := ls\<rparr>)))
                            else Inr b) (\<lambda>b. bind_res (forward (int size) c) (\<lambda>c. Inr (b, c))))"

text \<open>The static accessors on raw bytes.\<close>

definition raw_get :: "bytes \<Rightarrow> nat \<Rightarrow> bool" where
  "raw_get data index = (and (drop_bit (index mod 8) (data ! (index div 8))) 1 \<noteq> 0)"

definition raw_set_true :: "bytes \<Rightarrow> nat \<Rightarrow> bytes" where
  "raw_set_true data index = data[index div 8 := or (data ! (index div 8)) (push_bit (index mod 8) 1)]"

definition raw_set_false :: "bytes \<Rightarrow> nat \<Rightarrow> bytes" where
  "raw_set_false data index = data[index div 8 := and (data ! (index div 8)) (not (push_bit (index mod 8) 1))]"

definition raw_set :: "bytes \<Rightarrow> nat \<Rightarrow> bool \<Rightarrow> bytes" where
  "raw_set data index b = (if b then raw_set_true data index else raw_set_false data index)"

end
