(* ===== verification/Bits_Rep.thy ===== *)
theory Bits_Rep
  imports Bits
begin

text \<open>
  The operations of \<^verbatim>\<open>bits_t\<close> act on the list of the bits below the count, whatever the unused bits of the last
  limb are, and stay inside the array; serialization is a round trip on that list.
\<close>


section \<open>Bits of the limbs\<close>

definition bit_at :: "u64 list \<Rightarrow> nat \<Rightarrow> bool" where
  "bit_at ls i = bit (ls ! (i div 64)) (i mod 64)"

definition wf_bits :: "bits_t \<Rightarrow> bool" where
  "wf_bits b \<longleftrightarrow> length (limbs b) = bits_to_limbs (bits b)"

definition bit_list :: "bits_t \<Rightarrow> bool list" where
  "bit_list b = map (bit_at (limbs b)) [0..<bits b]"

lemma bit_list_length [simp]: "length (bit_list b) = bits b"
  by (simp add: bit_list_def)

lemma bit_list_nth [simp]: "i < bits b \<Longrightarrow> bit_list b ! i = bit_at (limbs b) i"
  by (simp add: bit_list_def)

lemma bit_listI:
  "length xs = bits b \<Longrightarrow> (\<And>i. i < bits b \<Longrightarrow> bit_at (limbs b) i = xs ! i) \<Longrightarrow> bit_list b = xs"
  by (rule nth_equalityI) simp_all

lemma bits_to_limbs_bound: "n \<le> 64 * bits_to_limbs n" "64 * bits_to_limbs n < n + 64" "bits_to_limbs n = 0 \<longleftrightarrow> n = 0"
  by (auto simp: bits_to_limbs_def)

lemma bits_to_bytes_bound: "n \<le> 8 * bits_to_bytes n" "8 * bits_to_bytes n < n + 8" "bits_to_bytes n \<le> 8 * bits_to_limbs n"
  by (auto simp: bits_to_limbs_def bits_to_bytes_def)

lemma div_mod_64:
  fixes i :: nat
  shows "i div 64 = i div 8 div 8" "i mod 64 = 8 * (i div 8 mod 8) + i mod 8" "8 * (i div 8) + i mod 8 = i"
  using div_mult2_eq [of i 8 8] mod_mult2_eq [of i 8 8] by simp_all

lemma limb_bytes_length [simp]: "length (limb_bytes w) = 8"
  by (simp add: limb_bytes_def)

lemma byte_view_length [simp]: "length (byte_view ls) = 8 * length ls"
  by (induction ls) (simp_all add: byte_view_def)

lemma byte_view_nth: "j < 8 * length ls \<Longrightarrow> byte_view ls ! j = limb_bytes (ls ! (j div 8)) ! (j mod 8)"
proof (induction ls arbitrary: j)
  case (Cons w ls)
  show ?case
  proof (cases "j < 8")
    case False
    then obtain k where k: "j = 8 + k" by (metis le_add_diff_inverse not_less)
    moreover have "(8 + k) div 8 = Suc (k div 8)" by simp
    ultimately show ?thesis using Cons.IH [of k] Cons.prems by (simp add: byte_view_def nth_append)
  qed (simp add: byte_view_def nth_append)
qed simp

lemma byte_view_bit:
  assumes "j < 8 * length ls" "k < 8"
  shows "bit (byte_view ls ! j) k = bit_at ls (8 * j + k)"
proof -
  have d: "(8 * j + k) div 8 = j" "(8 * j + k) mod 8 = k" using assms(2) by simp_all
  then have "(8 * j + k) div 64 = j div 8" "(8 * j + k) mod 64 = 8 * (j mod 8) + k"
    using div_mod_64 [of "8 * j + k"] by simp_all
  moreover have "8 * (j mod 8) + k < 64" using assms(2) mod_less_divisor [of 8 j] by linarith
  ultimately show ?thesis using assms by (simp add: byte_view_nth limb_bytes_def bit_at_def bit_unsigned_iff bit_drop_bit_eq)
qed

lemma bit_fold_or: "bit (fold or ws z) i \<longleftrightarrow> bit z i \<or> (\<exists>w \<in> set ws. bit (w :: u64) i)"
  by (induction ws arbitrary: z) (auto simp: bit_or_iff)

lemma bytes_limb_bit:
  assumes "i < 64"
  shows "bit (bytes_limb bs) i = bit (bs ! (i div 8)) (i mod 8)"
proof -
  have "i div 8 < 8" using assms by simp
  moreover have "bit (push_bit (8 * j) (ucast (bs ! j)) :: u64) i \<longleftrightarrow> j = i div 8 \<and> bit (bs ! j) (i mod 8)" if "j < 8" for j
  proof -
    have "8 * j \<le> i \<and> i - 8 * j < 8 \<longleftrightarrow> j = i div 8" by linarith
    moreover have "j = i div 8 \<Longrightarrow> i - 8 * j = i mod 8" by (simp add: minus_mult_div_eq_mod)
    ultimately show ?thesis using assms by (auto simp: bit_push_bit_iff bit_unsigned_iff dest: bit_imp_le_length)
  qed
  ultimately show ?thesis by (auto simp: bytes_limb_def bit_fold_or)
qed

lemma limb_view_length [simp]: "length (limb_view bs) = length bs div 8"
  by (simp add: limb_view_def)

lemma limb_view_bit:
  assumes "length bs = 8 * n" "i < 64 * n"
  shows "bit_at (limb_view bs) i = bit (bs ! (i div 8)) (i mod 8)"
proof -
  have "i div 64 < n" using assms(2) by linarith
  moreover have "(i mod 64) div 8 = i div 8 mod 8" "(i mod 64) mod 8 = i mod 8" using div_mod_64(2) [of i] by simp_all
  moreover have "8 * (i div 64) + i div 8 mod 8 = i div 8" using div_mod_64(1) [of i] by simp
  ultimately show ?thesis using assms(1) by (simp add: bit_at_def limb_view_def bytes_limb_bit)
qed

lemma put_view_ok:
  assumes "off + length bs \<le> 8 * length ls"
  shows "\<exists>ls'. put_view off bs ls = Inr ls' \<and> length ls' = length ls \<and> (\<forall>i < 64 * length ls.
    bit_at ls' i = (if 8 * off \<le> i \<and> i < 8 * (off + length bs) then bit (bs ! (i div 8 - off)) (i mod 8) else bit_at ls i))"
proof -
  let ?v = "byte_view ls" let ?new = "take off ?v @ bs @ drop (off + length bs) ?v"
  have len: "length ?new = 8 * length ls" using assms by simp
  have "bit_at (limb_view ?new) i = (if 8 * off \<le> i \<and> i < 8 * (off + length bs) then bit (bs ! (i div 8 - off)) (i mod 8) else bit_at ls i)"
    if "i < 64 * length ls" for i
  proof -
    have j: "i div 8 < 8 * length ls" "8 * (i div 8) + i mod 8 = i" using that by linarith simp
    have "8 * off \<le> i \<longleftrightarrow> off \<le> i div 8" by linarith
    moreover have "i < 8 * (off + length bs) \<longleftrightarrow> i div 8 < off + length bs" by (simp add: div_less_iff_less_mult mult.commute)
    moreover have "bit (?v ! (i div 8)) (i mod 8) = bit_at ls i" using byte_view_bit [OF j(1), of "i mod 8"] j(2) by simp
    ultimately show ?thesis
      using limb_view_bit [OF len that] assms j(1) by (auto simp: nth_append min_def)
  qed
  then show ?thesis using assms len by (auto simp: put_view_def Let_def)
qed

lemma ref_get_bit: "ref_get ls i = bit_at ls i"
  by (simp add: ref_get_def bit_at_def and_one_eq bit_iff_odd_drop_bit odd_iff_mod_2_eq_one)

lemma ref_set_bit:
  assumes "i div 64 < length ls"
  shows "bit_at (ref_set ls i v) j = (if j = i then v else bit_at ls j)"
proof (cases "j div 64 = i div 64")
  case True
  then have "j = i \<longleftrightarrow> j mod 64 = i mod 64" by (metis div_mult_mod_eq)
  moreover have "j mod 64 < 64" by simp
  ultimately show ?thesis using True assms
    by (auto simp: bit_at_def ref_set_def Let_def bit_or_iff bit_and_iff bit_not_iff bit_push_bit_iff bit_exp_iff bit_1_iff)
next
  case False
  then show ?thesis by (auto simp: bit_at_def ref_set_def Let_def)
qed

lemma bzero_unused_ok:
  assumes "wf_bits b"
  shows "\<exists>b'. bzero_unused b = Inr b' \<and> bits b' = bits b \<and> wf_bits b' \<and> bit_list b' = bit_list b
    \<and> (\<forall>i < 64 * length (limbs b). bit_at (limbs b') i = (i < bits b \<and> bit_at (limbs b) i))"
proof -
  let ?n = "bits_to_limbs (bits b)" let ?u = "?n * 64 - bits b"
  note bb = bits_to_limbs_bound [of "bits b"]
  have n: "length (limbs b) = ?n" using assms by (simp add: wf_bits_def)
  show ?thesis
  proof (cases "0 < ?u")
    case False
    then have "bits b = 64 * ?n" using bb by simp
    then show ?thesis using False assms n by (simp add: bzero_unused_def Let_def)
  next
    case True
    let ?ls = "(limbs b)[?n - 1 := and (limbs b ! (?n - 1)) (drop_bit ?u (- 1))]"
    have u: "?u < 64" "0 < ?n" using bb True by auto
    have bit: "bit_at ?ls i = (i < bits b \<and> bit_at (limbs b) i)" if "i < 64 * ?n" for i
    proof (cases "i div 64 = ?n - 1")
      case True
      have i: "i = 64 * (?n - 1) + i mod 64" using True by (metis mult_div_mod_eq)
      have "?u + i mod 64 < 64 \<longleftrightarrow> i < bits b" using i u bb \<open>0 < ?u\<close> by linarith
      then show ?thesis using True n u
        by (auto simp: bit_at_def bit_and_iff bit_drop_bit_eq bit_minus_1_iff possible_bit_def bit_mask_iff)
    next
      case False
      have "i div 64 < ?n" using that by (simp add: div_less_iff_less_mult mult.commute)
      with False have "i div 64 + 1 \<le> ?n - 1" by linarith
      then have "i < bits b" using bb by linarith
      with False show ?thesis by (simp add: bit_at_def)
    qed
    then have "bit_list (b\<lparr>limbs := ?ls\<rparr>) = bit_list b" using bb(1) by (intro bit_listI) auto
    then show ?thesis using True n bit assms by (auto simp: bzero_unused_def Let_def wf_bits_def)
  qed
qed


section \<open>The operations on the list of bits\<close>

lemma wf_new: "wf_bits (bits_new n)" "bits (bits_new n) = n" "bit_list (bits_new n) = replicate n False"
proof -
  show b: "bits (bits_new n) = n" by (simp add: bits_new_def bits_empty_def)
  show w: "wf_bits (bits_new n)" by (simp add: wf_bits_def bits_new_def bits_empty_def bits_to_limbs_def)
  have "i div 64 < bits_to_limbs n" if "i < n" for i using that bits_to_limbs_bound(1) [of n] by linarith
  then show "bit_list (bits_new n) = replicate n False"
    by (intro bit_listI) (auto simp: b bit_at_def bits_new_def bits_empty_def)
qed

lemma wf_alloc: "wf_bits b \<Longrightarrow> wf_bits (bits_alloc fill n b) \<and> bits (bits_alloc fill n b) = n"
  using bits_to_limbs_bound(3) [of n] by (auto simp: wf_bits_def bits_alloc_def bits_free_def bits_empty_def)

lemma resize_ok:
  assumes "wf_bits b"
  shows "\<exists>b'. bits_resize n b = Inr b' \<and> wf_bits b' \<and> bits b' = n
    \<and> bit_list b' = take n (bit_list b) @ replicate (n - bits b) False"
proof (cases "n = bits b")
  case True
  then show ?thesis using assms by (simp add: bits_resize_def)
next
  case ne: False
  obtain b1 where 1: "(if bits b < n \<and> 0 < bits b then bzero_unused b else Inr b) = Inr b1" "bits b1 = bits b" "wf_bits b1"
    "bit_list b1 = bit_list b" "\<forall>i < 64 * bits_to_limbs (bits b). bits b < n \<longrightarrow> bit_at (limbs b1) i = (i < bits b \<and> bit_at (limbs b) i)"
  proof (cases "bits b < n \<and> 0 < bits b")
    case True
    then show ?thesis using bzero_unused_ok [OF assms] that assms by (auto simp: wf_bits_def)
  next
    case False
    then show ?thesis using that [of b] assms bits_to_limbs_bound(3) [of "bits b"] by auto
  qed
  let ?old = "bits_to_limbs (bits b)" let ?new = "bits_to_limbs n"
  have len: "length (limbs b1) = ?old" using 1(2,3) by (simp add: wf_bits_def)
  define ls where "ls = take (min ?old ?new) (limbs b1) @ replicate (?new - min ?old ?new) 0"
  have ls: "length ls = ?new" using len by (simp add: ls_def min_def)
  have at: "bit_at ls i = (i < bits b \<and> bit_at (limbs b) i)" if "i < n" for i
  proof (cases "i < 64 * ?old")
    case True
    have "i div 64 < ?old" "i div 64 < ?new" using True that bits_to_limbs_bound(1) [of n] by linarith+
    then have "bit_at ls i = bit_at (limbs b1) i" using len by (simp add: bit_at_def ls_def nth_append)
    moreover have "bit_at (limbs b1) i = bit_at (limbs b) i" if "i < bits b"
      using 1(2,4) that by (metis bit_list_nth)
    ultimately show ?thesis using 1(5) True that ne by (cases "bits b < n") auto
  next
    case False
    then have "?old \<le> i div 64" "i div 64 < ?new" "\<not> i < bits b"
      using that bits_to_limbs_bound(1) [of n] bits_to_limbs_bound(1) [of "bits b"] by linarith+
    then show ?thesis using len by (simp add: bit_at_def ls_def nth_append min_def)
  qed
  let ?b = "\<lparr>limbs = ls, bits = n\<rparr>"
  have wf: "wf_bits ?b" using ls by (simp add: wf_bits_def)
  have "bit_list ?b = take n (bit_list b) @ replicate (n - bits b) False"
    using at by (intro bit_listI) (auto simp: nth_append min_def)
  moreover obtain b' where "bzero_unused ?b = Inr b'" "wf_bits b'" "bits b' = n" "bit_list b' = bit_list ?b"
    using bzero_unused_ok [OF wf] by auto
  moreover have "bits_resize n b = (if n = 0 then Inr bits_empty else bzero_unused ?b)"
  proof -
    have "bits_resize n b = (if ?old = ?new then if 0 < n then bzero_unused (b1\<lparr>bits := n\<rparr>) else Inr (b1\<lparr>bits := n\<rparr>)
      else if n = 0 then Inr bits_empty else if length (limbs b1) < min ?old ?new then Inl Out_Of_Bounds else bzero_unused ?b)"
      unfolding bits_resize_def Let_def bits_free_def ls_def using ne 1(1,2) by simp
    moreover have "b1\<lparr>bits := n\<rparr> = ?b" if "?old = ?new" using len that by (simp add: ls_def)
    moreover have "?old \<noteq> ?new" if "n = 0" using ne that bits_to_limbs_bound(3) [of n] bits_to_limbs_bound(3) [of "bits b"] by simp
    ultimately show ?thesis using len by simp
  qed
  moreover have "wf_bits bits_empty" "bit_list bits_empty = []" "bits bits_empty = 0"
    by (simp_all add: wf_bits_def bits_empty_def bits_to_limbs_def bit_list_def)
  ultimately show ?thesis by (cases "n = 0") auto
qed

lemma get_ok: "bits_get i b = (if i < bits b then Inr (bit_list b ! i) else Inl Assert_Failed)"
  by (simp add: bits_get_def ref_get_bit)

lemma limb_index: "wf_bits b \<Longrightarrow> i < bits b \<Longrightarrow> i div 64 < length (limbs b)"
  using bits_to_limbs_bound(1) [of "bits b"] by (simp add: wf_bits_def)

lemma set_ok:
  assumes "wf_bits b" "i < bits b"
  shows "\<exists>b'. bits_set i v b = Inr b' \<and> wf_bits b' \<and> bits b' = bits b \<and> bit_list b' = (bit_list b)[i := v]"
proof -
  let ?b = "b\<lparr>limbs := ref_set (limbs b) i v\<rparr>"
  have "bit_list ?b = (bit_list b)[i := v]"
    using limb_index [OF assms] assms(2) by (intro bit_listI) (auto simp: ref_set_bit nth_list_update)
  then show ?thesis using assms by (simp add: bits_set_def wf_bits_def ref_set_def Let_def)
qed

lemma append_ok:
  assumes "wf_bits b" "int (bits b) < INT_MAX"
  shows "\<exists>b'. bits_append v b = Inr b' \<and> wf_bits b' \<and> bit_list b' = bit_list b @ [v]"
proof -
  obtain b1 where 1: "bits_resize (bits b + 1) b = Inr b1" "wf_bits b1" "bits b1 = bits b + 1" "bit_list b1 = bit_list b @ [False]"
    using resize_ok [OF assms(1), of "bits b + 1"] by auto
  obtain b2 where "bits_set (bits b) v b1 = Inr b2" "wf_bits b2" "bit_list b2 = (bit_list b @ [False])[bits b := v]"
    using set_ok [OF 1(2), of "bits b" v] 1(3,4) by auto
  then show ?thesis using 1 assms(2) by (auto simp: bits_append_def list_update_append)
qed


text \<open>The bytes of a list of bits, the last one filled up with zeros.\<close>

definition bits_bin :: "bool list \<Rightarrow> bytes \<Rightarrow> bool" where
  "bits_bin xs bs \<longleftrightarrow> length bs = bits_to_bytes (length xs)
     \<and> (\<forall>i < 8 * length bs. bit (bs ! (i div 8)) (i mod 8) = (i < length xs \<and> xs ! i))"

lemma bits_binD:
  assumes "bits_bin xs bs" "j < length bs" "k < 8"
  shows "bit (bs ! j) k = (8 * j + k < length xs \<and> xs ! (8 * j + k))"
proof -
  have "(8 * j + k) div 8 = j" "(8 * j + k) mod 8 = k" "8 * j + k < 8 * length bs" using assms(2,3) by auto
  then show ?thesis using assms(1) unfolding bits_bin_def by auto
qed

lemma bits_bin_unique: "bits_bin xs bs \<Longrightarrow> bits_bin xs cs \<Longrightarrow> bs = cs"
proof (rule nth_equalityI)
  fix j assume *: "bits_bin xs bs" "bits_bin xs cs" "j < length bs"
  then have "j < length cs" by (simp add: bits_bin_def)
  with * show "bs ! j = cs ! j" by (intro bit_word_eqI) (simp add: bits_binD)
qed (simp add: bits_bin_def)

lemma to_bin_ok:
  assumes "wf_bits b"
  shows "\<exists>b' bs. bits_to_bin b = Inr (b', bs) \<and> wf_bits b' \<and> bits b' = bits b \<and> bit_list b' = bit_list b \<and> bits_bin (bit_list b) bs"
proof -
  obtain b' where b': "bzero_unused b = Inr b'" "bits b' = bits b" "wf_bits b'" "bit_list b' = bit_list b"
    "\<forall>i < 64 * length (limbs b). bit_at (limbs b') i = (i < bits b \<and> bit_at (limbs b) i)"
    using bzero_unused_ok [OF assms] by blast
  let ?bs = "take (bits_to_bytes (bits b)) (byte_view (limbs b'))"
  have len: "length (limbs b') = bits_to_limbs (bits b)" "length (limbs b) = bits_to_limbs (bits b)" using b'(2,3) assms by (simp_all add: wf_bits_def)
  have l: "length ?bs = bits_to_bytes (bits b)" using len bits_to_bytes_bound(3) [of "bits b"] by simp
  have "bit (?bs ! (i div 8)) (i mod 8) = (i < bits b \<and> bit_list b ! i)" if "i < 8 * bits_to_bytes (bits b)" for i
  proof -
    have j: "i div 8 < bits_to_bytes (bits b)" using that by linarith
    have i: "i < 64 * bits_to_limbs (bits b)" "i div 8 < 8 * bits_to_limbs (bits b)"
      using that j bits_to_bytes_bound(3) [of "bits b"] by linarith+
    have "bit (?bs ! (i div 8)) (i mod 8) = bit_at (limbs b') i"
      using byte_view_bit [of "i div 8" "limbs b'" "i mod 8"] i(2) j len(1) div_mod_64(3) [of i] by simp
    then show ?thesis using b'(5) i(1) len(2) by auto
  qed
  then have "bits_bin (bit_list b) ?bs" using l by (simp add: bits_bin_def)
  with b' show ?thesis by (auto simp: bits_to_bin_def)
qed

lemma put_view_bits:
  assumes "wf_bits b" "bits_bin ys bs" "off + length bs \<le> 8 * length (limbs b)" "8 * off + length ys \<le> bits b"
    "\<And>i. 8 * off + length ys \<le> i \<Longrightarrow> i < bits b \<Longrightarrow> i < 8 * (off + length bs) \<Longrightarrow> \<not> bit_list b ! i"
  shows "\<exists>ls. put_view off bs (limbs b) = Inr ls \<and> wf_bits (b\<lparr>limbs := ls\<rparr>)
    \<and> bit_list (b\<lparr>limbs := ls\<rparr>) = take (8 * off) (bit_list b) @ ys @ drop (8 * off + length ys) (bit_list b)"
proof -
  obtain ls where ls: "put_view off bs (limbs b) = Inr ls" "length ls = length (limbs b)"
    "\<forall>i < 64 * length (limbs b). bit_at ls i =
       (if 8 * off \<le> i \<and> i < 8 * (off + length bs) then bit (bs ! (i div 8 - off)) (i mod 8) else bit_at (limbs b) i)"
    using put_view_ok [OF assms(3)] by blast
  have lim: "bits b \<le> 64 * length (limbs b)" using assms(1) bits_to_limbs_bound(1) [of "bits b"] by (simp add: wf_bits_def)
  have ys: "length ys \<le> 8 * length bs" using assms(2) bits_to_bytes_bound(1) [of "length ys"] by (simp add: bits_bin_def)
  have "bit_list (b\<lparr>limbs := ls\<rparr>) = take (8 * off) (bit_list b) @ ys @ drop (8 * off + length ys) (bit_list b)"
  proof (rule bit_listI)
    fix i assume "i < bits (b\<lparr>limbs := ls\<rparr>)"
    then have i: "i < bits b" "i < 64 * length (limbs b)" using lim by simp_all
    show "bit_at (limbs (b\<lparr>limbs := ls\<rparr>)) i = (take (8 * off) (bit_list b) @ ys @ drop (8 * off + length ys) (bit_list b)) ! i"
    proof (cases "8 * off \<le> i \<and> i < 8 * (off + length bs)")
      case True
      then obtain k where k: "i = 8 * off + k" "k < 8 * length bs" by (metis le_add_diff_inverse distrib_left nat_add_left_cancel_less)
      then have "i div 8 - off = k div 8" "i mod 8 = k mod 8" by simp_all
      then have "bit_at ls i = (k < length ys \<and> ys ! k)" using ls(3) i True k(2) assms(2) by (simp add: bits_bin_def)
      then show ?thesis using k i assms(4) assms(5) [of i] True by (auto simp: nth_append min_def)
    next
      case False
      then show ?thesis using ls(3) i ys assms(4) by (auto simp: nth_append min_def)
    qed
  qed (use assms(4) in simp)
  then show ?thesis using ls assms(1) by (auto simp: wf_bits_def)
qed

lemma bits_to_bytes_exact: "n mod 8 = 0 \<Longrightarrow> 8 * bits_to_bytes n = n"
  using bits_to_bytes_bound [of n] by (simp add: bits_to_bytes_def) presburger

lemma from_bin_ok:
  "\<exists>b. bits_from_bin bs = Inr b \<and> wf_bits b \<and> bits b = 8 * length bs
     \<and> bit_list b = map (\<lambda>i. bit (bs ! (i div 8)) (i mod 8)) [0..<8 * length bs]"
proof (cases "bs = []")
  case True
  then show ?thesis using wf_new [of 0] by (auto simp: bits_from_bin_def bytes_to_bits_def)
next
  case False
  let ?n = "8 * length bs" let ?ys = "map (\<lambda>i. bit (bs ! (i div 8)) (i mod 8)) [0..<?n]"
  note w = wf_new [of ?n]
  have bin: "bits_bin ?ys bs" by (simp add: bits_bin_def bits_to_bytes_def)
  have room: "0 + length bs \<le> 8 * length (limbs (bits_new ?n))"
    using w(1,2) bits_to_limbs_bound(1) [of ?n] by (simp add: wf_bits_def)
  obtain ls where "put_view 0 bs (limbs (bits_new ?n)) = Inr ls" "wf_bits ((bits_new ?n)\<lparr>limbs := ls\<rparr>)"
    "bit_list ((bits_new ?n)\<lparr>limbs := ls\<rparr>) = ?ys"
    using put_view_bits [OF w(1) bin room] w(2,3) by auto
  with False w(2) show ?thesis by (simp add: bits_from_bin_def bytes_to_bits_def)
qed

lemma copy_bits_ok:
  assumes "wf_bits b" "n1 + bits src \<le> bits b" "k \<le> bits src"
  shows "\<exists>b'. copy_bits n1 src [bits src - k..<bits src] b = Inr b' \<and> wf_bits b' \<and> bits b' = bits b
    \<and> (\<forall>i < bits b. bit_list b' ! i = (if n1 + (bits src - k) \<le> i \<and> i < n1 + bits src then bit_list src ! (i - n1) else bit_list b ! i))"
  using assms
proof (induction k arbitrary: b)
  case 0
  then show ?case by auto
next
  case (Suc k)
  let ?j = "bits src - Suc k"
  have j: "?j < bits src" "bits src - k = Suc ?j" using Suc.prems(3) by auto
  then have upt: "[?j..<bits src] = ?j # [bits src - k..<bits src]" using upt_conv_Cons by simp
  obtain b1 where 1: "bits_set (n1 + ?j) (bit_list src ! ?j) b = Inr b1" "wf_bits b1" "bits b1 = bits b"
    "bit_list b1 = (bit_list b)[n1 + ?j := bit_list src ! ?j]"
    using set_ok [OF Suc.prems(1), of "n1 + ?j"] Suc.prems(2) j(1) by auto
  obtain b2 where 2: "copy_bits n1 src [bits src - k..<bits src] b1 = Inr b2" "wf_bits b2" "bits b2 = bits b"
    "\<forall>i < bits b. bit_list b2 ! i = (if n1 + (bits src - k) \<le> i \<and> i < n1 + bits src then bit_list src ! (i - n1) else bit_list b1 ! i)"
    using Suc.IH [OF 1(2)] 1(3) Suc.prems(2,3) by auto
  have "bit_list b2 ! i = (if n1 + ?j \<le> i \<and> i < n1 + bits src then bit_list src ! (i - n1) else bit_list b ! i)" if "i < bits b" for i
    using 2(4) that 1(4) j by (cases "i = n1 + ?j") (auto simp: nth_list_update)
  then show ?case using 1(1) 2 upt j(1) by (simp add: get_ok)
qed

lemma copy_bits_all:
  assumes "wf_bits b" "bits b = n1 + bits src"
  shows "\<exists>b'. copy_bits n1 src [0..<bits src] b = Inr b' \<and> wf_bits b' \<and> bits b' = bits b
    \<and> bit_list b' = take n1 (bit_list b) @ bit_list src"
proof -
  obtain b' where b': "copy_bits n1 src [0..<bits src] b = Inr b'" "wf_bits b'" "bits b' = bits b"
    "\<forall>i < bits b. bit_list b' ! i = (if n1 \<le> i \<and> i < n1 + bits src then bit_list src ! (i - n1) else bit_list b ! i)"
    using copy_bits_ok [OF assms(1), of n1 src "bits src"] assms(2) by auto
  moreover have "bit_list b' = take n1 (bit_list b) @ bit_list src"
    by (rule nth_equalityI) (use b'(3,4) assms(2) in \<open>auto simp: nth_append min_def\<close>)
  ultimately show ?thesis by blast
qed

lemma bytes_room:
  assumes "wf_bits b" "bits b = n1 + n2" "n1 mod 8 = 0"
  shows "bits_to_bytes n1 + bits_to_bytes n2 \<le> 8 * length (limbs b)"
proof -
  have "bits_to_bytes n1 + bits_to_bytes n2 = bits_to_bytes (n1 + n2)"
    using bits_to_bytes_exact [OF assms(3)] by (simp add: bits_to_bytes_def)
  then show ?thesis using assms(1,2) bits_to_bytes_bound(3) [of "n1 + n2"] by (simp add: wf_bits_def)
qed

lemma append_bits_ok:
  assumes "wf_bits b" "wf_bits src" "int (bits b + bits src) \<le> INT_MAX"
  shows "\<exists>b' src'. bits_append_bits src b = Inr (b', src') \<and> wf_bits b' \<and> bit_list b' = bit_list b @ bit_list src
    \<and> wf_bits src' \<and> bit_list src' = bit_list src"
proof -
  let ?n1 = "bits b" let ?n2 = "bits src"
  obtain b1 m1 where 1: "bits_to_bin b = Inr (b1, m1)" "wf_bits b1" "bits b1 = ?n1" "bit_list b1 = bit_list b" "bits_bin (bit_list b) m1"
    using to_bin_ok [OF assms(1)] by blast
  obtain s1 m2 where 2: "bits_to_bin src = Inr (s1, m2)" "wf_bits s1" "bits s1 = ?n2" "bit_list s1 = bit_list src" "bits_bin (bit_list src) m2"
    using to_bin_ok [OF assms(2)] by blast
  obtain b3 where 3: "bits_resize (?n1 + ?n2) b1 = Inr b3" "wf_bits b3" "bits b3 = ?n1 + ?n2" "bit_list b3 = bit_list b @ replicate ?n2 False"
    using resize_ok [OF 1(2), of "?n1 + ?n2"] 1(3,4) by auto
  have ok: "int ?n2 \<le> INT_MAX - int ?n1" using assms(3) by simp
  show ?thesis
  proof (cases "?n1 mod 8 = 0")
    case True
    have len: "length m1 = bits_to_bytes ?n1" "length m2 = bits_to_bytes ?n2" "8 * length m1 = ?n1"
      using 1(5) 2(5) bits_to_bytes_exact [OF True] by (simp_all add: bits_bin_def)
    obtain ls where "put_view (length m1) m2 (limbs b3) = Inr ls" "wf_bits (b3\<lparr>limbs := ls\<rparr>)"
      "bit_list (b3\<lparr>limbs := ls\<rparr>) = bit_list b @ bit_list src"
      using put_view_bits [OF 3(2) 2(5), of "length m1"] bytes_room [OF 3(2,3) True] len 3(3,4) by auto
    then show ?thesis using True 1 2 3 ok by (simp add: bits_append_bits_def Let_def)
  next
    case False
    obtain b4 where "copy_bits ?n1 s1 [0..<bits s1] b3 = Inr b4" "wf_bits b4" "bit_list b4 = bit_list b @ bit_list src"
      using copy_bits_all [OF 3(2), of ?n1 s1] 2(3,4) 3(3,4) by auto
    then show ?thesis using False 1 2 3 ok by (simp add: bits_append_bits_def Let_def)
  qed
qed


text \<open>Appending a vector to itself: the bits that are read are not the bits that are written.\<close>

lemma copy_own_bits_eq:
  "wf_bits b \<Longrightarrow> bits b = n1 + n1 \<Longrightarrow> bits src = n1 \<Longrightarrow> bit_list src = take n1 (bit_list b) \<Longrightarrow> set js \<subseteq> {..<n1} \<Longrightarrow>
     copy_own_bits n1 js b = copy_bits n1 src js b"
proof (induction js arbitrary: b)
  case (Cons i js)
  then have i: "i < n1" by simp
  have get: "bits_get i b = bits_get i src" using Cons.prems i by (simp add: get_ok)
  obtain b1 where b1: "bits_set (n1 + i) (bit_list src ! i) b = Inr b1" "wf_bits b1" "bits b1 = bits b"
    "bit_list b1 = (bit_list b)[n1 + i := bit_list src ! i]"
    using set_ok [OF Cons.prems(1), of "n1 + i"] Cons.prems(2) i by auto
  then show ?case using Cons.IH [OF b1(2)] Cons.prems i get by (simp add: get_ok)
qed simp

lemma append_self_ok:
  assumes "wf_bits b" "int (bits b + bits b) \<le> INT_MAX"
  shows "\<exists>b'. bits_append_self b = Inr b' \<and> wf_bits b' \<and> bit_list b' = bit_list b @ bit_list b"
proof -
  let ?n = "bits b"
  obtain b1 where 1: "bits_resize (?n + ?n) b = Inr b1" "wf_bits b1" "bits b1 = ?n + ?n" "bit_list b1 = bit_list b @ replicate ?n False"
    using resize_ok [OF assms(1), of "?n + ?n"] by auto
  have ok: "int ?n \<le> INT_MAX - int ?n" using assms(2) by simp
  show ?thesis
  proof (cases "?n mod 8 = 0")
    case True
    let ?m = "take (bits_to_bytes ?n) (byte_view (limbs b1))"
    note ex = bits_to_bytes_exact [OF True] and room = bytes_room [OF 1(2,3) True]
    have len: "length ?m = bits_to_bytes ?n" using room by simp
    have "bit (?m ! (i div 8)) (i mod 8) = bit_list b ! i" if "i < ?n" for i
    proof -
      have "i div 8 < bits_to_bytes ?n" using that ex by linarith
      then have "bit (?m ! (i div 8)) (i mod 8) = bit_at (limbs b1) i"
        using byte_view_bit [of "i div 8" "limbs b1" "i mod 8"] room div_mod_64(3) [of i] by simp
      also have "\<dots> = bit_list b1 ! i" using that 1(3) by simp
      finally show ?thesis using that 1(4) by (simp add: nth_append)
    qed
    then have bin: "bits_bin (bit_list b) ?m" using len ex by (simp add: bits_bin_def)
    obtain ls where "put_view (bits_to_bytes ?n) ?m (limbs b1) = Inr ls" "wf_bits (b1\<lparr>limbs := ls\<rparr>)"
      "bit_list (b1\<lparr>limbs := ls\<rparr>) = bit_list b @ bit_list b"
      using put_view_bits [OF 1(2) bin, of "bits_to_bytes ?n"] room len ex 1(3,4) by auto
    then show ?thesis using True 1 ok by (simp add: bits_append_self_def Let_def)
  next
    case False
    let ?src = "b1\<lparr>bits := ?n\<rparr>"
    have src: "bit_list ?src = take ?n (bit_list b1)" "bits ?src = ?n" using 1(3) by (auto simp: bit_list_def take_map)
    have "copy_own_bits ?n [0..<?n] b1 = copy_bits ?n ?src [0..<?n] b1"
      using copy_own_bits_eq [OF 1(2,3) src(2,1), of "[0..<?n]"] by (simp add: lessThan_atLeast0)
    moreover obtain b2 where "copy_bits ?n ?src [0..<bits ?src] b1 = Inr b2" "wf_bits b2" "bit_list b2 = bit_list b @ bit_list b"
      using copy_bits_all [OF 1(2), of ?n ?src] 1(3,4) src by auto
    ultimately show ?thesis using False 1 ok src(2) by (simp add: bits_append_self_def Let_def)
  qed
qed

lemma concat_ok:
  assumes "wf_bits b" "wf_bits src" "int (bits b + bits src) \<le> INT_MAX"
  shows "\<exists>dst b' src'. bits_concat b src = Inr (dst, b', src') \<and> wf_bits dst \<and> bit_list dst = bit_list b @ bit_list src
    \<and> wf_bits b' \<and> bit_list b' = bit_list b \<and> wf_bits src' \<and> bit_list src' = bit_list src"
proof -
  let ?n1 = "bits b" let ?n2 = "bits src"
  obtain d0 m0 where 0: "bits_to_bin (bits_new (?n1 + ?n2)) = Inr (d0, m0)" "wf_bits d0" "bits d0 = ?n1 + ?n2" "bit_list d0 = replicate (?n1 + ?n2) False"
    using to_bin_ok [OF wf_new(1), of "?n1 + ?n2"] wf_new(2,3) by auto
  obtain b1 m1 where 1: "bits_to_bin b = Inr (b1, m1)" "wf_bits b1" "bit_list b1 = bit_list b" "bits_bin (bit_list b) m1"
    using to_bin_ok [OF assms(1)] by blast
  obtain s1 m2 where 2: "bits_to_bin src = Inr (s1, m2)" "wf_bits s1" "bits s1 = ?n2" "bit_list s1 = bit_list src" "bits_bin (bit_list src) m2"
    using to_bin_ok [OF assms(2)] by blast
  have l: "length m1 = bits_to_bytes ?n1" "length m2 = bits_to_bytes ?n2" using 1(4) 2(5) by (simp_all add: bits_bin_def)
  have "bits_to_limbs ?n1 \<le> bits_to_limbs (?n1 + ?n2)" by (simp add: bits_to_limbs_def div_le_mono)
  then have "0 + length m1 \<le> 8 * length (limbs d0)"
    using l(1) 0(2,3) bits_to_bytes_bound(3) [of ?n1] by (simp add: wf_bits_def)
  then obtain ls where ls: "put_view 0 m1 (limbs d0) = Inr ls" "wf_bits (d0\<lparr>limbs := ls\<rparr>)"
    "bit_list (d0\<lparr>limbs := ls\<rparr>) = bit_list b @ replicate ?n2 False"
    using put_view_bits [OF 0(2) 1(4), of 0] 0(3,4) by auto
  let ?d1 = "d0\<lparr>limbs := ls\<rparr>"
  have ok: "int ?n2 \<le> INT_MAX - int ?n1" using assms(3) by simp
  have d1: "bits ?d1 = ?n1 + ?n2" using 0(3) by simp
  show ?thesis
  proof (cases "?n1 mod 8 = 0")
    case True
    have "8 * length m1 = ?n1" using l bits_to_bytes_exact [OF True] by simp
    then obtain ls2 where "put_view (length m1) m2 (limbs ?d1) = Inr ls2" "wf_bits (?d1\<lparr>limbs := ls2\<rparr>)"
      "bit_list (?d1\<lparr>limbs := ls2\<rparr>) = bit_list b @ bit_list src"
      using put_view_bits [OF ls(2) 2(5), of "length m1"] bytes_room [OF ls(2) d1 True] l ls(3) d1 by auto
    then show ?thesis using True 0 1 2 ls(1) ok by (simp add: bits_concat_def Let_def)
  next
    case False
    obtain d2 where "copy_bits ?n1 s1 [0..<bits s1] ?d1 = Inr d2" "wf_bits d2" "bit_list d2 = bit_list b @ bit_list src"
      using copy_bits_all [OF ls(2), of ?n1 s1] 2(3,4) ls(3) d1 by auto
    then show ?thesis using False 0 1 2 ls(1) ok by (simp add: bits_concat_def Let_def)
  qed
qed

lemma xor_limbs_bit:
  "length ls = length ks \<Longrightarrow> i div 64 < length ls \<Longrightarrow> bit_at (map2 xor ls ks) i = (bit_at ls i \<noteq> bit_at ks i)"
  by (simp add: bit_at_def bit_xor_iff)

lemma xor_assign_ok:
  assumes "wf_bits b" "wf_bits src" "bits src = bits b"
  shows "\<exists>b'. bits_xor_assign src b = Inr b' \<and> wf_bits b' \<and> bit_list b' = map2 (\<noteq>) (bit_list b) (bit_list src)"
proof -
  let ?b = "b\<lparr>limbs := map2 xor (limbs b) (limbs src)\<rparr>"
  have len: "length (limbs src) = length (limbs b)" "length (limbs b) = bits_to_limbs (bits b)" using assms by (simp_all add: wf_bits_def)
  have "bit_list ?b = map2 (\<noteq>) (bit_list b) (bit_list src)"
    using limb_index [OF assms(1)] assms(3) len by (intro bit_listI) (simp_all add: xor_limbs_bit)
  then show ?thesis using assms len by (simp add: bits_xor_assign_def Let_def wf_bits_def)
qed

lemma xor_ok:
  assumes "wf_bits a" "wf_bits b" "bits a = bits b"
  shows "\<exists>r. bits_xor fill a b = Inr r \<and> wf_bits r \<and> bit_list r = map2 (\<noteq>) (bit_list a) (bit_list b)"
proof -
  have e: "wf_bits bits_empty" by (simp add: wf_bits_def bits_empty_def bits_to_limbs_def)
  note al = wf_alloc [OF e, of fill "bits a"]
  let ?r = "(bits_alloc fill (bits a) bits_empty)\<lparr>limbs := map2 xor (limbs a) (limbs b)\<rparr>"
  have len: "length (limbs b) = length (limbs a)" "length (limbs a) = bits_to_limbs (bits a)" using assms by (simp_all add: wf_bits_def)
  have "bit_list ?r = map2 (\<noteq>) (bit_list a) (bit_list b)"
    using limb_index [OF assms(1)] assms(3) len al by (intro bit_listI) (simp_all add: xor_limbs_bit)
  then show ?thesis using assms len al by (simp add: bits_xor_def Let_def wf_bits_def)
qed

lemma copy_from_ok:
  assumes "wf_bits b" "wf_bits src"
  shows "\<exists>b'. bits_copy_from fill src b = Inr b' \<and> wf_bits b' \<and> bit_list b' = bit_list src"
proof (cases "bits src = 0")
  case True
  then show ?thesis by (simp add: bits_copy_from_def bits_free_def bits_empty_def wf_bits_def bits_to_limbs_def bit_list_def)
next
  case False
  note al = wf_alloc [OF assms(1), of fill "bits src"]
  have n: "0 < bits_to_limbs (bits src)" using False bits_to_limbs_bound(3) [of "bits src"] by simp
  have "limbs (bits_alloc fill (bits src) b) \<noteq> []" "limbs src \<noteq> []"
    using n al assms(2) by (metis length_0_conv not_less_zero wf_bits_def)+
  then show ?thesis using False al assms(2) n
    by (auto simp: bits_copy_from_def Let_def wf_bits_def bit_list_def)
qed


section \<open>Serialization\<close>

lemma bits_bin_exists: "\<exists>bs. bits_bin xs bs"
proof -
  let ?b = "\<lambda>j. fold or (map (\<lambda>k. if 8 * j + k < length xs \<and> xs ! (8 * j + k) then push_bit k 1 else 0) [0..<8]) (0 :: u64)"
  let ?bs = "map (\<lambda>j. ucast (?b j)) [0..<bits_to_bytes (length xs)] :: bytes"
  have "bit (?b j) k = (8 * j + k < length xs \<and> xs ! (8 * j + k))" if "k < 8" for j k
    using that by (auto simp: bit_fold_or bit_exp_iff split: if_splits intro!: bexI [where x = "2 ^ k"])
  then have "bits_bin xs ?bs" using div_mod_64(3)
    by (auto simp: bits_bin_def bit_unsigned_iff)
  then show ?thesis by blast
qed

lemma convert_bits_write:
  assumes "wf_bits b" "bits b \<le> MAX_CONVERT_LEN" "bits_bin (bit_list b) bs" "room (write_len (word_of_nat (bits b)) @ bs) c"
  shows "\<exists>b'. convert_bits fill b c = Inr (b', emit (write_len (word_of_nat (bits b)) @ bs) c) \<and> wf_bits b' \<and> bit_list b' = bit_list b"
proof -
  let ?w = "write_len (word_of_nat (bits b))"
  note r = room_appendD [OF assms(4)] and n = len_prefix_small [OF assms(2)]
  have len: "convert_len (word_of_nat (bits b)) c = Inr (word_of_nat (bits b), emit ?w c)"
    using c_len.conv_write [OF _ r(1)] n assms(2) by simp
  obtain b' bs' where b': "bzero_unused b = Inr b'" "wf_bits b'" "bits b' = bits b" "bit_list b' = bit_list b"
    "bs' = take (bits_to_bytes (bits b)) (byte_view (limbs b'))" "bits_bin (bit_list b) bs'"
    using to_bin_ok [OF assms(1)] by (auto simp: bits_to_bin_def res_simps)
  have bs: "bs' = bs" by (rule bits_bin_unique [OF b'(6) assms(3)])
  have size: "length bs = bits_to_bytes (bits b)" using assms(3) by (simp add: bits_bin_def)
  have out: "write_raw bs (int (length bs)) (emit ?w c) = Inr (bs, emit (?w @ bs) c)"
    using write_raw_room [OF r(2)] emit_append [OF assms(4)] by simp
  show ?thesis
  proof (cases "length bs \<noteq> 0 \<and> cpointer (emit ?w c) \<noteq> None")
    case True
    then show ?thesis using len n out b' bs size r(3) by (simp add: convert_bits_def)
  next
    case False
    have "forward (int (length bs)) (emit ?w c) = Inr (emit (?w @ bs) c)"
    proof (cases "length bs = 0")
      case True
      then show ?thesis using r(2) by (auto simp: forward_def room_def emit_def)
    next
      case nz: False
      then have "put_bytes bs (emit ?w c) = Inr (emit ?w c)" using False by (simp add: put_bytes_def)
      then show ?thesis using out by (simp add: write_raw_def res_simps)
    qed
    then show ?thesis using False len n size r(3) assms(1) by (auto simp: convert_bits_def)
  qed
qed

lemma convert_bits_read:
  assumes "wf_bits d" "length xs \<le> MAX_CONVERT_LEN" "bits_bin xs bs" "wf_reader c" "\<not> is_error c"
    "unread c = write_len (word_of_nat (length xs)) @ bs @ r"
  shows "\<exists>b. convert_bits fill d c = Inr (b, advance (length (write_len (word_of_nat (length xs)) @ bs)) c) \<and> wf_bits b \<and> bit_list b = xs"
proof -
  let ?w = "write_len (word_of_nat (length xs))" let ?c = "advance (length ?w) c"
  note n = len_prefix_small [OF assms(2)]
  have len: "convert_len (word_of_nat (bits d)) c = Inr (word_of_nat (length xs), ?c)"
    using c_len.conv_read [OF _ assms(4,5,6)] n assms(2) by simp
  have c: "wf_reader ?c" "unread ?c = bs @ r" using assms(4,6) by (simp_all add: wf_reader_advance unread_advance)
  have size: "length bs = bits_to_bytes (length xs)" using assms(3) by (simp add: bits_bin_def)
  have rd: "at_least (int (length bs)) ?c" "get_bytes (length bs) ?c = Inr bs" "forward (int (length bs)) ?c = Inr (advance (length bs) ?c)"
    using c at_least_unread [OF c(1)] get_bytes_unread [OF c(1)] forward_unread [OF c(1)] by simp_all
  let ?b = "bits_alloc fill (length xs) d"
  have al: "wf_bits ?b" "bits ?b = length xs" using wf_alloc [OF assms(1)] by simp_all
  have "\<exists>b. (if length bs \<noteq> 0 then bind_res (put_view 0 bs (limbs ?b)) (\<lambda>ls. Inr (?b\<lparr>limbs := ls\<rparr>)) else Inr ?b) = Inr b
      \<and> wf_bits b \<and> bit_list b = xs"
  proof (cases "length bs = 0")
    case True
    then have "xs = []" using size bits_to_bytes_bound(1) [of "length xs"] by simp
    then show ?thesis using True al by (simp add: bit_list_def)
  next
    case False
    have "0 + length bs \<le> 8 * length (limbs ?b)" using size al bits_to_bytes_bound(3) [of "length xs"] by (simp add: wf_bits_def)
    from put_view_bits [OF al(1) assms(3) this] al False show ?thesis by auto
  qed
  then show ?thesis
    using len n size rd wf_reader_fields(1) [OF assms(4)] by (auto simp: convert_bits_def Let_def)
qed

section \<open>Raw bytes\<close>

lemma raw_set_get:
  assumes "i div 8 < length data"
  shows "raw_get (raw_set data i v) j = (if j = i then v else raw_get data j)"
proof (cases "j div 8 = i div 8")
  case True
  then have "j = i \<longleftrightarrow> j mod 8 = i mod 8" by (metis div_mult_mod_eq)
  moreover have "j mod 8 < 8" by simp
  ultimately show ?thesis using True assms
    by (auto simp: raw_get_def raw_set_def raw_set_true_def raw_set_false_def and_one_eq bit_iff_odd_drop_bit [symmetric]
      odd_iff_mod_2_eq_one [symmetric] bit_or_iff bit_and_iff bit_not_iff bit_exp_iff)
next
  case False
  then show ?thesis by (auto simp: raw_get_def raw_set_def raw_set_true_def raw_set_false_def)
qed

end
