(* ===== verification/Buf_Fixed.thy ===== *)
theory Buf_Fixed
  imports Bits_Rep
begin

text \<open>
  The buffers of fixed size \<^verbatim>\<open>buf128_t\<close> and \<^verbatim>\<open>buf256_t\<close> (\<^verbatim>\<open>core/buf128.h\<close>, \<^verbatim>\<open>core/buf128.cpp\<close>, \<^verbatim>\<open>core/buf256.h\<close>,
  \<^verbatim>\<open>core/buf256.cpp\<close>): 64-bit limbs in pairs, and pairs of such pairs. The primitives \<^verbatim>\<open>u128_...\<close> are those of the portable
  branch, bytes are little-endian. Bit numbers are \<^verbatim>\<open>int\<close>, shift distances are \<^verbatim>\<open>unsigned\<close>, both checked by \<^verbatim>\<open>cb_assert\<close>. The
  carry-less product is modelled in both of its branches, the loop and the one over the instruction of the processor, which is a
  parameter. The locale \<open>fixed_buf\<close> states what a buffer of a width promises: its operations are those of words of that width.
\<close>

section \<open>Limb pairs\<close>

record u128_t =
  low :: u64
  high :: u64

definition u128_lo :: "u128_t \<Rightarrow> u64" where "u128_lo x = low x"

definition u128_hi :: "u128_t \<Rightarrow> u64" where "u128_hi x = high x"

definition u128_make :: "u64 \<Rightarrow> u64 \<Rightarrow> u128_t" where "u128_make l h = \<lparr>low = l, high = h\<rparr>"

definition u128_zero :: u128_t where "u128_zero = u128_make 0 0"

text \<open>The 16 bytes at a pointer.\<close>

definition u128_load :: "bytes \<Rightarrow> u128_t" where
  "u128_load p = \<lparr>low = bytes_limb (take 8 p), high = bytes_limb (take 8 (drop 8 p))\<rparr>"

definition u128_save :: "u128_t \<Rightarrow> bytes" where
  "u128_save x = limb_bytes (low x) @ limb_bytes (high x)"

definition u128_lsb :: "u128_t \<Rightarrow> bool" where "u128_lsb x = (and (u128_lo x) 1 \<noteq> 0)"

definition u128_msb :: "u128_t \<Rightarrow> bool" where "u128_msb x = (sint (u128_hi x) < 0)"

text \<open>\<^verbatim>\<open>-int64_t(x)\<close>: all bits of the limb.\<close>

definition bool_mask :: "bool \<Rightarrow> u64" where "bool_mask x = - (if x then 1 else 0)"

definition u128_mask :: "bool \<Rightarrow> u128_t" where "u128_mask x = u128_make (bool_mask x) (bool_mask x)"

definition u128_equ :: "u128_t \<Rightarrow> u128_t \<Rightarrow> bool" where
  "u128_equ x y = (or (xor (u128_lo x) (u128_lo y)) (xor (u128_hi x) (u128_hi y)) = 0)"

definition u128_xor :: "u128_t \<Rightarrow> u128_t \<Rightarrow> u128_t" where
  "u128_xor x y = u128_make (xor (u128_lo x) (u128_lo y)) (xor (u128_hi x) (u128_hi y))"

definition u128_and :: "u128_t \<Rightarrow> u128_t \<Rightarrow> u128_t" where
  "u128_and x y = u128_make (and (u128_lo x) (u128_lo y)) (and (u128_hi x) (u128_hi y))"

definition u128_and_bool :: "u128_t \<Rightarrow> bool \<Rightarrow> u128_t" where
  "u128_and_bool x y = u128_make (and (u128_lo x) (bool_mask y)) (and (u128_hi x) (bool_mask y))"

definition u128_or :: "u128_t \<Rightarrow> u128_t \<Rightarrow> u128_t" where
  "u128_or x y = u128_make (or (u128_lo x) (u128_lo y)) (or (u128_hi x) (u128_hi y))"

definition u128_not :: "u128_t \<Rightarrow> u128_t" where
  "u128_not x = u128_make (not (u128_lo x)) (not (u128_hi x))"

definition u128_convert :: "u128_t conv" where "u128_convert = convert_fixed 16 u128_save u128_load"

section \<open>The 128-bit buffer\<close>

record buf128_t =
  val128 :: u128_t

definition b128_u128 :: "u128_t \<Rightarrow> buf128_t" where "b128_u128 v = \<lparr>val128 = v\<rparr>"

definition b128_zero :: buf128_t where "b128_zero = b128_u128 u128_zero"

definition b128_is_null :: "buf128_t \<Rightarrow> bool" where "b128_is_null b = u128_equ (val128 b) u128_zero"

definition b128_assign_null :: "buf128_t \<Rightarrow> buf128_t" where "b128_assign_null b = b\<lparr>val128 := u128_zero\<rparr>"

definition b128_lo :: "buf128_t \<Rightarrow> u64" where "b128_lo b = u128_lo (val128 b)"

definition b128_hi :: "buf128_t \<Rightarrow> u64" where "b128_hi b = u128_hi (val128 b)"

definition b128_load :: "bytes \<Rightarrow> buf128_t" where "b128_load src = b128_u128 (u128_load src)"

definition b128_save :: "buf128_t \<Rightarrow> bytes" where "b128_save b = u128_save (val128 b)"

definition b128_make :: "u64 \<Rightarrow> u64 \<Rightarrow> buf128_t" where "b128_make l h = b128_u128 (u128_make l h)"

definition b128_mask :: "bool \<Rightarrow> buf128_t" where "b128_mask x = b128_u128 (u128_mask x)"

definition b128_load_mem :: "bytes \<Rightarrow> buf128_t res" where
  "b128_load_mem src = bind_res (cb_assert (length src = 16)) (\<lambda>_. Inr (b128_u128 (u128_load src)))"

definition b128_assign_mem :: "bytes \<Rightarrow> buf128_t \<Rightarrow> buf128_t res" where
  "b128_assign_mem src b = bind_res (cb_assert (length src = 16)) (\<lambda>_. Inr (b128_load src))"

definition b128_from_bit_index :: "int \<Rightarrow> buf128_t res" where
  "b128_from_bit_index bit_index =
     bind_res (cb_assert (0 \<le> bit_index \<and> bit_index < 128)) (\<lambda>_.
       if bit_index < 64 then Inr (b128_make (push_bit (nat bit_index) 1) 0)
       else Inr (b128_make 0 (push_bit (nat (bit_index - 64)) 1)))"

definition b128_get_bit :: "int \<Rightarrow> buf128_t \<Rightarrow> bool res" where
  "b128_get_bit index b =
     bind_res (cb_assert (0 \<le> index \<and> index < 128)) (\<lambda>_.
       let n = index div 64; index = index mod 64; limb = (if n = 0 then b128_lo b else b128_hi b)
       in Inr (and (drop_bit (nat index) limb) 1 \<noteq> 0))"

definition b128_set_bit :: "int \<Rightarrow> bool \<Rightarrow> buf128_t \<Rightarrow> buf128_t res" where
  "b128_set_bit index v b =
     bind_res (cb_assert (0 \<le> index \<and> index < 128)) (\<lambda>_.
       let l = b128_lo b; h = b128_hi b
       in if index < 64
          then Inr (b128_make (or (and l (not (push_bit (nat index) 1))) (push_bit (nat index) (if v then 1 else 0))) h)
          else Inr (b128_make l (or (and h (not (push_bit (nat (index - 64)) 1)))
                                    (push_bit (nat (index - 64)) (if v then 1 else 0)))))"

definition popcount :: "u64 \<Rightarrow> nat" where "popcount w = length (List.filter (bit w) [0..<64])"

definition b128_get_bits_count :: "buf128_t \<Rightarrow> nat" where
  "b128_get_bits_count b = popcount (b128_lo b) + popcount (b128_hi b)"

definition b128_lsb :: "buf128_t \<Rightarrow> bool" where "b128_lsb b = u128_lsb (val128 b)"

definition b128_msb :: "buf128_t \<Rightarrow> bool" where "b128_msb b = u128_msb (val128 b)"

definition b128_equ :: "buf128_t \<Rightarrow> buf128_t \<Rightarrow> bool" where "b128_equ b src = u128_equ (val128 b) (val128 src)"

definition b128_not :: "buf128_t \<Rightarrow> buf128_t" where "b128_not b = b128_u128 (u128_not (val128 b))"

definition b128_xor :: "buf128_t \<Rightarrow> buf128_t \<Rightarrow> buf128_t" where
  "b128_xor b src = b128_u128 (u128_xor (val128 b) (val128 src))"

definition b128_or :: "buf128_t \<Rightarrow> buf128_t \<Rightarrow> buf128_t" where
  "b128_or b src = b128_u128 (u128_or (val128 b) (val128 src))"

definition b128_and :: "buf128_t \<Rightarrow> buf128_t \<Rightarrow> buf128_t" where
  "b128_and b src = b128_u128 (u128_and (val128 b) (val128 src))"

definition b128_and_bool :: "buf128_t \<Rightarrow> bool \<Rightarrow> buf128_t" where
  "b128_and_bool b c = b128_and b (b128_mask c)"

definition b128_convert :: "buf128_t conv" where "b128_convert = convert_fixed 16 b128_save b128_load"

text \<open>\<^verbatim>\<open>std::swap\<close> of two bytes of an array.\<close>

definition swap_bytes :: "nat \<times> nat \<Rightarrow> bytes \<Rightarrow> bytes" where
  "swap_bytes = (\<lambda>(i, j) t. t[i := t ! j, j := t ! i])"

definition b128_reverse_bytes :: "buf128_t \<Rightarrow> buf128_t" where
  "b128_reverse_bytes b =
     b128_load (fold swap_bytes [(0, 15), (1, 14), (2, 13), (3, 12), (4, 11), (5, 10), (6, 9), (7, 8)] (b128_save b))"

definition b128_shl :: "nat \<Rightarrow> buf128_t \<Rightarrow> buf128_t res" where
  "b128_shl n b =
     bind_res (cb_assert (n < 128)) (\<lambda>_.
       if n = 0 then Inr b
       else let l = b128_lo b; r = b128_hi b
            in if n = 64 then Inr (b128_make 0 l)
               else if 64 < n then Inr (b128_make 0 (push_bit (n - 64) l))
               else Inr (b128_make (push_bit n l) (or (push_bit n r) (drop_bit (64 - n) l))))"

definition b128_shr :: "nat \<Rightarrow> buf128_t \<Rightarrow> buf128_t res" where
  "b128_shr n b =
     bind_res (cb_assert (n < 128)) (\<lambda>_.
       if n = 0 then Inr b
       else let l = b128_lo b; r = b128_hi b
            in if n = 64 then Inr (b128_make r 0)
               else if 64 < n then Inr (b128_make (drop_bit (n - 64) r) 0)
               else Inr (b128_make (or (drop_bit n l) (push_bit (64 - n) r)) (drop_bit n r)))"

text \<open>\<^verbatim>\<open>operator[]\<close>, as a value and as the target of an assignment.\<close>

definition b128_index :: "int \<Rightarrow> buf128_t \<Rightarrow> u8 res" where
  "b128_index index b = bind_res (cb_assert (0 \<le> index \<and> index < 16)) (\<lambda>_. Inr (b128_save b ! nat index))"

definition b128_index_set :: "int \<Rightarrow> u8 \<Rightarrow> buf128_t \<Rightarrow> buf128_t res" where
  "b128_index_set index v b =
     bind_res (cb_assert (0 \<le> index \<and> index < 16)) (\<lambda>_. Inr (b128_load ((b128_save b)[nat index := v])))"

section \<open>The 256-bit buffer\<close>

record buf256_t =
  lo256 :: buf128_t
  hi256 :: buf128_t

definition b256_make :: "buf128_t \<Rightarrow> buf128_t \<Rightarrow> buf256_t" where "b256_make l h = \<lparr>lo256 = l, hi256 = h\<rparr>"

definition b256_zero :: buf256_t where "b256_zero = b256_make b128_zero b128_zero"

definition b256_load :: "bytes \<Rightarrow> buf256_t" where
  "b256_load src = \<lparr>lo256 = b128_load (take 16 src), hi256 = b128_load (drop 16 src)\<rparr>"

definition b256_save :: "buf256_t \<Rightarrow> bytes" where
  "b256_save b = b128_save (lo256 b) @ b128_save (hi256 b)"

definition b256_load_mem :: "bytes \<Rightarrow> buf256_t res" where
  "b256_load_mem src = bind_res (cb_assert (length src = 32)) (\<lambda>_. Inr (b256_load src))"

definition b256_assign_mem :: "bytes \<Rightarrow> buf256_t \<Rightarrow> buf256_t res" where
  "b256_assign_mem src b = bind_res (cb_assert (length src = 32)) (\<lambda>_. Inr (b256_load src))"

definition b256_assign_null :: "buf256_t \<Rightarrow> buf256_t" where
  "b256_assign_null b = b\<lparr>lo256 := b128_zero, hi256 := b128_zero\<rparr>"

definition b256_get_bit :: "int \<Rightarrow> buf256_t \<Rightarrow> bool res" where
  "b256_get_bit index b =
     bind_res (cb_assert (0 \<le> index \<and> index < 256)) (\<lambda>_.
       if index < 128 then b128_get_bit index (lo256 b) else b128_get_bit (index - 128) (hi256 b))"

definition b256_set_bit :: "int \<Rightarrow> bool \<Rightarrow> buf256_t \<Rightarrow> buf256_t res" where
  "b256_set_bit index v b =
     bind_res (cb_assert (0 \<le> index \<and> index < 256)) (\<lambda>_.
       if index < 128 then bind_res (b128_set_bit index v (lo256 b)) (\<lambda>l. Inr (b\<lparr>lo256 := l\<rparr>))
       else bind_res (b128_set_bit (index - 128) v (hi256 b)) (\<lambda>h. Inr (b\<lparr>hi256 := h\<rparr>)))"

definition b256_equ :: "buf256_t \<Rightarrow> buf256_t \<Rightarrow> bool" where
  "b256_equ b src =
     b128_equ (b128_or (b128_xor (lo256 src) (lo256 b)) (b128_xor (hi256 src) (hi256 b))) b128_zero"

definition b256_is_null :: "buf256_t \<Rightarrow> bool" where "b256_is_null b = b256_equ b b256_zero"

definition b256_not :: "buf256_t \<Rightarrow> buf256_t" where
  "b256_not b = \<lparr>lo256 = b128_not (lo256 b), hi256 = b128_not (hi256 b)\<rparr>"

definition b256_xor :: "buf256_t \<Rightarrow> buf256_t \<Rightarrow> buf256_t" where
  "b256_xor b src = \<lparr>lo256 = b128_xor (lo256 b) (lo256 src), hi256 = b128_xor (hi256 b) (hi256 src)\<rparr>"

definition b256_or :: "buf256_t \<Rightarrow> buf256_t \<Rightarrow> buf256_t" where
  "b256_or b src = \<lparr>lo256 = b128_or (lo256 b) (lo256 src), hi256 = b128_or (hi256 b) (hi256 src)\<rparr>"

definition b256_and :: "buf256_t \<Rightarrow> buf256_t \<Rightarrow> buf256_t" where
  "b256_and b src = \<lparr>lo256 = b128_and (lo256 b) (lo256 src), hi256 = b128_and (hi256 b) (hi256 src)\<rparr>"

definition b256_and_bool :: "buf256_t \<Rightarrow> bool \<Rightarrow> buf256_t" where
  "b256_and_bool b src = \<lparr>lo256 = b128_and_bool (lo256 b) src, hi256 = b128_and_bool (hi256 b) src\<rparr>"

text \<open>\<^verbatim>\<open>for (int i = 0; i < 32; i++) *dst++ = *--src\<close>.\<close>

definition b256_reverse_bytes :: "buf256_t \<Rightarrow> buf256_t" where
  "b256_reverse_bytes b = b256_load (map (\<lambda>i. b256_save b ! (32 - Suc i)) [0..<32])"

definition b256_convert :: "buf256_t conv" where "b256_convert = convert_fixed 32 b256_save b256_load"

definition b256_shl :: "nat \<Rightarrow> buf256_t \<Rightarrow> buf256_t res" where
  "b256_shl n b =
     bind_res (cb_assert (n < 256)) (\<lambda>_.
       if n = 0 then Inr b
       else let l = lo256 b; r = hi256 b
            in if n = 128 then Inr (b256_make b128_zero l)
               else if 128 < n then bind_res (b128_shl (n - 128) l) (\<lambda>r. Inr (b256_make b128_zero r))
               else bind_res (b128_shl n r) (\<lambda>r. bind_res (b128_shr (128 - n) l) (\<lambda>c.
                    let r = b128_or r c in bind_res (b128_shl n l) (\<lambda>l. Inr (b256_make l r)))))"

definition b256_shr :: "nat \<Rightarrow> buf256_t \<Rightarrow> buf256_t res" where
  "b256_shr n b =
     bind_res (cb_assert (n < 256)) (\<lambda>_.
       if n = 0 then Inr b
       else let l = lo256 b; r = hi256 b
            in if n = 128 then Inr (b256_make r b128_zero)
               else if 128 < n then bind_res (b128_shr (n - 128) r) (\<lambda>l. Inr (b256_make l b128_zero))
               else bind_res (b128_shr n l) (\<lambda>l. bind_res (b128_shl (128 - n) r) (\<lambda>c.
                    let l = b128_or l c in bind_res (b128_shr n r) (\<lambda>r. Inr (b256_make l r)))))"

text \<open>
  \<^verbatim>\<open>caryless_mul\<close>: the loop of the portable branch, and the branch over the instruction \<^verbatim>\<open>clmul\<close> of the processor on two limbs.
\<close>

definition caryless_step :: "buf128_t \<Rightarrow> nat \<Rightarrow> buf256_t \<times> buf256_t \<Rightarrow> (buf256_t \<times> buf256_t) res" where
  "caryless_step b i = (\<lambda>(r, m).
     bind_res (b128_get_bit (int i) b) (\<lambda>c.
       let r = b256_xor r (b256_and_bool m c) in bind_res (b256_shl 1 m) (\<lambda>m. Inr (r, m))))"

definition caryless_mul :: "buf128_t \<Rightarrow> buf128_t \<Rightarrow> buf256_t res" where
  "caryless_mul a b =
     bind_res (fold_res (caryless_step b) [0..<128] (b256_zero, b256_make a b128_zero)) (\<lambda>(r, m). Inr r)"

definition caryless_mul_accel :: "(u64 \<Rightarrow> u64 \<Rightarrow> buf128_t) \<Rightarrow> buf128_t \<Rightarrow> buf128_t \<Rightarrow> buf256_t" where
  "caryless_mul_accel clmul a b =
     (let c = clmul (b128_lo a) (b128_lo b); e = clmul (b128_lo a) (b128_hi b);
          f = clmul (b128_hi a) (b128_lo b); d = clmul (b128_hi a) (b128_hi b);
          c0 = b128_lo c; c1 = b128_hi c; d0 = b128_lo d; d1 = b128_hi d;
          e0 = b128_lo e; e1 = b128_hi e; f0 = b128_lo f; f1 = b128_hi f;
          r0 = c0; r1 = xor (xor f0 e0) c1; r2 = xor (xor d0 e1) f1; r3 = d1
      in b256_make (b128_make r0 r1) (b128_make r2 r3))"

section \<open>Buffers as words\<close>

text \<open>
  What a buffer promises: it is a word of its width, and every operation is the operation on words, with the assertion where
  an index or a distance is outside the width.
\<close>

locale fixed_buf =
  fixes wd :: "'b \<Rightarrow> 'w::len word" and of_wd :: "'w word \<Rightarrow> 'b" and zero :: 'b
    and bnot :: "'b \<Rightarrow> 'b" and bxor bor band :: "'b \<Rightarrow> 'b \<Rightarrow> 'b" and band_bool :: "'b \<Rightarrow> bool \<Rightarrow> 'b"
    and equ :: "'b \<Rightarrow> 'b \<Rightarrow> bool"
    and getb :: "int \<Rightarrow> 'b \<Rightarrow> bool res" and setb :: "int \<Rightarrow> bool \<Rightarrow> 'b \<Rightarrow> 'b res"
    and shl shr :: "nat \<Rightarrow> 'b \<Rightarrow> 'b res"
  assumes wd_of [simp]: "wd (of_wd w) = w" and of_wd [simp]: "of_wd (wd b) = b"
    and zero_law: "wd zero = 0" and not_law: "wd (bnot b) = not (wd b)"
    and xor_law: "wd (bxor b c) = xor (wd b) (wd c)" and or_law: "wd (bor b c) = or (wd b) (wd c)"
    and and_law: "wd (band b c) = and (wd b) (wd c)"
    and and_bool_law: "wd (band_bool b x) = (if x then wd b else 0)"
    and equ_law: "equ b c \<longleftrightarrow> wd b = wd c"
    and get_law: "getb i b = (if 0 \<le> i \<and> i < int LENGTH('w) then Inr (bit (wd b) (nat i)) else Inl Assert_Failed)"
    and set_law: "setb i v b = (if 0 \<le> i \<and> i < int LENGTH('w)
      then Inr (of_wd ((if v then set_bit else unset_bit) (nat i) (wd b))) else Inl Assert_Failed)"
    and shl_law: "shl n b = (if n < LENGTH('w) then Inr (of_wd (push_bit n (wd b))) else Inl Assert_Failed)"
    and shr_law: "shr n b = (if n < LENGTH('w) then Inr (of_wd (drop_bit n (wd b))) else Inl Assert_Failed)"
begin

lemmas laws = zero_law not_law xor_law or_law and_law and_bool_law equ_law get_law set_law shl_law shr_law

lemma wd_inject: "wd b = wd c \<longleftrightarrow> b = c"
  using of_wd [of b] of_wd [of c] by metis

lemma equ_iff: "equ b c \<longleftrightarrow> b = c"
  by (simp add: equ_law wd_inject)

lemma get_set:
  assumes "setb i v b = Inr b'" "0 \<le> j" "j < int LENGTH('w)"
  shows "getb j b' = (if i = j then Inr v else getb j b)"
  using assms by (auto simp: laws bit_set_bit_iff bit_unset_bit_iff split: if_splits)

lemma shl_then_shr:
  assumes "n < LENGTH('w)"
  shows "bind_res (shl n b) (shr n) = Inr (of_wd (take_bit (LENGTH('w) - n) (wd b)))"
proof -
  have "drop_bit n (push_bit n (wd b)) = take_bit (LENGTH('w) - n) (wd b)"
    by (rule bit_word_eqI) (use assms in \<open>auto simp: bit_simps\<close>)
  then show ?thesis using assms by (simp add: laws)
qed

lemma shift_add:
  assumes "m + n < LENGTH('w)"
  shows "bind_res (shl m b) (shl n) = shl (m + n) b" "bind_res (shr m b) (shr n) = shr (m + n) b"
  using assms by (simp_all add: laws add.commute)

end

subsection \<open>Words in two halves\<close>

definition join :: "'a::len word \<Rightarrow> 'a word \<Rightarrow> 'b::len word" where
  "join l h = or (ucast l) (push_bit LENGTH('a) (ucast h))"

definition low_half :: "'b::len word \<Rightarrow> 'a::len word" where "low_half w = ucast w"

definition high_half :: "'b::len word \<Rightarrow> 'a::len word" where "high_half w = ucast (drop_bit LENGTH('a) w)"

definition doubles :: "'a::len itself \<Rightarrow> 'b::len itself \<Rightarrow> bool" where
  "doubles _ _ \<longleftrightarrow> LENGTH('b) = 2 * LENGTH('a)"

lemma doubles [simp]: "doubles TYPE(64) TYPE(128)" "doubles TYPE(128) TYPE(256)"
  by (simp_all add: doubles_def)

lemma doublesD: "doubles TYPE('a::len) TYPE('b::len) \<Longrightarrow> LENGTH('b) = 2 * LENGTH('a)"
  by (simp add: doubles_def)

lemma bit_join:
  assumes "doubles TYPE('a::len) TYPE('b::len)"
  shows "bit (join (l :: 'a word) h :: 'b word) i \<longleftrightarrow> (if i < LENGTH('a) then bit l i else bit h (i - LENGTH('a)))"
proof -
  have "bit h (i - LENGTH('a)) \<Longrightarrow> i < LENGTH('b)"
    using bit_imp_le_length [of h "i - LENGTH('a)"] doublesD [OF assms] by linarith
  then show ?thesis using doublesD [OF assms] by (auto simp: join_def bit_simps dest: bit_imp_le_length)
qed

lemma join_eqI:
  fixes l h :: "'a::len word" and w :: "'b::len word"
  assumes "doubles TYPE('a) TYPE('b)"
    and "\<And>i. i < LENGTH('a) \<Longrightarrow> bit l i = bit w i" "\<And>i. i < LENGTH('a) \<Longrightarrow> bit h i = bit w (LENGTH('a) + i)"
  shows "join l h = w"
proof (rule bit_word_eqI)
  fix i assume "i < LENGTH('b)"
  then show "bit (join l h :: 'b word) i = bit w i"
    using assms(2) [of i] assms(3) [of "i - LENGTH('a)"] assms(1) by (auto simp: bit_join doubles_def)
qed

lemma join_halves:
  assumes "doubles TYPE('a::len) TYPE('b::len)"
  shows "join (low_half w :: 'a word) (high_half w) = (w :: 'b word)"
    and "low_half (join l h :: 'b word) = (l :: 'a word)" "high_half (join l h :: 'b word) = (h :: 'a word)"
proof -
  show "join (low_half w :: 'a word) (high_half w) = w"
    using assms by (intro join_eqI) (auto simp: low_half_def high_half_def bit_simps doubles_def)
  show "low_half (join l h :: 'b word) = l" "high_half (join l h :: 'b word) = h"
    using assms by (auto intro!: bit_word_eqI simp: low_half_def high_half_def bit_simps bit_join doubles_def)
qed

lemma join_bitwise:
  fixes l h :: "'a::len word"
  assumes "doubles TYPE('a) TYPE('b::len)"
  shows "join (0 :: 'a word) 0 = (0 :: 'b word)" "join (- 1 :: 'a word) (- 1) = (- 1 :: 'b word)" "join (not l) (not h) = not (join l h :: 'b word)"
    "join (xor l l') (xor h h') = xor (join l h) (join l' h' :: 'b word)"
    "join (or l l') (or h h') = or (join l h) (join l' h' :: 'b word)"
    "join (and l l') (and h h') = and (join l h) (join l' h' :: 'b word)"
  by (rule bit_word_eqI; simp add: bit_simps bit_join [OF assms]; use doublesD [OF assms] in auto)+

lemma join_inject:
  assumes "doubles TYPE('a::len) TYPE('b::len)"
  shows "join l h = (join l' h' :: 'b word) \<longleftrightarrow> l = (l' :: 'a word) \<and> h = h'"
  using join_halves(2,3) [OF assms] by metis

lemma join_set_bit_aux:
  fixes l h :: "'a::len word"
  assumes "doubles TYPE('a) TYPE('b::len)"
  shows "n < LENGTH('a) \<Longrightarrow> join (set_bit n l) h = set_bit n (join l h :: 'b word)"
    "n < LENGTH('a) \<Longrightarrow> join (unset_bit n l) h = unset_bit n (join l h :: 'b word)"
    "LENGTH('a) \<le> n \<Longrightarrow> n < LENGTH('b) \<Longrightarrow> join l (set_bit (n - LENGTH('a)) h) = set_bit n (join l h :: 'b word)"
    "LENGTH('a) \<le> n \<Longrightarrow> n < LENGTH('b) \<Longrightarrow> join l (unset_bit (n - LENGTH('a)) h) = unset_bit n (join l h :: 'b word)"
  by (rule bit_word_eqI; simp add: bit_simps bit_join [OF assms]; use doublesD [OF assms] in auto)+

lemma join_set_bit:
  fixes l h :: "'a::len word"
  assumes "doubles TYPE('a) TYPE('b::len)"
  shows "n < LENGTH('a) \<Longrightarrow> join ((if v then set_bit else unset_bit) n l) h = (if v then set_bit else unset_bit) n (join l h :: 'b word)"
    "LENGTH('a) \<le> n \<Longrightarrow> n < LENGTH('b) \<Longrightarrow>
      join l ((if v then set_bit else unset_bit) (n - LENGTH('a)) h) = (if v then set_bit else unset_bit) n (join l h :: 'b word)"
  using join_set_bit_aux [OF assms, of n] by auto

text \<open>Shifts by less than half the width carry bits between the halves, larger ones move one half to the other.\<close>

lemma join_push:
  fixes l h :: "'a::len word"
  assumes "doubles TYPE('a) TYPE('b::len)"
  shows "n < LENGTH('a) \<Longrightarrow>
      join (push_bit n l) (or (push_bit n h) (drop_bit (LENGTH('a) - n) l)) = push_bit n (join l h :: 'b word)"
    and "LENGTH('a) \<le> n \<Longrightarrow> join 0 (push_bit (n - LENGTH('a)) l) = push_bit n (join l h :: 'b word)"
proof -
  assume n: "n < LENGTH('a)"
  show "join (push_bit n l) (or (push_bit n h) (drop_bit (LENGTH('a) - n) l)) = push_bit n (join l h :: 'b word)"
    by (rule join_eqI [OF assms]) (use n doublesD [OF assms] in \<open>auto simp: bit_simps bit_join [OF assms] ac_simps dest: bit_imp_le_length\<close>)
next
  assume n: "LENGTH('a) \<le> n"
  show "join 0 (push_bit (n - LENGTH('a)) l) = push_bit n (join l h :: 'b word)"
    by (rule join_eqI [OF assms]) (use n doublesD [OF assms] in \<open>auto simp: bit_simps bit_join [OF assms] ac_simps\<close>)
qed

lemma join_drop:
  fixes l h :: "'a::len word"
  assumes "doubles TYPE('a) TYPE('b::len)"
  shows "n < LENGTH('a) \<Longrightarrow>
      join (or (drop_bit n l) (push_bit (LENGTH('a) - n) h)) (drop_bit n h) = drop_bit n (join l h :: 'b word)"
    and "LENGTH('a) \<le> n \<Longrightarrow> join (drop_bit (n - LENGTH('a)) h) 0 = drop_bit n (join l h :: 'b word)"
proof -
  assume n: "n < LENGTH('a)"
  show "join (or (drop_bit n l) (push_bit (LENGTH('a) - n) h)) (drop_bit n h) = drop_bit n (join l h :: 'b word)"
    by (rule join_eqI [OF assms]) (use n doublesD [OF assms] in \<open>auto simp: bit_simps bit_join [OF assms] ac_simps dest: bit_imp_le_length\<close>)
next
  assume n: "LENGTH('a) \<le> n"
  show "join (drop_bit (n - LENGTH('a)) h) 0 = drop_bit n (join l h :: 'b word)"
    by (rule join_eqI [OF assms]) (use n doublesD [OF assms] in \<open>auto simp: bit_simps bit_join [OF assms] ac_simps dest: bit_imp_le_length\<close>)
qed

subsection \<open>128 bits\<close>

definition word128 :: "buf128_t \<Rightarrow> u128" where "word128 b = join (b128_lo b) (b128_hi b)"

definition of_word128 :: "u128 \<Rightarrow> buf128_t" where "of_word128 w = b128_make (low_half w) (high_half w)"

lemma b128_lo_hi [simp]:
  "b128_lo (b128_make l h) = l" "b128_hi (b128_make l h) = h"
  "b128_lo b128_zero = 0" "b128_hi b128_zero = 0"
  "b128_lo (b128_not b) = not (b128_lo b)" "b128_hi (b128_not b) = not (b128_hi b)"
  "b128_lo (b128_xor b c) = xor (b128_lo b) (b128_lo c)" "b128_hi (b128_xor b c) = xor (b128_hi b) (b128_hi c)"
  "b128_lo (b128_or b c) = or (b128_lo b) (b128_lo c)" "b128_hi (b128_or b c) = or (b128_hi b) (b128_hi c)"
  "b128_lo (b128_and b c) = and (b128_lo b) (b128_lo c)" "b128_hi (b128_and b c) = and (b128_hi b) (b128_hi c)"
  "b128_lo (b128_mask x) = (if x then - 1 else 0)" "b128_hi (b128_mask x) = (if x then - 1 else 0)"
  by (simp_all add: b128_lo_def b128_hi_def b128_make_def b128_u128_def b128_zero_def u128_zero_def u128_make_def u128_lo_def
      u128_hi_def b128_not_def u128_not_def b128_xor_def u128_xor_def b128_or_def u128_or_def b128_and_def u128_and_def
      b128_mask_def u128_mask_def bool_mask_def)

lemma b128_make_lo_hi [simp]: "b128_make (b128_lo b) (b128_hi b) = b"
  by (simp add: b128_make_def b128_u128_def u128_make_def b128_lo_def b128_hi_def u128_lo_def u128_hi_def)

lemma word128_of_word128 [simp]: "word128 (of_word128 w) = w" "of_word128 (word128 b) = b"
  by (simp_all add: word128_def of_word128_def join_halves)

lemma of_word128_join: "of_word128 (join l h) = b128_make l h"
  by (simp add: of_word128_def join_halves)

lemma word128_make: "word128 (b128_make l h) = join l h"
  by (simp add: word128_def)

lemma limb_bit: "and (drop_bit n (w :: 'a::len word)) 1 \<noteq> 0 \<longleftrightarrow> bit w n"
  by (simp add: and_one_eq bit_iff_odd_drop_bit odd_iff_mod_2_eq_one)

lemma set_limb_bit:
  "or (and w (not (push_bit n 1))) (push_bit n (if v then 1 else 0)) = (if v then set_bit else unset_bit) n w"
  for w :: "'a::len word"
  by (rule bit_word_eqI) (auto simp: bit_simps)

lemma bit_word128: "bit (word128 b) i \<longleftrightarrow> (if i < 64 then bit (b128_lo b) i else bit (b128_hi b) (i - 64))"
  by (simp add: word128_def bit_join)

lemma b128_shl_word:
  "b128_shl n b = (if n < 128 then Inr (of_word128 (push_bit n (word128 b))) else Inl Assert_Failed)"
  using join_push [where 'a = 64 and 'b = 128 and n = n and l = "b128_lo b" and h = "b128_hi b", symmetric]
  by (auto simp: b128_shl_def Let_def word128_def of_word128_join join_halves of_word128_def)

lemma b128_shr_word:
  "b128_shr n b = (if n < 128 then Inr (of_word128 (drop_bit n (word128 b))) else Inl Assert_Failed)"
  using join_drop [where 'a = 64 and 'b = 128 and n = n and l = "b128_lo b" and h = "b128_hi b", symmetric]
  by (auto simp: b128_shr_def Let_def word128_def of_word128_join join_halves of_word128_def)

lemma b128_get_word:
  "b128_get_bit i b = (if 0 \<le> i \<and> i < 128 then Inr (bit (word128 b) (nat i)) else Inl Assert_Failed)"
proof (cases "0 \<le> i \<and> i < 128")
  case True
  then have "i div 64 = (if i < 64 then 0 else 1)" "i mod 64 = (if i < 64 then i else i - 64)" by presburger+
  with True show ?thesis by (auto simp: b128_get_bit_def limb_bit bit_word128 nat_diff_distrib Let_def)
qed (auto simp: b128_get_bit_def)

lemma b128_set_word:
  "b128_set_bit i v b = (if 0 \<le> i \<and> i < 128
     then Inr (of_word128 ((if v then set_bit else unset_bit) (nat i) (word128 b))) else Inl Assert_Failed)"
proof (cases "0 \<le> i \<and> i < 128")
  case True
  then show ?thesis
    using join_set_bit [where 'a = 64 and 'b = 128 and n = "nat i" and v = v and l = "b128_lo b" and h = "b128_hi b", symmetric]
    unfolding b128_set_bit_def Let_def set_limb_bit
    by (cases "i < 64") (simp_all add: word128_def of_word128_join nat_diff_distrib)
qed (auto simp: b128_set_bit_def)

lemma xor_eq_0: "xor x y = 0 \<longleftrightarrow> x = (y :: 'a::len word)"
  by (auto simp: bit_eq_iff bit_simps)

lemma b128_equ_word: "b128_equ b c \<longleftrightarrow> word128 b = word128 c"
  by (auto simp: b128_equ_def u128_equ_def word128_def join_inject b128_lo_def b128_hi_def or_eq_0_iff xor_eq_0)

interpretation b128: fixed_buf word128 of_word128 b128_zero b128_not b128_xor b128_or b128_and b128_and_bool b128_equ
  b128_get_bit b128_set_bit b128_shl b128_shr
proof
  show "word128 (b128_and_bool b x) = (if x then word128 b else 0)" for b x
    by (simp add: b128_and_bool_def word128_def join_bitwise)
qed (simp_all add: b128_shl_word b128_shr_word b128_get_word b128_set_word b128_equ_word, simp_all add: word128_def join_bitwise)

text \<open>The remaining observers.\<close>

lemma b128_ends: "b128_lsb b \<longleftrightarrow> bit (word128 b) 0" "b128_msb b \<longleftrightarrow> bit (word128 b) 127"
proof -
  show "b128_lsb b \<longleftrightarrow> bit (word128 b) 0"
    using limb_bit [of 0 "b128_lo b"] by (simp add: b128_lsb_def u128_lsb_def bit_word128 b128_lo_def)
  show "b128_msb b \<longleftrightarrow> bit (word128 b) 127"
    by (simp add: b128_msb_def u128_msb_def bit_word128 b128_hi_def flip: bit_last_iff [where 'a = 64, simplified])
qed

lemma popcount_card: "popcount w = card {i. i < 64 \<and> bit w i}"
proof -
  have "popcount w = card (set (List.filter (bit w) [0..<64]))"
    by (simp add: popcount_def distinct_card del: set_filter)
  then show ?thesis by (simp add: conj_commute)
qed

lemma b128_count: "b128_get_bits_count b = card {i. i < 128 \<and> bit (word128 b) i}"
proof -
  let ?L = "{i. i < 64 \<and> bit (b128_lo b) i}" and ?H = "{i. i < 64 \<and> bit (b128_hi b) i}"
  have "{i. i < 128 \<and> bit (word128 b) i} = ?L \<union> (+) 64 ` ?H" (is "?A = ?B")
  proof (intro set_eqI iffI)
    fix i assume "i \<in> ?A"
    then have "i \<in> ?L \<or> i = 64 + (i - 64) \<and> i - 64 \<in> ?H" by (auto simp: bit_word128 split: if_splits)
    then show "i \<in> ?B" by blast
  qed (auto simp: bit_word128)
  moreover have "card (?L \<union> (+) 64 ` ?H) = card ?L + card ((+) 64 ` ?H)" by (rule card_Un_disjoint) auto
  moreover have "card ((+) 64 ` ?H) = card ?H" by (rule card_image) simp
  ultimately show ?thesis by (simp add: b128_get_bits_count_def popcount_card)
qed

lemma b128_null: "b128_is_null b \<longleftrightarrow> b = b128_zero" "b128_assign_null b = b128_zero"
proof -
  have "b128_is_null b \<longleftrightarrow> b128_equ b b128_zero" by (simp add: b128_is_null_def b128_equ_def b128_zero_def b128_u128_def)
  then show "b128_is_null b \<longleftrightarrow> b = b128_zero" by (simp add: b128.equ_iff)
  show "b128_assign_null b = b128_zero" by (simp add: b128_assign_null_def b128_zero_def b128_u128_def)
qed

lemma b128_from_bit_index_word:
  "b128_from_bit_index i = (if 0 \<le> i \<and> i < 128 then Inr (of_word128 (push_bit (nat i) 1)) else Inl Assert_Failed)"
proof (cases "0 \<le> i \<and> i < 128")
  case True
  have "word128 (b128_make (push_bit (nat i) 1) 0) = push_bit (nat i) 1" if "i < 64"
    by (rule bit_word_eqI) (use that in \<open>auto simp: bit_word128 bit_simps\<close>)
  moreover have "word128 (b128_make 0 (push_bit (nat (i - 64)) 1)) = push_bit (nat i) 1" if "\<not> i < 64"
    by (rule bit_word_eqI) (use that True in \<open>auto simp: bit_word128 bit_simps nat_diff_distrib\<close>)
  ultimately show ?thesis using True b128.of_wd by (auto simp: b128_from_bit_index_def) (metis b128.of_wd)+
qed (auto simp: b128_from_bit_index_def)

lemma u128_and_bool_mask: "u128_and_bool x y = u128_and x (u128_mask y)"
  by (simp add: u128_and_bool_def u128_and_def u128_mask_def u128_make_def u128_lo_def u128_hi_def)

text \<open>The bytes of a buffer are its bits, eight by eight.\<close>

lemma bytes_limb_bytes [simp]: "bytes_limb (limb_bytes w) = w"
proof (rule bit_word_eqI)
  fix n assume "n < LENGTH(64)"
  then have "n < 64" "n div 8 < 8" by simp_all
  then show "bit (bytes_limb (limb_bytes w)) n = bit w n" by (simp add: bytes_limb_bit limb_bytes_def bit_simps)
qed

lemma limb_bytes_limb:
  assumes "length bs = 8"
  shows "limb_bytes (bytes_limb bs) = bs"
proof (rule nth_equalityI)
  fix j assume "j < length (limb_bytes (bytes_limb bs))"
  then have j: "j < 8" by simp
  show "limb_bytes (bytes_limb bs) ! j = bs ! j"
    by (rule bit_word_eqI) (use j assms in \<open>simp add: limb_bytes_def bit_simps bytes_limb_bit\<close>)
qed (simp add: assms)

lemma b128_save_length [simp]: "length (b128_save b) = 16"
  by (simp add: b128_save_def u128_save_def)

lemma b128_load_save [simp]: "b128_load (b128_save b) = b"
  by (simp add: b128_load_def b128_save_def u128_load_def u128_save_def b128_u128_def)

lemma b128_save_load:
  assumes "length bs = 16"
  shows "b128_save (b128_load bs) = bs"
proof -
  have "b128_save (b128_load bs) = take 8 bs @ take 8 (drop 8 bs)"
    using assms by (simp add: b128_load_def b128_save_def u128_load_def u128_save_def b128_u128_def limb_bytes_limb)
  moreover have "take 8 (drop 8 bs) = drop 8 bs" using assms by simp
  ultimately show ?thesis by simp
qed

lemma b128_index_set_get:
  assumes "0 \<le> i" "i < 16"
  shows "\<exists>b'. b128_index_set i v b = Inr b' \<and> b128_save b' = (b128_save b)[nat i := v] \<and> b128_index i b' = Inr v"
  using assms by (simp add: b128_index_set_def b128_index_def b128_save_load)

lemma b128_mem: "b128_load_mem src = (if length src = 16 then Inr (b128_load src) else Inl Assert_Failed)"
  "b128_assign_mem src b = b128_load_mem src"
  by (simp_all add: b128_load_mem_def b128_assign_mem_def b128_load_def)

lemma length_16:
  assumes "length t = 16"
  shows "t = map ((!) t) [0..<16]"
  using map_nth [of t] assms by simp

lemma swaps_reverse:
  assumes "length t = 16"
  shows "fold swap_bytes [(0, 15), (1, 14), (2, 13), (3, 12), (4, 11), (5, 10), (6, 9), (7, 8)] t = rev t"
proof -
  let ?f = "(!) t"
  have "fold swap_bytes [(0, 15), (1, 14), (2, 13), (3, 12), (4, 11), (5, 10), (6, 9), (7, 8)] (map ?f [0..<16])
      = rev (map ?f [0..<16])"
    by (simp add: swap_bytes_def upt_rec eval_nat_numeral)
  then show ?thesis using length_16 [OF assms] by simp
qed

lemma b128_reverse: "b128_save (b128_reverse_bytes b) = rev (b128_save b)"
  unfolding b128_reverse_bytes_def swaps_reverse [OF b128_save_length] by (simp add: b128_save_load)

lemma fixed_b128: "fixed_codec 16 b128_save b128_load (\<lambda>_. True)"
  by unfold_locales simp_all

lemma fixed_u128: "fixed_codec 16 u128_save u128_load (\<lambda>_. True)"
  by unfold_locales (simp_all add: u128_save_def u128_load_def)

interpretation c_u128: codec u128_convert u128_save "\<lambda>_. True"
  unfolding u128_convert_def by (rule fixed_codec.fixed_is_codec [OF fixed_u128])

interpretation c_b128: codec b128_convert b128_save "\<lambda>_. True"
  unfolding b128_convert_def by (rule fixed_codec.fixed_is_codec [OF fixed_b128])

subsection \<open>256 bits\<close>

definition word256 :: "buf256_t \<Rightarrow> 256 word" where "word256 b = join (word128 (lo256 b)) (word128 (hi256 b))"

definition of_word256 :: "256 word \<Rightarrow> buf256_t" where
  "of_word256 w = b256_make (of_word128 (low_half w)) (of_word128 (high_half w))"

lemma word256_of_word256 [simp]: "word256 (of_word256 w) = w" "of_word256 (word256 b) = b"
  by (simp_all add: word256_def of_word256_def join_halves b256_make_def)

lemma of_word256_join: "of_word256 (join l h) = b256_make (of_word128 l) (of_word128 h)"
  by (simp add: of_word256_def join_halves)

lemma word256_make: "word256 (b256_make l h) = join (word128 l) (word128 h)"
  by (simp add: word256_def b256_make_def)

lemma of_word128_0: "of_word128 0 = b128_zero"
  using b128.of_wd [of b128_zero] by (simp add: b128.zero_law)

lemma of_word128_or: "b128_or (of_word128 v) (of_word128 w) = of_word128 (or v w)"
  using b128.of_wd [of "b128_or (of_word128 v) (of_word128 w)"] by (simp add: b128.or_law)

lemma b256_shl_word:
  "b256_shl n b = (if n < 256 then Inr (of_word256 (push_bit n (word256 b))) else Inl Assert_Failed)"
proof (cases "n < 256")
  case True
  let ?l = "word128 (lo256 b)" and ?h = "word128 (hi256 b)"
  have small: "n < 128 \<Longrightarrow> of_word256 (push_bit n (word256 b))
      = b256_make (of_word128 (push_bit n ?l)) (of_word128 (or (push_bit n ?h) (drop_bit (128 - n) ?l)))"
    using join_push(1) [where 'a = 128 and 'b = 256 and n = n, of ?l ?h] by (simp add: word256_def flip: of_word256_join)
  have big: "128 \<le> n \<Longrightarrow> of_word256 (push_bit n (word256 b)) = b256_make b128_zero (of_word128 (push_bit (n - 128) ?l))"
    using join_push(2) [where 'a = 128 and 'b = 256 and n = n, of ?l ?h] by (simp add: word256_def flip: of_word256_join of_word128_0)
  from True small big show ?thesis
    by (cases n "128 :: nat" rule: linorder_cases) (auto simp: b256_shl_def Let_def b128.laws of_word128_or)
qed (simp add: b256_shl_def)

lemma b256_shr_word:
  "b256_shr n b = (if n < 256 then Inr (of_word256 (drop_bit n (word256 b))) else Inl Assert_Failed)"
proof (cases "n < 256")
  case True
  let ?l = "word128 (lo256 b)" and ?h = "word128 (hi256 b)"
  have small: "n < 128 \<Longrightarrow> of_word256 (drop_bit n (word256 b))
      = b256_make (of_word128 (or (drop_bit n ?l) (push_bit (128 - n) ?h))) (of_word128 (drop_bit n ?h))"
    using join_drop(1) [where 'a = 128 and 'b = 256 and n = n and l = ?l and h = ?h] by (simp add: word256_def flip: of_word256_join)
  have big: "128 \<le> n \<Longrightarrow> of_word256 (drop_bit n (word256 b)) = b256_make (of_word128 (drop_bit (n - 128) ?h)) b128_zero"
    using join_drop(2) [where 'a = 128 and 'b = 256 and n = n and l = ?l and h = ?h]
    by (simp add: word256_def flip: of_word256_join of_word128_0)
  from True small big show ?thesis
    by (cases n "128 :: nat" rule: linorder_cases) (auto simp: b256_shr_def Let_def b128.laws of_word128_or)
qed (simp add: b256_shr_def)

lemma b256_get_word:
  "b256_get_bit i b = (if 0 \<le> i \<and> i < 256 then Inr (bit (word256 b) (nat i)) else Inl Assert_Failed)"
  by (auto simp: b256_get_bit_def b128.get_law word256_def bit_join nat_diff_distrib)

lemma b256_set_word:
  "b256_set_bit i v b = (if 0 \<le> i \<and> i < 256
     then Inr (of_word256 ((if v then set_bit else unset_bit) (nat i) (word256 b))) else Inl Assert_Failed)"
proof (cases "0 \<le> i \<and> i < 256")
  case True
  then show ?thesis
    using join_set_bit [where 'a = 128 and 'b = 256 and n = "nat i" and v = v and l = "word128 (lo256 b)"
        and h = "word128 (hi256 b)", symmetric]
    unfolding b256_set_bit_def b128.set_law
    by (cases "i < 128") (simp_all add: word256_def of_word256_join nat_diff_distrib b256_make_def)
qed (auto simp: b256_set_bit_def)

lemma b256_equ_word: "b256_equ b c \<longleftrightarrow> word256 b = word256 c"
  by (auto simp: b256_equ_def b128.laws word256_def join_inject or_eq_0_iff xor_eq_0)

interpretation b256: fixed_buf word256 of_word256 b256_zero b256_not b256_xor b256_or b256_and b256_and_bool b256_equ
  b256_get_bit b256_set_bit b256_shl b256_shr
proof
  show "word256 (b256_and_bool b x) = (if x then word256 b else 0)" for b x
    by (simp add: b256_and_bool_def word256_def b128.laws join_bitwise)
qed (simp_all add: b256_shl_word b256_shr_word b256_get_word b256_set_word b256_equ_word,
     simp_all add: word256_def b256_zero_def b256_make_def b256_not_def b256_xor_def b256_or_def b256_and_def b128.laws join_bitwise)

lemma b256_null: "b256_is_null b \<longleftrightarrow> b = b256_zero" "b256_assign_null b = b256_zero"
  by (simp_all add: b256_is_null_def b256.equ_iff b256_assign_null_def b256_zero_def b256_make_def)

lemma b256_save_length [simp]: "length (b256_save b) = 32"
  by (simp add: b256_save_def)

lemma b256_load_save [simp]: "b256_load (b256_save b) = b"
  by (simp add: b256_load_def b256_save_def)

lemma b256_save_load: "length bs = 32 \<Longrightarrow> b256_save (b256_load bs) = bs"
  by (simp add: b256_load_def b256_save_def b128_save_load)

lemma b256_mem: "b256_load_mem src = (if length src = 32 then Inr (b256_load src) else Inl Assert_Failed)"
  "b256_assign_mem src b = b256_load_mem src"
  by (simp_all add: b256_load_mem_def b256_assign_mem_def)

lemma b256_reverse: "b256_save (b256_reverse_bytes b) = rev (b256_save b)"
proof -
  have "map (\<lambda>i. b256_save b ! (32 - Suc i)) [0..<32] = rev (b256_save b)"
    by (rule nth_equalityI) (simp_all add: rev_nth)
  then show ?thesis by (simp add: b256_reverse_bytes_def b256_save_load)
qed

lemma fixed_b256: "fixed_codec 32 b256_save b256_load (\<lambda>_. True)"
  by unfold_locales simp_all

interpretation c_b256: codec b256_convert b256_save "\<lambda>_. True"
  unfolding b256_convert_def by (rule fixed_codec.fixed_is_codec [OF fixed_b256])

section \<open>The carry-less product\<close>

text \<open>The sum without carries of the first \<open>k\<close> shifted copies of \<open>m\<close> selected by the bits of \<open>b\<close>.\<close>

fun clsum :: "nat \<Rightarrow> 'w::len word \<Rightarrow> 'a::len word \<Rightarrow> 'w word" where
  "clsum 0 m b = 0"
| "clsum (Suc k) m b = xor (clsum k m b) (if bit b k then push_bit k m else 0)"

definition clmul :: "'a::len word \<Rightarrow> 'a word \<Rightarrow> 'w::len word" where
  "clmul a b = clsum LENGTH('a) (ucast a) b"

text \<open>Its bits are the coefficients of the product of polynomials over the field of two elements.\<close>

lemma bit_clsum:
  fixes m :: "'w::len word" and b :: "'a::len word"
  shows "bit (clsum k m b) n \<longleftrightarrow> n < LENGTH('w) \<and> odd (card {i. i < k \<and> i \<le> n \<and> bit b i \<and> bit m (n - i)})"
proof (induction k)
  case (Suc k)
  let ?S = "\<lambda>k. {i. i < k \<and> i \<le> n \<and> bit b i \<and> bit m (n - i)}"
  have "?S (Suc k) = (if k \<le> n \<and> bit b k \<and> bit m (n - k) then insert k (?S k) else ?S k)"
    by (auto simp: less_Suc_eq)
  then have "card (?S (Suc k)) = (if k \<le> n \<and> bit b k \<and> bit m (n - k) then Suc (card (?S k)) else card (?S k))"
    by simp
  then show ?case using Suc by (auto simp: bit_simps)
qed simp

lemma bit_clmul:
  fixes a b :: "'a::len word"
  assumes "LENGTH('a) \<le> LENGTH('w::len)"
  shows "bit (clmul a b :: 'w word) n \<longleftrightarrow>
    n < LENGTH('w) \<and> odd (card {i. i < LENGTH('a) \<and> i \<le> n \<and> bit b i \<and> bit a (n - i)})"
proof -
  have "bit (ucast a :: 'w word) j \<longleftrightarrow> bit a j" for j
    using assms by (auto simp: bit_simps dest: bit_imp_le_length)
  then show ?thesis by (simp add: clmul_def bit_clsum)
qed

lemma push_bit_xor_word: "push_bit n (xor v w) = xor (push_bit n v) (push_bit n (w :: 'w::len word))"
  by (rule bit_word_eqI) (auto simp: bit_simps)

lemma clsum_xor: "clsum k (xor v w) b = xor (clsum k v b) (clsum k w b)"
  by (induction k) (simp_all add: push_bit_xor_word ac_simps)

lemma clsum_push: "clsum k (push_bit n m) b = push_bit n (clsum k m b)"
  by (induction k) (simp_all add: push_bit_xor_word add.commute)

lemma clsum_cong: "(\<And>i. i < k \<Longrightarrow> bit b i = bit c i) \<Longrightarrow> clsum k m b = clsum k m c"
  by (induction k) simp_all

lemma clsum_add:
  "(\<And>i. i < k \<Longrightarrow> bit c i = bit b (n + i)) \<Longrightarrow> clsum (n + k) m b = xor (clsum n m b) (push_bit n (clsum k m c))"
  by (induction k) (simp_all add: push_bit_xor_word ac_simps)

lemma clsum_ucast:
  fixes a :: "'a::len word"
  assumes "doubles TYPE('a) TYPE('v::len)" "LENGTH('v) \<le> LENGTH('w::len)" "k \<le> LENGTH('a)"
  shows "ucast (clsum k (ucast a :: 'v word) b) = clsum k (ucast a :: 'w word) b"
  using assms(3)
proof (induction k)
  case (Suc k)
  have "ucast (push_bit k (ucast a :: 'v word)) = (push_bit k (ucast a) :: 'w word)"
    by (rule bit_word_eqI) (use Suc.prems assms(2) doublesD [OF assms(1)] in \<open>auto simp: bit_simps dest: bit_imp_le_length\<close>)
  moreover have "ucast (xor v w) = xor (ucast v :: 'w word) (ucast w)" for v w :: "'v word"
    by (rule bit_word_eqI) (auto simp: bit_simps)
  ultimately show ?case using Suc by simp
qed simp

text \<open>The product of two words in halves from the four products of their halves.\<close>

lemma clmul_halves:
  fixes l h l' h' :: "'a::len word"
  assumes "doubles TYPE('a) TYPE('v::len)" "doubles TYPE('v) TYPE('w::len)"
  shows "(clmul (join l h :: 'v word) (join l' h') :: 'w word)
    = xor (ucast (clmul l l' :: 'v word)) (xor (push_bit LENGTH('a) (ucast (xor (clmul l h') (clmul h l' :: 'v word))))
        (push_bit LENGTH('v) (ucast (clmul h h' :: 'v word))))"
proof -
  let ?n = "LENGTH('a)"
  have n: "LENGTH('v) = ?n + ?n" "LENGTH('v) \<le> LENGTH('w)" using doublesD [OF assms(1)] doublesD [OF assms(2)] by simp_all
  have parts: "clsum (?n + ?n) m (join l' h' :: 'v word) = xor (clsum ?n m l') (push_bit ?n (clsum ?n m h'))" for m :: "'w word"
    using clsum_add [of ?n h' "join l' h' :: 'v word" ?n m] clsum_cong [of ?n "join l' h' :: 'v word" l' m]
    by (simp add: bit_join [OF assms(1)])
  have m: "ucast (join l h :: 'v word) = xor (ucast l) (push_bit ?n (ucast h :: 'w word))"
    by (rule bit_word_eqI) (use n in \<open>auto simp: bit_simps bit_join [OF assms(1)] dest: bit_imp_le_length\<close>)
  have u: "ucast (clmul x y :: 'v word) = clsum ?n (ucast x :: 'w word) y" for x y :: "'a word"
    using clsum_ucast [OF assms(1) n(2), of ?n x y] by (simp add: clmul_def)
  have x: "ucast (xor v w) = xor (ucast v :: 'w word) (ucast w)" for v w :: "'v word"
    by (rule bit_word_eqI) (auto simp: bit_simps)
  show ?thesis
    unfolding clmul_def [of "join l h :: 'v word"] n(1) parts m
    by (simp add: u x clsum_xor clsum_push push_bit_xor_word ac_simps)
qed

lemma word256_low: "word256 (b256_make a b128_zero) = ucast (word128 a)"
  by (simp add: word256_make b128.zero_law join_def)

lemma caryless_loop:
  "k \<le> 128 \<Longrightarrow> fold_res (caryless_step b) [0..<k] (b256_zero, b256_make a b128_zero)
     = Inr (of_word256 (clsum k (ucast (word128 a)) (word128 b)), of_word256 (push_bit k (ucast (word128 a))))"
proof (induction k)
  case 0
  show ?case using b256.of_wd [of b256_zero] b256.of_wd [of "b256_make a b128_zero"]
    by (simp add: b256.zero_law word256_low)
next
  case (Suc k)
  let ?r = "clsum k (ucast (word128 a)) (word128 b) :: 256 word" and ?m = "push_bit k (ucast (word128 a)) :: 256 word"
  have "word256 (b256_xor (of_word256 ?r) (b256_and_bool (of_word256 ?m) (bit (word128 b) k)))
      = clsum (Suc k) (ucast (word128 a)) (word128 b)"
    by (simp add: b256.laws)
  then have r: "b256_xor (of_word256 ?r) (b256_and_bool (of_word256 ?m) (bit (word128 b) k))
      = of_word256 (clsum (Suc k) (ucast (word128 a)) (word128 b))"
    using b256.of_wd by metis
  have m: "?m * 2 = push_bit k (ucast (word128 a) * 2)" by (simp add: push_bit_eq_mult)
  have "caryless_step b k (of_word256 ?r, of_word256 ?m)
      = Inr (of_word256 (clsum (Suc k) (ucast (word128 a)) (word128 b)), of_word256 (push_bit (Suc k) (ucast (word128 a))))"
    using Suc.prems r m by (simp add: caryless_step_def b128.get_law b256.shl_law)
  with Suc show ?case by (simp add: fold_res_append)
qed

lemma caryless_mul_word: "caryless_mul a b = Inr (of_word256 (clmul (word128 a) (word128 b)))"
  using caryless_loop [of 128 b a] by (simp add: caryless_mul_def clmul_def)

lemma four_limbs:
  fixes c e d :: buf128_t
  shows "join (word128 (b128_make (b128_lo c) (xor (b128_lo e) (b128_hi c))))
      (word128 (b128_make (xor (b128_lo d) (b128_hi e)) (b128_hi d)))
    = xor (ucast (word128 c)) (xor (push_bit 64 (ucast (word128 e))) (push_bit 128 (ucast (word128 d)) :: 256 word))"
proof (rule join_eqI)
  fix i assume "i < LENGTH(128)"
  then show "bit (word128 (b128_make (b128_lo c) (xor (b128_lo e) (b128_hi c)))) i
      = bit (xor (ucast (word128 c)) (xor (push_bit 64 (ucast (word128 e))) (push_bit 128 (ucast (word128 d)) :: 256 word))) i"
    by (cases "i < 64") (auto simp: bit_word128 bit_simps)
next
  fix i assume "i < LENGTH(128)"
  then show "bit (word128 (b128_make (xor (b128_lo d) (b128_hi e)) (b128_hi d))) i
      = bit (xor (ucast (word128 c)) (xor (push_bit 64 (ucast (word128 e))) (push_bit 128 (ucast (word128 d)) :: 256 word))) (LENGTH(128) + i)"
    by (cases "i < 64") (auto simp: bit_word128 bit_simps dest: bit_imp_le_length)
qed simp

lemma caryless_accel_word:
  assumes "\<And>x y. word128 (cl x y) = clmul x y"
  shows "word256 (caryless_mul_accel cl a b) = clmul (word128 a) (word128 b)"
proof -
  let ?c = "cl (b128_lo a) (b128_lo b)" and ?e = "cl (b128_lo a) (b128_hi b)" and ?f = "cl (b128_hi a) (b128_lo b)"
    and ?d = "cl (b128_hi a) (b128_hi b)"
  have "word256 (caryless_mul_accel cl a b)
      = join (word128 (b128_make (b128_lo ?c) (xor (b128_lo (b128_xor ?e ?f)) (b128_hi ?c))))
          (word128 (b128_make (xor (b128_lo ?d) (b128_hi (b128_xor ?e ?f))) (b128_hi ?d)))"
    by (simp add: caryless_mul_accel_def Let_def word256_make ac_simps)
  also have "\<dots> = clmul (word128 a) (word128 b)"
    unfolding four_limbs word128_def [of a] word128_def [of b]
    by (subst clmul_halves) (simp_all add: assms b128.xor_law)
  finally show ?thesis .
qed

text \<open>A product of small numbers, for the witness of the agreement of the branches.\<close>

lemma caryless_example:
  "caryless_mul_accel (\<lambda>x y. of_word128 (clmul x y)) (b128_make 3 5) (b128_make 7 1)
     = b256_make (b128_make 9 24) (b128_make 5 0)"
  by code_simp

end
