(* ===== verification/Convert_Safe.thy ===== *)
theory Convert_Safe
  imports Tree_Convert Bits_Rep Buf_Fixed
begin

text \<open>
  Reading of untrusted bytes. A \<^verbatim>\<open>convert\<close> routine reads inside its buffer if, from any value it may be asked to
  overwrite and any position of a reader, it ends without a fault and without a failed assertion, leaves the reader well formed on
  the same buffer, does not move back, and does nothing once an error is recorded. The locale \<open>reads_inside\<close> states this
  contract; the templates of \<^verbatim>\<open>core/convert.h\<close> keep it, and every routine of the core has it. The predicate \<open>inv\<close> is what the
  destination has to satisfy, and still satisfies afterwards: nothing for most types, an array of the right length for \<^verbatim>\<open>bits_t\<close>.
\<close>

section \<open>The contract\<close>

locale reads_inside =
  fixes inv :: "'a \<Rightarrow> bool" and conv :: "'a conv"
  assumes reads: "inv d \<Longrightarrow> wf_reader c \<Longrightarrow> \<exists>y c'. conv d c = Inr (y, c') \<and> inv y \<and> reader_step c c'"
begin

lemma deser_reads:
  assumes "inv d" "int (length bin) \<le> INT_MAX"
  shows "(\<exists>x. deser conv d bin = Inr x \<and> inv x) \<or> (\<exists>e. deser conv d bin = error e)"
proof -
  have "wf_reader (converter_in bin)" using assms(2) by (simp add: wf_reader_def converter_in_def)
  from reads [OF assms(1) this] obtain y c' where "conv d (converter_in bin) = Inr (y, c')" "inv y" by blast
  then show ?thesis by (auto simp: deser_def split: option.splits if_splits)
qed

lemma elems_reads: "list_all inv ds \<Longrightarrow> wf_reader c \<Longrightarrow>
    \<exists>ys c'. convert_elems conv ds c = Inr (ys, c') \<and> list_all inv ys \<and> reader_step c c'"
proof (induction ds arbitrary: c)
  case (Cons d ds)
  show ?case
  proof (cases "is_error c")
    case False
    obtain y c1 where 1: "conv d c = Inr (y, c1)" "inv y" "reader_step c c1" using reads [of d c] Cons.prems by auto
    obtain ys c2 where 2: "convert_elems conv ds c1 = Inr (ys, c2)" "list_all inv ys" "reader_step c1 c2"
      using Cons.IH [OF _ reader_step_wf [OF 1(3)]] Cons.prems by auto
    have "reader_step c c2" using 1(3) 2(3) by (rule reader_step_trans)
    with 1 2 False show ?thesis by simp
  qed (use Cons.prems in simp)
qed simp

lemma array_reads: "reads_inside (list_all inv) (convert_array conv)"
proof
  fix ds c
  show "list_all inv ds \<Longrightarrow> wf_reader c \<Longrightarrow>
      \<exists>ys c'. convert_array conv ds c = Inr (ys, c') \<and> list_all inv ys \<and> reader_step c c'"
  proof (induction ds arbitrary: c)
    case (Cons d ds)
    obtain y c1 where 1: "conv d c = Inr (y, c1)" "inv y" "reader_step c c1" using reads [of d c] Cons.prems by auto
    obtain ys c2 where 2: "convert_array conv ds c1 = Inr (ys, c2)" "list_all inv ys" "reader_step c1 c2"
      using Cons.IH [OF _ reader_step_wf [OF 1(3)]] Cons.prems by auto
    have "reader_step c c2" using 1(3) 2(3) by (rule reader_step_trans)
    with 1 2 show ?case by simp
  qed simp
qed

lemma vector_reads:
  assumes "inv init"
  shows "reads_inside (list_all inv) (convert_vector init conv m)"
proof
  fix d c assume "list_all inv d" and wf: "wf_reader c"
  obtain n c1 where 1: "convert_len 0 c = Inr (n, c1)" "reader_step c c1" using c_len.conv_safe [OF wf] by blast
  note wf1 = reader_step_wf [OF 1(2)]
  obtain ys c2 where 2: "convert_elems conv (replicate (unat n) init) c1 = Inr (ys, c2)" "list_all inv ys" "reader_step c1 c2"
    using elems_reads [OF _ wf1, of "replicate (unat n) init"] assms by (auto simp: list_all_iff)
  have "\<exists>y c'. convert_vector init conv m d c = Inr (y, c') \<and> list_all inv y \<and> reader_step c1 c'"
    using 1 2 wf_reader_fields(1) [OF wf] wf_reader_fields(1) [OF wf1] wf1 by (simp add: convert_vector_def Let_def)
  then show "\<exists>y c'. convert_vector init conv m d c = Inr (y, c') \<and> list_all inv y \<and> reader_step c c'"
    using 1(2) reader_step_trans by blast
qed

end

lemma pair_reads:
  assumes "reads_inside P ca" "reads_inside Q cb"
  shows "reads_inside (\<lambda>(x, y). P x \<and> Q y) (convert_pair ca cb)"
proof
  fix d c assume d: "case d of (x, y) \<Rightarrow> P x \<and> Q y" and wf: "wf_reader c"
  obtain a b where ab: "d = (a, b)" "P a" "Q b" using d by (cases d) auto
  obtain x c1 where 1: "ca a c = Inr (x, c1)" "P x" "reader_step c c1"
    using reads_inside.reads [OF assms(1) ab(2) wf] by blast
  obtain y c2 where 2: "cb b c1 = Inr (y, c2)" "Q y" "reader_step c1 c2"
    using reads_inside.reads [OF assms(2) ab(3) reader_step_wf [OF 1(3)]] by blast
  have "reader_step c c2" using 1(3) 2(3) by (rule reader_step_trans)
  with 1 2 ab show "\<exists>y c'. convert_pair ca cb d c = Inr (y, c') \<and> (case y of (x, y) \<Rightarrow> P x \<and> Q y) \<and> reader_step c c'"
    by (simp add: convert_pair_def)
qed

lemma items_reads:
  assumes "reads_inside P ck" "reads_inside Q cv" "P key0" "Q inst"
  shows "list_all (\<lambda>(k, v). P k \<and> Q v) m \<Longrightarrow> wf_reader c \<Longrightarrow> \<exists>y c'. read_items key0 ck inst cv n m c = Inr (y, c')
    \<and> list_all (\<lambda>(k, v). P k \<and> Q v) y \<and> reader_step c c'"
proof (induction n arbitrary: m c)
  case (Suc n)
  obtain k c1 where 1: "ck key0 c = Inr (k, c1)" "P k" "reader_step c c1"
    using reads_inside.reads [OF assms(1,3) Suc.prems(2)] by blast
  note wf1 = reader_step_wf [OF 1(3)]
  obtain v c2 where 2: "cv inst c1 = Inr (v, c2)" "Q v" "reader_step c1 c2"
    using reads_inside.reads [OF assms(2,4) wf1] by blast
  have m: "list_all (\<lambda>(k, v). P k \<and> Q v) (insort_key fst (k, v) m)"
    using Suc.prems(1) 1(2) 2(2) by (auto simp: list_all_iff set_insort_key)
  obtain y c3 where 3: "read_items key0 ck inst cv n (insort_key fst (k, v) m) c2 = Inr (y, c3)"
      "list_all (\<lambda>(k, v). P k \<and> Q v) y" "reader_step c2 c3"
    using Suc.IH [OF m reader_step_wf [OF 2(3)]] by blast
  have "reader_step c c2" using 1(3) 2(3) by (rule reader_step_trans)
  moreover from this have "reader_step c c3" using 3(3) by (rule reader_step_trans)
  moreover have "reader_step c (format_error c1)" using 1(3) reader_step_error [OF wf1] by (rule reader_step_trans)
  ultimately show ?case using 1 2 3 m Suc.prems by simp
qed simp

lemma map_reads:
  assumes "reads_inside P ck" "reads_inside Q cv" "P key0" "Q inst"
  shows "reads_inside (list_all (\<lambda>(k, v). P k \<and> Q v)) (convert_with_instance key0 ck inst cv)"
proof
  fix d c assume wf: "wf_reader c"
  obtain n c1 where 1: "convert_len 0 c = Inr (n, c1)" "reader_step c c1" using c_len.conv_safe [OF wf] by blast
  note wf1 = reader_step_wf [OF 1(2)]
  obtain m c2 where 2: "read_items key0 ck inst cv (unat n) [] c1 = Inr (m, c2)"
      "list_all (\<lambda>(k, v). P k \<and> Q v) m" "reader_step c1 c2"
    using items_reads [OF assms _ wf1, of "[]" "unat n"] by auto
  have "reader_step c c2" "reader_step c (format_error c1)"
    using reader_step_trans [OF 1(2)] 2(3) reader_step_error [OF wf1] by simp_all
  then show "\<exists>y c'. convert_with_instance key0 ck inst cv d c = Inr (y, c') \<and> list_all (\<lambda>(k, v). P k \<and> Q v) y \<and> reader_step c c'"
    using 1 2 wf_reader_fields(1) [OF wf1] wf_reader_fields(1) [OF wf] by (simp add: convert_with_instance_def)
qed

section \<open>The routines\<close>

sublocale codec \<subseteq> any: reads_inside "\<lambda>_. True" conv
  by unfold_locales (use conv_safe in blast)

lemma codec_reads: "codec conv enc valid \<Longrightarrow> reads_inside (\<lambda>_. True) conv"
  by (simp add: reads_inside_def codec.conv_safe)

interpretation r_last: reads_inside "\<lambda>_. True" convert_last
proof
  fix d c assume "wf_reader c"
  then show "\<exists>y c'. convert_last d c = Inr (y, c') \<and> True \<and> reader_step c c'"
    using wf_reader_fields(1) [of c] read_raw_safe by (simp add: convert_last_def Let_def)
qed

interpretation r_node: reads_inside "\<lambda>_. True" "convert_node level" for level
  by unfold_locales (use node_safe in blast)

interpretation r_vector_bool: reads_inside "\<lambda>_. True" convert_vector_bool
proof
  fix d c assume wf: "wf_reader c"
  obtain n c1 where 1: "convert_i16 0 c = Inr (n, c1)" "reader_step c c1" using c_i16.conv_safe [OF wf] by blast
  note wf1 = reader_step_wf [OF 1(2)]
  obtain ys c2 where 2: "convert_elems convert_bool (replicate (nat n) False) c1 = Inr (ys, c2)" "reader_step c1 c2"
    using c_bool.elems_safe [OF wf1] by blast
  have "reader_step c c2" "reader_step c (format_error c1)"
    using reader_step_trans [OF 1(2)] 2(2) reader_step_error [OF wf1] by simp_all
  then show "\<exists>y c'. convert_vector_bool d c = Inr (y, c') \<and> True \<and> reader_step c c'"
    using 1 2 wf_reader_fields(1) [OF wf1] wf_reader_fields(1) [OF wf] by (simp add: convert_vector_bool_def Let_def)
qed

interpretation r_code_type: reads_inside "\<lambda>_. True" "\<lambda>_. convert_code_type code others" for code others
proof
  fix d c assume wf: "wf_reader c"
  obtain v c1 where 1: "convert_u64 code c = Inr (v, c1)" "reader_step c c1" using c_u64.conv_safe [OF wf] by blast
  note wf1 = reader_step_wf [OF 1(2)]
  have "reader_step c (format_error c1)" using reader_step_trans [OF 1(2) reader_step_error [OF wf1]] .
  then show "\<exists>y c'. convert_code_type code others c = Inr (y, c') \<and> True \<and> reader_step c c'"
    using 1 by (simp add: convert_code_type_def)
qed

interpretation r_flags: reads_inside "\<lambda>args. length args < 64" convert_flags
proof
  fix d :: "bool list" and c assume d: "length d < 64" and wf: "wf_reader c"
  obtain v c1 where 1: "convert_u64 0 c = Inr (v, c1)" "reader_step c c1" using c_u64.conv_safe [OF wf] by blast
  note wf1 = reader_step_wf [OF 1(2)]
  have "reader_step c (format_error c1)" using reader_step_trans [OF 1(2) reader_step_error [OF wf1]] .
  then show "\<exists>y c'. convert_flags d c = Inr (y, c') \<and> length y < 64 \<and> reader_step c c'"
    using 1 d flags_from_buf_bits [of 0 d v c1] wf_reader_fields(1) [OF wf] wf_reader_fields(1) [OF wf1]
    by (simp add: convert_flags_def)
qed

text \<open>The bytes of a bit vector fit in the limbs that its count asks for.\<close>

lemma bits_fill:
  assumes "wf_bits b" "length bs = bits_to_bytes (bits b)"
  shows "\<exists>ls. put_view 0 bs (limbs b) = Inr ls \<and> wf_bits (b\<lparr>limbs := ls\<rparr>)"
  using put_view_ok [of 0 bs "limbs b"] assms bits_to_bytes_bound(3) [of "bits b"] by (auto simp: wf_bits_def)

lemma len_after_error:
  assumes "is_error c" "\<not> cwrite c"
  shows "convert_len d c = Inr (0, c)"
  using assms by (simp add: convert_len_def convert_u8_def convert_fixed_def set_error_def is_error_def)

interpretation r_bits: reads_inside wf_bits "convert_bits fill" for fill
proof
  fix d c assume d: "wf_bits d" and wf: "wf_reader c"
  obtain n c1 where 1: "convert_len (word_of_nat (bits d)) c = Inr (n, c1)" "reader_step c c1"
    using c_len.conv_safe [OF wf] by blast
  note wf1 = reader_step_wf [OF 1(2)]
  let ?s = "bits_to_bytes (unat n)" let ?b = "bits_alloc fill (unat n) d"
  show "\<exists>y c'. convert_bits fill d c = Inr (y, c') \<and> wf_bits y \<and> reader_step c c'"
  proof (cases "at_least (int ?s) c1")
    case True
    then have s: "?s \<le> length (unread c1)" using at_least_unread [OF wf1] by simp
    let ?bs = "take ?s (unread c1)"
    have al: "wf_bits ?b" "bits ?b = unat n" using wf_alloc [OF d] by simp_all
    obtain ls where ls: "put_view 0 ?bs (limbs ?b) = Inr ls" "wf_bits (?b\<lparr>limbs := ls\<rparr>)"
      using bits_fill [OF al(1), of ?bs] s al(2) by auto
    have "reader_step c (advance ?s c1)"
      using 1 s wf_reader_advance [OF wf1 s] len_after_error [of c "word_of_nat (bits d)"] wf_reader_fields(1) [OF wf]
      by (auto simp: reader_step_def bits_to_bytes_def)
    then show ?thesis
      using 1 ls al s get_bytes_unread [OF wf1 s] forward_unread [OF wf1 s] True wf_reader_fields(1) [OF wf1]
      by (auto simp: convert_bits_def Let_def)
  next
    case False
    have "reader_step c (format_error c1)" using reader_step_trans [OF 1(2) reader_step_error [OF wf1]] .
    then show ?thesis using 1 d False wf_reader_fields(1) [OF wf1] by (auto simp: convert_bits_def)
  qed
qed

end
