(* ===== verification/Fischlin.thy ===== *)
theory Fischlin
  imports Sharing_Correct Convert
begin

text \<open>
  The Fischlin transform: \<^verbatim>\<open>zk/fischlin.h\<close> and \<^verbatim>\<open>zk/fischlin.cpp\<close>. The prover tries challenges until the hash of
  every index ends in zeros, and starts over with fresh randomness when an index has no such challenge. The callbacks of
  \<^verbatim>\<open>fischlin_prove\<close> act on a state \<open>'s\<close>; the locale \<open>fischlin_prover\<close> states what they promise to the loop. The digest
  SHA-256 of OpenSSL is a parameter.
\<close>

section \<open>Parameters\<close>

definition SEC_P_COM :: int where "SEC_P_COM = 128"

record fischlin_params_t =
  fp_rho :: int
  fp_b :: int
  fp_t :: int

text \<open>A shift by a negative amount is undefined in C++.\<close>

definition e_max :: "fischlin_params_t \<Rightarrow> int res" where
  "e_max p = bind_res (cb_assert (fp_t p < 31)) (\<lambda>_.
     if fp_t p < 0 then Inl Out_Of_Bounds else Inr (uint (push_bit (nat (fp_t p)) (1 :: u32))))"

definition b_mask :: "fischlin_params_t \<Rightarrow> u32 res" where
  "b_mask p = bind_res (cb_assert (fp_b p < 31)) (\<lambda>_.
     if fp_b p < 0 then Inl Out_Of_Bounds else Inr (push_bit (nat (fp_b p)) 1 - 1))"

definition params_check :: "fischlin_params_t \<Rightarrow> unit res" where
  "params_check p =
     (if fp_rho p \<le> 0 then error E_CRYPTO
      else if fp_b p \<le> 0 then error E_CRYPTO
      else if 31 \<le> fp_b p then error E_CRYPTO
      else if fp_b p * fp_rho p < SEC_P_COM then error E_CRYPTO
      else success)"

definition check_with_effective_b :: "fischlin_params_t \<Rightarrow> int \<Rightarrow> unit res" where
  "check_with_effective_b p effective_b =
     (if fp_rho p \<le> 0 then error E_CRYPTO
      else if fp_b p \<le> 0 then error E_CRYPTO
      else if 31 \<le> fp_b p then error E_CRYPTO
      else if effective_b \<le> 0 then error E_CRYPTO
      else if fp_rho p * effective_b < SEC_P_COM then error E_CRYPTO
      else success)"

text \<open>
  \<^verbatim>\<open>bn_t::to_bin\<close>: the magnitude in big-endian order without leading zeros; it is written to a buffer of
  256 bytes.
\<close>

function bn_bytes :: "nat \<Rightarrow> bytes" where
  "bn_bytes n = (if n = 0 then [] else bn_bytes (n div 256) @ [word_of_nat (n mod 256)])"
  by auto
termination by (relation "measure id") auto

declare bn_bytes.simps [simp del]

definition fischlin_digest :: "(bytes \<Rightarrow> bytes) \<Rightarrow> bytes \<Rightarrow> int \<Rightarrow> int \<Rightarrow> int \<Rightarrow> u32" where
  "fischlin_digest sha256 common_hash i j z =
     (let bin = bn_bytes (nat \<bar>z\<bar>)
      in be_get_4 (sha256 (common_hash @ be_set_4 (word_of_int i) @ be_set_4 (word_of_int j)
                           @ be_set_4 (word_of_nat (length bin)) @ bin)))"

definition hash32bit_for_zk_fischlin :: "(bytes \<Rightarrow> bytes) \<Rightarrow> bytes \<Rightarrow> int \<Rightarrow> int \<Rightarrow> int \<Rightarrow> u32 res" where
  "hash32bit_for_zk_fischlin sha256 common_hash i j z =
     bind_res (cb_assert (length (bn_bytes (nat \<bar>z\<bar>)) \<le> 256)) (\<lambda>_. Inr (fischlin_digest sha256 common_hash i j z))"

lemma bn_bytes_length: "n < 256 ^ k \<Longrightarrow> length (bn_bytes n) \<le> k"
proof (induction k arbitrary: n)
  case (Suc k)
  then have "n div 256 < 256 ^ k" by (simp add: less_mult_imp_div_less mult.commute)
  then show ?case using Suc.IH [of "n div 256"] by (subst bn_bytes.simps) simp
qed (simp add: bn_bytes.simps)

text \<open>The numbers that fit the buffer.\<close>

definition BIN_LIMIT :: int where "BIN_LIMIT = 256 ^ 256"

lemma hash32bit_reduced:
  assumes "is_in_range q z" "q \<le> BIN_LIMIT"
  shows "hash32bit_for_zk_fischlin sha256 common_hash i j z = Inr (fischlin_digest sha256 common_hash i j z)"
proof -
  have "nat \<bar>z\<bar> < 256 ^ 256" by (subst nat_less_iff) (use assms in \<open>auto simp: is_in_range_def BIN_LIMIT_def\<close>)
  from bn_bytes_length [OF this] show ?thesis by (simp add: hash32bit_for_zk_fischlin_def)
qed

section \<open>The prover\<close>

record 's fischlin_ops =
  initialize :: "'s \<Rightarrow> 's res"
  response_begin :: "int \<Rightarrow> 's \<Rightarrow> 's res"
  fhash :: "int \<Rightarrow> int \<Rightarrow> 's \<Rightarrow> u32 res"
  fsave :: "int \<Rightarrow> int \<Rightarrow> 's \<Rightarrow> 's res"
  response_next :: "int \<Rightarrow> 's \<Rightarrow> 's res"

text \<open>The loop over \<^verbatim>\<open>e_tag\<close> for one index, and the loop over the indices.\<close>

function fischlin_search :: "'s fischlin_ops \<Rightarrow> u32 \<Rightarrow> int \<Rightarrow> int \<Rightarrow> int \<Rightarrow> 's \<Rightarrow> (int option \<times> 's) res" where
  "fischlin_search ops bmask em i e_tag st =
     (if e_tag < em
      then bind_res (fhash ops i e_tag st) (\<lambda>h.
           if and h bmask \<noteq> 0
           then bind_res (if e_tag + 1 < em then response_next ops (e_tag + 1) st else Inr st)
                  (\<lambda>st. fischlin_search ops bmask em i (e_tag + 1) st)
           else Inr (Some e_tag, st))
      else Inr (None, st))"
  by auto
termination by (relation "measure (\<lambda>(_, _, em, _, e_tag, _). nat (em - e_tag))") auto

declare fischlin_search.simps [simp del]

fun fischlin_indices :: "'s fischlin_ops \<Rightarrow> u32 \<Rightarrow> int \<Rightarrow> int list \<Rightarrow> 's \<Rightarrow> (bool \<times> 's) res" where
  "fischlin_indices ops bmask em [] st = Inr (True, st)"
| "fischlin_indices ops bmask em (i # is) st =
     bind_res (response_begin ops i st) (\<lambda>st.
     bind_res (fischlin_search ops bmask em i 0 st) (\<lambda>(found, st).
       case found of None \<Rightarrow> Inr (False, st)
       | Some e_tag \<Rightarrow> bind_res (fsave ops i e_tag st) (\<lambda>st. fischlin_indices ops bmask em is st)))"

partial_function (option) fischlin_loop :: "('s \<Rightarrow> (bool \<times> 's) res) \<Rightarrow> 's \<Rightarrow> 's res option" where
  "fischlin_loop attempt st =
     (case attempt st of Inl e \<Rightarrow> Some (Inl e)
      | Inr (rho_e_tags_found, st) \<Rightarrow> if rho_e_tags_found then Some (Inr st) else fischlin_loop attempt st)"

text \<open>\<^verbatim>\<open>fischlin_prove\<close>; the value \<^const>\<open>None\<close> is a loop that never ends.\<close>

definition fischlin_prove :: "fischlin_params_t \<Rightarrow> 's fischlin_ops \<Rightarrow> 's \<Rightarrow> 's res option" where
  "fischlin_prove params ops st =
     (case e_max params of Inl e \<Rightarrow> Some (Inl e)
      | Inr em \<Rightarrow> (case b_mask params of Inl e \<Rightarrow> Some (Inl e)
        | Inr bmask \<Rightarrow> fischlin_loop
            (\<lambda>st. bind_res (initialize ops st) (fischlin_indices ops bmask em [0..fp_rho params - 1])) st))"

section \<open>Correctness of the loop\<close>

text \<open>
  A challenge that hits for the index \<open>i\<close>, an attempt with a hit for every index, and the randomness of the attempts in turn.
\<close>

definition tag_hit :: "int \<Rightarrow> ('k \<Rightarrow> int \<Rightarrow> int \<Rightarrow> u32) \<Rightarrow> u32 \<Rightarrow> 'k \<Rightarrow> int \<Rightarrow> int \<Rightarrow> bool" where
  "tag_hit em tag bmask k i e \<longleftrightarrow> 0 \<le> e \<and> e < em \<and> and (tag k i e) bmask = 0"

definition attempt_good :: "int \<Rightarrow> int \<Rightarrow> ('k \<Rightarrow> int \<Rightarrow> int \<Rightarrow> u32) \<Rightarrow> u32 \<Rightarrow> 'k \<Rightarrow> bool" where
  "attempt_good rho em tag bmask k \<longleftrightarrow> (\<forall>i. 0 \<le> i \<and> i < rho \<longrightarrow> (\<exists>e. tag_hit em tag bmask k i e))"

primrec rng_after :: "('r \<Rightarrow> 'r) \<Rightarrow> nat \<Rightarrow> 'r \<Rightarrow> 'r" where
  "rng_after step 0 r = r"
| "rng_after step (Suc m) r = rng_after step m (step r)"

text \<open>
  What the callbacks promise. An attempt \<open>k\<close> is fixed by the randomness drawn at its start; \<open>inv k es\<close> says that the challenges
  \<open>es\<close> are stored for the first indices, \<open>at k es e\<close> that the response for the next index is computed for the challenge \<open>e\<close>, and
  \<open>ready r\<close> that the next attempt draws from \<open>r\<close>.
\<close>

locale fischlin_prover =
  fixes ops :: "'s fischlin_ops" and rho em :: int
    and ready :: "'r \<Rightarrow> 's \<Rightarrow> bool" and attempt :: "'r \<Rightarrow> 'k" and rest :: "'k \<Rightarrow> 'r"
    and inv :: "'k \<Rightarrow> int list \<Rightarrow> 's \<Rightarrow> bool" and at :: "'k \<Rightarrow> int list \<Rightarrow> int \<Rightarrow> 's \<Rightarrow> bool"
    and tag :: "'k \<Rightarrow> int \<Rightarrow> int \<Rightarrow> u32"
  assumes op_initialize: "ready r st \<Longrightarrow> \<exists>st'. initialize ops st = Inr st' \<and> inv (attempt r) [] st'"
    and op_begin: "inv k es st \<Longrightarrow> int (length es) < rho \<Longrightarrow> \<exists>st'. response_begin ops (int (length es)) st = Inr st' \<and> at k es 0 st'"
    and op_hash: "at k es e st \<Longrightarrow> e < em \<Longrightarrow> fhash ops (int (length es)) e st = Inr (tag k (int (length es)) e)"
    and op_next: "at k es e st \<Longrightarrow> e + 1 < em \<Longrightarrow> \<exists>st'. response_next ops (e + 1) st = Inr st' \<and> at k es (e + 1) st'"
    and op_save: "at k es e st \<Longrightarrow> e < em \<Longrightarrow> \<exists>st'. fsave ops (int (length es)) e st = Inr st' \<and> inv k (es @ [e]) st'"
    and op_ready: "at k es e st \<Longrightarrow> ready (rest k) st"
    and at_nonneg: "at k es e st \<Longrightarrow> 0 \<le> e"
begin

lemma search_finds:
  assumes "at k es e st" "e < em"
  shows "\<exists>st' f. fischlin_search ops bmask em (int (length es)) e st = Inr (f, st') \<and>
     (case f of None \<Rightarrow> ready (rest k) st' \<and> (\<forall>d. e \<le> d \<longrightarrow> \<not> tag_hit em tag bmask k (int (length es)) d)
      | Some d \<Rightarrow> at k es d st' \<and> tag_hit em tag bmask k (int (length es)) d)"
  using assms
proof (induction "nat (em - e)" arbitrary: e st rule: less_induct)
  case less
  let ?i = "int (length es)"
  note unfold = fischlin_search.simps [of ops bmask em ?i e st]
  have h: "fhash ops ?i e st = Inr (tag k ?i e)" by (rule op_hash [OF less.prems])
  show ?case
  proof (cases "and (tag k ?i e) bmask = 0")
    case True
    then show ?thesis
      using less.prems h at_nonneg [OF less.prems(1)] by (subst unfold) (simp add: tag_hit_def)
  next
    case miss: False
    show ?thesis
    proof (cases "e + 1 < em")
      case True
      obtain st' where st': "response_next ops (e + 1) st = Inr st'" "at k es (e + 1) st'"
        using op_next [OF less.prems(1) True] by blast
      obtain st'' f where f: "fischlin_search ops bmask em ?i (e + 1) st' = Inr (f, st'')"
        "case f of None \<Rightarrow> ready (rest k) st'' \<and> (\<forall>d. e + 1 \<le> d \<longrightarrow> \<not> tag_hit em tag bmask k ?i d)
         | Some d \<Rightarrow> at k es d st'' \<and> tag_hit em tag bmask k ?i d"
        using less.hyps [OF _ st'(2) True] less.prems(2) by auto
      have "\<forall>d. e \<le> d \<longrightarrow> \<not> tag_hit em tag bmask k ?i d" if "\<forall>d. e + 1 \<le> d \<longrightarrow> \<not> tag_hit em tag bmask k ?i d"
        using that miss by (metis tag_hit_def zless_imp_add1_zle order_le_less)
      then show ?thesis
        using less.prems(2) miss True h st'(1) f by (subst unfold) (auto split: option.splits)
    next
      case False
      have "\<not> tag_hit em tag bmask k ?i d" if "e \<le> d" for d
        using that False miss less.prems(2) by (cases "d = e") (auto simp: tag_hit_def)
      then show ?thesis
        using less.prems(2) miss False h op_ready [OF less.prems(1)]
        by (subst unfold) (simp add: fischlin_search.simps [of _ _ _ _ "e + 1"])
    qed
  qed
qed

lemma indices_find:
  assumes "inv k es st" "0 < em" "int (length es) \<le> rho" "\<And>i. i < length es \<Longrightarrow> tag_hit em tag bmask k (int i) (es ! i)"
  shows "\<exists>f st'. fischlin_indices ops bmask em [int (length es)..rho - 1] st = Inr (f, st') \<and>
    (if f then \<exists>es'. inv k es' st' \<and> int (length es') = rho \<and> (\<forall>i < length es'. tag_hit em tag bmask k (int i) (es' ! i))
     else ready (rest k) st' \<and> \<not> attempt_good rho em tag bmask k)"
  using assms
proof (induction "nat (rho - int (length es))" arbitrary: es st rule: less_induct)
  case less
  show ?case
  proof (cases "int (length es) < rho")
    case False
    then show ?thesis using less.prems by auto
  next
    case True
    let ?i = "int (length es)"
    have range: "[?i..rho - 1] = ?i # [1 + ?i..rho - 1]"
      using True by (simp add: upto_rec1 add.commute)
    obtain st1 where st1: "response_begin ops ?i st = Inr st1" "at k es 0 st1"
      using op_begin [OF less.prems(1) True] by blast
    obtain st2 f where f: "fischlin_search ops bmask em ?i 0 st1 = Inr (f, st2)"
      "case f of None \<Rightarrow> ready (rest k) st2 \<and> (\<forall>d. 0 \<le> d \<longrightarrow> \<not> tag_hit em tag bmask k ?i d)
       | Some d \<Rightarrow> at k es d st2 \<and> tag_hit em tag bmask k ?i d"
      using search_finds [OF st1(2) less.prems(2)] by blast
    show ?thesis
    proof (cases f)
      case None
      then have "\<not> tag_hit em tag bmask k ?i d" for d using f(2) by (cases "0 \<le> d") (auto simp: tag_hit_def)
      then have "\<not> attempt_good rho em tag bmask k" using True unfolding attempt_good_def by (metis of_nat_0_le_iff)
      with None f st1 show ?thesis by (intro exI [of _ False] exI [of _ st2], subst range) simp
    next
      case (Some d)
      then have d: "at k es d st2" "tag_hit em tag bmask k ?i d" using f(2) by auto
      obtain st3 where st3: "fsave ops ?i d st2 = Inr st3" "inv k (es @ [d]) st3"
        using op_save [OF d(1)] d(2) by (auto simp: tag_hit_def)
      have hits: "tag_hit em tag bmask k (int i) ((es @ [d]) ! i)" if "i < length (es @ [d])" for i
        using that less.prems(4) d(2) by (cases "i = length es") (auto simp: nth_append)
      have "nat (rho - int (length (es @ [d]))) < nat (rho - int (length es))" using True by simp
      from less.hyps [OF this st3(2) less.prems(2) _ hits] True Some f(1) st1(1) st3(1) show ?thesis
        by (subst range) simp
    qed
  qed
qed

lemma attempt_ends:
  assumes "0 < em" "0 \<le> rho" "ready r st"
  obtains es st' where "bind_res (initialize ops st) (fischlin_indices ops bmask em [0..rho - 1]) = Inr (True, st')"
      "inv (attempt r) es st'" "int (length es) = rho" "\<forall>i < length es. tag_hit em tag bmask (attempt r) (int i) (es ! i)"
    | st' where "bind_res (initialize ops st) (fischlin_indices ops bmask em [0..rho - 1]) = Inr (False, st')"
      "ready (rest (attempt r)) st'" "\<not> attempt_good rho em tag bmask (attempt r)"
proof -
  obtain st1 where st1: "initialize ops st = Inr st1" "inv (attempt r) [] st1" using op_initialize [OF assms(3)] by blast
  from indices_find [OF st1(2) assms(1), of bmask] assms(2) obtain f st2
    where f: "fischlin_indices ops bmask em [0..rho - 1] st1 = Inr (f, st2)"
    "if f then \<exists>es. inv (attempt r) es st2 \<and> int (length es) = rho \<and> (\<forall>i < length es. tag_hit em tag bmask (attempt r) (int i) (es ! i))
     else ready (rest (attempt r)) st2 \<and> \<not> attempt_good rho em tag bmask (attempt r)"
    by auto
  show ?thesis
  proof (cases f)
    case True
    with f(2) obtain es where "inv (attempt r) es st2" "int (length es) = rho"
      "\<forall>i < length es. tag_hit em tag bmask (attempt r) (int i) (es ! i)" by auto
    with that(1) f(1) st1(1) True show ?thesis by simp
  next
    case False
    with that(2) f st1(1) show ?thesis by simp
  qed
qed

lemma loop_returns:
  assumes em: "0 < em" and rho: "0 \<le> rho"
  shows "ready r st \<Longrightarrow> attempt_good rho em tag bmask (attempt (rng_after (\<lambda>r. rest (attempt r)) m r)) \<Longrightarrow>
    \<exists>r' es st'. fischlin_loop (\<lambda>st. bind_res (initialize ops st) (fischlin_indices ops bmask em [0..rho - 1])) st = Some (Inr st')
      \<and> inv (attempt r') es st' \<and> int (length es) = rho \<and> (\<forall>i < length es. tag_hit em tag bmask (attempt r') (int i) (es ! i))"
proof (induction m arbitrary: r st)
  case 0
  show ?case
  proof (rule attempt_ends [OF em rho 0(1), of bmask])
    fix es st' assume "bind_res (initialize ops st) (fischlin_indices ops bmask em [0..rho - 1]) = Inr (True, st')"
      "inv (attempt r) es st'" "int (length es) = rho" "\<forall>i < length es. tag_hit em tag bmask (attempt r) (int i) (es ! i)"
    then show ?thesis by (subst fischlin_loop.simps) auto
  qed (use 0 in simp)
next
  case (Suc m)
  show ?case
  proof (rule attempt_ends [OF em rho Suc.prems(1), of bmask])
    fix es st' assume "bind_res (initialize ops st) (fischlin_indices ops bmask em [0..rho - 1]) = Inr (True, st')"
      "inv (attempt r) es st'" "int (length es) = rho" "\<forall>i < length es. tag_hit em tag bmask (attempt r) (int i) (es ! i)"
    then show ?thesis by (subst fischlin_loop.simps) auto
  next
    fix st' assume "bind_res (initialize ops st) (fischlin_indices ops bmask em [0..rho - 1]) = Inr (False, st')"
      "ready (rest (attempt r)) st'"
    with Suc.IH [of "rest (attempt r)" st'] Suc.prems(2) show ?thesis by (subst fischlin_loop.simps) simp
  qed
qed

end

end
