(* ===== verification/Finite_Difference.thy ===== *)
theory Finite_Difference
  imports Fischlin
begin

text \<open>
  The table of finite differences behind the batched proof of knowledge of discrete logarithms in \<^verbatim>\<open>zk/zk_ec.cpp\<close>. The response to a
  challenge \<open>e\<close> is the value at \<open>e\<close> of the polynomial whose coefficients are the secrets. The prover evaluates it at the first
  challenges by Horner's rule and builds from the values a table of differences, from which the next values follow by additions.
  The routines are a template over the number type; the model is the instance for \<^verbatim>\<open>bn_t\<close>.
\<close>

section \<open>Vectors\<close>

text \<open>\<^verbatim>\<open>std::vector\<close> accessed by index, and the two vectors with an offset, \<^verbatim>\<open>matrix_sum_t\<close> and \<^verbatim>\<open>vector_sum_t\<close>.\<close>

definition vec_at :: "'a list \<Rightarrow> int \<Rightarrow> 'a res" where
  "vec_at xs i = (if 0 \<le> i \<and> i < int (length xs) then Inr (xs ! nat i) else Inl Out_Of_Bounds)"

definition vec_set :: "int \<Rightarrow> 'a \<Rightarrow> 'a list \<Rightarrow> 'a list res" where
  "vec_set i x xs = (if 0 \<le> i \<and> i < int (length xs) then Inr (xs[nat i := x]) else Inl Out_Of_Bounds)"

type_synonym matrix = "int \<Rightarrow> int \<Rightarrow> int"

definition in_matrix :: "int \<Rightarrow> int \<Rightarrow> int \<Rightarrow> bool" where
  "in_matrix n j i \<longleftrightarrow> 0 \<le> j + (n + 1) div 2 \<and> j + (n + 1) div 2 < n + 3 \<and> 0 \<le> i \<and> i < n + 1"

definition mat_get :: "int \<Rightarrow> int \<Rightarrow> int \<Rightarrow> matrix \<Rightarrow> int res" where
  "mat_get n j i m = (if in_matrix n j i then Inr (m j i) else Inl Out_Of_Bounds)"

definition mat_put :: "int \<Rightarrow> int \<Rightarrow> int \<Rightarrow> int \<Rightarrow> matrix \<Rightarrow> matrix res" where
  "mat_put n j i v m = (if in_matrix n j i then Inr (m(j := (m j)(i := v))) else Inl Out_Of_Bounds)"

definition mat_row :: "int \<Rightarrow> int \<Rightarrow> matrix \<Rightarrow> int list res" where
  "mat_row n j m = (if in_matrix n j 0 then Inr (map (m j) [0..n]) else Inl Out_Of_Bounds)"

definition sum_get :: "int \<Rightarrow> int \<Rightarrow> int \<Rightarrow> (int \<Rightarrow> int) \<Rightarrow> int res" where
  "sum_get n t e s = (if 0 \<le> e + (n + 1) div 2 \<and> e + (n + 1) div 2 < 2 ^ nat t then Inr (s e) else Inl Out_Of_Bounds)"

definition sum_put :: "int \<Rightarrow> int \<Rightarrow> int \<Rightarrow> int \<Rightarrow> (int \<Rightarrow> int) \<Rightarrow> (int \<Rightarrow> int) res" where
  "sum_put n t e v s = (if 0 \<le> e + (n + 1) div 2 \<and> e + (n + 1) div 2 < 2 ^ nat t then Inr (s(e := v)) else Inl Out_Of_Bounds)"

section \<open>The table of differences\<close>

text \<open>The secrets split into the coefficients of the even and of the odd powers.\<close>

definition split_step :: "int \<Rightarrow> nat \<times> int \<Rightarrow> int list \<times> int list \<Rightarrow> (int list \<times> int list) res" where
  "split_step q jw pws =
     bind_res (cb_assert (is_in_range q (snd jw))) (\<lambda>_.
       Inr (if fst jw mod 2 = 0 then (fst pws, snd pws @ [snd jw]) else (fst pws @ [snd jw], snd pws)))"

definition split_secrets :: "int \<Rightarrow> int list \<Rightarrow> (int list \<times> int list) res" where
  "split_secrets q w = fold_res (split_step q) (enumerate 0 w) ([0], [])"

text \<open>The values at \<open>ei\<close> and \<open>-ei\<close>.\<close>

definition values_step ::
  "int \<Rightarrow> int \<Rightarrow> int \<Rightarrow> int list \<Rightarrow> int list \<Rightarrow> int \<Rightarrow> matrix \<times> (int \<Rightarrow> int) \<Rightarrow> (matrix \<times> (int \<Rightarrow> int)) res" where
  "values_step q n t pw0 pw1 ei ms =
     bind_res (mod_mul False q ei ei) (\<lambda>ei_square.
     bind_res (horner_poly False q pw0 ei_square) (\<lambda>alpha.
     bind_res (horner_poly False q pw1 ei_square) (\<lambda>beta.
     bind_res (mod_mul False q beta ei) (\<lambda>beta_times_ei.
     bind_res (mod_add False q alpha beta_times_ei) (\<lambda>plus.
     bind_res (mat_put n ei 0 plus (fst ms)) (\<lambda>m.
     bind_res (sum_put n t ei plus (snd ms)) (\<lambda>s.
     bind_res (mod_sub False q alpha beta_times_ei) (\<lambda>minus.
     bind_res (mat_put n (- ei) 0 minus m) (\<lambda>m.
     bind_res (sum_put n t (- ei) minus s) (\<lambda>s. Inr (m, s)))))))))))"

definition difference_step :: "int \<Rightarrow> int \<Rightarrow> int \<Rightarrow> int \<Rightarrow> matrix \<Rightarrow> matrix res" where
  "difference_step q n i j m =
     bind_res (mat_get n (j + 1) (i - 1) m) (\<lambda>a.
     bind_res (mat_get n j (i - 1) m) (\<lambda>b.
     bind_res (mod_sub False q a b) (\<lambda>d. mat_put n j i d m)))"

definition difference_columns :: "int \<Rightarrow> int \<Rightarrow> matrix \<Rightarrow> matrix res" where
  "difference_columns q n =
     fold_res (\<lambda>i. fold_res (difference_step q n i) (rev [- ((n + 1) div 2)..(n + 1) div 2 - i])) [1..n]"

text \<open>\<^verbatim>\<open>add_mod\<close> on \<^verbatim>\<open>bn_t\<close>, which is \<^verbatim>\<open>bn_mod_add_fixed_top\<close>.\<close>

definition add_mod :: "int \<Rightarrow> int \<Rightarrow> int \<Rightarrow> int" where
  "add_mod q a b = (if q \<le> a + b then a + b - q else a + b)"

definition extend_cell :: "int \<Rightarrow> int \<Rightarrow> int \<Rightarrow> int \<Rightarrow> matrix \<Rightarrow> matrix res" where
  "extend_cell q n j i m =
     bind_res (mat_get n (j - 1) i m) (\<lambda>a.
     bind_res (mat_get n (j - 1) (i + 1) m) (\<lambda>b. mat_put n j i (add_mod q a b) m))"

definition copy_last :: "int \<Rightarrow> int \<Rightarrow> matrix \<Rightarrow> matrix res" where
  "copy_last n j m = bind_res (mat_get n (j - 1) n m) (\<lambda>v. mat_put n j n v m)"

definition extend_row :: "int \<Rightarrow> int \<Rightarrow> int \<Rightarrow> matrix \<Rightarrow> matrix res" where
  "extend_row q n j m =
     bind_res (copy_last n j m) (fold_res (extend_cell q n j) (rev [(n + 1) div 2 - j + 1..n - 1]))"

definition batch_table :: "int \<Rightarrow> int \<Rightarrow> int list \<Rightarrow> (matrix \<times> (int \<Rightarrow> int)) res" where
  "batch_table q t w =
     (let n = int (length w); n_half = (n + 1) div 2
      in bind_res (split_secrets q w) (\<lambda>(pw0, pw1).
         bind_res (fold_res (values_step q n t pw0 pw1) [0..n_half] (\<lambda>_ _. 0, \<lambda>_. 0)) (\<lambda>(m, s).
         bind_res (difference_columns q n m) (\<lambda>m.
         bind_res (copy_last n (- n_half + 1) m) (\<lambda>m.
         bind_res (fold_res (extend_row q n) [- n_half + 2..n_half] m) (\<lambda>m. Inr (m, s)))))))"

section \<open>Finite differences\<close>

text \<open>The polynomial of the secrets, and its forward differences.\<close>

definition secret_poly :: "int list \<Rightarrow> int \<Rightarrow> int" where
  "secret_poly w = poly_eval (0 # w)"

primrec diff :: "(int \<Rightarrow> int) \<Rightarrow> nat \<Rightarrow> int \<Rightarrow> int" where
  "diff F 0 j = F j"
| "diff F (Suc i) j = diff F i (j + 1) - diff F i j"

lemma poly_difference: "\<exists>c. length c \<le> length b - 1 \<and> (\<forall>x. poly_eval c x = poly_eval b (x + 1) - poly_eval b x)"
proof (induction b)
  case (Cons a b)
  then obtain c where c: "length c \<le> length b - 1" "\<And>x. poly_eval c x = poly_eval b (x + 1) - poly_eval b x" by blast
  show ?case
  proof (cases b)
    case Nil
    then show ?thesis by (intro exI [of _ "[]"]) simp
  next
    case (Cons a' b')
    then have l: "length (0 # c) \<le> length b" "length c \<le> length b" "length b \<le> length b" using c(1) by auto
    obtain d where d: "length d \<le> length b" "\<And>x. poly_eval d x = poly_eval (0 # c) x + poly_eval c x"
      using poly_sum_exists [OF l(1,2)] by blast
    obtain f where f: "length f \<le> length b" "\<And>x. poly_eval f x = poly_eval d x + poly_eval b x"
      using poly_sum_exists [OF d(1) l(3)] by blast
    have "poly_eval f x = poly_eval (a # b) (x + 1) - poly_eval (a # b) x" for x
      using f(2) [of x] d(2) [of x] c(2) [of x] by (simp add: algebra_simps)
    with f(1) show ?thesis by (intro exI [of _ f]) simp
  qed
qed simp

lemma diff_shift: "diff F (Suc i) j = diff (\<lambda>x. F (x + 1) - F x) i j"
proof (induction i arbitrary: j)
  case (Suc i)
  have "diff F (Suc (Suc i)) j = diff F (Suc i) (j + 1) - diff F (Suc i) j" by (rule diff.simps(2))
  also have "\<dots> = diff (\<lambda>x. F (x + 1) - F x) i (j + 1) - diff (\<lambda>x. F (x + 1) - F x) i j" by (simp only: Suc.IH)
  finally show ?case by simp
qed simp

lemma diff_poly_zero: "length b \<le> i \<Longrightarrow> diff (poly_eval b) i j = 0"
proof (induction i arbitrary: b j)
  case (Suc i)
  obtain c where c: "length c \<le> length b - 1" "\<And>x. poly_eval c x = poly_eval b (x + 1) - poly_eval b x"
    using poly_difference by blast
  have "diff (poly_eval b) (Suc i) j = diff (poly_eval c) i j"
    unfolding diff_shift c(2) [symmetric] by simp
  also have "\<dots> = 0" using c(1) Suc.prems by (intro Suc.IH) simp
  finally show ?case .
qed simp

text \<open>The entry of the table in row \<open>j\<close> and column \<open>i\<close>.\<close>

definition entry :: "int \<Rightarrow> int list \<Rightarrow> int \<Rightarrow> int \<Rightarrow> int" where
  "entry q w j i = diff (secret_poly w) (nat i) j mod q"

lemma entry_range [simp]: "0 < q \<Longrightarrow> is_in_range q (entry q w j i)"
  by (simp add: entry_def is_in_range_def)

lemma entry_value: "entry q w e 0 = secret_poly w e mod q"
  by (simp add: entry_def)

lemma entry_difference: "1 \<le> i \<Longrightarrow> entry q w j i = (entry q w (j + 1) (i - 1) - entry q w j (i - 1)) mod q"
proof -
  assume "1 \<le> i"
  then have "nat i = Suc (nat (i - 1))" by simp
  then show ?thesis by (simp add: entry_def mod_diff_eq)
qed

lemma add_mod_entry: "0 < q \<Longrightarrow> 0 \<le> i \<Longrightarrow> add_mod q (entry q w (j - 1) i) (entry q w (j - 1) (i + 1)) = entry q w j i"
proof -
  assume q: "0 < q" and i: "0 \<le> i"
  have "add_mod q a b = (a + b) mod q" if "is_in_range q a" "is_in_range q b" for a b
    using that by (auto simp: add_mod_def is_in_range_def mod_pos_pos_trivial dest: int_mod_pos_eq [symmetric] intro!: int_mod_pos_eq [symmetric])
  moreover have "nat (i + 1) = Suc (nat i)" using i by simp
  ultimately show ?thesis using q by (simp add: entry_def is_in_range_def mod_add_eq)
qed

lemma entry_last: "entry q w j (int (length w)) = entry q w (j - 1) (int (length w))"
proof -
  have "diff (secret_poly w) (Suc (length w)) (j - 1) = 0"
    unfolding secret_poly_def by (rule diff_poly_zero) simp
  then show ?thesis by (simp add: entry_def)
qed

section \<open>The table holds the differences\<close>

text \<open>A region of the table that holds its entries; the steps of the loops enlarge it.\<close>

definition agree :: "int \<Rightarrow> int list \<Rightarrow> (int \<times> int) set \<Rightarrow> matrix \<Rightarrow> bool" where
  "agree q w S m \<longleftrightarrow> (\<forall>(j, i)\<in>S. m j i = entry q w j i)"

lemma agree_put: "agree q w S m \<Longrightarrow> v = entry q w j i \<Longrightarrow> agree q w (insert (j, i) S) (m(j := (m j)(i := v)))"
  by (auto simp: agree_def)

lemma agree_mono: "agree q w S m \<Longrightarrow> T \<subseteq> S \<Longrightarrow> agree q w T m"
  by (auto simp: agree_def)

lemma agree_at: "agree q w S m \<Longrightarrow> (j, i) \<in> S \<Longrightarrow> m j i = entry q w j i"
  by (auto simp: agree_def)

text \<open>Loops: each step needs some cells and gives others.\<close>

definition fills :: "int \<Rightarrow> int list \<Rightarrow> (int \<times> int) set \<Rightarrow> (int \<times> int) set \<Rightarrow> (matrix \<Rightarrow> matrix res) \<Rightarrow> bool" where
  "fills q w need give f \<longleftrightarrow> (\<forall>S m. need \<subseteq> S \<longrightarrow> agree q w S m \<longrightarrow> (\<exists>m'. f m = Inr m' \<and> agree q w (S \<union> give) m'))"

lemma fillsD: "fills q w need give f \<Longrightarrow> need \<subseteq> S \<Longrightarrow> agree q w S m \<Longrightarrow> \<exists>m'. f m = Inr m' \<and> agree q w (S \<union> give) m'"
  by (simp add: fills_def)

lemma fills_weaken: "fills q w need give f \<Longrightarrow> need \<subseteq> need' \<Longrightarrow> fills q w need' give f"
  unfolding fills_def using order_trans [of need need'] by blast

lemma fills_fold:
  assumes "\<And>x. x \<in> set xs \<Longrightarrow> fills q w need (give x) (f x)"
  shows "fills q w need (\<Union>x\<in>set xs. give x) (fold_res f xs)"
proof -
  have "\<exists>m'. fold_res f xs m = Inr m' \<and> agree q w (S \<union> (\<Union>x\<in>set xs. give x)) m'"
    if "need \<subseteq> S" "agree q w S m" for S m
    using assms that
  proof (induction xs arbitrary: S m)
    case (Cons x xs)
    obtain m1 where m1: "f x m = Inr m1" "agree q w (S \<union> give x) m1"
      using fillsD [OF Cons.prems(1) [of x] Cons.prems(2,3)] by auto
    obtain m2 where "fold_res f xs m1 = Inr m2" "agree q w ((S \<union> give x) \<union> (\<Union>x\<in>set xs. give x)) m2"
      using Cons.IH [of "S \<union> give x" m1] Cons.prems m1(2) by auto
    with m1(1) show ?case by (auto simp: Un_assoc)
  qed simp
  then show ?thesis by (simp add: fills_def)
qed

lemma fills_upto:
  assumes "\<And>x. a \<le> x \<Longrightarrow> x \<le> b \<Longrightarrow> fills q w (need x) (give x) (f x)"
    and "\<And>x. a \<le> x \<Longrightarrow> x \<le> b \<Longrightarrow> need x \<subseteq> S \<union> (\<Union>y\<in>{a..<x}. give y)"
    and "agree q w S m"
  shows "\<exists>m'. fold_res f [a..b] m = Inr m' \<and> agree q w (S \<union> (\<Union>x\<in>{a..b}. give x)) m'"
  using assms
proof (induction "nat (b - a + 1)" arbitrary: a S m)
  case 0
  then show ?case by simp
next
  case (Suc k)
  then have ab: "a \<le> b" by simp
  obtain m1 where m1: "f a m = Inr m1" "agree q w (S \<union> give a) m1"
    using fillsD [OF Suc.prems(1) [of a] _ Suc.prems(3)] Suc.prems(2) [of a] ab by auto
  have "\<exists>m'. fold_res f [a + 1..b] m1 = Inr m' \<and> agree q w ((S \<union> give a) \<union> (\<Union>x\<in>{a + 1..b}. give x)) m'"
  proof (rule Suc.hyps(1) [OF _ _ _ m1(2)])
    show "k = nat (b - (a + 1) + 1)" using Suc.hyps(2) by simp
    show "need x \<subseteq> S \<union> give a \<union> (\<Union>y\<in>{a + 1..<x}. give y)" if "a + 1 \<le> x" "x \<le> b" for x
    proof -
      have "{a..<x} = insert a {a + 1..<x}" using that by auto
      then show ?thesis using Suc.prems(2) [of x] that by auto
    qed
  qed (use Suc.prems(1) in auto)
  moreover have "{a..b} = insert a {a + 1..b}" using ab by auto
  ultimately show ?case using m1(1) ab by (auto simp: upto_rec1 Un_assoc)
qed

definition table_size :: "int \<Rightarrow> int list \<Rightarrow> int \<Rightarrow> int \<Rightarrow> bool" where
  "table_size q w n h \<longleftrightarrow> 0 < q \<and> n = int (length w) \<and> h = (n + 1) div 2 \<and> 1 \<le> n"

lemma half:
  assumes "table_size q w n h"
  shows "0 < q" "1 \<le> n" "1 \<le> h" "n \<le> 2 * h" "2 * h \<le> n + 1" "(n + 1) div 2 = h" "int (length w) = n"
    "in_matrix n j i \<longleftrightarrow> - h \<le> j \<and> j < n + 3 - h \<and> 0 \<le> i \<and> i \<le> n"
  using assms unfolding table_size_def in_matrix_def by auto

lemma difference_fills:
  assumes sz: "table_size q w n h" and "1 \<le> i" "i \<le> n" "- h \<le> j" "j \<le> h - i"
  shows "fills q w {(j + 1, i - 1), (j, i - 1)} {(j, i)} (difference_step q n i j)"
  unfolding fills_def
proof (intro allI impI)
  fix S m
  assume S: "{(j + 1, i - 1), (j, i - 1)} \<subseteq> S" and m: "agree q w S m"
  have "mat_get n (j + 1) (i - 1) m = Inr (entry q w (j + 1) (i - 1))" "mat_get n j (i - 1) m = Inr (entry q w j (i - 1))"
    using agree_at [OF m] S assms half [OF sz] by (auto simp: mat_get_def)
  moreover have "mod_sub False q (entry q w (j + 1) (i - 1)) (entry q w j (i - 1)) = Inr (entry q w j i)"
    using half(1) [OF sz] entry_difference [OF assms(2)] by (simp add: mod_simps)
  moreover have "in_matrix n j i" using assms half [OF sz] by auto
  ultimately show "\<exists>m'. difference_step q n i j m = Inr m' \<and> agree q w (S \<union> {(j, i)}) m'"
    using agree_put [OF m refl, of j i] by (simp add: difference_step_def mat_put_def)
qed

lemma columns_agree:
  assumes sz: "table_size q w n h" and m: "agree q w {(j, 0) | j. - h \<le> j \<and> j \<le> h} m"
  shows "\<exists>m'. difference_columns q n m = Inr m' \<and> agree q w {(j, i). 0 \<le> i \<and> i \<le> n \<and> - h \<le> j \<and> j \<le> h - i} m'"
proof -
  let ?col = "\<lambda>i. {(j, i') | j i'. i' = i \<and> - h \<le> j \<and> j \<le> h - i}"
  let ?S = "{(j, 0) | j. - h \<le> j \<and> j \<le> h}"
  have step: "fills q w (?col (i - 1)) (?col i) (fold_res (difference_step q n i) (rev [- h..h - i]))"
    if "1 \<le> i" "i \<le> n" for i
  proof -
    have "fills q w (?col (i - 1)) {(j, i)} (difference_step q n i j)" if "j \<in> set (rev [- h..h - i])" for j
    proof (rule fills_weaken)
      show "fills q w {(j + 1, i - 1), (j, i - 1)} {(j, i)} (difference_step q n i j)"
        using difference_fills [OF sz \<open>1 \<le> i\<close> \<open>i \<le> n\<close>, of j] that by simp
      show "{(j + 1, i - 1), (j, i - 1)} \<subseteq> ?col (i - 1)" using that by simp
    qed
    from fills_fold [of "rev [- h..h - i]", OF this]
    have "fills q w (?col (i - 1)) (\<Union>j\<in>set (rev [- h..h - i]). {(j, i)}) (fold_res (difference_step q n i) (rev [- h..h - i]))" .
    moreover have "(\<Union>j\<in>set (rev [- h..h - i]). {(j, i)}) = ?col i" by auto
    ultimately show ?thesis by simp
  qed
  have need: "?col (i - 1) \<subseteq> ?S \<union> (\<Union>y\<in>{1..<i}. ?col y)" if "1 \<le> i" "i \<le> n" for i
    using that by (cases "i = 1") auto
  obtain m' where m': "difference_columns q n m = Inr m'" "agree q w (?S \<union> (\<Union>i\<in>{1..n}. ?col i)) m'"
    using fills_upto [OF step need m] by (auto simp: difference_columns_def half(6) [OF sz])
  moreover have "{(j, i). 0 \<le> i \<and> i \<le> n \<and> - h \<le> j \<and> j \<le> h - i} \<subseteq> ?S \<union> (\<Union>i\<in>{1..n}. ?col i)"
  proof clarify
    fix j i assume "0 \<le> i" "i \<le> n" "- h \<le> j" "j \<le> h - i" "(j, i) \<notin> (\<Union>i\<in>{1..n}. ?col i)"
    then show "\<exists>j'. (j, i) = (j', 0) \<and> - h \<le> j' \<and> j' \<le> h" by (cases "i = 0") auto
  qed
  ultimately show ?thesis using agree_mono by blast
qed

lemma copy_last_fills:
  assumes sz: "table_size q w n h" and "1 - h \<le> j" "j \<le> h + 1"
  shows "fills q w {(j - 1, n)} {(j, n)} (copy_last n j)"
  unfolding fills_def
proof (intro allI impI)
  fix S m
  assume S: "{(j - 1, n)} \<subseteq> S" and m: "agree q w S m"
  have "mat_get n (j - 1) n m = Inr (entry q w j n)" "in_matrix n j n"
    using agree_at [OF m] S assms half [OF sz] entry_last [of q w j] by (auto simp: mat_get_def)
  then show "\<exists>m'. copy_last n j m = Inr m' \<and> agree q w (S \<union> {(j, n)}) m'"
    using agree_put [OF m refl, of j n] by (simp add: copy_last_def mat_put_def)
qed

lemma extend_cell_fills:
  assumes sz: "table_size q w n h" and "1 - h \<le> j" "j \<le> h + 1" "0 \<le> i" "i < n"
  shows "fills q w {(j - 1, i), (j - 1, i + 1)} {(j, i)} (extend_cell q n j i)"
  unfolding fills_def
proof (intro allI impI)
  fix S m
  assume S: "{(j - 1, i), (j - 1, i + 1)} \<subseteq> S" and m: "agree q w S m"
  have "mat_get n (j - 1) i m = Inr (entry q w (j - 1) i)" "mat_get n (j - 1) (i + 1) m = Inr (entry q w (j - 1) (i + 1))"
    "in_matrix n j i"
    using agree_at [OF m] S assms half [OF sz] by (auto simp: mat_get_def)
  then show "\<exists>m'. extend_cell q n j i m = Inr m' \<and> agree q w (S \<union> {(j, i)}) m'"
    using agree_put [OF m refl, of j i] add_mod_entry [OF half(1) [OF sz] assms(4)]
    by (simp add: extend_cell_def mat_put_def)
qed

lemma extend_row_fills:
  assumes sz: "table_size q w n h" and j: "2 - h \<le> j" "j \<le> h"
  shows "fills q w ({j - 1} \<times> {h - j + 1..n}) ({j} \<times> {h - j + 1..n}) (extend_row q n j)"
  unfolding fills_def
proof (intro allI impI)
  fix S m
  let ?need = "{j - 1} \<times> {h - j + 1..n}" and ?is = "rev [h - j + 1..n - 1]"
  assume S: "?need \<subseteq> S" and m: "agree q w S m"
  have n: "h - j + 1 \<le> n" using j half(5) [OF sz] by linarith
  then have last: "{(j - 1, n)} \<subseteq> S" using S by auto
  obtain m1 where m1: "copy_last n j m = Inr m1" "agree q w (S \<union> {(j, n)}) m1"
    using fillsD [OF copy_last_fills [OF sz] last m] j by auto
  have "fills q w ?need {(j, i)} (extend_cell q n j i)" if "i \<in> set ?is" for i
  proof (rule fills_weaken)
    show "fills q w {(j - 1, i), (j - 1, i + 1)} {(j, i)} (extend_cell q n j i)"
      using that j by (intro extend_cell_fills [OF sz]) auto
    show "{(j - 1, i), (j - 1, i + 1)} \<subseteq> ?need" using that by simp
  qed
  then have fold: "fills q w ?need (\<Union>i\<in>set ?is. {(j, i)}) (fold_res (extend_cell q n j) ?is)" by (rule fills_fold)
  have "?need \<subseteq> S \<union> {(j, n)}" using S by blast
  from fillsD [OF fold this m1(2)] obtain m2
    where m2: "fold_res (extend_cell q n j) ?is m1 = Inr m2" "agree q w (S \<union> {(j, n)} \<union> (\<Union>i\<in>set ?is. {(j, i)})) m2"
    by (elim exE conjE)
  have "(\<Union>i\<in>set ?is. {(j, i)}) = {j} \<times> {h - j + 1..n - 1}" by auto
  moreover have "{h - j + 1..n} \<subseteq> {n} \<union> {h - j + 1..n - 1}" by auto
  ultimately have "S \<union> {j} \<times> {h - j + 1..n} \<subseteq> S \<union> {(j, n)} \<union> (\<Union>i\<in>set ?is. {(j, i)})" by blast
  then have "agree q w (S \<union> {j} \<times> {h - j + 1..n}) m2" by (rule agree_mono [OF m2(2)])
  with m1(1) m2(1) show "\<exists>m'. extend_row q n j m = Inr m' \<and> agree q w (S \<union> {j} \<times> {h - j + 1..n}) m'"
    by (simp add: extend_row_def half(6) [OF sz])
qed

lemma rows_agree:
  assumes sz: "table_size q w n h" and m: "agree q w {(j, i). 0 \<le> i \<and> i \<le> n \<and> - h \<le> j \<and> j \<le> h - i} m"
  shows "\<exists>m'. bind_res (copy_last n (- h + 1) m) (fold_res (extend_row q n) [- h + 2..h]) = Inr m'
     \<and> (\<forall>i. 0 \<le> i \<and> i \<le> n \<longrightarrow> m' h i = entry q w h i) \<and> m' (- h) 0 = entry q w (- h) 0"
proof -
  let ?S = "{(j, i). 0 \<le> i \<and> i \<le> n \<and> - h \<le> j \<and> j \<le> h - i}" and ?row = "\<lambda>j. {j} \<times> {h - j + 1..n}"
  note half = half [OF sz]
  have "{(- h + 1 - 1, n)} \<subseteq> ?S" using half by auto
  then obtain m1 where m1: "copy_last n (- h + 1) m = Inr m1" "agree q w (?S \<union> {(- h + 1, n)}) m1"
    using fillsD [OF copy_last_fills [OF sz] _ m, of "- h + 1"] half(3) by auto
  have need: "{j - 1} \<times> {h - j + 1..n} \<subseteq> (?S \<union> {(- h + 1, n)}) \<union> (\<Union>y\<in>{- h + 2..<j}. ?row y)"
    if jj: "- h + 2 \<le> j" "j \<le> h" for j
  proof
    fix x assume "x \<in> {j - 1} \<times> {h - j + 1..n}"
    then obtain i where i: "x = (j - 1, i)" "h - j + 1 \<le> i" "i \<le> n" by auto
    consider "j = - h + 2" "i = n" | "i = h - j + 1" | "j = - h + 2" "i \<noteq> n" | "- h + 2 < j" "h - j + 2 \<le> i"
      using i(2) jj(1) by linarith
    then show "x \<in> (?S \<union> {(- h + 1, n)}) \<union> (\<Union>y\<in>{- h + 2..<j}. ?row y)"
    proof cases
      case 3
      then have "i = h - j + 1" using i half(4,5) by linarith
      then show ?thesis using i jj by simp
    next
      case 4
      then have "(j - 1, i) \<in> ?row (j - 1)" "j - 1 \<in> {- h + 2..<j}" using i by simp_all
      then show ?thesis using i(1) by blast
    qed (use i jj in simp_all)
  qed
  obtain m2 where m2: "fold_res (extend_row q n) [- h + 2..h] m1 = Inr m2"
    "agree q w ((?S \<union> {(- h + 1, n)}) \<union> (\<Union>j\<in>{- h + 2..h}. ?row j)) m2"
    using fills_upto [where f = "extend_row q n", OF _ need m1(2)] extend_row_fills [OF sz] by auto
  have "m2 h i = entry q w h i" if "0 \<le> i" "i \<le> n" for i
  proof (rule agree_at [OF m2(2)])
    show "(h, i) \<in> (?S \<union> {(- h + 1, n)}) \<union> (\<Union>j\<in>{- h + 2..h}. ?row j)"
      using that half(3) by (cases "i = 0"; cases "h = 1") auto
  qed
  moreover have "m2 (- h) 0 = entry q w (- h) 0" using half by (intro agree_at [OF m2(2)]) auto
  ultimately show ?thesis using m1(1) m2(1) by simp
qed

lemma eqm_poly_eval: "eqm q x y \<Longrightarrow> eqm q (poly_eval b x) (poly_eval b y)"
  by (induction b) (auto intro: eqm_add eqm_mult)

lemma split_secrets_correct:
  assumes "list_all (is_in_range q) w" "0 < q"
  shows "\<exists>p0 p1. split_secrets q w = Inr (p0, p1) \<and> list_all (is_in_range q) p0 \<and> list_all (is_in_range q) p1
    \<and> length p0 = Suc (length w div 2) \<and> length p1 = Suc (length w) div 2
    \<and> (\<forall>e. poly_eval p0 (e * e) + e * poly_eval p1 (e * e) = secret_poly w e)"
  using assms
proof (induction w rule: rev_induct)
  case Nil
  then show ?case by (simp add: split_secrets_def secret_poly_def is_in_range_def)
next
  case (snoc x w)
  then obtain p0 p1 where p: "split_secrets q w = Inr (p0, p1)" "list_all (is_in_range q) p0" "list_all (is_in_range q) p1"
    "length p0 = Suc (length w div 2)" "length p1 = Suc (length w) div 2"
    "\<And>e. poly_eval p0 (e * e) + e * poly_eval p1 (e * e) = secret_poly w e"
    by auto
  have x: "is_in_range q x" using snoc.prems by simp
  have poly: "secret_poly (w @ [x]) e = secret_poly w e + x * e ^ Suc (length w)" for e
    using poly_eval_snoc [of "0 # w" x e] by (simp add: secret_poly_def)
  have sq: "(e * e) ^ k = e ^ (2 * k)" for e :: int and k by (simp add: power_mult power2_eq_square)
  have step: "split_secrets q (w @ [x]) = split_step q (length w, x) (p0, p1)"
    using p(1) x by (simp add: split_secrets_def enumerate_append_eq fold_res_append split_step_def)
  show ?case
  proof (cases "even (length w)")
    case True
    then have l: "2 * (Suc (length w) div 2) = length w" by auto
    have "poly_eval p0 (e * e) + e * poly_eval (p1 @ [x]) (e * e) = secret_poly (w @ [x]) e" for e
      using p(6) [of e] l by (simp add: poly poly_eval_snoc sq p(5) algebra_simps)
    with True p x step show ?thesis
      by (intro exI [of _ p0] exI [of _ "p1 @ [x]"]) (auto simp: split_step_def elim!: evenE)
  next
    case False
    then have "2 * Suc (length w div 2) = Suc (length w)" by (auto elim!: oddE)
    then have l: "2 * length p0 = Suc (length w)" by (simp add: p(4))
    have "poly_eval (p0 @ [x]) (e * e) + e * poly_eval p1 (e * e) = secret_poly (w @ [x]) e" for e
      using p(6) [of e] by (simp only: poly poly_eval_snoc sq l)
    with False p x step show ?thesis
      by (intro exI [of _ "p0 @ [x]"] exI [of _ p1]) (auto simp: split_step_def elim!: oddE)
  qed
qed

lemma values_step_correct:
  assumes sz: "table_size q w n h" and q: "barrett_ok q" and e: "0 \<le> e" "e \<le> h" "h < q" and t: "2 * h < 2 ^ nat t"
    and p: "list_all (is_in_range q) p0" "list_all (is_in_range q) p1" "p0 \<noteq> []" "p1 \<noteq> []"
      "\<And>e. poly_eval p0 (e * e) + e * poly_eval p1 (e * e) = secret_poly w e"
  shows "values_step q n t p0 p1 e (m, s) = Inr
    (let m1 = m(e := (m e)(0 := entry q w e 0)); s1 = s(e := entry q w e 0)
     in (m1(- e := (m1 (- e))(0 := entry q w (- e) 0)), s1(- e := entry q w (- e) 0)))"
proof -
  note half = half [OF sz]
  let ?sq = "e * e mod q" and ?a = "poly_eval p0 (e * e mod q) mod q" and ?b = "poly_eval p1 (e * e mod q) mod q"
  have er: "is_in_range q e" using e by (simp add: is_in_range_def)
  have ops: "mod_mul False q e e = Inr ?sq" "horner_poly False q p0 ?sq = Inr ?a" "horner_poly False q p1 ?sq = Inr ?b"
    "mod_mul False q ?b e = Inr (?b * e mod q)"
    "mod_add False q ?a (?b * e mod q) = Inr ((?a + ?b * e mod q) mod q)"
    "mod_sub False q ?a (?b * e mod q) = Inr ((?a - ?b * e mod q) mod q)"
    using er q p half(1) by (simp_all add: mod_simps horner_poly_correct is_in_range_def)
  have a: "eqm q ?a (poly_eval p0 (e * e))" "eqm q (?b * e mod q) (poly_eval p1 (e * e) * e)"
    by (auto intro!: eqm_poly_eval eqm_mult)
  have "eqm q (?a + ?b * e mod q) (secret_poly w e)" "eqm q (?a - ?b * e mod q) (secret_poly w (- e))"
    using eqm_add [OF a] eqm_diff [OF a] p(5) [of e] p(5) [of "- e"] by (simp_all add: mult.commute)
  then have v: "(?a + ?b * e mod q) mod q = entry q w e 0" "(?a - ?b * e mod q) mod q = entry q w (- e) 0"
    by (simp_all add: eqm_def entry_value)
  have "in_matrix n e 0" "in_matrix n (- e) 0" "e + (n + 1) div 2 < 2 ^ nat t" "0 \<le> - e + (n + 1) div 2" "- e + (n + 1) div 2 < 2 ^ nat t"
    using e t half by auto
  then show ?thesis using e(1) half by (simp add: values_step_def ops v mat_put_def sum_put_def Let_def)
qed

lemma values_fold:
  assumes sz: "table_size q w n h" and q: "barrett_ok q" and e: "set es \<subseteq> {0..h}" "h < q" and t: "2 * h < 2 ^ nat t"
    and p: "list_all (is_in_range q) p0" "list_all (is_in_range q) p1" "p0 \<noteq> []" "p1 \<noteq> []"
      "\<And>e. poly_eval p0 (e * e) + e * poly_eval p1 (e * e) = secret_poly w e"
  shows "\<exists>m' s'. fold_res (values_step q n t p0 p1) es (m, s) = Inr (m', s') \<and>
    (\<forall>e. \<bar>e\<bar> \<in> set es \<or> m e 0 = entry q w e 0 \<and> s e = entry q w e 0 \<longrightarrow> m' e 0 = entry q w e 0 \<and> s' e = entry q w e 0)"
  using e(1)
proof (induction es arbitrary: m s)
  case (Cons x es)
  let ?m = "m(x := (m x)(0 := entry q w x 0))" and ?s = "s(x := entry q w x 0)"
  let ?m' = "?m(- x := (?m (- x))(0 := entry q w (- x) 0))" and ?s' = "?s(- x := entry q w (- x) 0)"
  have x: "0 \<le> x" "x \<le> h" using Cons.prems by auto
  have step: "values_step q n t p0 p1 x (m, s) = Inr (?m', ?s')"
    using values_step_correct [OF sz q x e(2) t p] by (simp add: Let_def)
  obtain m' s' where r: "fold_res (values_step q n t p0 p1) es (?m', ?s') = Inr (m', s')"
    "\<And>e. \<bar>e\<bar> \<in> set es \<or> ?m' e 0 = entry q w e 0 \<and> ?s' e = entry q w e 0 \<Longrightarrow> m' e 0 = entry q w e 0 \<and> s' e = entry q w e 0"
    using Cons.IH [of ?m' ?s'] Cons.prems by (auto simp del: fun_upd_apply)
  have "?m' e 0 = entry q w e 0 \<and> ?s' e = entry q w e 0" if "\<bar>e\<bar> = x \<or> m e 0 = entry q w e 0 \<and> s e = entry q w e 0" for e
    using that by auto
  with r step show ?case by (auto simp del: fun_upd_apply)
qed simp

theorem batch_table_correct:
  assumes sz: "table_size q w n h" and q: "barrett_ok q" and "h < q" "2 * h < 2 ^ nat t" "list_all (is_in_range q) w"
  shows "\<exists>m s. batch_table q t w = Inr (m, s) \<and> (\<forall>i. 0 \<le> i \<and> i \<le> n \<longrightarrow> m h i = entry q w h i) \<and> m (- h) 0 = entry q w (- h) 0
    \<and> (\<forall>e. - h \<le> e \<and> e \<le> h \<longrightarrow> s e = entry q w e 0)"
proof -
  note half = half [OF sz]
  obtain p0 p1 where p: "split_secrets q w = Inr (p0, p1)" "list_all (is_in_range q) p0" "list_all (is_in_range q) p1"
    "length p0 = Suc (length w div 2)" "length p1 = Suc (length w) div 2"
    "\<And>e. poly_eval p0 (e * e) + e * poly_eval p1 (e * e) = secret_poly w e"
    using split_secrets_correct [OF assms(5) half(1)] by auto
  have ne: "p0 \<noteq> []" "p1 \<noteq> []" using p(4,5) half(2,7) by auto
  obtain m0 s where m0: "fold_res (values_step q n t p0 p1) [0..h] (\<lambda>_ _. 0, \<lambda>_. 0) = Inr (m0, s)"
    "\<And>e. \<bar>e\<bar> \<in> {0..h} \<Longrightarrow> m0 e 0 = entry q w e 0 \<and> s e = entry q w e 0"
    using values_fold [OF sz q _ assms(3,4) p(2,3) ne p(6), of "[0..h]"] by force
  have "agree q w {(j, 0) | j. - h \<le> j \<and> j \<le> h} m0" using m0(2) by (auto simp: agree_def)
  then obtain m1 where m1: "difference_columns q n m0 = Inr m1"
    "agree q w {(j, i). 0 \<le> i \<and> i \<le> n \<and> - h \<le> j \<and> j \<le> h - i} m1"
    using columns_agree [OF sz] by blast
  obtain m2 where m2: "bind_res (copy_last n (- h + 1) m1) (fold_res (extend_row q n) [- h + 2..h]) = Inr m2"
    "\<forall>i. 0 \<le> i \<and> i \<le> n \<longrightarrow> m2 h i = entry q w h i" "m2 (- h) 0 = entry q w (- h) 0"
    using rows_agree [OF sz m1(2)] by blast
  from m2(1) have "bind_res (copy_last n (- h + 1) m1) (\<lambda>m. bind_res (fold_res (extend_row q n) [- h + 2..h] m) (\<lambda>m. Inr (m, s))) = Inr (m2, s)"
    by (auto simp: res_simps)
  then have "batch_table q t w = Inr (m2, s)"
    using p(1) m0(1) m1(1) by (simp add: batch_table_def half(6,7) Let_def)
  with m2 m0(2) show ?thesis by auto
qed

end
