(* ===== verification/Zk_Ec.thy ===== *)
theory Zk_Ec
  imports Finite_Difference
begin

text \<open>
  Proofs of knowledge of discrete logarithms: \<^verbatim>\<open>zk/zk_ec.cpp\<close>. The random oracle \<^verbatim>\<open>ro::hash_string\<close>, the digest and the generator of
  random scalars are parameters; \<open>check\<close> is \<^verbatim>\<open>curve.check\<close>.
\<close>

section \<open>The batched prover\<close>

text \<open>For a positive number \<^verbatim>\<open>32 - clz\<close> is the number of its bits.\<close>

definition int_log2 :: "u32 \<Rightarrow> int" where
  "int_log2 x = (if x \<le> 1 then uint x else int (num_bits (unat (x - 1))))"

record 'p batch_dl =
  bd_params :: fischlin_params_t
  bd_R :: "'p list"
  bd_e :: "int list"
  bd_z :: "int list"

record ('p, 'r) batch_prover =
  bp_r :: "int list"
  bp_R :: "'p list"
  bp_e :: "int list"
  bp_z :: "int list"
  bp_common_hash :: bytes
  bp_ri :: int
  bp_z_tag :: int
  bp_k :: int
  bp_last :: "int list"
  bp_current :: "int list"
  bp_sum :: "int \<Rightarrow> int"
  bp_rng :: 'r

definition extend_last :: "int \<Rightarrow> int \<Rightarrow> int list \<Rightarrow> int list \<Rightarrow> int list res" where
  "extend_last q n last_row current =
     bind_res (vec_at last_row n) (\<lambda>v.
     bind_res (vec_set n v current) (\<lambda>current.
     fold_res (\<lambda>i current.
         bind_res (vec_at last_row i) (\<lambda>a.
         bind_res (vec_at last_row (i + 1)) (\<lambda>b. vec_set i (add_mod q a b) current)))
       (rev [0..n - 1]) current))"

definition batch_next :: "int \<Rightarrow> int \<Rightarrow> int \<Rightarrow> int \<Rightarrow> ('p, 'r) batch_prover \<Rightarrow> ('p, 'r) batch_prover res" where
  "batch_next q n t try_number st =
     (let ei = try_number - (n + 1) div 2
      in bind_res (if bp_k st < ei
                   then bind_res (extend_last q n (bp_last st) (bp_current st)) (\<lambda>current.
                        bind_res (vec_at current 0) (\<lambda>v.
                        bind_res (sum_put n t ei v (bp_sum st)) (\<lambda>s.
                        Inr (st\<lparr>bp_sum := s, bp_current := bp_last st, bp_last := current, bp_k := bp_k st + 1\<rparr>))))
                   else Inr st) (\<lambda>st.
         bind_res (sum_get n t ei (bp_sum st)) (\<lambda>v. Inr (st\<lparr>bp_z_tag := add_mod q (bp_ri st) v\<rparr>))))"

definition batch_ops ::
  "(bytes \<Rightarrow> bytes) \<Rightarrow> ('p::ab_group_add list \<Rightarrow> bytes) \<Rightarrow> 'r generator \<Rightarrow> int \<Rightarrow> 'p \<Rightarrow> int \<Rightarrow> int \<Rightarrow> int \<Rightarrow> matrix
     \<Rightarrow> ('p, 'r) batch_prover fischlin_ops" where
  "batch_ops sha256 hash_string gen q G n t rho matrix_sum = \<lparr>
     initialize = (\<lambda>st. let (rs, r1) = draw gen q (nat rho) (bp_rng st); R = map (\<lambda>r. smul r G) rs
        in Inr (st\<lparr>bp_r := rs, bp_R := R, bp_rng := r1, bp_common_hash := hash_string R\<rparr>)),
     response_begin = (\<lambda>i st.
        bind_res (vec_at (bp_r st) i) (\<lambda>ri.
        bind_res (mat_get n (0 - (n + 1) div 2) 0 matrix_sum) (\<lambda>v.
        bind_res (mod_add False q ri v) (\<lambda>z. Inr (st\<lparr>bp_ri := ri, bp_z_tag := z\<rparr>))))),
     fhash = (\<lambda>i try_number st.
        hash32bit_for_zk_fischlin sha256 (bp_common_hash st) i (try_number - (n + 1) div 2) (bp_z_tag st)),
     fsave = (\<lambda>i try_number st.
        bind_res (vec_set i (try_number - (n + 1) div 2) (bp_e st)) (\<lambda>e.
        bind_res (vec_set i (bp_z_tag st) (bp_z st)) (\<lambda>z. Inr (st\<lparr>bp_e := e, bp_z := z\<rparr>)))),
     response_next = batch_next q n t\<rparr>"

definition batch_start :: "int \<Rightarrow> int \<Rightarrow> int list \<Rightarrow> int list \<Rightarrow> (int \<Rightarrow> int) \<Rightarrow> 'r \<Rightarrow> ('p::ab_group_add, 'r) batch_prover" where
  "batch_start rho n_half last_row current s r0 =
     \<lparr>bp_r = replicate (nat rho) 0, bp_R = replicate (nat rho) 0, bp_e = replicate (nat rho) 0, bp_z = replicate (nat rho) 0,
      bp_common_hash = [], bp_ri = 0, bp_z_tag = 0, bp_k = n_half, bp_last = last_row, bp_current = current, bp_sum = s, bp_rng = r0\<rparr>"

definition batch_params :: "int \<Rightarrow> fischlin_params_t" where
  "batch_params n =
     (let rho = (if n \<le> 28 then 43 else 64); b = (if n \<le> 28 then 3 else 2) + int_log2 (word_of_int n)
      in \<lparr>fp_rho = rho, fp_b = b, fp_t = b + 5\<rparr>)"

definition lift_res :: "'a res \<Rightarrow> ('a \<Rightarrow> 'b res option) \<Rightarrow> 'b res option" where
  "lift_res r f = (case r of Inl e \<Rightarrow> Some (Inl e) | Inr x \<Rightarrow> f x)"

text \<open>
  \<^verbatim>\<open>prove\<close> with \<^verbatim>\<open>prove_batch_dl\<close>; \<open>hash_string\<close> is the oracle on the generator, the points, the commitments, the session and the
  auxiliary number.
\<close>

definition batch_dl_prove ::
  "(bytes \<Rightarrow> bytes) \<Rightarrow> ('p \<Rightarrow> 'p list \<Rightarrow> 'p list \<Rightarrow> bytes \<Rightarrow> u64 \<Rightarrow> bytes) \<Rightarrow> 'r generator \<Rightarrow> 'p::ab_group_add ecurve
     \<Rightarrow> 'p list \<Rightarrow> int list \<Rightarrow> bytes \<Rightarrow> u64 \<Rightarrow> 'r \<Rightarrow> ('p batch_dl \<times> 'r) res option" where
  "batch_dl_prove sha256 hash_string gen c Q w session_id aux r0 =
     (let n = int (length w); params = batch_params n; rho = fp_rho params; t = fp_t params; q = order c; n_half = (n + 1) div 2
      in lift_res (cb_assert (Q \<noteq> [] \<and> length Q = length w)) (\<lambda>_.
         lift_res (batch_table q t w) (\<lambda>(matrix_sum, s).
         lift_res (mat_row n n_half matrix_sum) (\<lambda>last_row.
         lift_res (mat_row n (n_half + 1) matrix_sum) (\<lambda>current.
           case fischlin_prove params
               (batch_ops sha256 (\<lambda>R. hash_string (generator c) Q R session_id aux) gen q (generator c) n t rho matrix_sum)
               (batch_start rho n_half last_row current s r0) of
             None \<Rightarrow> None
           | Some r \<Rightarrow> lift_res r (\<lambda>st. Some (Inr (\<lparr>bd_params = params, bd_R = bp_R st, bd_e = bp_e st, bd_z = bp_z st\<rparr>, bp_rng st))))))))"

section \<open>The batched verifier\<close>

definition check_right_open_range :: "int \<Rightarrow> int \<Rightarrow> int \<Rightarrow> unit res" where
  "check_right_open_range mn x mx = (if x < mn \<or> mx \<le> x then error E_CRYPTO else success)"

definition batch_verify_step ::
  "(bytes \<Rightarrow> bytes) \<Rightarrow> int \<Rightarrow> 'p::ab_group_add \<Rightarrow> 'p list \<Rightarrow> bytes \<Rightarrow> u32 \<Rightarrow> 'p batch_dl \<Rightarrow> nat \<Rightarrow> unit res" where
  "batch_verify_step sha256 q G PQ common_hash bmask pf i =
     (let z = bd_z pf ! i; e = bd_e pf ! i
      in bind_res (check_right_open_range 0 z q) (\<lambda>_.
         bind_res (horner_poly_small_vartime PQ (word_of_int e)) (\<lambda>P.
         if bd_R pf ! i \<noteq> smul z G - P then error E_CRYPTO
         else bind_res (hash32bit_for_zk_fischlin sha256 common_hash (int i) e z) (\<lambda>hsh.
              if and hsh bmask \<noteq> 0 then error E_CRYPTO else success))))"

definition batch_dl_verify ::
  "(bytes \<Rightarrow> bytes) \<Rightarrow> ('p \<Rightarrow> 'p list \<Rightarrow> 'p list \<Rightarrow> bytes \<Rightarrow> u64 \<Rightarrow> bytes) \<Rightarrow> ('p \<Rightarrow> unit res) \<Rightarrow> 'p::ab_group_add ecurve
     \<Rightarrow> 'p list \<Rightarrow> bytes \<Rightarrow> u64 \<Rightarrow> 'p batch_dl \<Rightarrow> unit res" where
  "batch_dl_verify sha256 hash_string check c Q session_id aux pf =
     (let n = int (length Q); params = bd_params pf; rho = fp_rho params; q = order c; G = generator c
      in if n \<le> 0 then error E_CRYPTO
         else bind_res (check_with_effective_b params (fp_b params - int_log2 (word_of_int n))) (\<lambda>_.
         if int (length (bd_R pf)) \<noteq> rho then error E_CRYPTO
         else if int (length (bd_e pf)) \<noteq> rho then error E_CRYPTO
         else if int (length (bd_z pf)) \<noteq> rho then error E_CRYPTO
         else bind_res (fold_res (\<lambda>P _. check P) Q ()) (\<lambda>_.
              bind_res (b_mask params) (\<lambda>bmask.
              bind_res (fold_res (\<lambda>P _. check P) (bd_R pf) ()) (\<lambda>_.
              fold_res (\<lambda>i _. batch_verify_step sha256 q G (0 # Q) (hash_string G Q (bd_R pf) session_id aux) bmask pf i)
                [0..<nat rho] ())))))"

section \<open>The responses\<close>

lemma extend_last_entries:
  assumes q: "0 < q" and n: "n = int (length w)" and last_row: "last_row = map (entry q w k) [0..n]" and cur: "int (length current) = n + 1"
  shows "extend_last q n last_row current = Inr (map (entry q w (k + 1)) [0..n])"
proof -
  have at: "vec_at last_row i = Inr (entry q w k i)" if "0 \<le> i" "i \<le> n" for i
    using that by (simp add: vec_at_def last_row nth_upto)
  let ?step = "\<lambda>i current. bind_res (vec_at last_row i) (\<lambda>a. bind_res (vec_at last_row (i + 1)) (\<lambda>b. vec_set i (add_mod q a b) current))"
  have step: "?step i c = Inr (c[nat i := entry q w (k + 1) i])" if "0 \<le> i" "i < n" "int (length c) = n + 1" for i c
    using that at [of i] at [of "i + 1"] add_mod_entry [OF q that(1), of w "k + 1"] by (simp add: vec_set_def)
  have fold: "\<exists>c'. fold_res ?step xs c = Inr c' \<and> length c' = length c
      \<and> (\<forall>i < length c. c' ! i = (if int i \<in> set xs then entry q w (k + 1) (int i) else c ! i))"
    if "set xs \<subseteq> {0..n - 1}" "int (length c) = n + 1" for xs c
    using that
  proof (induction xs arbitrary: c)
    case (Cons x xs)
    then have x: "0 \<le> x" "x < n" by auto
    obtain c' where "fold_res ?step xs (c[nat x := entry q w (k + 1) x]) = Inr c'" "length c' = length c"
      "\<forall>i < length c. c' ! i = (if int i \<in> set xs then entry q w (k + 1) (int i) else c[nat x := entry q w (k + 1) x] ! i)"
      using Cons.IH [of "c[nat x := entry q w (k + 1) x]"] Cons.prems by auto
    with step [OF x Cons.prems(2)] x show ?case
      by (auto simp: nth_list_update split: if_splits)
  qed simp
  let ?c = "current[nat n := entry q w k n]"
  have start: "vec_at last_row n = Inr (entry q w k n)" "vec_set n (entry q w k n) current = Inr ?c"
    using at [of n] n cur by (simp_all add: vec_set_def)
  obtain c' where c': "fold_res ?step (rev [0..n - 1]) ?c = Inr c'" "length c' = length ?c"
    "\<forall>i < length ?c. c' ! i = (if int i \<in> set (rev [0..n - 1]) then entry q w (k + 1) (int i) else ?c ! i)"
    using fold [of "rev [0..n - 1]" ?c] cur by auto
  have "c' = map (entry q w (k + 1)) [0..n]"
  proof (rule nth_equalityI)
    show len: "length c' = length (map (entry q w (k + 1)) [0..n])" using c'(2) cur by simp
    show "c' ! i = map (entry q w (k + 1)) [0..n] ! i" if "i < length c'" for i
      using that c'(2,3) cur n entry_last [of q w "k + 1"] by (cases "int i = n") (auto simp: nth_upto)
  qed
  with start c'(1) show ?thesis by (simp add: extend_last_def)
qed

text \<open>The response to the try \<open>e\<close> for the index \<open>i\<close>, and the commitments to the nonces.\<close>

definition response :: "int \<Rightarrow> int list \<Rightarrow> int list \<Rightarrow> int \<Rightarrow> int \<Rightarrow> int" where
  "response q w rs i e = (rs ! nat i + secret_poly w (e - (int (length w) + 1) div 2)) mod q"

definition commitments :: "'p::ab_group_add \<Rightarrow> int list \<Rightarrow> 'p list" where
  "commitments G rs = map (\<lambda>r. smul r G) rs"

definition batch_ok :: "'r generator \<Rightarrow> int \<Rightarrow> int list \<Rightarrow> int \<Rightarrow> int \<Rightarrow> int \<Rightarrow> matrix \<Rightarrow> bool" where
  "batch_ok gen q w n t rho m \<longleftrightarrow> table_size q w n ((n + 1) div 2) \<and> q \<le> BIN_LIMIT \<and> good_gen gen \<and> 0 \<le> rho
     \<and> m (- ((n + 1) div 2)) 0 = entry q w (- ((n + 1) div 2)) 0"

text \<open>The cached values and the row of differences from which the next value follows.\<close>

definition batch_base :: "int \<Rightarrow> int list \<Rightarrow> int \<Rightarrow> int \<Rightarrow> int \<Rightarrow> ('p, 'r) batch_prover \<Rightarrow> bool" where
  "batch_base q w n t rho st \<longleftrightarrow> (n + 1) div 2 \<le> bp_k st \<and> bp_k st + (n + 1) div 2 < 2 ^ nat t
     \<and> bp_last st = map (entry q w (bp_k st)) [0..n] \<and> int (length (bp_current st)) = n + 1
     \<and> (\<forall>e. - ((n + 1) div 2) \<le> e \<and> e \<le> bp_k st \<longrightarrow> bp_sum st e = entry q w e 0)
     \<and> int (length (bp_e st)) = rho \<and> int (length (bp_z st)) = rho"

definition batch_ready where
  "batch_ready gen q w n t rho m r st \<longleftrightarrow> batch_ok gen q w n t rho m \<and> batch_base q w n t rho st \<and> bp_rng st = r"

definition batch_inv where
  "batch_inv hs G gen q w n t rho m k es st \<longleftrightarrow> batch_ready gen q w n t rho m (snd k) st
     \<and> int (length (fst k)) = rho \<and> list_all (is_in_range q) (fst k) \<and> (\<exists>r. k = draw gen q (nat rho) r)
     \<and> bp_r st = fst k \<and> bp_R st = commitments G (fst k) \<and> bp_common_hash st = hs (commitments G (fst k))
     \<and> int (length es) \<le> rho
     \<and> (\<forall>i < length es. bp_e st ! i = es ! i - (n + 1) div 2 \<and> bp_z st ! i = response q w (fst k) (int i) (es ! i))"

definition batch_at where
  "batch_at hs G gen q w n t rho m k es e st \<longleftrightarrow> batch_inv hs G gen q w n t rho m k es st \<and> int (length es) < rho
     \<and> 0 \<le> e \<and> e < 2 ^ nat t \<and> e - (n + 1) div 2 \<le> bp_k st
     \<and> bp_ri st = fst k ! length es \<and> bp_z_tag st = response q w (fst k) (int (length es)) e"

lemma add_mod_eq: "is_in_range q a \<Longrightarrow> is_in_range q b \<Longrightarrow> add_mod q a b = (a + b) mod q"
  by (auto simp: add_mod_def is_in_range_def intro!: int_mod_pos_eq [symmetric])

lemma response_range: "0 < q \<Longrightarrow> is_in_range q (response q w rs i e)"
  by (simp add: response_def is_in_range_def)

lemma response_entry: "n = int (length w) \<Longrightarrow> response q w rs i e = (rs ! nat i + entry q w (e - (n + 1) div 2) 0) mod q"
  by (simp add: response_def entry_value mod_add_right_eq)

lemma batch_next_at:
  assumes "batch_at hs G gen q w n t rho m k es e st" "e + 1 < 2 ^ nat t"
  shows "\<exists>st'. batch_next q n t (e + 1) st = Inr st' \<and> batch_at hs G gen q w n t rho m k es (e + 1) st'"
proof -
  let ?h = "(n + 1) div 2" and ?ei = "e + 1 - (n + 1) div 2"
  have ok: "batch_ok gen q w n t rho m" "batch_base q w n t rho st"
    using assms(1) by (auto simp: batch_at_def batch_inv_def batch_ready_def)
  then have sz: "table_size q w n ?h" by (simp add: batch_ok_def)
  note half = half [OF sz]
  have e: "0 \<le> e" "e - ?h \<le> bp_k st" using assms(1) by (auto simp: batch_at_def)
  have ri: "is_in_range q (bp_ri st)"
    using assms(1) by (auto simp: batch_at_def batch_inv_def list_all_length)
  have z: "add_mod q (bp_ri st) (entry q w ?ei 0) = response q w (fst k) (int (length es)) (e + 1)"
    using assms(1) half(7) ri half(1) by (auto simp: batch_at_def add_mod_eq response_entry)
  show ?thesis
  proof (cases "bp_k st < ?ei")
    case False
    then have "sum_get n t ?ei (bp_sum st) = Inr (entry q w ?ei 0)"
      using ok(2) assms(2) e(1) by (auto simp: sum_get_def batch_base_def)
    then have "batch_next q n t (e + 1) st = Inr (st\<lparr>bp_z_tag := response q w (fst k) (int (length es)) (e + 1)\<rparr>)"
      using False by (simp add: batch_next_def z)
    then show ?thesis
      using assms False by (auto simp: batch_at_def batch_inv_def batch_ready_def batch_base_def)
  next
    case True
    then have ei: "?ei = bp_k st + 1" using e(2) by simp
    have ext: "extend_last q n (bp_last st) (bp_current st) = Inr (map (entry q w ?ei) [0..n])"
      unfolding ei using ok(2) half(1,7) by (intro extend_last_entries) (auto simp: batch_base_def)
    have v: "vec_at (map (entry q w ?ei) [0..n]) 0 = Inr (entry q w ?ei 0)"
      using half(2) by (simp add: vec_at_def nth_upto)
    let ?s = "(bp_sum st)(?ei := entry q w ?ei 0)"
    have put: "sum_put n t ?ei (entry q w ?ei 0) (bp_sum st) = Inr ?s" "sum_get n t ?ei ?s = Inr (entry q w ?ei 0)"
      using assms(2) e(1) by (simp_all add: sum_put_def sum_get_def)
    let ?st = "st\<lparr>bp_sum := ?s, bp_current := bp_last st, bp_last := map (entry q w ?ei) [0..n], bp_k := ?ei,
        bp_z_tag := response q w (fst k) (int (length es)) (e + 1)\<rparr>"
    have "batch_next q n t (e + 1) st = Inr ?st"
      using True by (simp add: batch_next_def ext v put z Let_def ei [symmetric])
    moreover have "batch_base q w n t rho ?st"
      using ok(2) assms(2) half(2) ei by (auto simp: batch_base_def)
    then have "batch_at hs G gen q w n t rho m k es (e + 1) ?st"
      using assms by (auto simp: batch_at_def batch_inv_def batch_ready_def)
    ultimately show ?thesis by blast
  qed
qed

interpretation batch: fischlin_prover "batch_ops sha256 hs gen q G n t rho m" rho "2 ^ nat t"
  "batch_ready gen q w n t rho m" "draw gen q (nat rho)" snd "batch_inv hs G gen q w n t rho m" "batch_at hs G gen q w n t rho m"
  "\<lambda>k i e. fischlin_digest sha256 (hs (commitments G (fst k))) i (e - (n + 1) div 2) (response q w (fst k) i e)"
  for sha256 hs gen q G n t rho m w
proof
  fix r and st :: "('a, 'b) batch_prover"
  assume ready: "batch_ready gen q w n t rho m r st"
  then have q: "0 < q" "good_gen gen" "0 \<le> rho" by (auto simp: batch_ready_def batch_ok_def table_size_def)
  obtain rs r' where d: "draw gen q (nat rho) r = (rs, r')" by (cases "draw gen q (nat rho) r") 
  then show "\<exists>st'. initialize (batch_ops sha256 hs gen q G n t rho m) st = Inr st'
      \<and> batch_inv hs G gen q w n t rho m (draw gen q (nat rho) r) [] st'"
    using ready draw_in_range [OF q(2,1) d] q(3)
    by (auto simp: batch_ops_def batch_inv_def batch_ready_def batch_base_def commitments_def Let_def intro!: exI [of _ r])
next
  fix k es and st :: "('a, 'b) batch_prover"
  assume inv: "batch_inv hs G gen q w n t rho m k es st" and len: "int (length es) < rho"
  let ?h = "(n + 1) div 2"
  have sz: "table_size q w n ?h" "m (- ?h) 0 = entry q w (- ?h) 0" using inv by (auto simp: batch_inv_def batch_ready_def batch_ok_def)
  note half = half [OF sz(1)]
  have "vec_at (bp_r st) (int (length es)) = Inr (fst k ! length es)" "is_in_range q (fst k ! length es)"
    using inv len by (auto simp: vec_at_def batch_inv_def list_all_length)
  moreover have "mat_get n (- ?h) 0 m = Inr (entry q w (- ?h) 0)" using sz(2) half by (simp add: mat_get_def)
  ultimately have "response_begin (batch_ops sha256 hs gen q G n t rho m) (int (length es)) st
      = Inr (st\<lparr>bp_ri := fst k ! length es, bp_z_tag := response q w (fst k) (int (length es)) 0\<rparr>)"
    using half(1,7) by (simp add: batch_ops_def mod_simps response_entry)
  then show "\<exists>st'. response_begin (batch_ops sha256 hs gen q G n t rho m) (int (length es)) st = Inr st'
      \<and> batch_at hs G gen q w n t rho m k es 0 st'"
    using inv len half(3) by (auto simp: batch_at_def batch_inv_def batch_ready_def batch_base_def)
next
  fix k es e and st :: "('a, 'b) batch_prover"
  assume at: "batch_at hs G gen q w n t rho m k es e st"
  then have ok: "batch_ok gen q w n t rho m" "bp_common_hash st = hs (commitments G (fst k))"
    "bp_z_tag st = response q w (fst k) (int (length es)) e"
    by (auto simp: batch_at_def batch_inv_def batch_ready_def)
  then have q: "0 < q" "q \<le> BIN_LIMIT" by (auto simp: batch_ok_def table_size_def)
  show "fhash (batch_ops sha256 hs gen q G n t rho m) (int (length es)) e st
      = Inr (fischlin_digest sha256 (hs (commitments G (fst k))) (int (length es)) (e - (n + 1) div 2) (response q w (fst k) (int (length es)) e))"
    using ok hash32bit_reduced [OF response_range [OF q(1)] q(2)] by (simp add: batch_ops_def)
  show "batch_ready gen q w n t rho m (snd k) st" using at by (auto simp: batch_at_def batch_inv_def)
  show "0 \<le> e" using at by (simp add: batch_at_def)
  show "\<exists>st'. response_next (batch_ops sha256 hs gen q G n t rho m) (e + 1) st = Inr st' \<and> batch_at hs G gen q w n t rho m k es (e + 1) st'"
    if "e + 1 < 2 ^ nat t" using batch_next_at [OF at that] by (simp add: batch_ops_def)
  have lens: "int (length es) < int (length (bp_e st))" "int (length es) < int (length (bp_z st))"
    using at by (auto simp: batch_at_def batch_inv_def batch_ready_def batch_base_def)
  then have "fsave (batch_ops sha256 hs gen q G n t rho m) (int (length es)) e st
      = Inr (st\<lparr>bp_e := (bp_e st)[length es := e - (n + 1) div 2], bp_z := (bp_z st)[length es := bp_z_tag st]\<rparr>)"
    by (simp add: batch_ops_def vec_set_def)
  then show "\<exists>st'. fsave (batch_ops sha256 hs gen q G n t rho m) (int (length es)) e st = Inr st' \<and> batch_inv hs G gen q w n t rho m k (es @ [e]) st'"
    using at lens by (auto simp: batch_at_def batch_inv_def batch_ready_def batch_base_def nth_append nth_list_update less_Suc_eq)
qed

section \<open>Completeness\<close>

lemma horner_point_fold:
  "fold (\<lambda>Ai B. Ai + smul x B) (rev (map (\<lambda>a. smul a G) b)) (smul y G) = smul (poly_eval b x + y * x ^ length b) G"
proof (induction b arbitrary: y rule: rev_induct)
  case (snoc c b)
  have "smul c G + smul x (smul y G) = smul (c + x * y) G" by (simp add: smul_smul smul_add)
  then have "fold (\<lambda>Ai B. Ai + smul x B) (rev (map (\<lambda>a. smul a G) (b @ [c]))) (smul y G)
      = smul (poly_eval b x + (c + x * y) * x ^ length b) G"
    using snoc.IH [of "c + x * y"] by simp
  then show ?case by (simp add: poly_eval_snoc algebra_simps)
qed simp

lemma horner_point_poly:
  assumes "b \<noteq> []"
  shows "horner_poly_point (map (\<lambda>a. smul a G) b) x = Inr (smul (poly_eval b x) G)"
proof -
  have b: "b = butlast b @ [last b]" using assms by simp
  have "poly_eval b x = poly_eval (butlast b) x + last b * x ^ length (butlast b)"
    by (subst b) (rule poly_eval_snoc)
  then show ?thesis
    using assms horner_point_fold [of x G "butlast b" "last b"] by (simp add: horner_poly_point_def map_butlast last_map)
qed

lemma int_log2_bounds:
  assumes "1 \<le> n" "n \<le> 2 ^ 20"
  shows "n \<le> 2 ^ nat (int_log2 (word_of_int n))" "1 \<le> int_log2 (word_of_int n)" "int_log2 (word_of_int n) \<le> 20"
proof -
  define u :: u32 where "u = word_of_int n"
  have u: "uint u = n" using assms by (simp add: u_def uint_word_of_int take_bit_int_eq_self)
  have "n \<le> 2 ^ nat (int_log2 u) \<and> 1 \<le> int_log2 u \<and> int_log2 u \<le> 20"
  proof (cases "u \<le> 1")
    case True
    then have "n = 1" using u assms(1) by (simp add: word_le_def)
    then show ?thesis using True u by (simp add: int_log2_def)
  next
    case False
    then have n: "2 \<le> n" using u by (simp add: word_le_def)
    let ?m = "nat (n - 1)"
    have "u - 1 = word_of_int (n - 1)" by (simp add: u_def)
    moreover have "uint (word_of_int (n - 1) :: u32) = n - 1"
      using n assms(2) by (simp only: uint_word_of_int) (simp add: take_bit_int_eq_self)
    ultimately have m: "unat (u - 1) = ?m" by (simp only: unat_eq_nat_uint)
    have "?m < 2 ^ num_bits ?m" using num_bits_bounds by blast
    then have up: "n \<le> 2 ^ num_bits ?m" using n by (simp add: nat_less_iff)
    have "\<not> num_bits ?m \<le> 0" using n unfolding num_bits_le_iff by simp
    moreover have "num_bits ?m \<le> 20" using n assms(2) unfolding num_bits_le_iff by (simp add: nat_less_iff)
    ultimately show ?thesis using False m up by (simp add: int_log2_def)
  qed
  then show "n \<le> 2 ^ nat (int_log2 (word_of_int n))" "1 \<le> int_log2 (word_of_int n)" "int_log2 (word_of_int n) \<le> 20"
    by (simp_all add: u_def)
qed

lemma batch_params_bounds:
  assumes "1 \<le> n" "n \<le> 2 ^ 20"
  shows "0 < fp_rho (batch_params n)" "0 \<le> fp_b (batch_params n)" "fp_b (batch_params n) < 24" "fp_t (batch_params n) = fp_b (batch_params n) + 5"
    "check_with_effective_b (batch_params n) (fp_b (batch_params n) - int_log2 (word_of_int n)) = success"
    "n + 1 < 2 ^ nat (fp_t (batch_params n))"
proof -
  let ?l = "int_log2 (word_of_int n)"
  note l = int_log2_bounds [OF assms]
  have "(2 :: int) ^ nat (?l + 7) \<le> 2 ^ nat (fp_t (batch_params n))"
    by (intro power_increasing) (auto simp: batch_params_def Let_def)
  moreover have "(2 :: int) ^ nat (?l + 7) = 128 * 2 ^ nat ?l" using l(2) by (simp add: nat_add_distrib power_add)
  ultimately show "n + 1 < 2 ^ nat (fp_t (batch_params n))" using l(1) assms(1) by linarith
qed (use int_log2_bounds [OF assms] in \<open>auto simp: batch_params_def Let_def check_with_effective_b_def SEC_P_COM_def\<close>)

lemma params_masks:
  assumes "0 \<le> fp_b p" "fp_b p < 24" "fp_t p = fp_b p + 5"
  shows "e_max p = Inr (2 ^ nat (fp_t p))" "b_mask p = Inr (push_bit (nat (fp_b p)) 1 - 1)"
proof -
  have "nat (fp_t p) < 32" using assms by simp
  then have "(2 :: int) ^ nat (fp_t p) < 2 ^ 32" by (intro power_strict_increasing) auto
  then have "uint (word_of_int (2 ^ nat (fp_t p)) :: u32) = 2 ^ nat (fp_t p)"
    by (simp only: uint_word_of_int) (simp add: take_bit_int_eq_self)
  moreover have "push_bit (nat (fp_t p)) (1 :: u32) = word_of_int (2 ^ nat (fp_t p))" by (simp add: push_bit_eq_mult)
  ultimately have "uint (push_bit (nat (fp_t p)) (1 :: u32)) = 2 ^ nat (fp_t p)" by simp
  then show "e_max p = Inr (2 ^ nat (fp_t p))" "b_mask p = Inr (push_bit (nat (fp_b p)) 1 - 1)"
    using assms by (simp_all add: e_max_def b_mask_def)
qed

text \<open>
  The nonces of the attempt number \<open>m\<close>, and that an attempt with the nonces \<open>rs\<close> finds a challenge for every index: the hash of the
  response ends in \<open>b\<close> zeros. The responses are values of the polynomial, no table is involved.
\<close>

definition nonces :: "'r generator \<Rightarrow> int \<Rightarrow> nat \<Rightarrow> nat \<Rightarrow> 'r \<Rightarrow> int list" where
  "nonces gen q rho m r = fst (draw gen q rho (rng_after (\<lambda>r. snd (draw gen q rho r)) m r))"

text \<open>
  \<^verbatim>\<open>curve.check\<close> refuses the point at infinity. The prover does not exclude it: a proof is accepted when neither the secrets nor the numbers
  drawn are multiples of the order.
\<close>

definition accepts_finite :: "('p::zero \<Rightarrow> unit res) \<Rightarrow> bool" where
  "accepts_finite check \<longleftrightarrow> (\<forall>P. P \<noteq> 0 \<longrightarrow> check P = success)"

definition finite_gen :: "'r generator \<Rightarrow> 'p::ab_group_add ecurve \<Rightarrow> bool" where
  "finite_gen gen c \<longleftrightarrow> (\<forall>r. smul (fst (gen (order c) r)) (generator c) \<noteq> 0)"

lemma draw_range: "set (fst (draw gen q n r)) \<subseteq> range (\<lambda>r. fst (gen q r))"
proof (induction n arbitrary: r)
  case (Suc n)
  show ?case using Suc.IH [of "snd (gen q r)"] by (auto simp: split_beta)
qed simp

lemma finite_commitments: "finite_gen gen c \<Longrightarrow> set rs \<subseteq> range (\<lambda>r. fst (gen (order c) r)) \<Longrightarrow> 0 \<notin> set (commitments (generator c) rs)"
  by (auto simp: finite_gen_def commitments_def)

lemma fold_res_success: "(\<And>x. x \<in> set xs \<Longrightarrow> f x = success) \<Longrightarrow> fold_res (\<lambda>x _. f x) xs () = success"
  by (induction xs) simp_all

lemma accepts_points: "accepts_finite check \<Longrightarrow> 0 \<notin> set Ps \<Longrightarrow> fold_res (\<lambda>P _. check P) Ps () = success"
  by (rule fold_res_success) (metis accepts_finite_def)

definition batch_lucky ::
  "(bytes \<Rightarrow> bytes) \<Rightarrow> ('p \<Rightarrow> 'p list \<Rightarrow> 'p list \<Rightarrow> bytes \<Rightarrow> u64 \<Rightarrow> bytes) \<Rightarrow> 'p::ab_group_add ecurve
     \<Rightarrow> int list \<Rightarrow> bytes \<Rightarrow> u64 \<Rightarrow> int list \<Rightarrow> bool" where
  "batch_lucky sha256 hash_string c w session_id aux rs =
     (let n = int (length w); params = batch_params n;
          common = hash_string (generator c) (commitments (generator c) w) (commitments (generator c) rs) session_id aux
      in list_all (\<lambda>i. list_ex (\<lambda>e.
             and (fischlin_digest sha256 common i (e - (n + 1) div 2) (response (order c) w rs i e)) (push_bit (nat (fp_b params)) 1 - 1) = 0)
           [0..2 ^ nat (fp_t params) - 1]) [0..fp_rho params - 1])"

lemma batch_start_ready:
  assumes sz: "table_size q w n ((n + 1) div 2)" and q: "barrett_ok q" "q \<le> BIN_LIMIT" "good_gen gen" "(n + 1) div 2 < q"
    and w: "list_all (is_in_range q) w" and t: "2 * ((n + 1) div 2) < 2 ^ nat t" and rho: "0 \<le> rho"
  obtains m s row1 row2 where "batch_table q t w = Inr (m, s)" "mat_row n ((n + 1) div 2) m = Inr row1"
    "mat_row n ((n + 1) div 2 + 1) m = Inr row2" "batch_ready gen q w n t rho m r (batch_start rho ((n + 1) div 2) row1 row2 s r)"
proof -
  define h where "h = (n + 1) div 2"
  note half = half [OF sz, folded h_def]
  obtain m s where tab: "batch_table q t w = Inr (m, s)" "\<forall>i. 0 \<le> i \<and> i \<le> n \<longrightarrow> m h i = entry q w h i"
    "m (- h) 0 = entry q w (- h) 0" "\<forall>e. - h \<le> e \<and> e \<le> h \<longrightarrow> s e = entry q w e 0"
    using batch_table_correct [OF sz q(1) q(4) t w] by (auto simp: h_def)
  have rows: "mat_row n h m = Inr (map (entry q w h) [0..n])" "mat_row n (h + 1) m = Inr (map (m (h + 1)) [0..n])"
    using half tab(2) by (auto simp: mat_row_def)
  have "batch_ok gen q w n t rho m" using sz q(2,3) tab(3) rho by (simp add: batch_ok_def h_def)
  moreover have "batch_base q w n t rho (batch_start rho h (map (entry q w h) [0..n]) (map (m (h + 1)) [0..n]) s r)"
    using tab(4) half(2) rho t by (simp add: batch_base_def batch_start_def flip: h_def)
  ultimately have "batch_ready gen q w n t rho m r (batch_start rho h (map (entry q w h) [0..n]) (map (m (h + 1)) [0..n]) s r)"
    by (simp add: batch_ready_def batch_start_def)
  with that tab(1) rows show thesis unfolding h_def by blast
qed

lemma batch_prove_returns:
  fixes c :: "'p::ab_group_add ecurve" and r :: 'r
  assumes q: "barrett_ok (order c)" "order c \<le> BIN_LIMIT" "good_gen gen"
    and w: "w \<noteq> []" "int (length w) \<le> 2 ^ 20" "(int (length w) + 1) div 2 < order c" "list_all (is_in_range (order c)) w"
    and luck: "batch_lucky sha256 hash_string c w session_id aux (nonces gen (order c) (nat (fp_rho (batch_params (int (length w))))) m r)"
  shows "\<exists>rs es pf r'. batch_dl_prove sha256 hash_string gen c (commitments (generator c) w) w session_id aux r = Some (Inr (pf, r'))
    \<and> bd_params pf = batch_params (int (length w)) \<and> bd_R pf = commitments (generator c) rs \<and> set rs \<subseteq> range (\<lambda>r. fst (gen (order c) r))
    \<and> int (length rs) = fp_rho (bd_params pf) \<and> length es = length rs \<and> length (bd_e pf) = length rs \<and> length (bd_z pf) = length rs
    \<and> (\<forall>i < length rs. 0 \<le> es ! i \<and> es ! i < 2 ^ nat (fp_t (bd_params pf))
         \<and> bd_e pf ! i = es ! i - (int (length w) + 1) div 2 \<and> bd_z pf ! i = response (order c) w rs (int i) (es ! i)
         \<and> and (fischlin_digest sha256 (hash_string (generator c) (commitments (generator c) w) (bd_R pf) session_id aux) (int i)
              (bd_e pf ! i) (bd_z pf ! i)) (push_bit (nat (fp_b (bd_params pf))) 1 - 1) = 0)"
proof -
  define n params rho t where "n = int (length w)" and "params = batch_params n" and "rho = fp_rho params" and "t = fp_t params"
  note defs = n_def [symmetric] params_def [symmetric] rho_def [symmetric] t_def [symmetric]
  let ?q = "order c" and ?G = "generator c" and ?Q = "commitments (generator c) w" and ?h = "(n + 1) div 2"
  let ?hs = "\<lambda>R. hash_string ?G ?Q R session_id aux" and ?mask = "push_bit (nat (fp_b params)) 1 - 1 :: u32"
  let ?tag = "\<lambda>k i e. fischlin_digest sha256 (?hs (commitments ?G (fst k))) i (e - ?h) (response ?q w (fst k) i e)"
  have n1: "1 \<le> n" using w(1) by (simp add: n_def Suc_le_eq)
  note pb = batch_params_bounds [OF n1, folded params_def] w(2) [folded n_def]
  have sz: "table_size ?q w n ?h" using barrett_ok_valid(2) [OF q(1)] n1 by (simp add: table_size_def n_def)
  have bounds: "2 * ?h < 2 ^ nat t" "0 \<le> rho" "?h < ?q" "(0 :: int) < 2 ^ nat t"
    using pb half(5) [OF sz] w(3) by (simp_all add: t_def rho_def n_def)
  obtain mt s row1 row2 where start: "batch_table ?q t w = Inr (mt, s)" "mat_row n ?h mt = Inr row1" "mat_row n (?h + 1) mt = Inr row2"
    and ready: "batch_ready gen ?q w n t rho mt r (batch_start rho ?h row1 row2 s r :: ('p, 'r) batch_prover)"
    by (rule batch_start_ready [OF sz q bounds(3) w(4) bounds(1,2)])
  have good: "attempt_good rho (2 ^ nat t) ?tag ?mask (draw gen ?q (nat rho) (rng_after (\<lambda>r. snd (draw gen ?q (nat rho) r)) m r))"
    using luck by (simp add: attempt_good_def tag_hit_def batch_lucky_def nonces_def Let_def list_all_iff list_ex_iff defs) force
  obtain k es st' where run:
    "fischlin_loop (\<lambda>st. bind_res (initialize (batch_ops sha256 ?hs gen ?q ?G n t rho mt) st)
       (fischlin_indices (batch_ops sha256 ?hs gen ?q ?G n t rho mt) ?mask (2 ^ nat t) [0..rho - 1])) (batch_start rho ?h row1 row2 s r)
     = Some (Inr st')"
    "batch_inv ?hs ?G gen ?q w n t rho mt k es st'" "int (length es) = rho"
    "\<forall>i < length es. tag_hit (2 ^ nat t) ?tag ?mask k (int i) (es ! i)"
    using batch.loop_returns [OF bounds(4,2) ready good] by blast
  have "fischlin_prove params (batch_ops sha256 ?hs gen ?q ?G n t rho mt) (batch_start rho ?h row1 row2 s r) = Some (Inr st')"
    using run(1) params_masks pb by (simp add: fischlin_prove_def rho_def t_def)
  then have "batch_dl_prove sha256 hash_string gen c ?Q w session_id aux r
      = Some (Inr (\<lparr>bd_params = params, bd_R = bp_R st', bd_e = bp_e st', bd_z = bp_z st'\<rparr>, bp_rng st'))"
    using w(1) start by (simp add: batch_dl_prove_def Let_def lift_res_def defs commitments_def)
  moreover have "bp_R st' = commitments ?G (fst k)" "int (length (fst k)) = rho" "int (length (bp_e st')) = rho" "int (length (bp_z st')) = rho"
    "\<forall>i < length es. bp_e st' ! i = es ! i - ?h \<and> bp_z st' ! i = response ?q w (fst k) (int i) (es ! i)"
    using run(2) unfolding batch_inv_def batch_ready_def batch_base_def by blast+
  moreover have "set (fst k) \<subseteq> range (\<lambda>r. fst (gen ?q r))" using run(2) draw_range unfolding batch_inv_def by metis
  ultimately show ?thesis
    using run(3,4) unfolding tag_hit_def n_def rho_def t_def params_def
    by (intro exI [of _ "fst k"] exI [of _ es] exI conjI) (assumption | simp)+
qed

lemma batch_verify_step_accepts:
  assumes G: "smul q G = 0" and q: "0 < q" "q \<le> BIN_LIMIT" and prfl: "bd_R pf ! i = smul (rs ! i) G" "bd_z pf ! i = response q w rs (int i) e"
    "bd_e pf ! i = e - (int (length w) + 1) div 2" "\<bar>bd_e pf ! i\<bar> < 2 ^ 31"
    and hash: "and (fischlin_digest sha256 common (int i) (bd_e pf ! i) (bd_z pf ! i)) bmask = 0"
  shows "batch_verify_step sha256 q G (0 # commitments G w) common bmask pf i = success"
proof -
  let ?e = "bd_e pf ! i" and ?z = "bd_z pf ! i"
  have "0 # commitments G w = map (\<lambda>a. smul a G) (0 # w)" by (simp add: commitments_def)
  then have "horner_poly_small_vartime (0 # commitments G w) (word_of_int ?e) = Inr (smul (secret_poly w (sint (word_of_int ?e :: 32 word))) G)"
    unfolding horner_poly_small_vartime_eq secret_poly_def by (simp only: horner_point_poly list.distinct not_False_eq_True)
  moreover have "sint (word_of_int ?e :: 32 word) = ?e"
    using prfl(4) by (simp only: sint_sbintrunc') (simp add: signed_take_bit_int_eq_self abs_less_iff)
  moreover have "smul ?z G - smul (secret_poly w ?e) G = smul (rs ! i) G"
    using prfl(2,3) smul_mod [OF G] by (simp add: response_def smul_add)
  moreover have "is_in_range q ?z" using prfl(2) response_range [OF q(1)] by simp
  ultimately show ?thesis
    using prfl(1) hash hash32bit_reduced [of q ?z] q(2)
    by (simp add: batch_verify_step_def Let_def check_right_open_range_def is_in_range_def)
qed

theorem batch_dl_complete:
  assumes q: "barrett_ok (order c)" "order c \<le> BIN_LIMIT" "good_gen gen" and G: "smul (order c) (generator c) = 0"
    and check: "accepts_finite check" "finite_gen gen c" "0 \<notin> set (commitments (generator c) w)"
    and w: "w \<noteq> []" "int (length w) \<le> 2 ^ 20" "(int (length w) + 1) div 2 < order c" "list_all (is_in_range (order c)) w"
    and luck: "batch_lucky sha256 hash_string c w session_id aux (nonces gen (order c) (nat (fp_rho (batch_params (int (length w))))) m r)"
  shows "\<exists>pf r'. batch_dl_prove sha256 hash_string gen c (commitments (generator c) w) w session_id aux r = Some (Inr (pf, r'))
    \<and> batch_dl_verify sha256 hash_string check c (commitments (generator c) w) session_id aux pf = success"
proof -
  let ?n = "int (length w)" and ?Q = "commitments (generator c) w"
  have n1: "1 \<le> ?n" using w(1) by (simp add: Suc_le_eq)
  have q0: "0 < order c" using barrett_ok_valid(2) [OF q(1)] by simp
  note pb = batch_params_bounds [OF n1 w(2)]
  obtain rs es pf r' where run: "batch_dl_prove sha256 hash_string gen c ?Q w session_id aux r = Some (Inr (pf, r'))"
    "bd_params pf = batch_params ?n" "bd_R pf = commitments (generator c) rs" "set rs \<subseteq> range (\<lambda>r. fst (gen (order c) r))"
    "int (length rs) = fp_rho (bd_params pf)" "length es = length rs" "length (bd_e pf) = length rs" "length (bd_z pf) = length rs"
    and idx: "\<And>i. i < length rs \<Longrightarrow> 0 \<le> es ! i \<and> es ! i < 2 ^ nat (fp_t (bd_params pf))
         \<and> bd_e pf ! i = es ! i - (?n + 1) div 2 \<and> bd_z pf ! i = response (order c) w rs (int i) (es ! i)
         \<and> and (fischlin_digest sha256 (hash_string (generator c) ?Q (bd_R pf) session_id aux) (int i)
              (bd_e pf ! i) (bd_z pf ! i)) (push_bit (nat (fp_b (bd_params pf))) 1 - 1) = 0"
    using batch_prove_returns [OF q w luck] by blast
  have "(2 :: int) ^ nat (fp_t (bd_params pf)) \<le> 2 ^ 28" using pb run(2) by (intro power_increasing) auto
  then have small: "\<bar>bd_e pf ! i\<bar> < 2 ^ 31" if "i < length rs" for i
    using idx [OF that] w(2) n1 by auto
  have "batch_verify_step sha256 (order c) (generator c) (0 # ?Q) (hash_string (generator c) ?Q (bd_R pf) session_id aux)
      (push_bit (nat (fp_b (bd_params pf))) 1 - 1) pf i = success" if "i < length rs" for i
    using idx [OF that] small [OF that] that
    by (intro batch_verify_step_accepts [OF G q0 q(2), of _ _ rs]) (auto simp: run(3) commitments_def)
  then have loop: "fold_res (\<lambda>i _. batch_verify_step sha256 (order c) (generator c) (0 # ?Q)
      (hash_string (generator c) ?Q (bd_R pf) session_id aux) (push_bit (nat (fp_b (bd_params pf))) 1 - 1) pf i) [0..<length rs] () = success"
    by (intro fold_res_success) simp
  have sizes: "int (length ?Q) = ?n" "int (length (bd_R pf)) = fp_rho (bd_params pf)" "int (length (bd_e pf)) = fp_rho (bd_params pf)"
    "int (length (bd_z pf)) = fp_rho (bd_params pf)" "nat (fp_rho (bd_params pf)) = length rs"
    using run(3,5-8) by (auto simp: commitments_def)
  have checks: "check_with_effective_b (bd_params pf) (fp_b (bd_params pf) - int_log2 (word_of_int ?n)) = success"
    "b_mask (bd_params pf) = Inr (push_bit (nat (fp_b (bd_params pf))) 1 - 1)"
    using pb params_masks(2) by (simp_all add: run(2))
  have pts: "fold_res (\<lambda>P _. check P) ?Q () = success" "fold_res (\<lambda>P _. check P) (bd_R pf) () = success"
    using accepts_points [OF check(1,3)] accepts_points [OF check(1) finite_commitments [OF check(2) run(4)]] by (simp_all add: run(3))
  have "batch_dl_verify sha256 hash_string check c ?Q session_id aux pf = success"
    unfolding batch_dl_verify_def Let_def sizes checks pts bind_res.simps using w(1) loop by simp
  with run(1) show ?thesis by blast
qed

end
