(* ===== verification/Zk_Dl.thy ===== *)
theory Zk_Dl
  imports Zk_Ec
begin

text \<open>
  The proof of knowledge of one discrete logarithm \<^verbatim>\<open>uc_dl_t\<close> and of the equality of two \<^verbatim>\<open>dh_t\<close>, of \<^verbatim>\<open>zk/zk_ec.cpp\<close>. The first
  is a second client of the Fischlin loop; its verifier checks one random combination of the equations.
\<close>

section \<open>Discrete logarithm\<close>

record 'p uc_dl =
  dl_params :: fischlin_params_t
  dl_A :: "'p list"
  dl_e :: "int list"
  dl_z :: "int list"

record ('p, 'r) dl_prover =
  dp_r :: "int list"
  dp_A :: "'p list"
  dp_e :: "int list"
  dp_z :: "int list"
  dp_common_hash :: bytes
  dp_z_tag :: int
  dp_rng :: 'r

definition dl_ops ::
  "(bytes \<Rightarrow> bytes) \<Rightarrow> ('p::ab_group_add list \<Rightarrow> bytes) \<Rightarrow> 'r generator \<Rightarrow> int \<Rightarrow> 'p \<Rightarrow> int \<Rightarrow> int \<Rightarrow> ('p, 'r) dl_prover fischlin_ops" where
  "dl_ops sha256 hash_string gen q G w rho = \<lparr>
     initialize = (\<lambda>st. let (rs, r1) = draw gen q (nat rho) (dp_rng st); A = map (\<lambda>r. smul r G) rs
        in Inr (st\<lparr>dp_r := rs, dp_A := A, dp_rng := r1, dp_common_hash := hash_string A\<rparr>)),
     response_begin = (\<lambda>i st. bind_res (vec_at (dp_r st) i) (\<lambda>ri. Inr (st\<lparr>dp_z_tag := ri\<rparr>))),
     fhash = (\<lambda>i e_tag st. hash32bit_for_zk_fischlin sha256 (dp_common_hash st) i e_tag (dp_z_tag st)),
     fsave = (\<lambda>i e_tag st.
        bind_res (vec_set i e_tag (dp_e st)) (\<lambda>e.
        bind_res (vec_set i (dp_z_tag st) (dp_z st)) (\<lambda>z. Inr (st\<lparr>dp_e := e, dp_z := z\<rparr>)))),
     response_next = (\<lambda>e_tag st. Inr (st\<lparr>dp_z_tag := add_mod q (dp_z_tag st) w\<rparr>))\<rparr>"

definition uc_dl_params :: fischlin_params_t where
  "uc_dl_params = \<lparr>fp_rho = 32, fp_b = 4, fp_t = 9\<rparr>"

definition uc_dl_prove ::
  "(bytes \<Rightarrow> bytes) \<Rightarrow> ('p \<Rightarrow> 'p \<Rightarrow> 'p list \<Rightarrow> bytes \<Rightarrow> u64 \<Rightarrow> bytes) \<Rightarrow> 'r generator \<Rightarrow> 'p::ab_group_add ecurve
     \<Rightarrow> 'p \<Rightarrow> int \<Rightarrow> bytes \<Rightarrow> u64 \<Rightarrow> 'r \<Rightarrow> ('p uc_dl \<times> 'r) res option" where
  "uc_dl_prove sha256 hash_string gen c Q w session_id aux r0 =
     (let rho = fp_rho uc_dl_params; q = order c; zeros = replicate (nat rho) 0
      in lift_res (cb_assert (w < q)) (\<lambda>_.
           case fischlin_prove uc_dl_params
               (dl_ops sha256 (\<lambda>A. hash_string (generator c) Q A session_id aux) gen q (generator c) w rho)
               \<lparr>dp_r = zeros, dp_A = replicate (nat rho) 0, dp_e = zeros, dp_z = zeros, dp_common_hash = [], dp_z_tag = 0, dp_rng = r0\<rparr> of
             None \<Rightarrow> None
           | Some r \<Rightarrow> lift_res r (\<lambda>st. Some (Inr (\<lparr>dl_params = uc_dl_params, dl_A = dp_A st, dl_e = dp_e st, dl_z = dp_z st\<rparr>, dp_rng st)))))"

definition sum_mul :: "'p::ab_group_add list \<Rightarrow> int list \<Rightarrow> 'p res" where
  "sum_mul points scalars =
     bind_res (cb_assert (points \<noteq> [])) (\<lambda>_.
     bind_res (cb_assert (length points = length scalars)) (\<lambda>_. Inr (\<Sum>(P, s)\<leftarrow>zip points scalars. smul s P)))"

text \<open>
  The loop of \<^verbatim>\<open>verify\<close> in a vartime scope; \<open>rand_bits\<close> is \<^verbatim>\<open>rand_bitlen(SEC_P_STAT)\<close>. The state is \<^verbatim>\<open>z_sum\<close>, \<^verbatim>\<open>e_sum\<close>, \<^verbatim>\<open>sigmas\<close> and
  the generator.
\<close>

definition dl_verify_step ::
  "(bytes \<Rightarrow> bytes) \<Rightarrow> ('r \<Rightarrow> int \<times> 'r) \<Rightarrow> int \<Rightarrow> bytes \<Rightarrow> u32 \<Rightarrow> 'p uc_dl \<Rightarrow> nat \<Rightarrow> int \<times> int \<times> int list \<times> 'r
     \<Rightarrow> (int \<times> int \<times> int list \<times> 'r) res" where
  "dl_verify_step sha256 rand_bits q common_hash bmask pf i = (\<lambda>(z_sum, e_sum, sigmas, r).
     let z = dl_z pf ! i; e = dl_e pf ! i
     in bind_res (check_right_open_range 0 z q) (\<lambda>_.
        let (sigma, r') = rand_bits r
        in bind_res (mod_mul True q sigma z) (\<lambda>a. bind_res (mod_add True q z_sum a) (\<lambda>z_sum.
           bind_res (mod_mul True q sigma e) (\<lambda>b. bind_res (mod_add True q e_sum b) (\<lambda>e_sum.
           bind_res (hash32bit_for_zk_fischlin sha256 common_hash (int i) e z) (\<lambda>hsh.
             if and hsh bmask \<noteq> 0 then error E_CRYPTO else Inr (z_sum, e_sum, sigmas @ [sigma], r'))))))))"

definition uc_dl_verify ::
  "(bytes \<Rightarrow> bytes) \<Rightarrow> ('p \<Rightarrow> 'p \<Rightarrow> 'p list \<Rightarrow> bytes \<Rightarrow> u64 \<Rightarrow> bytes) \<Rightarrow> ('p \<Rightarrow> unit res) \<Rightarrow> ('r \<Rightarrow> int \<times> 'r)
     \<Rightarrow> 'p::ab_group_add ecurve \<Rightarrow> 'p \<Rightarrow> bytes \<Rightarrow> u64 \<Rightarrow> 'p uc_dl \<Rightarrow> 'r \<Rightarrow> unit res" where
  "uc_dl_verify sha256 hash_string check rand_bits c Q session_id aux pf r0 =
     (let params = dl_params pf; rho = fp_rho params; q = order c; G = generator c
      in bind_res (params_check params) (\<lambda>_.
         if int (length (dl_A pf)) \<noteq> rho then error E_CRYPTO
         else if int (length (dl_e pf)) \<noteq> rho then error E_CRYPTO
         else if int (length (dl_z pf)) \<noteq> rho then error E_CRYPTO
         else bind_res (check Q) (\<lambda>_.
              bind_res (fold_res (\<lambda>P _. check P) (dl_A pf) ()) (\<lambda>_.
              bind_res (b_mask params) (\<lambda>bmask.
              bind_res (fold_res (dl_verify_step sha256 rand_bits q (hash_string G Q (dl_A pf) session_id aux) bmask pf)
                          [0..<nat rho] (0, 0, [], r0)) (\<lambda>(z_sum, e_sum, sigmas, _).
              bind_res (sum_mul (dl_A pf) sigmas) (\<lambda>A_sum.
                if A_sum \<noteq> smul z_sum G - smul e_sum Q then error E_CRYPTO else success)))))))"

section \<open>Completeness of the discrete logarithm proof\<close>

definition dl_response :: "int \<Rightarrow> int \<Rightarrow> int list \<Rightarrow> int \<Rightarrow> int \<Rightarrow> int" where
  "dl_response q w rs i e = (rs ! nat i + e * w) mod q"

definition dl_ready where
  "dl_ready gen q w rho r st \<longleftrightarrow> is_in_range q w \<and> q \<le> BIN_LIMIT \<and> good_gen gen \<and> 0 \<le> rho
     \<and> int (length (dp_e st)) = rho \<and> int (length (dp_z st)) = rho \<and> dp_rng st = r"

definition dl_inv where
  "dl_inv hs G gen q w rho k es st \<longleftrightarrow> dl_ready gen q w rho (snd k) st
     \<and> int (length (fst k)) = rho \<and> list_all (is_in_range q) (fst k) \<and> (\<exists>r. k = draw gen q (nat rho) r)
     \<and> dp_r st = fst k \<and> dp_A st = commitments G (fst k) \<and> dp_common_hash st = hs (commitments G (fst k))
     \<and> int (length es) \<le> rho
     \<and> (\<forall>i < length es. dp_e st ! i = es ! i \<and> dp_z st ! i = dl_response q w (fst k) (int i) (es ! i))"

definition dl_at where
  "dl_at hs G gen q w rho k es e st \<longleftrightarrow> dl_inv hs G gen q w rho k es st \<and> int (length es) < rho
     \<and> 0 \<le> e \<and> dp_z_tag st = dl_response q w (fst k) (int (length es)) e"

lemma dl_response_range: "0 < q \<Longrightarrow> is_in_range q (dl_response q w rs i e)"
  by (simp add: dl_response_def is_in_range_def)

lemma dl_response_next:
  assumes "is_in_range q w"
  shows "add_mod q (dl_response q w rs i e) w = dl_response q w rs i (e + 1)"
proof -
  have "0 < q" using assms by (auto simp: is_in_range_def)
  then show ?thesis
    using assms by (simp add: add_mod_eq dl_response_range) (simp add: dl_response_def mod_add_left_eq mod_add_right_eq algebra_simps)
qed

interpretation dl: fischlin_prover "dl_ops sha256 hs gen q G w rho" rho em
  "dl_ready gen q w rho" "draw gen q (nat rho)" snd "dl_inv hs G gen q w rho" "dl_at hs G gen q w rho"
  "\<lambda>k i e. fischlin_digest sha256 (hs (commitments G (fst k))) i e (dl_response q w (fst k) i e)"
  for sha256 hs gen q G w rho em
proof
  fix r and st :: "('a, 'b) dl_prover"
  assume ready: "dl_ready gen q w rho r st"
  then have q: "0 < q" "good_gen gen" "0 \<le> rho" by (auto simp: dl_ready_def is_in_range_def)
  obtain rs r' where d: "draw gen q (nat rho) r = (rs, r')" by (cases "draw gen q (nat rho) r")
  then show "\<exists>st'. initialize (dl_ops sha256 hs gen q G w rho) st = Inr st' \<and> dl_inv hs G gen q w rho (draw gen q (nat rho) r) [] st'"
    using ready draw_in_range [OF q(2,1) d] q(3)
    by (auto simp: dl_ops_def dl_inv_def dl_ready_def commitments_def Let_def intro!: exI [of _ r])
next
  fix k es and st :: "('a, 'b) dl_prover"
  assume inv: "dl_inv hs G gen q w rho k es st" and len: "int (length es) < rho"
  then have "vec_at (dp_r st) (int (length es)) = Inr (fst k ! length es)" "is_in_range q (fst k ! length es)"
    by (auto simp: vec_at_def dl_inv_def list_all_length)
  then show "\<exists>st'. response_begin (dl_ops sha256 hs gen q G w rho) (int (length es)) st = Inr st' \<and> dl_at hs G gen q w rho k es 0 st'"
    using inv len by (auto simp: dl_ops_def dl_at_def dl_inv_def dl_ready_def dl_response_def is_in_range_mod)
next
  fix k es e and st :: "('a, 'b) dl_prover"
  assume at: "dl_at hs G gen q w rho k es e st"
  then have ok: "is_in_range q w" "q \<le> BIN_LIMIT" "dp_common_hash st = hs (commitments G (fst k))"
    "dp_z_tag st = dl_response q w (fst k) (int (length es)) e"
    by (auto simp: dl_at_def dl_inv_def dl_ready_def)
  then have "0 < q" by (auto simp: is_in_range_def)
  then show "fhash (dl_ops sha256 hs gen q G w rho) (int (length es)) e st
      = Inr (fischlin_digest sha256 (hs (commitments G (fst k))) (int (length es)) e (dl_response q w (fst k) (int (length es)) e))"
    using ok hash32bit_reduced [OF dl_response_range ok(2)] by (simp add: dl_ops_def)
  show "dl_ready gen q w rho (snd k) st" using at by (auto simp: dl_at_def dl_inv_def)
  show "0 \<le> e" using at by (simp add: dl_at_def)
  show "\<exists>st'. response_next (dl_ops sha256 hs gen q G w rho) (e + 1) st = Inr st' \<and> dl_at hs G gen q w rho k es (e + 1) st'"
    using at ok(1,4) by (auto simp: dl_ops_def dl_at_def dl_inv_def dl_ready_def dl_response_next)
  have lens: "int (length es) < int (length (dp_e st))" "int (length es) < int (length (dp_z st))"
    using at by (auto simp: dl_at_def dl_inv_def dl_ready_def)
  then have "fsave (dl_ops sha256 hs gen q G w rho) (int (length es)) e st
      = Inr (st\<lparr>dp_e := (dp_e st)[length es := e], dp_z := (dp_z st)[length es := dp_z_tag st]\<rparr>)"
    by (simp add: dl_ops_def vec_set_def)
  then show "\<exists>st'. fsave (dl_ops sha256 hs gen q G w rho) (int (length es)) e st = Inr st' \<and> dl_inv hs G gen q w rho k (es @ [e]) st'"
    using at lens by (auto simp: dl_at_def dl_inv_def dl_ready_def nth_append nth_list_update less_Suc_eq)
qed

definition dl_lucky ::
  "(bytes \<Rightarrow> bytes) \<Rightarrow> ('p \<Rightarrow> 'p \<Rightarrow> 'p list \<Rightarrow> bytes \<Rightarrow> u64 \<Rightarrow> bytes) \<Rightarrow> 'p::ab_group_add ecurve
     \<Rightarrow> int \<Rightarrow> bytes \<Rightarrow> u64 \<Rightarrow> int list \<Rightarrow> bool" where
  "dl_lucky sha256 hash_string c w session_id aux rs =
     list_all (\<lambda>i. list_ex (\<lambda>e.
         and (fischlin_digest sha256 (hash_string (generator c) (smul w (generator c)) (commitments (generator c) rs) session_id aux)
                i e (dl_response (order c) w rs i e)) 15 = 0) [0..511]) [0..31]"

lemma uc_dl_prove_returns:
  fixes c :: "'p::ab_group_add ecurve" and r :: 'r
  assumes q: "order c \<le> BIN_LIMIT" "good_gen gen" "is_in_range (order c) w"
    and luck: "dl_lucky sha256 hash_string c w session_id aux (nonces gen (order c) 32 m r)"
  shows "\<exists>rs pf r'. uc_dl_prove sha256 hash_string gen c (smul w (generator c)) w session_id aux r = Some (Inr (pf, r'))
    \<and> dl_params pf = uc_dl_params \<and> dl_A pf = commitments (generator c) rs \<and> set rs \<subseteq> range (\<lambda>r. fst (gen (order c) r))
    \<and> length rs = 32 \<and> length (dl_e pf) = 32 \<and> length (dl_z pf) = 32
    \<and> (\<forall>i < 32. dl_z pf ! i = dl_response (order c) w rs (int i) (dl_e pf ! i)
         \<and> and (fischlin_digest sha256 (hash_string (generator c) (smul w (generator c)) (dl_A pf) session_id aux) (int i)
              (dl_e pf ! i) (dl_z pf ! i)) 15 = 0)"
proof -
  let ?q = "order c" and ?G = "generator c" and ?Q = "smul w (generator c)"
  let ?hs = "\<lambda>A. hash_string ?G ?Q A session_id aux"
  let ?tag = "\<lambda>k i e. fischlin_digest sha256 (?hs (commitments ?G (fst k))) i e (dl_response ?q w (fst k) i e)"
  let ?st = "\<lparr>dp_r = replicate 32 0, dp_A = replicate 32 0, dp_e = replicate 32 0, dp_z = replicate 32 0, dp_common_hash = [],
      dp_z_tag = 0, dp_rng = r\<rparr> :: ('p, 'r) dl_prover"
  have ready: "dl_ready gen ?q w 32 r ?st" using q by (simp add: dl_ready_def)
  have good: "attempt_good 32 512 ?tag 15 (draw gen ?q (nat 32) (rng_after (\<lambda>r. snd (draw gen ?q (nat 32) r)) m r))"
    using luck by (simp add: attempt_good_def tag_hit_def dl_lucky_def nonces_def list_all_iff list_ex_iff) force
  have bounds: "(0 :: int) < 512" "(0 :: int) \<le> 32" by simp_all
  obtain k es st' where run: "fischlin_loop (\<lambda>st. bind_res (initialize (dl_ops sha256 ?hs gen ?q ?G w 32) st)
       (fischlin_indices (dl_ops sha256 ?hs gen ?q ?G w 32) 15 512 [0..32 - 1])) ?st = Some (Inr st')"
    "dl_inv ?hs ?G gen ?q w 32 k es st'" "int (length es) = 32" "\<forall>i < length es. tag_hit 512 ?tag 15 k (int i) (es ! i)"
    using dl.loop_returns [OF bounds ready good] by blast
  have "fischlin_prove uc_dl_params (dl_ops sha256 ?hs gen ?q ?G w 32) ?st = Some (Inr st')"
    using run(1) params_masks [of uc_dl_params] by (simp add: fischlin_prove_def uc_dl_params_def push_bit_eq_mult)
  then have "uc_dl_prove sha256 hash_string gen c ?Q w session_id aux r
      = Some (Inr (\<lparr>dl_params = uc_dl_params, dl_A = dp_A st', dl_e = dp_e st', dl_z = dp_z st'\<rparr>, dp_rng st'))"
    using q(3) by (simp add: uc_dl_prove_def Let_def lift_res_def uc_dl_params_def is_in_range_def)
  moreover have "dp_A st' = commitments ?G (fst k)" "length (fst k) = 32" "length (dp_e st') = 32" "length (dp_z st') = 32"
    "\<forall>i < length es. dp_e st' ! i = es ! i \<and> dp_z st' ! i = dl_response ?q w (fst k) (int i) (es ! i)"
    using run(2) unfolding dl_inv_def dl_ready_def by auto
  moreover have "set (fst k) \<subseteq> range (\<lambda>r. fst (gen ?q r))" using run(2) draw_range unfolding dl_inv_def by metis
  ultimately show ?thesis
    using run(3,4) unfolding tag_hit_def by (intro exI [of _ "fst k"] exI conjI) (assumption | simp)+
qed

lemma dl_verify_loop:
  assumes q: "0 < q" "q \<le> BIN_LIMIT"
    and idx: "\<And>i. i < n \<Longrightarrow> dl_z pf ! i = dl_response q w rs (int i) (dl_e pf ! i)
      \<and> and (fischlin_digest sha256 common (int i) (dl_e pf ! i) (dl_z pf ! i)) bmask = 0"
  shows "\<exists>zs es sg r'. fold_res (dl_verify_step sha256 rand_bits q common bmask pf) [0..<n] (0, 0, [], r) = Inr (zs, es, sg, r')
    \<and> length sg = n \<and> eqm q (zs - es * w) (\<Sum>i < n. sg ! i * rs ! i)"
  using idx
proof (induction n)
  case (Suc n)
  obtain zs es sg r' where IH: "fold_res (dl_verify_step sha256 rand_bits q common bmask pf) [0..<n] (0, 0, [], r) = Inr (zs, es, sg, r')"
    "length sg = n" "eqm q (zs - es * w) (\<Sum>i < n. sg ! i * rs ! i)"
    using Suc.IH [OF Suc.prems [OF less_SucI]] by blast
  obtain sigma r'' where sg: "rand_bits r' = (sigma, r'')" by (cases "rand_bits r'")
  let ?z = "dl_z pf ! n" and ?e = "dl_e pf ! n"
  have z: "?z = dl_response q w rs (int n) ?e" "and (fischlin_digest sha256 common (int n) ?e ?z) bmask = 0"
    using Suc.prems [of n] by auto
  then have "is_in_range q ?z" using dl_response_range [OF q(1)] by simp
  then have step: "dl_verify_step sha256 rand_bits q common bmask pf n (zs, es, sg, r')
      = Inr ((zs + sigma * ?z mod q) mod q, (es + sigma * ?e mod q) mod q, sg @ [sigma], r'')"
    using sg z(2) hash32bit_reduced [OF _ q(2)]
    by (simp add: dl_verify_step_def Let_def check_right_open_range_def is_in_range_def mod_simps)
  have "eqm q (?z - ?e * w) (rs ! n + ?e * w - ?e * w)"
    unfolding z(1) dl_response_def by (intro eqm_diff) auto
  then have "eqm q ((zs - es * w) + sigma * (?z - ?e * w)) ((\<Sum>i < n. sg ! i * rs ! i) + sigma * rs ! n)"
    using IH(3) by (intro eqm_add eqm_mult) auto
  moreover have "eqm q ((zs + sigma * ?z mod q) mod q - (es + sigma * ?e mod q) mod q * w) ((zs + sigma * ?z) - (es + sigma * ?e) * w)"
    by (intro eqm_diff eqm_mult) (auto intro: eqm_add)
  ultimately have "eqm q ((zs + sigma * ?z mod q) mod q - (es + sigma * ?e mod q) mod q * w)
      ((\<Sum>i < n. sg ! i * rs ! i) + sigma * rs ! n)"
    by (elim eqm_trans) (simp add: algebra_simps)
  moreover have "(\<Sum>i < n. (sg @ [sigma]) ! i * rs ! i) = (\<Sum>i < n. sg ! i * rs ! i)"
    using IH(2) by (intro sum.cong) (auto simp: nth_append)
  ultimately show ?case using IH(1,2) step by (simp add: fold_res_append nth_append)
qed simp

theorem uc_dl_complete:
  assumes q: "barrett_ok (order c)" "order c \<le> BIN_LIMIT" "good_gen gen" "is_in_range (order c) w" and G: "smul (order c) (generator c) = 0"
    and check: "accepts_finite check" "finite_gen gen c" "smul w (generator c) \<noteq> 0"
    and luck: "dl_lucky sha256 hash_string c w session_id aux (nonces gen (order c) 32 m r)"
  shows "\<exists>pf r'. uc_dl_prove sha256 hash_string gen c (smul w (generator c)) w session_id aux r = Some (Inr (pf, r'))
    \<and> uc_dl_verify sha256 hash_string check rand_bits c (smul w (generator c)) session_id aux pf r'' = success"
proof -
  let ?G = "generator c" and ?Q = "smul w (generator c)"
  have q0: "0 < order c" using barrett_ok_valid(2) [OF q(1)] by simp
  obtain rs pf r' where run: "uc_dl_prove sha256 hash_string gen c ?Q w session_id aux r = Some (Inr (pf, r'))"
    "dl_params pf = uc_dl_params" "dl_A pf = commitments ?G rs" "set rs \<subseteq> range (\<lambda>r. fst (gen (order c) r))" "length rs = 32" "length (dl_e pf) = 32" "length (dl_z pf) = 32"
    and idx: "\<And>i. i < 32 \<Longrightarrow> dl_z pf ! i = dl_response (order c) w rs (int i) (dl_e pf ! i)
         \<and> and (fischlin_digest sha256 (hash_string ?G ?Q (dl_A pf) session_id aux) (int i) (dl_e pf ! i) (dl_z pf ! i)) 15 = 0"
    using uc_dl_prove_returns [OF q(2-4) luck] by blast
  obtain zs es sg r3 where loop: "fold_res (dl_verify_step sha256 rand_bits (order c) (hash_string ?G ?Q (dl_A pf) session_id aux) 15 pf)
      [0..<32] (0, 0, [], r'') = Inr (zs, es, sg, r3)" "length sg = 32" "eqm (order c) (zs - es * w) (\<Sum>i < 32. sg ! i * rs ! i)"
    using dl_verify_loop [where n = 32 and rand_bits = rand_bits and r = r'', OF q0 q(2) idx] by auto
  have "(\<Sum>(P, s)\<leftarrow>zip (commitments ?G rs) sg. smul s P) = (\<Sum>i < 32. smul (sg ! i * rs ! i) ?G)"
    using run(5) loop(2) by (simp add: sum_list_sum_nth commitments_def smul_smul atLeast0LessThan)
  also have "\<dots> = smul zs ?G - smul es ?Q"
    using smul_eqm [OF G loop(3)] by (simp add: smul_sum smul_diff smul_smul)
  finally have "sum_mul (dl_A pf) sg = Inr (smul zs ?G - smul es ?Q)"
    using run(3,5) loop(2) by (cases rs) (auto simp: sum_mul_def commitments_def)
  moreover have "fold_res (\<lambda>P _. check P) (dl_A pf) () = success"
    unfolding run(3) by (rule accepts_points [OF check(1) finite_commitments [OF check(2) run(4)]])
  moreover have "params_check uc_dl_params = success" "b_mask uc_dl_params = Inr 15" "fp_rho uc_dl_params = 32"
    by (simp_all add: uc_dl_params_def params_check_def SEC_P_COM_def b_mask_def push_bit_eq_mult)
  ultimately have "uc_dl_verify sha256 hash_string check rand_bits c ?Q session_id aux pf r'' = success"
    using run(2,3,5-7) loop(1) check(1,3) by (simp add: uc_dl_verify_def Let_def commitments_def accepts_finite_def)
  with run(1) show ?thesis by blast
qed

section \<open>Equality of discrete logarithms\<close>

text \<open>\<open>hash_mod q\<close> is \<^verbatim>\<open>ro::hash_number(...).mod(q)\<close>, a number below \<open>q\<close>.\<close>

record dh = dh_e :: int  dh_z :: int

definition dh_prove ::
  "(int \<Rightarrow> 'p list \<Rightarrow> bytes \<Rightarrow> u64 \<Rightarrow> int) \<Rightarrow> 'r generator \<Rightarrow> 'p::ab_group_add ecurve \<Rightarrow> 'p \<Rightarrow> 'p \<Rightarrow> 'p \<Rightarrow> int \<Rightarrow> bytes \<Rightarrow> u64 \<Rightarrow> 'r \<Rightarrow> (dh \<times> 'r) res" where
  "dh_prove hash_mod gen c Q A B w session_id aux r0 =
     (let G = generator c; q = order c; (r, r1) = gen q r0
      in bind_res (cb_assert (w < q)) (\<lambda>_.
         let X = smul r G; Y = smul r Q; e = hash_mod q [G, Q, A, B, X, Y] session_id aux
         in bind_res (mod_mul False q e w) (\<lambda>ew. bind_res (mod_add False q r ew) (\<lambda>z. Inr (\<lparr>dh_e = e, dh_z = z\<rparr>, r1)))))"

definition dh_X :: "'p::ab_group_add \<Rightarrow> 'p \<Rightarrow> dh \<Rightarrow> 'p" where
  "dh_X G A pf = smul (dh_z pf) G - smul (dh_e pf) A"

definition dh_verify ::
  "(int \<Rightarrow> 'p list \<Rightarrow> bytes \<Rightarrow> u64 \<Rightarrow> int) \<Rightarrow> ('p \<Rightarrow> unit res) \<Rightarrow> 'p::ab_group_add ecurve \<Rightarrow> 'p \<Rightarrow> 'p \<Rightarrow> 'p \<Rightarrow> bytes \<Rightarrow> u64 \<Rightarrow> dh \<Rightarrow> unit res" where
  "dh_verify hash_mod check c Q A B session_id aux pf =
     bind_res (check Q) (\<lambda>_. bind_res (check A) (\<lambda>_. bind_res (check B) (\<lambda>_.
     let G = generator c; q = order c
     in bind_res (check_right_open_range 0 (dh_e pf) q) (\<lambda>_.
        bind_res (check_right_open_range 0 (dh_z pf) q) (\<lambda>_.
        let X = dh_X G A pf; Y = dh_X Q B pf
        in if hash_mod q [G, Q, A, B, X, Y] session_id aux \<noteq> dh_e pf then error E_CRYPTO else success)))))"

lemma dh_complete:
  assumes q: "barrett_ok (order c)" "good_gen gen" "is_in_range (order c) w" "\<And>Ps s a. is_in_range (order c) (hash_mod (order c) Ps s a)"
    and G: "smul (order c) (generator c) = 0" "smul (order c) Q = 0" and check: "accepts_finite check" "Q \<noteq> 0" "smul w (generator c) \<noteq> 0" "smul w Q \<noteq> 0"
  shows "\<exists>pf r'. dh_prove hash_mod gen c Q (smul w (generator c)) (smul w Q) w session_id aux r = Inr (pf, r')
    \<and> dh_verify hash_mod check c Q (smul w (generator c)) (smul w Q) session_id aux pf = success"
proof -
  let ?q = "order c" and ?G = "generator c"
  obtain k r1 where k: "gen ?q r = (k, r1)" by (cases "gen ?q r")
  have q0: "0 < ?q" using barrett_ok_valid(2) [OF q(1)] by simp
  have kr: "is_in_range ?q k" using q(2) q0 k unfolding good_gen_def by (metis fst_conv)
  define e where "e = hash_mod ?q [?G, Q, smul w ?G, smul w Q, smul k ?G, smul k Q] session_id aux"
  let ?pf = "\<lparr>dh_e = e, dh_z = (k + e * w mod ?q) mod ?q\<rparr>"
  have er: "is_in_range ?q e" using q(4) by (simp add: e_def)
  have run: "dh_prove hash_mod gen c Q (smul w ?G) (smul w Q) w session_id aux r = Inr (?pf, r1)"
    using q k kr er q0 by (simp add: dh_prove_def Let_def e_def [symmetric] mod_simps is_in_range_def)
  have X: "dh_X P (smul w P) ?pf = smul k P" if "smul ?q P = 0" for P
    using that by (simp add: dh_X_def smul_mod smul_add smul_smul)
  have range: "check_right_open_range 0 x ?q = success" if "is_in_range ?q x" for x
    using that by (auto simp: check_right_open_range_def is_in_range_def)
  have "is_in_range ?q (dh_z ?pf)" using q0 by (simp add: is_in_range_def)
  then have "dh_verify hash_mod check c Q (smul w ?G) (smul w Q) session_id aux ?pf = success"
    using check range er X [OF G(1)] X [OF G(2)] by (simp add: dh_verify_def Let_def e_def [symmetric] accepts_finite_def)
  with run show ?thesis by blast
qed

text \<open>What a verifier that accepts has checked: the range of the challenge, and that it is the hash of the statement and of the commitments.\<close>

lemma dh_verify_accepts:
  assumes "dh_verify hash_mod check c Q A B sid aux pf = success"
  shows "is_in_range (order c) (dh_e pf)"
    and "hash_mod (order c) [generator c, Q, A, B, dh_X (generator c) A pf, dh_X Q B pf] sid aux = dh_e pf"
  using assms by (auto simp: dh_verify_def Let_def check_right_open_range_def is_in_range_def res_simps split: if_splits)

text \<open>
  Two accepted transcripts with the same commitments and different challenges yield the common logarithm.
\<close>

lemma dh_extract:
  assumes q: "field_modulus (order c)" and G: "smul (order c) A = 0" "smul (order c) B = 0"
    and acc: "dh_verify hash_mod check c Q A B sid aux pf = success" "dh_verify hash_mod' check' c Q A B sid' aux' pf' = success"
    and same: "dh_X (generator c) A pf = dh_X (generator c) A pf'" "dh_X Q B pf = dh_X Q B pf'" "dh_e pf \<noteq> dh_e pf'"
  shows "\<exists>w. A = smul w (generator c) \<and> B = smul w Q"
proof -
  let ?q = "order c" and ?d = "dh_e pf - dh_e pf'" and ?z = "dh_z pf - dh_z pf'"
  have "is_in_range ?q (dh_e pf)" "is_in_range ?q (dh_e pf')" using dh_verify_accepts(1) acc by blast+
  then have "?d mod ?q \<noteq> 0"
    using same(3) by (metis diff_add_cancel eqm_def eqm_in_range eqm_zero_iff dvd_eq_mod_eq_0 mod_0 mod_eq_dvd_iff)
  from modinv_prime [OF q this] have inv: "eqm ?q (?d * modinv ?q ?d) 1" .
  have "P = smul (modinv ?q ?d * ?z) H" if "smul ?q P = 0" "dh_X H P pf = dh_X H P pf'" for H P
  proof -
    have "smul (dh_z pf) H - smul (dh_e pf) P = smul (dh_z pf') H - smul (dh_e pf') P" using that(2) by (simp add: dh_X_def)
    then have "smul ?d P = smul ?z H" by (simp add: smul_diff algebra_simps)
    then have "smul (modinv ?q ?d * ?z) H = smul (modinv ?q ?d * ?d) P" by (simp flip: smul_smul)
    also have "\<dots> = smul 1 P" using inv by (intro smul_eqm [OF that(1)]) (simp add: mult.commute)
    finally show ?thesis by simp
  qed
  with G same(1,2) show ?thesis by blast
qed

text \<open>
  So a false statement has at most one challenge for each pair of commitments, and a proof is accepted only if the hash is that challenge.
\<close>

lemma dh_sound:
  assumes q: "field_modulus (order c)" and G: "smul (order c) A = 0" "smul (order c) B = 0"
    and no: "\<nexists>w. A = smul w (generator c) \<and> B = smul w Q"
  shows "\<exists>e. \<forall>hash_mod check sid aux pf. dh_verify hash_mod check c Q A B sid aux pf = success
    \<longrightarrow> dh_X (generator c) A pf = X \<longrightarrow> dh_X Q B pf = Y \<longrightarrow> hash_mod (order c) [generator c, Q, A, B, X, Y] sid aux = e"
proof (cases "\<exists>hash_mod check sid aux pf. dh_verify hash_mod check c Q A B sid aux pf = success \<and> dh_X (generator c) A pf = X \<and> dh_X Q B pf = Y")
  case True
  then obtain hash_mod check sid aux pf where 1: "dh_verify hash_mod check c Q A B sid aux pf = success"
    "dh_X (generator c) A pf = X" "dh_X Q B pf = Y" by blast
  have "hash_mod' (order c) [generator c, Q, A, B, X, Y] sid' aux' = dh_e pf"
    if "dh_verify hash_mod' check' c Q A B sid' aux' pf' = success" "dh_X (generator c) A pf' = X" "dh_X Q B pf' = Y"
    for hash_mod' check' sid' aux' pf'
  proof -
    have "dh_e pf = dh_e pf'" using dh_extract [OF q G 1(1) that(1)] no 1(2,3) that(2,3) by metis
    then show ?thesis using dh_verify_accepts(2) [OF that(1)] that(2,3) by simp
  qed
  then show ?thesis by blast
qed blast

end
