(* ===== verification/Commitment.thy ===== *)
theory Commitment
  imports Zk_Dl
begin

text \<open>
  The hash commitment \<^verbatim>\<open>commitment_t\<close> of \<^verbatim>\<open>crypto/commitment.h\<close>. HMAC-SHA256 and SHA-256 (OpenSSL) and the random generator are
  parameters, as functions of the values a call passes to them: \<open>val\<close> is such a value, also used for the
  components of messages, \<open>VEnc\<close> marks \<^verbatim>\<open>encode_and_update\<close>, which
  puts the size before the value; the bytes are in \<open>Hash_Encoding\<close>. A commitment opens to what was committed.
\<close>

datatype 'p val =
    VBuf bytes | VInt int | VStr string | VPoint 'p | VDl "'p uc_dl" | VBatch "'p batch_dl"
  | VMap "(string \<times> 'p) list" | VList "'p val list" | VEnc "'p val"

type_synonym 'p sha = "'p val list \<Rightarrow> bytes"
type_synonym 'p hmac = "bytes \<Rightarrow> 'p val list \<Rightarrow> bytes"
type_synonym 'r byte_gen = "nat \<Rightarrow> 'r \<Rightarrow> bytes \<times> 'r"

text \<open>What is used of them: a digest of 32 bytes, and as many random bytes as asked for.\<close>

definition good_hmac :: "'p hmac \<Rightarrow> bool" where "good_hmac hmac \<longleftrightarrow> (\<forall>k us. length (hmac k us) = 32)"

definition good_bytes :: "'r byte_gen \<Rightarrow> bool" where "good_bytes rand \<longleftrightarrow> (\<forall>n r. length (fst (rand n r)) = n)"

definition HASH_SIZE :: nat where "HASH_SIZE = 32"

definition LOCAL_SID_SIZE :: nat where "LOCAL_SID_SIZE = nat SEC_P_COM div 8"

text \<open>An absent external session identifier is empty, an absent party identifier is 0.\<close>

record commitment_t =
  com_rand :: bytes
  com_msg :: bytes
  external_sid :: bytes
  com_pid :: int
  receiver_pid :: int
  local_sid :: bytes

definition com_none :: commitment_t where
  "com_none = \<lparr>com_rand = replicate 32 0, com_msg = [], external_sid = [], com_pid = 0, receiver_pid = 0, local_sid = []\<rparr>"

definition com_new_pid :: "int \<Rightarrow> commitment_t" where "com_new_pid pid = com_none\<lparr>com_pid := pid\<rparr>"

definition com_new_receiver :: "int \<Rightarrow> int \<Rightarrow> commitment_t" where
  "com_new_receiver pid rcv = com_none\<lparr>com_pid := pid, receiver_pid := rcv\<rparr>"

definition com_new_sid :: "bytes \<Rightarrow> int \<Rightarrow> commitment_t" where
  "com_new_sid sid pid = com_none\<lparr>external_sid := sid, com_pid := pid\<rparr>"

definition com_new_sid_receiver :: "bytes \<Rightarrow> int \<Rightarrow> int \<Rightarrow> commitment_t" where
  "com_new_sid_receiver sid pid rcv = com_none\<lparr>external_sid := sid, com_pid := pid, receiver_pid := rcv\<rparr>"

definition com_id :: "bytes \<Rightarrow> int \<Rightarrow> commitment_t \<Rightarrow> commitment_t" where
  "com_id sid pid com = com\<lparr>external_sid := sid, com_pid := pid\<rparr>"

definition com_id_receiver :: "bytes \<Rightarrow> int \<Rightarrow> int \<Rightarrow> commitment_t \<Rightarrow> commitment_t" where
  "com_id_receiver sid pid rcv com = com\<lparr>external_sid := sid, com_pid := pid, receiver_pid := rcv\<rparr>"

definition com_id_pid :: "int \<Rightarrow> commitment_t \<Rightarrow> commitment_t" where "com_id_pid pid com = com\<lparr>com_pid := pid\<rparr>"

definition com_set :: "bytes \<Rightarrow> bytes \<Rightarrow> commitment_t \<Rightarrow> commitment_t" where
  "com_set rd m com = com\<lparr>com_rand := rd, com_msg := m\<rparr>"

text \<open>What is hashed after the encoded arguments: the session identifier and the party identifiers that are present.\<close>

definition com_tail :: "commitment_t \<Rightarrow> 'p val list" where
  "com_tail com = [VBuf (if external_sid com = [] then local_sid com else external_sid com)]
     @ (if 0 < com_pid com then [VInt (com_pid com)] else [])
     @ (if 0 < receiver_pid com then [VInt (receiver_pid com)] else [])"

definition com_final :: "'p hmac \<Rightarrow> 'p val list \<Rightarrow> commitment_t \<Rightarrow> bytes res" where
  "com_final hmac state com =
     bind_res (if external_sid com = []
               then bind_res (cb_assert (local_sid com \<noteq> [])) (\<lambda>_. cb_assert (0 < com_pid com)) else success) (\<lambda>_.
     let hmac_hash = hmac (com_rand com) (state @ com_tail com)
     in bind_res (cb_assert (length hmac_hash = 32)) (\<lambda>_.
        Inr (if external_sid com = [] then hmac_hash @ local_sid com else hmac_hash)))"

definition com_gen_with_set_rand ::
  "'p hmac \<Rightarrow> 'r byte_gen \<Rightarrow> 'p val list \<Rightarrow> commitment_t \<Rightarrow> 'r \<Rightarrow> (commitment_t \<times> 'r) res" where
  "com_gen_with_set_rand hmac rand args com r =
     (let (sid, r') = rand LOCAL_SID_SIZE r;
          (com, r) = (if external_sid com = [] then (com\<lparr>local_sid := sid\<rparr>, r') else (com, r))
      in bind_res (com_final hmac (map VEnc args) com) (\<lambda>m. Inr (com\<lparr>com_msg := m\<rparr>, r)))"

definition com_gen ::
  "'p hmac \<Rightarrow> 'r byte_gen \<Rightarrow> 'p val list \<Rightarrow> commitment_t \<Rightarrow> 'r \<Rightarrow> (commitment_t \<times> 'r) res" where
  "com_gen hmac rand args com r =
     (let (rd, r) = rand 32 r in com_gen_with_set_rand hmac rand args (com\<lparr>com_rand := rd\<rparr>) r)"

definition com_open :: "'p hmac \<Rightarrow> 'p val list \<Rightarrow> commitment_t \<Rightarrow> unit res" where
  "com_open hmac args com =
     bind_res
       (if external_sid com = []
        then if length (com_msg com) \<noteq> HASH_SIZE + LOCAL_SID_SIZE then error E_FORMAT
             else Inr (com\<lparr>local_sid := drop HASH_SIZE (com_msg com)\<rparr>)
        else if length (com_msg com) \<noteq> HASH_SIZE then error E_FORMAT else Inr com) (\<lambda>com.
     bind_res (com_final hmac (map VEnc args) com) (\<lambda>m. if m \<noteq> com_msg com then error E_CRYPTO else success))"

section \<open>Opening\<close>

lemma sid_size: "LOCAL_SID_SIZE = 16" "HASH_SIZE = 32"
  by (simp_all add: LOCAL_SID_SIZE_def SEC_P_COM_def HASH_SIZE_def)

text \<open>Two sides of a commitment agree on who commits, to whom, and in which session.\<close>

definition same_ids :: "commitment_t \<Rightarrow> commitment_t \<Rightarrow> bool" where
  "same_ids com com' \<longleftrightarrow> external_sid com = external_sid com' \<and> com_pid com = com_pid com' \<and> receiver_pid com = receiver_pid com'"

lemma com_gen_opens:
  assumes "good_hmac hmac" "good_bytes rand" "external_sid com = [] \<Longrightarrow> 0 < com_pid com"
  shows "\<exists>com1 r1. com_gen hmac rand args com r = Inr (com1, r1) \<and> length (com_rand com1) = 32
    \<and> (external_sid com \<noteq> [] \<longrightarrow> length (com_msg com1) = 32) \<and> same_ids com com1
    \<and> (\<forall>com'. same_ids com com' \<longrightarrow> com_open hmac args (com_set (com_rand com1) (com_msg com1) com') = success)"
proof -
  obtain rd r0 where rd: "rand 32 r = (rd, r0)" by (cases "rand 32 r")
  obtain sid r2 where sid: "rand LOCAL_SID_SIZE r0 = (sid, r2)" by (cases "rand LOCAL_SID_SIZE r0")
  have len: "length rd = 32" "length sid = 16"
    using assms(2) rd sid unfolding good_bytes_def by (metis fst_conv sid_size(1))+
  have h: "length (hmac k us) = 32" for k us using assms(1) by (simp add: good_hmac_def)
  have "sid \<noteq> []" using len by auto
  then show ?thesis
    using assms(3) rd sid len
    by (cases "external_sid com = []")
       (auto simp: com_gen_def com_gen_with_set_rand_def com_final_def com_open_def com_set_def com_tail_def same_ids_def h sid_size Let_def)
qed

lemma com_opens:
  assumes "good_hmac hmac" "good_bytes rand" "external_sid com = [] \<Longrightarrow> 0 < com_pid com" "same_ids com com'"
  shows "\<exists>com1 r1. com_gen hmac rand args com r = Inr (com1, r1) \<and> length (com_rand com1) = 32
    \<and> com_open hmac args (com_set (com_rand com1) (com_msg com1) com') = success"
  using com_gen_opens [OF assms(1,2), of com args r] assms(3,4) by blast

text \<open>The commitment as \<^verbatim>\<open>open\<close> sees it, and what an accepted opening says about the hash.\<close>

definition com_view :: "commitment_t \<Rightarrow> commitment_t" where
  "com_view com = (if external_sid com = [] then com\<lparr>local_sid := drop HASH_SIZE (com_msg com)\<rparr> else com)"

lemma com_open_hash:
  assumes "com_open hmac args com = success"
  shows "hmac (com_rand com) (map VEnc args @ com_tail (com_view com)) = take HASH_SIZE (com_msg com)"
proof (cases "external_sid com = []")
  case True
  let ?h = "hmac (com_rand com) (map VEnc args @ com_tail (com_view com))"
  have "?h @ drop HASH_SIZE (com_msg com) = com_msg com" "length ?h = 32"
    using assms True
    by (auto simp: com_open_def com_final_def com_view_def sid_size Let_def res_simps split: if_splits)
  then show ?thesis by (metis append_eq_conv_conj sid_size(2))
next
  case False
  then show ?thesis using assms
    by (auto simp: com_open_def com_final_def com_view_def sid_size Let_def res_simps split: if_splits)
qed

end
