(* ===== verification/Hash_Encoding.thy ===== *)
theory Hash_Encoding
  imports Commitment Tree_Convert
begin

text \<open>
  The bytes that a commitment hashes: \<^verbatim>\<open>encode_and_update\<close> of \<^verbatim>\<open>crypto/ro.h\<close> over \<^verbatim>\<open>update_state\<close> and \<^verbatim>\<open>get_bin_size\<close> of
  \<^verbatim>\<open>crypto/base_hash.h\<close>, with the binary forms of numbers, points and proofs. \<open>hmac_of\<close> is the instance of the parameter
  \<open>'p hmac\<close> that the code uses, built from an HMAC of bytes; the compressed form of a point is a parameter. The
  encoding of arguments of given types can be decoded uniquely, up to the sign of a number, which \<^verbatim>\<open>bn_t::to_bin\<close> drops, and up to what a proof does not
  send.
\<close>

section \<open>Binary forms\<close>

record 'p point_bin =
  compressed :: "'p \<Rightarrow> bytes"
  curve_code :: u16

definition bn_to_bin :: "int \<Rightarrow> bytes" where "bn_to_bin n = bn_bytes (nat \<bar>n\<bar>)"

text \<open>What \<^verbatim>\<open>convert\<close> writes for a number, a point, the parameters of a proof (\<^verbatim>\<open>t\<close> is not sent), and the proofs.\<close>

definition ser_bn :: "int \<Rightarrow> bytes" where
  "ser_bn n = (let neg = (if n < 0 then 1 else 0); value_size = word_of_nat (length (bn_to_bin n))
     in write_len (or (push_bit 1 value_size) neg) @ bn_to_bin n)"

definition ser_point :: "'p point_bin \<Rightarrow> 'p \<Rightarrow> bytes" where
  "ser_point E p = be_set_2 (curve_code E) @ compressed E p"

definition ser_params :: "fischlin_params_t \<Rightarrow> bytes" where
  "ser_params p = be_set_4 (word_of_int (fp_rho p)) @ be_set_4 (word_of_int (fp_b p))"

definition ser_dl :: "'p point_bin \<Rightarrow> 'p uc_dl \<Rightarrow> bytes" where
  "ser_dl E pf = ser_params (dl_params pf) @ enc_vector (ser_point E) (dl_A pf)
     @ enc_vector (\<lambda>e. be_set_4 (word_of_int e)) (dl_e pf) @ enc_vector ser_bn (dl_z pf)"

definition ser_batch :: "'p point_bin \<Rightarrow> 'p batch_dl \<Rightarrow> bytes" where
  "ser_batch E pf = ser_params (bd_params pf) @ enc_vector (ser_point E) (bd_R pf)
     @ enc_vector (\<lambda>e. be_set_4 (word_of_int e)) (bd_e pf) @ enc_vector ser_bn (bd_z pf)"

section \<open>Hashed bytes\<close>

text \<open>
  \<^verbatim>\<open>encode_and_update\<close>: a vector is its count and its elements, anything else its size and its binary form. \<^verbatim>\<open>update_state\<close> without
  a size in front is used for the identifiers; on a vector of buffers, numbers or points it counts in eight bytes. A number of more than
  \<^verbatim>\<open>MAX_SERIALIZED_BIGNUM_BYTES\<close> bytes inside a proof fails an assertion of \<^verbatim>\<open>bn_t::convert\<close> and never reaches the hash.
\<close>

fun val_bin :: "'p point_bin \<Rightarrow> 'p val \<Rightarrow> bytes" where
  "val_bin E (VBuf b) = b"
| "val_bin E (VInt n) = bn_to_bin n"
| "val_bin E (VStr s) = name_bytes s"
| "val_bin E (VPoint p) = compressed E p"
| "val_bin E (VDl pf) = ser_dl E pf"
| "val_bin E (VBatch pf) = ser_batch E pf"
| "val_bin E (VMap m) = enc_map (\<lambda>s. be_set_2 (word_of_nat (length s)) @ name_bytes s) (ser_point E) m"
| "val_bin E (VList vs) = be_set_8 (word_of_nat (length vs))
     @ concat (map (\<lambda>v. be_set_8 (word_of_nat (length (val_bin E v))) @ val_bin E v) vs)"
| "val_bin E (VEnc v) = val_bin E v"

fun encode_and_update :: "'p point_bin \<Rightarrow> 'p val \<Rightarrow> bytes" where
  "encode_and_update E (VList vs) = be_set_4 (word_of_nat (length vs)) @ concat (map (encode_and_update E) vs)"
| "encode_and_update E v = be_set_4 (word_of_nat (length (val_bin E v))) @ val_bin E v"

fun update_state :: "'p point_bin \<Rightarrow> 'p val \<Rightarrow> bytes" where
  "update_state E (VEnc v) = encode_and_update E v"
| "update_state E v = val_bin E v"

definition hmac_of :: "'p point_bin \<Rightarrow> (bytes \<Rightarrow> bytes \<Rightarrow> bytes) \<Rightarrow> 'p hmac" where
  "hmac_of E H key us = H key (concat (map (update_state E) us))"

text \<open>The message of the HMAC in \<^verbatim>\<open>open\<close>.\<close>

definition com_input :: "'p point_bin \<Rightarrow> 'p val list \<Rightarrow> commitment_t \<Rightarrow> bytes" where
  "com_input E args com = concat (map (encode_and_update E) args) @ concat (map (update_state E) (com_tail (com_view com)))"

lemma hmac_of_good: "(\<And>k m. length (H k m) = 32) \<Longrightarrow> good_hmac (hmac_of E H)"
  by (simp add: good_hmac_def hmac_of_def)

lemma hmac_of_open:
  assumes "com_open (hmac_of E H) args com = success"
  shows "H (com_rand com) (com_input E args com) = take HASH_SIZE (com_msg com)"
  using com_open_hash [OF assms] by (simp add: hmac_of_def com_input_def o_def)

section \<open>Unique decoding\<close>

text \<open>
  The types of the arguments are fixed by the call. The sizes are of the type \<^verbatim>\<open>int\<close>.
\<close>

datatype arg_type = T_buf | T_bn | T_string | T_point | T_dl | T_batch | T_map | T_vector arg_type

definition sized :: "bytes \<Rightarrow> bool" where "sized bin \<longleftrightarrow> int (length bin) \<le> INT_MAX"

fun arg_ok :: "'p point_bin \<Rightarrow> arg_type \<Rightarrow> 'p val \<Rightarrow> bool" where
  "arg_ok E T_buf v \<longleftrightarrow> (case v of VBuf b \<Rightarrow> sized b | _ \<Rightarrow> False)"
| "arg_ok E T_bn v \<longleftrightarrow> (case v of VInt n \<Rightarrow> sized (bn_to_bin n) | _ \<Rightarrow> False)"
| "arg_ok E T_string v \<longleftrightarrow> (case v of VStr s \<Rightarrow> sized (name_bytes s) | _ \<Rightarrow> False)"
| "arg_ok E T_point v \<longleftrightarrow> (case v of VPoint p \<Rightarrow> sized (compressed E p) | _ \<Rightarrow> False)"
| "arg_ok E T_dl v \<longleftrightarrow> (case v of VDl pf \<Rightarrow> sized (ser_dl E pf) | _ \<Rightarrow> False)"
| "arg_ok E T_batch v \<longleftrightarrow> (case v of VBatch pf \<Rightarrow> sized (ser_batch E pf) | _ \<Rightarrow> False)"
| "arg_ok E T_map v \<longleftrightarrow> (case v of VMap m \<Rightarrow> sized (val_bin E (VMap m)) | _ \<Rightarrow> False)"
| "arg_ok E (T_vector t) v \<longleftrightarrow> (case v of VList vs \<Rightarrow> int (length vs) \<le> INT_MAX \<and> list_all (arg_ok E t) vs | _ \<Rightarrow> False)"

text \<open>What is bound: numbers up to sign, proofs and maps as they are serialized, anything else itself.\<close>

fun same_bound :: "'p point_bin \<Rightarrow> 'p val \<Rightarrow> 'p val \<Rightarrow> bool" where
  "same_bound E (VInt m) w \<longleftrightarrow> (case w of VInt n \<Rightarrow> \<bar>m\<bar> = \<bar>n\<bar> | _ \<Rightarrow> False)"
| "same_bound E (VDl pf) w \<longleftrightarrow> (case w of VDl pf' \<Rightarrow> ser_dl E pf = ser_dl E pf' | _ \<Rightarrow> False)"
| "same_bound E (VBatch pf) w \<longleftrightarrow> (case w of VBatch pf' \<Rightarrow> ser_batch E pf = ser_batch E pf' | _ \<Rightarrow> False)"
| "same_bound E (VMap m) w \<longleftrightarrow> (case w of VMap m' \<Rightarrow> val_bin E (VMap m) = val_bin E (VMap m') | _ \<Rightarrow> False)"
| "same_bound E (VList vs) w \<longleftrightarrow> (case w of VList ws \<Rightarrow> list_all2 (same_bound E) vs ws | _ \<Rightarrow> False)"
| "same_bound E (VBuf b) w \<longleftrightarrow> w = VBuf b"
| "same_bound E (VStr s) w \<longleftrightarrow> w = VStr s"
| "same_bound E (VPoint p) w \<longleftrightarrow> w = VPoint p"
| "same_bound E (VEnc v) w \<longleftrightarrow> w = VEnc v"

lemma count_decodes:
  assumes "be_set_4 (word_of_nat m) @ r = be_set_4 (word_of_nat n) @ s" "int m \<le> INT_MAX" "int n \<le> INT_MAX"
  shows "m = n \<and> r = s"
proof -
  have "be_get_4 (be_set_4 (word_of_nat m) @ r) = be_get_4 (be_set_4 (word_of_nat n) @ s)" using assms(1) by simp
  then have "unat (word_of_nat m :: u32) = unat (word_of_nat n :: u32)" by (simp only: be_get_set_4)
  moreover have "m < 2 ^ 32" "n < 2 ^ 32" using assms(2,3) by (simp_all add: INT_MAX_def)
  ultimately have "m = n" by (simp add: unat_of_nat)
  then show ?thesis using assms(1) by simp
qed

lemma bin_decodes:
  assumes "be_set_4 (word_of_nat (length a)) @ a @ r = be_set_4 (word_of_nat (length b)) @ b @ s" "sized a" "sized b"
  shows "a = b \<and> r = s"
  using count_decodes [OF assms(1)] assms(2,3) by (auto simp: sized_def)

lemma bn_bytes_inj: "bn_bytes m = bn_bytes n \<Longrightarrow> m = n"
proof (induction m arbitrary: n rule: bn_bytes.induct)
  case (1 m)
  show ?case
  proof (cases "m = 0 \<or> n = 0")
    case True
    then show ?thesis using "1.prems" by (metis append_is_Nil_conv bn_bytes.simps list.distinct(1))
  next
    case False
    then have eq: "bn_bytes (m div 256) @ [word_of_nat (m mod 256)] = bn_bytes (n div 256) @ [word_of_nat (n mod 256) :: u8]"
      using "1.prems" bn_bytes.simps [of m] bn_bytes.simps [of n] by simp
    then have "m div 256 = n div 256" using "1.IH" False by simp
    moreover have "unat (word_of_nat (m mod 256) :: u8) = unat (word_of_nat (n mod 256) :: u8)" using eq by simp
    then have "m mod 256 = n mod 256" by (simp add: unat_of_nat)
    ultimately show ?thesis by (metis div_mult_mod_eq)
  qed
qed

lemma bn_to_bin_inj: "bn_to_bin m = bn_to_bin n \<Longrightarrow> \<bar>m\<bar> = \<bar>n\<bar>"
  using bn_bytes_inj [of "nat \<bar>m\<bar>" "nat \<bar>n\<bar>"] by (simp add: bn_to_bin_def)

lemma name_bytes_inj: "name_bytes s = name_bytes t \<Longrightarrow> s = t"
  by (metis name_of_bytes)

lemma elems_decode:
  assumes "\<And>v w r s. P v \<Longrightarrow> P w \<Longrightarrow> f v @ r = f w @ s \<Longrightarrow> R v w \<and> r = s"
  shows "length vs = length ws \<Longrightarrow> list_all P vs \<Longrightarrow> list_all P ws \<Longrightarrow> concat (map f vs) @ r = concat (map f ws) @ s \<Longrightarrow>
    list_all2 R vs ws \<and> r = s"
proof (induction vs ws rule: list_induct2)
  case (Cons v vs w ws)
  then show ?case using assms [of v w "concat (map f vs) @ r" "concat (map f ws) @ s"] by simp
qed simp

lemma arg_ok_iff:
  "arg_ok E T_buf v \<longleftrightarrow> (\<exists>b. v = VBuf b \<and> sized b)"
  "arg_ok E T_bn v \<longleftrightarrow> (\<exists>n. v = VInt n \<and> sized (bn_to_bin n))"
  "arg_ok E T_string v \<longleftrightarrow> (\<exists>s. v = VStr s \<and> sized (name_bytes s))"
  "arg_ok E T_point v \<longleftrightarrow> (\<exists>p. v = VPoint p \<and> sized (compressed E p))"
  "arg_ok E T_dl v \<longleftrightarrow> (\<exists>pf. v = VDl pf \<and> sized (ser_dl E pf))"
  "arg_ok E T_batch v \<longleftrightarrow> (\<exists>pf. v = VBatch pf \<and> sized (ser_batch E pf))"
  "arg_ok E T_map v \<longleftrightarrow> (\<exists>m. v = VMap m \<and> sized (val_bin E (VMap m)))"
  "arg_ok E (T_vector t) v \<longleftrightarrow> (\<exists>vs. v = VList vs \<and> int (length vs) \<le> INT_MAX \<and> list_all (arg_ok E t) vs)"
  by (cases v; simp)+

declare arg_ok.simps [simp del]

lemma leaf_decodes:
  assumes "encode_and_update E v @ r = encode_and_update E w @ s" "\<And>vs. v \<noteq> VList vs" "\<And>vs. w \<noteq> VList vs"
    "sized (val_bin E v)" "sized (val_bin E w)"
  shows "val_bin E v = val_bin E w \<and> r = s"
proof -
  have e: "encode_and_update E u = be_set_4 (word_of_nat (length (val_bin E u))) @ val_bin E u" if "\<And>vs. u \<noteq> VList vs" for u
    using that by (cases u) auto
  have "be_set_4 (word_of_nat (length (val_bin E v))) @ val_bin E v @ r
      = be_set_4 (word_of_nat (length (val_bin E w))) @ val_bin E w @ s"
    using assms(1) unfolding e [OF assms(2)] e [OF assms(3)] append_assoc .
  from bin_decodes [OF this assms(4,5)] show ?thesis .
qed

lemma encode_decodes:
  assumes "inj (compressed E)"
  shows "arg_ok E t v \<Longrightarrow> arg_ok E t w \<Longrightarrow> encode_and_update E v @ r = encode_and_update E w @ s \<Longrightarrow> same_bound E v w \<and> r = s"
proof (induction t arbitrary: v w r s)
  case (T_vector t)
  obtain vs ws where v: "v = VList vs" "list_all (arg_ok E t) vs" "int (length vs) \<le> INT_MAX"
      "w = VList ws" "list_all (arg_ok E t) ws" "int (length ws) \<le> INT_MAX"
    using T_vector.prems(1,2) by (auto simp: arg_ok_iff)
  have "be_set_4 (word_of_nat (length vs)) @ concat (map (encode_and_update E) vs) @ r
      = be_set_4 (word_of_nat (length ws)) @ concat (map (encode_and_update E) ws) @ s"
    using T_vector.prems(3) v by (simp only: encode_and_update.simps append_assoc)
  from count_decodes [OF this v(3,6)]
  have "list_all2 (same_bound E) vs ws \<and> r = s"
    using elems_decode [where P = "arg_ok E t" and R = "same_bound E" and f = "encode_and_update E", OF T_vector.IH] v(2,5) by blast
  then show ?case using v by simp
next
  case T_point
  then show ?case using leaf_decodes [OF T_point.prems(3)] injD [OF assms] by (auto simp: arg_ok_iff)
next
  case T_bn
  then show ?case using leaf_decodes [OF T_bn.prems(3)] by (auto simp: arg_ok_iff dest: bn_to_bin_inj)
next
  case T_string
  then show ?case using leaf_decodes [OF T_string.prems(3)] by (auto simp: arg_ok_iff dest: name_bytes_inj)
next
  case T_map
  then show ?case using leaf_decodes [OF T_map.prems(3)] by (auto simp: arg_ok_iff)
next
  case T_buf
  then show ?case using leaf_decodes [OF T_buf.prems(3)] by (auto simp: arg_ok_iff)
next
  case T_dl
  then show ?case using leaf_decodes [OF T_dl.prems(3)] by (auto simp: arg_ok_iff)
next
  case T_batch
  then show ?case using leaf_decodes [OF T_batch.prems(3)] by (auto simp: arg_ok_iff)
qed

lemma args_decode:
  assumes "inj (compressed E)"
  shows "list_all2 (arg_ok E) ts vs \<Longrightarrow> list_all2 (arg_ok E) ts ws \<Longrightarrow>
    concat (map (encode_and_update E) vs) @ r = concat (map (encode_and_update E) ws) @ s \<Longrightarrow> list_all2 (same_bound E) vs ws"
proof (induction ts arbitrary: vs ws)
  case (Cons t ts)
  obtain v vs' where v: "vs = v # vs'" "arg_ok E t v" "list_all2 (arg_ok E) ts vs'" using Cons.prems(1) by (cases vs) auto
  obtain w ws' where w: "ws = w # ws'" "arg_ok E t w" "list_all2 (arg_ok E) ts ws'" using Cons.prems(2) by (cases ws) auto
  then show ?case
    using encode_decodes [OF assms v(2) w(2)] Cons.prems(3) Cons.IH [OF v(3) w(3)] v by simp
qed simp

text \<open>Binding: two openings of one commitment to arguments that differ in what is bound are a collision of the HMAC of bytes.\<close>

lemma com_input_differs:
  assumes "inj (compressed E)" "list_all2 (arg_ok E) ts args" "list_all2 (arg_ok E) ts args'" "\<not> list_all2 (same_bound E) args args'"
  shows "com_input E args com \<noteq> com_input E args' com'"
  using args_decode [OF assms(1-3)] assms(4) by (auto simp: com_input_def)

lemma sign_not_bound: "com_open (hmac_of E H) [VInt (- n)] com = com_open (hmac_of E H) [VInt n] com"
  by (simp add: com_open_def com_final_def hmac_of_def bn_to_bin_def Let_def)

end
