(* ===== verification/Limbs.thy ===== *)
theory Limbs
  imports Modular
begin

text \<open>
  The constant-time word routines of \<^verbatim>\<open>crypto/base_mod.cpp\<close> on arrays of 64-bit words, least significant
  word first: carry and borrow chains, masked addition, subtraction, negation and swap, the inversion
  \<^verbatim>\<open>scr_inv\<close> and the Barrett reduction \<^verbatim>\<open>_mod\<close>. Each routine is shown to compute its integer
  counterpart on the value \<open>lval\<close> of its arguments. \<open>scr_inv\<close> yields an interpretation of
  \<open>mod_inverse\<close>.
\<close>

section \<open>Words and their values\<close>

text \<open>The portable branch of \<^verbatim>\<open>addx\<close> and \<^verbatim>\<open>subx\<close>, through a 128-bit intermediate; the pair is result and carry.\<close>

definition addx :: "u64 \<Rightarrow> u64 \<Rightarrow> u64 \<Rightarrow> u64 \<times> u64" where
  "addx x y carry = (let r = (ucast x :: u128) + ucast y + ucast carry in (ucast r, ucast (drop_bit 64 r)))"

definition subx :: "u64 \<Rightarrow> u64 \<Rightarrow> u64 \<Rightarrow> u64 \<times> u64" where
  "subx x y borrow =
     (let r = (ucast x :: u128) - ucast y - ucast borrow in (ucast r, and (ucast (drop_bit 64 r)) 1))"

fun lval :: "u64 list \<Rightarrow> int" where
  "lval [] = 0"
| "lval (x # xs) = uint x + 2 ^ 64 * lval xs"

abbreviation radix :: "nat \<Rightarrow> int" where
  "radix n \<equiv> 2 ^ (64 * n)"

lemma radix_Suc: "radix (Suc n) = 2 ^ 64 * radix n"
  by (simp add: power_add)

lemma uint_lt64: "uint (x :: u64) < 2 ^ 64"
  using uint_lt2p [of x] by simp

lemma lval_bounds: "0 \<le> lval xs \<and> lval xs < radix (length xs)"
proof (induction xs)
  case (Cons x xs)
  have "uint x + 2 ^ 64 * lval xs < 2 ^ 64 * (lval xs + 1)" using uint_lt64 [of x] by simp
  also have "\<dots> \<le> 2 ^ 64 * radix (length xs)" using Cons by simp
  finally show ?case using Cons by (simp only: lval.simps length_Cons radix_Suc) simp
qed simp

lemma lval_nonneg [simp]: "0 \<le> lval xs" and lval_less: "lval xs < radix (length xs)"
  using lval_bounds by simp_all

lemma lval_not_neg [simp]: "\<not> lval xs < 0"
  by (simp add: not_less)

lemma lval_zeros [simp]: "lval (replicate n 0) = 0"
  by (induction n) simp_all

lemma lval_append: "lval (xs @ ys) = lval xs + radix (length xs) * lval ys"
  by (induction xs) (simp_all add: power_add algebra_simps)

lemma lval_div: "lval xs div radix n = lval (drop n xs)"
proof (cases "n \<le> length xs")
  case True
  have "lval xs = lval (take n xs) + radix n * lval (drop n xs)"
    using lval_append [of "take n xs" "drop n xs"] True by simp
  moreover have "lval (take n xs) < radix n" using lval_less [of "take n xs"] True by simp
  ultimately show ?thesis by simp
next
  case False
  have "lval xs < radix (length xs)" by (rule lval_less)
  also have "\<dots> \<le> radix n" using False by (intro power_increasing) auto
  finally show ?thesis using False by simp
qed

lemma lval_mod: "lval xs mod radix n = lval (take n xs)"
proof (cases "n \<le> length xs")
  case True
  have "lval xs = lval (take n xs) + radix n * lval (drop n xs)"
    using lval_append [of "take n xs" "drop n xs"] True by simp
  moreover have "lval (take n xs) < radix n" using lval_less [of "take n xs"] True by simp
  ultimately show ?thesis by simp
next
  case False
  have "lval xs < radix (length xs)" by (rule lval_less)
  also have "\<dots> \<le> radix n" using False by (intro power_increasing) auto
  finally show ?thesis using False by simp
qed

lemma lval_inj: "length xs = length ys \<Longrightarrow> lval xs = lval ys \<Longrightarrow> xs = ys"
proof (induction xs ys rule: list_induct2)
  case (Cons x xs y ys)
  have "(uint x + 2 ^ 64 * lval xs) mod 2 ^ 64 = uint x" "(uint x + 2 ^ 64 * lval xs) div 2 ^ 64 = lval xs"
    "(uint y + 2 ^ 64 * lval ys) mod 2 ^ 64 = uint y" "(uint y + 2 ^ 64 * lval ys) div 2 ^ 64 = lval ys"
    using uint_lt64 [of x] uint_lt64 [of y] by simp_all
  with Cons have "uint x = uint y" "lval xs = lval ys" by (metis lval.simps(2))+
  with Cons.IH show ?case by (simp add: word_uint_eq_iff)
qed simp

fun to_limbs :: "nat \<Rightarrow> int \<Rightarrow> u64 list" where
  "to_limbs 0 x = []"
| "to_limbs (Suc n) x = word_of_int x # to_limbs n (x div 2 ^ 64)"

lemma to_limbs_length [simp]: "length (to_limbs n x) = n"
  by (induction n arbitrary: x) simp_all

lemma lval_to_limbs: "lval (to_limbs n x) = x mod radix n"
proof (induction n arbitrary: x)
  case (Suc n)
  have "lval (to_limbs (Suc n) x) = x mod 2 ^ 64 + 2 ^ 64 * ((x div 2 ^ 64) mod radix n)"
    by (simp add: Suc uint_word_of_int)
  also have "\<dots> = x mod (2 ^ 64 * radix n)" by (simp add: zmod_zmult2_eq)
  finally show ?case by (simp only: radix_Suc)
qed simp

lemma uint_wide [simp]: "uint (ucast (x :: u64) :: u128) = uint x"
proof -
  have "uint x < 2 ^ 128" using uint_lt64 [of x] by simp
  then show ?thesis by (simp add: unsigned_ucast_eq take_bit_int_eq_self)
qed

lemma uint_narrow:
  "uint (ucast (r :: u128) :: u64) = uint r mod 2 ^ 64"
  "uint (ucast (drop_bit 64 r) :: u64) = uint r div 2 ^ 64"
proof -
  show "uint (ucast r :: u64) = uint r mod 2 ^ 64" by (simp add: unsigned_ucast_eq take_bit_eq_mod)
  have "uint r < 2 ^ 64 * 2 ^ 64" using uint_lt2p [of r] by simp
  then have "uint r div 2 ^ 64 < 2 ^ 64" by simp
  then show "uint (ucast (drop_bit 64 r) :: u64) = uint r div 2 ^ 64"
    by (simp add: unsigned_ucast_eq unsigned_drop_bit_eq take_bit_int_eq_self flip: drop_bit_eq_div)
       (simp add: drop_bit_eq_div take_bit_int_eq_self pos_imp_zdiv_nonneg_iff)
qed

lemma addx_value:
  assumes "addx x y c = (z, c')" "uint c \<le> 1"
  shows "uint z + 2 ^ 64 * uint c' = uint x + uint y + uint c" "uint c' \<le> 1"
proof -
  let ?s = "uint x + uint y + uint c"
  have s: "?s < 2 ^ 65" "0 \<le> ?s" using uint_lt64 [of x] uint_lt64 [of y] assms(2) by simp_all
  have r: "uint ((ucast x :: u128) + ucast y + ucast c) = ?s"
    using s by (simp add: uint_word_ariths mod_add_left_eq)
  have z: "uint z = ?s mod 2 ^ 64" "uint c' = ?s div 2 ^ 64"
    using assms(1) unfolding addx_def Let_def prod.inject r [symmetric] uint_narrow [symmetric] by simp_all
  then show "uint z + 2 ^ 64 * uint c' = ?s" by simp
  show "uint c' \<le> 1" using s by (simp add: z)
qed

lemma uint_and_one: "uint (and (w :: u64) 1) = uint w mod 2"
  by (simp add: and_one_eq uint_mod)

lemma negative_low:
  assumes "- (2 ^ 64) \<le> t" "t < (0 :: int)"
  shows "t mod 2 ^ 128 mod 2 ^ 64 = t + 2 ^ 64" "(t mod 2 ^ 128) div 2 ^ 64 mod 2 = 1"
proof -
  have t: "t mod 2 ^ 128 = t + 2 ^ 128" by (rule int_mod_pos_eq [where q = "- 1"]) (use assms in simp_all)
  have "(t + 2 ^ 128) div 2 ^ 64 = 2 ^ 64 - 1"
    by (rule int_div_pos_eq [where r = "t + 2 ^ 64"]) (use assms in simp_all)
  moreover have "(t + 2 ^ 128) mod 2 ^ 64 = t + 2 ^ 64"
    by (rule int_mod_pos_eq [where q = "2 ^ 64 - 1"]) (use assms in simp_all)
  ultimately show "t mod 2 ^ 128 mod 2 ^ 64 = t + 2 ^ 64" "(t mod 2 ^ 128) div 2 ^ 64 mod 2 = 1"
    by (simp_all only: t) simp
qed

lemma subx_value:
  assumes "subx x y c = (z, c')" "uint c \<le> 1"
  shows "uint z - 2 ^ 64 * uint c' = uint x - uint y - uint c" "uint c' \<le> 1"
proof -
  let ?s = "uint x - uint y - uint c"
  have s: "?s < 2 ^ 64" "- (2 ^ 64) \<le> ?s" using uint_lt64 [of x] uint_lt64 [of y] assms(2) uint_ge_0 [of x] uint_ge_0 [of y] uint_ge_0 [of c]
    by linarith+
  have r: "uint ((ucast x :: u128) - ucast y - ucast c) = ?s mod 2 ^ 128"
    by (simp add: uint_word_ariths mod_diff_left_eq)
  have z: "uint z = ?s mod 2 ^ 128 mod 2 ^ 64" "uint c' = (?s mod 2 ^ 128) div 2 ^ 64 mod 2"
    using assms(1)
    unfolding subx_def Let_def prod.inject r [symmetric] uint_narrow [symmetric] uint_and_one [symmetric]
    by simp_all
  show "uint z - 2 ^ 64 * uint c' = ?s" "uint c' \<le> 1"
  proof -
    have "uint z - 2 ^ 64 * uint c' = ?s \<and> uint c' \<le> 1"
    proof (cases "0 \<le> ?s")
      case True
      then have "?s mod 2 ^ 128 = ?s" using s by simp
      with True s show ?thesis by (simp add: z)
    next
      case False
      then show ?thesis using negative_low [of ?s] s by (simp only: z) simp
    qed
    then show "uint z - 2 ^ 64 * uint c' = ?s" "uint c' \<le> 1" by simp_all
  qed
qed

section \<open>Word arrays\<close>

fun ct_bn_add_words :: "u64 list \<Rightarrow> u64 list \<Rightarrow> u64 \<Rightarrow> u64 list \<times> u64" where
  "ct_bn_add_words (a # as) (b # bs) carry =
     (let (r, carry) = addx a b carry; (rs, carry) = ct_bn_add_words as bs carry in (r # rs, carry))"
| "ct_bn_add_words _ _ carry = ([], carry)"

fun ct_bn_sub_words :: "u64 list \<Rightarrow> u64 list \<Rightarrow> u64 \<Rightarrow> u64 list \<times> u64" where
  "ct_bn_sub_words (a # as) (b # bs) borrow =
     (let (r, borrow) = subx a b borrow; (rs, borrow) = ct_bn_sub_words as bs borrow in (r # rs, borrow))"
| "ct_bn_sub_words _ _ borrow = ([], borrow)"

text \<open>\<^verbatim>\<open>div_words_by_two\<close> runs from the top word down; the pair is the shifted array and the bit shifted out.\<close>

fun div_words_by_two :: "u64 list \<Rightarrow> u64 list \<times> u64" where
  "div_words_by_two [] = ([], 0)"
| "div_words_by_two (r # rs) =
     (let (rs', carry) = div_words_by_two rs
      in (or (drop_bit 1 r) carry # rs', push_bit (64 - 1) r))"

definition constant_time_mask_ulong :: "bool \<Rightarrow> u64" where
  "constant_time_mask_ulong flag = 0 - (if flag then 1 else 0)"

fun cnd_swap :: "bool \<Rightarrow> u64 list \<Rightarrow> u64 list \<Rightarrow> u64 list \<times> u64 list" where
  "cnd_swap flag (a # as) (b # bs) =
     (let delta = and (xor a b) (constant_time_mask_ulong flag); (as', bs') = cnd_swap flag as bs
      in (xor a delta # as', xor b delta # bs'))"
| "cnd_swap flag _ _ = ([], [])"

definition words_ok :: "nat \<Rightarrow> bool" where
  "words_ok n \<longleftrightarrow> 0 < n \<and> n \<le> MAX_MODULUS_WORDS"

definition cnd_add_words :: "u64 list \<Rightarrow> bool \<Rightarrow> u64 list \<Rightarrow> (u64 list \<times> u64) res" where
  "cnd_add_words r flag a =
     bind_res (cb_assert (words_ok (length r))) (\<lambda>_.
       let temp = map (\<lambda>w. and w (constant_time_mask_ulong flag)) a in Inr (ct_bn_add_words r temp 0))"

definition cnd_sub_words :: "u64 list \<Rightarrow> bool \<Rightarrow> u64 list \<Rightarrow> (u64 list \<times> u64) res" where
  "cnd_sub_words r flag a =
     bind_res (cb_assert (words_ok (length r))) (\<lambda>_.
       let temp = map (\<lambda>w. and w (constant_time_mask_ulong flag)) a in Inr (ct_bn_sub_words r temp 0))"

definition cnd_neg_words :: "u64 list \<Rightarrow> bool \<Rightarrow> (u64 list \<times> u64) res" where
  "cnd_neg_words r flag =
     bind_res (cb_assert (words_ok (length r))) (\<lambda>_.
       let r = map (\<lambda>w. xor w (constant_time_mask_ulong flag)) r;
           temp = (replicate (length r) 0)[0 := (if flag then 1 else 0)]
       in Inr (ct_bn_add_words r temp 0))"

lemma ct_bn_add_words_value:
  assumes "length as = length bs" "uint c \<le> 1" "ct_bn_add_words as bs c = (rs, c')"
  shows "length rs = length as \<and> lval rs + radix (length as) * uint c' = lval as + lval bs + uint c \<and> uint c' \<le> 1"
  using assms
proof (induction as bs arbitrary: c rs c' rule: list_induct2)
  case (Cons a as b bs)
  obtain r k where k: "addx a b c = (r, k)" by fastforce
  obtain rs0 k' where k': "ct_bn_add_words as bs k = (rs0, k')" by fastforce
  note v = addx_value [OF k Cons.prems(1)]
  have IH: "length rs0 = length as" "lval rs0 + radix (length as) * uint k' = lval as + lval bs + uint k" "uint k' \<le> 1"
    using Cons.IH [OF v(2) k'] by auto
  have "uint r + 2 ^ 64 * (lval rs0 + radix (length as) * uint k') = uint a + uint b + uint c + 2 ^ 64 * (lval as + lval bs)"
    unfolding IH(2) using v(1) by (simp add: algebra_simps)
  then show ?case using Cons.prems(2) k k' IH by (auto simp: power_add algebra_simps)
qed auto

lemma ct_bn_sub_words_value:
  assumes "length as = length bs" "uint c \<le> 1" "ct_bn_sub_words as bs c = (rs, c')"
  shows "length rs = length as \<and> lval rs - radix (length as) * uint c' = lval as - lval bs - uint c \<and> uint c' \<le> 1"
  using assms
proof (induction as bs arbitrary: c rs c' rule: list_induct2)
  case (Cons a as b bs)
  obtain r k where k: "subx a b c = (r, k)" by fastforce
  obtain rs0 k' where k': "ct_bn_sub_words as bs k = (rs0, k')" by fastforce
  note v = subx_value [OF k Cons.prems(1)]
  have IH: "length rs0 = length as" "lval rs0 - radix (length as) * uint k' = lval as - lval bs - uint k" "uint k' \<le> 1"
    using Cons.IH [OF v(2) k'] by auto
  have "uint r + 2 ^ 64 * (lval rs0 - radix (length as) * uint k') = uint a - uint b - uint c + 2 ^ 64 * (lval as - lval bs)"
    unfolding IH(2) using v(1) by (simp add: algebra_simps)
  then show ?case using Cons.prems(2) k k' IH by (auto simp: power_add algebra_simps)
qed auto

lemma mask_simps [simp]:
  "constant_time_mask_ulong True = - 1" "constant_time_mask_ulong False = 0"
  by (simp_all add: constant_time_mask_ulong_def)

lemma lval_masked: "lval (map (\<lambda>w. and w (constant_time_mask_ulong flag)) a) = (if flag then lval a else 0)"
  by (induction a) (cases flag; simp)+

lemma cnd_add_words_value:
  assumes "words_ok (length r)" "length a = length r"
  obtains r' c where "cnd_add_words r flag a = Inr (r', c)" "length r' = length r" "uint c \<le> 1"
    "lval r' + radix (length r) * uint c = lval r + (if flag then lval a else 0)"
proof -
  let ?t = "map (\<lambda>w. and w (constant_time_mask_ulong flag)) a"
  obtain r' c where "ct_bn_add_words r ?t 0 = (r', c)" by fastforce
  with ct_bn_add_words_value [OF _ _ this] assms that show thesis
    by (simp add: cnd_add_words_def Let_def lval_masked)
qed

lemma cnd_sub_words_value:
  assumes "words_ok (length r)" "length a = length r"
  obtains r' c where "cnd_sub_words r flag a = Inr (r', c)" "length r' = length r" "uint c \<le> 1"
    "lval r' - radix (length r) * uint c = lval r - (if flag then lval a else 0)"
proof -
  let ?t = "map (\<lambda>w. and w (constant_time_mask_ulong flag)) a"
  obtain r' c where "ct_bn_sub_words r ?t 0 = (r', c)" by fastforce
  with ct_bn_sub_words_value [OF _ _ this] assms that show thesis
    by (simp add: cnd_sub_words_def Let_def lval_masked)
qed

lemma uint_complement: "uint (not w :: u64) = 2 ^ 64 - 1 - uint w"
proof -
  have "uint (not w) = (2 ^ 64 - 1 - uint w) mod 2 ^ 64"
    using mod_add_self1 [of "2 ^ 64 :: int" "- uint w - 1"]
    by (simp add: not_eq_complement uint_word_ariths mod_diff_left_eq)
  also have "\<dots> = 2 ^ 64 - 1 - uint w"
    using uint_lt64 [of w] uint_ge_0 [of w] by (intro mod_pos_pos_trivial) linarith+
  finally show ?thesis .
qed

lemma lval_complement: "lval (map not r) = radix (length r) - 1 - lval r"
  by (induction r) (simp_all add: uint_complement power_add algebra_simps)

lemma lval_flag: "0 < n \<Longrightarrow> lval ((replicate n 0)[0 := (if flag then 1 else 0)]) = (if flag then 1 else 0)"
  by (cases n) simp_all

lemma cnd_neg_words_value:
  assumes "words_ok (length r)"
  obtains r' c where "cnd_neg_words r flag = Inr (r', c)" "length r' = length r"
    "lval r' = (if flag then (- lval r) mod radix (length r) else lval r)"
proof -
  let ?r = "map (\<lambda>w. xor w (constant_time_mask_ulong flag)) r"
  let ?t = "(replicate (length r) 0)[0 := (if flag then 1 else 0)] :: u64 list"
  obtain r' c where r: "ct_bn_add_words ?r ?t 0 = (r', c)" by fastforce
  have t: "lval ?t = (if flag then 1 else 0)" using assms by (intro lval_flag) (simp add: words_ok_def)
  have v: "length r' = length r" "lval r' + radix (length r) * uint c = lval ?r + (if flag then 1 else 0)"
    using ct_bn_add_words_value [OF _ _ r] by (simp_all add: t)
  then have "lval r' = (lval ?r + (if flag then 1 else 0)) mod radix (length r)"
    using lval_less [of r'] by (metis lval_nonneg mod_mult_self2 mod_pos_pos_trivial)
  also have "\<dots> = (if flag then (- lval r) mod radix (length r) else lval r)"
    using lval_less [of r] by (auto simp: lval_complement)
  finally show thesis using that [of r' c] r v assms by (simp add: cnd_neg_words_def Let_def)
qed

lemma cnd_swap_value: "length a = length b \<Longrightarrow> cnd_swap flag a b = (if flag then (b, a) else (a, b))"
  by (induction a b rule: list_induct2) (auto simp: xor.assoc xor.left_commute)

lemma bit_top: "bit (2 ^ 63 :: u64) n \<longleftrightarrow> n = 63"
  unfolding bit_exp_iff by (auto simp: possible_bit_word)

lemma or_top_bit: "uint (or (drop_bit 1 w) (2 ^ 63) :: u64) = uint w div 2 + 2 ^ 63"
proof -
  have "and (drop_bit 1 w) (2 ^ 63) = 0"
    by (rule bit_word_eqI) (simp only: bit_and_iff bit_top bit_drop_bit_eq bit_0_eq, auto dest: bit_imp_le_length)
  then have "or (drop_bit 1 w) (2 ^ 63) = drop_bit 1 w + 2 ^ 63"
    by (simp add: disjunctive_add_eq_or)
  moreover have "uint w div 2 < 2 ^ 63" "uint (drop_bit 1 w) = uint w div 2"
    using uint_lt64 [of w] by (simp_all add: drop_bit_Suc uint_div)
  ultimately show ?thesis by (simp add: uint_word_ariths)
qed

lemma push_bit_top: "push_bit 63 (w :: u64) = (if odd (uint w) then 2 ^ 63 else 0)"
proof (rule bit_word_eqI)
  fix n
  assume "n < LENGTH(64)"
  then have "bit (push_bit 63 w) n \<longleftrightarrow> n = 63 \<and> odd w"
    by (auto simp: bit_push_bit_iff bit_0 possible_bit_word)
  also have "odd w \<longleftrightarrow> odd (uint w)" by (transfer, simp)
  finally show "bit (push_bit 63 w) n = bit (if odd (uint w) then 2 ^ 63 else 0 :: u64) n"
    by (simp only: bit_top bit_0_eq split: if_split) auto
qed

lemma div_words_by_two_value:
  "length (fst (div_words_by_two r)) = length r \<and> lval (fst (div_words_by_two r)) = lval r div 2
   \<and> snd (div_words_by_two r) = (if odd (lval r) then 2 ^ 63 else 0)"
proof (induction r)
  case (Cons w r)
  obtain r' c where d: "div_words_by_two r = (r', c)" by fastforce
  have IH: "length r' = length r" "lval r' = lval r div 2" "c = (if odd (lval r) then 2 ^ 63 else 0)"
    using Cons by (simp_all add: d)
  have half: "uint (drop_bit 1 w) = uint w div 2" by (simp add: drop_bit_Suc uint_div)
  have "uint (or (drop_bit 1 w) c) = uint w div 2 + (if odd (lval r) then 2 ^ 63 else 0)"
    using or_top_bit [of w] half by (simp add: IH(3))
  then have "uint (or (drop_bit 1 w) c) + 2 ^ 64 * (lval r div 2) = (uint w + 2 ^ 64 * lval r) div 2"
    by (cases "odd (lval r)") (auto elim!: oddE evenE)
  moreover note push_bit_top [of w]
  ultimately show ?case by (simp add: d IH)
qed simp

section \<open>Inversion\<close>

type_synonym scr_words = "u64 list \<times> u64 list \<times> u64 list \<times> u64 list"

definition is_odd_words :: "u64 list \<Rightarrow> bool" where
  "is_odd_words a \<longleftrightarrow> and (hd a) 1 \<noteq> 0"

definition scr_step :: "u64 list \<Rightarrow> u64 list \<Rightarrow> scr_words \<Rightarrow> scr_words res" where
  "scr_step m mp1o2 = (\<lambda>(a, b, u, v).
     let a_is_odd = is_odd_words a in
     bind_res (cnd_sub_words a a_is_odd b) (\<lambda>(a, borrow). let underflow = (borrow \<noteq> 0) in
     bind_res (cnd_add_words b underflow a) (\<lambda>(b, _).
     bind_res (cnd_neg_words a underflow) (\<lambda>(a, _).
     let (u, v) = cnd_swap underflow u v; a = fst (div_words_by_two a) in
     bind_res (cnd_sub_words u a_is_odd v) (\<lambda>(u, borrow).
     bind_res (cnd_add_words u (borrow \<noteq> 0) m) (\<lambda>(u, _).
     let u_is_odd = is_odd_words u; u = fst (div_words_by_two u) in
     bind_res (cnd_add_words u u_is_odd mp1o2) (\<lambda>(u, _). Inr (a, b, u, v))))))))"

fun scr_loop :: "nat \<Rightarrow> u64 list \<Rightarrow> u64 list \<Rightarrow> scr_words \<Rightarrow> scr_words res" where
  "scr_loop 0 m mp1o2 st = Inr st"
| "scr_loop (Suc i) m mp1o2 st = bind_res (scr_step m mp1o2 st) (scr_loop i m mp1o2)"

definition scr_inv :: "int \<Rightarrow> int \<Rightarrow> int res" where
  "scr_inv q x =
     bind_res (cb_assert (x < q)) (\<lambda>_.
       let n = bn_top q; m = to_limbs n q in
       bind_res (cb_assert (words_ok n)) (\<lambda>_.
         let a = to_limbs n \<bar>x\<bar>; b = m; u = (replicate n 0)[0 := 1]; v = replicate n 0;
             mp1o2 = fst (ct_bn_add_words (fst (div_words_by_two m)) u 0)
         in bind_res (scr_loop (n * 64 * 2) m mp1o2 (a, b, u, v)) (\<lambda>(a, b, u, v). Inr (lval v))))"

text \<open>The same step on integers: the specification the words are compared with.\<close>

definition scr_half :: "int \<Rightarrow> int \<Rightarrow> int" where
  "scr_half m u = (if odd u then (u + m) div 2 else u div 2)"

definition scr_spec :: "int \<Rightarrow> int \<times> int \<times> int \<times> int \<Rightarrow> int \<times> int \<times> int \<times> int" where
  "scr_spec m = (\<lambda>(a, b, u, v).
     let (a1, b1, u1, v1) =
           (if odd a then if a < b then (b - a, a, v, u) else (a - b, b, u, v) else (a, b, u, v));
         u2 = (if odd a then (u1 - v1) mod m else u1)
     in (a1 div 2, b1, scr_half m u2, v1))"

definition scr_value :: "scr_words \<Rightarrow> int \<times> int \<times> int \<times> int" where
  "scr_value = (\<lambda>(a, b, u, v). (lval a, lval b, lval u, lval v))"

definition scr_wf :: "nat \<Rightarrow> int \<Rightarrow> scr_words \<Rightarrow> bool" where
  "scr_wf n m = (\<lambda>(a, b, u, v). length a = n \<and> length b = n \<and> length u = n \<and> length v = n
     \<and> lval u < m \<and> lval v < m)"

lemma is_odd_words_value: "a \<noteq> [] \<Longrightarrow> is_odd_words a \<longleftrightarrow> odd (lval a)"
proof (cases a)
  case (Cons w ws)
  have "odd w \<longleftrightarrow> odd (uint w)" by (transfer, simp)
  then show ?thesis using Cons by (simp add: is_odd_words_def and_one_eq odd_iff_mod_2_eq_one)
qed simp

lemma borrow_iff:
  assumes "lval r - radix n * uint (c :: u64) = x" "uint c \<le> 1" "length r = n"
  shows "c \<noteq> 0 \<longleftrightarrow> x < 0" "lval r = (if x < 0 then x + radix n else x)"
proof -
  have "uint c = 0 \<or> uint c = 1" using assms(2) uint_ge_0 [of c] by linarith
  then have "(c = 0 \<and> lval r = x) \<or> (c \<noteq> 0 \<and> lval r = x + radix n)"
    using assms(1) by (auto simp: uint_0_iff)
  then show "c \<noteq> 0 \<longleftrightarrow> x < 0" "lval r = (if x < 0 then x + radix n else x)"
    using lval_less [of r] lval_nonneg [of r] assms(3) by auto
qed

lemma carry_mod:
  assumes "lval r + radix n * uint (c :: u64) = x" "length r = n"
  shows "lval r = x mod radix n"
  using assms lval_less [of r] by (metis lval_nonneg mod_mult_self2 mod_pos_pos_trivial)

text \<open>The words \<open>a\<close> and \<open>b\<close> of a step, then the word \<open>u\<close>.\<close>

lemma scr_ab_words:
  assumes n: "words_ok n" and len: "length a = n" "length b = n"
  defines "low \<equiv> odd (lval a) \<and> lval a < lval b"
  shows "\<exists>a1 c1 b1 c2 a2 c3. cnd_sub_words a (odd (lval a)) b = Inr (a1, c1) \<and> (c1 \<noteq> 0 \<longleftrightarrow> low)
    \<and> cnd_add_words b low a1 = Inr (b1, c2) \<and> cnd_neg_words a1 low = Inr (a2, c3)
    \<and> length a2 = n \<and> length b1 = n \<and> lval b1 = (if low then lval a else lval b)
    \<and> lval a2 = (if low then lval b - lval a else lval a - (if odd (lval a) then lval b else 0))"
proof -
  let ?R = "radix n" and ?o = "odd (lval a)"
  obtain a1 c1 where a1: "cnd_sub_words a ?o b = Inr (a1, c1)" "length a1 = n" "uint c1 \<le> 1"
    "lval a1 - ?R * uint c1 = lval a - (if ?o then lval b else 0)"
    using cnd_sub_words_value [of a b ?o] n len by metis
  have c1: "c1 \<noteq> 0 \<longleftrightarrow> low" "lval a1 = (if low then lval a - lval b + ?R else lval a - (if ?o then lval b else 0))"
    using borrow_iff [OF a1(4,3,2)] by (auto simp: low_def)
  obtain b1 c2 where b1: "cnd_add_words b low a1 = Inr (b1, c2)" "length b1 = n"
    "lval b1 + ?R * uint c2 = lval b + (if low then lval a1 else 0)"
    using cnd_add_words_value [of b a1 low] n len a1(2) by metis
  have b1v: "lval b1 = (if low then lval a else lval b)"
    using carry_mod [OF b1(3,2)] lval_less [of a] lval_less [of b] len by (auto simp: c1)
  obtain a2 c3 where a2: "cnd_neg_words a1 low = Inr (a2, c3)" "length a2 = n"
    "lval a2 = (if low then (- lval a1) mod ?R else lval a1)"
    using cnd_neg_words_value [of a1 low] n a1(2) by metis
  have "(lval b - lval a - ?R) mod ?R = lval b - lval a" if low
    using that lval_less [of b] len(2) lval_nonneg [of a] unfolding low_def
    by (simp only: minus_mod_self2) (intro mod_pos_pos_trivial; linarith)
  then have "lval a2 = (if low then lval b - lval a else lval a - (if ?o then lval b else 0))"
    using a2(3) by (auto simp: c1 algebra_simps)
  with a1 c1(1) b1 b1v a2 show ?thesis by blast
qed

lemma borrowed_sum:
  assumes "0 \<le> u" "u < m" "0 \<le> v" "v < m" "m < (R :: int)"
  shows "((if u - v < 0 then u - v + R else u - v) + (if u - v < 0 then m else 0)) mod R = (u - v) mod m"
proof (cases "u < v")
  case True
  have "(u - v + R + m) mod R = (u - v + m) mod R" by (metis add.assoc add.commute mod_add_self1)
  also have "\<dots> = u - v + m" using assms True by (intro mod_pos_pos_trivial) auto
  also have "\<dots> = (u - v) mod m"
    by (rule int_mod_pos_eq [where q = "- 1", symmetric]) (use assms True in auto)
  finally show ?thesis using True by simp
next
  case False
  then have "(u - v) mod R = u - v" "(u - v) mod m = u - v" using assms by (auto intro: mod_pos_pos_trivial)
  then show ?thesis using False by simp
qed

lemma scr_u_words:
  assumes n: "words_ok n" and m: "length m = n" "odd (lval m)" "length mp = n" "lval mp = (lval m + 1) div 2"
    and len: "length u = n" "length v = n" "lval u < lval m" "lval v < lval m"
  shows "\<exists>u2 c4 u3 c5 u4 c6. cnd_sub_words u od v = Inr (u2, c4) \<and> cnd_add_words u2 (c4 \<noteq> 0) m = Inr (u3, c5)
    \<and> is_odd_words u3 = odd (lval u3) \<and> cnd_add_words (fst (div_words_by_two u3)) (odd (lval u3)) mp = Inr (u4, c6)
    \<and> length u4 = n \<and> lval u4 < lval m \<and> lval u4 = scr_half (lval m) (if od then (lval u - lval v) mod lval m else lval u)"
proof -
  let ?R = "radix n" and ?v = "if od then lval v else 0"
  have mR: "lval m < ?R" "0 < lval m" using lval_less [of m] m lval_nonneg [of m] by (auto simp: le_less)
  obtain u2 c4 where u2: "cnd_sub_words u od v = Inr (u2, c4)" "length u2 = n" "uint c4 \<le> 1"
    "lval u2 - ?R * uint c4 = lval u - ?v"
    using cnd_sub_words_value [of u v od] n len by metis
  note c4 = borrow_iff [OF u2(4,3,2)]
  obtain u3 c5 where u3: "cnd_add_words u2 (c4 \<noteq> 0) m = Inr (u3, c5)" "length u3 = n"
    "lval u3 + ?R * uint c5 = lval u2 + (if c4 \<noteq> 0 then lval m else 0)"
    using cnd_add_words_value [of u2 m "c4 \<noteq> 0"] n u2(2) m by metis
  have "lval u3 = (lval u2 + (if c4 \<noteq> 0 then lval m else 0)) mod ?R" by (rule carry_mod [OF u3(3,2)])
  also have "\<dots> = (lval u - ?v) mod lval m"
    unfolding c4 by (rule borrowed_sum) (use len mR in auto)
  finally have u3v: "lval u3 = (if od then (lval u - lval v) mod lval m else lval u)" using len(3) by simp
  have u3m: "lval u3 < lval m" using len(3) mR by (simp add: u3v)
  have odd_u: "is_odd_words u3 = odd (lval u3)" using n u3(2) by (intro is_odd_words_value) (auto simp: words_ok_def)
  obtain u4 c6 where u4: "cnd_add_words (fst (div_words_by_two u3)) (odd (lval u3)) mp = Inr (u4, c6)" "length u4 = n"
    "lval u4 + ?R * uint c6 = lval u3 div 2 + (if odd (lval u3) then lval mp else 0)"
    using cnd_add_words_value [of "fst (div_words_by_two u3)" mp "odd (lval u3)"] n u3(2) m div_words_by_two_value [of u3]
    by metis
  have h: "lval u3 div 2 + (if odd (lval u3) then lval mp else 0) = scr_half (lval m) (lval u3)"
    using m(2,4) by (auto simp: scr_half_def elim!: oddE)
  have hm: "0 \<le> scr_half (lval m) (lval u3)" "scr_half (lval m) (lval u3) < lval m"
    using u3m mR by (auto simp: scr_half_def)
  have "lval u4 = scr_half (lval m) (lval u3)"
    using carry_mod [OF u4(3,2)] hm mR by (simp add: h)
  with hm(2) have "lval u4 < lval m"
    "lval u4 = scr_half (lval m) (if od then (lval u - lval v) mod lval m else lval u)"
    unfolding u3v by simp_all
  with u2(1) u3(1) odd_u u4(1,2) show ?thesis by blast
qed

lemma scr_step_refines:
  assumes n: "words_ok n" and m: "length m = n" "odd (lval m)" "length mp = n" "lval mp = (lval m + 1) div 2"
    and st: "scr_wf n (lval m) st"
  shows "\<exists>st'. scr_step m mp st = Inr st' \<and> scr_wf n (lval m) st' \<and> scr_value st' = scr_spec (lval m) (scr_value st)"
proof -
  obtain a b u v where s: "st = (a, b, u, v)" by (cases st)
  have len: "length a = n" "length b = n" "length u = n" "length v = n" "lval u < lval m" "lval v < lval m"
    using st by (auto simp: scr_wf_def s)
  define low where "low \<longleftrightarrow> odd (lval a) \<and> lval a < lval b"
  obtain a1 c1 b1 c2 a2 c3 where ab: "cnd_sub_words a (odd (lval a)) b = Inr (a1, c1)" "c1 \<noteq> 0 \<longleftrightarrow> low"
    "cnd_add_words b low a1 = Inr (b1, c2)" "cnd_neg_words a1 low = Inr (a2, c3)"
    "length a2 = n" "length b1 = n" "lval b1 = (if low then lval a else lval b)"
    "lval a2 = (if low then lval b - lval a else lval a - (if odd (lval a) then lval b else 0))"
    using scr_ab_words [OF n len(1,2)] unfolding low_def by blast
  have odd_a: "is_odd_words a = odd (lval a)" using n len(1) by (intro is_odd_words_value) (auto simp: words_ok_def)
  define u1 v1 where "u1 = (if low then v else u)" and "v1 = (if low then u else v)"
  have uv: "cnd_swap low u v = (u1, v1)" "length u1 = n" "length v1 = n" "lval u1 < lval m" "lval v1 < lval m"
    using len by (auto simp: cnd_swap_value u1_def v1_def)
  obtain u2 c4 u3 c5 u4 c6 where u: "cnd_sub_words u1 (odd (lval a)) v1 = Inr (u2, c4)"
    "cnd_add_words u2 (c4 \<noteq> 0) m = Inr (u3, c5)" "is_odd_words u3 = odd (lval u3)"
    "cnd_add_words (fst (div_words_by_two u3)) (odd (lval u3)) mp = Inr (u4, c6)" "length u4 = n" "lval u4 < lval m"
    "lval u4 = scr_half (lval m) (if odd (lval a) then (lval u1 - lval v1) mod lval m else lval u1)"
    using scr_u_words [OF n m uv(2-5), of "odd (lval a)"] by blast
  let ?st = "(fst (div_words_by_two a2), b1, u4, v1)"
  have "scr_step m mp st = Inr ?st"
    using ab(1,3,4) uv(1) u(1,2,4) by (simp add: s scr_step_def odd_a ab(2) u(3) Let_def)
  moreover have "scr_wf n (lval m) ?st" "scr_value ?st = scr_spec (lval m) (scr_value st)"
    using ab(5-8) uv(3,5) u(5-7) div_words_by_two_value [of a2]
    by (auto simp: scr_wf_def scr_value_def scr_spec_def s scr_half_def low_def u1_def v1_def Let_def)
  ultimately show ?thesis by blast
qed

text \<open>
  The invariant of the loop for the input \<open>x\<close> after \<open>i\<close> steps: \<open>u\<close> and \<open>v\<close> carry \<open>a\<close> and \<open>b\<close> as multiples of
  \<open>x\<close>, the greatest common divisor is kept, and the product \<open>a * b\<close> halves.
\<close>

definition scr_inv_holds :: "int \<Rightarrow> int \<Rightarrow> nat \<Rightarrow> int \<times> int \<times> int \<times> int \<Rightarrow> bool" where
  "scr_inv_holds m x i = (\<lambda>(a, b, u, v). 0 \<le> a \<and> 0 < b \<and> odd b \<and> gcd a b = gcd x m
     \<and> eqm m (u * x) a \<and> eqm m (v * x) b \<and> a * b * 2 ^ i \<le> x * m)"

lemma eqm_halve: "odd m \<Longrightarrow> eqm m (2 * a) (2 * b) \<Longrightarrow> eqm m a b"
proof -
  assume m: "odd m" and "eqm m (2 * a) (2 * b)"
  then have "m dvd 2 * (a - b)" by (simp add: eqm_def mod_eq_dvd_iff right_diff_distrib)
  moreover have "coprime m 2" using m by simp
  ultimately have "m dvd a - b" by (metis coprime_dvd_mult_right_iff)
  then show ?thesis by (simp add: eqm_def mod_eq_dvd_iff)
qed

lemma scr_half_eqm: "odd m \<Longrightarrow> eqm m (2 * scr_half m u) u"
  by (cases "even u") (auto simp: scr_half_def eqm_def)

lemma gcd_halve: "even (a :: int) \<Longrightarrow> odd b \<Longrightarrow> gcd (a div 2) b = gcd a b"
proof -
  assume "even a" and b: "odd b"
  then obtain c where a: "a = 2 * c" by (elim evenE)
  have "coprime b 2" using b by simp
  then have "gcd b (2 * c) = gcd b c" by (rule gcd_mult_right_left_cancel)
  then show ?thesis by (simp add: a gcd.commute)
qed

lemma scr_spec_step:
  assumes m: "odd m" "0 < m" and b: "0 \<le> a1" "0 < b1" "odd b1" "even a1" "gcd a1 b1 = gcd x m"
    and u: "eqm m (u2 * x) a1" "eqm m (v1 * x) b1" and p: "a1 * b1 * 2 ^ i \<le> x * m"
  shows "scr_inv_holds m x (Suc i) (a1 div 2, b1, scr_half m u2, v1)"
proof -
  have "eqm m (2 * (scr_half m u2 * x)) (u2 * x)"
    using eqm_mult [OF scr_half_eqm [OF m(1), of u2] eqm_refl [of m x]] by (simp add: mult.assoc)
  also note u(1)
  also have "a1 = 2 * (a1 div 2)" using b(4) by simp
  finally have "eqm m (scr_half m u2 * x) (a1 div 2)" by (rule eqm_halve [OF m(1)])
  moreover have "a1 div 2 * b1 * 2 ^ Suc i \<le> x * m" using p b(4) by (auto elim!: evenE)
  ultimately show ?thesis
    using b u(2) gcd_halve [OF b(4,3)] by (simp add: scr_inv_holds_def del: power_Suc)
qed

lemma scr_spec_keeps:
  assumes m: "odd m" "0 < m" and x: "0 \<le> x" and st: "scr_inv_holds m x i st"
  shows "scr_inv_holds m x (Suc i) (scr_spec m st)"
proof -
  obtain a b u v where s: "st = (a, b, u, v)" by (cases st)
  have i: "0 \<le> a" "0 < b" "odd b" "gcd a b = gcd x m" "eqm m (u * x) a" "eqm m (v * x) b" "a * b * 2 ^ i \<le> x * m"
    using st by (auto simp: scr_inv_holds_def s)
  have less: "(c * d) * 2 ^ i \<le> x * m" if "c \<le> a" "d \<le> b" "0 \<le> c" "0 \<le> d" for c d
  proof -
    have "c * d \<le> a * b" using that by (intro mult_mono) auto
    then show ?thesis using i(7) by (meson mult_right_mono order_trans zero_le_numeral zero_le_power)
  qed
  consider "even a" | "odd a" "a < b" | "odd a" "b \<le> a" by linarith
  then show ?thesis
  proof cases
    case 1
    with scr_spec_step [OF m i(1-3) _ i(4-7)] show ?thesis by (simp add: scr_spec_def s)
  next
    case 2
    have "eqm m (((v - u) mod m) * x) ((v - u) * x)" by (intro eqm_mult) auto
    also have "eqm m ((v - u) * x) (b - a)" using eqm_diff [OF i(6,5)] by (simp add: algebra_simps)
    finally have "eqm m (((v - u) mod m) * x) (b - a)" .
    moreover have "gcd (b - a) a = gcd x m" using i(4) by (metis gcd.commute gcd_diff1)
    moreover have "(b - a) * a * 2 ^ i \<le> x * m" using less [of a "b - a"] 2 i by (simp add: mult.commute)
    ultimately show ?thesis
      using scr_spec_step [OF m, of "b - a" a x "(v - u) mod m" u i] 2 i by (auto simp: scr_spec_def s le_less)
  next
    case 3
    have "eqm m (((u - v) mod m) * x) ((u - v) * x)" by (intro eqm_mult) auto
    also have "eqm m ((u - v) * x) (a - b)" using eqm_diff [OF i(5,6)] by (simp add: algebra_simps)
    finally have "eqm m (((u - v) mod m) * x) (a - b)" .
    moreover have "gcd (a - b) b = gcd x m" using i(4) by (metis gcd_diff1)
    moreover have "(a - b) * b * 2 ^ i \<le> x * m" using less [of "a - b" b] 3 i by simp
    ultimately show ?thesis
      using scr_spec_step [OF m, of "a - b" b x "(u - v) mod m" v i] 3 i by (auto simp: scr_spec_def s)
  qed
qed

lemma scr_loop_invariant:
  assumes n: "words_ok n" and m: "length m = n" "odd (lval m)" "length mp = n" "lval mp = (lval m + 1) div 2"
    and x: "0 \<le> x" and st: "scr_wf n (lval m) st" "scr_inv_holds (lval m) x i (scr_value st)"
  shows "\<exists>st'. scr_loop k m mp st = Inr st' \<and> scr_wf n (lval m) st' \<and> scr_inv_holds (lval m) x (i + k) (scr_value st')"
  using st
proof (induction k arbitrary: st i)
  case (Suc k)
  have m0: "0 < lval m" using m(2) lval_nonneg [of m] by (auto simp: le_less)
  obtain st' where st': "scr_step m mp st = Inr st'" "scr_wf n (lval m) st'"
    "scr_value st' = scr_spec (lval m) (scr_value st)"
    using scr_step_refines [OF n m Suc.prems(1)] by blast
  have "scr_inv_holds (lval m) x (Suc i) (scr_value st')"
    unfolding st'(3) by (rule scr_spec_keeps [OF m(2) m0 x Suc.prems(2)])
  from Suc.IH [OF st'(2) this] st'(1) show ?case by simp
qed simp

text \<open>
  \<^verbatim>\<open>scr_inv\<close> ends with \<open>a = 0\<close> and returns a number whose product with the operand is the greatest
  common divisor of operand and modulus: the inverse, when there is one.
\<close>

lemma scr_inv_gcd:
  assumes m: "is_valid_modulus m" and x: "is_in_range m x"
  shows "\<exists>r. scr_inv m x = Inr r \<and> is_in_range m r \<and> eqm m (r * x) (gcd x m)"
proof -
  define n M where "n = bn_top m" and "M = to_limbs n m"
  have m1: "1 < m" "odd m" "m < radix n" using m bn_top_bounds [of m] by (auto simp: is_valid_modulus_def n_def)
  have n: "words_ok n" using valid_modulus_words [OF m] bn_top_bounds(3) [of m] m1 by (simp add: words_ok_def n_def)
  have x0: "0 \<le> x" "x < m" using x by (auto simp: is_in_range_def)
  have M: "length M = n" "lval M = m" using m1 by (simp_all add: M_def lval_to_limbs)
  define one where "one = ((replicate n 0)[0 := 1] :: u64 list)"
  have one: "length one = n" "lval one = 1"
    using n lval_flag [of n True] by (simp_all add: one_def words_ok_def)
  define mp where "mp = fst (ct_bn_add_words (fst (div_words_by_two M)) one 0)"
  obtain r c where rc: "ct_bn_add_words (fst (div_words_by_two M)) one 0 = (r, c)" by fastforce
  have half: "length (fst (div_words_by_two M)) = n" "lval (fst (div_words_by_two M)) = m div 2"
    using div_words_by_two_value [of M] M by auto
  have "length mp = n" "lval mp + radix n * uint c = m div 2 + 1"
    using ct_bn_add_words_value [OF _ _ rc] half one by (auto simp: mp_def rc)
  moreover have "0 \<le> m div 2 + 1" "m div 2 + 1 < radix n" using m1 by linarith+
  ultimately have mp: "length mp = n" "lval mp = (lval M + 1) div 2"
    using carry_mod [of mp n c "m div 2 + 1"] m1(2) M(2) by (auto elim!: oddE)
  let ?st = "(to_limbs n x, M, one, replicate n 0)"
  have xl: "lval (to_limbs n x) = x" using x0 m1(3) by (simp add: lval_to_limbs)
  have wf: "scr_wf n (lval M) ?st" using M one m1 by (simp add: scr_wf_def)
  have inv0: "scr_inv_holds (lval M) x 0 (scr_value ?st)"
    using m1 x0 M one xl by (simp add: scr_inv_holds_def scr_value_def eqm_zero_iff) (simp add: eqm_def)
  obtain a b u v where st: "scr_loop (n * 64 * 2) M mp ?st = Inr (a, b, u, v)" "scr_wf n m (a, b, u, v)"
    "scr_inv_holds m x (0 + n * 64 * 2) (scr_value (a, b, u, v))"
    using scr_loop_invariant [OF n M(1) _ mp x0(1) wf inv0, of "n * 64 * 2"] M m1 by auto
  have f: "0 \<le> lval a" "0 < lval b" "gcd (lval a) (lval b) = gcd x m" "eqm m (lval v * x) (lval b)"
    "lval a * lval b * 2 ^ (n * 64 * 2) \<le> x * m"
    using st(3) by (auto simp: scr_inv_holds_def scr_value_def)
  have "x * m < radix n * radix n" using x0 m1 by (intro mult_strict_mono) auto
  also have "\<dots> = 2 ^ (n * 64 * 2)" by (simp add: mult.commute flip: power_add)
  finally have "lval a * lval b * 2 ^ (n * 64 * 2) < 1 * 2 ^ (n * 64 * 2)" using f(5) by linarith
  then have "lval a * lval b < 1" by (simp only: mult_less_cancel_right) auto
  then have "lval a = 0" using f(1,2) by (metis int_one_le_iff_zero_less le_less mult_pos_pos not_less)
  then have "lval b = gcd x m" using f(2,3) by simp
  moreover have "scr_inv m x = Inr (lval v)"
    using st(1) x0 n by (simp add: scr_inv_def Let_def flip: n_def M_def one_def mp_def)
  ultimately show ?thesis
    using f(4) st(2) by (auto simp: is_in_range_def scr_wf_def)
qed

text \<open>
  The check of \<^verbatim>\<open>mod_t::coprime\<close> outside a vartime scope, for a modulus whose inversion is \<^verbatim>\<open>SCR\<close>: the
  product of the computed inverse with the operand is one. A failed assertion of the inversion means
  not coprime.
\<close>

definition mod_coprime :: "int \<Rightarrow> int \<Rightarrow> bool res" where
  "mod_coprime m a =
     bind_res (mod_mod False m a) (\<lambda>a_mod.
       case bind_res (scr_inv m a_mod) (\<lambda>a_inv. mod_mul False m a_inv a_mod) of
         Inr p \<Rightarrow> Inr (p = 1)
       | Inl e \<Rightarrow> if e = Assert_Failed then Inr False else Inl e)"

lemma mod_coprime_correct:
  assumes ok: "barrett_ok m" and a: "0 \<le> a" "bn_top a \<le> 2 * bn_top m"
  shows "mod_coprime m a = Inr (coprime a m)"
proof -
  note m = barrett_ok_valid [OF ok]
  have r: "is_in_range m (a mod m)" using m by simp
  obtain v where v: "scr_inv m (a mod m) = Inr v" "is_in_range m v" "eqm m (v * (a mod m)) (gcd (a mod m) m)"
    using scr_inv_gcd [OF m(1) r] by blast
  have g: "gcd (a mod m) m = gcd a m" by (metis gcd.commute gcd_red_int)
  have "gcd a m \<le> m" using m(2) by (intro zdvd_imp_le) auto
  then have "gcd a m = m \<or> gcd a m mod m = gcd a m" by (auto intro: mod_pos_pos_trivial)
  then have "gcd a m mod m = 1 \<longleftrightarrow> gcd a m = 1" using m(2) by auto
  then have "(v * (a mod m)) mod m = 1 \<longleftrightarrow> gcd a m = 1" using v(3) by (simp only: eqm_def g)
  then show ?thesis
    using v r ok a m by (simp add: mod_coprime_def mod_mod_eq mod_simps coprime_iff_gcd_eq_1)
qed

text \<open>The checked inversion provides the contract the clients of \<open>bn_inv\<close> rely on.\<close>

definition scr_checked_inv :: bn_inverse where
  "scr_checked_inv a m =
     (case scr_inv m a of Inr r \<Rightarrow> if (a * r) mod m = 1 then Some r else None | Inl _ \<Rightarrow> None)"

interpretation scr: mod_inverse scr_checked_inv
proof
  fix m a
  assume m: "is_valid_modulus m" and a: "is_in_range m a"
  obtain r where r: "scr_inv m a = Inr r" "is_in_range m r" "eqm m (r * a) (gcd a m)"
    using scr_inv_gcd [OF m a] by blast
  show "\<exists>r. scr_checked_inv a m = Some r" if "coprime a m"
    using r that m by (simp add: scr_checked_inv_def eqm_def mult.commute is_valid_modulus_def)
  show "is_in_range m r' \<and> (a * r') mod m = 1" if "scr_checked_inv a m = Some r'" for r'
    using r that by (auto simp: scr_checked_inv_def split: if_splits)
qed

section \<open>Barrett reduction\<close>

text \<open>
  \<^verbatim>\<open>barrett_partial_mul\<close>: the schoolbook product of \<open>u\<close> and \<open>v\<close> cut to the words of \<open>r\<close>. A row adds \<open>u * v[j]\<close>
  to the words of \<open>r\<close> from \<open>j\<close> on and stores the last carry, where there is a word left for it.
\<close>

fun partial_mul_row :: "u64 list \<Rightarrow> u64 \<Rightarrow> u64 list \<Rightarrow> u64 \<Rightarrow> u64 list" where
  "partial_mul_row (u # us) vj (r # rs) k =
     (let t = (ucast u :: u128) * ucast vj + ucast r + ucast k
      in ucast t # partial_mul_row us vj rs (ucast (drop_bit 64 t)))"
| "partial_mul_row [] vj (r # rs) k = k # rs"
| "partial_mul_row us vj [] k = []"

fun partial_mul_rows :: "u64 list \<Rightarrow> u64 list \<Rightarrow> u64 list \<Rightarrow> u64 list" where
  "partial_mul_rows u (vj # vs) r =
     (case partial_mul_row u vj r 0 of [] \<Rightarrow> [] | x # xs \<Rightarrow> x # partial_mul_rows u vs xs)"
| "partial_mul_rows u [] r = r"

definition barrett_partial_mul :: "nat \<Rightarrow> u64 list \<Rightarrow> u64 list \<Rightarrow> u64 list" where
  "barrett_partial_mul ResultLength u v = partial_mul_rows u v (replicate ResultLength 0)"

definition constant_time_mask_64 :: "u64 \<Rightarrow> u64" where
  "constant_time_mask_64 flag = 0 - flag"

definition masked_select :: "u64 \<Rightarrow> u64 \<Rightarrow> u64 \<Rightarrow> u64" where
  "masked_select rnd y z = or (and y rnd) (and z (not rnd))"

text \<open>
  \<^verbatim>\<open>mod_t::_mod\<close> on words, after its size checks; \<open>bn_mul_normal\<close> is the multiplication of OpenSSL. The
  array \<open>r1\<close> has \<open>k + 1\<close> words, of which the conditional subtractions rewrite the first \<open>k\<close>.
\<close>

definition barrett_words ::
  "(u64 list \<Rightarrow> u64 list \<Rightarrow> u64 list) \<Rightarrow> u64 list \<Rightarrow> u64 list \<Rightarrow> u64 list \<Rightarrow> u64 list" where
  "barrett_words bn_mul_normal mm mu x =
     (let k = length mm;
          q1 = drop (k - 1) x; q2 = bn_mul_normal q1 mu; q3 = drop (k + 1) q2;
          r2 = barrett_partial_mul (k + 1) q3 mm;
          r1 = take (k + 1) (x @ replicate (k + 1) 0);
          r1 = fst (ct_bn_sub_words r1 r2 0);
          (r2, borrow) = ct_bn_sub_words (take k r1) mm 0;
          borrow = and borrow (if r1 ! k = 0 then 1 else 0);
          r = map2 (masked_select (constant_time_mask_64 borrow)) (take k r1) r2;
          (r2, borrow) = ct_bn_sub_words r mm 0
      in map2 (masked_select (0 - borrow)) r r2)"

locale word_mul =
  fixes bn_mul_normal :: "u64 list \<Rightarrow> u64 list \<Rightarrow> u64 list"
  assumes mul_length: "length (bn_mul_normal a b) = length a + length b"
    and mul_value: "lval (bn_mul_normal a b) = lval a * lval b"

lemma partial_mul_row_length [simp]: "length (partial_mul_row us vj r k) = length r"
  by (induction us vj r k rule: partial_mul_row.induct) (simp_all add: Let_def)

lemma partial_mul_row_rest: "drop (Suc (length us)) (partial_mul_row us vj r k) = drop (Suc (length us)) r"
  by (induction us vj r k rule: partial_mul_row.induct) (simp_all add: Let_def)

lemma mul_step_value:
  fixes u v r k :: u64
  defines "t \<equiv> (ucast u :: u128) * ucast v + ucast r + ucast k"
  shows "uint (ucast t :: u64) + 2 ^ 64 * uint (ucast (drop_bit 64 t) :: u64) = uint u * uint v + uint r + uint k"
proof -
  have "uint u * uint v \<le> (2 ^ 64 - 1) * (2 ^ 64 - 1)"
    using uint_lt64 [of u] uint_lt64 [of v] by (intro mult_mono) auto
  then have "uint u * uint v + uint r + uint k < 2 ^ 128"
    using uint_lt64 [of r] uint_lt64 [of k] by simp
  then have "uint t = uint u * uint v + uint r + uint k"
    by (simp add: t_def uint_word_ariths mod_add_left_eq)
  then show ?thesis unfolding uint_narrow(1) [of t] uint_narrow(2) [of t] by simp
qed

lemma limb_mod:
  fixes B :: int
  assumes "0 \<le> l" "l < B" "0 \<le> R"
  shows "l + B * (y mod R) = (l + B * y) mod (B * R)"
proof -
  have "(l + B * y) mod B = l" "(l + B * y) div B = y" using assms by auto
  then show ?thesis using assms by (simp only: zmod_zmult2_eq)
qed

lemma partial_mul_row_value:
  assumes "set (drop (length us) r) \<subseteq> {0}"
  shows "lval (partial_mul_row us vj r k) = (lval r + lval us * uint vj + uint k) mod radix (length r)"
  using assms
proof (induction us vj r k rule: partial_mul_row.induct)
  case (1 u us vj r rs k)
  define t where "t = (ucast u :: u128) * ucast vj + ucast r + ucast k"
  define l h where "l = uint (ucast t :: u64)" and "h = uint (ucast (drop_bit 64 t) :: u64)"
  have e: "l + 2 ^ 64 * h = uint u * uint vj + uint r + uint k"
    using mul_step_value [of u vj r k] by (simp add: t_def l_def h_def)
  have l: "0 \<le> l" "l < 2 ^ 64" using uint_lt64 by (simp_all add: l_def)
  let ?y = "lval rs + lval us * uint vj + h" and ?R = "radix (length rs)"
  have "lval (partial_mul_row (u # us) vj (r # rs) k) = l + 2 ^ 64 * (?y mod ?R)"
    using "1.IH" [OF t_def] "1.prems" by (simp add: Let_def t_def l_def h_def)
  also have "\<dots> = (l + 2 ^ 64 * ?y) mod (2 ^ 64 * ?R)" by (rule limb_mod [OF l]) simp
  also have "l + 2 ^ 64 * ?y = lval (r # rs) + lval (u # us) * uint vj + uint k"
    using e by (simp add: algebra_simps)
  finally show ?case by (simp add: power_add)
next
  case (2 vj r rs k)
  then have "r = 0" "rs = replicate (length rs) 0" by (auto intro: replicate_eqI)
  then have "lval rs = 0" by (metis lval_zeros)
  with \<open>r = 0\<close> have "lval (r # rs) = 0" by simp
  with \<open>lval rs = 0\<close> show ?case using lval_less [of "k # rs"] by simp
qed simp_all

lemma partial_mul_rows_value:
  assumes "set (drop (length us) r) \<subseteq> {0}"
  shows "length (partial_mul_rows us vs r) = length r
     \<and> lval (partial_mul_rows us vs r) = (lval r + lval us * lval vs) mod radix (length r)"
  using assms
proof (induction us vs r rule: partial_mul_rows.induct)
  case (1 us vj vs r)
  show ?case
  proof (cases "partial_mul_row us vj r 0")
    case Nil
    then have "r = []" using partial_mul_row_length [of us vj r 0] by simp
    then show ?thesis using Nil by simp
  next
    case (Cons x xs)
    have len: "length r = Suc (length xs)" using partial_mul_row_length [of us vj r 0] Cons by simp
    have "drop (length us) xs = drop (Suc (length us)) r" using partial_mul_row_rest [of us vj r 0] Cons by simp
    then have "set (drop (length us) xs) \<subseteq> {0}" using "1.prems" set_drop_subset_set_drop [of "length us" "Suc (length us)" r] by auto
    then have IH: "length (partial_mul_rows us vs xs) = length xs"
      "lval (partial_mul_rows us vs xs) = (lval xs + lval us * lval vs) mod radix (length xs)"
      using "1.IH" [OF Cons] by auto
    have row: "uint x + 2 ^ 64 * lval xs = (lval r + lval us * uint vj) mod (2 ^ 64 * radix (length xs))"
      using partial_mul_row_value [OF "1.prems", of vj 0] Cons len by (simp add: power_add)
    have "lval (partial_mul_rows us (vj # vs) r) = uint x + 2 ^ 64 * ((lval xs + lval us * lval vs) mod radix (length xs))"
      using Cons IH by simp
    also have "\<dots> = (uint x + 2 ^ 64 * (lval xs + lval us * lval vs)) mod (2 ^ 64 * radix (length xs))"
      by (rule limb_mod [OF uint_ge_0 uint_lt64]) simp
    also have "\<dots> = (lval r + lval us * uint vj + 2 ^ 64 * (lval us * lval vs)) mod (2 ^ 64 * radix (length xs))"
      using row by (metis (no_types, lifting) distrib_left add.assoc mod_add_left_eq)
    finally show ?thesis using Cons IH len by (simp add: power_add algebra_simps)
  qed
next
  case (2 us r)
  then show ?case using lval_less [of r] by simp
qed

lemma barrett_partial_mul_value:
  "length (barrett_partial_mul n u v) = n" "lval (barrett_partial_mul n u v) = (lval u * lval v) mod radix n"
  using partial_mul_rows_value [of u "replicate n 0" v] by (auto simp: barrett_partial_mul_def set_replicate_conv_if)

text \<open>With room for every word the routine is the full multiplication, which provides the contract.\<close>

interpretation full_mul: word_mul "\<lambda>a b. barrett_partial_mul (length a + length b) a b"
proof
  fix a b
  have "lval a * lval b < radix (length a) * radix (length b)"
    using lval_less [of a] lval_less [of b] by (intro mult_strict_mono) auto
  then show "lval (barrett_partial_mul (length a + length b) a b) = lval a * lval b"
    by (simp add: barrett_partial_mul_value power_add distrib_left)
qed (simp add: barrett_partial_mul_value)

lemma select_words:
  assumes "length y = length z"
  shows "map2 (masked_select (- 1)) y z = y" "map2 (masked_select 0) y z = z"
  using assms by (induction y z rule: list_induct2) (simp_all add: masked_select_def)

lemma subtract_if:
  assumes "length r = length m" "ct_bn_sub_words r m 0 = (d, c)"
  shows "c = (if lval r < lval m then 1 else 0)" "length d = length r" "lval d = (lval r - lval m) mod radix (length r)"
proof -
  have v: "length d = length r" "lval d - radix (length r) * uint c = lval r - lval m" "uint c \<le> 1"
    using ct_bn_sub_words_value [OF assms(1) _ assms(2)] by auto
  have "uint c = 0 \<or> uint c = 1" using v(3) uint_ge_0 [of c] by linarith
  then have "c = 0 \<or> c = 1" by (auto simp: word_uint_eq_iff)
  then show "c = (if lval r < lval m then 1 else 0)" using borrow_iff(1) [OF v(2,3,1)] by auto
  have "lval d = (lval d - radix (length r) * uint c) mod radix (length r)"
    using lval_less [of d] v(1) by (simp add: mod_diff_right_eq [of "lval d", symmetric])
  then show "lval d = (lval r - lval m) mod radix (length r)" by (simp add: v(2))
  show "length d = length r" by (rule v)
qed

lemma barrett_select:
  assumes len: "length r1 = k + 1" "length mm = k"
    and s1: "ct_bn_sub_words (take k r1) mm 0 = (d1, c1)" and b1: "b1 = and c1 (if r1 ! k = 0 then 1 else 0)"
    and r: "r = map2 (masked_select (constant_time_mask_64 b1)) (take k r1) d1"
    and s2: "ct_bn_sub_words r mm 0 = (d2, c2)"
  shows "length (map2 (masked_select (0 - c2)) r d2) = k"
    "lval (map2 (masked_select (0 - c2)) r d2) = barrett_correct (radix k) (lval mm) (lval r1)"
proof -
  have split: "r1 = take k r1 @ [r1 ! k]" using len(1) by (simp add: take_Suc_conv_app_nth [symmetric])
  have low: "lval (take k r1) = lval r1 mod radix k" by (simp add: lval_mod)
  have "lval r1 div radix k = lval (drop k r1)" by (rule lval_div)
  also have "drop k r1 = [r1 ! k]" using len(1) by (simp flip: Cons_nth_drop_Suc)
  finally have high: "lval r1 div radix k = uint (r1 ! k)" by simp
  have v1: "c1 = (if lval (take k r1) < lval mm then 1 else 0)" "length d1 = k"
    "lval d1 = (lval (take k r1) - lval mm) mod radix k"
    using subtract_if [OF _ s1] len by simp_all
  have b: "constant_time_mask_64 b1 = (if lval (take k r1) < lval mm \<and> r1 ! k = 0 then - 1 else 0)"
    by (simp add: b1 v1 constant_time_mask_64_def)
  have rv: "length r = k" "lval r = (if lval r1 mod radix k < lval mm \<and> lval r1 div radix k = 0
      then lval r1 mod radix k else (lval r1 mod radix k - lval mm) mod radix k)"
    using len v1(2,3) select_words [of "take k r1" d1] unfolding r b
    by (auto simp: low high uint_0_iff)
  have v2: "c2 = (if lval r < lval mm then 1 else 0)" "length d2 = k" "lval d2 = (lval r - lval mm) mod radix k"
    using subtract_if [OF _ s2] rv(1) len by simp_all
  show "length (map2 (masked_select (0 - c2)) r d2) = k" using rv v2 by simp
  show "lval (map2 (masked_select (0 - c2)) r d2) = barrett_correct (radix k) (lval mm) (lval r1)"
    using select_words [of r d2] rv v2 by (simp add: barrett_correct_def Let_def)
qed

context word_mul
begin

lemma barrett_words_refines:
  assumes k: "length mm = k" "0 < k" "k \<le> length x" and mu: "length mu = k + 1"
  shows "length (barrett_words bn_mul_normal mm mu x) = k"
    "lval (barrett_words bn_mul_normal mm mu x) = barrett_tail k (lval mm) (lval mu) (lval x)"
proof -
  define q1 q3 where "q1 = drop (k - 1) x" and "q3 = drop (k + 1) (bn_mul_normal q1 mu)"
  define r2 where "r2 = barrett_partial_mul (k + 1) q3 mm"
  define r0 where "r0 = take (k + 1) (x @ replicate (k + 1) 0)"
  define r1 where "r1 = fst (ct_bn_sub_words r0 r2 0)"
  obtain d1 c1 where s1: "ct_bn_sub_words (take k r1) mm 0 = (d1, c1)" by fastforce
  define b1 where "b1 = and c1 (if r1 ! k = 0 then 1 else 0)"
  define r where "r = map2 (masked_select (constant_time_mask_64 b1)) (take k r1) d1"
  obtain d2 c2 where s2: "ct_bn_sub_words r mm 0 = (d2, c2)" by fastforce
  have words: "barrett_words bn_mul_normal mm mu x = map2 (masked_select (0 - c2)) r d2"
    unfolding barrett_words_def Let_def k(1) q1_def [symmetric] q3_def [symmetric] r2_def [symmetric]
      r0_def [symmetric] r1_def [symmetric] s1 prod.case b1_def [symmetric] r_def [symmetric] s2 ..
  have r2v: "length r2 = k + 1" "lval r2 = (lval q3 * lval mm) mod radix (k + 1)"
    by (simp_all only: r2_def barrett_partial_mul_value)
  have q3v: "lval q3 = (lval x div radix (k - 1) * lval mu) div radix (k + 1)"
    by (simp only: q3_def q1_def mul_value flip: lval_div)
  have "lval (x @ replicate (k + 1) 0) = lval x" by (simp only: lval_append lval_zeros mult_zero_right add_0_right)
  then have r0v: "length r0 = k + 1" "lval r0 = lval x mod radix (k + 1)"
    using lval_mod [of "x @ replicate (k + 1) 0" "k + 1"] by (simp_all add: r0_def)
  obtain c where c: "ct_bn_sub_words r0 r2 0 = (r1, c)" by (simp add: r1_def prod_eq_iff)
  have r1v: "length r1 = k + 1" "lval r1 = barrett_difference k (lval mm) (lval mu) (lval x)"
    using subtract_if [OF _ c] r0v r2v q3v by (simp_all add: barrett_difference_def Let_def)
  from barrett_select [OF r1v(1) k(1) s1 b1_def r_def s2]
  show "length (barrett_words bn_mul_normal mm mu x) = k"
    "lval (barrett_words bn_mul_normal mm mu x) = barrett_tail k (lval mm) (lval mu) (lval x)"
    by (simp_all only: words r1v(2) barrett_tail_def)
qed

end

end
