(* ===== verification/Sharing_Exponent.thy ===== *)
theory Sharing_Exponent
  imports Sharing_Correct
begin

text \<open>
  The public side of the sharing: reconstruction in the exponent refines reconstruction of scalars,
  and the verification of a share against the public data of its ancestors accepts every honestly
  generated share.
\<close>

section \<open>Reconstruction in the exponent\<close>

definition pub_shares_of ::
  "(pname_t \<Rightarrow> int) \<Rightarrow> 'p::ab_group_add \<Rightarrow> pname_t set \<Rightarrow> node_t \<Rightarrow> (pname_t \<rightharpoonup> 'p) \<Rightarrow> bool" where
  "pub_shares_of v G A t shares \<longleftrightarrow>
     (\<forall>l\<in>list_leaf_names t. shares l = (if l \<in> A then Some (smul (v l) G) else None))"

lemma pub_shares_of_child:
  "pub_shares_of v G A (Node ty nm th ch) shares \<Longrightarrow> ty \<noteq> LEAF \<Longrightarrow> c \<in> set ch \<Longrightarrow> pub_shares_of v G A c shares"
  by (auto simp: pub_shares_of_def)

lemma and_points_Inr: "and_points (map Inr Ps) = Inr (sum_list Ps)"
proof -
  have "fold_res (\<lambda>r P. bind_res r (\<lambda>Pi. Inr (P + Pi))) (map Inr Ps) Q = Inr (Q + sum_list Ps)" for Ps :: "'a list" and Q
    by (induction Ps arbitrary: Q) (simp_all add: add.assoc)
  then show ?thesis by (cases Ps) (simp_all add: and_points_def)
qed

lemma and_points_insufficient:
  assumes "\<And>r. r \<in> set rs \<Longrightarrow> (\<exists>P. r = Inr P) \<or> r = error E_INSUFFICIENT" "error E_INSUFFICIENT \<in> set rs"
  shows "and_points rs = error E_INSUFFICIENT"
proof -
  have fold: "fold_res (\<lambda>r P. bind_res r (\<lambda>Pi. Inr (P + Pi))) rs Q = error E_INSUFFICIENT"
    if "\<And>r. r \<in> set rs \<Longrightarrow> (\<exists>P. r = Inr P) \<or> r = error E_INSUFFICIENT" "error E_INSUFFICIENT \<in> set rs"
    for rs :: "'a res list" and Q
    using that
  proof (induction rs arbitrary: Q)
    case (Cons r rs)
    from Cons.prems(1) [of r] consider "r = error E_INSUFFICIENT" | P where "r = Inr P" by auto
    then show ?case by cases (use Cons in auto)
  qed simp
  show ?thesis
  proof (cases rs)
    case (Cons r rs')
    then consider "r = error E_INSUFFICIENT" | P where "r = Inr P" "error E_INSUFFICIENT \<in> set rs'"
      using assms by (cases r) auto
    then show ?thesis
      by cases (use Cons assms(1) in \<open>simp_all add: and_points_def fold\<close>)
  qed (use assms in simp)
qed

lemma smul_sum_list: "smul q G = 0 \<Longrightarrow> (\<Sum>c\<leftarrow>cs. smul (f c) G) = smul ((\<Sum>c\<leftarrow>cs. f c) mod q) G"
  by (induction cs) (simp_all add: smul_mod smul_add)

context mod_inverse
begin

lemma exponent_interpolate_polynomial:
  assumes q: "field_modulus q" and G: "smul q G = 0" and pids: "good_pids q pids" "pids \<noteq> []"
    and b: "length b \<le> length pids"
  shows "lagrange_interpolate_exponent bn_inv q x (map (\<lambda>p. smul (poly_eval b p mod q) G) pids) pids
     = Inr (smul (poly_eval b x mod q) G)"
proof -
  let ?s = "map (\<lambda>p. poly_eval b p mod q) pids"
  have "lagrange_partial_interpolate True bn_inv q x ?s pids pids = Inr (poly_eval b x mod q)"
    using interpolate_polynomial [OF q pids(1) b refl, of True x] by (simp add: lagrange_interpolate_def)
  from partial_exponent_refines [OF G _ this] pids(2) show ?thesis
    by (simp add: lagrange_interpolate_exponent_def o_def)
qed

lemma reconstruct_exponent_threshold:
  assumes q: "field_modulus q" and G: "smul q G = 0" and th: "1 \<le> th" "th \<le> int (length ch)"
    and pids: "list_all (\<lambda>c. 0 < pid (nname c) \<and> pid (nname c) < q) ch" "distinct (map (\<lambda>c. pid (nname c)) ch)"
    and b: "length b \<le> nat th" "\<And>c. c \<in> set ch \<Longrightarrow> v (nname c) = poly_eval b (pid (nname c)) mod q"
    and res: "\<And>c. c \<in> set ch \<Longrightarrow> f c = (if P c then Inr (smul (v (nname c)) G) else error E_INSUFFICIENT)"
  shows "threshold_result th (lagrange_interpolate_exponent bn_inv q 0) (zip (map f ch) (map (\<lambda>c. pid (nname c)) ch))
     = (if th \<le> int (length (filter P ch)) then Inr (smul (poly_eval b 0 mod q) G) else error E_INSUFFICIENT)"
proof -
  let ?sel = "take (nat th) (filter P ch)" and ?p = "\<lambda>c. pid (nname c)"
  have sub: "set ?sel \<subseteq> set ch" by (meson filter_is_subset set_take_subset subset_trans)
  have "good_pids q (map ?p ?sel)"
  proof (rule good_pids_of_range)
    show "distinct (map ?p ?sel)" using pids(2) by (simp add: distinct_map_filter flip: take_map)
    show "0 < p \<and> p < q" if "p \<in> set (map ?p ?sel)" for p
      using that pids(1) sub by (auto simp: list_all_iff)
  qed
  moreover have "map (\<lambda>c. smul (v (nname c)) G) ?sel = map (\<lambda>p. smul (poly_eval b p mod q) G) (map ?p ?sel)"
    using b(2) sub by auto
  moreover have "map ?p ?sel \<noteq> []" "length b \<le> length (map ?p ?sel)" if "th \<le> int (length (filter P ch))"
    using b(1) th that by auto
  ultimately have "lagrange_interpolate_exponent bn_inv q 0 (map (\<lambda>c. smul (v (nname c)) G) ?sel) (map ?p ?sel)
      = Inr (smul (poly_eval b 0 mod q) G)" if "th \<le> int (length (filter P ch))"
    using exponent_interpolate_polynomial [OF q G, of "map ?p ?sel" b 0] that by (metis (no_types, lifting))
  then show ?thesis by (subst threshold_result_eq [OF th res]) simp_all
qed

theorem reconstruct_exponent_consistent:
  assumes q: "field_modulus q" and G: "smul q G = 0"
  shows "wf_node t \<Longrightarrow> pids_ok q pid t \<Longrightarrow> consistent q pid v t \<Longrightarrow> pub_shares_of v G A t shares \<Longrightarrow>
     reconstruct_exponent_recursive bn_inv pid q shares t =
       (if satisfied A t then Inr (smul (v (nname t)) G) else error E_INSUFFICIENT)"
proof (induction t)
  case (Node ty nm th ch)
  show ?case
  proof (cases "ty = LEAF")
    case True
    with Node.prems(4) show ?thesis by (simp add: pub_shares_of_def)
  next
    case False
    let ?r = "reconstruct_exponent_recursive bn_inv pid q shares"
    have res: "?r c = (if satisfied A c then Inr (smul (v (nname c)) G) else error E_INSUFFICIENT)" if "c \<in> set ch" for c
      using that Node.prems False
      by (intro Node.IH) (auto simp: list_all_iff intro: pub_shares_of_child)
    consider (AND) "ty = AND" | (OR) "ty = OR" | (THR) "ty = THRESHOLD"
      using Node.prems(1) False by (cases ty) auto
    then show ?thesis
    proof cases
      case OR
      have "or_result (map ?r ch) =
          (if Inr (smul (v nm) G) \<in> set (map ?r ch) then Inr (smul (v nm) G) else error E_INSUFFICIENT)"
        using OR Node.prems(3) res by (intro or_result_first) (auto simp: list_all_iff split: if_splits)
      moreover have "Inr (smul (v nm) G) \<in> set (map ?r ch) \<longleftrightarrow> list_ex (satisfied A) ch"
        using OR Node.prems(3) res by (force simp: list_all_iff list_ex_iff)
      ultimately show ?thesis using OR by simp
    next
      case AND
      show ?thesis
      proof (cases "list_all (satisfied A) ch")
        case True
        then have "map ?r ch = map Inr (map (\<lambda>c. smul (v (nname c)) G) ch)" using res by (simp add: list_all_iff)
        then have "and_points (map ?r ch) = Inr (smul (v nm) G)"
          using AND Node.prems(3) by (simp only: and_points_Inr) (simp add: smul_sum_list [OF G])
        with AND True show ?thesis by simp
      next
        case False
        then have "error E_INSUFFICIENT \<in> set (map ?r ch)" using res by (force simp: list_all_iff)
        then have "and_points (map ?r ch) = error E_INSUFFICIENT"
          using res by (intro and_points_insufficient) auto
        then show ?thesis using AND False by simp
      qed
    next
      case THR
      from Node.prems(3) THR obtain b where b: "length b \<le> nat th" "v nm = poly_eval b 0 mod q"
        "\<And>c. c \<in> set ch \<Longrightarrow> v (nname c) = poly_eval b (pid (nname c)) mod q"
        by (auto simp: list_all_iff)
      have "1 \<le> th" "th \<le> int (length ch)" using Node.prems(1) THR by auto
      then have "threshold_result th (lagrange_interpolate_exponent bn_inv q 0)
          (zip (map ?r ch) (map (\<lambda>c. pid (nname c)) ch))
        = (if th \<le> int (length (filter (satisfied A) ch)) then Inr (smul (poly_eval b 0 mod q) G)
           else error E_INSUFFICIENT)"
        using Node.prems(2) THR b res by (intro reconstruct_exponent_threshold [where v = v] q G) auto
      then show ?thesis using THR b(2) by simp
    qed
  qed
qed

section \<open>Verification of honest shares\<close>

lemma verify_node_honest:
  assumes q: "field_modulus q" and G: "smul q G = 0" and wf: "wf_node t" and pids: "pids_ok q pid t"
    and con: "consistent q pid v t"
    and pub: "\<And>n. n \<in> insert (nname t) (nname ` set (nchildren t)) \<Longrightarrow> pub_data n = Some (smul (v n) G)"
    and expected: "n \<in> insert (nname t) (nname ` set (nchildren t))"
  shows "verify_node bn_inv pid q pub_data t (smul (v n) G) = Inr (smul (v (nname t)) G)"
proof (cases t)
  case (Node ty nm th ch)
  let ?sc = "get_sorted_children t"
  have sc: "set ?sc = set ch" "length ?sc = length ch"
    by (simp_all add: sorted_children_set sorted_children_length Node)
  have me: "pub_lookup pub_data t = Inr (smul (v nm) G)" using pub [of nm] Node by (simp add: pub_lookup_def)
  have kid: "pub_lookup pub_data c = Inr (smul (v (nname c)) G)" if "c \<in> set ?sc" for c
    using pub [of "nname c"] that sc Node by (simp add: pub_lookup_def)
  show ?thesis
  proof (cases ty)
    case LEAF
    then have "n = nm" using wf expected Node by simp
    with LEAF me Node show ?thesis by (simp add: verify_node_def)
  next
    case OR
    then have "v n = v nm" using con expected Node by (auto simp: list_all_iff)
    with OR me Node show ?thesis by (simp add: verify_node_def)
  next
    case AND
    have "fold_res (\<lambda>c acc. bind_res (pub_lookup pub_data c) (\<lambda>P. Inr (acc + P))) cs acc
        = Inr (acc + (\<Sum>c\<leftarrow>cs. smul (v (nname c)) G))" if "set cs \<subseteq> set ?sc" for cs acc
      using that by (induction cs arbitrary: acc) (simp_all add: kid add.assoc)
    from this [of ?sc 0] have "fold_res (\<lambda>c acc. bind_res (pub_lookup pub_data c) (\<lambda>P. Inr (acc + P))) ?sc 0
        = Inr (smul (v nm) G)"
      using con AND Node sorted_children_sum [of "\<lambda>c. v (nname c)" t] by (simp add: smul_sum_list [OF G])
    with AND me Node show ?thesis by (simp add: verify_node_def)
  next
    case THRESHOLD
    then obtain b where b: "length b \<le> nat th" "v nm = poly_eval b 0 mod q"
      "\<And>c. c \<in> set ch \<Longrightarrow> v (nname c) = poly_eval b (pid (nname c)) mod q"
      using con Node by (auto simp: list_all_iff)
    have th: "1 \<le> th" "th \<le> int (length ch)" using wf THRESHOLD Node by auto
    let ?q = "take (nat th) ?sc" and ?p = "\<lambda>c. pid (nname c)"
    have sub: "set ?q \<subseteq> set ch" using sc by (metis set_take_subset)
    have dist: "distinct (map ?p ?sc)"
    proof -
      have "mset (map ?p ?sc) = mset (map ?p ch)" by (simp add: get_sorted_children_def Node)
      then show ?thesis using pids THRESHOLD Node by (metis mset_eq_imp_distinct_iff pids_ok.simps)
    qed
    have good: "good_pids q (map ?p ?q)"
    proof (rule good_pids_of_range)
      show "distinct (map ?p ?q)" using dist by (simp flip: take_map)
      show "0 < p \<and> p < q" if "p \<in> set (map ?p ?q)" for p
        using that pids THRESHOLD Node sub by (auto simp: list_all_iff)
    qed
    have quorum: "map_res (pub_lookup pub_data) ?q = Inr (map (\<lambda>p. smul (poly_eval b p mod q) G) (map ?p ?q))"
      using kid b(3) sub sc by (subst map_res_Inr [where g = "\<lambda>c. smul (v (nname c)) G"]) (auto dest: in_set_takeD)
    have interp: "lagrange_interpolate_exponent bn_inv q x (map (\<lambda>p. smul (poly_eval b p mod q) G) (map ?p ?q)) (map ?p ?q)
        = Inr (smul (poly_eval b x mod q) G)" for x
    proof (rule exponent_interpolate_polynomial [OF q G good])
      have "0 < length ?q" using th sc(2) by auto
      then show "map ?p ?q \<noteq> []" by (metis length_greater_0_conv map_is_Nil_conv)
      show "length b \<le> length (map ?p ?q)" using b(1) th sc(2) by auto
    qed
    have "fold_res (\<lambda>c _. bind_res (pub_lookup pub_data c) (\<lambda>child_pub.
        bind_res (lagrange_interpolate_exponent bn_inv q (?p c) (map (\<lambda>p. smul (poly_eval b p mod q) G) (map ?p ?q)) (map ?p ?q))
          (\<lambda>P. if child_pub \<noteq> P then error E_CRYPTO else success))) cs u = success" if "set cs \<subseteq> set ch" for cs u
      using that by (induction cs arbitrary: u) (simp_all add: kid sc interp b(3) del: map_map)
    moreover have "set (drop (nat th) ?sc) \<subseteq> set ch" using sc by (metis set_drop_subset)
    ultimately show ?thesis
      using THRESHOLD me Node quorum interp [of 0] b(2) th sc(2)
      by (simp add: verify_node_def Let_def del: map_map)
  qed (use wf Node in auto)
qed

text \<open>Along the path from the leaf to the root every node passes and hands up its public share.\<close>

lemma verify_path_honest:
  assumes q: "field_modulus q" and G: "smul q G = 0"
  shows "find_path t name = Some path \<Longrightarrow> wf_node t \<Longrightarrow> pids_ok q pid t \<Longrightarrow> consistent q pid v t \<Longrightarrow>
      (\<forall>n\<in>set (node_names t). pub_data n = Some (smul (v n) G)) \<Longrightarrow>
      fold_res (verify_node bn_inv pid q pub_data) path (smul (v name) G) = Inr (smul (v (nname t)) G)"
    and "find_path_list ts name = Some path \<Longrightarrow> list_all wf_node ts \<Longrightarrow> list_all (pids_ok q pid) ts \<Longrightarrow>
      list_all (consistent q pid v) ts \<Longrightarrow> (\<forall>t\<in>set ts. \<forall>n\<in>set (node_names t). pub_data n = Some (smul (v n) G)) \<Longrightarrow>
      \<exists>t\<in>set ts. fold_res (verify_node bn_inv pid q pub_data) path (smul (v name) G) = Inr (smul (v (nname t)) G)"
proof (induction t name and ts name arbitrary: path and path rule: find_path_find_path_list.induct)
  case (1 ty nm th ch name)
  let ?t = "Node ty nm th ch"
  have pub: "pub_data n = Some (smul (v n) G)" if "n \<in> insert (nname ?t) (nname ` set (nchildren ?t))" for n
    using that 1 nname_in_node_names by auto
  show ?case
  proof (cases "nm = name")
    case True
    with 1(2) have "path = [?t]" by simp
    with verify_node_honest [OF q G 1(3,4,5) pub, of nm] True show ?thesis by simp
  next
    case False
    with 1(2) obtain p where p: "find_path_list ch name = Some p" "path = p @ [?t]"
      by (auto split: option.splits)
    obtain c where "c \<in> set ch"
      "fold_res (verify_node bn_inv pid q pub_data) p (smul (v name) G) = Inr (smul (v (nname c)) G)"
      using 1(1) [OF False p(1)] 1(3-6) by (auto simp: list_all_iff)
    then show ?thesis
      using verify_node_honest [OF q G 1(3,4,5) pub, of "nname c"] p(2) by (simp add: fold_res_append)
  qed
next
  case (2 name)
  then show ?case by simp
next
  case (3 c cs name)
  then show ?case by (auto split: option.splits)
qed

end

fun subnodes :: "node_t \<Rightarrow> node_t list" where
  "subnodes (Node ty nm th ch) = Node ty nm th ch # concat (map subnodes ch)"

lemma subnodes_names: "map nname (subnodes t) = node_names t"
  by (induction t) (auto simp: map_concat cong: map_cong)

lemma find_path_Some:
  "find_path t name = Some path \<Longrightarrow> path \<noteq> [] \<and> nname (hd path) = name \<and> hd path \<in> set (subnodes t)"
  "find_path_list ts name = Some path \<Longrightarrow>
     path \<noteq> [] \<and> nname (hd path) = name \<and> hd path \<in> set (concat (map subnodes ts))"
  by (induction t name and ts name arbitrary: path and path rule: find_path_find_path_list.induct)
     (fastforce split: option.splits if_splits)+

lemma find_path_None:
  "find_path t name = None \<longleftrightarrow> name \<notin> set (node_names t)"
  "find_path_list ts name = None \<longleftrightarrow> name \<notin> set (concat (map node_names ts))"
  by (induction t name and ts name rule: find_path_find_path_list.induct)
     (auto split: option.splits)

lemma leaf_subnode: "l \<in> list_leaf_names t \<Longrightarrow> \<exists>n\<in>set (subnodes t). ntype n = LEAF \<and> nname n = l"
  by (induction t) (fastforce split: if_splits)

lemma find_path_leaf:
  assumes "distinct (node_names t)" "l \<in> list_leaf_names t"
  shows "\<exists>path. find_path t l = Some path \<and> ntype (hd path) = LEAF"
proof -
  obtain n where n: "n \<in> set (subnodes t)" "ntype n = LEAF" "nname n = l"
    using leaf_subnode [OF assms(2)] by blast
  obtain path where p: "find_path t l = Some path"
    using find_path_None(1) [of t l] leaf_names_subset assms(2) by blast
  have "inj_on nname (set (subnodes t))"
    using assms(1) by (simp add: distinct_map flip: subnodes_names)
  then have "hd path = n" using find_path_Some(1) [OF p] n by (auto dest: inj_onD)
  with n p show ?thesis by blast
qed

context mod_inverse
begin

lemma verify_share_honest:
  assumes q: "field_modulus (order c)" and G: "smul (order c) (generator c) = 0"
    and ac: "root ac = Some t" "curve ac = Some c"
    and t: "validate_tree False t {} = Inr names" "pids_ok (order c) pid t" "good_gen gen" "is_in_range (order c) x"
    and run: "share_with_internals gen pid ac (order c) x r = Inr st"
    and leaf: "ac_shares st leaf = Some si"
  shows "verify_share_against_ancestors_pub_data bn_inv pid ac True (smul x (generator c)) si
      (ac_internal_pub_shares st) leaf = success"
proof -
  have q0: "barrett_ok (order c)" using field_modulus_barrett [OF q] .
  obtain st' v where v: "share_recursive gen pid (order c) (generator c) True t x (init_share_state r) = Inr st'"
    "v (nname t) = x" "consistent (order c) pid v t"
    "ac_shares st' = (\<lambda>n. if n \<in> list_leaf_names t then Some (v n) else None)"
    "ac_internal_pub_shares st' = (\<lambda>n. if True \<and> n \<in> set (node_names t) then Some (smul (v n) (generator c)) else None)"
    using share_root [where G = "generator c" and out = True, OF t(3) q0 t(1,2,4)] by blast
  have st: "st' = st" using run v(1) ac by (simp add: share_with_internals_def)
  have l: "leaf \<in> list_leaf_names t" "si = v leaf"
    using leaf v(4) by (auto simp: st split: if_splits)
  obtain path where p: "find_path t leaf = Some path" "ntype (hd path) = LEAF"
    using find_path_leaf [OF validated_root(2) [OF t(1)] l(1)] by blast
  have "fold_res (verify_node bn_inv pid (order c) (ac_internal_pub_shares st)) path (smul (v leaf) (generator c))
      = Inr (smul (v (nname t)) (generator c))"
    using v(5) by (intro verify_path_honest(1) [OF q G p(1) validated_root(1) [OF t(1)] t(2) v(3)]) (simp add: st)
  with p ac l v(2) show ?thesis by (simp add: verify_share_against_ancestors_pub_data_def)
qed

end

end
