(* ===== verification/Examples.thy ===== *)
theory Examples
  imports Limbs Sharing_Exponent Tree_Convert "HOL-Library.Numeral_Type"
begin

text \<open>
  Concrete data on which the properties of the development are applied: the field of order 11, an
  access structure with every kind of gate, participant ids, a generator and a curve whose points are
  the residues modulo 11.
\<close>

lemma valid_11: "is_valid_modulus 11"
proof -
  have "num_bits 11 \<le> 4" by (simp add: num_bits_le_iff)
  then show ?thesis by (simp add: is_valid_modulus_def MAX_MODULUS_BITS_def)
qed

lemma field_11: "field_modulus 11"
proof -
  have "barrett_ok 11" by (rule barrett_ok_one_word [OF valid_11]) simp
  moreover have "list_all (\<lambda>d. coprime d 11) [1..11 - 1 :: int]" by code_simp
  ultimately show ?thesis by (simp add: field_modulus_def)
qed

definition ex_tree :: node_t where
  "ex_tree = Node THRESHOLD [] 2
     [Node LEAF ''a'' 0 [],
      Node AND ''c'' 0 [Node LEAF ''d'' 0 [], Node LEAF ''e'' 0 []],
      Node OR ''b'' 0 [Node LEAF ''f'' 0 [], Node LEAF ''g'' 0 []]]"

definition ex_pid :: "pname_t \<Rightarrow> int" where
  "ex_pid n = (if n = ''a'' then 3 else if n = ''b'' then 7 else 9)"

definition ex_gen :: "nat generator" where
  "ex_gen q r = ((int r * 5 + 4) mod q, Suc r)"

definition ex_curve :: "11 ecurve" where
  "ex_curve = \<lparr>order = 11, generator = 1\<rparr>"

definition ex_ac :: "11 ac_t" where
  "ex_ac = \<lparr>root = Some ex_tree, curve = Some ex_curve\<rparr>"

lemma ex_valid: "\<exists>names. validate_tree False ex_tree {} = Inr names"
  by (simp add: ex_tree_def)

lemma ex_pids: "pids_ok 11 ex_pid ex_tree"
  by (simp add: ex_tree_def ex_pid_def)

lemma ex_good: "good_gen ex_gen"
  by (simp add: good_gen_def ex_gen_def)

lemma ex_order: "smul 11 (generator ex_curve) = 0"
  by (simp add: ex_curve_def smul_def eval_nat_numeral)

lemma ex_quorum:
  "enough_for_quorum {''a'', ''g''} ex_tree = Inr True"
  "enough_for_quorum {''a'', ''d''} ex_tree = Inr False"
  by (simp_all add: ex_tree_def)


section \<open>Serialized values\<close>

text \<open>A message of an integer, a list of buffers and a map from names to buffers.\<close>

definition message_conv :: "(u32 \<times> bytes list \<times> (bytes \<times> bytes) list) conv" where
  "message_conv = convert_pair convert_u32 (convert_pair (convert_vector [] convert_buf MAX_CONTAINER_ELEMENTS)
     (convert_with_instance [] convert_string [] convert_buf))"

definition message_fits :: "u32 \<times> bytes list \<times> (bytes \<times> bytes) list \<Rightarrow> bool" where
  "message_fits = (\<lambda>(n, xs, m). valid_vector (\<lambda>b. length b \<le> MAX_CONVERT_LEN) MAX_CONTAINER_ELEMENTS xs
     \<and> valid_map (\<lambda>k. length k \<le> SHRT_MAX) (\<lambda>b. length b \<le> MAX_CONVERT_LEN) m)"

definition message_enc :: "u32 \<times> bytes list \<times> (bytes \<times> bytes) list \<Rightarrow> bytes" where
  "message_enc = (\<lambda>(n, xs, m). be_set_4 n @ enc_vector enc_buf xs
     @ enc_map (\<lambda>k. be_set_2 (word_of_nat (length k)) @ k) enc_buf m)"

interpretation c_message: codec message_conv message_enc message_fits
  using pair_codec [OF c_u32.codec_axioms pair_codec [OF n_buf.vector_codec [of "[]" MAX_CONTAINER_ELEMENTS] m_named.map_codec [of "[]" "[]"]]]
  by (simp add: message_conv_def message_enc_def message_fits_def case_prod_unfold)

definition ex_message :: "u32 \<times> bytes list \<times> (bytes \<times> bytes) list" where
  "ex_message = (7, [[1, 2, 3], []], [([65], [9]), ([66], [8, 8])])"

lemma ex_message_fits: "message_fits ex_message" 
  by (simp add: ex_message_def message_fits_def valid_vector_def valid_map_def SHRT_MAX_def MAX_CONVERT_LEN_def MAX_CONTAINER_ELEMENTS_def)

lemma ex_message_length: "length (message_enc ex_message) = 22"
  by (simp add: ex_message_def message_enc_def enc_vector_def enc_map_def enc_buf_def write_len_def)

definition ex_ac_code :: "11 ecurve \<Rightarrow> u16" where "ex_ac_code k = 415"

lemma ex_ac_fits: "ac_fits ex_ac_code [(415, ex_curve)] ex_ac"
  using ex_valid by (simp add: ac_fits_def ex_ac_code_def ex_ac_def ex_tree_def MAX_AC_TREE_LEVEL_def SHRT_MAX_def fits_signed_def MAX_CONVERT_LEN_def)

lemma ex_ac_length: "int (length (enc_ac ex_ac_code ex_ac)) \<le> INT_MAX"
  by (simp add: enc_ac_def ex_ac_def ex_tree_def write_len_def INT_MAX_def)

end
