(* ===== verification/C_Memory.thy ===== *)
theory C_Memory
  imports Convert
begin

text \<open>
  Memory across the C boundary: \<^verbatim>\<open>cmem_t\<close> and \<^verbatim>\<open>cmems_t\<close>, their allocation, viewing and release in \<^verbatim>\<open>src/cbmpc/c_api/util.h\<close> and
  \<^verbatim>\<open>src/cbmpc/c_api/common.cpp\<close>. The heap holds the live blocks, and a log of the contents every released block had; releasing a
  block that is not live, or touching memory outside a block, is the fault \<^verbatim>\<open>Out_Of_Bounds\<close>. The allocator is a parameter that may
  refuse, or answer with any address that is not in use.
\<close>

section \<open>The heap\<close>

datatype block = Bytes bytes | Ints "int list"

type_synonym ptr = "nat option"

record cheap =
  live :: "nat \<Rightarrow> block option"
  freed :: "block list"

record allocator =
  place :: "cheap \<Rightarrow> nat \<Rightarrow> nat option"
  garbage :: "nat \<Rightarrow> u8"
  int_garbage :: "nat \<Rightarrow> int"

definition good_alloc :: "allocator \<Rightarrow> bool" where
  "good_alloc al \<longleftrightarrow> (\<forall>h n a. place al h n = Some a \<longrightarrow> live h a = None)"

definition cbmpc_malloc :: "allocator \<Rightarrow> nat \<Rightarrow> block \<Rightarrow> cheap \<Rightarrow> ptr \<times> cheap" where
  "cbmpc_malloc al n b h =
     (if n = 0 then (None, h)
      else case place al h n of None \<Rightarrow> (None, h) | Some a \<Rightarrow> (Some a, h\<lparr>live := (live h)(a \<mapsto> b)\<rparr>))"

definition fresh_bytes :: "allocator \<Rightarrow> nat \<Rightarrow> block" where "fresh_bytes al n = Bytes (map (garbage al) [0..<n])"

definition fresh_ints :: "allocator \<Rightarrow> nat \<Rightarrow> block" where "fresh_ints al n = Ints (map (int_garbage al) [0..<n])"

definition cbmpc_free :: "ptr \<Rightarrow> cheap \<Rightarrow> cheap res" where
  "cbmpc_free p h = (case p of None \<Rightarrow> Inr h
     | Some a \<Rightarrow> (case live h a of None \<Rightarrow> Inl Out_Of_Bounds
                  | Some b \<Rightarrow> Inr (h\<lparr>live := (live h)(a := None), freed := freed h @ [b]\<rparr>)))"

definition write_bytes :: "ptr \<Rightarrow> nat \<Rightarrow> bytes \<Rightarrow> cheap \<Rightarrow> cheap res" where
  "write_bytes p off src h = (case Option.bind p (live h) of
       Some (Bytes bs) \<Rightarrow> if off + length src \<le> length bs
         then Inr (h\<lparr>live := (live h)(the p \<mapsto> Bytes (take off bs @ src @ drop (off + length src) bs))\<rparr>) else Inl Out_Of_Bounds
     | _ \<Rightarrow> Inl Out_Of_Bounds)"

definition write_int :: "ptr \<Rightarrow> nat \<Rightarrow> int \<Rightarrow> cheap \<Rightarrow> cheap res" where
  "write_int p i x h = (case Option.bind p (live h) of
       Some (Ints xs) \<Rightarrow> if i < length xs then Inr (h\<lparr>live := (live h)(the p \<mapsto> Ints (xs[i := x]))\<rparr>) else Inl Out_Of_Bounds
     | _ \<Rightarrow> Inl Out_Of_Bounds)"

definition read_int :: "ptr \<Rightarrow> nat \<Rightarrow> cheap \<Rightarrow> int res" where
  "read_int p i h = (case Option.bind p (live h) of
       Some (Ints xs) \<Rightarrow> if i < length xs then Inr (xs ! i) else Inl Out_Of_Bounds
     | _ \<Rightarrow> Inl Out_Of_Bounds)"

definition read_bytes :: "ptr \<Rightarrow> nat \<Rightarrow> nat \<Rightarrow> cheap \<Rightarrow> bytes res" where
  "read_bytes p off n h = (case Option.bind p (live h) of
       Some (Bytes bs) \<Rightarrow> if off + n \<le> length bs then Inr (take n (drop off bs)) else Inl Out_Of_Bounds
     | _ \<Rightarrow> Inl Out_Of_Bounds)"

section \<open>Segments\<close>

record cmem = cm_data :: ptr  cm_size :: int

record cmems = cs_count :: int  cs_data :: ptr  cs_sizes :: ptr

definition validate_cmem :: "cmem \<Rightarrow> unit res" where
  "validate_cmem m = (if cm_size m < 0 then error E_BADARG
     else if 0 < cm_size m \<and> cm_data m = None then error E_BADARG else success)"

definition null_cmem :: cmem where "null_cmem = \<lparr>cm_data = None, cm_size = 0\<rparr>"

definition null_cmems :: cmems where "null_cmems = \<lparr>cs_count = 0, cs_data = None, cs_sizes = None\<rparr>"

text \<open>
  A call returns its error code (\<^verbatim>\<open>None\<close> for success) beside its output, which is written on the failing paths too; the left
  injection is reserved for faults.
\<close>

type_synonym 'o outcome = "(error_t option \<times> 'o \<times> cheap) res"

definition alloc_cmem_from_buf :: "allocator \<Rightarrow> bytes \<Rightarrow> bool \<Rightarrow> cheap \<Rightarrow> cmem outcome" where
  "alloc_cmem_from_buf al buf out_given h =
     (let n = length buf
      in if \<not> out_given then Inr (Some E_BADARG, null_cmem, h)
         else if n = 0 then Inr (None, null_cmem, h)
         else case cbmpc_malloc al n (fresh_bytes al n) h of
           (None, h) \<Rightarrow> Inr (Some E_INSUFFICIENT, null_cmem, h)
         | (Some a, h) \<Rightarrow> bind_res (write_bytes (Some a) 0 buf h) (\<lambda>h. Inr (None, \<lparr>cm_data = Some a, cm_size = int n\<rparr>, h)))"

definition add_size :: "error_t \<Rightarrow> int \<Rightarrow> int \<Rightarrow> int res" where
  "add_size negative sz tot = (if sz < 0 then error negative
     else if INT_MAX - tot < sz then error E_RANGE else Inr (tot + sz))"

definition copy_segment :: "cmems \<Rightarrow> nat \<times> bytes \<Rightarrow> nat \<times> cheap \<Rightarrow> (nat \<times> cheap) res" where
  "copy_segment out = (\<lambda>(i, b) (offset, h).
     bind_res (write_int (cs_sizes out) i (int (length b)) h) (\<lambda>h.
       if length b \<noteq> 0 then bind_res (write_bytes (cs_data out) offset b h) (\<lambda>h. Inr (offset + length b, h))
       else Inr (offset, h)))"

definition alloc_cmems_from_bufs :: "allocator \<Rightarrow> bytes list \<Rightarrow> bool \<Rightarrow> cheap \<Rightarrow> cmems outcome" where
  "alloc_cmems_from_bufs al bufs out_given h =
     (if \<not> out_given then Inr (Some E_BADARG, null_cmems, h)
      else if bufs = [] then Inr (None, null_cmems, h)
      else if INT_MAX < int (length bufs) then Inr (Some E_RANGE, null_cmems, h)
      else case fold_res (\<lambda>b. add_size E_FORMAT (int (length b))) bufs 0 of
        Inl (Err e) \<Rightarrow> Inr (Some e, null_cmems, h)
      | Inl f \<Rightarrow> Inl f
      | Inr tot \<Rightarrow>
        (let count = length bufs
         in case cbmpc_malloc al (4 * count) (fresh_ints al count) h of
              (None, h) \<Rightarrow> Inr (Some E_INSUFFICIENT, null_cmems, h)
            | (Some s, h) \<Rightarrow>
              (if 0 < tot
               then (case cbmpc_malloc al (nat tot) (fresh_bytes al (nat tot)) h of
                  (None, h) \<Rightarrow> bind_res (cbmpc_free (Some s) h) (\<lambda>h. Inr (Some E_INSUFFICIENT, null_cmems, h))
                | (Some d, h) \<Rightarrow> (let out = \<lparr>cs_count = int count, cs_data = Some d, cs_sizes = Some s\<rparr>
                    in bind_res (fold_res (copy_segment out) (enumerate 0 bufs) (0, h)) (\<lambda>(_, h). Inr (None, out, h))))
               else (let out = \<lparr>cs_count = int count, cs_data = None, cs_sizes = Some s\<rparr>
                    in bind_res (fold_res (copy_segment out) (enumerate 0 bufs) (0, h)) (\<lambda>(_, h). Inr (None, out, h))))))"

text \<open>A view of a segment: base pointer, offset and size.\<close>

type_synonym cview = "ptr \<times> nat \<times> int"

definition segment_views :: "cmems \<Rightarrow> cheap \<Rightarrow> nat \<Rightarrow> cview list res" where
  "segment_views inp h n = map_sum id snd (fold_res (\<lambda>i (offset, out).
     bind_res (read_int (cs_sizes inp) i h) (\<lambda>sz.
       if sz = 0 then Inr (offset, out @ [(None, 0, 0)])
       else Inr (offset + nat sz, out @ [(cs_data inp, offset, sz)]))) [0..<n] (0, []))"

definition segment_total :: "error_t \<Rightarrow> cmems \<Rightarrow> cheap \<Rightarrow> int res" where
  "segment_total negative inp h =
     fold_res (\<lambda>i tot. bind_res (read_int (cs_sizes inp) i h) (\<lambda>sz. add_size negative sz tot)) [0..<nat (cs_count inp)] 0"

definition view_cmems :: "cmems \<Rightarrow> cheap \<Rightarrow> cview list res" where
  "view_cmems inp h =
     (if cs_count inp < 0 then error E_BADARG
      else if cs_count inp = 0 then Inr []
      else if cs_sizes inp = None then error E_BADARG
      else bind_res (segment_total E_BADARG inp h) (\<lambda>tot.
        if 0 < tot \<and> cs_data inp = None then error E_BADARG
        else segment_views inp h (nat (cs_count inp))))"

definition view_bytes :: "cheap \<Rightarrow> cview \<Rightarrow> bytes res" where
  "view_bytes h = (\<lambda>(p, off, n). if n = 0 then Inr [] else read_bytes p off (nat n) h)"

section \<open>Release\<close>

definition c_secure_bzero :: "ptr \<Rightarrow> nat \<Rightarrow> cheap \<Rightarrow> cheap res" where
  "c_secure_bzero p n h = (if p = None \<or> n = 0 then Inr h else write_bytes p 0 (replicate n 0) h)"

text \<open>\<^verbatim>\<open>malloc_usable_size\<close> is there on Apple and glibc only; the block is the whole allocation.\<close>

definition malloc_usable_bytes :: "bool \<Rightarrow> ptr \<Rightarrow> cheap \<Rightarrow> nat" where
  "malloc_usable_bytes platform p h =
     (if platform then (case Option.bind p (live h) of Some (Bytes bs) \<Rightarrow> length bs | _ \<Rightarrow> 0) else 0)"

definition cbmpc_cmem_free :: "cmem \<Rightarrow> cheap \<Rightarrow> cheap res" where
  "cbmpc_cmem_free m h =
     bind_res (if cm_data m \<noteq> None \<and> 0 < cm_size m then c_secure_bzero (cm_data m) (nat (cm_size m)) h else Inr h)
       (cbmpc_free (cm_data m))"

definition wipe_length :: "bool \<Rightarrow> cmems \<Rightarrow> cheap \<Rightarrow> nat res" where
  "wipe_length platform m h =
     (let wipe_len = malloc_usable_bytes platform (cs_data m) h
      in if wipe_len = 0 \<and> 0 < cs_count m \<and> cs_sizes m \<noteq> None
         then fold_res (\<lambda>i tot. bind_res (read_int (cs_sizes m) i h) (\<lambda>sz. Inr (if 0 < sz then tot + nat sz else tot)))
                [0..<nat (cs_count m)] 0
         else Inr wipe_len)"

definition cbmpc_cmems_free :: "bool \<Rightarrow> cmems \<Rightarrow> cheap \<Rightarrow> cheap res" where
  "cbmpc_cmems_free platform m h =
     bind_res (if cs_data m \<noteq> None then bind_res (wipe_length platform m h) (\<lambda>n. c_secure_bzero (cs_data m) n h) else Inr h)
       (\<lambda>h. bind_res (cbmpc_free (cs_data m) h) (cbmpc_free (cs_sizes m)))"

section \<open>Allocation, views and release\<close>

lemma live_update [simp]: "live (h\<lparr>live := f\<rparr>) = f" "freed (h\<lparr>live := f\<rparr>) = freed h" by simp_all

text \<open>The segments \<open>bufs\<close> stored behind \<open>m\<close>.\<close>

definition stored :: "cheap \<Rightarrow> cmems \<Rightarrow> bytes list \<Rightarrow> bool" where
  "stored h m bufs \<longleftrightarrow> cs_count m = int (length bufs)
     \<and> (\<exists>s. cs_sizes m = Some s \<and> live h s = Some (Ints (map (\<lambda>b. int (length b)) bufs))
       \<and> (if concat bufs = [] then cs_data m = None
          else \<exists>d. cs_data m = Some d \<and> d \<noteq> s \<and> live h d = Some (Bytes (concat bufs))))"

lemma total_sizes:
  "0 \<le> t \<Longrightarrow> fold_res (\<lambda>b. add_size e (int (length b))) bufs t =
     (if t + int (length (concat bufs)) \<le> INT_MAX \<or> bufs = [] then Inr (t + int (length (concat bufs))) else error E_RANGE)"
  by (induction bufs arbitrary: t) (auto simp: add_size_def)

lemma write_int_at:
  "live h s = Some (Ints (xs @ y # ys)) \<Longrightarrow> write_int (Some s) (length xs) x h = Inr (h\<lparr>live := (live h)(s \<mapsto> Ints (xs @ x # ys))\<rparr>)"
  by (simp add: write_int_def)

lemma write_bytes_at:
  "live h d = Some (Bytes (xs @ ys)) \<Longrightarrow> length b \<le> length ys \<Longrightarrow>
     write_bytes (Some d) (length xs) b h = Inr (h\<lparr>live := (live h)(d \<mapsto> Bytes (xs @ b @ drop (length b) ys))\<rparr>)"
  by (simp add: write_bytes_def)

lemma copy_segment_step:
  assumes "cs_sizes out = Some s" "live h s = Some (Ints (xs @ y # ys))"
    "b \<noteq> [] \<Longrightarrow> cs_data out = Some d \<and> d \<noteq> s \<and> live h d = Some (Bytes (bs @ cs)) \<and> length b \<le> length cs"
  shows "\<exists>h'. copy_segment out (length xs, b) (length bs, h) = Inr (length bs + length b, h') \<and> freed h' = freed h
     \<and> live h' = (if b = [] then live h else (live h)(d \<mapsto> Bytes (bs @ b @ drop (length b) cs)))(s \<mapsto> Ints (xs @ int (length b) # ys))"
  using assms by (auto simp: copy_segment_def write_int_at write_bytes_at)

lemma copy_segments:
  assumes "cs_sizes out = Some s" "live h s = Some (Ints (xs @ ys))" "length ys = length bufs"
    "concat bufs \<noteq> [] \<Longrightarrow> cs_data out = Some d \<and> d \<noteq> s \<and> live h d = Some (Bytes (bs @ cs)) \<and> length cs = length (concat bufs)"
  shows "\<exists>n h'. fold_res (copy_segment out) (enumerate (length xs) bufs) (length bs, h) = Inr (n, h') \<and> freed h' = freed h
     \<and> live h' = (if concat bufs = [] then live h else (live h)(d \<mapsto> Bytes (bs @ concat bufs)))(s \<mapsto> Ints (xs @ map (\<lambda>b. int (length b)) bufs))"
  using assms
proof (induction bufs arbitrary: xs ys bs cs h)
  case Nil
  then show ?case by (simp add: fun_upd_idem)
next
  case (Cons b bufs)
  obtain y ys' where ys: "ys = y # ys'" using Cons.prems(3) by (cases ys) simp_all
  have len: "length ys' = length bufs" using Cons.prems(3) ys by simp
  have d: "cs_data out = Some d \<and> d \<noteq> s \<and> live h d = Some (Bytes (bs @ cs)) \<and> length b \<le> length cs" if "b \<noteq> []"
    using Cons.prems(4) that by simp
  obtain h1 where h1: "copy_segment out (length xs, b) (length bs, h) = Inr (length bs + length b, h1)" "freed h1 = freed h"
      "live h1 = (if b = [] then live h else (live h)(d \<mapsto> Bytes (bs @ b @ drop (length b) cs)))(s \<mapsto> Ints (xs @ int (length b) # ys'))"
    using copy_segment_step [OF Cons.prems(1) Cons.prems(2) [unfolded ys] d] by blast
  have "live h1 s = Some (Ints ((xs @ [int (length b)]) @ ys'))" using h1(3) by simp
  moreover have "cs_data out = Some d \<and> d \<noteq> s \<and> live h1 d = Some (Bytes ((bs @ b) @ drop (length b) cs)) \<and> length (drop (length b) cs) = length (concat bufs)"
    if "concat bufs \<noteq> []"
    using Cons.prems(4) that h1(3) by (cases "b = []") auto
  ultimately obtain n h2 where h2: "fold_res (copy_segment out) (enumerate (length (xs @ [int (length b)])) bufs) (length (bs @ b), h1) = Inr (n, h2)"
      "freed h2 = freed h1"
      "live h2 = (if concat bufs = [] then live h1 else (live h1)(d \<mapsto> Bytes ((bs @ b) @ concat bufs)))(s \<mapsto> Ints ((xs @ [int (length b)]) @ map (\<lambda>b. int (length b)) bufs))"
    using Cons.IH [OF Cons.prems(1) _ len, of h1 "xs @ [int (length b)]" "bs @ b" "drop (length b) cs"] by blast
  have "b \<noteq> [] \<Longrightarrow> concat bufs = [] \<Longrightarrow> drop (length b) cs = []" using Cons.prems(4) by auto
  then have "live h2 = (if concat (b # bufs) = [] then live h else (live h)(d \<mapsto> Bytes (bs @ concat (b # bufs))))(s \<mapsto> Ints (xs @ map (\<lambda>b. int (length b)) (b # bufs)))"
    using h1(3) h2(3) d Cons.prems(4) by (cases "b = []"; cases "concat bufs = []") (auto simp: fun_eq_iff simp del: concat_eq_Nil_conv)
  moreover have "fold_res (copy_segment out) (enumerate (length xs) (b # bufs)) (length bs, h) = Inr (n, h2)" "freed h2 = freed h"
    using h1(1,2) h2(1,2) by simp_all
  ultimately show ?case by blast
qed

text \<open>Allocation fails without a trace, or stores the segments in fresh blocks.\<close>

definition fresh_for :: "cheap \<Rightarrow> cmems \<Rightarrow> cheap \<Rightarrow> bool" where
  "fresh_for h m h' \<longleftrightarrow> freed h' = freed h \<and> (\<forall>a. Some a \<noteq> cs_data m \<and> Some a \<noteq> cs_sizes m \<longrightarrow> live h' a = live h a)
     \<and> (\<forall>a. Some a = cs_data m \<or> Some a = cs_sizes m \<longrightarrow> live h a = None)"

lemma alloc_cmems_cases:
  assumes "good_alloc al" "bufs \<noteq> []"
  shows "(\<exists>e h'. alloc_cmems_from_bufs al bufs out_given h = Inr (Some e, null_cmems, h') \<and> live h' = live h)
     \<or> (\<exists>m h'. alloc_cmems_from_bufs al bufs out_given h = Inr (None, m, h') \<and> stored h' m bufs \<and> fresh_for h m h'
          \<and> int (length (concat bufs)) \<le> INT_MAX \<and> int (length bufs) \<le> INT_MAX)"
proof (cases "out_given \<and> int (length bufs) \<le> INT_MAX \<and> int (length (concat bufs)) \<le> INT_MAX")
  case False
  then show ?thesis using assms(2) total_sizes [of 0 E_FORMAT bufs] by (auto simp: alloc_cmems_from_bufs_def)
next
  case True
  then have tot: "fold_res (\<lambda>b. add_size E_FORMAT (int (length b))) bufs 0 = Inr (int (length (concat bufs)))"
    using total_sizes [of 0 E_FORMAT bufs] by simp
  let ?n = "length bufs" let ?t = "length (concat bufs)"
  note unfold = alloc_cmems_from_bufs_def tot cbmpc_malloc_def Let_def
  show ?thesis
  proof (cases "place al h (4 * ?n)")
    case None
    then show ?thesis using True assms(2) by (simp add: unfold del: length_concat)
  next
    case (Some s)
    then have s: "live h s = None" using assms(1) by (simp add: good_alloc_def)
    let ?h1 = "h\<lparr>live := (live h)(s \<mapsto> fresh_ints al ?n)\<rparr>"
    show ?thesis
    proof (cases "concat bufs = []")
      case empty: True
      let ?m = "\<lparr>cs_count = int ?n, cs_data = None, cs_sizes = Some s\<rparr>"
      obtain n h' where c: "fold_res (copy_segment ?m) (enumerate (length ([] :: int list)) bufs) (length ([] :: bytes), ?h1) = Inr (n, h')" "freed h' = freed ?h1"
          "live h' = (if concat bufs = [] then live ?h1 else (live ?h1)(s \<mapsto> Bytes ([] @ concat bufs)))(s \<mapsto> Ints ([] @ map (\<lambda>b. int (length b)) bufs))"
        using copy_segments [of ?m s ?h1 "[]" "map (int_garbage al) [0..<?n]" bufs s "[]"] empty by (auto simp: fresh_ints_def)
      have "alloc_cmems_from_bufs al bufs out_given h = Inr (None, ?m, h')" using True assms(2) Some c empty by (simp add: unfold del: concat_eq_Nil_conv)
      moreover have "stored h' ?m bufs" "fresh_for h ?m h'" using c s empty by (auto simp: stored_def fresh_for_def simp del: concat_eq_Nil_conv)
      ultimately show ?thesis using True by blast
    next
      case ne: False
      show ?thesis
      proof (cases "place al ?h1 ?t")
        case None
        then have "alloc_cmems_from_bufs al bufs out_given h = Inr (Some E_INSUFFICIENT, null_cmems, ?h1\<lparr>live := (live h)(s := None), freed := freed h @ [fresh_ints al ?n]\<rparr>)"
          using True assms(2) Some ne by (simp add: unfold cbmpc_free_def del: concat_eq_Nil_conv length_concat)
        then show ?thesis using s by (auto simp: fun_upd_idem)
      next
        case d: (Some d)
        then have ds: "live ?h1 d = None" using assms(1) unfolding good_alloc_def by blast
        then have "d \<noteq> s" "live h d = None" by (auto split: if_splits)
        let ?m = "\<lparr>cs_count = int ?n, cs_data = Some d, cs_sizes = Some s\<rparr>"
        let ?h2 = "?h1\<lparr>live := (live ?h1)(d \<mapsto> fresh_bytes al ?t)\<rparr>"
        obtain n h' where c: "fold_res (copy_segment ?m) (enumerate (length ([] :: int list)) bufs) (length ([] :: bytes), ?h2) = Inr (n, h')" "freed h' = freed ?h2"
            "live h' = (if concat bufs = [] then live ?h2 else (live ?h2)(d \<mapsto> Bytes ([] @ concat bufs)))(s \<mapsto> Ints ([] @ map (\<lambda>b. int (length b)) bufs))"
          using copy_segments [of ?m s ?h2 "[]" "map (int_garbage al) [0..<?n]" bufs d "[]" "map (garbage al) [0..<?t]"] \<open>d \<noteq> s\<close>
          by (auto simp: fresh_ints_def fresh_bytes_def)
        have "alloc_cmems_from_bufs al bufs out_given h = Inr (None, ?m, h')" using True assms(2) Some c ne d by (simp add: unfold del: concat_eq_Nil_conv length_concat)
        moreover have "stored h' ?m bufs" "fresh_for h ?m h'" using c s ne \<open>d \<noteq> s\<close> \<open>live h d = None\<close>
          by (auto simp: stored_def fresh_for_def simp del: concat_eq_Nil_conv)
        ultimately show ?thesis using True by blast
      qed
    qed
  qed
qed

lemma fold_reads:
  assumes "live h s = Some (Ints xs)" "n \<le> length xs"
  shows "fold_res (\<lambda>i t. bind_res (read_int (Some s) i h) (\<lambda>sz. f sz t)) [0..<n] t = fold_res f (take n xs) t"
proof -
  have map: "fold_res f (map g is) t = fold_res (\<lambda>i. f (g i)) is t" for g "is"
    by (induction "is" arbitrary: t) (auto intro!: bind_res_cong)
  have "fold_res (\<lambda>i t. bind_res (read_int (Some s) i h) (\<lambda>sz. f sz t)) [0..<n] t = fold_res (\<lambda>i t. f (xs ! i) t) [0..<n] t"
    using assms by (intro fold_res_cong) (auto simp: read_int_def)
  also have "\<dots> = fold_res f (map (nth xs) [0..<n]) t" by (simp add: map)
  also have "map (nth xs) [0..<n] = take n xs" using assms(2) by (intro nth_equalityI) simp_all
  finally show ?thesis .
qed

fun views_of :: "ptr \<Rightarrow> nat \<Rightarrow> bytes list \<Rightarrow> cview list" where
  "views_of d off [] = []"
| "views_of d off (b # bufs) = (if b = [] then (None, 0, 0) else (d, off, int (length b))) # views_of d (off + length b) bufs"

lemma views_fold:
  "fold_res (\<lambda>sz (offset, out). if sz = 0 then Inr (offset, out @ [(None, 0, 0)]) else Inr (offset + nat sz, out @ [(d, offset, sz)]))
      (map (\<lambda>b. int (length b)) bufs) (off, out) = Inr (off + length (concat bufs), out @ views_of d off bufs)"
  by (induction bufs arbitrary: off out) auto

lemma views_of_bytes:
  assumes "concat bufs \<noteq> [] \<Longrightarrow> \<exists>a. d = Some a \<and> live h a = Some (Bytes (pre @ concat bufs @ post))"
  shows "map_res (view_bytes h) (views_of d (length pre) bufs) = Inr bufs"
  using assms
proof (induction bufs arbitrary: pre)
  case (Cons b bufs)
  have "map_res (view_bytes h) (views_of d (length (pre @ b)) bufs) = Inr bufs" using Cons.prems by (intro Cons.IH) auto
  then show ?case using Cons.prems by (auto simp: view_bytes_def read_bytes_def)
qed simp

lemma segment_views_bytes:
  assumes "cs_sizes m = Some s" "live h s = Some (Ints xs)" "n \<le> length xs" "take n xs = map (\<lambda>b. int (length b)) bufs"
    "concat bufs \<noteq> [] \<Longrightarrow> \<exists>a. cs_data m = Some a \<and> live h a = Some (Bytes (concat bufs @ post))"
  shows "\<exists>vs. segment_views m h n = Inr vs \<and> map_res (view_bytes h) vs = Inr bufs"
proof -
  have "segment_views m h n = Inr (views_of (cs_data m) 0 bufs)"
    using fold_reads [OF assms(2,3), of "\<lambda>sz (offset, out). if sz = 0 then Inr (offset, out @ [(None, 0, 0)]) else Inr (offset + nat sz, out @ [(cs_data m, offset, sz)])"]
      views_fold [of "cs_data m" bufs 0 "[]"] assms(1,4) by (simp add: segment_views_def case_prod_unfold)
  then show ?thesis using views_of_bytes [of bufs "cs_data m" h "[]" post] assms(5) by (auto simp del: concat_eq_Nil_conv)
qed

lemma total_fold: "fold_res (add_size e) (map (\<lambda>b. int (length b)) bufs) t = fold_res (\<lambda>b. add_size e (int (length b))) bufs t"
  by (induction bufs arbitrary: t) (auto intro!: bind_res_cong)

lemma view_stored:
  assumes "stored h m bufs" "bufs \<noteq> []" "int (length (concat bufs)) \<le> INT_MAX"
  shows "\<exists>vs. view_cmems m h = Inr vs \<and> map_res (view_bytes h) vs = Inr bufs"
proof -
  obtain s where s: "cs_count m = int (length bufs)" "cs_sizes m = Some s" "live h s = Some (Ints (map (\<lambda>b. int (length b)) bufs))"
    and d: "if concat bufs = [] then cs_data m = None else \<exists>d. cs_data m = Some d \<and> d \<noteq> s \<and> live h d = Some (Bytes (concat bufs))"
    using assms(1) unfolding stored_def by blast
  have reads: "fold_res (\<lambda>i t. bind_res (read_int (cs_sizes m) i h) (\<lambda>sz. f sz t)) [0..<length bufs] t = fold_res f (map (\<lambda>b. int (length b)) bufs) t"
    for f :: "int \<Rightarrow> 'z \<Rightarrow> 'z res" and t
    using fold_reads [OF s(3), of "length bufs" f t] s(2) by simp
  have "segment_total E_BADARG m h = Inr (int (length (concat bufs)))"
    using assms(3) total_sizes [of 0 E_BADARG bufs] s(1) by (simp add: segment_total_def reads total_fold)
  moreover have "concat bufs \<noteq> [] \<Longrightarrow> \<exists>a. cs_data m = Some a \<and> live h a = Some (Bytes (concat bufs @ []))" using d by (auto simp del: concat_eq_Nil_conv)
  then have "\<exists>vs. segment_views m h (length bufs) = Inr vs \<and> map_res (view_bytes h) vs = Inr bufs"
    using s by (intro segment_views_bytes) auto
  moreover have "\<not> (0 < int (length (concat bufs)) \<and> cs_data m = None)" using d by (auto simp del: length_concat concat_eq_Nil_conv split: if_splits)
  ultimately show ?thesis using assms(2) s(1,2) by (auto simp: view_cmems_def simp del: length_concat)
qed

lemma wipe_fold: "fold_res (\<lambda>sz t. Inr (if 0 < sz then t + nat sz else t)) (map (\<lambda>b. int (length b)) bufs) t = Inr (t + length (concat bufs))"
  by (induction bufs arbitrary: t) auto

lemma free_stored:
  assumes "stored h m bufs" "bufs \<noteq> []"
  shows "\<exists>h'. cbmpc_cmems_free platform m h = Inr h' \<and> (\<forall>a. live h' a = (if Some a = cs_data m \<or> Some a = cs_sizes m then None else live h a))
     \<and> freed h' = freed h @ (if concat bufs = [] then [] else [Bytes (replicate (length (concat bufs)) 0)]) @ [Ints (map (\<lambda>b. int (length b)) bufs)]"
proof -
  obtain s where s: "cs_count m = int (length bufs)" "cs_sizes m = Some s" "live h s = Some (Ints (map (\<lambda>b. int (length b)) bufs))"
    and d: "if concat bufs = [] then cs_data m = None else \<exists>d. cs_data m = Some d \<and> d \<noteq> s \<and> live h d = Some (Bytes (concat bufs))"
    using assms(1) unfolding stored_def by blast
  show ?thesis
  proof (cases "concat bufs = []")
    case True
    then show ?thesis using d s by (auto simp: cbmpc_cmems_free_def cbmpc_free_def)
  next
    case False
    then obtain dp where dp: "cs_data m = Some dp" "dp \<noteq> s" "live h dp = Some (Bytes (concat bufs))" using d by (auto simp del: concat_eq_Nil_conv)
    have "wipe_length platform m h = Inr (length (concat bufs))"
      using dp s False fold_reads [OF s(3), of "length bufs" "\<lambda>sz t. Inr (if 0 < sz then t + nat sz else t)" 0]
      by (auto simp: wipe_length_def malloc_usable_bytes_def wipe_fold Let_def simp del: concat_eq_Nil_conv length_concat)
    then show ?thesis using dp s False
      by (auto simp: cbmpc_cmems_free_def cbmpc_free_def c_secure_bzero_def write_bytes_def simp del: concat_eq_Nil_conv length_concat)
  qed
qed

end
