(* ===== verification/Access_Api.thy ===== *)
theory Access_Api
  imports Sharing_Correct
begin

text \<open>
  Access structures of the public API: \<^verbatim>\<open>access_structure_t\<close> of \<^verbatim>\<open>core/access_structure.h\<close>, its validation and its translation to
  the internal tree in \<^verbatim>\<open>api/access_structure_util.h\<close>. Trees are unnamed inside; the translation invents names for the
  inner nodes. A set of names is an Isabelle set; the loop that looks for an unused name runs on fuel, one more
  than the number of used names, which is enough.
\<close>

section \<open>The public structure\<close>

definition MAX_DEPTH :: nat where "MAX_DEPTH = 128"

definition MAX_NODES :: nat where "MAX_NODES = 4096"

datatype as_type = as_leaf | as_and | as_or | as_threshold | as_other nat

datatype access_structure =
  AS (as_kind: as_type) (leaf_name: string) (threshold_k: int) (as_children: "access_structure list")

definition as_Leaf :: "string \<Rightarrow> access_structure" where "as_Leaf party_name = AS as_leaf party_name 0 []"
definition as_And :: "access_structure list \<Rightarrow> access_structure" where "as_And ch = AS as_and [] 0 ch"
definition as_Or :: "access_structure list \<Rightarrow> access_structure" where "as_Or ch = AS as_or [] 0 ch"
definition as_Threshold :: "int \<Rightarrow> access_structure list \<Rightarrow> access_structure" where
  "as_Threshold k ch = AS as_threshold [] k ch"

section \<open>Validation\<close>

fun validate_access_structure_node_impl :: "access_structure \<Rightarrow> nat \<Rightarrow> nat \<Rightarrow> nat res" where
  "validate_access_structure_node_impl (AS ty nm k ch) depth nodes_seen =
     (let nodes_seen = nodes_seen + 1;
          children = fold_res (\<lambda>c seen. validate_access_structure_node_impl c (depth + 1) seen) ch nodes_seen
      in if MAX_NODES < nodes_seen then error E_RANGE
         else if MAX_DEPTH < depth then error E_RANGE
         else case ty of
           as_leaf \<Rightarrow> if nm = [] then error E_BADARG else if ch \<noteq> [] then error E_BADARG
                      else if k \<noteq> 0 then error E_BADARG else Inr nodes_seen
         | as_and \<Rightarrow> if ch = [] then error E_BADARG else if nm \<noteq> [] then error E_BADARG
                      else if k \<noteq> 0 then error E_BADARG else children
         | as_or \<Rightarrow> if ch = [] then error E_BADARG else if nm \<noteq> [] then error E_BADARG
                      else if k \<noteq> 0 then error E_BADARG else children
         | as_threshold \<Rightarrow> if ch = [] then error E_BADARG else if nm \<noteq> [] then error E_BADARG
                      else if k < 1 then error E_BADARG else if int (length ch) < k then error E_BADARG else children
         | as_other _ \<Rightarrow> error E_BADARG)"

definition validate_access_structure_node :: "access_structure \<Rightarrow> unit res" where
  "validate_access_structure_node n = bind_res (validate_access_structure_node_impl n 0 0) (\<lambda>_. success)"

section \<open>Leaf names\<close>

text \<open>The explicit stack of \<^verbatim>\<open>collect_leaf_names\<close>, its top first; the children are pushed in order.\<close>

fun as_size :: "access_structure \<Rightarrow> nat" where
  "as_size (AS ty nm k ch) = Suc (\<Sum>c\<leftarrow>ch. as_size c)"

function collect_loop :: "(access_structure \<times> nat) list \<Rightarrow> nat \<Rightarrow> string set \<Rightarrow> string set res" where
  "collect_loop [] nodes_seen names = Inr names"
| "collect_loop ((AS ty nm k ch, depth) # stack) nodes_seen names =
     (if MAX_NODES < nodes_seen + 1 then error E_RANGE
      else if MAX_DEPTH < depth then error E_RANGE
      else if ty = as_leaf then collect_loop stack (nodes_seen + 1) (insert nm names)
      else collect_loop (rev (map (\<lambda>c. (c, depth + 1)) ch) @ stack) (nodes_seen + 1) names)"
  by pat_completeness auto
termination
  by (relation "measure (\<lambda>(stack, _). \<Sum>(n, d)\<leftarrow>stack. as_size n)")
     (auto simp: sum_list_rev rev_map [symmetric] comp_def case_prod_unfold)

definition collect_leaf_names :: "access_structure \<Rightarrow> string set res" where
  "collect_leaf_names n = collect_loop [(n, 0)] 0 {}"

section \<open>Translation\<close>

fun to_string :: "nat \<Rightarrow> string" where
  "to_string n = (if n < 10 then [char_of (48 + n)] else to_string (n div 10) @ [char_of (48 + n mod 10)])"

declare to_string.simps [simp del]

definition node_name :: "u64 \<Rightarrow> string" where
  "node_name counter = ''__cbmpc_ac_node_'' @ to_string (unat counter)"

fun gen_name_loop :: "nat \<Rightarrow> string set \<Rightarrow> u64 \<Rightarrow> (string \<times> u64) option" where
  "gen_name_loop 0 used counter = None"
| "gen_name_loop (Suc fuel) used counter =
     (let counter = counter + 1; name = node_name counter
      in if name \<notin> used then Some (name, counter) else gen_name_loop fuel used counter)"

definition gen_internal_node_name :: "string set \<Rightarrow> u64 \<Rightarrow> (string \<times> string set \<times> u64) option" where
  "gen_internal_node_name used counter =
     map_option (\<lambda>(name, counter). (name, insert name used, counter)) (gen_name_loop (Suc (card used)) used counter)"

definition internal_type :: "as_type \<Rightarrow> node_e" where
  "internal_type ty = (if ty = as_and then AND else if ty = as_or then OR else THRESHOLD)"

text \<open>A search that does not end is a fault of the model; it does not happen.\<close>

definition inner_node :: "as_type \<Rightarrow> int \<Rightarrow> bool \<Rightarrow> string set \<Rightarrow> u64 \<Rightarrow> (node_t \<times> string set \<times> u64) res" where
  "inner_node ty k is_root used counter =
     (if is_root then Inr (Node (internal_type ty) [] (if ty = as_threshold then k else 0) [], used, counter)
      else case gen_internal_node_name used counter of
             None \<Rightarrow> Inl Assert_Failed
           | Some (name, used, counter) \<Rightarrow>
               Inr (Node (internal_type ty) name (if ty = as_threshold then k else 0) [], used, counter))"

definition attach :: "node_t \<Rightarrow> node_t \<times> string set \<times> u64 \<Rightarrow> (node_t \<times> string set \<times> u64) res" where
  "attach node = (\<lambda>(child, used, counter). Inr (add_child_node node child, used, counter))"

fun build_internal_ac_node ::
  "access_structure \<Rightarrow> nat \<Rightarrow> bool \<Rightarrow> string set \<Rightarrow> u64 \<Rightarrow> (node_t \<times> string set \<times> u64) res" where
  "build_internal_ac_node (AS ty nm k ch) depth is_root used counter =
     (if MAX_DEPTH < depth then error E_RANGE
      else if ty = as_leaf then (if is_root then error E_BADARG else Inr (Node LEAF nm 0 [], used, counter))
      else if ty \<in> {as_and, as_or, as_threshold} then
        (if ch = [] then error E_BADARG
         else bind_res (inner_node ty k is_root used counter) (\<lambda>s.
           fold_res (\<lambda>c (node, used, counter).
             bind_res (build_internal_ac_node c (depth + 1) False used counter) (attach node)) ch s))
      else error E_BADARG)"

definition to_internal_access_structure ::
  "access_structure \<Rightarrow> string list \<Rightarrow> 'p ecurve option \<Rightarrow> 'p ac_t res" where
  "to_internal_access_structure a party_names k =
     (if k = None then error E_BADARG
      else bind_res (validate_access_structure_node a) (\<lambda>_.
        if as_kind a = as_leaf then error E_BADARG
        else bind_res (collect_leaf_names a) (\<lambda>leaf_names.
          if leaf_names \<noteq> set party_names then error E_BADARG
          else bind_res (build_internal_ac_node a 0 True (insert [] leaf_names) 0) (\<lambda>(r, _).
            let ac = \<lparr>root = Some r, curve = k\<rparr> in bind_res (ac_validate_tree ac) (\<lambda>_. Inr ac)))))"

section \<open>What validation accepts\<close>

fun as_height :: "access_structure \<Rightarrow> nat" where
  "as_height (AS ty nm k ch) = (if ch = [] then 0 else Suc (Max (set (map as_height ch))))"

fun as_shape :: "access_structure \<Rightarrow> bool" where
  "as_shape (AS ty nm k ch) \<longleftrightarrow>
     (case ty of as_leaf \<Rightarrow> nm \<noteq> [] \<and> ch = [] \<and> k = 0
      | as_and \<Rightarrow> ch \<noteq> [] \<and> nm = [] \<and> k = 0
      | as_or \<Rightarrow> ch \<noteq> [] \<and> nm = [] \<and> k = 0
      | as_threshold \<Rightarrow> ch \<noteq> [] \<and> nm = [] \<and> 1 \<le> k \<and> k \<le> int (length ch)
      | as_other _ \<Rightarrow> False) \<and> list_all as_shape ch"

lemma height_le: "as_height (AS ty nm k ch) \<le> d \<longleftrightarrow> (\<forall>c \<in> set ch. Suc (as_height c) \<le> d)"
  by (cases "ch = []") (simp_all add: Suc_le_eq)

lemma height_bound:
  "depth + as_height (AS ty nm k ch) \<le> MAX_DEPTH \<longleftrightarrow> depth \<le> MAX_DEPTH \<and> (\<forall>c \<in> set ch. Suc depth + as_height c \<le> MAX_DEPTH)"
  using height_le [of ty nm k ch "MAX_DEPTH - depth"] by (cases "depth \<le> MAX_DEPTH") (auto simp del: as_height.simps)

lemma validate_impl_iff:
  "validate_access_structure_node_impl n depth seen = Inr seen' \<longleftrightarrow>
     as_shape n \<and> depth + as_height n \<le> MAX_DEPTH \<and> seen + as_size n \<le> MAX_NODES \<and> seen' = seen + as_size n"
proof (induction n arbitrary: depth seen seen')
  case (AS ty nm k ch)
  have fold: "fold_res (\<lambda>c s. validate_access_structure_node_impl c d s) cs s = Inr s' \<longleftrightarrow>
      list_all as_shape cs \<and> (\<forall>c \<in> set cs. d + as_height c \<le> MAX_DEPTH)
      \<and> (cs \<noteq> [] \<longrightarrow> s + (\<Sum>c\<leftarrow>cs. as_size c) \<le> MAX_NODES) \<and> s' = s + (\<Sum>c\<leftarrow>cs. as_size c)"
    if "set cs \<subseteq> set ch" for cs d s s'
    using that
  proof (induction cs arbitrary: s)
    case (Cons c cs)
    then have c: "c \<in> set ch" and cs: "set cs \<subseteq> set ch" by simp_all
    show ?case
      by (simp add: bind_res_eq_Inr AS.IH [OF c] Cons.IH [OF cs]) auto
  qed auto
  show ?case
    unfolding height_bound by (cases ty) (auto simp: Let_def fold)
qed


lemma validate_node_iff:
  "validate_access_structure_node n = success \<longleftrightarrow> as_shape n \<and> as_height n \<le> MAX_DEPTH \<and> as_size n \<le> MAX_NODES"
  using validate_impl_iff [of n 0 0] by (auto simp: validate_access_structure_node_def res_simps)

section \<open>What the translation builds\<close>

fun as_leaves :: "access_structure \<Rightarrow> string list" where
  "as_leaves (AS ty nm k ch) = (if ty = as_leaf then [nm] else concat (map as_leaves ch))"

text \<open>The sets of parties that an access structure admits.\<close>

fun as_satisfied :: "string set \<Rightarrow> access_structure \<Rightarrow> bool" where
  "as_satisfied A (AS ty nm k ch) =
     (case ty of as_leaf \<Rightarrow> nm \<in> A
      | as_and \<Rightarrow> list_all (as_satisfied A) ch
      | as_or \<Rightarrow> list_ex (as_satisfied A) ch
      | as_threshold \<Rightarrow> k \<le> int (length (filter (as_satisfied A) ch))
      | as_other _ \<Rightarrow> False)"

fun depth_ok :: "nat \<Rightarrow> access_structure \<Rightarrow> bool" where
  "depth_ok depth (AS ty nm k ch) \<longleftrightarrow> depth \<le> MAX_DEPTH \<and> list_all (depth_ok (Suc depth)) ch"

lemma depth_ok_height: "depth_ok d n \<longleftrightarrow> d + as_height n \<le> MAX_DEPTH"
proof (induction n arbitrary: d)
  case (AS ty nm k ch)
  then show ?case using height_le [of ty nm k ch "MAX_DEPTH - d"]
    by (cases "d \<le> MAX_DEPTH") (auto simp: list_all_iff simp del: as_height.simps)
qed

lemma collect_loop_ok:
  "seen + (\<Sum>(n, d)\<leftarrow>stack. as_size n) \<le> MAX_NODES \<Longrightarrow> list_all (\<lambda>(n, d). depth_ok d n) stack \<Longrightarrow>
     collect_loop stack seen names = Inr (names \<union> (\<Union>(n, d) \<in> set stack. set (as_leaves n)))"
proof (induction stack seen names rule: collect_loop.induct)
  case (2 ty nm k ch depth stack seen names)
  have seen: "\<not> MAX_NODES < seen + 1" "\<not> MAX_DEPTH < depth" using "2.prems" by simp_all
  show ?case
  proof (cases "ty = as_leaf")
    case True
    then show ?thesis using "2.IH"(1) [OF seen True] "2.prems" seen by simp
  next
    case False
    have "seen + 1 + (\<Sum>(n, d)\<leftarrow>rev (map (\<lambda>c. (c, depth + 1)) ch) @ stack. as_size n) \<le> MAX_NODES"
      using "2.prems"(1) by (simp add: rev_map [symmetric] sum_list_rev comp_def)
    moreover have "list_all (\<lambda>(n, d). depth_ok d n) (rev (map (\<lambda>c. (c, depth + 1)) ch) @ stack)"
      using "2.prems"(2) by (auto simp: list_all_iff)
    ultimately show ?thesis using "2.IH"(2) [OF seen False] False seen by (simp add: image_Un)
  qed
qed simp

text \<open>Decimal numbers are injective, so some number below the fuel is unused.\<close>

fun of_decimal :: "nat \<Rightarrow> string \<Rightarrow> nat" where
  "of_decimal acc [] = acc"
| "of_decimal acc (ch # chs) = of_decimal (10 * acc + (of_char ch - 48)) chs"

lemma of_decimal_append: "of_decimal acc (xs @ ys) = of_decimal (of_decimal acc xs) ys"
  by (induction xs arbitrary: acc) simp_all

lemma of_decimal_to_string: "of_decimal 0 (to_string n) = n"
proof (induction n rule: to_string.induct)
  case (1 n)
  then show ?case by (subst to_string.simps) (auto simp: of_decimal_append)
qed

lemma node_name_inj: "node_name c = node_name d \<longleftrightarrow> c = d"
proof
  assume "node_name c = node_name d"
  then have "to_string (unat c) = to_string (unat d)" by (simp add: node_name_def)
  then have "unat c = unat d" by (metis of_decimal_to_string)
  then show "c = d" by (simp only: word_unat_eq_iff)
qed simp

lemma gen_name_loop_None:
  "gen_name_loop fuel used counter = None \<longleftrightarrow> (\<forall>i < fuel. node_name (counter + 1 + word_of_nat i) \<in> used)"
proof (induction fuel arbitrary: counter)
  case (Suc fuel)
  then show ?case by (auto simp: Let_def less_Suc_eq_0_disj ac_simps)
qed simp

lemma gen_name_loop_Some: "gen_name_loop fuel used counter = Some (name, counter') \<Longrightarrow> name \<notin> used \<and> name \<noteq> []"
  by (induction fuel arbitrary: counter) (auto simp: Let_def node_name_def split: if_splits)

lemma gen_internal_node_name_ok:
  assumes "finite used" "card used < 2 ^ 64"
  shows "\<exists>name counter'. gen_internal_node_name used counter = Some (name, insert name used, counter') \<and> name \<notin> used \<and> name \<noteq> []"
proof -
  let ?f = "\<lambda>i. node_name (counter + 1 + word_of_nat i)"
  have "inj_on ?f {..<Suc (card used)}"
  proof (rule inj_onI)
    fix i j assume "i \<in> {..<Suc (card used)}" "j \<in> {..<Suc (card used)}" "?f i = ?f j"
    then have w: "(word_of_nat i :: u64) = word_of_nat j" and ij: "i \<le> card used" "j \<le> card used"
      unfolding node_name_inj by simp_all
    have "i < 2 ^ LENGTH(64)" "j < 2 ^ LENGTH(64)" using ij assms(2) by (simp_all only: len_num1 len_bit0 len_bit1) simp_all
    then show "i = j" using arg_cong [OF w, of unat] by (simp only: unat_small)
  qed
  then have "card (?f ` {..<Suc (card used)}) = Suc (card used)" by (simp add: card_image)
  then have "\<not> ?f ` {..<Suc (card used)} \<subseteq> used" using card_mono [OF assms(1)] by (metis Suc_n_not_le_n)
  then have "gen_name_loop (Suc (card used)) used counter \<noteq> None"
    unfolding gen_name_loop_None by blast
  then obtain name counter' where "gen_name_loop (Suc (card used)) used counter = Some (name, counter')" by auto
  with gen_name_loop_Some [OF this] show ?thesis by (auto simp: gen_internal_node_name_def)
qed


text \<open>
  The trees built for a list of structures: each denotes the structure, and beside the leaves they use names
  that were unused before.
\<close>

definition built :: "access_structure list \<Rightarrow> node_t list \<Rightarrow> string set \<Rightarrow> string set \<Rightarrow> bool" where
  "built cs ts used used' \<longleftrightarrow> length ts = length cs \<and> list_all (\<lambda>t. nname t \<noteq> [] \<and> wf_node t) ts
     \<and> (\<forall>A. map (satisfied A) ts = map (as_satisfied A) cs)
     \<and> set (concat (map node_names ts)) \<subseteq> set (concat (map as_leaves cs)) \<union> (used' - used)
     \<and> set (concat (map as_leaves cs)) \<subseteq> set (concat (map node_names ts))
     \<and> (distinct (concat (map node_names ts)) \<longleftrightarrow> distinct (concat (map as_leaves cs)))
     \<and> (\<Union>t \<in> set ts. list_leaf_names t) = set (concat (map as_leaves cs))
     \<and> used \<subseteq> used' \<and> finite used' \<and> card used' \<le> card used + (\<Sum>c\<leftarrow>cs. as_size c)"

lemma built_Nil: "finite used \<Longrightarrow> built [] [] used used"
  by (simp add: built_def)

lemma built_Cons:
  assumes "built [c] [t] u0 u1" "built cs ts u1 u2" "set (concat (map as_leaves (c # cs))) \<subseteq> u0"
  shows "built (c # cs) (t # ts) u0 u2"
proof -
  let ?N = "set (node_names t)" let ?L = "set (as_leaves c)"
  let ?M = "set (concat (map node_names ts))" let ?K = "set (concat (map as_leaves cs))"
  have 1: "?N \<subseteq> ?L \<union> (u1 - u0)" "?L \<subseteq> ?N" "u0 \<subseteq> u1" "distinct (node_names t) \<longleftrightarrow> distinct (as_leaves c)"
    using assms(1) by (auto simp: built_def)
  have 2: "?M \<subseteq> ?K \<union> (u2 - u1)" "?K \<subseteq> ?M" "u1 \<subseteq> u2" "distinct (concat (map node_names ts)) \<longleftrightarrow> distinct (concat (map as_leaves cs))"
    using assms(2) by (simp_all add: built_def)
  have u: "?L \<subseteq> u0" "?K \<subseteq> u0" using assms(3) by auto
  have "?N \<inter> ?M = {} \<longleftrightarrow> ?L \<inter> ?K = {}" using 1 2 u by blast
  moreover have "?N \<union> ?M \<subseteq> (?L \<union> ?K) \<union> (u2 - u0)" using 1 2 u by blast
  moreover have "set (concat (map node_names (t # ts))) = ?N \<union> ?M" "set (concat (map as_leaves (c # cs))) = ?L \<union> ?K" by simp_all
  moreover have "distinct (concat (map node_names (t # ts))) \<longleftrightarrow> distinct (concat (map as_leaves (c # cs)))"
    using 1(4) 2(4) \<open>?N \<inter> ?M = {} \<longleftrightarrow> ?L \<inter> ?K = {}\<close> by simp
  moreover have "card u2 \<le> card u0 + (\<Sum>c\<leftarrow>c # cs. as_size c)" "finite u2" "u0 \<subseteq> u2"
    using assms(1,2) by (auto simp: built_def)
  moreover have "?L \<union> ?K \<subseteq> ?N \<union> ?M" using 1(2) 2(2) by blast
  moreover have "(\<Union>t \<in> set (t # ts). list_leaf_names t) = ?L \<union> ?K" using assms(1,2) by (simp add: built_def)
  ultimately show ?thesis using assms(1,2) unfolding built_def by simp
qed

definition as_ready :: "nat \<Rightarrow> string set \<Rightarrow> access_structure \<Rightarrow> bool" where
  "as_ready depth used c \<longleftrightarrow> as_shape c \<and> depth_ok depth c \<and> set (as_leaves c) \<subseteq> used \<and> [] \<in> used"

lemma build_children:
  assumes "\<And>c used counter. c \<in> set cs \<Longrightarrow> as_ready depth used c \<Longrightarrow> finite used \<Longrightarrow> card used + as_size c < 2 ^ 64 \<Longrightarrow>
      \<exists>t used' counter'. build_internal_ac_node c depth False used counter = Inr (t, used', counter') \<and> built [c] [t] used used'"
    "list_all (as_ready depth used) cs" "finite used" "card used + (\<Sum>c\<leftarrow>cs. as_size c) < 2 ^ 64"
  shows "\<exists>ts used' counter'. fold_res (\<lambda>c (node, used, counter).
        bind_res (build_internal_ac_node c depth False used counter) (attach node)) cs (Node ty nm th acc, used, counter)
      = Inr (Node ty nm th (acc @ ts), used', counter') \<and> built cs ts used used'"
  using assms
proof (induction cs arbitrary: used counter acc)
  case Nil
  then show ?case using built_Nil by auto
next
  case (Cons c cs)
  obtain t u1 k1 where 1: "build_internal_ac_node c depth False used counter = Inr (t, u1, k1)" "built [c] [t] used u1"
    using Cons.prems(1) [of c used counter] Cons.prems(2-4) by auto
  then have u1: "used \<subseteq> u1" "finite u1" "card u1 \<le> card used + as_size c" by (simp_all add: built_def)
  have "list_all (as_ready depth u1) cs" using Cons.prems(2) u1(1) by (auto simp: list_all_iff as_ready_def)
  moreover have "card u1 + (\<Sum>c\<leftarrow>cs. as_size c) < 2 ^ 64" using u1(3) Cons.prems(4) by simp
  ultimately obtain ts u2 k2 where 2: "fold_res (\<lambda>c (node, used, counter).
        bind_res (build_internal_ac_node c depth False used counter) (attach node)) cs (Node ty nm th (acc @ [t]), u1, k1)
      = Inr (Node ty nm th ((acc @ [t]) @ ts), u2, k2)" "built cs ts u1 u2"
    using Cons.IH [of u1 "acc @ [t]" k1] Cons.prems(1) u1(2) by auto
  have "built (c # cs) (t # ts) used u2"
    using built_Cons [OF 1(2) 2(2)] Cons.prems(2) by (auto simp: list_all_iff as_ready_def)
  with 1 2 show ?case by (auto simp: attach_def add_child_node_def)
qed

lemma map_eq_transfer:
  "map f xs = map g ys \<Longrightarrow> list_all f xs = list_all g ys \<and> list_ex f xs = list_ex g ys \<and> length (filter f xs) = length (filter g ys)"
  by (induction xs arbitrary: ys) (auto simp: Cons_eq_map_conv)

lemma internal_satisfied:
  assumes "\<forall>A. map (satisfied A) ts = map (as_satisfied A) ch" "ty \<in> {as_and, as_or, as_threshold}"
  shows "satisfied A (Node (internal_type ty) nm (if ty = as_threshold then k else 0) ts) = as_satisfied A (AS ty nm' k ch)"
  using map_eq_transfer [OF spec [OF assms(1)], of A] assms(2) by (auto simp: internal_type_def)

lemma internal_wf:
  assumes "as_shape (AS ty nm' k ch)" "ty \<in> {as_and, as_or, as_threshold}" "length ts = length ch" "list_all (\<lambda>t. nname t \<noteq> [] \<and> wf_node t) ts"
  shows "wf_node (Node (internal_type ty) nm (if ty = as_threshold then k else 0) ts)"
  using assms by (auto simp: internal_type_def)

lemma inner_leaves:
  assumes "ty \<in> {as_and, as_or, as_threshold}"
  shows "list_leaf_names (Node (internal_type ty) nm th ts) = (\<Union>t \<in> set ts. list_leaf_names t)"
  using assms by (auto simp: internal_type_def)

lemma built_inner:
  assumes "as_shape (AS ty nm k ch)" "ty \<in> {as_and, as_or, as_threshold}" "built ch ts (insert name used) u2"
    "name \<notin> used" "name \<noteq> []" "finite used" "set (concat (map as_leaves ch)) \<subseteq> used"
  shows "built [AS ty nm k ch] [Node (internal_type ty) name (if ty = as_threshold then k else 0) ts] used u2"
proof -
  let ?t = "Node (internal_type ty) name (if ty = as_threshold then k else 0) ts"
  let ?M = "set (concat (map node_names ts))" let ?K = "set (concat (map as_leaves ch))"
  have b: "length ts = length ch" "list_all (\<lambda>t. nname t \<noteq> [] \<and> wf_node t) ts" "\<forall>A. map (satisfied A) ts = map (as_satisfied A) ch"
    "?M \<subseteq> ?K \<union> (u2 - insert name used)" "?K \<subseteq> ?M" "distinct (concat (map node_names ts)) \<longleftrightarrow> distinct (concat (map as_leaves ch))"
    "(\<Union>t \<in> set ts. list_leaf_names t) = ?K" "insert name used \<subseteq> u2" "finite u2" "card u2 \<le> card (insert name used) + (\<Sum>c\<leftarrow>ch. as_size c)"
    using assms(3) unfolding built_def by blast+
  have leaves: "as_leaves (AS ty nm k ch) = concat (map as_leaves ch)" using assms(2) by auto
  have "name \<notin> ?M" using b(4) assms(4,7) by blast
  then have "distinct (node_names ?t) \<longleftrightarrow> distinct (as_leaves (AS ty nm k ch))" using b(6) leaves by simp
  moreover have "card u2 \<le> card used + as_size (AS ty nm k ch)" using b(10) assms(4,6) by simp
  moreover have "set (node_names ?t) \<subseteq> set (as_leaves (AS ty nm k ch)) \<union> (u2 - used)" using b(4,8) assms(4) leaves by auto
  moreover have "set (as_leaves (AS ty nm k ch)) \<subseteq> set (node_names ?t)" using b(5) leaves by auto
  moreover have "list_leaf_names ?t = set (as_leaves (AS ty nm k ch))" using inner_leaves [OF assms(2)] b(7) leaves by simp
  ultimately show ?thesis
    using internal_satisfied [OF b(3) assms(2), of _ name k nm] internal_wf [OF assms(1,2) b(1,2), of name] assms(5) b(8,9)
    unfolding built_def by (simp del: as_leaves.simps node_names.simps list_leaf_names.simps as_size.simps satisfied.simps as_satisfied.simps wf_node.simps)
qed

lemma build_node:
  "as_ready depth used n \<Longrightarrow> finite used \<Longrightarrow> card used + as_size n < 2 ^ 64 \<Longrightarrow>
     \<exists>t used' counter'. build_internal_ac_node n depth False used counter = Inr (t, used', counter') \<and> built [n] [t] used used'"
proof (induction n arbitrary: depth used counter)
  case (AS ty nm k ch)
  note ready = AS.prems(1)
  have depth: "\<not> MAX_DEPTH < depth" and shape: "as_shape (AS ty nm k ch)" using ready by (simp_all add: as_ready_def)
  show ?case
  proof (cases "ty = as_leaf")
    case True
    then show ?thesis using ready AS.prems(2) depth by (simp add: as_ready_def built_def)
  next
    case False
    then have ty: "ty \<in> {as_and, as_or, as_threshold}" and ne: "ch \<noteq> []" using shape by (cases ty; simp)+
    let ?th = "if ty = as_threshold then k else 0"
    obtain name k1 where g: "gen_internal_node_name used counter = Some (name, insert name used, k1)" "name \<notin> used" "name \<noteq> []"
      using gen_internal_node_name_ok [OF AS.prems(2), of counter] AS.prems(3) by auto
    let ?u = "insert name used"
    have u: "finite ?u" "card ?u + (\<Sum>c\<leftarrow>ch. as_size c) < 2 ^ 64" using AS.prems(2,3) g(2) by simp_all
    have sub: "list_all (as_ready (depth + 1) ?u) ch" using ready False by (auto simp: as_ready_def list_all_iff)
    have leaves: "set (concat (map as_leaves ch)) \<subseteq> used" using ready False by (auto simp: as_ready_def)
    obtain ts u2 k2 where 2: "fold_res (\<lambda>c (node, used, counter).
          bind_res (build_internal_ac_node c (depth + 1) False used counter) (attach node)) ch (Node (internal_type ty) name ?th [], ?u, k1)
        = Inr (Node (internal_type ty) name ?th ([] @ ts), u2, k2)" "built ch ts ?u u2"
      using build_children [OF AS.IH sub u, of "internal_type ty" name ?th "[]" k1] by blast
    have "built [AS ty nm k ch] [Node (internal_type ty) name ?th ts] used u2"
      by (rule built_inner [OF shape ty 2(2) g(2,3) AS.prems(2) leaves])
    then show ?thesis using 2(1) g(1) depth False ty ne by (auto simp: inner_node_def)
  qed
qed

lemma card_insert_le': "card (insert x A) \<le> Suc (card A)"
  by (metis card.infinite card_insert_if finite_insert le_SucI le_refl nat_le_linear)

lemma build_root:
  assumes "as_shape (AS ty nm k ch)" "ty \<noteq> as_leaf" "as_height (AS ty nm k ch) \<le> MAX_DEPTH" "as_size (AS ty nm k ch) \<le> MAX_NODES"
    "used = insert [] (set (as_leaves (AS ty nm k ch)))"
  shows "\<exists>ts used' counter'. build_internal_ac_node (AS ty nm k ch) 0 True used 0 =
       Inr (Node (internal_type ty) [] (if ty = as_threshold then k else 0) ts, used', counter') \<and> built ch ts used used'"
proof -
  have ty: "ty \<in> {as_and, as_or, as_threshold}" and ne: "ch \<noteq> []" using assms(1,2) by (cases ty; simp)+
  have d: "depth_ok 0 (AS ty nm k ch)" using assms(3) by (simp add: depth_ok_height del: depth_ok.simps)
  have sub: "list_all (as_ready 1 used) ch" using assms(1,2,5) d by (auto simp: as_ready_def list_all_iff)
  have len: "length (as_leaves n) \<le> as_size n" for n
  proof (induction n)
    case (AS ty nm k ch)
    then have "(\<Sum>c\<leftarrow>ch. length (as_leaves c)) \<le> (\<Sum>c\<leftarrow>ch. as_size c)" by (intro sum_list_mono) simp
    then show ?case by (simp add: length_concat comp_def)
  qed
  have "card used \<le> Suc (card (set (as_leaves (AS ty nm k ch))))" unfolding assms(5) by (rule card_insert_le')
  also have "\<dots> \<le> Suc (length (as_leaves (AS ty nm k ch)))" using card_length by blast
  finally have "card used \<le> Suc (length (as_leaves (AS ty nm k ch)))" .
  then have "card used + (\<Sum>c\<leftarrow>ch. as_size c) < 2 ^ 64" using len [of "AS ty nm k ch"] assms(4) by (simp add: MAX_NODES_def)
  moreover have "finite used" using assms(5) by simp
  ultimately obtain ts u2 k2 where "fold_res (\<lambda>c (node, used, counter).
        bind_res (build_internal_ac_node c 1 False used counter) (attach node)) ch
          (Node (internal_type ty) [] (if ty = as_threshold then k else 0) [], used, 0)
      = Inr (Node (internal_type ty) [] (if ty = as_threshold then k else 0) ([] @ ts), u2, k2)" "built ch ts used u2"
    using build_children [OF build_node sub, of "internal_type ty" "[]" "if ty = as_threshold then k else 0" "[]" 0] by blast
  then show ?thesis using ty ne assms(2) by (auto simp: inner_node_def)
qed


lemma collect_leaf_names_ok:
  assumes "as_height n \<le> MAX_DEPTH" "as_size n \<le> MAX_NODES"
  shows "collect_leaf_names n = Inr (set (as_leaves n))"
  using assms collect_loop_ok [of 0 "[(n, 0)]" "{}"] by (simp add: collect_leaf_names_def depth_ok_height del: depth_ok.simps)

lemma leaves_nonempty: "as_shape n \<Longrightarrow> [] \<notin> set (as_leaves n)"
  by (induction n) (auto simp: list_all_iff split: as_type.splits)

lemma to_internal_built:
  assumes ok: "k \<noteq> None" "as_shape a" "as_height a \<le> MAX_DEPTH" "as_size a \<le> MAX_NODES" "as_kind a \<noteq> as_leaf"
    "set (as_leaves a) = set names"
  shows "\<exists>t. to_internal_access_structure a names k =
        bind_res (validate_tree False t {}) (\<lambda>_. Inr \<lparr>root = Some t, curve = k\<rparr>)
      \<and> wf_node t \<and> nname t = [] \<and> (distinct (node_names t) \<longleftrightarrow> distinct (as_leaves a)) \<and> list_leaf_names t = set names
      \<and> (\<forall>A. satisfied A t = as_satisfied A a)"
proof -
  obtain ty nm th ch where a: "a = AS ty nm th ch" by (cases a)
  let ?th = "if ty = as_threshold then th else 0"
  let ?used = "insert [] (set (as_leaves a))"
  let ?t = "\<lambda>ts. Node (internal_type ty) [] ?th ts"
  have ty: "ty \<in> {as_and, as_or, as_threshold}" using ok a by (cases ty) simp_all
  have shape: "as_shape (AS ty nm th ch)" using ok a by simp
  have leaves: "as_leaves a = concat (map as_leaves ch)" using ty a by auto
  have ne: "ty \<noteq> as_leaf" using ty by auto
  obtain ts u2 k2 where b: "build_internal_ac_node a 0 True ?used 0 = Inr (?t ts, u2, k2)" "built ch ts ?used u2"
    using build_root [OF shape ne ok(3,4) [unfolded a] refl] unfolding a by blast
  have bt: "length ts = length ch" "list_all (\<lambda>t. nname t \<noteq> [] \<and> wf_node t) ts" "\<forall>A. map (satisfied A) ts = map (as_satisfied A) ch"
    "set (concat (map node_names ts)) \<subseteq> set (as_leaves a) \<union> (u2 - ?used)"
    "distinct (concat (map node_names ts)) \<longleftrightarrow> distinct (as_leaves a)" "(\<Union>t \<in> set ts. list_leaf_names t) = set (as_leaves a)"
    using b(2) leaves unfolding built_def by simp_all
  have "[] \<notin> set (concat (map node_names ts))" using bt(4) leaves_nonempty [OF ok(2)] by auto
  then have "distinct (node_names (?t ts)) \<longleftrightarrow> distinct (as_leaves a)" using bt(5) by simp
  moreover have "validate_access_structure_node a = success" "collect_leaf_names a = Inr (set (as_leaves a))"
    using ok validate_node_iff collect_leaf_names_ok by blast+
  then have "to_internal_access_structure a names k = bind_res (validate_tree False (?t ts) {}) (\<lambda>_. Inr \<lparr>root = Some (?t ts), curve = k\<rparr>)"
    using ok b(1) by (auto simp: to_internal_access_structure_def ac_validate_tree_def Let_def res_simps simp del: validate_tree.simps)
  moreover have "list_leaf_names (?t ts) = set names" using inner_leaves [OF ty] bt(6) ok(6) by simp
  ultimately show ?thesis
    using internal_wf [OF shape ty bt(1,2), of "[]"] internal_satisfied [OF bt(3) ty, of _ "[]" th nm] a
    by (intro exI [of _ "?t ts"]) (simp del: as_leaves.simps satisfied.simps as_satisfied.simps wf_node.simps list_leaf_names.simps node_names.simps)
qed

lemma to_internal_iff:
  fixes k :: "'p ecurve option"
  shows "(\<exists>ac. to_internal_access_structure a names k = Inr ac) \<longleftrightarrow>
     k \<noteq> None \<and> as_shape a \<and> as_height a \<le> MAX_DEPTH \<and> as_size a \<le> MAX_NODES \<and> as_kind a \<noteq> as_leaf
     \<and> set (as_leaves a) = set names \<and> distinct (as_leaves a)"
    and "to_internal_access_structure a names k = Inr ac \<Longrightarrow> \<exists>t. root ac = Some t \<and> curve ac = k
       \<and> (\<exists>ns. validate_tree False t {} = Inr ns) \<and> list_leaf_names t = set names
       \<and> (\<forall>A. enough_for_quorum A t = Inr (as_satisfied A a))"
proof -
  obtain ty nm th ch where a: "a = AS ty nm th ch" by (cases a)
  let ?ok = "k \<noteq> None \<and> as_shape a \<and> as_height a \<le> MAX_DEPTH \<and> as_size a \<le> MAX_NODES \<and> as_kind a \<noteq> as_leaf
     \<and> set (as_leaves a) = set names"
  let ?th = "if ty = as_threshold then th else 0"
  have none: "\<not> (\<exists>ac. to_internal_access_structure a names k = Inr ac)" if "\<not> ?ok"
  proof (cases "as_shape a \<and> as_height a \<le> MAX_DEPTH \<and> as_size a \<le> MAX_NODES")
    case True
    then show ?thesis using that collect_leaf_names_ok [of a]
      by (auto simp: to_internal_access_structure_def res_simps)
  next
    case False
    then have "validate_access_structure_node a \<noteq> success" unfolding validate_node_iff .
    then show ?thesis by (auto simp: to_internal_access_structure_def res_simps)
  qed
  note some = to_internal_built [of k a names]
  show "(\<exists>ac. to_internal_access_structure a names k = Inr ac) \<longleftrightarrow> k \<noteq> None \<and> as_shape a \<and> as_height a \<le> MAX_DEPTH
     \<and> as_size a \<le> MAX_NODES \<and> as_kind a \<noteq> as_leaf \<and> set (as_leaves a) = set names \<and> distinct (as_leaves a)"
  proof (cases ?ok)
    case True
    then obtain t where t: "to_internal_access_structure a names k = bind_res (validate_tree False t {}) (\<lambda>_. Inr \<lparr>root = Some t, curve = k\<rparr>)"
        "wf_node t" "nname t = []" "distinct (node_names t) \<longleftrightarrow> distinct (as_leaves a)"
      using some by blast
    have "(\<exists>ac. to_internal_access_structure a names k = Inr ac) \<longleftrightarrow> (\<exists>ns. validate_tree False t {} = Inr ns)"
      unfolding t(1) by (auto simp: bind_res_eq_Inr)
    also have "\<dots> \<longleftrightarrow> distinct (as_leaves a)" using t(2-4) by (simp add: validate_tree_iff)
    finally show ?thesis using True by simp
  qed (use none in blast)
  assume ac: "to_internal_access_structure a names k = Inr ac"
  then have ?ok using none by blast
  then obtain t where t: "to_internal_access_structure a names k = bind_res (validate_tree False t {}) (\<lambda>_. Inr \<lparr>root = Some t, curve = k\<rparr>)"
      "wf_node t" "list_leaf_names t = set names" "\<forall>A. satisfied A t = as_satisfied A a"
    using some by blast
  obtain ns where "validate_tree False t {} = Inr ns" "ac = \<lparr>root = Some t, curve = k\<rparr>"
    using ac unfolding t(1) by (auto simp: bind_res_eq_Inr)
  then show "\<exists>t. root ac = Some t \<and> curve ac = k \<and> (\<exists>ns. validate_tree False t {} = Inr ns) \<and> list_leaf_names t = set names
       \<and> (\<forall>A. enough_for_quorum A t = Inr (as_satisfied A a))"
    using t(2-4) by (simp add: enough_for_quorum_satisfied)
qed

end
