(* ===== verification/Access_C.thy ===== *)
theory Access_C
  imports Access_Api
begin

text \<open>
  Access structures of the C interface: the flat arrays of \<^verbatim>\<open>c_api/access_structure.h\<close> and their translation in
  \<^verbatim>\<open>src/cbmpc/c_api/access_structure_adapter.h\<close>. A pointer is an option, an array the list of its elements, an access beyond
  that list the fault \<^verbatim>\<open>Out_Of_Bounds\<close>, a NUL-terminated string the list of its characters.
\<close>

section \<open>The flat representation\<close>

datatype c_node_type = C_LEAF | C_AND | C_OR | C_THRESHOLD | C_INVALID

record c_node =
  c_type :: c_node_type
  c_leaf_name :: "string option"
  c_threshold_k :: int
  c_offset :: int
  c_count :: int

record c_access_structure =
  c_nodes :: "c_node list option"
  nodes_count :: int
  child_indices :: "int list option"
  child_indices_count :: int
  root_index :: int

datatype visit = Unvisited | Visiting | Done

definition array_at :: "'a list option \<Rightarrow> int \<Rightarrow> 'a res" where
  "array_at a i = (case a of None \<Rightarrow> Inl Out_Of_Bounds
     | Some xs \<Rightarrow> if 0 \<le> i \<and> i < int (length xs) then Inr (xs ! nat i) else Inl Out_Of_Bounds)"

section \<open>Translation\<close>

fun c_names_loop :: "string option list \<Rightarrow> int \<Rightarrow> nat \<Rightarrow> string list res" where
  "c_names_loop names i 0 = Inr []"
| "c_names_loop names i (Suc k) =
     bind_res (array_at (Some names) i) (\<lambda>s.
       case s of None \<Rightarrow> error E_BADARG
       | Some s \<Rightarrow> if s = [] then error E_BADARG
                   else bind_res (c_names_loop names (i + 1) k) (\<lambda>out. Inr (s # out)))"

definition to_cpp_quorum_party_names :: "string option list option \<Rightarrow> int \<Rightarrow> string list res" where
  "to_cpp_quorum_party_names names names_count =
     (if names_count < 0 then error E_BADARG
      else if names_count = 0 then Inr []
      else case names of None \<Rightarrow> error E_BADARG | Some names \<Rightarrow> c_names_loop names 0 (nat names_count))"

text \<open>The switch on the node type: the node without its children.\<close>

definition c_node_head :: "c_node \<Rightarrow> bool \<Rightarrow> access_structure res" where
  "c_node_head n is_root = (case c_type n of
       C_LEAF \<Rightarrow> if is_root then error E_BADARG
                  else case c_leaf_name n of None \<Rightarrow> error E_BADARG
                  | Some nm \<Rightarrow> if nm = [] then error E_BADARG
                      else if c_threshold_k n \<noteq> 0 then error E_BADARG
                      else if c_count n \<noteq> 0 then error E_BADARG else Inr (AS as_leaf nm 0 [])
     | C_INVALID \<Rightarrow> error E_BADARG
     | _ \<Rightarrow> if c_leaf_name n \<noteq> None then error E_BADARG
            else if c_count n \<le> 0 then error E_BADARG
            else if c_type n = C_AND then (if c_threshold_k n \<noteq> 0 then error E_BADARG else Inr (AS as_and [] 0 []))
            else if c_type n = C_OR then (if c_threshold_k n \<noteq> 0 then error E_BADARG else Inr (AS as_or [] 0 []))
            else if c_threshold_k n < 1 then error E_BADARG
            else if c_count n < c_threshold_k n then error E_BADARG
            else Inr (AS as_threshold [] (c_threshold_k n) []))"

definition with_children :: "access_structure \<Rightarrow> access_structure list \<Rightarrow> access_structure" where
  "with_children h ch = AS (as_kind h) (leaf_name h) (threshold_k h) ch"

function c_build ::
  "c_access_structure \<Rightarrow> int \<Rightarrow> nat \<Rightarrow> bool \<Rightarrow> visit list \<Rightarrow> (access_structure \<times> visit list) res" where
  "c_build inp idx depth is_root state =
     (if MAX_DEPTH < depth then error E_RANGE
      else if idx < 0 \<or> nodes_count inp \<le> idx then error E_BADARG
      else if state ! nat idx = Visiting then error E_BADARG
      else if state ! nat idx = Done then error E_BADARG
      else bind_res (array_at (c_nodes inp) idx) (\<lambda>n.
        if c_offset n < 0 \<or> c_count n < 0 then error E_BADARG
        else if 0 < c_count n \<and> child_indices_count inp - c_count n < c_offset n then error E_BADARG
        else bind_res (c_node_head n is_root) (\<lambda>node.
          bind_res (fold_res (\<lambda>i (ch, st).
              bind_res (array_at (child_indices inp) (c_offset n + int i)) (\<lambda>child_idx.
              bind_res (c_build inp child_idx (depth + 1) False st) (\<lambda>(c, st). Inr (ch @ [c], st))))
            [0..<nat (c_count n)] ([], state[nat idx := Visiting])) (\<lambda>(ch, st).
          Inr (with_children node ch, st[nat idx := Done])))))"
  by pat_completeness auto
termination
  by (relation "measure (\<lambda>(inp, idx, depth, is_root, state). Suc MAX_DEPTH - depth)") auto

declare c_build.simps [simp del]

definition to_cpp_access_structure :: "c_access_structure option \<Rightarrow> access_structure res" where
  "to_cpp_access_structure p = (case p of None \<Rightarrow> error E_BADARG | Some inp \<Rightarrow>
     if nodes_count inp < 0 \<or> child_indices_count inp < 0 then error E_BADARG
     else if nodes_count inp = 0 then error E_BADARG
     else if int MAX_NODES < nodes_count inp then error E_RANGE
     else if c_nodes inp = None then error E_BADARG
     else if 0 < child_indices_count inp \<and> child_indices inp = None then error E_BADARG
     else if root_index inp < 0 \<or> nodes_count inp \<le> root_index inp then error E_BADARG
     else bind_res (c_build inp (root_index inp) 0 True (replicate (nat (nodes_count inp)) Unvisited)) (\<lambda>(out, state).
       if list_ex (\<lambda>s. s \<noteq> Done) state then error E_BADARG else Inr out))"

text \<open>The quorum names are exactly the strings of the array, none of them empty.\<close>

lemma c_names_loop_iff:
  "c_names_loop names i k = Inr out \<longleftrightarrow> length out = k \<and> (\<forall>j < k. array_at (Some names) (i + int j) = Inr (Some (out ! j)) \<and> out ! j \<noteq> [])"
proof (induction k arbitrary: i out)
  case (Suc k)
  have "c_names_loop names i (Suc k) = Inr out \<longleftrightarrow> (\<exists>s out'. out = s # out' \<and> array_at (Some names) i = Inr (Some s) \<and> s \<noteq> []
      \<and> c_names_loop names (i + 1) k = Inr out')"
    by (auto simp: res_simps split: option.splits if_splits)
  also have "\<dots> \<longleftrightarrow> length out = Suc k \<and> (\<forall>j < Suc k. array_at (Some names) (i + int j) = Inr (Some (out ! j)) \<and> out ! j \<noteq> [])"
    unfolding Suc.IH by (cases out) (auto simp: less_Suc_eq_0_disj algebra_simps)
  finally show ?case .
qed auto

section \<open>What the arrays denote\<close>

text \<open>
  \<open>c_tree inp is_root idx t vs\<close>: the node at \<open>idx\<close> denotes the tree \<open>t\<close> and the nodes \<open>vs\<close> are visited on the way, with repetitions. There is one
  rule for each type of node, after the description in \<^verbatim>\<open>c_api/access_structure.h\<close>.
\<close>

definition c_entry :: "c_access_structure \<Rightarrow> int \<Rightarrow> c_node \<Rightarrow> bool" where
  "c_entry inp idx n \<longleftrightarrow> 0 \<le> idx \<and> idx < nodes_count inp \<and> array_at (c_nodes inp) idx = Inr n
     \<and> 0 \<le> c_offset n \<and> 0 \<le> c_count n \<and> (0 < c_count n \<longrightarrow> c_offset n + c_count n \<le> child_indices_count inp)"

inductive c_tree :: "c_access_structure \<Rightarrow> bool \<Rightarrow> int \<Rightarrow> access_structure \<Rightarrow> int list \<Rightarrow> bool" for inp where
  c_leaf: "c_entry inp idx n \<Longrightarrow> c_type n = C_LEAF \<Longrightarrow> c_leaf_name n = Some nm \<Longrightarrow> nm \<noteq> [] \<Longrightarrow> c_threshold_k n = 0 \<Longrightarrow> c_count n = 0 \<Longrightarrow>
    c_tree inp False idx (AS as_leaf nm 0 []) [idx]"
| c_and: "c_entry inp idx n \<Longrightarrow> c_type n = C_AND \<Longrightarrow> c_leaf_name n = None \<Longrightarrow> c_threshold_k n = 0 \<Longrightarrow> 0 < c_count n \<Longrightarrow>
    length ch = nat (c_count n) \<Longrightarrow> length vss = length ch \<Longrightarrow>
    (\<forall>i < length ch. \<exists>ci. array_at (child_indices inp) (c_offset n + int i) = Inr ci \<and> c_tree inp False ci (ch ! i) (vss ! i)) \<Longrightarrow>
    c_tree inp is_root idx (AS as_and [] 0 ch) (idx # concat vss)"
| c_or: "c_entry inp idx n \<Longrightarrow> c_type n = C_OR \<Longrightarrow> c_leaf_name n = None \<Longrightarrow> c_threshold_k n = 0 \<Longrightarrow> 0 < c_count n \<Longrightarrow>
    length ch = nat (c_count n) \<Longrightarrow> length vss = length ch \<Longrightarrow>
    (\<forall>i < length ch. \<exists>ci. array_at (child_indices inp) (c_offset n + int i) = Inr ci \<and> c_tree inp False ci (ch ! i) (vss ! i)) \<Longrightarrow>
    c_tree inp is_root idx (AS as_or [] 0 ch) (idx # concat vss)"
| c_threshold: "c_entry inp idx n \<Longrightarrow> c_type n = C_THRESHOLD \<Longrightarrow> c_leaf_name n = None \<Longrightarrow> 1 \<le> c_threshold_k n \<Longrightarrow> c_threshold_k n \<le> c_count n \<Longrightarrow>
    length ch = nat (c_count n) \<Longrightarrow> length vss = length ch \<Longrightarrow>
    (\<forall>i < length ch. \<exists>ci. array_at (child_indices inp) (c_offset n + int i) = Inr ci \<and> c_tree inp False ci (ch ! i) (vss ! i)) \<Longrightarrow>
    c_tree inp is_root idx (AS as_threshold [] (c_threshold_k n) ch) (idx # concat vss)"

text \<open>The same traversal in terms of the switch of the code, which the proofs follow.\<close>

definition c_node_ok :: "c_access_structure \<Rightarrow> int \<Rightarrow> bool \<Rightarrow> c_node \<Rightarrow> access_structure \<Rightarrow> bool" where
  "c_node_ok inp idx is_root n node \<longleftrightarrow> 0 \<le> idx \<and> idx < nodes_count inp \<and> array_at (c_nodes inp) idx = Inr n
     \<and> 0 \<le> c_offset n \<and> 0 \<le> c_count n \<and> (0 < c_count n \<longrightarrow> c_offset n + c_count n \<le> child_indices_count inp)
     \<and> c_node_head n is_root = Inr node"

inductive c_repr :: "c_access_structure \<Rightarrow> bool \<Rightarrow> int \<Rightarrow> access_structure \<Rightarrow> int list \<Rightarrow> bool" for inp where
  c_reprI: "c_node_ok inp idx is_root n node \<Longrightarrow> length ch = nat (c_count n) \<Longrightarrow> length vss = length ch \<Longrightarrow>
    (\<forall>i < length ch. \<exists>ci. array_at (child_indices inp) (c_offset n + int i) = Inr ci \<and> c_repr inp False ci (ch ! i) (vss ! i)) \<Longrightarrow>
    c_repr inp is_root idx (with_children node ch) (idx # concat vss)"

definition mark :: "int list \<Rightarrow> visit list \<Rightarrow> visit list" where
  "mark vs st = map (\<lambda>(i, s). if int i \<in> set vs then Done else s) (enumerate 0 st)"

definition free_in :: "c_access_structure \<Rightarrow> visit list \<Rightarrow> int list \<Rightarrow> bool" where
  "free_in inp st vs \<longleftrightarrow> distinct vs \<and> (\<forall>v \<in> set vs. 0 \<le> v \<and> v < nodes_count inp \<and> st ! nat v = Unvisited)"

lemma mark_length [simp]: "length (mark vs st) = length st" by (simp add: mark_def)

lemma mark_nth [simp]: "i < length st \<Longrightarrow> mark vs st ! i = (if int i \<in> set vs then Done else st ! i)"
  by (simp add: mark_def nth_enumerate_eq)

lemma mark_Nil [simp]: "mark [] st = st" by (rule nth_equalityI) simp_all

lemma mark_mark: "mark ws (mark vs st) = mark (vs @ ws) st" by (rule nth_equalityI) simp_all

lemma mark_visiting:
  assumes "0 \<le> idx" "nat idx < length st"
  shows "(mark vs (st[nat idx := Visiting]))[nat idx := Done] = mark (idx # vs) st"
  using assms by (intro nth_equalityI) (auto simp: nth_list_update)

lemma mark_at: "length st = nat m \<Longrightarrow> 0 \<le> v \<Longrightarrow> v < m \<Longrightarrow> mark vs st ! nat v = (if v \<in> set vs then Done else st ! nat v)"
  by simp

lemma update_at:
  "length st = nat m \<Longrightarrow> 0 \<le> v \<Longrightarrow> 0 \<le> idx \<Longrightarrow> idx < m \<Longrightarrow> st[nat idx := x] ! nat v = (if v = idx then x else st ! nat v)"
  by (auto simp: nth_list_update nat_eq_iff)

lemma free_append:
  assumes "length st = nat (nodes_count inp)"
  shows "free_in inp st (vs @ ws) \<longleftrightarrow> free_in inp st vs \<and> free_in inp (mark vs st) ws"
  using mark_at [OF assms, of _ vs] by (auto simp: free_in_def split: if_splits)

lemma free_visiting:
  assumes "length st = nat (nodes_count inp)" "0 \<le> idx" "idx < nodes_count inp" "st ! nat idx = Unvisited"
  shows "free_in inp (st[nat idx := Visiting]) vs \<longleftrightarrow> free_in inp st (idx # vs)"
  using update_at [OF assms(1) _ assms(2,3), of _ Visiting] assms(2-4) by (auto simp: free_in_def split: if_splits)

definition c_build_spec :: "c_access_structure \<Rightarrow> nat \<Rightarrow> bool \<Rightarrow> int \<Rightarrow> bool" where
  "c_build_spec inp depth is_root idx \<longleftrightarrow> (\<forall>st t st'. length st = nat (nodes_count inp) \<longrightarrow>
     (c_build inp idx depth is_root st = Inr (t, st') \<longleftrightarrow>
       (\<exists>vs. c_repr inp is_root idx t vs \<and> free_in inp st vs \<and> st' = mark vs st \<and> depth + as_height t \<le> MAX_DEPTH)))"

definition c_children :: "c_access_structure \<Rightarrow> int \<Rightarrow> nat \<Rightarrow> nat list \<Rightarrow> access_structure list \<times> visit list \<Rightarrow> (access_structure list \<times> visit list) res" where
  "c_children inp off depth = fold_res (\<lambda>i (ch, st).
     bind_res (array_at (child_indices inp) (off + int i)) (\<lambda>child_idx.
     bind_res (c_build inp child_idx depth False st) (\<lambda>(c, st). Inr (ch @ [c], st))))"

lemma c_children_iff:
  assumes "\<forall>i \<in> set is. \<forall>ci. array_at (child_indices inp) (off + int i) = Inr ci \<longrightarrow> c_build_spec inp depth False ci"
    and "length st = nat (nodes_count inp)"
  shows "c_children inp off depth is (acc, st) = Inr (ch', st') \<longleftrightarrow>
     (\<exists>ch vss. ch' = acc @ ch \<and> length ch = length is \<and> length vss = length ch
       \<and> (\<forall>j < length ch. \<exists>ci. array_at (child_indices inp) (off + int (is ! j)) = Inr ci \<and> c_repr inp False ci (ch ! j) (vss ! j))
       \<and> free_in inp st (concat vss) \<and> st' = mark (concat vss) st \<and> (\<forall>c \<in> set ch. depth + as_height c \<le> MAX_DEPTH))"
  using assms
proof (induction "is" arbitrary: acc st)
  case Nil
  then show ?case by (auto simp: c_children_def free_in_def)
next
  case (Cons i "is")
  have step: "c_build inp ci depth False st = Inr (c, st') \<longleftrightarrow>
        (\<exists>vs. c_repr inp False ci c vs \<and> free_in inp st vs \<and> st' = mark vs st \<and> depth + as_height c \<le> MAX_DEPTH)"
    if "array_at (child_indices inp) (off + int i) = Inr ci" for ci c st'
    using Cons.prems that unfolding c_build_spec_def by simp
  have rest: "\<forall>i \<in> set is. \<forall>ci. array_at (child_indices inp) (off + int i) = Inr ci \<longrightarrow> c_build_spec inp depth False ci"
    using Cons.prems(1) by simp
  show ?case (is "?l = ?r")
  proof
    assume ?l
    then obtain ci c st1 where 1: "array_at (child_indices inp) (off + int i) = Inr ci" "c_build inp ci depth False st = Inr (c, st1)"
        "c_children inp off depth is (acc @ [c], st1) = Inr (ch', st')"
      by (auto simp: c_children_def res_simps)
    then obtain vs where vs: "c_repr inp False ci c vs" "free_in inp st vs" "st1 = mark vs st" "depth + as_height c \<le> MAX_DEPTH"
      using step by blast
    have len: "length st1 = nat (nodes_count inp)" using vs Cons.prems(2) by simp
    obtain ch vss where 2: "ch' = (acc @ [c]) @ ch" "length ch = length is" "length vss = length ch"
        "\<forall>j < length ch. \<exists>ci. array_at (child_indices inp) (off + int (is ! j)) = Inr ci \<and> c_repr inp False ci (ch ! j) (vss ! j)"
        "free_in inp st1 (concat vss)" "st' = mark (concat vss) st1" "\<forall>c \<in> set ch. depth + as_height c \<le> MAX_DEPTH"
      using Cons.IH [OF rest len, of "acc @ [c]"] 1(3) by blast
    show ?r
      using 1 2 vs free_append [OF Cons.prems(2), of vs "concat vss"] mark_mark
      by (intro exI [of _ "c # ch"] exI [of _ "vs # vss"]) (auto simp: nth_Cons split: nat.splits)
  next
    assume ?r
    then obtain ch0 vss0 where 0: "ch' = acc @ ch0" "length ch0 = Suc (length is)" "length vss0 = length ch0"
        "\<forall>j < length ch0. \<exists>ci. array_at (child_indices inp) (off + int ((i # is) ! j)) = Inr ci \<and> c_repr inp False ci (ch0 ! j) (vss0 ! j)"
        "free_in inp st (concat vss0)" "st' = mark (concat vss0) st" "\<forall>c \<in> set ch0. depth + as_height c \<le> MAX_DEPTH"
      by auto
    obtain c ch vs vss where c: "ch0 = c # ch" "vss0 = vs # vss" using 0(2,3) by (metis Suc_length_conv)
    obtain ci where ci: "array_at (child_indices inp) (off + int i) = Inr ci" "c_repr inp False ci c vs" using 0(4) c by force
    have free: "free_in inp st vs" "free_in inp (mark vs st) (concat vss)" using 0(5) c free_append [OF Cons.prems(2)] by auto
    then have "c_build inp ci depth False st = Inr (c, mark vs st)" using step [OF ci(1)] ci(2) 0(7) c by auto
    moreover have "c_children inp off depth is (acc @ [c], mark vs st) = Inr (ch', st')"
      using Cons.prems(2) 0 c free mark_mark
      by (subst Cons.IH [OF rest]) (auto intro!: exI [of _ ch] exI [of _ vss])
    ultimately show ?l using ci(1) by (simp add: c_children_def)
  qed
qed

lemma c_build_step:
  "c_build inp idx depth is_root st = Inr (t, st') \<longleftrightarrow> depth \<le> MAX_DEPTH \<and> st ! nat idx = Unvisited \<and>
     (\<exists>n node ch st1. c_node_ok inp idx is_root n node
       \<and> c_children inp (c_offset n) (depth + 1) [0..<nat (c_count n)] ([], st[nat idx := Visiting]) = Inr (ch, st1)
       \<and> t = with_children node ch \<and> st' = st1[nat idx := Done])"
  by (subst c_build.simps, cases "st ! nat idx")
     (auto simp: c_node_ok_def res_simps c_children_def [symmetric] not_less not_le diff_less_eq algebra_simps split: if_splits)

lemma c_build_children:
  assumes "\<And>ci. c_build_spec inp (depth + 1) False ci" "length st = nat (nodes_count inp)" "depth \<le> MAX_DEPTH"
  shows "c_build inp idx depth is_root st = Inr (t, st') \<longleftrightarrow> st ! nat idx = Unvisited \<and>
     (\<exists>n node ch vss. c_node_ok inp idx is_root n node \<and> length ch = nat (c_count n) \<and> length vss = length ch
       \<and> (\<forall>j < length ch. \<exists>ci. array_at (child_indices inp) (c_offset n + int j) = Inr ci \<and> c_repr inp False ci (ch ! j) (vss ! j))
       \<and> free_in inp (st[nat idx := Visiting]) (concat vss) \<and> (\<forall>c \<in> set ch. Suc depth + as_height c \<le> MAX_DEPTH)
       \<and> t = with_children node ch \<and> st' = (mark (concat vss) (st[nat idx := Visiting]))[nat idx := Done])"
proof -
  let ?st = "st[nat idx := Visiting]"
  have "c_children inp (c_offset n) (depth + 1) [0..<nat (c_count n)] ([], ?st) = Inr (ch, st1) \<longleftrightarrow>
     (\<exists>vss. length ch = nat (c_count n) \<and> length vss = length ch
     \<and> (\<forall>j < length ch. \<exists>ci. array_at (child_indices inp) (c_offset n + int j) = Inr ci \<and> c_repr inp False ci (ch ! j) (vss ! j))
     \<and> free_in inp ?st (concat vss) \<and> st1 = mark (concat vss) ?st \<and> (\<forall>c \<in> set ch. Suc depth + as_height c \<le> MAX_DEPTH))" for n ch st1
    using c_children_iff [of "[0..<nat (c_count n)]" inp "c_offset n" "depth + 1" ?st "[]"] assms by auto
  note step = c_build_step [of inp idx depth is_root st t st', unfolded this]
  show ?thesis unfolding step using assms(3) by blast
qed

lemma c_build_node:
  assumes "\<And>ci. c_build_spec inp (depth + 1) False ci" "depth \<le> MAX_DEPTH"
  shows "c_build_spec inp depth is_root idx"
  unfolding c_build_spec_def
proof (intro allI impI)
  fix st st' :: "visit list" and t assume len: "length st = nat (nodes_count inp)"
  have marked: "(mark vs (st[nat idx := Visiting]))[nat idx := Done] = mark (idx # vs) st"
      "st ! nat idx = Unvisited \<Longrightarrow> free_in inp (st[nat idx := Visiting]) vs = free_in inp st (idx # vs)"
    if "c_node_ok inp idx is_root n node" for n node vs
    using that len mark_visiting [of idx st vs] free_visiting [OF len, of idx] by (simp_all add: c_node_ok_def)
  have head: "free_in inp st (idx # vs) \<Longrightarrow> st ! nat idx = Unvisited" for vs by (simp add: free_in_def)
  have height: "depth + as_height (with_children node ch) \<le> MAX_DEPTH \<longleftrightarrow> (\<forall>c \<in> set ch. Suc depth + as_height c \<le> MAX_DEPTH)" for node ch
    using assms(2) by (simp add: with_children_def height_bound del: as_height.simps)
  show "c_build inp idx depth is_root st = Inr (t, st') \<longleftrightarrow>
      (\<exists>vs. c_repr inp is_root idx t vs \<and> free_in inp st vs \<and> st' = mark vs st \<and> depth + as_height t \<le> MAX_DEPTH)" (is "_ \<longleftrightarrow> ?r")
    unfolding c_build_children [OF assms(1) len assms(2)]
  proof (intro iffI; elim conjE exE)
    fix n node ch vss
    assume a: "st ! nat idx = Unvisited" "c_node_ok inp idx is_root n node" "length ch = nat (c_count n)" "length vss = length ch"
      "\<forall>j < length ch. \<exists>ci. array_at (child_indices inp) (c_offset n + int j) = Inr ci \<and> c_repr inp False ci (ch ! j) (vss ! j)"
      "free_in inp (st[nat idx := Visiting]) (concat vss)" "\<forall>c \<in> set ch. Suc depth + as_height c \<le> MAX_DEPTH"
      "t = with_children node ch" "st' = (mark (concat vss) (st[nat idx := Visiting]))[nat idx := Done]"
    show ?r using c_reprI [OF a(2,3,4,5)] a(1,6-9) marked [OF a(2)] height by (intro exI [of _ "idx # concat vss"]) simp
  next
    fix vs assume r: "c_repr inp is_root idx t vs" "free_in inp st vs" "st' = mark vs st" "depth + as_height t \<le> MAX_DEPTH"
    from r(1) show "st ! nat idx = Unvisited \<and> (\<exists>n node ch vss. c_node_ok inp idx is_root n node \<and> length ch = nat (c_count n) \<and> length vss = length ch
       \<and> (\<forall>j < length ch. \<exists>ci. array_at (child_indices inp) (c_offset n + int j) = Inr ci \<and> c_repr inp False ci (ch ! j) (vss ! j))
       \<and> free_in inp (st[nat idx := Visiting]) (concat vss) \<and> (\<forall>c \<in> set ch. Suc depth + as_height c \<le> MAX_DEPTH)
       \<and> t = with_children node ch \<and> st' = (mark (concat vss) (st[nat idx := Visiting]))[nat idx := Done])"
    proof (cases rule: c_repr.cases)
      case (c_reprI n node ch vss)
      then have u: "st ! nat idx = Unvisited" using r(2) head by blast
      show ?thesis using c_reprI r(2-4) u marked [OF c_reprI(3)] height
        by (intro conjI exI [of _ n] exI [of _ node] exI [of _ ch] exI [of _ vss]) simp_all
    qed
  qed
qed

lemma c_build_correct: "c_build_spec inp depth is_root idx"
proof (induction "Suc MAX_DEPTH - depth" arbitrary: depth is_root idx)
  case 0
  then show ?case by (auto simp: c_build_spec_def c_build_step)
next
  case (Suc k)
  have "c_build_spec inp (depth + 1) False ci" for ci using Suc.hyps(1) [of "depth + 1" False ci] Suc.hyps(2) by simp
  then show ?case using Suc.hyps(2) by (intro c_build_node [of inp depth]) simp_all
qed

text \<open>A denoted tree passes the validation of the public interface, and has one node for each visit.\<close>

lemma c_repr_shape: "c_repr inp is_root idx t vs \<Longrightarrow> as_shape t \<and> as_size t = length vs \<and> (is_root \<longrightarrow> as_kind t \<noteq> as_leaf)"
proof (induction rule: c_repr.induct)
  case (c_reprI idx is_root n node ch vss)
  have ch: "as_shape (ch ! i)" "as_size (ch ! i) = length (vss ! i)" if "i < length ch" for i using c_reprI(4) that by blast+
  have "map as_size ch = map length vss" using c_reprI(3) ch by (intro nth_equalityI) auto
  moreover have "list_all as_shape ch" using ch by (simp add: list_all_length)
  moreover have "int (length ch) = c_count n" using c_reprI(1,2) by (simp add: c_node_ok_def)
  ultimately show ?case using c_reprI(1)
    by (auto simp: c_node_ok_def c_node_head_def with_children_def length_concat split: c_node_type.splits if_splits option.splits)
qed

lemma c_repr_tree: "c_repr inp is_root idx t vs \<Longrightarrow> c_tree inp is_root idx t vs"
proof (induction rule: c_repr.induct)
  case (c_reprI idx is_root n node ch vss)
  have e: "c_entry inp idx n" using c_reprI(1) by (simp add: c_node_ok_def c_entry_def)
  have ch: "\<forall>i < length ch. \<exists>ci. array_at (child_indices inp) (c_offset n + int i) = Inr ci \<and> c_tree inp False ci (ch ! i) (vss ! i)"
    using c_reprI(4) by blast
  note sizes = c_reprI(2,3)
  have head: "c_node_head n is_root = Inr node" using c_reprI(1) by (simp add: c_node_ok_def)
  show ?case
  proof (cases "c_type n")
    case C_LEAF
    then show ?thesis using head e sizes
      by (auto simp: c_node_head_def with_children_def intro!: c_tree.intros split: option.splits if_splits)
  qed (use head in \<open>auto simp: c_node_head_def with_children_def intro!: c_and [OF e _ _ _ _ sizes ch] c_or [OF e _ _ _ _ sizes ch]
      c_threshold [OF e _ _ _ _ sizes ch] split: if_splits\<close>)
qed

lemma c_tree_repr: "c_tree inp is_root idx t vs \<Longrightarrow> c_repr inp is_root idx t vs"
proof (induction rule: c_tree.induct)
  case (c_leaf idx n nm)
  then have "c_node_ok inp idx False n (AS as_leaf nm 0 [])" by (simp add: c_node_ok_def c_entry_def c_node_head_def)
  from c_reprI [OF this, of "[]" "[]"] c_leaf show ?case by (simp add: with_children_def)
next
  case (c_and idx n ch vss is_root)
  then have "c_node_ok inp idx is_root n (AS as_and [] 0 [])" by (simp add: c_node_ok_def c_entry_def c_node_head_def)
  moreover have "\<forall>i < length ch. \<exists>ci. array_at (child_indices inp) (c_offset n + int i) = Inr ci \<and> c_repr inp False ci (ch ! i) (vss ! i)"
    using c_and(8) by blast
  ultimately show ?case using c_reprI [OF _ c_and(6,7)] by (fastforce simp: with_children_def)
next
  case (c_or idx n ch vss is_root)
  then have "c_node_ok inp idx is_root n (AS as_or [] 0 [])" by (simp add: c_node_ok_def c_entry_def c_node_head_def)
  moreover have "\<forall>i < length ch. \<exists>ci. array_at (child_indices inp) (c_offset n + int i) = Inr ci \<and> c_repr inp False ci (ch ! i) (vss ! i)"
    using c_or(8) by blast
  ultimately show ?case using c_reprI [OF _ c_or(6,7)] by (fastforce simp: with_children_def)
next
  case (c_threshold idx n ch vss is_root)
  then have "c_node_ok inp idx is_root n (AS as_threshold [] (c_threshold_k n) [])" by (simp add: c_node_ok_def c_entry_def c_node_head_def)
  moreover have "\<forall>i < length ch. \<exists>ci. array_at (child_indices inp) (c_offset n + int i) = Inr ci \<and> c_repr inp False ci (ch ! i) (vss ! i)"
    using c_threshold(8) by blast
  ultimately show ?case using c_reprI [OF _ c_threshold(6,7)] by (fastforce simp: with_children_def)
qed

lemma c_repr_iff: "c_repr inp is_root idx t vs \<longleftrightarrow> c_tree inp is_root idx t vs"
  using c_repr_tree c_tree_repr by blast

definition c_header_ok :: "c_access_structure \<Rightarrow> bool" where
  "c_header_ok inp \<longleftrightarrow> 0 < nodes_count inp \<and> nodes_count inp \<le> int MAX_NODES \<and> 0 \<le> child_indices_count inp
     \<and> c_nodes inp \<noteq> None \<and> (0 < child_indices_count inp \<longrightarrow> child_indices inp \<noteq> None)"

lemma mark_all: "list_ex (\<lambda>s. s \<noteq> Done) (mark vs (replicate n Unvisited)) \<longleftrightarrow> \<not> int ` {..<n} \<subseteq> set vs"
  by (auto simp: list_ex_length)

lemma free_initial:
  assumes "0 < nodes_count inp"
  shows "free_in inp (replicate (nat (nodes_count inp)) Unvisited) vs \<and> int ` {..<nat (nodes_count inp)} \<subseteq> set vs
    \<longleftrightarrow> distinct vs \<and> set vs = {0..<nodes_count inp}"
proof -
  have "int ` {..<nat (nodes_count inp)} = {0..<nodes_count inp}"
    using assms image_int_atLeastLessThan [of 0 "nat (nodes_count inp)"] by (simp add: lessThan_atLeast0)
  then show ?thesis by (auto simp: free_in_def)
qed

lemma to_cpp_repr:
  "to_cpp_access_structure (Some inp) = Inr t \<longleftrightarrow> c_header_ok inp \<and>
     (\<exists>vs. c_repr inp True (root_index inp) t vs \<and> distinct vs \<and> set vs = {0..<nodes_count inp} \<and> as_height t \<le> MAX_DEPTH)"
proof (cases "c_header_ok inp \<and> 0 \<le> root_index inp \<and> root_index inp < nodes_count inp")
  case True
  let ?st = "replicate (nat (nodes_count inp)) Unvisited"
  have "to_cpp_access_structure (Some inp) = Inr t \<longleftrightarrow>
      (\<exists>st'. c_build inp (root_index inp) 0 True ?st = Inr (t, st') \<and> \<not> list_ex (\<lambda>s. s \<noteq> Done) st')"
    using True by (auto simp: to_cpp_access_structure_def c_header_ok_def res_simps)
  also have "\<dots> \<longleftrightarrow> (\<exists>vs. c_repr inp True (root_index inp) t vs \<and> free_in inp ?st vs \<and> int ` {..<nat (nodes_count inp)} \<subseteq> set vs \<and> as_height t \<le> MAX_DEPTH)"
    using c_build_correct [of inp 0 True "root_index inp"] unfolding c_build_spec_def by (auto simp: mark_all)
  finally show ?thesis using True free_initial [of inp] by (auto simp: c_header_ok_def)
next
  case False
  moreover have "0 \<le> root_index inp \<and> root_index inp < nodes_count inp" if "c_repr inp True (root_index inp) t vs" for vs
    using that by (cases rule: c_repr.cases) (simp add: c_node_ok_def)
  moreover have "to_cpp_access_structure (Some inp) \<noteq> Inr t" using False
    by (auto simp: to_cpp_access_structure_def c_header_ok_def res_simps)
  ultimately show ?thesis by blast
qed

lemma to_cpp_iff:
  "to_cpp_access_structure (Some inp) = Inr t \<longleftrightarrow> c_header_ok inp \<and>
     (\<exists>vs. c_tree inp True (root_index inp) t vs \<and> distinct vs \<and> set vs = {0..<nodes_count inp} \<and> as_height t \<le> MAX_DEPTH)"
  unfolding to_cpp_repr c_repr_iff ..

lemma to_cpp_valid:
  assumes "to_cpp_access_structure p = Inr t"
  shows "validate_access_structure_node t = success" "as_kind t \<noteq> as_leaf" "\<exists>inp. p = Some inp \<and> int (as_size t) = nodes_count inp"
proof -
  obtain inp where p: "p = Some inp" using assms by (cases p) (simp_all add: to_cpp_access_structure_def)
  obtain vs where vs: "c_header_ok inp" "c_repr inp True (root_index inp) t vs" "distinct vs" "set vs = {0..<nodes_count inp}" "as_height t \<le> MAX_DEPTH"
    using assms unfolding p to_cpp_repr by blast
  have "int (length vs) = nodes_count inp" using distinct_card [OF vs(3)] vs(1,4) by (auto simp: c_header_ok_def nat_eq_iff)
  then show "validate_access_structure_node t = success" "as_kind t \<noteq> as_leaf" "\<exists>inp. p = Some inp \<and> int (as_size t) = nodes_count inp"
    using c_repr_shape [OF vs(2)] vs(1,5) p by (auto simp: validate_node_iff c_header_ok_def)
qed

end
