(* ===== verification/Jobs.thy ===== *)
theory Jobs
  imports Access_Api
begin

unbundle bit_operations_syntax

text \<open>
  Jobs and party sets: the bit set \<^verbatim>\<open>party_set_t\<close> of \<^verbatim>\<open>protocol/mpc_job.h\<close>, the validation of the public jobs
  in \<^verbatim>\<open>api/job_util.h\<close> and the translation of quorum names in \<^verbatim>\<open>api/access_structure_util.h\<close>. A shift by a negative amount or by 64 and more is undefined in C++; it is the
  fault \<^verbatim>\<open>Out_Of_Bounds\<close>.
\<close>

section \<open>Party sets\<close>

type_synonym party_set = u64

definition mask_of_party :: "int \<Rightarrow> u64 res" where
  "mask_of_party i = (if 0 \<le> i \<and> i < 64 then Inr (push_bit (nat i) 1) else Inl Out_Of_Bounds)"

definition ps_has :: "party_set \<Rightarrow> int \<Rightarrow> bool res" where
  "ps_has peers i = bind_res (mask_of_party i) (\<lambda>m. Inr (peers AND m \<noteq> 0))"

definition ps_of :: "int \<Rightarrow> party_set res" where "ps_of i = mask_of_party i"

definition ps_is_empty :: "party_set \<Rightarrow> bool" where "ps_is_empty peers \<longleftrightarrow> peers = 0"

definition ps_add :: "party_set \<Rightarrow> int \<Rightarrow> party_set res" where
  "ps_add peers i = bind_res (mask_of_party i) (\<lambda>m. Inr (peers OR m))"

definition ps_remove :: "party_set \<Rightarrow> int \<Rightarrow> party_set res" where
  "ps_remove peers i = bind_res (mask_of_party i) (\<lambda>m. Inr (peers AND NOT m))"

definition ps_all :: party_set where "ps_all = 0xffffffffffffffff"

definition ps_empty :: party_set where "ps_empty = 0"

text \<open>The set of party indices that the bits stand for.\<close>

definition ps_members :: "party_set \<Rightarrow> int set" where
  "ps_members p = {i. 0 \<le> i \<and> i < 64 \<and> bit p (nat i)}"

lemma ps_has_iff: "0 \<le> i \<Longrightarrow> i < 64 \<Longrightarrow> ps_has p i = Inr (i \<in> ps_members p)"
  by (simp add: ps_has_def mask_of_party_def ps_members_def and_exp_eq_0_iff_not_bit)

lemma ps_all_mask: "ps_all = mask 64" by (simp add: ps_all_def mask_eq_exp_minus_1)

lemma ps_members_simps [simp]:
  "ps_members ps_all = {0..<64}" "ps_members ps_empty = {}" "ps_members 0 = {}"
  by (auto simp: ps_members_def ps_all_mask bit_mask_iff ps_empty_def)

lemma ps_members_ops:
  assumes "0 \<le> i" "i < 64"
  shows "\<exists>q. ps_add p i = Inr q \<and> ps_members q = insert i (ps_members p)"
    and "\<exists>q. ps_remove p i = Inr q \<and> ps_members q = ps_members p - {i}"
    and "\<exists>q. ps_of i = Inr q \<and> ps_members q = {i}"
  using assms by (auto simp: ps_add_def ps_remove_def ps_of_def mask_of_party_def ps_members_def bit_simps)

lemma ps_is_empty_iff: "ps_is_empty p \<longleftrightarrow> ps_members p = {}"
proof -
  have "p = 0" if "ps_members p = {}"
  proof (rule bit_word_eqI)
    fix n assume "n < LENGTH(64)"
    then have "int n \<notin> ps_members p \<longleftrightarrow> \<not> bit p n" by (simp add: ps_members_def)
    then show "bit p n = bit 0 n" using that by simp
  qed
  then show ?thesis by (auto simp: ps_is_empty_def)
qed

section \<open>Public jobs\<close>

record job_2p = self_2p :: int  p1_name :: string  p2_name :: string

record job_mp = self_mp :: int  mp_party_names :: "string list"

definition validate_job_2p :: "job_2p \<Rightarrow> unit res" where
  "validate_job_2p job =
     (if self_2p job \<noteq> 0 \<and> self_2p job \<noteq> 1 then error E_BADARG
      else if p1_name job = [] then error E_BADARG
      else if p2_name job = [] then error E_BADARG
      else if p1_name job = p2_name job then error E_BADARG
      else success)"

definition validate_job_mp :: "job_mp \<Rightarrow> unit res" where
  "validate_job_mp job =
     (let n = length (mp_party_names job)
      in if n < 2 then error E_BADARG
         else if 64 < n then error E_RANGE
         else if self_mp job < 0 \<or> int n \<le> self_mp job then error E_BADARG
         else bind_res (fold_res (\<lambda>name names. if name = [] then error E_BADARG
                else if name \<in> names then error E_BADARG else Inr (insert name names)) (mp_party_names job) {}) (\<lambda>_. success))"

definition valid_names :: "string list \<Rightarrow> bool" where
  "valid_names ns \<longleftrightarrow> 2 \<le> length ns \<and> length ns \<le> 64 \<and> distinct ns \<and> [] \<notin> set ns"

lemma insert_loop:
  "fold_res (\<lambda>name names. if name = [] then error E_BADARG
      else if name \<in> names then error E_BADARG else Inr (insert name names)) ns seen =
   (if [] \<notin> set ns \<and> distinct ns \<and> set ns \<inter> seen = {} then Inr (set ns \<union> seen) else error E_BADARG)"
  by (induction ns arbitrary: seen) auto

lemma validate_job_mp_iff:
  "validate_job_mp job = success \<longleftrightarrow> valid_names (mp_party_names job) \<and> 0 \<le> self_mp job \<and> self_mp job < int (length (mp_party_names job))"
  by (auto simp: validate_job_mp_def valid_names_def Let_def insert_loop)

section \<open>Quorum names\<close>

definition index_by_name :: "string list \<Rightarrow> string \<rightharpoonup> int" where
  "index_by_name party_names =
     fold (\<lambda>(i, name) m. if name \<in> dom m then m else m(name \<mapsto> sint (word_of_nat i :: u32))) (enumerate 0 party_names) Map.empty"

definition to_internal_party_set :: "string list \<Rightarrow> string list \<Rightarrow> party_set res" where
  "to_internal_party_set party_names quorum_party_names =
     (if quorum_party_names = [] then error E_BADARG
      else map_sum id snd (fold_res (\<lambda>qn (seen, out).
        if qn \<in> seen then error E_BADARG
        else case index_by_name party_names qn of None \<Rightarrow> error E_BADARG
             | Some i \<Rightarrow> bind_res (ps_add out i) (\<lambda>out. Inr (insert qn seen, out))) quorum_party_names ({}, ps_empty)))"

lemma index_by_name_snoc:
  "index_by_name (ns @ [x]) = (if x \<in> dom (index_by_name ns) then index_by_name ns
     else (index_by_name ns)(x \<mapsto> sint (word_of_nat (length ns) :: u32)))"
  by (simp add: index_by_name_def enumerate_append_eq)

lemma dom_index_by_name: "dom (index_by_name ns) = set ns"
proof (induction ns rule: rev_induct)
  case Nil
  then show ?case by (simp add: index_by_name_def)
next
  case (snoc x ns)
  then show ?case unfolding index_by_name_snoc by auto
qed

lemma sint_index: "n < 64 \<Longrightarrow> sint (word_of_nat n :: u32) = int n"
  by (simp add: signed_of_nat signed_take_bit_int_eq_self)

lemma index_by_name_nth:
  "distinct ns \<Longrightarrow> length ns \<le> 64 \<Longrightarrow> i < length ns \<Longrightarrow> index_by_name ns (ns ! i) = Some (int i)"
proof (induction ns rule: rev_induct)
  case (snoc x ns)
  then have "x \<notin> dom (index_by_name ns)" by (simp add: dom_index_by_name)
  then show ?case using snoc by (auto simp: index_by_name_snoc nth_append sint_index less_Suc_eq)
qed simp

definition name_indices :: "string list \<Rightarrow> string set \<Rightarrow> int set" where
  "name_indices ns A = {int i |i. i < length ns \<and> ns ! i \<in> A}"

lemma name_indices_insert:
  assumes "distinct ns" "i < length ns"
  shows "name_indices ns (insert (ns ! i) A) = insert (int i) (name_indices ns A)"
  using assms by (auto simp: name_indices_def nth_eq_iff_index_eq)

abbreviation quorum_step :: "string list \<Rightarrow> string \<Rightarrow> string set \<times> party_set \<Rightarrow> (string set \<times> party_set) res" where
  "quorum_step ns qn \<equiv> (\<lambda>(seen, out).
        if qn \<in> seen then error E_BADARG
        else case index_by_name ns qn of None \<Rightarrow> error E_BADARG
             | Some i \<Rightarrow> bind_res (ps_add out i) (\<lambda>out. Inr (insert qn seen, out)))"

lemma quorum_loop:
  assumes "valid_names ns"
  shows "\<exists>p. fold_res (quorum_step ns) qs (seen, out) =
       (if distinct qs \<and> set qs \<inter> seen = {} \<and> set qs \<subseteq> set ns then Inr (set qs \<union> seen, p) else error E_BADARG)
     \<and> (distinct qs \<and> set qs \<inter> seen = {} \<and> set qs \<subseteq> set ns \<longrightarrow> ps_members p = ps_members out \<union> name_indices ns (set qs))"
proof (induction qs arbitrary: seen out)
  case Nil
  then show ?case by (auto simp: name_indices_def)
next
  case (Cons q qs)
  note ns = assms [unfolded valid_names_def]
  show ?case
  proof (cases "q \<in> seen \<or> q \<notin> set ns")
    case True
    then have "fold_res (quorum_step ns) (q # qs) (seen, out) = error E_BADARG"
      using dom_index_by_name [of ns] by (cases "index_by_name ns q") (auto simp: domIff)
    then show ?thesis using True by auto
  next
    case False
    then obtain i where i: "i < length ns" "ns ! i = q" by (auto simp: in_set_conv_nth)
    obtain out' where o: "ps_add out (int i) = Inr out'" "ps_members out' = insert (int i) (ps_members out)"
      using ps_members_ops(1) [of "int i" out] i ns by auto
    obtain p where p: "fold_res (quorum_step ns) qs (insert q seen, out') =
       (if distinct qs \<and> set qs \<inter> insert q seen = {} \<and> set qs \<subseteq> set ns then Inr (set qs \<union> insert q seen, p) else error E_BADARG)"
       "distinct qs \<and> set qs \<inter> insert q seen = {} \<and> set qs \<subseteq> set ns \<longrightarrow> ps_members p = ps_members out' \<union> name_indices ns (set qs)"
      using Cons.IH by blast
    have "index_by_name ns q = Some (int i)" using index_by_name_nth [of ns i] i ns by simp
    then show ?thesis using p o i False name_indices_insert [of ns i "set qs"] ns by (intro exI [of _ p]) auto
  qed
qed

lemma to_internal_party_set_eq:
  assumes "valid_names ns"
  shows "\<exists>p. to_internal_party_set ns qs = (if qs \<noteq> [] \<and> distinct qs \<and> set qs \<subseteq> set ns then Inr p else error E_BADARG)
     \<and> (distinct qs \<and> set qs \<subseteq> set ns \<longrightarrow> ps_members p = name_indices ns (set qs))"
proof -
  obtain p where "fold_res (quorum_step ns) qs ({}, ps_empty) =
      (if distinct qs \<and> set qs \<subseteq> set ns then Inr (set qs, p) else error E_BADARG)"
    "distinct qs \<and> set qs \<subseteq> set ns \<longrightarrow> ps_members p = name_indices ns (set qs)"
    using quorum_loop [OF assms, of qs "{}" ps_empty]
    unfolding ps_members_simps Int_empty_right Un_empty_right Un_empty_left simp_thms by blast
  then show ?thesis by (intro exI [of _ p]) (simp add: to_internal_party_set_def)
qed

end
