(* ===== verification/C_Transport.thy ===== *)
theory C_Transport
  imports C_Memory Access_C Jobs
begin

text \<open>
  The transport of the C interface: \<^verbatim>\<open>src/cbmpc/c_api/transport_adapter.h\<close> wraps the callbacks of \<^verbatim>\<open>cbmpc_transport_t\<close>, takes over the buffers
  that they allocate and releases them on every path; and the validation of C jobs in \<^verbatim>\<open>src/cbmpc/c_api/util.h\<close>. The callbacks are
  parameters that act on the heap and on the state of the network.
\<close>

section \<open>Callbacks\<close>

record 'w c_transport =
  ct_send :: "(int \<Rightarrow> bytes \<Rightarrow> 'w \<Rightarrow> error_t option \<times> 'w) option"
  ct_receive :: "(int \<Rightarrow> cheap \<Rightarrow> 'w \<Rightarrow> error_t option \<times> cmem \<times> cheap \<times> 'w) option"
  ct_receive_all :: "(int list \<Rightarrow> cheap \<Rightarrow> 'w \<Rightarrow> error_t option \<times> cmems \<times> cheap \<times> 'w) option"
  ct_free :: "(nat \<Rightarrow> cheap \<Rightarrow> cheap res) option"

type_synonym ('o, 'w) received = "(error_t option \<times> 'o \<times> cheap \<times> 'w) res"

definition transport_free :: "'w c_transport option \<Rightarrow> ptr \<Rightarrow> cheap \<Rightarrow> cheap res" where
  "transport_free t p h = (case p of None \<Rightarrow> Inr h
     | Some a \<Rightarrow> (case Option.bind t ct_free of Some f \<Rightarrow> f a h | None \<Rightarrow> cbmpc_free p h))"

lemma transport_free_null [simp]: "transport_free t None h = Inr h" by (simp add: transport_free_def)

definition adapter_send :: "'w c_transport option \<Rightarrow> int \<Rightarrow> bytes \<Rightarrow> 'w \<Rightarrow> error_t option \<times> 'w" where
  "adapter_send t receiver msg w = (case Option.bind t ct_send of None \<Rightarrow> (Some E_BADARG, w) | Some f \<Rightarrow> f receiver msg w)"

text \<open>The outputs \<open>msg\<close> and \<open>msgs\<close> keep their old value on the failing paths.\<close>

definition adapter_receive :: "'w c_transport option \<Rightarrow> int \<Rightarrow> bytes \<Rightarrow> cheap \<Rightarrow> 'w \<Rightarrow> (bytes, 'w) received" where
  "adapter_receive t sender msg h w = (case Option.bind t ct_receive of None \<Rightarrow> Inr (Some E_BADARG, msg, h, w)
     | Some f \<Rightarrow> (case f sender h w of (rv, inp, h, w) \<Rightarrow>
         let release = (\<lambda>e out. bind_res (transport_free t (cm_data inp) h) (\<lambda>h. Inr (e, out, h, w)))
         in if rv \<noteq> None then release rv msg
            else if cm_size inp < 0 \<or> (0 < cm_size inp \<and> cm_data inp = None) then release (Some E_FORMAT) msg
            else bind_res (if cm_size inp = 0 then Inr [] else read_bytes (cm_data inp) 0 (nat (cm_size inp)) h) (\<lambda>bs. release None bs)))"

definition free_both :: "'w c_transport option \<Rightarrow> cmems \<Rightarrow> cheap \<Rightarrow> cheap res" where
  "free_both t out h = bind_res (transport_free t (cs_data out) h) (transport_free t (cs_sizes out))"

definition take_over ::
  "'w c_transport option \<Rightarrow> int list \<Rightarrow> bytes list \<Rightarrow> error_t option \<Rightarrow> cmems \<Rightarrow> cheap \<Rightarrow> 'w \<Rightarrow> (bytes list, 'w) received" where
  "take_over t senders msgs rv out h w =
     (if rv \<noteq> None then
        bind_res (transport_free t (cs_data out) h) (\<lambda>h.
        bind_res (if cs_sizes out \<noteq> None \<and> cs_sizes out \<noteq> cs_data out then transport_free t (cs_sizes out) h else Inr h) (\<lambda>h.
          Inr (rv, msgs, h, w)))
      else if cs_count out < 0 \<or> cs_count out \<noteq> int (length senders) then
        bind_res (free_both t out h) (\<lambda>h. Inr (Some E_FORMAT, msgs, h, w))
      else if 0 < cs_count out \<and> cs_sizes out = None then
        bind_res (transport_free t (cs_data out) h) (\<lambda>h. Inr (Some E_FORMAT, msgs, h, w))
      else case segment_total E_FORMAT out h of
        Inl (Err e) \<Rightarrow> bind_res (free_both t out h) (\<lambda>h. Inr (Some e, msgs, h, w))
      | Inl fault \<Rightarrow> Inl fault
      | Inr tot \<Rightarrow>
          if 0 < tot \<and> cs_data out = None then bind_res (transport_free t (cs_sizes out) h) (\<lambda>h. Inr (Some E_FORMAT, msgs, h, w))
          else bind_res (segment_views out h (nat (cs_count out))) (\<lambda>vs.
               bind_res (map_res (view_bytes h) vs) (\<lambda>msgs.
               bind_res (free_both t out h) (\<lambda>h. Inr (None, msgs, h, w)))))"

definition adapter_receive_all :: "'w c_transport option \<Rightarrow> int list \<Rightarrow> bytes list \<Rightarrow> cheap \<Rightarrow> 'w \<Rightarrow> (bytes list, 'w) received" where
  "adapter_receive_all t senders msgs h w = (case Option.bind t ct_receive_all of None \<Rightarrow> Inr (Some E_NOT_SUPPORTED, msgs, h, w)
     | Some f \<Rightarrow> if INT_MAX < int (length senders) then Inr (Some E_RANGE, msgs, h, w)
                 else (case f senders h w of (rv, out, h, w) \<Rightarrow> take_over t senders msgs rv out h w))"

section \<open>C jobs\<close>

record 'w c_job_2p =
  cj_self :: int
  cj_p1_name :: "string option"
  cj_p2_name :: "string option"
  cj_transport :: "'w c_transport option"

record 'w c_job_mp =
  cm_self :: int
  cm_party_names :: "string option list option"
  cm_party_names_count :: int
  cm_transport :: "'w c_transport option"

definition validate_2pc_job :: "'w c_job_2p option \<Rightarrow> unit res" where
  "validate_2pc_job job = (case job of None \<Rightarrow> error E_BADARG | Some job \<Rightarrow>
     (case (cj_p1_name job, cj_p2_name job) of (Some p1, Some p2) \<Rightarrow>
        if p1 = [] \<or> p2 = [] then error E_BADARG
        else if p1 = p2 then error E_BADARG
        else (case cj_transport job of None \<Rightarrow> error E_BADARG
              | Some t \<Rightarrow> if ct_send t = None \<or> ct_receive t = None then error E_BADARG else success)
      | _ \<Rightarrow> error E_BADARG))"

definition validate_mp_job :: "'w c_job_mp option \<Rightarrow> unit res" where
  "validate_mp_job job = (case job of None \<Rightarrow> error E_BADARG | Some job \<Rightarrow>
     let n = cm_party_names_count job
     in if n < 0 then error E_BADARG
        else if n < 2 then error E_BADARG
        else if 64 < n then error E_RANGE
        else if cm_self job < 0 \<or> n \<le> cm_self job then error E_BADARG
        else if cm_party_names job = None then error E_BADARG
        else bind_res (fold_res (\<lambda>i names. bind_res (array_at (cm_party_names job) (int i)) (\<lambda>name.
               case name of None \<Rightarrow> error E_BADARG
               | Some s \<Rightarrow> if s = [] then error E_BADARG
                           else if s \<in> names then error E_BADARG else Inr (insert s names))) [0..<nat n] {}) (\<lambda>_.
        case cm_transport job of None \<Rightarrow> error E_BADARG
        | Some t \<Rightarrow> if ct_send t = None \<or> ct_receive t = None \<or> ct_receive_all t = None then error E_BADARG else success))"

definition to_cpp_party :: "int \<Rightarrow> int res" where
  "to_cpp_party p = (if p = 0 then Inr 0 else if p = 1 then Inr 1 else error E_BADARG)"

datatype curve_id = p256 | secp256k1 | ed25519

definition to_cpp_curve :: "int \<Rightarrow> curve_id res" where
  "to_cpp_curve c = (if c = 1 then Inr p256 else if c = 2 then Inr secp256k1 else if c = 3 then Inr ed25519 else error E_BADARG)"

text \<open>A null name is read as a string only by \<^verbatim>\<open>std::string_view\<close> of a null pointer, which is undefined.\<close>

definition make_party_names :: "'w c_job_mp \<Rightarrow> string list res" where
  "make_party_names job = map_res (\<lambda>i. bind_res (array_at (cm_party_names job) (int i)) (\<lambda>name.
     case name of None \<Rightarrow> Inl Out_Of_Bounds | Some s \<Rightarrow> Inr s)) [0..<nat (cm_party_names_count job)]"

definition job_mp_cpp_ctx :: "'w c_job_mp \<Rightarrow> job_mp res" where
  "job_mp_cpp_ctx job = bind_res (make_party_names job) (\<lambda>names. Inr \<lparr>self_mp = cm_self job, mp_party_names = names\<rparr>)"

definition job_2p_cpp_ctx :: "'w c_job_2p \<Rightarrow> int \<Rightarrow> job_2p res" where
  "job_2p_cpp_ctx job self = (case (cj_p1_name job, cj_p2_name job) of
     (Some p1, Some p2) \<Rightarrow> Inr \<lparr>self_2p = self, p1_name = p1, p2_name = p2\<rparr> | _ \<Rightarrow> Inl Out_Of_Bounds)"

section \<open>Validated C jobs are valid jobs\<close>

lemma validate_2pc_job_cpp:
  assumes "validate_2pc_job (Some job) = success" "to_cpp_party (cj_self job) = Inr self"
  shows "bind_res (job_2p_cpp_ctx job self) validate_job_2p = success"
  using assms by (auto simp: validate_2pc_job_def job_2p_cpp_ctx_def validate_job_2p_def to_cpp_party_def split: option.splits if_splits)

lemma names_loop:
  "fold_res (\<lambda>i names. bind_res (array_at ns (int i)) (\<lambda>name.
       case name of None \<Rightarrow> error E_BADARG
       | Some s \<Rightarrow> if s = [] then error E_BADARG else if s \<in> names then error E_BADARG else Inr (insert s names))) is seen = Inr seen' \<Longrightarrow>
   \<exists>out. map_res (\<lambda>i. bind_res (array_at ns (int i)) (\<lambda>name. case name of None \<Rightarrow> Inl Out_Of_Bounds | Some s \<Rightarrow> Inr s)) is = Inr out
     \<and> distinct out \<and> [] \<notin> set out \<and> set out \<inter> seen = {}"
proof (induction "is" arbitrary: seen)
  case (Cons i "is")
  then obtain s where s: "array_at ns (int i) = Inr (Some s)" "s \<noteq> []" "s \<notin> seen"
    by (auto simp: res_simps split: option.splits if_splits)
  with Cons.prems Cons.IH [of "insert s seen"] show ?case by auto
qed simp

lemma validate_mp_job_cpp:
  assumes "validate_mp_job (Some job) = success"
  shows "\<exists>j. job_mp_cpp_ctx job = Inr j \<and> validate_job_mp j = success \<and> int (length (mp_party_names j)) = cm_party_names_count job"
proof -
  let ?n = "cm_party_names_count job"
  have n: "2 \<le> ?n" "?n \<le> 64" "0 \<le> cm_self job" "cm_self job < ?n"
    and loop: "\<exists>seen. fold_res (\<lambda>i names. bind_res (array_at (cm_party_names job) (int i)) (\<lambda>name.
               case name of None \<Rightarrow> error E_BADARG
               | Some s \<Rightarrow> if s = [] then error E_BADARG
                           else if s \<in> names then error E_BADARG else Inr (insert s names))) [0..<nat ?n] {} = Inr seen"
    using assms by (auto simp: validate_mp_job_def Let_def res_simps split: if_splits)
  obtain out where out: "make_party_names job = Inr out" "distinct out" "[] \<notin> set out"
    using loop names_loop [of "cm_party_names job" "[0..<nat ?n]" "{}"] unfolding make_party_names_def by blast
  have "length out = nat ?n" using out(1) map_res_length unfolding make_party_names_def by fastforce
  then show ?thesis using out n by (auto simp: job_mp_cpp_ctx_def validate_job_mp_iff valid_names_def)
qed

section \<open>Ownership of received buffers\<close>

text \<open>The contract of the callbacks: the pointers handed over are null, or distinct fresh blocks, and nothing else of the heap changes.\<close>

definition handed_over :: "cheap \<Rightarrow> ptr list \<Rightarrow> cheap \<Rightarrow> bool" where
  "handed_over h ps h' \<longleftrightarrow> distinct (filter (\<lambda>p. p \<noteq> None) ps)
     \<and> (\<forall>a. live h' a = live h a \<or> Some a \<in> set ps) \<and> (\<forall>a. Some a \<in> set ps \<longrightarrow> live h a = None \<and> live h' a \<noteq> None)"

definition frees :: "'w c_transport option \<Rightarrow> bool" where
  "frees t \<longleftrightarrow> (\<forall>a h. transport_free t (Some a) h = cbmpc_free (Some a) h)"

lemma free_both_ok:
  assumes "frees t" "handed_over h [cs_data out, cs_sizes out] h'"
  shows "\<exists>h2. free_both t out h' = Inr h2 \<and> live h2 = live h"
  using assms
  by (cases "cs_data out"; cases "cs_sizes out")
     (auto simp: free_both_def frees_def handed_over_def transport_free_def cbmpc_free_def fun_eq_iff split: option.splits)

lemma free_one_ok:
  assumes "frees t" "handed_over h [p, q] h'" "q = None"
  shows "\<exists>h2. transport_free t p h' = Inr h2 \<and> live h2 = live h"
  using assms
  by (cases p; auto simp: frees_def handed_over_def transport_free_def cbmpc_free_def fun_eq_iff split: option.splits)+

lemma handed_over_swap: "handed_over h [p, q] h' \<longleftrightarrow> handed_over h [q, p] h'"
  by (auto simp: handed_over_def)

text \<open>The arrays behind a successful answer cover the announced sizes.\<close>

definition covers :: "cheap \<Rightarrow> cmems \<Rightarrow> nat \<Rightarrow> bool" where
  "covers h out n \<longleftrightarrow> (\<forall>s. cs_sizes out = Some s \<longrightarrow> (\<exists>xs. live h s = Some (Ints xs) \<and> n \<le> length xs \<and>
     ((\<forall>x \<in> set (take n xs). 0 \<le> x) \<longrightarrow> (\<forall>d. cs_data out = Some d \<longrightarrow>
        (\<exists>bs. live h d = Some (Bytes bs) \<and> sum_list (map nat (take n xs)) \<le> length bs)))))"

lemma add_sizes:
  "fold_res (add_size e) ys t = Inr t' \<Longrightarrow> (\<forall>y \<in> set ys. 0 \<le> y) \<and> t' = t + int (sum_list (map nat ys))"
  "fold_res (add_size e) ys t = Inl f \<Longrightarrow> \<exists>e. f = Err e"
  by (induction ys arbitrary: t) (fastforce simp: add_size_def res_simps split: if_splits)+

lemma split_sizes:
  "(\<forall>y \<in> set ys. 0 \<le> y) \<Longrightarrow> sum_list (map nat ys) \<le> length bs \<Longrightarrow>
     \<exists>bufs :: 'a list list. map (\<lambda>b. int (length b)) bufs = ys \<and> concat bufs = take (sum_list (map nat ys)) bs"
proof (induction ys arbitrary: bs)
  case (Cons y ys)
  have "sum_list (map nat ys) \<le> length (drop (nat y) bs)" using Cons.prems(2) by simp
  then obtain bufs where "map (\<lambda>b. int (length b)) bufs = ys" "concat bufs = take (sum_list (map nat ys)) (drop (nat y) bs)"
    using Cons.IH [of "drop (nat y) bs"] Cons.prems(1) by auto
  then show ?case using Cons.prems by (intro exI [of _ "take (nat y) bs # bufs"]) (simp add: take_add)
qed simp

lemma segments_readable:
  assumes "cs_sizes out = Some s" "covers h out n" "segment_total e out h = Inr tot" "cs_count out = int n" "0 < tot \<Longrightarrow> cs_data out \<noteq> None"
  shows "\<exists>vs bufs. segment_views out h n = Inr vs \<and> map_res (view_bytes h) vs = Inr bufs \<and> length bufs = n"
proof -
  obtain xs where xs: "live h s = Some (Ints xs)" "n \<le> length xs" using assms(1,2) unfolding covers_def by blast
  have "fold_res (add_size e) (take n xs) 0 = Inr tot"
    using assms(3,4) fold_reads [OF xs, of "add_size e" 0] assms(1) by (simp add: segment_total_def)
  from add_sizes(1) [OF this] have pos: "\<forall>x \<in> set (take n xs). 0 \<le> x" and tot: "tot = int (sum_list (map nat (take n xs)))" by simp_all
  show ?thesis
  proof (cases "cs_data out")
    case None
    then have z: "sum_list (map nat (take n xs)) = 0" using assms(5) tot by (metis gr0I of_nat_0_less_iff)
    obtain bufs :: "bytes list" where b: "map (\<lambda>b. int (length b)) bufs = take n xs" "concat bufs = []" using split_sizes [OF pos, of "[]"] z by auto
    have "length bufs = n" using arg_cong [OF b(1), of length] xs(2) by simp
    then show ?thesis using segment_views_bytes [OF assms(1) xs b(1) [symmetric], of "[]"] b(2) by blast
  next
    case (Some d)
    obtain bs where bs: "live h d = Some (Bytes bs)" "sum_list (map nat (take n xs)) \<le> length bs"
      using assms(1,2) Some xs(1) pos unfolding covers_def by auto
    obtain bufs where b: "map (\<lambda>b. int (length b)) bufs = take n xs" "concat bufs = take (sum_list (map nat (take n xs))) bs"
      using split_sizes [OF pos bs(2)] by blast
    have "length bufs = n" using arg_cong [OF b(1), of length] xs(2) by simp
    moreover have "bs = concat bufs @ drop (sum_list (map nat (take n xs))) bs" using b(2) by simp
    ultimately show ?thesis
      using segment_views_bytes [OF assms(1) xs b(1) [symmetric], of "drop (sum_list (map nat (take n xs))) bs"] Some bs(1) by auto
  qed
qed

definition owned_result :: "cheap \<Rightarrow> error_t option \<Rightarrow> int list \<Rightarrow> bytes list \<Rightarrow> 'w \<Rightarrow> (bytes list, 'w) received \<Rightarrow> bool" where
  "owned_result h rv senders msgs w r \<longleftrightarrow> (\<exists>e msgs' h2. r = Inr (e, msgs', h2, w) \<and> live h2 = live h
     \<and> (if e = None then rv = None \<and> length msgs' = length senders else msgs' = msgs))"

lemma owned_fail:
  assumes "\<exists>h2. g = Inr h2 \<and> live h2 = live h" "e \<noteq> None"
  shows "owned_result h rv senders msgs w (bind_res g (\<lambda>h. Inr (e, msgs, h, w)))"
proof -
  obtain h2 where "g = Inr h2" "live h2 = live h" using assms(1) by blast
  then show ?thesis using assms(2) unfolding owned_result_def by (intro exI [of _ e] exI [of _ msgs] exI [of _ h2]) auto
qed

lemma owned_done:
  assumes "\<exists>h2. g = Inr h2 \<and> live h2 = live h" "length bufs = length senders"
  shows "owned_result h None senders msgs w (bind_res g (\<lambda>h. Inr (None, bufs, h, w)))"
proof -
  obtain h2 where "g = Inr h2" "live h2 = live h" using assms(1) by blast
  then show ?thesis using assms(2) unfolding owned_result_def by (intro exI [of _ None] exI [of _ bufs] exI [of _ h2]) simp
qed

lemma take_over_sized:
  assumes "frees t" "handed_over h [cs_data out, cs_sizes out] h1" "covers h1 out (length senders)"
    "cs_count out = int (length senders)" "cs_sizes out = Some s"
  shows "owned_result h None senders msgs w (take_over t senders msgs None out h1 w)"
proof -
  note both = free_both_ok [OF assms(1,2)]
  note swapped = assms(2) [unfolded handed_over_swap [of h "cs_data out"]]
  obtain xs where xs: "live h1 s = Some (Ints xs)" "length senders \<le> length xs" using assms(3,5) unfolding covers_def by blast
  have total: "segment_total E_FORMAT out h1 = fold_res (add_size E_FORMAT) (take (length senders) xs) 0"
    using fold_reads [OF xs, of "add_size E_FORMAT" 0] assms(4,5) by (simp add: segment_total_def)
  show ?thesis
  proof (cases "segment_total E_FORMAT out h1")
    case (Inl f)
    then obtain e where "segment_total E_FORMAT out h1 = Inl (Err e)" using total add_sizes(2) by metis
    then show ?thesis using owned_fail [OF both, of "Some e"] assms(4,5) by (simp add: take_over_def)
  next
    case (Inr tot)
    show ?thesis
    proof (cases "0 < tot \<and> cs_data out = None")
      case True
      then show ?thesis using owned_fail [OF free_one_ok [OF assms(1) swapped], of "Some E_FORMAT"] Inr assms(4,5) by (simp add: take_over_def)
    next
      case False
      obtain vs bufs where v: "segment_views out h1 (length senders) = Inr vs" "map_res (view_bytes h1) vs = Inr bufs" "length bufs = length senders"
        using segments_readable [OF assms(5,3) Inr assms(4)] False by metis
      then show ?thesis using owned_done [OF both v(3)] Inr False assms(4,5) by (auto simp: take_over_def)
    qed
  qed
qed

lemma take_over_owned:
  assumes "frees t" "handed_over h [cs_data out, cs_sizes out] h1" "covers h1 out (length senders)"
  shows "owned_result h rv senders msgs w (take_over t senders msgs rv out h1 w)"
proof (cases rv)
  case (Some e)
  have "cs_sizes out \<noteq> cs_data out \<or> cs_sizes out = None" using assms(2) by (cases "cs_data out"; cases "cs_sizes out") (auto simp: handed_over_def)
  then have "take_over t senders msgs rv out h1 w = bind_res (free_both t out h1) (\<lambda>h. Inr (rv, msgs, h, w))"
    using Some by (cases "cs_sizes out") (simp_all add: take_over_def free_both_def bind_res_assoc)
  then show ?thesis using owned_fail [OF free_both_ok [OF assms(1,2)], of rv] Some by simp
next
  case None
  show ?thesis
  proof (cases "cs_count out = int (length senders)")
    case False
    then show ?thesis using owned_fail [OF free_both_ok [OF assms(1,2)], of "Some E_FORMAT"] None by (simp add: take_over_def)
  next
    case count: True
    show ?thesis
    proof (cases "cs_sizes out")
      case no: None
      then have "free_both t out h1 = transport_free t (cs_data out) h1" by (cases "transport_free t (cs_data out) h1") (simp_all add: free_both_def)
      then show ?thesis
        using None no count owned_fail [OF free_one_ok [OF assms(1,2) no], of "Some E_FORMAT" rv senders msgs w] owned_done [OF free_one_ok [OF assms(1,2) no], of "[]" senders msgs w]
        by (cases senders) (simp_all add: take_over_def segment_total_def segment_views_def)
    qed (use take_over_sized [OF assms count] None in simp)
  qed
qed

lemma receive_all_owned:
  assumes "Option.bind t ct_receive_all = Some f" "f senders h w = (rv, out, h1, w1)" "int (length senders) \<le> INT_MAX"
    "frees t" "handed_over h [cs_data out, cs_sizes out] h1" "covers h1 out (length senders)"
  shows "owned_result h rv senders msgs w1 (adapter_receive_all t senders msgs h w)"
  using take_over_owned [OF assms(4-6)] assms(1-3) by (simp add: adapter_receive_all_def)

text \<open>Segments stored by \<^verbatim>\<open>alloc_cmems_from_bufs\<close> come out of the adapter as they went in.\<close>

lemma take_over_stored:
  assumes "stored h1 out bufs" "length bufs = length senders" "int (length (concat bufs)) \<le> INT_MAX" "bufs \<noteq> []"
  shows "take_over t senders msgs None out h1 w = bind_res (free_both t out h1) (\<lambda>h. Inr (None, bufs, h, w))"
proof -
  obtain s where s: "cs_count out = int (length bufs)" "cs_sizes out = Some s" "live h1 s = Some (Ints (map (\<lambda>b. int (length b)) bufs))"
    and d: "if concat bufs = [] then cs_data out = None else \<exists>d. cs_data out = Some d \<and> d \<noteq> s \<and> live h1 d = Some (Bytes (concat bufs))"
    using assms(1) unfolding stored_def by blast
  have "segment_total E_FORMAT out h1 = Inr (int (length (concat bufs)))"
    using assms(3) total_sizes [of 0 E_FORMAT bufs] s fold_reads [OF s(3), of "length bufs" "add_size E_FORMAT" 0]
    by (simp add: segment_total_def total_fold del: length_concat)
  moreover have data: "concat bufs \<noteq> [] \<Longrightarrow> \<exists>a. cs_data out = Some a \<and> live h1 a = Some (Bytes (concat bufs @ []))" using d by (auto simp del: concat_eq_Nil_conv)
  moreover obtain vs where "segment_views out h1 (length bufs) = Inr vs" "map_res (view_bytes h1) vs = Inr bufs"
    using segment_views_bytes [OF s(2,3) _ _ data, of "length bufs"] by auto
  moreover have "\<not> (0 < int (length (concat bufs)) \<and> cs_data out = None)" using data by (auto simp del: length_concat concat_eq_Nil_conv)
  ultimately show ?thesis using s assms(2) by (auto simp: take_over_def simp del: length_concat)
qed

lemma receive_owned:
  assumes "Option.bind t ct_receive = Some f" "f sender h w = (rv, inp, h1, w1)" "frees t" "handed_over h [cm_data inp, None] h1"
    "\<forall>d. cm_data inp = Some d \<longrightarrow> (\<exists>bs. live h1 d = Some (Bytes bs) \<and> cm_size inp \<le> int (length bs))"
  shows "\<exists>e msg' h2. adapter_receive t sender msg h w = Inr (e, msg', h2, w1) \<and> live h2 = live h"
proof -
  obtain h2 where h2: "transport_free t (cm_data inp) h1 = Inr h2" "live h2 = live h" using free_one_ok [OF assms(3,4)] by blast
  then show ?thesis using assms(1,2,5)
    by (cases "cm_data inp") (auto simp: adapter_receive_def Let_def read_bytes_def)
qed

text \<open>
  Only the path of a failed callback allows for \<^verbatim>\<open>sizes\<close> and \<^verbatim>\<open>data\<close> to be the same block; when the callback succeeds with a wrong count
  the block is freed twice.
\<close>

lemma take_over_aliased:
  assumes "cs_sizes out = Some a" "cs_data out = Some a" "live h a = Some b" "frees t"
  shows "\<exists>h2. take_over t senders msgs (Some e) out h w = Inr (Some e, msgs, h2, w) \<and> live h2 a = None"
    and "cs_count out \<noteq> int (length senders) \<Longrightarrow> take_over t senders msgs None out h w = Inl Out_Of_Bounds"
  using assms by (auto simp: take_over_def free_both_def frees_def cbmpc_free_def)

end
