(* ===== verification/Messages.thy ===== *)
theory Messages
  imports Jobs Convert_Containers
begin

text \<open>
  Messaging of a protocol: the job \<^verbatim>\<open>job_mp_t\<close> of \<^verbatim>\<open>protocol/mpc_job.h\<close> and \<^verbatim>\<open>protocol/mpc_job.cpp\<close> with its message containers, the packing of
  messages for each party, and the group, broadcast and two-party rounds. The transport is a parameter that acts on a state \<open>'w\<close> of the
  network. The locale \<open>mpc_msg\<close> states what a message container promises to the rounds; the uniform and the nonuniform
  container provide it over any codec, and a pair of messages over its components.
\<close>

section \<open>Jobs\<close>

record 'w transport =
  t_send :: "int \<Rightarrow> bytes \<Rightarrow> 'w \<Rightarrow> 'w res"
  t_receive :: "int \<Rightarrow> 'w \<Rightarrow> (bytes \<times> 'w) res"
  t_receive_all :: "int list \<Rightarrow> 'w \<Rightarrow> (bytes list \<times> 'w) res"

record ('w, 'pid) mpc_job =
  message_sending :: bool
  party_index :: int
  n_parties :: nat
  job_pids :: "'pid list"
  job_names :: "string list"
  transport_raw :: "'w transport option"

text \<open>The constructor: an invalid index is only reported, the number of parties is asserted.\<close>

definition new_job :: "(string \<Rightarrow> 'pid) \<Rightarrow> int \<Rightarrow> string list \<Rightarrow> 'w transport option \<Rightarrow> ('w, 'pid) mpc_job res" where
  "new_job pid_from_name index pnames t =
     (let pids = map pid_from_name pnames
      in bind_res (cb_assert (2 \<le> length pids)) (\<lambda>_. bind_res (cb_assert (length pids \<le> 64)) (\<lambda>_.
         Inr \<lparr>message_sending = False, party_index = index, n_parties = length pnames, job_pids = pids, job_names = pnames,
              transport_raw = t\<rparr>)))"

definition new_job_2p :: "(string \<Rightarrow> 'pid) \<Rightarrow> int \<Rightarrow> string \<Rightarrow> string \<Rightarrow> 'w transport option \<Rightarrow> ('w, 'pid) mpc_job res" where
  "new_job_2p pid_from_name index pname1 pname2 t = new_job pid_from_name index [pname1, pname2] t"

definition to_internal_job_mp :: "(string \<Rightarrow> 'pid) \<Rightarrow> job_mp \<Rightarrow> 'w transport \<Rightarrow> ('w, 'pid) mpc_job res" where
  "to_internal_job_mp pid_from_name job t = new_job pid_from_name (self_mp job) (mp_party_names job) (Some t)"

definition to_internal_job_2p :: "(string \<Rightarrow> 'pid) \<Rightarrow> job_2p \<Rightarrow> 'w transport \<Rightarrow> ('w, 'pid) mpc_job res" where
  "to_internal_job_2p pid_from_name job t = new_job_2p pid_from_name (self_2p job) (p1_name job) (p2_name job) (Some t)"

definition set_transport :: "int \<Rightarrow> 'w transport option \<Rightarrow> ('w, 'pid) mpc_job \<Rightarrow> ('w, 'pid) mpc_job" where
  "set_transport idx t job = job\<lparr>party_index := idx, transport_raw := t\<rparr>"

definition get_pid :: "('w, 'pid) mpc_job \<Rightarrow> int \<Rightarrow> 'pid res" where
  "get_pid job i = (if 0 \<le> i \<and> i < int (length (job_pids job)) then Inr (job_pids job ! nat i) else Inl Out_Of_Bounds)"

definition get_name :: "('w, 'pid) mpc_job \<Rightarrow> int \<Rightarrow> string res" where
  "get_name job i = (if 0 \<le> i \<and> i < int (length (job_names job)) then Inr (job_names job ! nat i) else Inl Out_Of_Bounds)"

definition is_party_idx :: "('w, 'pid) mpc_job \<Rightarrow> int \<Rightarrow> bool" where
  "is_party_idx job i \<longleftrightarrow> i = party_index job"

definition send_impl :: "('w, 'pid) mpc_job \<Rightarrow> int \<Rightarrow> bytes \<Rightarrow> 'w \<Rightarrow> 'w res" where
  "send_impl job dest msg w = (case transport_raw job of None \<Rightarrow> error E_NET_GENERAL | Some t \<Rightarrow> t_send t dest msg w)"

definition receive_impl :: "('w, 'pid) mpc_job \<Rightarrow> int \<Rightarrow> 'w \<Rightarrow> (bytes \<times> 'w) res" where
  "receive_impl job from w = (case transport_raw job of None \<Rightarrow> error E_NET_GENERAL | Some t \<Rightarrow> t_receive t from w)"

definition receive_many_impl :: "('w, 'pid) mpc_job \<Rightarrow> int list \<Rightarrow> 'w \<Rightarrow> (bytes list \<times> 'w) res" where
  "receive_many_impl job from_set w = (case transport_raw job of None \<Rightarrow> error E_NET_GENERAL | Some t \<Rightarrow> t_receive_all t from_set w)"

section \<open>Message containers\<close>

record 'm msg_ops =
  pack :: "'m \<Rightarrow> int \<Rightarrow> converter \<Rightarrow> converter res"
  unpack :: "int \<Rightarrow> 'm \<Rightarrow> converter \<Rightarrow> ('m \<times> converter) res"

definition slot :: "'a list \<Rightarrow> int \<Rightarrow> 'a res" where
  "slot xs i = (if 0 \<le> i \<and> i < int (length xs) then Inr (xs ! nat i) else Inl Out_Of_Bounds)"

record 'a uniform_msg =
  um_msg :: 'a
  um_inbox :: "'a list"

definition uniform_new :: "'a \<Rightarrow> int \<Rightarrow> nat \<Rightarrow> 'a \<Rightarrow> 'a uniform_msg res" where
  "uniform_new dflt self n src =
     (if 0 \<le> self \<and> self < int n then Inr \<lparr>um_msg = src, um_inbox = (replicate n dflt)[nat self := src]\<rparr> else Inl Out_Of_Bounds)"

definition uniform_ops :: "'a conv \<Rightarrow> int \<Rightarrow> 'a uniform_msg msg_ops" where
  "uniform_ops conv self = \<lparr>
     pack = (\<lambda>m index c. bind_res (conv (um_msg m) c) (\<lambda>(_, c). Inr c)),
     unpack = (\<lambda>index m c.
       if index = self then bind_res (conv (um_msg m) c) (\<lambda>(x, c). Inr (m\<lparr>um_msg := x\<rparr>, c))
       else bind_res (slot (um_inbox m) index) (\<lambda>d. bind_res (conv d c) (\<lambda>(x, c). Inr (m\<lparr>um_inbox := (um_inbox m)[nat index := x]\<rparr>, c))))\<rparr>"

definition uniform_received :: "int \<Rightarrow> nat \<Rightarrow> 'a uniform_msg \<Rightarrow> int \<Rightarrow> 'a res" where
  "uniform_received self n m index =
     bind_res (cb_assert (0 \<le> index \<and> index < int n)) (\<lambda>_. if index = self then Inr (um_msg m) else slot (um_inbox m) index)"

definition uniform_all_received :: "int \<Rightarrow> 'a uniform_msg \<Rightarrow> ('a list \<times> 'a uniform_msg) res" where
  "uniform_all_received self m = bind_res (slot (um_inbox m) self) (\<lambda>_.
     let inbox = (um_inbox m)[nat self := um_msg m] in Inr (inbox, m\<lparr>um_inbox := inbox\<rparr>))"

record 'a nonuniform_msg =
  nm_msgs :: "'a list"
  nm_inbox :: "'a list"
  is_inplace :: bool

definition nonuniform_new :: "'a \<Rightarrow> nat \<Rightarrow> 'a nonuniform_msg" where
  "nonuniform_new dflt n = \<lparr>nm_msgs = replicate n dflt, nm_inbox = replicate n dflt, is_inplace = False\<rparr>"

definition inplace_new :: "(nat \<Rightarrow> 'a) \<Rightarrow> nat \<Rightarrow> 'a nonuniform_msg" where
  "inplace_new f n = \<lparr>nm_msgs = map f [0..<n], nm_inbox = [], is_inplace = True\<rparr>"

definition nonuniform_ops :: "'a conv \<Rightarrow> int \<Rightarrow> 'a nonuniform_msg msg_ops" where
  "nonuniform_ops conv self = \<lparr>
     pack = (\<lambda>m index c. bind_res (slot (nm_msgs m) index) (\<lambda>x. bind_res (conv x c) (\<lambda>(_, c). Inr c))),
     unpack = (\<lambda>index m c.
       if is_inplace m \<or> index = self
       then bind_res (slot (nm_msgs m) index) (\<lambda>d. bind_res (conv d c) (\<lambda>(x, c). Inr (m\<lparr>nm_msgs := (nm_msgs m)[nat index := x]\<rparr>, c)))
       else bind_res (slot (nm_inbox m) index) (\<lambda>d. bind_res (conv d c) (\<lambda>(x, c). Inr (m\<lparr>nm_inbox := (nm_inbox m)[nat index := x]\<rparr>, c))))\<rparr>"

definition nonuniform_received :: "int \<Rightarrow> nat \<Rightarrow> 'a nonuniform_msg \<Rightarrow> int \<Rightarrow> 'a res" where
  "nonuniform_received self n m index =
     bind_res (cb_assert (0 \<le> index \<and> index < int n)) (\<lambda>_.
       if is_inplace m then slot (nm_msgs m) index
       else if index = self then slot (nm_msgs m) index else slot (nm_inbox m) index)"

text \<open>Several messages in one call, and a tuple of messages: one after the other, reading stops at the first error.\<close>

definition pair_ops :: "'m msg_ops \<Rightarrow> 'n msg_ops \<Rightarrow> ('m \<times> 'n) msg_ops" where
  "pair_ops a b = \<lparr>
     pack = (\<lambda>(m, k) index c. bind_res (pack a m index c) (pack b k index)),
     unpack = (\<lambda>index (m, k) c. bind_res (unpack a index m c) (\<lambda>(m, c).
       if is_error c then Inr ((m, k), c) else bind_res (unpack b index k c) (\<lambda>(k, c). Inr ((m, k), c))))\<rparr>"

section \<open>Packing\<close>

definition pack_msgs_for_party :: "(nat \<Rightarrow> u8) \<Rightarrow> 'm msg_ops \<Rightarrow> int \<Rightarrow> 'm \<Rightarrow> bytes res" where
  "pack_msgs_for_party fill ops index m =
     bind_res (pack ops m index converter_calc) (\<lambda>c.
     bind_res (pack ops m index (converter_out (map fill [0..<nat (coffset c)]))) (\<lambda>c. Inr (the (cpointer c))))"

definition unpack_msgs_for_party :: "'m msg_ops \<Rightarrow> int \<Rightarrow> bytes \<Rightarrow> 'm \<Rightarrow> 'm res" where
  "unpack_msgs_for_party ops index mem m =
     bind_res (unpack ops index m (converter_in mem)) (\<lambda>(m, c).
       case rv_error c of Some e \<Rightarrow> error e
       | None \<Rightarrow> if coffset c \<noteq> csize c then error E_FORMAT else Inr m)"

definition pack_msgs :: "(nat \<Rightarrow> u8) \<Rightarrow> ('w, 'pid) mpc_job \<Rightarrow> 'm msg_ops \<Rightarrow> party_set \<Rightarrow> 'm \<Rightarrow> bytes list res" where
  "pack_msgs fill job ops pset m =
     map_res (\<lambda>i. bind_res (ps_has pset (int i)) (\<lambda>b. if \<not> b then Inr [] else pack_msgs_for_party fill ops (int i) m)) [0..<n_parties job]"

definition unpack_msgs :: "('w, 'pid) mpc_job \<Rightarrow> 'm msg_ops \<Rightarrow> party_set \<Rightarrow> bytes list \<Rightarrow> 'm \<Rightarrow> 'm res" where
  "unpack_msgs job ops pset received m =
     fold_res (\<lambda>i m. bind_res (ps_has pset (int i)) (\<lambda>b.
       if \<not> b \<or> int i = party_index job then Inr m
       else bind_res (slot received (int i)) (\<lambda>mem. unpack_msgs_for_party ops (int i) mem m))) [0..<n_parties job] m"

section \<open>Rounds\<close>

definition send_to_parties :: "('w, 'pid) mpc_job \<Rightarrow> party_set \<Rightarrow> bytes list \<Rightarrow> 'w \<Rightarrow> 'w res" where
  "send_to_parties job pset inp w =
     bind_res (ps_remove pset (party_index job)) (\<lambda>pset.
       fold_res (\<lambda>i w. bind_res (ps_has pset (int i)) (\<lambda>b.
         if \<not> b then Inr w else bind_res (slot inp (int i)) (\<lambda>msg. send_impl job (int i) msg w))) [0..<n_parties job] w)"

fun peer_roles :: "party_set \<Rightarrow> nat list \<Rightarrow> int list res" where
  "peer_roles pset [] = Inr []"
| "peer_roles pset (i # is) = bind_res (ps_has pset (int i)) (\<lambda>b.
     bind_res (peer_roles pset is) (\<lambda>rest. Inr (if b then int i # rest else rest)))"

text \<open>\<^verbatim>\<open>v.resize(n)\<close> and the distribution of the received buffers.\<close>

definition resize_list :: "nat \<Rightarrow> 'a \<Rightarrow> 'a list \<Rightarrow> 'a list" where
  "resize_list n d v = take n v @ replicate (n - length v) d"

definition distribute :: "party_set \<Rightarrow> bytes list \<Rightarrow> nat list \<Rightarrow> bytes list \<times> nat \<Rightarrow> (bytes list \<times> nat) res" where
  "distribute pset outs = fold_res (\<lambda>i (v, n). bind_res (ps_has pset (int i)) (\<lambda>b.
     if \<not> b then Inr (v, n) else bind_res (slot outs (int n)) (\<lambda>out. Inr (v[i := out], n + 1))))"

definition receive_from_parties :: "('w, 'pid) mpc_job \<Rightarrow> party_set \<Rightarrow> bytes list \<Rightarrow> 'w \<Rightarrow> (bytes list \<times> 'w) res" where
  "receive_from_parties job pset v w =
     bind_res (ps_remove pset (party_index job)) (\<lambda>pset.
     bind_res (peer_roles pset [0..<n_parties job]) (\<lambda>peers.
     bind_res (receive_many_impl job peers w) (\<lambda>(outs, w).
     bind_res (distribute pset outs [0..<n_parties job] (resize_list (n_parties job) [] v, 0)) (\<lambda>(v, _). Inr (v, w)))))"

definition group_message ::
  "(nat \<Rightarrow> u8) \<Rightarrow> ('w, 'pid) mpc_job \<Rightarrow> 'm msg_ops \<Rightarrow> party_set \<Rightarrow> party_set \<Rightarrow> 'm \<Rightarrow> 'w \<Rightarrow> ('m \<times> 'w) res" where
  "group_message fill job ops to_set from_set m w =
     bind_res (if \<not> ps_is_empty to_set
               then bind_res (pack_msgs fill job ops to_set m) (\<lambda>send. send_to_parties job to_set send w) else Inr w) (\<lambda>w.
     if \<not> ps_is_empty from_set
     then bind_res (receive_from_parties job from_set [] w) (\<lambda>(receive, w).
          bind_res (unpack_msgs job ops from_set receive m) (\<lambda>m. Inr (m, w)))
     else Inr (m, w))"

definition plain_broadcast :: "(nat \<Rightarrow> u8) \<Rightarrow> ('w, 'pid) mpc_job \<Rightarrow> 'm msg_ops \<Rightarrow> 'm \<Rightarrow> 'w \<Rightarrow> ('m \<times> 'w) res" where
  "plain_broadcast fill job ops m w = group_message fill job ops ps_all ps_all m w"

definition send_message_all_to_one ::
  "(nat \<Rightarrow> u8) \<Rightarrow> ('w, 'pid) mpc_job \<Rightarrow> 'm msg_ops \<Rightarrow> int \<Rightarrow> 'm \<Rightarrow> 'w \<Rightarrow> ('m \<times> 'w) res" where
  "send_message_all_to_one fill job ops dest m w =
     (if party_index job = dest then group_message fill job ops ps_empty ps_all m w
      else bind_res (ps_of dest) (\<lambda>pset. group_message fill job ops pset ps_empty m w))"

definition job_send :: "(nat \<Rightarrow> u8) \<Rightarrow> ('w, 'pid) mpc_job \<Rightarrow> 'a conv \<Rightarrow> int \<Rightarrow> 'a \<Rightarrow> 'w \<Rightarrow> 'w res" where
  "job_send fill job conv dest msg w = bind_res (ser fill conv msg) (\<lambda>bs. send_impl job dest bs w)"

definition job_receive :: "('w, 'pid) mpc_job \<Rightarrow> 'a conv \<Rightarrow> int \<Rightarrow> 'a \<Rightarrow> 'w \<Rightarrow> ('a \<times> 'w) res" where
  "job_receive job conv from msg w =
     bind_res (receive_impl job from w) (\<lambda>(buf, w).
       if length buf \<le> 0 then error E_NET_GENERAL
       else bind_res (deser conv msg buf) (\<lambda>msg. Inr (msg, w)))"

definition send_receive_message ::
  "(nat \<Rightarrow> u8) \<Rightarrow> ('w, 'pid) mpc_job \<Rightarrow> 'a conv \<Rightarrow> int \<Rightarrow> int \<Rightarrow> 'a \<Rightarrow> 'w \<Rightarrow> ('a \<times> ('w, 'pid) mpc_job \<times> 'w) res" where
  "send_receive_message fill job conv from dest msg w =
     (let job = job\<lparr>message_sending := True\<rparr>
      in bind_res (if is_party_idx job from then job_send fill job conv dest msg w else Inr w) (\<lambda>w.
         bind_res (if is_party_idx job dest then job_receive job conv from msg w else Inr (msg, w)) (\<lambda>(msg, w).
         Inr (msg, job\<lparr>message_sending := False\<rparr>, w))))"

definition p1_to_p2 where "p1_to_p2 fill job conv msg w = send_receive_message fill job conv 0 1 msg w"

definition p2_to_p1 where "p2_to_p1 fill job conv msg w = send_receive_message fill job conv 1 0 msg w"

section \<open>What a container promises\<close>

lemma reader_in:
  assumes "int (length bin) \<le> INT_MAX"
  shows "wf_reader (converter_in bin)" "unread (converter_in bin) = bin" "\<not> is_error (converter_in bin)"
  using assms by (simp_all add: wf_reader_def converter_in_def unread_def is_error_def)

locale mpc_msg =
  fixes ops :: "'m msg_ops" and self :: int and n :: nat
    and enc :: "'m \<Rightarrow> int \<Rightarrow> bytes" and ok :: "'m \<Rightarrow> bool" and store :: "'m \<Rightarrow> int \<Rightarrow> 'm \<Rightarrow> 'm"
  assumes pack_write: "ok m \<Longrightarrow> 0 \<le> i \<Longrightarrow> i < int n \<Longrightarrow> room (enc m i) c \<Longrightarrow> pack ops m i c = Inr (emit (enc m i) c)"
    and unpack_read: "ok m \<Longrightarrow> ok m' \<Longrightarrow> 0 \<le> i \<Longrightarrow> i < int n \<Longrightarrow> i \<noteq> self \<Longrightarrow> wf_reader c \<Longrightarrow> \<not> is_error c \<Longrightarrow>
      unread c = enc m' self @ r \<Longrightarrow> unpack ops i m c = Inr (store m i m', advance (length (enc m' self)) c)"
    and store_ok: "ok m \<Longrightarrow> ok m' \<Longrightarrow> 0 \<le> i \<Longrightarrow> i < int n \<Longrightarrow> i \<noteq> self \<Longrightarrow> ok (store m i m')"
begin

lemma pack_for_party:
  assumes "ok m" "0 \<le> i" "i < int n" "int (length (enc m i)) \<le> INT_MAX"
  shows "pack_msgs_for_party fill ops i m = Inr (enc m i)"
proof -
  have "pack ops m i converter_calc = Inr (emit (enc m i) converter_calc)"
    using assms by (intro pack_write) (simp_all add: room_calc)
  moreover have "pack ops m i (converter_out (map fill [0..<length (enc m i)])) = Inr (emit (enc m i) (converter_out (map fill [0..<length (enc m i)])))"
    using assms by (intro pack_write) (simp_all add: room_out)
  ultimately show ?thesis by (simp add: pack_msgs_for_party_def emit_def converter_calc_def converter_out_def)
qed

lemma unpack_for_party:
  assumes "ok m" "ok m'" "0 \<le> i" "i < int n" "i \<noteq> self" "int (length (enc m' self @ r)) \<le> INT_MAX"
  shows "unpack_msgs_for_party ops i (enc m' self @ r) m = (if r = [] then Inr (store m i m') else error E_FORMAT)"
proof -
  have "unpack ops i m (converter_in (enc m' self @ r)) = Inr (store m i m', advance (length (enc m' self)) (converter_in (enc m' self @ r)))"
    using reader_in [OF assms(6)] assms by (intro unpack_read [of m m' i _ r]) simp_all
  then show ?thesis by (simp add: unpack_msgs_for_party_def converter_in_def)
qed

definition collected :: "(nat \<Rightarrow> bool) \<Rightarrow> (nat \<Rightarrow> 'm) \<Rightarrow> nat list \<Rightarrow> 'm \<Rightarrow> 'm" where
  "collected P ms = fold (\<lambda>i m. if P i then store m (int i) (ms i) else m)"

lemma collected_none: "(\<And>i. \<not> P i) \<Longrightarrow> collected P ms is m = m"
  by (induction "is") (auto simp: collected_def)

lemma unpack_fold:
  assumes "\<And>i. i \<in> set is \<Longrightarrow> i < n \<and> i < 64" "\<And>i. i \<in> set is \<Longrightarrow> int i \<in> ps_members pset \<Longrightarrow> int i \<noteq> self \<Longrightarrow>
      i < length received \<and> received ! i = enc (ms i) self \<and> ok (ms i) \<and> int (length (enc (ms i) self)) \<le> INT_MAX"
    "ok m"
  shows "fold_res (\<lambda>i m. bind_res (ps_has pset (int i)) (\<lambda>b. if \<not> b \<or> int i = self then Inr m
       else bind_res (slot received (int i)) (\<lambda>mem. unpack_msgs_for_party ops (int i) mem m))) is m
     = Inr (collected (\<lambda>i. int i \<in> ps_members pset \<and> int i \<noteq> self) ms is m)"
  using assms
proof (induction "is" arbitrary: m)
  case Nil
  then show ?case by (simp add: collected_def)
next
  case (Cons i "is")
  have i: "i < n" "i < 64" using Cons.prems(1) by auto
  show ?case
  proof (cases "int i \<in> ps_members pset \<and> int i \<noteq> self")
    case True
    then have r: "i < length received" "received ! i = enc (ms i) self" "ok (ms i)" "int (length (enc (ms i) self)) \<le> INT_MAX"
      using Cons.prems(2) by auto
    have "unpack_msgs_for_party ops (int i) (enc (ms i) self) m = Inr (store m (int i) (ms i))"
      using unpack_for_party [of m "ms i" "int i" "[]"] Cons.prems(3) r i True by simp
    moreover have "ok (store m (int i) (ms i))" using store_ok Cons.prems(3) r i True by simp
    ultimately show ?thesis using Cons True r i by (simp add: ps_has_iff slot_def collected_def)
  next
    case False
    then show ?thesis using Cons i by (auto simp: ps_has_iff collected_def)
  qed
qed

end

section \<open>Transports\<close>

text \<open>
  What the rounds rely on of a transport: a message that is sent is appended to the channel of sender and receiver, and
  receiving takes the oldest message of the channel, once it is there.
\<close>

definition delivers :: "'w transport \<Rightarrow> int \<Rightarrow> ('w \<Rightarrow> int \<Rightarrow> int \<Rightarrow> bytes list) \<Rightarrow> bool" where
  "delivers t self chan \<longleftrightarrow>
     (\<forall>dest m w. \<exists>w'. t_send t dest m w = Inr w' \<and> (\<forall>a b. chan w' a b = (if a = self \<and> b = dest then chan w a b @ [m] else chan w a b)))
   \<and> (\<forall>src w. chan w src self \<noteq> [] \<longrightarrow> (\<exists>w'. t_receive t src w = Inr (hd (chan w src self), w')
        \<and> (\<forall>a b. chan w' a b = (if a = src \<and> b = self then tl (chan w a b) else chan w a b))))
   \<and> (\<forall>srcs w. distinct srcs \<and> (\<forall>f \<in> set srcs. chan w f self \<noteq> []) \<longrightarrow>
        (\<exists>w'. t_receive_all t srcs w = Inr (map (\<lambda>f. hd (chan w f self)) srcs, w')
          \<and> (\<forall>a b. chan w' a b = (if a \<in> set srcs \<and> b = self then tl (chan w a b) else chan w a b))))"

definition job_ready :: "('w, 'pid) mpc_job \<Rightarrow> int \<Rightarrow> nat \<Rightarrow> 'w transport \<Rightarrow> bool" where
  "job_ready job self n t \<longleftrightarrow> party_index job = self \<and> n_parties job = n \<and> 0 \<le> self \<and> self < int n \<and> n \<le> 64 \<and> transport_raw job = Some t"

lemma new_job_ready:
  assumes "validate_job_mp job = success"
  shows "\<exists>j. to_internal_job_mp pid_from_name job t = Inr j \<and> job_ready j (self_mp job) (length (mp_party_names job)) t"
  using assms by (auto simp: validate_job_mp_iff valid_names_def to_internal_job_mp_def new_job_def job_ready_def Let_def)

definition peers :: "party_set \<Rightarrow> int \<Rightarrow> nat \<Rightarrow> int set" where
  "peers pset self n = {i \<in> ps_members pset. i < int n \<and> i \<noteq> self}"

lemma members_removed:
  assumes "0 \<le> self" "self < 64"
  shows "\<exists>q. ps_remove pset self = Inr q \<and> ps_members q = ps_members pset - {self}"
  using ps_members_ops(2) [OF assms] .

lemma send_fold:
  assumes "delivers t self chan" "transport_raw job = Some t" "distinct is" "\<And>i. i \<in> set is \<Longrightarrow> i < length inp \<and> i < 64"
  shows "\<exists>w'. fold_res (\<lambda>i w. bind_res (ps_has pset (int i)) (\<lambda>b.
         if \<not> b then Inr w else bind_res (slot inp (int i)) (\<lambda>msg. send_impl job (int i) msg w))) is w = Inr w'
     \<and> (\<forall>a b. chan w' a b = (if a = self \<and> b \<in> ps_members pset \<and> b \<in> int ` set is then chan w a b @ [inp ! nat b] else chan w a b))"
  using assms(3,4)
proof (induction "is" arbitrary: w)
  case (Cons i "is")
  have i: "i < length inp" "i < 64" "i \<notin> set is" using Cons.prems by auto
  show ?case
  proof (cases "int i \<in> ps_members pset")
    case True
    obtain w1 where w1: "t_send t (int i) (inp ! i) w = Inr w1"
        "\<forall>a b. chan w1 a b = (if a = self \<and> b = int i then chan w a b @ [inp ! i] else chan w a b)"
      using assms(1) unfolding delivers_def by blast
    obtain w2 where w2: "fold_res (\<lambda>i w. bind_res (ps_has pset (int i)) (\<lambda>b.
         if \<not> b then Inr w else bind_res (slot inp (int i)) (\<lambda>msg. send_impl job (int i) msg w))) is w1 = Inr w2"
        "\<forall>a b. chan w2 a b = (if a = self \<and> b \<in> ps_members pset \<and> b \<in> int ` set is then chan w1 a b @ [inp ! nat b] else chan w1 a b)"
      using Cons.IH [of w1] Cons.prems by auto
    then show ?thesis using True i w1 assms(2) by (auto simp: ps_has_iff slot_def send_impl_def)
  next
    case False
    then show ?thesis using Cons.IH [of w] Cons.prems i by (auto simp: ps_has_iff)
  qed
qed simp

lemma send_to_parties_ok:
  assumes "delivers t self chan" "job_ready job self n t" "length inp = n"
  shows "\<exists>w'. send_to_parties job pset inp w = Inr w'
     \<and> (\<forall>a b. chan w' a b = (if a = self \<and> b \<in> peers pset self n then chan w a b @ [inp ! nat b] else chan w a b))"
proof -
  have j: "party_index job = self" "n_parties job = n" "0 \<le> self" "self < 64" "n \<le> 64" "transport_raw job = Some t"
    using assms(2) by (auto simp: job_ready_def)
  obtain q where q: "ps_remove pset self = Inr q" "ps_members q = ps_members pset - {self}" using members_removed [OF j(3,4)] by blast
  have "b \<in> ps_members q \<and> b \<in> int ` set [0..<n] \<longleftrightarrow> b \<in> peers pset self n" for b
    using q(2) image_int_atLeastLessThan [of 0 n] by (auto simp: peers_def ps_members_def)
  moreover have "\<And>i. i \<in> set [0..<n] \<Longrightarrow> i < length inp \<and> i < 64" using assms(3) j(5) by auto
  ultimately show ?thesis using send_fold [OF assms(1) j(6) distinct_upt, of 0 n inp q w] q(1) j(1,2) by (simp add: send_to_parties_def)
qed

lemma peer_roles_eq:
  "(\<And>i. i \<in> set is \<Longrightarrow> i < 64) \<Longrightarrow> peer_roles pset is = Inr (map int (filter (\<lambda>i. int i \<in> ps_members pset) is))"
  by (induction "is") (auto simp: ps_has_iff)

lemma distribute_eq:
  assumes "distinct is" "\<And>i. i \<in> set is \<Longrightarrow> i < 64 \<and> i < length v"
  shows "\<exists>v' k. distribute pset (pre @ map g (filter (\<lambda>i. int i \<in> ps_members pset) is)) is (v, length pre) = Inr (v', k) \<and> length v' = length v
     \<and> (\<forall>i < length v. v' ! i = (if i \<in> set is \<and> int i \<in> ps_members pset then g i else v ! i))"
  using assms
proof (induction "is" arbitrary: v pre)
  case (Cons i "is")
  have i: "i < 64" "i < length v" "i \<notin> set is" using Cons.prems by auto
  show ?case
  proof (cases "int i \<in> ps_members pset")
    case True
    obtain v' k where "distribute pset ((pre @ [g i]) @ map g (filter (\<lambda>i. int i \<in> ps_members pset) is)) is (v[i := g i], length (pre @ [g i])) = Inr (v', k)"
        "length v' = length v" "\<forall>j < length v. v' ! j = (if j \<in> set is \<and> int j \<in> ps_members pset then g j else v[i := g i] ! j)"
      using Cons.IH [of "v[i := g i]" "pre @ [g i]"] Cons.prems by auto
    then show ?thesis using True i by (auto simp: distribute_def ps_has_iff slot_def nth_list_update)
  next
    case False
    then show ?thesis using Cons.IH [of v pre] Cons.prems i by (auto simp: distribute_def ps_has_iff)
  qed
qed (simp add: distribute_def)

lemma receive_from_parties_ok:
  assumes "delivers t self chan" "job_ready job self n t" "\<And>i. i \<in> peers pset self n \<Longrightarrow> chan w i self \<noteq> []"
  shows "\<exists>v w'. receive_from_parties job pset [] w = Inr (v, w') \<and> length v = n
     \<and> (\<forall>i < n. int i \<in> peers pset self n \<longrightarrow> v ! i = hd (chan w (int i) self))
     \<and> (\<forall>a b. chan w' a b = (if a \<in> peers pset self n \<and> b = self then tl (chan w a b) else chan w a b))"
proof -
  have j: "party_index job = self" "n_parties job = n" "0 \<le> self" "self < 64" "n \<le> 64" "transport_raw job = Some t"
    using assms(2) by (auto simp: job_ready_def)
  obtain q where q: "ps_remove pset self = Inr q" "ps_members q = ps_members pset - {self}" using members_removed [OF j(3,4)] by blast
  let ?is = "filter (\<lambda>i. int i \<in> ps_members q) [0..<n]"
  have set: "set (map int ?is) = peers pset self n"
  proof -
    have "set (map int ?is) = {i \<in> int ` {0..<n}. i \<in> ps_members q}" by auto
    also have "\<dots> = peers pset self n" using q(2) image_int_atLeastLessThan [of 0 n] by (auto simp: peers_def ps_members_def)
    finally show ?thesis .
  qed
  have "distinct (map int ?is)" by (simp add: distinct_map)
  moreover have "\<forall>f \<in> set (map int ?is). chan w f self \<noteq> []" using assms(3) unfolding set by blast
  ultimately obtain w' where w': "t_receive_all t (map int ?is) w = Inr (map (\<lambda>f. hd (chan w f self)) (map int ?is), w')"
      "\<forall>a b. chan w' a b = (if a \<in> peers pset self n \<and> b = self then tl (chan w a b) else chan w a b)"
    using assms(1) unfolding delivers_def set [symmetric] by blast
  obtain v k where v: "distribute q (map (\<lambda>i. hd (chan w (int i) self)) ?is) [0..<n] (replicate n [], 0) = Inr (v, k)" "length v = n"
      "\<forall>i < n. v ! i = (if i \<in> set [0..<n] \<and> int i \<in> ps_members q then hd (chan w (int i) self) else replicate n [] ! i)"
    using distribute_eq [OF distinct_upt, of 0 n "replicate n []" q "[]" "\<lambda>i. hd (chan w (int i) self)"] j(5) by auto
  have "peer_roles q [0..<n] = Inr (map int ?is)" using j(5) by (intro peer_roles_eq) auto
  then have "receive_from_parties job pset [] w = Inr (v, w')"
    using j q(1) w'(1) v(1) by (simp add: receive_from_parties_def receive_many_impl_def resize_list_def comp_def)
  then show ?thesis using v(2,3) w'(2) q(2) by (auto simp: peers_def)
qed

context mpc_msg
begin

lemma pack_all:
  assumes "job_ready job self n t" "ok m" "\<And>i. i < n \<Longrightarrow> int i \<in> ps_members pset \<Longrightarrow> int (length (enc m (int i))) \<le> INT_MAX"
  shows "pack_msgs fill job ops pset m = Inr (map (\<lambda>i. if int i \<in> ps_members pset then enc m (int i) else []) [0..<n])"
proof -
  have "n_parties job = n" "n \<le> 64" using assms(1) by (simp_all add: job_ready_def)
  then show ?thesis unfolding pack_msgs_def using assms(2,3)
    by (auto simp: ps_has_iff pack_for_party intro!: map_res_Inr)
qed

lemma send_round:
  assumes "delivers t self chan" "job_ready job self n t" "ok m"
    "\<And>i. i < n \<Longrightarrow> int i \<in> ps_members to_set \<Longrightarrow> int (length (enc m (int i))) \<le> INT_MAX"
  shows "\<exists>w1. (if \<not> ps_is_empty to_set then bind_res (pack_msgs fill job ops to_set m) (\<lambda>send. send_to_parties job to_set send w) else Inr w) = Inr w1
      \<and> (\<forall>a b. chan w1 a b = (if a = self \<and> b \<in> peers to_set self n then chan w a b @ [enc m b] else chan w a b))"
proof (cases "ps_is_empty to_set")
  case True
  then show ?thesis by (simp add: ps_is_empty_iff peers_def)
next
  case False
  let ?bufs = "map (\<lambda>i. if int i \<in> ps_members to_set then enc m (int i) else []) [0..<n]"
  obtain w1 where w1: "send_to_parties job to_set ?bufs w = Inr w1"
      "\<forall>a b. chan w1 a b = (if a = self \<and> b \<in> peers to_set self n then chan w a b @ [?bufs ! nat b] else chan w a b)"
    using send_to_parties_ok [OF assms(1,2), of ?bufs to_set w] by auto
  have "?bufs ! nat b = enc m b" if "b \<in> peers to_set self n" for b
    using that by (auto simp: peers_def ps_members_def nth_append)
  then show ?thesis using False pack_all [OF assms(2,3,4), where pset = to_set] w1 by auto
qed

lemma group_round:
  assumes "delivers t self chan" "job_ready job self n t" "ok m"
    "\<And>i. i < n \<Longrightarrow> int i \<in> ps_members to_set \<Longrightarrow> int (length (enc m (int i))) \<le> INT_MAX"
    "\<And>i. int i \<in> peers from_set self n \<Longrightarrow>
       ok (ms i) \<and> int (length (enc (ms i) self)) \<le> INT_MAX \<and> (\<exists>q. chan w (int i) self = enc (ms i) self # q)"
  shows "\<exists>w'. group_message fill job ops to_set from_set m w
       = Inr (collected (\<lambda>i. int i \<in> ps_members from_set \<and> int i \<noteq> self) ms [0..<n] m, w')
     \<and> (\<forall>a b. chan w' a b = (if a = self \<and> b \<in> peers to_set self n then chan w a b @ [enc m b]
         else if a \<in> peers from_set self n \<and> b = self then tl (chan w a b) else chan w a b))"
proof -
  have j: "party_index job = self" "n_parties job = n" "n \<le> 64" using assms(2) by (simp_all add: job_ready_def)
  have self: "self \<notin> peers p self n" for p by (simp add: peers_def)
  obtain w1 where sent: "(if \<not> ps_is_empty to_set then bind_res (pack_msgs fill job ops to_set m) (\<lambda>send. send_to_parties job to_set send w) else Inr w) = Inr w1"
      "\<forall>a b. chan w1 a b = (if a = self \<and> b \<in> peers to_set self n then chan w a b @ [enc m b] else chan w a b)"
    using send_round [OF assms(1-4), of to_set fill w] by blast
  have inq: "chan w1 i self = chan w i self" for i using sent(2) self by simp
  show ?thesis
  proof (cases "ps_is_empty from_set")
    case True
    then have "collected (\<lambda>i. int i \<in> ps_members from_set \<and> int i \<noteq> self) ms [0..<n] m = m" "peers from_set self n = {}"
      by (auto simp: ps_is_empty_iff peers_def intro: collected_none)
    then show ?thesis using True sent by (simp add: group_message_def)
  next
    case False
    have ne: "chan w1 i self \<noteq> []" if "i \<in> peers from_set self n" for i
      using assms(5) [of "nat i"] that inq by (auto simp: peers_def ps_members_def)
    obtain v w2 where v: "receive_from_parties job from_set [] w1 = Inr (v, w2)" "length v = n"
        "\<forall>i < n. int i \<in> peers from_set self n \<longrightarrow> v ! i = hd (chan w1 (int i) self)"
        "\<forall>a b. chan w2 a b = (if a \<in> peers from_set self n \<and> b = self then tl (chan w1 a b) else chan w1 a b)"
      using receive_from_parties_ok [OF assms(1,2) ne] by blast
    have "unpack_msgs job ops from_set v m = Inr (collected (\<lambda>i. int i \<in> ps_members from_set \<and> int i \<noteq> self) ms [0..<n] m)"
      unfolding unpack_msgs_def j
    proof (rule unpack_fold [OF _ _ assms(3)])
      fix i assume "i \<in> set [0..<n]" "int i \<in> ps_members from_set" "int i \<noteq> self"
      then have "int i \<in> peers from_set self n" "i < n" by (simp_all add: peers_def)
      then show "i < length v \<and> v ! i = enc (ms i) self \<and> ok (ms i) \<and> int (length (enc (ms i) self)) \<le> INT_MAX"
        using v(2,3) inq assms(5) [of i] by auto
    qed (use j(3) in auto)
    then show ?thesis using False sent v(1,4) self by (auto simp: group_message_def)
  qed
qed

end

section \<open>The containers\<close>

definition uniform_store :: "'a uniform_msg \<Rightarrow> int \<Rightarrow> 'a uniform_msg \<Rightarrow> 'a uniform_msg" where
  "uniform_store m i m' = m\<lparr>um_inbox := (um_inbox m)[nat i := um_msg m']\<rparr>"

definition nonuniform_store :: "int \<Rightarrow> 'a nonuniform_msg \<Rightarrow> int \<Rightarrow> 'a nonuniform_msg \<Rightarrow> 'a nonuniform_msg" where
  "nonuniform_store self m i m' =
     (if is_inplace m then m\<lparr>nm_msgs := (nm_msgs m)[nat i := nm_msgs m' ! nat self]\<rparr>
      else m\<lparr>nm_inbox := (nm_inbox m)[nat i := nm_msgs m' ! nat self]\<rparr>)"

definition nonuniform_ok :: "('a \<Rightarrow> bool) \<Rightarrow> int \<Rightarrow> nat \<Rightarrow> 'a nonuniform_msg \<Rightarrow> bool" where
  "nonuniform_ok valid self n m \<longleftrightarrow> list_all valid (nm_msgs m) \<and> length (nm_msgs m) = n \<and> (is_inplace m \<or> length (nm_inbox m) = n)
     \<and> 0 \<le> self \<and> self < int n"

locale message_codec = codec conv cenc valid
  for conv :: "'a conv" and cenc :: "'a \<Rightarrow> bytes" and valid :: "'a \<Rightarrow> bool" +
  fixes self :: int and n :: nat

sublocale message_codec \<subseteq> uniform: mpc_msg "uniform_ops conv self" self n "\<lambda>m i. cenc (um_msg m)"
  "\<lambda>m. valid (um_msg m) \<and> length (um_inbox m) = n" uniform_store
proof
  fix m m' :: "'a uniform_msg" and i c r
  assume ok: "valid (um_msg m) \<and> length (um_inbox m) = n" and i: "0 \<le> i" "i < int n"
  show "pack (uniform_ops conv self) m i c = Inr (emit (cenc (um_msg m)) c)" if "room (cenc (um_msg m)) c"
    using conv_write [of "um_msg m" c] ok that by (simp add: uniform_ops_def)
  assume ok': "valid (um_msg m') \<and> length (um_inbox m') = n" and ne: "i \<noteq> self"
  show "unpack (uniform_ops conv self) i m c = Inr (uniform_store m i m', advance (length (cenc (um_msg m'))) c)"
    if "wf_reader c" "\<not> is_error c" "unread c = cenc (um_msg m') @ r"
    using conv_read [of "um_msg m'" c r "um_inbox m ! nat i"] ok ok' i ne that by (simp add: uniform_ops_def slot_def uniform_store_def)
  show "valid (um_msg (uniform_store m i m')) \<and> length (um_inbox (uniform_store m i m')) = n"
    using ok by (simp add: uniform_store_def)
qed

sublocale message_codec \<subseteq> nonuniform: mpc_msg "nonuniform_ops conv self" self n "\<lambda>m i. cenc (nm_msgs m ! nat i)"
  "nonuniform_ok valid self n" "nonuniform_store self"
proof
  fix m m' :: "'a nonuniform_msg" and i c r
  assume ok: "nonuniform_ok valid self n m" and i: "0 \<le> i" "i < int n"
  show "pack (nonuniform_ops conv self) m i c = Inr (emit (cenc (nm_msgs m ! nat i)) c)" if "room (cenc (nm_msgs m ! nat i)) c"
    using conv_write [of "nm_msgs m ! nat i" c] ok i that by (simp add: nonuniform_ops_def slot_def nonuniform_ok_def list_all_length)
  assume ok': "nonuniform_ok valid self n m'" and ne: "i \<noteq> self"
  have v: "valid (nm_msgs m' ! nat self)" using ok' by (auto simp: nonuniform_ok_def list_all_length nat_less_iff)
  show "unpack (nonuniform_ops conv self) i m c = Inr (nonuniform_store self m i m', advance (length (cenc (nm_msgs m' ! nat self))) c)"
    if "wf_reader c" "\<not> is_error c" "unread c = cenc (nm_msgs m' ! nat self) @ r"
    using conv_read [OF v, of c r] ok i ne that by (auto simp: nonuniform_ops_def slot_def nonuniform_store_def nonuniform_ok_def)
  show "nonuniform_ok valid self n (nonuniform_store self m i m')"
    using ok v by (auto simp: nonuniform_ok_def nonuniform_store_def list_all_iff dest: set_update_subset_insert [THEN subsetD])
qed

context message_codec
begin

lemma uniform_collected:
  "um_msg (uniform.collected P ms is m) = um_msg m"
  "length (um_inbox (uniform.collected P ms is m)) = length (um_inbox m)"
  "(\<And>i. i \<in> set is \<Longrightarrow> i < length (um_inbox m)) \<Longrightarrow> distinct is \<Longrightarrow> j < length (um_inbox m) \<Longrightarrow>
     um_inbox (uniform.collected P ms is m) ! j = (if j \<in> set is \<and> P j then um_msg (ms j) else um_inbox m ! j)"
  by (induction "is" arbitrary: m) (auto simp: uniform.collected_def uniform_store_def nth_list_update)

lemma nonuniform_collected:
  assumes "\<not> is_inplace m"
  shows "nm_msgs (nonuniform.collected P ms is m) = nm_msgs m \<and> \<not> is_inplace (nonuniform.collected P ms is m)
     \<and> length (nm_inbox (nonuniform.collected P ms is m)) = length (nm_inbox m)"
    and "(\<And>i. i \<in> set is \<Longrightarrow> i < length (nm_inbox m)) \<Longrightarrow> distinct is \<Longrightarrow> j < length (nm_inbox m) \<Longrightarrow>
     nm_inbox (nonuniform.collected P ms is m) ! j = (if j \<in> set is \<and> P j then nm_msgs (ms j) ! nat self else nm_inbox m ! j)"
  using assms by (induction "is" arbitrary: m) (auto simp: nonuniform.collected_def nonuniform_store_def nth_list_update)

text \<open>A broadcast: every party ends with the message of every party.\<close>

lemma broadcast_round:
  assumes "delivers t self chan" "job_ready job self n t" "uniform_new dflt self n (xs ! nat self) = Inr m" "length xs = n"
    "\<And>x. x \<in> set xs \<Longrightarrow> valid x \<and> int (length (cenc x)) \<le> INT_MAX"
    "\<And>i. 0 \<le> i \<Longrightarrow> i < int n \<Longrightarrow> i \<noteq> self \<Longrightarrow> \<exists>q. chan w i self = cenc (xs ! nat i) # q"
  shows "\<exists>m' w'. plain_broadcast fill job (uniform_ops conv self) m w = Inr (m', w')
     \<and> (\<forall>i < n. uniform_received self n m' (int i) = Inr (xs ! i))
     \<and> (\<forall>i. 0 \<le> i \<and> i < int n \<and> i \<noteq> self \<longrightarrow> chan w' self i = chan w self i @ [cenc (xs ! nat self)] \<and> chan w' i self = tl (chan w i self))"
proof -
  have s: "0 \<le> self" "self < int n" "n \<le> 64" using assms(2) by (auto simp: job_ready_def)
  have m: "um_msg m = xs ! nat self" "length (um_inbox m) = n" using assms(3) by (auto simp: uniform_new_def split: if_splits)
  let ?ms = "\<lambda>i. \<lparr>um_msg = xs ! i, um_inbox = replicate n dflt\<rparr>"
  have x: "valid (xs ! i) \<and> int (length (cenc (xs ! i))) \<le> INT_MAX" if "i < n" for i using assms(4,5) that by simp
  have all: "int i \<in> ps_members ps_all \<longleftrightarrow> i < 64" for i by simp
  have peer: "i \<in> peers ps_all self n \<longleftrightarrow> 0 \<le> i \<and> i < int n \<and> i \<noteq> self" for i using s(3) by (auto simp: peers_def)
  have ok: "valid (um_msg m) \<and> length (um_inbox m) = n" using m x [of "nat self"] s by (simp add: nat_less_iff)
  have came: "(valid (um_msg (?ms i)) \<and> length (um_inbox (?ms i)) = n) \<and> int (length (cenc (um_msg (?ms i)))) \<le> INT_MAX
      \<and> (\<exists>q. chan w (int i) self = cenc (um_msg (?ms i)) # q)" if "int i \<in> peers ps_all self n" for i
    using that x [of i] assms(6) [of "int i"] unfolding peer by simp
  have sizes: "int (length (cenc (um_msg m))) \<le> INT_MAX" using m(1) x [of "nat self"] s by (simp add: nat_less_iff)
  obtain w' where w': "group_message fill job (uniform_ops conv self) ps_all ps_all m w
       = Inr (uniform.collected (\<lambda>i. int i \<in> ps_members ps_all \<and> int i \<noteq> self) ?ms [0..<n] m, w')"
     "\<forall>a b. chan w' a b = (if a = self \<and> b \<in> peers ps_all self n then chan w a b @ [cenc (um_msg m)]
         else if a \<in> peers ps_all self n \<and> b = self then tl (chan w a b) else chan w a b)"
    using uniform.group_round [OF assms(1,2) ok sizes came, of ps_all fill] by blast
  have "uniform_received self n (uniform.collected (\<lambda>i. int i \<in> ps_members ps_all \<and> int i \<noteq> self) ?ms [0..<n] m) (int i) = Inr (xs ! i)"
    if "i < n" for i
    using that m s(3) uniform_collected(1,2) uniform_collected(3) [of "[0..<n]" m i "\<lambda>i. int i \<in> ps_members ps_all \<and> int i \<noteq> self" ?ms]
    by (auto simp: uniform_received_def slot_def)
  then show ?thesis using w' m(1) by (auto simp: plain_broadcast_def peer)
qed

text \<open>A round in which every party sends a message of its own to each other party.\<close>

lemma exchange_round:
  assumes "delivers t self chan" "job_ready job self n t" "nonuniform_ok valid self n m" "\<not> is_inplace m"
    "\<And>x. x \<in> set (nm_msgs m) \<Longrightarrow> int (length (cenc x)) \<le> INT_MAX"
    "\<And>i. i < n \<Longrightarrow> int i \<noteq> self \<Longrightarrow> valid (xs i) \<and> int (length (cenc (xs i))) \<le> INT_MAX \<and> (\<exists>q. chan w (int i) self = cenc (xs i) # q)"
  shows "\<exists>m' w'. group_message fill job (nonuniform_ops conv self) ps_all ps_all m w = Inr (m', w')
     \<and> (\<forall>i < n. nonuniform_received self n m' (int i) = Inr (if int i = self then nm_msgs m ! i else xs i))
     \<and> (\<forall>i < n. int i \<noteq> self \<longrightarrow> chan w' self (int i) = chan w self (int i) @ [cenc (nm_msgs m ! i)])"
proof -
  have s: "0 \<le> self" "self < int n" "n \<le> 64" using assms(2) by (auto simp: job_ready_def)
  have len: "length (nm_msgs m) = n" "length (nm_inbox m) = n" using assms(3,4) by (auto simp: nonuniform_ok_def)
  let ?ms = "\<lambda>i. \<lparr>nm_msgs = replicate n (xs i), nm_inbox = replicate n (xs i), is_inplace = False\<rparr>"
  have mine: "replicate n x ! nat self = x" for x :: 'a using s by (simp add: nat_less_iff)
  have peer: "i \<in> peers ps_all self n \<longleftrightarrow> 0 \<le> i \<and> i < int n \<and> i \<noteq> self" for i using s(3) by (auto simp: peers_def)
  have sizes: "int (length (cenc (nm_msgs m ! nat (int i)))) \<le> INT_MAX" if "i < n" for i using assms(5) len(1) that by simp
  have came: "nonuniform_ok valid self n (?ms i) \<and> int (length (cenc (nm_msgs (?ms i) ! nat self))) \<le> INT_MAX
      \<and> (\<exists>q. chan w (int i) self = cenc (nm_msgs (?ms i) ! nat self) # q)" if "int i \<in> peers ps_all self n" for i
    using that assms(6) [of i] s mine unfolding peer by (simp add: nonuniform_ok_def list_all_length)
  let ?m = "nonuniform.collected (\<lambda>i. int i \<in> ps_members ps_all \<and> int i \<noteq> self) ?ms [0..<n] m"
  obtain w' where w': "group_message fill job (nonuniform_ops conv self) ps_all ps_all m w = Inr (?m, w')"
     "\<forall>a b. chan w' a b = (if a = self \<and> b \<in> peers ps_all self n then chan w a b @ [cenc (nm_msgs m ! nat b)]
         else if a \<in> peers ps_all self n \<and> b = self then tl (chan w a b) else chan w a b)"
    using nonuniform.group_round [OF assms(1,2,3) sizes came, where to_set = ps_all and fill = fill] by blast
  have "nonuniform_received self n ?m (int i) = Inr (if int i = self then nm_msgs m ! i else xs i)" if "i < n" for i
    using that s(3) len mine nonuniform_collected(1) [OF assms(4)]
      nonuniform_collected(2) [OF assms(4), of "[0..<n]" i "\<lambda>i. int i \<in> ps_members ps_all \<and> int i \<noteq> self" ?ms]
    by (auto simp: nonuniform_received_def slot_def)
  then show ?thesis using w' peer by auto
qed

end

context codec
begin

lemma two_party_send:
  assumes "delivers t 0 chan" "transport_raw job = Some t" "party_index job = 0" "valid x" "int (length (enc x)) \<le> INT_MAX"
  shows "\<exists>w'. p1_to_p2 fill job conv x w = Inr (x, job\<lparr>message_sending := False\<rparr>, w') \<and> chan w' 0 1 = chan w 0 1 @ [enc x]"
proof -
  obtain w' where "t_send t 1 (enc x) w = Inr w'" "chan w' 0 1 = chan w 0 1 @ [enc x]" using assms(1) unfolding delivers_def by metis
  then show ?thesis using assms ser_encodes [OF assms(4,5), of fill]
    by (simp add: p1_to_p2_def send_receive_message_def is_party_idx_def job_send_def send_impl_def Let_def)
qed

lemma two_party_receive:
  assumes "delivers t 1 chan" "transport_raw job = Some t" "party_index job = 1" "valid x" "int (length (enc x)) \<le> INT_MAX" "enc x \<noteq> []"
    "chan w 0 1 = enc x # q"
  shows "\<exists>w'. p1_to_p2 fill job conv d w = Inr (x, job\<lparr>message_sending := False\<rparr>, w') \<and> chan w' 0 1 = q"
proof -
  obtain w' where "t_receive t 0 w = Inr (hd (chan w 0 1), w')" "chan w' 0 1 = tl (chan w 0 1)"
    using assms(1,7) unfolding delivers_def by (metis list.distinct(1))
  then show ?thesis using assms deser_encoding(1) [OF assms(4), of "[]" d]
    by (simp add: p1_to_p2_def send_receive_message_def is_party_idx_def job_receive_def receive_impl_def Let_def)
qed

end

interpretation buf_msg: message_codec convert_buf enc_buf "\<lambda>value. length value \<le> MAX_CONVERT_LEN" self n
  for self n
  by unfold_locales

section \<open>An invalid party index\<close>

lemma new_job_any_index:
  assumes "2 \<le> length names" "length names \<le> 64" "i < 0 \<or> int (length names) \<le> i"
  shows "\<exists>j. new_job pid_from_name i names t = Inr j \<and> party_index j = i \<and> get_pid j (party_index j) = Inl Out_Of_Bounds
     \<and> get_name j (party_index j) = Inl Out_Of_Bounds"
  using assms by (auto simp: new_job_def get_pid_def get_name_def Let_def)

lemma enc_buf_length: "length (enc_buf x) \<le> length x + 4"
  by (simp add: enc_buf_def write_len_def)

lemma enc_buf_fits: "length x \<le> MAX_CONVERT_LEN \<Longrightarrow> int (length (enc_buf x)) \<le> INT_MAX"
  using enc_buf_length [of x] by (simp add: MAX_CONVERT_LEN_def INT_MAX_def)

end
