(* ===== verification/Examples_Api.thy ===== *)
theory Examples_Api
  imports Examples C_Transport Messages
begin

text \<open>
  Concrete access structures, jobs, C arrays and a C transport on which the properties of the interfaces are applied.
\<close>

definition ex_as :: access_structure where
  "ex_as = as_Threshold 2 [as_Leaf ''a'', as_And [as_Leaf ''b'', as_Leaf ''c''], as_Leaf ''d'']"

lemma ex_as_facts:
  "as_shape ex_as" "as_height ex_as \<le> MAX_DEPTH" "as_size ex_as \<le> MAX_NODES" "as_kind ex_as \<noteq> as_leaf"
  "as_leaves ex_as = [''a'', ''b'', ''c'', ''d'']"
  by (simp_all add: ex_as_def as_Threshold_def as_Leaf_def as_And_def MAX_DEPTH_def MAX_NODES_def)

definition ex_c_as :: c_access_structure where
  "ex_c_as = \<lparr>c_nodes = Some
       [\<lparr>c_type = C_LEAF, c_leaf_name = Some ''a'', c_threshold_k = 0, c_offset = 0, c_count = 0\<rparr>,
        \<lparr>c_type = C_OR, c_leaf_name = None, c_threshold_k = 0, c_offset = 1, c_count = 2\<rparr>,
        \<lparr>c_type = C_LEAF, c_leaf_name = Some ''b'', c_threshold_k = 0, c_offset = 0, c_count = 0\<rparr>],
     nodes_count = 3, child_indices = Some [7, 2, 0], child_indices_count = 3, root_index = 1\<rparr>"

lemma ex_c_as_accepted:
  "to_cpp_access_structure (Some ex_c_as) = Inr (as_Or [as_Leaf ''b'', as_Leaf ''a''])"
proof -
  have "c_build ex_c_as 2 (Suc 0) False [Unvisited, Visiting, Unvisited] = Inr (as_Leaf ''b'', [Unvisited, Visiting, Done])"
    by (subst c_build.simps) (simp add: ex_c_as_def MAX_DEPTH_def array_at_def c_node_head_def with_children_def as_Leaf_def)
  moreover have "c_build ex_c_as 0 (Suc 0) False [Unvisited, Visiting, Done] = Inr (as_Leaf ''a'', [Done, Visiting, Done])"
    by (subst c_build.simps) (simp add: ex_c_as_def MAX_DEPTH_def array_at_def c_node_head_def with_children_def as_Leaf_def)
  ultimately have "c_build ex_c_as 1 0 True [Unvisited, Unvisited, Unvisited] = Inr (as_Or [as_Leaf ''b'', as_Leaf ''a''], [Done, Done, Done])"
    by (subst c_build.simps) (simp add: ex_c_as_def MAX_DEPTH_def array_at_def c_node_head_def with_children_def as_Or_def upt_rec numeral_2_eq_2)
  then show ?thesis by (simp add: to_cpp_access_structure_def ex_c_as_def MAX_NODES_def numeral_3_eq_3)
qed

definition ex_alloc :: allocator where
  "ex_alloc = \<lparr>place = (\<lambda>h n. find (\<lambda>a. live h a = None) [0, 1, 2]), garbage = (\<lambda>i. word_of_nat i), int_garbage = int\<rparr>"

lemma ex_alloc_good: "good_alloc ex_alloc"
  by (auto simp: good_alloc_def ex_alloc_def split: if_splits)

definition ex_heap :: cheap where "ex_heap = \<lparr>live = (\<lambda>_. None), freed = []\<rparr>"

text \<open>A transport whose \<^verbatim>\<open>receive_all\<close> answers two senders with a two-byte and an empty message.\<close>

definition ex_answer :: cmems where "ex_answer = \<lparr>cs_count = 2, cs_data = Some 5, cs_sizes = Some 6\<rparr>"

definition ex_answer_heap :: "cheap \<Rightarrow> cheap" where
  "ex_answer_heap h = h\<lparr>live := (live h)(5 \<mapsto> Bytes [1, 2], 6 \<mapsto> Ints [2, 0])\<rparr>"

definition ex_transport :: "unit c_transport" where
  "ex_transport = \<lparr>ct_send = Some (\<lambda>i m w. (None, w)), ct_receive = Some (\<lambda>i h w. (Some E_NET_GENERAL, null_cmem, h, w)),
     ct_receive_all = Some (\<lambda>senders h w. (None, ex_answer, ex_answer_heap h, w)), ct_free = None\<rparr>"

lemma ex_transport_frees: "frees (Some ex_transport)"
  by (simp add: frees_def transport_free_def ex_transport_def)

lemma ex_transport_contract:
  "handed_over ex_heap [cs_data ex_answer, cs_sizes ex_answer] (ex_answer_heap ex_heap)" "covers (ex_answer_heap ex_heap) ex_answer 2"
  by (auto simp: handed_over_def covers_def ex_answer_def ex_answer_heap_def ex_heap_def eval_nat_numeral)

definition ex_c_job :: "unit c_job_mp" where
  "ex_c_job = \<lparr>cm_self = 1, cm_party_names = Some [Some ''a'', Some ''b''], cm_party_names_count = 2, cm_transport = Some ex_transport\<rparr>"

lemma ex_c_job_valid: "validate_mp_job (Some ex_c_job) = success"
  by (simp add: validate_mp_job_def ex_c_job_def ex_transport_def Let_def array_at_def upt_rec numeral_2_eq_2)

text \<open>A network of channels, one for each pair of parties.\<close>

definition net_transport :: "int \<Rightarrow> (int \<Rightarrow> int \<Rightarrow> bytes list) transport" where
  "net_transport self = \<lparr>
     t_send = (\<lambda>dest m w. Inr (w(self := (w self)(dest := w self dest @ [m])))),
     t_receive = (\<lambda>src w. if w src self = [] then error E_NET_GENERAL else Inr (hd (w src self), w(src := (w src)(self := tl (w src self))))),
     t_receive_all = (\<lambda>srcs w. if list_ex (\<lambda>f. w f self = []) srcs then error E_NET_GENERAL
       else Inr (map (\<lambda>f. hd (w f self)) srcs, \<lambda>a b. if a \<in> set srcs \<and> b = self then tl (w a b) else w a b))\<rparr>"

lemma net_delivers: "delivers (net_transport self) self (\<lambda>w. w)"
  by (auto simp: delivers_def net_transport_def list_ex_iff)

end
