(* ===== verification/Rounds.thy ===== *)
theory Rounds
  imports Commitment
begin

text \<open>
  Protocols between parties. A party is a program that computes, broadcasts a message to each party and goes on with what it received:
  the sequence of \<^verbatim>\<open>plain_broadcast\<close> calls of its code. The semantics runs all parties in lockstep; a message to each party
  covers the uniform and the nonuniform messages, a list of values is the sequence of arguments of the call, and values that do not have the
  types of the call are the \<^verbatim>\<open>E_FORMAT\<close> of the deserialization. The two-party calls are rounds in which one side is silent.
\<close>

datatype ('p, 'a) protocol =
    Return "'a res"
  | Diverge
  | Broadcast (outbox: "nat \<Rightarrow> 'p val list") "'p val list list \<Rightarrow> ('p, 'a) protocol"

text \<open>The value of an argument, when it has the type asked for; a \<^verbatim>\<open>buf256_t\<close> is read from 32 bytes.\<close>

definition v_buf :: "'p val \<Rightarrow> bytes option" where "v_buf v = (case v of VBuf b \<Rightarrow> Some b | _ \<Rightarrow> None)"

definition v_buf256 :: "'p val \<Rightarrow> bytes option" where
  "v_buf256 v = (case v of VBuf b \<Rightarrow> if length b = 32 then Some b else None | _ \<Rightarrow> None)"

definition v_int :: "'p val \<Rightarrow> int option" where "v_int v = (case v of VInt x \<Rightarrow> Some x | _ \<Rightarrow> None)"

definition v_point :: "'p val \<Rightarrow> 'p option" where "v_point v = (case v of VPoint Q \<Rightarrow> Some Q | _ \<Rightarrow> None)"

definition v_dl :: "'p val \<Rightarrow> 'p uc_dl option" where "v_dl v = (case v of VDl pf \<Rightarrow> Some pf | _ \<Rightarrow> None)"

definition v_batch :: "'p val \<Rightarrow> 'p batch_dl option" where "v_batch v = (case v of VBatch pf \<Rightarrow> Some pf | _ \<Rightarrow> None)"

definition v_map :: "'p val \<Rightarrow> (string \<times> 'p) list option" where "v_map v = (case v of VMap m \<Rightarrow> Some m | _ \<Rightarrow> None)"

definition v_list :: "('p val \<Rightarrow> 'x option) \<Rightarrow> 'p val \<Rightarrow> 'x list option" where
  "v_list dec v = (case v of VList vs \<Rightarrow> those (map dec vs) | _ \<Rightarrow> None)"

lemma v_simps [simp]:
  "v_buf (VBuf b) = Some b" "length b = 32 \<Longrightarrow> v_buf256 (VBuf b) = Some b" "v_int (VInt x) = Some x" "v_point (VPoint Q) = Some Q"
  "v_dl (VDl pf) = Some pf" "v_batch (VBatch bf) = Some bf" "v_map (VMap m) = Some m" "v_list dec (VList vs) = those (map dec vs)"
  by (simp_all add: v_buf_def v_buf256_def v_int_def v_point_def v_dl_def v_batch_def v_map_def v_list_def)

text \<open>One round: when every party is at a broadcast, each gets the messages addressed to it; otherwise those who wait go on waiting.\<close>

definition deliver :: "nat \<Rightarrow> (nat \<Rightarrow> ('p, 'a) protocol) \<Rightarrow> nat \<Rightarrow> ('p, 'a) protocol" where
  "deliver n ps i = (case ps i of
     Broadcast m k \<Rightarrow> if list_all (\<lambda>j. is_Broadcast (ps j)) [0..<n] then k (map (\<lambda>j. outbox (ps j) i) [0..<n]) else ps i
   | p \<Rightarrow> p)"

fun run_rounds :: "nat \<Rightarrow> nat \<Rightarrow> (nat \<Rightarrow> ('p, 'a) protocol) \<Rightarrow> nat \<Rightarrow> ('p, 'a) protocol" where
  "run_rounds n 0 ps = ps"
| "run_rounds n (Suc t) ps = deliver n (run_rounds n t ps)"

text \<open>One party among others that send anything: \<open>envs\<close> are the messages of the rounds, in which the own one takes its place.\<close>

fun against :: "nat \<Rightarrow> 'p val list list list \<Rightarrow> ('p, 'a) protocol \<Rightarrow> 'a res option" where
  "against i envs (Return r) = Some r"
| "against i envs Diverge = None"
| "against i [] (Broadcast m k) = None"
| "against i (e # envs) (Broadcast m k) = against i envs (k (e[i := m i]))"

text \<open>Sequencing after a call that may fail, a search that may not end, and a sub-protocol.\<close>

definition do_res :: "'b res \<Rightarrow> ('b \<Rightarrow> ('p, 'a) protocol) \<Rightarrow> ('p, 'a) protocol" where
  "do_res r f = (case r of Inl e \<Rightarrow> Return (Inl e) | Inr x \<Rightarrow> f x)"

definition do_search :: "'b res option \<Rightarrow> ('b \<Rightarrow> ('p, 'a) protocol) \<Rightarrow> ('p, 'a) protocol" where
  "do_search r f = (case r of None \<Rightarrow> Diverge | Some r \<Rightarrow> do_res r f)"

primrec do_call :: "('p, 'b) protocol \<Rightarrow> ('b \<Rightarrow> ('p, 'a) protocol) \<Rightarrow> ('p, 'a) protocol" where
  "do_call (Return r) f = do_res r f"
| "do_call Diverge f = Diverge"
| "do_call (Broadcast m k) f = Broadcast m (\<lambda>recv. do_call (k recv) f)"

definition bcast :: "('p val list \<Rightarrow> 'm option) \<Rightarrow> (nat \<Rightarrow> 'p val list) \<Rightarrow> ('m list \<Rightarrow> ('p, 'a) protocol) \<Rightarrow> ('p, 'a) protocol" where
  "bcast dec m k = Broadcast m (\<lambda>recv. case those (map dec recv) of None \<Rightarrow> Return (error E_FORMAT) | Some ms \<Rightarrow> k ms)"

definition one_way :: "nat \<Rightarrow> nat \<Rightarrow> ('p val list \<Rightarrow> 'm option) \<Rightarrow> 'p val list \<Rightarrow> 'm \<Rightarrow> ('m \<Rightarrow> ('p, 'a) protocol) \<Rightarrow> ('p, 'a) protocol" where
  "one_way from me dec m old k = Broadcast (\<lambda>_. if me = from then m else []) (\<lambda>recv.
     if me = from then k old else case dec (recv ! from) of None \<Rightarrow> Return (error E_FORMAT) | Some v \<Rightarrow> k v)"

lemma do_simps [simp]:
  "do_res (Inr x) f = f x" "do_res (Inl e) f = Return (Inl e)"
  "do_search (Some r) f = do_res r f" "do_search None f = Diverge"
  by (simp_all add: do_res_def do_search_def)

lemma bcast_simps [simp]: "is_Broadcast (bcast dec m k)" "outbox (bcast dec m k) = m"
  by (simp_all add: bcast_def)

lemma one_way_simps [simp]: "is_Broadcast (one_way from me dec m old k)"
  "outbox (one_way from me dec m old k) = (\<lambda>_. if me = from then m else [])"
  by (simp_all add: one_way_def)

lemma those_Some: "(\<And>x. x \<in> set xs \<Longrightarrow> f x = Some (g x)) \<Longrightarrow> those (map f xs) = Some (map g xs)"
  by (induction xs) simp_all

lemma those_map_Some: "those (map f xs) = Some ys \<Longrightarrow> length ys = length xs \<and> (\<forall>i < length xs. f (xs ! i) = Some (ys ! i))"
  by (induction xs arbitrary: ys) (auto simp: nth_Cons split: option.splits nat.splits)

text \<open>A round of broadcasts whose messages decode.\<close>

lemma deliver_bcast:
  assumes ps: "\<And>j. j < n \<Longrightarrow> ps j = bcast (dec j) (m j) (k j)" and i: "i < n"
    and dec: "\<And>j. j < n \<Longrightarrow> dec i (m j i) = Some (v j)"
  shows "deliver n ps i = k i (map v [0..<n])"
proof -
  have "map (\<lambda>j. outbox (ps j) i) [0..<n] = map (\<lambda>j. m j i) [0..<n]" using ps by simp
  moreover have "those (map (dec i) (map (\<lambda>j. m j i) [0..<n])) = Some (map v [0..<n])"
    using those_Some [of "[0..<n]" "\<lambda>j. dec i (m j i)" v] dec by (simp add: o_def)
  moreover have "list_all (\<lambda>j. is_Broadcast (ps j)) [0..<n]" using ps by (simp add: list_all_iff)
  ultimately show ?thesis using ps [OF i] by (simp add: deliver_def bcast_def del: map_map map_eq_conv)
qed

lemma deliver_call:
  assumes "\<And>j. j < n \<Longrightarrow> ps j = do_call (qs j) (f j)" "\<And>j. j < n \<Longrightarrow> is_Broadcast (qs j)" "i < n"
  shows "deliver n ps i = do_call (deliver n qs i) (f i)"
proof -
  have b: "\<exists>m k. qs j = Broadcast m k" if "j < n" for j
    using assms(2) [OF that] by (cases "qs j") simp_all
  have out: "outbox (ps j) = outbox (qs j)" "is_Broadcast (ps j)" if "j < n" for j
    using b [OF that] assms(1) [OF that] by auto
  obtain m k where q: "qs i = Broadcast m k" using b [OF assms(3)] by blast
  have "list_all (\<lambda>j. is_Broadcast (ps j)) [0..<n]" "list_all (\<lambda>j. is_Broadcast (qs j)) [0..<n]"
    using out(2) assms(2) by (simp_all add: list_all_iff)
  moreover have "map (\<lambda>j. outbox (ps j) i) [0..<n] = map (\<lambda>j. outbox (qs j) i) [0..<n]" using out(1) by simp
  ultimately show ?thesis using q assms(1) [OF assms(3)] by (simp add: deliver_def del: map_eq_conv)
qed

lemma run_bcast:
  assumes "\<And>j. j < n \<Longrightarrow> run_rounds n t ps j = bcast dec (m j) (k j)" "i < n" "\<And>j. j < n \<Longrightarrow> dec (m j i) = Some (v j)"
  shows "run_rounds n (Suc t) ps i = k i (map v [0..<n])"
  using deliver_bcast [where dec = "\<lambda>_. dec" and ps = "run_rounds n t ps" and m = m and k = k and v = v, OF assms] by simp

lemma run_call:
  assumes "\<And>j. j < n \<Longrightarrow> ps j = do_call (qs j) (f j)" "i < n"
    and "\<And>s j. s < t \<Longrightarrow> j < n \<Longrightarrow> is_Broadcast (run_rounds n s qs j)"
  shows "run_rounds n t ps i = do_call (run_rounds n t qs i) (f i)"
  using assms(2,3)
proof (induction t arbitrary: i)
  case (Suc t)
  have "run_rounds n t ps j = do_call (run_rounds n t qs j) (f j)" if "j < n" for j
    by (rule Suc.IH [OF that]) (use Suc.prems(2) in simp)
  then show ?case
    using deliver_call [of n "run_rounds n t ps" "run_rounds n t qs" f i] Suc.prems by simp
qed (simp add: assms(1))

lemma deliver_one_way:
  assumes "\<And>j. j < 2 \<Longrightarrow> ps j = one_way from j (dec j) (m j) (old j) (k j)" "from < 2" "i < 2" "dec i (m from) = Some v"
  shows "deliver 2 ps i = (if i = from then k i (old i) else k i v)"
proof -
  have "list_all (\<lambda>j. is_Broadcast (ps j)) [0..<2]" using assms(1) by (simp add: list_all_iff)
  moreover have "map (\<lambda>j. outbox (ps j) i) [0..<2] ! from = m from" using assms(1,2) by simp
  ultimately show ?thesis using assms(1) [OF assms(3)] assms(4) by (simp add: deliver_def one_way_def)
qed

lemma run_one_way:
  assumes "\<And>j. j < 2 \<Longrightarrow> run_rounds 2 t ps j = one_way from j dec (m j) (old j) (k j)" "from < 2" "i < 2" "dec (m from) = Some v" "old from = v"
  shows "run_rounds 2 (Suc t) ps i = k i v"
  using deliver_one_way [where dec = "\<lambda>_. dec" and ps = "run_rounds 2 t ps" and m = m and old = old and k = k and v = v and i = i] assms
  by (auto split: if_splits)

text \<open>Rounds compose and depend on the parties that take part only.\<close>

lemma run_rounds_add: "run_rounds n (s + t) ps = run_rounds n s (run_rounds n t ps)"
  by (induction s) simp_all

lemma deliver_cong:
  assumes "\<And>j. j < n \<Longrightarrow> ps j = qs j" "i < n"
  shows "deliver n ps i = deliver n qs i"
proof -
  have "list_all (\<lambda>j. is_Broadcast (ps j)) [0..<n] = list_all (\<lambda>j. is_Broadcast (qs j)) [0..<n]" using assms(1) by (auto simp: list_all_iff)
  moreover have "map (\<lambda>j. outbox (ps j) i) [0..<n] = map (\<lambda>j. outbox (qs j) i) [0..<n]" using assms(1) by simp
  ultimately show ?thesis unfolding deliver_def using assms(1) [OF assms(2)] by (simp only:)
qed

lemma run_rounds_cong: "(\<And>j. j < n \<Longrightarrow> ps j = qs j) \<Longrightarrow> i < n \<Longrightarrow> run_rounds n t ps i = run_rounds n t qs i"
  by (induction t arbitrary: i) (auto intro: deliver_cong)

text \<open>A party among arbitrary others that ends with a result.\<close>

lemma against_do_res:
  "against i envs (do_res rv f) = Some (Inr y) \<longleftrightarrow> (\<exists>x. rv = Inr x \<and> against i envs (f x) = Some (Inr y))"
  by (cases rv) (cases envs, auto)+

lemma against_do_search:
  "against i envs (do_search rv f) = Some (Inr y) \<longleftrightarrow> (\<exists>x. rv = Some (Inr x) \<and> against i envs (f x) = Some (Inr y))"
  by (cases rv) (auto simp: against_do_res)

lemma against_Return: "against i envs (Return rv) = Some y \<longleftrightarrow> rv = y"
  by (cases envs) auto

lemma run_against:
  "run_rounds n t ps i = Return rv \<Longrightarrow> i < n \<Longrightarrow> \<exists>envs. list_all (\<lambda>e. length e = n) envs \<and> against i envs (ps i) = Some rv"
proof (induction t arbitrary: ps)
  case 0
  then show ?case by (auto intro: exI [of _ "[]"])
next
  case (Suc t)
  have "run_rounds n t (deliver n ps) i = Return rv" using Suc.prems(1) run_rounds_add [of n t "Suc 0" ps] by simp
  then obtain envs where envs: "list_all (\<lambda>e. length e = n) envs" "against i envs (deliver n ps i) = Some rv"
    using Suc.IH Suc.prems(2) by blast
  show ?case
  proof (cases "ps i")
    case (Broadcast m k)
    let ?e = "map (\<lambda>j. outbox (ps j) i) [0..<n]"
    have "?e[i := m i] = ?e" using Suc.prems(2) Broadcast by (simp add: list_eq_iff_nth_eq nth_list_update)
    then have "against i (?e # envs) (ps i) = against i envs (k ?e)" using Broadcast by simp
    moreover have "deliver n ps i = k ?e \<or> deliver n ps i = ps i" using Broadcast by (simp add: deliver_def)
    ultimately show ?thesis using envs by (auto intro: exI [of _ "?e # envs"])
  qed (use envs in \<open>auto simp: deliver_def\<close>)
qed

lemma those_nth: "length ys = length xs \<Longrightarrow> (\<And>l. l < length xs \<Longrightarrow> f (xs ! l) = Some (ys ! l)) \<Longrightarrow> those (map f xs) = Some ys"
proof (induction xs arbitrary: ys)
  case (Cons x xs)
  then obtain y ys' where "ys = y # ys'" by (cases ys) auto
  then show ?case using Cons.IH [of ys'] Cons.prems(1) Cons.prems(2) [of 0] Cons.prems(2) [of "Suc _"] by force
qed simp

text \<open>After the messages \<open>pre\<close> a protocol has come to \<open>q\<close>.\<close>

definition reaches :: "nat \<Rightarrow> 'p val list list list \<Rightarrow> ('p, 'a) protocol \<Rightarrow> ('p, 'a) protocol \<Rightarrow> bool" where
  "reaches i pre p q \<longleftrightarrow> (\<forall>envs. against i (pre @ envs) p = against i envs q)"

lemma reaches_trans: "reaches i pre p q \<Longrightarrow> reaches i pre' q q' \<Longrightarrow> reaches i (pre @ pre') p q'"
  by (simp add: reaches_def)

lemma reaches_call:
  "against i envs (do_call p f) = Some (Inr y) \<Longrightarrow>
    \<exists>pre post v. envs = pre @ post \<and> reaches i pre (do_call p f) (f v) \<and> against i post (f v) = Some (Inr y)"
proof (induction p arbitrary: envs)
  case (Return rv)
  then obtain v where "rv = Inr v" "against i envs (f v) = Some (Inr y)" by (auto simp: against_do_res)
  then show ?case by (intro exI [of _ "[]"] exI [of _ envs] exI [of _ v]) (simp add: reaches_def)
next
  case Diverge
  then show ?case by (cases envs) simp_all
next
  case (Broadcast m k)
  then obtain e envs' where e: "envs = e # envs'" "against i envs' (do_call (k (e[i := m i])) f) = Some (Inr y)"
    by (cases envs) auto
  then obtain pre post v where "envs' = pre @ post" "reaches i pre (do_call (k (e[i := m i])) f) (f v)"
    "against i post (f v) = Some (Inr y)"
    using Broadcast.IH by blast
  then show ?case using e(1) by (intro exI [of _ "e # pre"] exI [of _ post] exI [of _ v]) (simp add: reaches_def)
qed

lemma reaches_bcast:
  assumes "against i envs (bcast dec m k) = Some (Inr y)"
  shows "\<exists>e post ms. envs = e # post \<and> those (map dec (e[i := m i])) = Some ms \<and> reaches i [e] (bcast dec m k) (k ms)
    \<and> against i post (k ms) = Some (Inr y)"
  using assms by (cases envs) (auto simp: bcast_def reaches_def split: option.splits)

lemma reaches_Return: "reaches i pre p (Return rv) \<Longrightarrow> against i (pre @ envs) p = Some rv"
  by (simp add: reaches_def against_Return)

end
