(* ===== verification/Buf.thy ===== *)
theory Buf
  imports Convert
begin

text \<open>
  The byte buffer \<^verbatim>\<open>buf_t\<close> of \<^verbatim>\<open>core/buf.h\<close> and \<^verbatim>\<open>core/buf.cpp\<close>. Up to 36 bytes lie in the object itself, longer contents in a
  block of the heap whose pointer overlays the inline bytes. The heap is an explicit store, so that the
  theorems cover ownership: no access to a released block, no block lost, and every block wiped before it is
  given back. The allocator's choice of contents for a fresh block is the field \<open>junk\<close>.
\<close>

section \<open>Memory\<close>

record memory =
  heap :: "nat \<rightharpoonup> bytes"
  next_addr :: nat
  released :: "bytes list"
  junk :: "nat \<Rightarrow> u8"

definition junk_bytes :: "memory \<Rightarrow> nat \<Rightarrow> bytes" where
  "junk_bytes st n = map (junk st) [0..<n]"

definition new_bytes :: "nat \<Rightarrow> memory \<Rightarrow> nat \<times> memory" where
  "new_bytes n st = (next_addr st, st\<lparr>heap := (heap st)(next_addr st \<mapsto> junk_bytes st n), next_addr := next_addr st + 1\<rparr>)"

definition delete_bytes :: "nat \<Rightarrow> memory \<Rightarrow> memory res" where
  "delete_bytes a st = (case heap st a of None \<Rightarrow> Inl Out_Of_Bounds
     | Some bs \<Rightarrow> Inr (st\<lparr>heap := (heap st)(a := None), released := bs # released st\<rparr>))"

definition overwrite :: "nat \<Rightarrow> bytes \<Rightarrow> bytes \<Rightarrow> bytes res" where
  "overwrite off bs old =
     (if length old < off + length bs then Inl Out_Of_Bounds else Inr (take off old @ bs @ drop (off + length bs) old))"

definition store_bytes :: "nat \<Rightarrow> nat \<Rightarrow> bytes \<Rightarrow> memory \<Rightarrow> memory res" where
  "store_bytes a off bs st = (case heap st a of None \<Rightarrow> Inl Out_Of_Bounds
     | Some old \<Rightarrow> bind_res (overwrite off bs old) (\<lambda>new. Inr (st\<lparr>heap := (heap st)(a \<mapsto> new)\<rparr>)))"

definition load_bytes :: "nat \<Rightarrow> nat \<Rightarrow> memory \<Rightarrow> bytes res" where
  "load_bytes a n st = (case heap st a of None \<Rightarrow> Inl Out_Of_Bounds
     | Some bs \<Rightarrow> if length bs < n then Inl Out_Of_Bounds else Inr (take n bs))"

section \<open>Buffers\<close>

text \<open>The 36 bytes \<^verbatim>\<open>m\<close> hold contents or, in their first eight bytes, a pointer.\<close>

datatype storage = Inline bytes | Pointer nat

record buf =
  buf_m :: storage
  buf_s :: int

definition short_size :: int where "short_size = 36"

fun inline_bytes :: "memory \<Rightarrow> storage \<Rightarrow> bytes" where
  "inline_bytes st (Inline bs) = bs"
| "inline_bytes st (Pointer a) = junk_bytes st (nat short_size)"

fun get_long_ptr :: "buf \<Rightarrow> nat res" where
  "get_long_ptr b = (case buf_m b of Pointer a \<Rightarrow> Inr a | Inline _ \<Rightarrow> Inl Out_Of_Bounds)"

definition set_long_ptr :: "nat \<Rightarrow> buf \<Rightarrow> buf" where
  "set_long_ptr a b = b\<lparr>buf_m := Pointer a\<rparr>"

text \<open>Reading the first \<open>n\<close> bytes at \<^verbatim>\<open>data()\<close>, and writing at an offset from it.\<close>

definition data_read :: "nat \<Rightarrow> memory \<Rightarrow> buf \<Rightarrow> bytes res" where
  "data_read n st b =
     (if buf_s b \<le> short_size then
        (if nat short_size < n then Inl Out_Of_Bounds else Inr (take n (inline_bytes st (buf_m b))))
      else bind_res (get_long_ptr b) (\<lambda>a. load_bytes a n st))"

definition data_write :: "nat \<Rightarrow> bytes \<Rightarrow> memory \<Rightarrow> buf \<Rightarrow> (memory \<times> buf) res" where
  "data_write off bs st b =
     (if buf_s b \<le> short_size then bind_res (overwrite off bs (inline_bytes st (buf_m b))) (\<lambda>new. Inr (st, b\<lparr>buf_m := Inline new\<rparr>))
      else bind_res (get_long_ptr b) (\<lambda>a. bind_res (store_bytes a off bs st) (\<lambda>st. Inr (st, b))))"

definition buf_new :: "memory \<Rightarrow> buf" where
  "buf_new st = \<lparr>buf_m = Inline (junk_bytes st (nat short_size)), buf_s = 0\<rparr>"

definition buf_sized :: "int \<Rightarrow> memory \<Rightarrow> (memory \<times> buf) res" where
  "buf_sized new_size st =
     bind_res (cb_assert (0 \<le> new_size)) (\<lambda>_.
       let b = (buf_new st)\<lparr>buf_s := new_size\<rparr>
       in if short_size < new_size then let (a, st) = new_bytes (nat new_size) st in Inr (st, set_long_ptr a b)
          else Inr (st, b))"

definition assign_short :: "bytes \<Rightarrow> memory \<Rightarrow> buf \<Rightarrow> (memory \<times> buf) res" where
  "assign_short src st b =
     bind_res (overwrite 0 src (inline_bytes st (buf_m b))) (\<lambda>new. Inr (st, b\<lparr>buf_m := Inline new, buf_s := int (length src)\<rparr>))"

definition assign_short_buf :: "buf \<Rightarrow> memory \<Rightarrow> buf \<Rightarrow> (memory \<times> buf) res" where
  "assign_short_buf src st b = Inr (st, b\<lparr>buf_m := buf_m src, buf_s := buf_s src\<rparr>)"

definition assign_long_ptr :: "nat \<Rightarrow> int \<Rightarrow> buf \<Rightarrow> buf" where
  "assign_long_ptr a n b = (set_long_ptr a b)\<lparr>buf_s := n\<rparr>"

definition assign_long :: "bytes \<Rightarrow> memory \<Rightarrow> buf \<Rightarrow> (memory \<times> buf) res" where
  "assign_long src st b =
     (let (a, st) = new_bytes (length src) st
      in bind_res (store_bytes a 0 src st) (\<lambda>st. Inr (st, assign_long_ptr a (int (length src)) b)))"

text \<open>\<^verbatim>\<open>buf_t(mem_t)\<close> and \<^verbatim>\<open>buf_t(const_byte_ptr, int)\<close>.\<close>

definition buf_from :: "bytes \<Rightarrow> memory \<Rightarrow> (memory \<times> buf) res" where
  "buf_from src st =
     (if int (length src) \<le> short_size then assign_short src st (buf_new st) else assign_long src st (buf_new st))"

definition secure_bzero :: "memory \<Rightarrow> buf \<Rightarrow> (memory \<times> buf) res" where
  "secure_bzero st b = (if buf_s b \<le> 0 then Inr (st, b) else data_write 0 (replicate (nat (buf_s b)) 0) st b)"

definition buf_bzero :: "memory \<Rightarrow> buf \<Rightarrow> (memory \<times> buf) res" where
  "buf_bzero st b =
     bind_res (cb_assert (0 \<le> buf_s b)) (\<lambda>_. if buf_s b = 0 then Inr (st, b) else data_write 0 (replicate (nat (buf_s b)) 0) st b)"

text \<open>\<^verbatim>\<open>free\<close> wipes the contents, gives a long block back and forgets the size.\<close>

definition buf_free :: "memory \<Rightarrow> buf \<Rightarrow> (memory \<times> buf) res" where
  "buf_free st b =
     bind_res (secure_bzero st b) (\<lambda>(st, b).
       bind_res (if short_size < buf_s b then bind_res (get_long_ptr b) (\<lambda>a. delete_bytes a st) else Inr st) (\<lambda>st.
         Inr (st, b\<lparr>buf_s := 0\<rparr>)))"

section \<open>Copy and move\<close>

text \<open>The copy and the move constructor; a move leaves a long source empty.\<close>

definition buf_copy :: "buf \<Rightarrow> memory \<Rightarrow> buf \<Rightarrow> (memory \<times> buf) res" where
  "buf_copy src st b =
     (if buf_s src \<le> short_size then assign_short_buf src st b
      else bind_res (data_read (nat (buf_s src)) st src) (\<lambda>bs. assign_long bs st b))"

definition buf_move :: "buf \<Rightarrow> memory \<Rightarrow> buf \<Rightarrow> (memory \<times> buf \<times> buf) res" where
  "buf_move src st b =
     (if buf_s src \<le> short_size then bind_res (assign_short_buf src st b) (\<lambda>(st, b). Inr (st, b, src))
      else bind_res (get_long_ptr src) (\<lambda>a. Inr (st, assign_long_ptr a (buf_s src) b, src\<lparr>buf_s := 0\<rparr>)))"

text \<open>The assignments, on distinct objects; on the object itself they do nothing.\<close>

definition buf_assign :: "buf \<Rightarrow> memory \<Rightarrow> buf \<Rightarrow> (memory \<times> buf) res" where
  "buf_assign src st b = bind_res (buf_free st b) (\<lambda>(st, b). buf_copy src st b)"

definition buf_move_assign :: "buf \<Rightarrow> memory \<Rightarrow> buf \<Rightarrow> (memory \<times> buf \<times> buf) res" where
  "buf_move_assign src st b = bind_res (buf_free st b) (\<lambda>(st, b). buf_move src st b)"

text \<open>
  A \<^verbatim>\<open>mem_t\<close> argument is a view that may point into the buffer: a function of the memory and the buffer
  at the moment it is read. \<open>same\<close> says that it is the whole of this buffer.
\<close>

type_synonym view = "memory \<Rightarrow> buf \<Rightarrow> bytes res"

definition buf_assign_mem :: "bool \<Rightarrow> view \<Rightarrow> memory \<Rightarrow> buf \<Rightarrow> (memory \<times> buf) res" where
  "buf_assign_mem same src st b =
     (if same then Inr (st, b)
      else bind_res (src st b) (\<lambda>bs. bind_res (buf_from bs st) (\<lambda>(st, tmp).
        bind_res (buf_move_assign tmp st b) (\<lambda>(st, b, tmp). bind_res (buf_free st tmp) (\<lambda>(st, _). Inr (st, b))))))"

text \<open>\<^verbatim>\<open>operator=(buf128_t)\<close>, \<^verbatim>\<open>operator=(buf256_t)\<close>: the 16 or 32 bytes \<open>src\<close> go inline.\<close>

definition buf_assign_block :: "bytes \<Rightarrow> memory \<Rightarrow> buf \<Rightarrow> (memory \<times> buf) res" where
  "buf_assign_block src st b =
     bind_res (if short_size < buf_s b
               then bind_res (get_long_ptr b) (\<lambda>a. bind_res (store_bytes a 0 (replicate (nat (buf_s b)) 0) st) (delete_bytes a))
               else Inr st) (\<lambda>st.
       bind_res (overwrite 0 src (inline_bytes st (buf_m b))) (\<lambda>new.
         Inr (st, b\<lparr>buf_m := Inline new, buf_s := int (length src)\<rparr>)))"

definition buf_to_block :: "nat \<Rightarrow> memory \<Rightarrow> buf \<Rightarrow> bytes res" where
  "buf_to_block n st b = bind_res (cb_assert (buf_s b = int n)) (\<lambda>_. Inr (take n (inline_bytes st (buf_m b))))"

section \<open>Resizing\<close>

definition resize_save_short_to_short :: "int \<Rightarrow> memory \<Rightarrow> buf \<Rightarrow> (memory \<times> buf) res" where
  "resize_save_short_to_short new_size st b =
     bind_res (if new_size < buf_s b
               then (if new_size < 0 then Inl Out_Of_Bounds
                     else bind_res (overwrite (nat new_size) (replicate (nat (buf_s b - new_size)) 0) (inline_bytes st (buf_m b)))
                            (\<lambda>new. Inr (b\<lparr>buf_m := Inline new\<rparr>)))
               else Inr b) (\<lambda>b. Inr (st, b\<lparr>buf_s := new_size\<rparr>))"

definition resize_save_short_to_long :: "int \<Rightarrow> memory \<Rightarrow> buf \<Rightarrow> (memory \<times> buf) res" where
  "resize_save_short_to_long new_size st b =
     (let (a, st) = new_bytes (nat new_size) st
      in bind_res (data_read (nat (buf_s b)) st b) (\<lambda>bs.
         bind_res (store_bytes a 0 bs st) (\<lambda>st.
         bind_res (secure_bzero st b) (\<lambda>(st, b). Inr (st, assign_long_ptr a new_size b)))))"

definition resize_save_long_to_short :: "int \<Rightarrow> memory \<Rightarrow> buf \<Rightarrow> (memory \<times> buf) res" where
  "resize_save_long_to_short new_size st b =
     (if new_size < 0 then Inl Out_Of_Bounds
      else bind_res (get_long_ptr b) (\<lambda>old.
        bind_res (load_bytes old (nat new_size) st) (\<lambda>bs.
        bind_res (overwrite 0 bs (inline_bytes st (buf_m b))) (\<lambda>new.
        bind_res (store_bytes old 0 (replicate (nat (buf_s b)) 0) st) (\<lambda>st.
        bind_res (delete_bytes old st) (\<lambda>st. Inr (st, b\<lparr>buf_m := Inline new, buf_s := new_size\<rparr>)))))))"

definition resize_save_long_to_long :: "int \<Rightarrow> memory \<Rightarrow> buf \<Rightarrow> (memory \<times> buf) res" where
  "resize_save_long_to_long new_size st b =
     bind_res (get_long_ptr b) (\<lambda>old.
       let (a, st) = new_bytes (nat new_size) st; copy_size = (if buf_s b < new_size then buf_s b else new_size)
       in bind_res (load_bytes old (nat copy_size) st) (\<lambda>bs.
          bind_res (store_bytes a 0 bs st) (\<lambda>st.
          bind_res (store_bytes old 0 (replicate (nat (buf_s b)) 0) st) (\<lambda>st.
          bind_res (delete_bytes old st) (\<lambda>st. Inr (st, assign_long_ptr a new_size b))))))"

definition buf_resize :: "int \<Rightarrow> memory \<Rightarrow> buf \<Rightarrow> (memory \<times> buf) res" where
  "buf_resize new_size st b =
     (if buf_s b = new_size then Inr (st, b)
      else if buf_s b \<le> short_size then
        (if new_size \<le> short_size then resize_save_short_to_short new_size st b
         else resize_save_short_to_long new_size st b)
      else if new_size \<le> short_size then resize_save_long_to_short new_size st b
      else resize_save_long_to_long new_size st b)"

definition buf_alloc :: "int \<Rightarrow> memory \<Rightarrow> buf \<Rightarrow> (memory \<times> buf) res" where
  "buf_alloc new_size st b =
     (if buf_s b = new_size then Inr (st, b)
      else bind_res (buf_free st b) (\<lambda>(st, b).
        let b = b\<lparr>buf_s := new_size\<rparr>
        in if new_size \<le> short_size then Inr (st, b)
           else let (a, st) = new_bytes (nat new_size) st in Inr (st, set_long_ptr a b)))"

section \<open>Contents\<close>

definition buf_index :: "int \<Rightarrow> memory \<Rightarrow> buf \<Rightarrow> u8 res" where
  "buf_index index st b =
     bind_res (cb_assert (0 \<le> index \<and> index < buf_s b)) (\<lambda>_.
       bind_res (data_read (nat index + 1) st b) (\<lambda>bs. Inr (bs ! nat index)))"

definition buf_set_index :: "int \<Rightarrow> u8 \<Rightarrow> memory \<Rightarrow> buf \<Rightarrow> (memory \<times> buf) res" where
  "buf_set_index index v st b =
     bind_res (cb_assert (0 \<le> index \<and> index < buf_s b)) (\<lambda>_. data_write (nat index) [v] st b)"

text \<open>The comparison without early exit: \<^verbatim>\<open>x\<close> gathers the differences of all bytes.\<close>

definition diff_bytes :: "bytes \<Rightarrow> bytes \<Rightarrow> u8" where
  "diff_bytes xs ys = fold (\<lambda>(a, b) x. or x (xor a b)) (zip xs ys) 0"

definition buf_equal :: "buf \<Rightarrow> memory \<Rightarrow> buf \<Rightarrow> bool res" where
  "buf_equal src st b =
     (if buf_s b \<noteq> buf_s src then Inr False
      else bind_res (data_read (nat (buf_s b)) st b) (\<lambda>p1. bind_res (data_read (nat (buf_s b)) st src) (\<lambda>p2.
        Inr (diff_bytes p1 p2 = 0))))"

definition xor_bytes :: "bytes \<Rightarrow> bytes \<Rightarrow> bytes" where
  "xor_bytes xs ys = map2 xor xs ys"

definition buf_xor :: "bytes \<Rightarrow> bytes \<Rightarrow> memory \<Rightarrow> (memory \<times> buf) res" where
  "buf_xor src1 src2 st =
     bind_res (cb_assert (length src1 = length src2)) (\<lambda>_.
       bind_res (buf_sized (int (length src1)) st) (\<lambda>(st, out). data_write 0 (xor_bytes src1 src2) st out))"

definition buf_xor_assign :: "bytes \<Rightarrow> memory \<Rightarrow> buf \<Rightarrow> (memory \<times> buf) res" where
  "buf_xor_assign src2 st b =
     bind_res (cb_assert (int (length src2) = buf_s b)) (\<lambda>_.
       bind_res (data_read (length src2) st b) (\<lambda>bs. data_write 0 (xor_bytes bs src2) st b))"

definition buf_concat :: "bytes \<Rightarrow> bytes \<Rightarrow> memory \<Rightarrow> (memory \<times> buf) res" where
  "buf_concat src1 src2 st =
     bind_res (cb_assert (int (length src1) \<le> INT_MAX - int (length src2))) (\<lambda>_.
       bind_res (buf_sized (int (length src1 + length src2)) st) (\<lambda>(st, out).
         bind_res (data_write 0 src1 st out) (\<lambda>(st, out). data_write (length src1) src2 st out)))"

definition buf_append :: "view \<Rightarrow> memory \<Rightarrow> buf \<Rightarrow> (memory \<times> buf) res" where
  "buf_append src st b =
     bind_res (src st b) (\<lambda>bs.
       bind_res (cb_assert (buf_s b \<le> INT_MAX - int (length bs))) (\<lambda>_.
         bind_res (buf_from bs st) (\<lambda>(st, tmp).
           let old_size = buf_s b
           in bind_res (buf_resize (old_size + buf_s tmp) st b) (\<lambda>(st, b).
              bind_res (data_read (nat (buf_s tmp)) st tmp) (\<lambda>tbs.
              bind_res (data_write (nat old_size) tbs st b) (\<lambda>(st, b).
              bind_res (buf_free st tmp) (\<lambda>(st, _). Inr (st, b))))))))"

lemma xor_bytes_length [simp]: "length (xor_bytes a b) = min (length a) (length b)"
  by (simp add: xor_bytes_def)

end
