(* ===== verification/Agree_Random.thy ===== *)
theory Agree_Random
  imports Rounds Buf Bits
begin

text \<open>
  Session identifiers (\<^verbatim>\<open>protocol/sid.h\<close>), committed broadcasts (\<^verbatim>\<open>protocol/committed_broadcast.h\<close>) and agreement on randomness
  (\<^verbatim>\<open>protocol/agree_random.cpp\<close>), as protocols of \<^verbatim>\<open>n\<close> parties given by their names. Every party draws from a generator of its own; what
  is left of it is part of the result.
\<close>

text \<open>
  What the protocols take from outside: the digests, the generators of bytes, of scalars and of the coefficients \<open>pr_sigma\<close> of a
  verification, the identifier of a name, the oracles of the proofs, the check of a point and the inversion of OpenSSL.
\<close>

record ('p, 'r) prims =
  pr_sha :: "'p sha"
  pr_hmac :: "'p hmac"
  pr_bytes :: "'r byte_gen"
  pr_pid :: "string \<Rightarrow> int"
  pr_bitlen :: "'p val list \<Rightarrow> int \<Rightarrow> bytes"
  pr_drbg :: "bytes \<Rightarrow> int \<Rightarrow> bytes"
  pr_gen :: "'r generator"
  pr_fischlin :: "bytes \<Rightarrow> bytes"
  pr_dl_oracle :: "'p \<Rightarrow> 'p \<Rightarrow> 'p list \<Rightarrow> bytes \<Rightarrow> u64 \<Rightarrow> bytes"
  pr_batch_oracle :: "'p \<Rightarrow> 'p list \<Rightarrow> 'p list \<Rightarrow> bytes \<Rightarrow> u64 \<Rightarrow> bytes"
  pr_check :: "'p \<Rightarrow> unit res"
  pr_sigma :: "'r \<Rightarrow> int \<times> 'r"
  pr_inv :: bn_inverse

text \<open>\<^verbatim>\<open>gen_random_bitlen\<close>, and the sizes of the digests.\<close>

definition gen_random_bitlen :: "('p, 'r) prims \<Rightarrow> int \<Rightarrow> 'r \<Rightarrow> (bytes \<times> 'r) res" where
  "gen_random_bitlen P bitlen r = bind_res (cb_assert (0 \<le> bitlen)) (\<lambda>_. Inr (pr_bytes P (bits_to_bytes (nat bitlen)) r))"

definition good_prims :: "('p, 'r) prims \<Rightarrow> bool" where
  "good_prims P \<longleftrightarrow> good_hmac (pr_hmac P) \<and> good_bytes (pr_bytes P) \<and> (\<forall>us. length (pr_sha P us) = 32) \<and> (\<forall>nm. 0 < pr_pid P nm)
     \<and> (\<forall>us b. length (pr_bitlen P us b) = bits_to_bytes (nat b))"

definition dec_buf :: "'p val list \<Rightarrow> bytes option" where
  "dec_buf m = (case m of [b] \<Rightarrow> v_buf b | _ \<Rightarrow> None)"

lemma dec_buf [simp]: "dec_buf [VBuf b] = Some b"
  by (simp add: dec_buf_def)

section \<open>Session identifiers\<close>

definition validate_sid_contributions :: "bytes list \<Rightarrow> unit res" where
  "validate_sid_contributions contributions =
     fold_res (\<lambda>contribution _. if length contribution \<noteq> bits_to_bytes (nat SEC_P_COM) then error E_FORMAT else success) contributions ()"

definition generate_sid_fixed_mp :: "('p, 'r) prims \<Rightarrow> 'r \<Rightarrow> ('p, bytes \<times> 'r) protocol" where
  "generate_sid_fixed_mp P r =
     do_res (gen_random_bitlen P SEC_P_COM r) (\<lambda>(s, r).
     bcast dec_buf (\<lambda>_. [VBuf s]) (\<lambda>contributions.
       do_res (validate_sid_contributions contributions) (\<lambda>_.
       Return (Inr (take (bits_to_bytes (nat SEC_P_COM)) (pr_sha P [VList (map VBuf contributions)]), r)))))"

definition generate_sid_dynamic_mp :: "('p, 'r) prims \<Rightarrow> int list \<Rightarrow> 'r \<Rightarrow> ('p, bytes \<times> 'r) protocol" where
  "generate_sid_dynamic_mp P pids r =
     do_call (generate_sid_fixed_mp P r) (\<lambda>(sid_tag, r).
       Return (Inr (pr_sha P [VBuf sid_tag, VList (map VInt (sort pids))], r)))"

section \<open>Committed broadcasts\<close>

text \<open>
  The arguments of the call are uniform messages, a list of values for each party; \<open>ok\<close> says which values have the types of the
  arguments. A \<^verbatim>\<open>buf256_t\<close> is deserialized from 32 bytes.
\<close>

definition dec_opening :: "('p val list \<Rightarrow> bool) \<Rightarrow> 'p val list \<Rightarrow> (bytes \<times> 'p val list) option" where
  "dec_opening ok m = (case m of rd # args \<Rightarrow> if ok args then map_option (\<lambda>rd. (rd, args)) (v_buf256 rd) else None | _ \<Rightarrow> None)"

definition dec_group_opening :: "('p val list \<Rightarrow> bool) \<Rightarrow> 'p val list \<Rightarrow> (bytes \<times> bytes \<times> 'p val list) option" where
  "dec_group_opening ok m = (case m of
     v # m \<Rightarrow> Option.bind (v_buf256 v) (\<lambda>v. map_option (\<lambda>(rd, args). (v, rd, args)) (dec_opening ok m)) | _ \<Rightarrow> None)"

lemma dec_openings [simp]:
  "length rd = 32 \<Longrightarrow> ok args \<Longrightarrow> dec_opening ok (VBuf rd # args) = Some (rd, args)"
  "length v = 32 \<Longrightarrow> length rd = 32 \<Longrightarrow> ok args \<Longrightarrow> dec_group_opening ok (VBuf v # VBuf rd # args) = Some (v, rd, args)"
  by (simp_all add: dec_opening_def dec_group_opening_def)

definition group_open ::
  "('p, 'r) prims \<Rightarrow> string list \<Rightarrow> bytes list \<Rightarrow> 'r \<Rightarrow> (bytes \<times> bytes \<times> 'p val list) list \<Rightarrow> ('p, 'p val list list \<times> 'r) protocol" where
  "group_open P names com_msgs r openings =
     (let v = pr_sha P [VList (map VBuf com_msgs)]
      in do_res (fold_res (\<lambda>i _. case openings ! i of (vi, rd, argsi) \<Rightarrow>
             if v \<noteq> vi then error E_CRYPTO
             else com_open (pr_hmac P) argsi (com_set rd (com_msgs ! i) (com_new_pid (pr_pid P (names ! i)))))
           [0..<length names] ()) (\<lambda>_.
         Return (Inr (map (\<lambda>(_, _, argsi). argsi) openings, r))))"

definition committed_group_broadcast ::
  "('p, 'r) prims \<Rightarrow> string list \<Rightarrow> nat \<Rightarrow> ('p val list \<Rightarrow> bool) \<Rightarrow> 'p val list \<Rightarrow> 'r \<Rightarrow> ('p, 'p val list list \<times> 'r) protocol" where
  "committed_group_broadcast P names me ok args r =
     do_res (com_gen (pr_hmac P) (pr_bytes P) args (com_new_pid (pr_pid P (names ! me))) r) (\<lambda>(com, r).
     bcast dec_buf (\<lambda>_. [VBuf (com_msg com)]) (\<lambda>com_msgs.
     bcast (dec_group_opening ok) (\<lambda>_. VBuf (pr_sha P [VList (map VBuf com_msgs)]) # VBuf (com_rand com) # args)
       (group_open P names com_msgs r)))"

text \<open>The nonuniform variant: \<open>msgs j\<close> are the arguments for party \<open>j\<close>, committed towards that party.\<close>

fun gen_coms ::
  "('p, 'r) prims \<Rightarrow> string list \<Rightarrow> nat \<Rightarrow> (nat \<Rightarrow> 'p val list) \<Rightarrow> nat list \<Rightarrow> 'r \<Rightarrow> (commitment_t list \<times> 'r) res" where
  "gen_coms P names me msgs [] r = Inr ([], r)"
| "gen_coms P names me msgs (j # js) r =
     bind_res (com_gen (pr_hmac P) (pr_bytes P) (msgs j) (com_new_receiver (pr_pid P (names ! me)) (pr_pid P (names ! j))) r) (\<lambda>(com, r).
     bind_res (gen_coms P names me msgs js r) (\<lambda>(coms, r). Inr (com # coms, r)))"

definition pairwise_open ::
  "('p, 'r) prims \<Rightarrow> string list \<Rightarrow> nat \<Rightarrow> bytes list \<Rightarrow> 'r \<Rightarrow> (bytes \<times> 'p val list) list \<Rightarrow> ('p, 'p val list list \<times> 'r) protocol" where
  "pairwise_open P names me com_msgs r openings =
     do_res (fold_res (\<lambda>i _. if me = i then success else case openings ! i of (rd, argsi) \<Rightarrow>
         com_open (pr_hmac P) argsi
           (com_set rd (com_msgs ! i) (com_new_receiver (pr_pid P (names ! i)) (pr_pid P (names ! me)))))
       [0..<length names] ()) (\<lambda>_.
     Return (Inr (map snd openings, r)))"

definition committed_pairwise_broadcast ::
  "('p, 'r) prims \<Rightarrow> string list \<Rightarrow> nat \<Rightarrow> ('p val list \<Rightarrow> bool) \<Rightarrow> (nat \<Rightarrow> 'p val list) \<Rightarrow> 'r \<Rightarrow> ('p, 'p val list list \<times> 'r) protocol" where
  "committed_pairwise_broadcast P names me ok msgs r =
     do_res (gen_coms P names me msgs [0..<length names] r) (\<lambda>(coms, r).
     bcast dec_buf (\<lambda>j. [VBuf (com_msg (coms ! j))]) (\<lambda>com_msgs.
     bcast (dec_opening ok) (\<lambda>j. VBuf (com_rand (coms ! j)) # msgs j) (pairwise_open P names me com_msgs r)))"

section \<open>Agreement on randomness\<close>

text \<open>\<^verbatim>\<open>operator^\<close> on buffers and \<^verbatim>\<open>operator^=\<close>.\<close>

definition xor_bufs :: "bytes \<Rightarrow> bytes \<Rightarrow> bytes res" where
  "xor_bufs a b = bind_res (cb_assert (length a = length b)) (\<lambda>_. Inr (xor_bytes a b))"

definition is_buf :: "'p val list \<Rightarrow> bool" where "is_buf m \<longleftrightarrow> dec_buf m \<noteq> None"

definition the_buf :: "'p val list \<Rightarrow> bytes" where
  "the_buf m = (case dec_buf m of Some b \<Rightarrow> b | None \<Rightarrow> [])"

definition multi_agree_random :: "('p, 'r) prims \<Rightarrow> string list \<Rightarrow> nat \<Rightarrow> int \<Rightarrow> 'r \<Rightarrow> ('p, bytes \<times> 'r) protocol" where
  "multi_agree_random P names me t r =
     do_res (gen_random_bitlen P t r) (\<lambda>(s, r).
     do_call (committed_group_broadcast P names me is_buf [VBuf s] r) (\<lambda>(received, r).
     do_res (fold_res (\<lambda>i out. if i = me then Inr out else xor_bufs out (the_buf (received ! i))) [0..<length names] s) (\<lambda>out.
     Return (Inr (out, r)))))"

definition weak_multi_agree_random :: "('p, 'r) prims \<Rightarrow> string list \<Rightarrow> int \<Rightarrow> 'r \<Rightarrow> ('p, bytes \<times> 'r) protocol" where
  "weak_multi_agree_random P names t r =
     (if t < SEC_P_COM then Return (error E_CRYPTO)
      else do_res (gen_random_bitlen P SEC_P_COM r) (\<lambda>(s, r).
        bcast dec_buf (\<lambda>_. [VBuf s]) (\<lambda>rs.
          let hashed_r = pr_bitlen P [VList (map VBuf rs)] t
          in bcast dec_buf (\<lambda>_. [VBuf hashed_r]) (\<lambda>hs.
             do_res (fold_res (\<lambda>i _. if hs ! i \<noteq> hashed_r then error E_CRYPTO else success) [0..<length names] ()) (\<lambda>_.
             Return (Inr (hashed_r, r)))))))"

fun draw_bufs :: "('p, 'r) prims \<Rightarrow> int \<Rightarrow> nat \<Rightarrow> 'r \<Rightarrow> (bytes list \<times> 'r) res" where
  "draw_bufs P bitlen 0 r = Inr ([], r)"
| "draw_bufs P bitlen (Suc n) r =
     bind_res (gen_random_bitlen P bitlen r) (\<lambda>(b, r). bind_res (draw_bufs P bitlen n r) (\<lambda>(bs, r). Inr (b # bs, r)))"

definition multi_pairwise_agree_random ::
  "('p, 'r) prims \<Rightarrow> string list \<Rightarrow> nat \<Rightarrow> int \<Rightarrow> 'r \<Rightarrow> ('p, bytes list \<times> 'r) protocol" where
  "multi_pairwise_agree_random P names me bitlen r =
     do_res (draw_bufs P SEC_P_COM (length names) r) (\<lambda>(rs, r).
     do_call (committed_pairwise_broadcast P names me is_buf (\<lambda>j. [VBuf (rs ! j)]) r) (\<lambda>(received, r).
     do_res (map_res (\<lambda>i. let ri = the_buf (received ! i)
         in if length ri \<noteq> bits_to_bytes (nat SEC_P_COM) then error E_CRYPTO
            else bind_res (xor_bufs (rs ! i) ri) (\<lambda>k. Inr (pr_drbg P k bitlen))) [0..<length names]) (\<lambda>out.
     Return (Inr (out, r)))))"

text \<open>
  The two-party calls: \<open>me\<close> is 0 for \<^verbatim>\<open>p1\<close> and 1 for \<^verbatim>\<open>p2\<close>. A variable that a party has not set holds an empty buffer.
\<close>

definition dec_buf2 :: "'p val list \<Rightarrow> (bytes \<times> bytes) option" where
  "dec_buf2 m = (case m of [a, b] \<Rightarrow> Option.bind (v_buf a) (\<lambda>a. map_option (Pair a) (v_buf256 b)) | _ \<Rightarrow> None)"

lemma dec_buf2 [simp]: "length b = 32 \<Longrightarrow> dec_buf2 [VBuf a, VBuf b] = Some (a, b)"
  by (simp add: dec_buf2_def)

lemma is_buf [simp]: "is_buf [VBuf b]"
  by (simp add: is_buf_def)

definition agree_random :: "('p, 'r) prims \<Rightarrow> string list \<Rightarrow> nat \<Rightarrow> int \<Rightarrow> 'r \<Rightarrow> ('p, bytes \<times> 'r) protocol" where
  "agree_random P names me bitlen r =
     (if bitlen \<le> 0 then Return (error E_BADARG)
      else let com = com_new_pid (pr_pid P (names ! 0))
      in do_res (if me = 0
                 then bind_res (gen_random_bitlen P bitlen r) (\<lambda>(r1, r).
                      bind_res (com_gen (pr_hmac P) (pr_bytes P) [VBuf r1] com r) (\<lambda>(com, r). Inr (r1, com, r)))
                 else Inr ([], com, r)) (\<lambda>(r1, com, r).
         one_way 0 me dec_buf [VBuf (com_msg com)] (com_msg com) (\<lambda>m.
         do_res (if me = 1 then gen_random_bitlen P bitlen r else Inr ([], r)) (\<lambda>(r2, r).
         one_way 1 me dec_buf [VBuf r2] r2 (\<lambda>r2.
         one_way 0 me dec_buf2 [VBuf r1, VBuf (com_rand com)] (r1, com_rand com) (\<lambda>(r1, rd).
         do_res (if me = 1 then com_open (pr_hmac P) [VBuf r1] (com_set rd m com) else success) (\<lambda>_.
         if length r1 \<noteq> bits_to_bytes (nat bitlen) then Return (error E_CRYPTO)
         else if length r2 \<noteq> bits_to_bytes (nat bitlen) then Return (error E_CRYPTO)
         else do_res (xor_bufs r1 r2) (\<lambda>out. Return (Inr (out, r))))))))))"

definition weak_agree_random :: "nat \<Rightarrow> ('p, 'r) prims \<Rightarrow> nat \<Rightarrow> int \<Rightarrow> 'r \<Rightarrow> ('p, bytes \<times> 'r) protocol" where
  "weak_agree_random first P me bitlen r =
     (if bitlen < SEC_P_COM then Return (error E_CRYPTO)
      else do_res (if me = first then gen_random_bitlen P SEC_P_COM r else Inr ([], r)) (\<lambda>(rnd1, r).
        one_way first me dec_buf [VBuf rnd1] rnd1 (\<lambda>rnd1.
        do_res (if me = 1 - first then gen_random_bitlen P SEC_P_COM r else Inr ([], r)) (\<lambda>(rnd2, r).
        one_way (1 - first) me dec_buf [VBuf rnd2] rnd2 (\<lambda>rnd2.
          if length rnd1 \<noteq> bits_to_bytes (nat SEC_P_COM) then Return (error E_CRYPTO)
          else if length rnd2 \<noteq> bits_to_bytes (nat SEC_P_COM) then Return (error E_CRYPTO)
          else Return (Inr (pr_bitlen P [VBuf rnd1, VBuf rnd2] bitlen, r)))))))"

definition weak_agree_random_p1_first where "weak_agree_random_p1_first = weak_agree_random 0"

definition weak_agree_random_p2_first where "weak_agree_random_p2_first = weak_agree_random 1"

definition generate_sid_fixed_2p :: "('p, 'r) prims \<Rightarrow> nat \<Rightarrow> nat \<Rightarrow> 'r \<Rightarrow> ('p, bytes \<times> 'r) protocol" where
  "generate_sid_fixed_2p P me first_sender r =
     (if first_sender = 0 then weak_agree_random_p1_first P me SEC_P_COM r else weak_agree_random_p2_first P me SEC_P_COM r)"

definition generate_sid_dynamic_2p :: "('p, 'r) prims \<Rightarrow> nat \<Rightarrow> nat \<Rightarrow> int \<Rightarrow> int \<Rightarrow> 'r \<Rightarrow> ('p, bytes \<times> 'r) protocol" where
  "generate_sid_dynamic_2p P me first_sender pid1 pid2 r =
     do_call (generate_sid_fixed_2p P me first_sender r) (\<lambda>(sid_tag, r).
       Return (Inr (if pid1 < pid2 then pr_sha P [VBuf sid_tag, VInt pid1, VInt pid2]
                    else pr_sha P [VBuf sid_tag, VInt pid2, VInt pid1], r)))"

section \<open>Honest runs\<close>

lemma good_primsD:
  assumes "good_prims P"
  shows "good_hmac (pr_hmac P)" "good_bytes (pr_bytes P)" "length (pr_sha P us) = 32" "0 < pr_pid P nm"
    "length (pr_bitlen P us b) = bits_to_bytes (nat b)" "length (fst (pr_bytes P k r)) = k"
  using assms by (simp_all add: good_prims_def good_bytes_def)

lemma sid_bytes: "bits_to_bytes (nat SEC_P_COM) = 16"
  by (simp add: bits_to_bytes_def SEC_P_COM_def)

lemma gen_random_sid [simp]: "gen_random_bitlen P SEC_P_COM r = Inr (pr_bytes P 16 r)"
  using sid_bytes by (simp add: gen_random_bitlen_def SEC_P_COM_def)

lemma fold_res_unit: "(\<And>x. x \<in> set xs \<Longrightarrow> f x () = success) \<Longrightarrow> fold_res f xs () = success"
  by (induction xs) auto

text \<open>The session identifier made from the contributions of all parties.\<close>

definition session_of :: "('p, 'r) prims \<Rightarrow> nat \<Rightarrow> (nat \<Rightarrow> 'r) \<Rightarrow> bytes" where
  "session_of P n r = take 16 (pr_sha P [VList (map (\<lambda>j. VBuf (fst (pr_bytes P 16 (r j)))) [0..<n])])"

lemma generate_sid_run:
  assumes "good_prims P" "i < n"
  shows "run_rounds n 1 (\<lambda>i. generate_sid_fixed_mp P (r i)) i = Return (Inr (session_of P n r, snd (pr_bytes P 16 (r i))))"
proof -
  let ?s = "\<lambda>j. fst (pr_bytes P 16 (r j))"
  let ?k = "\<lambda>i contributions. do_res (validate_sid_contributions contributions) (\<lambda>_.
           Return (Inr (take 16 (pr_sha P [VList (map VBuf contributions)]), snd (pr_bytes P 16 (r i)))))"
  have "run_rounds n (Suc 0) (\<lambda>i. generate_sid_fixed_mp P (r i)) i = ?k i (map ?s [0..<n])"
    by (rule run_bcast [where dec = dec_buf and m = "\<lambda>i _. [VBuf (?s i)]" and k = ?k, OF _ assms(2)])
       (simp_all add: generate_sid_fixed_mp_def split_beta sid_bytes)
  moreover have "validate_sid_contributions (map ?s [0..<n]) = success"
    unfolding validate_sid_contributions_def
    by (rule fold_res_unit) (use good_primsD(6) [OF assms(1)] in \<open>auto simp: sid_bytes\<close>)
  ultimately show ?thesis by (simp add: session_of_def o_def)
qed

lemma session_of_length: "good_prims P \<Longrightarrow> length (session_of P n r) = 16"
  by (simp add: session_of_def good_primsD)

text \<open>A committed broadcast among honest parties delivers the arguments of each to all.\<close>

lemma group_broadcast_run:
  fixes args :: "nat \<Rightarrow> 'p val list"
  assumes P: "good_prims P" and i: "i < length names" and ok: "\<And>j. j < length names \<Longrightarrow> ok (args j)"
  shows "\<exists>r'. run_rounds (length names) 2 (\<lambda>i. committed_group_broadcast P names i ok (args i) (r i)) i
    = Return (Inr (map args [0..<length names], r'))" (is ?result)
    and "s < 2 \<Longrightarrow> j < length names \<Longrightarrow>
      is_Broadcast (run_rounds (length names) s (\<lambda>i. committed_group_broadcast P names i ok (args i) (r i)) j)"
proof -
  let ?n = "length names" and ?hm = "pr_hmac P"
  let ?c0 = "\<lambda>j. com_new_pid (pr_pid P (names ! j))"
  have "\<exists>com1 r1. com_gen ?hm (pr_bytes P) (args j) (?c0 j) (r j) = Inr (com1, r1) \<and> length (com_rand com1) = 32
      \<and> com_open ?hm (args j) (com_set (com_rand com1) (com_msg com1) (?c0 j)) = success" for j
    using good_primsD [OF P] by (intro com_opens) (simp_all add: com_new_pid_def same_ids_def)
  then obtain com r1 where com: "\<And>j. com_gen ?hm (pr_bytes P) (args j) (?c0 j) (r j) = Inr (com j, r1 j)"
    "\<And>j. length (com_rand (com j)) = 32"
    "\<And>j. com_open ?hm (args j) (com_set (com_rand (com j)) (com_msg (com j)) (?c0 j)) = success"
    by metis
  let ?ps = "\<lambda>i. committed_group_broadcast P names i ok (args i) (r i)"
  let ?cs = "map (\<lambda>j. com_msg (com j)) [0..<?n]"
  let ?v = "pr_sha P [VList (map VBuf ?cs)]"
  let ?m2 = "\<lambda>i com_msgs _ :: nat. VBuf (pr_sha P [VList (map VBuf com_msgs)]) # VBuf (com_rand (com i)) # args i"
  have one: "run_rounds ?n (Suc 0) ?ps i = bcast (dec_group_opening ok) (?m2 i ?cs) (group_open P names ?cs (r1 i))" if "i < ?n" for i
    by (rule run_bcast [where dec = dec_buf and m = "\<lambda>i _. [VBuf (com_msg (com i))]"
          and k = "\<lambda>i com_msgs. bcast (dec_group_opening ok) (?m2 i com_msgs) (group_open P names com_msgs (r1 i))", OF _ that])
       (simp_all add: committed_group_broadcast_def com(1))
  have two: "run_rounds ?n (Suc (Suc 0)) ?ps i
      = group_open P names ?cs (r1 i) (map (\<lambda>j. (?v, com_rand (com j), args j)) [0..<?n])"
    by (rule run_bcast [OF one i]) (use ok com(2) good_primsD(3) [OF P] in simp_all)
  have "group_open P names ?cs (r1 i) (map (\<lambda>j. (?v, com_rand (com j), args j)) [0..<?n])
      = Return (Inr (map args [0..<?n], r1 i))"
    unfolding group_open_def Let_def
    by (subst fold_res_unit) (use com(3) in \<open>simp_all add: o_def\<close>)
  then have "run_rounds ?n 2 ?ps i = Return (Inr (map args [0..<?n], r1 i))" using two by (simp only: numeral_2_eq_2)
  then show ?result by blast
  show "is_Broadcast (run_rounds ?n s ?ps j)" if "s < 2" "j < ?n"
    using that one [OF that(2)] by (cases s) (simp_all add: committed_group_broadcast_def com(1) less_Suc_eq del: run_rounds.simps(2))
qed

text \<open>Exclusive or of the contributions, in any order.\<close>

lemma xor_bytes_swap: "xor_bytes (xor_bytes a b) c = xor_bytes (xor_bytes a c) b"
  by (rule nth_equalityI) (auto simp: xor_bytes_def ac_simps)

lemma xor_bytes_zero: "length a = n \<Longrightarrow> xor_bytes (replicate n 0) a = a"
  by (rule nth_equalityI) (auto simp: xor_bytes_def)

definition xor_all :: "nat \<Rightarrow> bytes list \<Rightarrow> bytes" where
  "xor_all len ss = fold (\<lambda>s acc. xor_bytes acc s) ss (replicate len 0)"

lemma xor_all_perm: "mset ss = mset ss' \<Longrightarrow> xor_all len ss = xor_all len ss'"
  unfolding xor_all_def by (rule fun_cong [OF fold_multiset_equiv]) (auto simp: xor_bytes_swap fun_eq_iff)

lemma fold_xor_bufs:
  assumes "\<And>j. j \<in> set js \<Longrightarrow> length (s j) = length acc"
  shows "fold_res (\<lambda>i out. if i = me then Inr out else xor_bufs out (s i)) js acc
    = Inr (fold (\<lambda>s acc. xor_bytes acc s) (map s (List.filter (\<lambda>j. j \<noteq> me) js)) acc)"
  using assms by (induction js arbitrary: acc) (auto simp: xor_bufs_def)

lemma xor_own_first:
  assumes "me < n" "\<And>j. j < n \<Longrightarrow> length (s j) = len"
  shows "fold (\<lambda>s acc. xor_bytes acc s) (map s (List.filter (\<lambda>j. j \<noteq> me) [0..<n])) (s me) = xor_all len (map s [0..<n])"
proof -
  have "[0..<n] = [0..<me] @ me # [Suc me..<n]"
    using assms(1) upt_add_eq_append [of 0 me "n - me"] upt_conv_Cons [of me n] by simp
  moreover have "List.filter (\<lambda>j. j \<noteq> me) [0..<me] = [0..<me]" "List.filter (\<lambda>j. j \<noteq> me) [Suc me..<n] = [Suc me..<n]"
    by (simp_all add: filter_id_conv)
  ultimately have "mset (map s [0..<n]) = mset (s me # map s (List.filter (\<lambda>j. j \<noteq> me) [0..<n]))"
    by simp
  then have "xor_all len (map s [0..<n]) = xor_all len (s me # map s (List.filter (\<lambda>j. j \<noteq> me) [0..<n]))" by (rule xor_all_perm)
  then show ?thesis using assms by (simp add: xor_all_def xor_bytes_zero)
qed

lemma multi_agree_random_run:
  assumes P: "good_prims P" and i: "i < length names" and t: "0 \<le> t"
  shows "\<exists>r'. run_rounds (length names) 2 (\<lambda>i. multi_agree_random P names i t (r i)) i
    = Return (Inr (xor_all (bits_to_bytes (nat t)) (map (\<lambda>j. fst (pr_bytes P (bits_to_bytes (nat t)) (r j))) [0..<length names]), r'))"
proof -
  let ?n = "length names" and ?len = "bits_to_bytes (nat t)"
  let ?s = "\<lambda>j. fst (pr_bytes P ?len (r j))" and ?r = "\<lambda>j. snd (pr_bytes P ?len (r j))"
  let ?q = "\<lambda>i. committed_group_broadcast P names i is_buf [VBuf (?s i)] (?r i)"
  let ?f = "\<lambda>i (received, r). do_res (fold_res (\<lambda>l out. if l = i then Inr out else xor_bufs out (the_buf (received ! l)))
      [0..<?n] (?s i)) (\<lambda>out. Return (Inr (out, r)))"
  have ps: "multi_agree_random P names j t (r j) = do_call (?q j) (?f j)" for j
    using t by (simp add: multi_agree_random_def gen_random_bitlen_def split_beta)
  have "run_rounds ?n 2 (\<lambda>i. multi_agree_random P names i t (r i)) i = do_call (run_rounds ?n 2 ?q i) (?f i)"
    by (rule run_call [OF ps i]) (rule group_broadcast_run(2) [OF P i], simp_all)
  moreover obtain r' where "run_rounds ?n 2 ?q i = Return (Inr (map (\<lambda>j. [VBuf (?s j)]) [0..<?n], r'))"
    using group_broadcast_run(1) [OF P i, of is_buf "\<lambda>i. [VBuf (?s i)]" ?r] by auto
  moreover have "fold_res (\<lambda>l out. if l = i then Inr out else xor_bufs out (the_buf (map (\<lambda>j. [VBuf (?s j) :: 'a val]) [0..<?n] ! l)))
      [0..<?n] (?s i) = Inr (xor_all ?len (map ?s [0..<?n]))"
  proof -
    have "fold_res (\<lambda>l out. if l = i then Inr out else xor_bufs out (the_buf (map (\<lambda>j. [VBuf (?s j) :: 'a val]) [0..<?n] ! l)))
        [0..<?n] (?s i) = fold_res (\<lambda>l out. if l = i then Inr out else xor_bufs out (?s l)) [0..<?n] (?s i)"
      by (rule fold_res_cong) (simp_all add: the_buf_def)
    then show ?thesis
      using fold_xor_bufs [of "[0..<?n]" ?s "?s i" i] xor_own_first [OF i, of ?s ?len] good_primsD(6) [OF P] by simp
  qed
  ultimately show ?thesis by auto
qed

text \<open>Two honest parties agree on the exclusive or of their contributions.\<close>

lemma agree_random_run:
  assumes P: "good_prims P" and t: "0 < bitlen" and i: "i < 2"
  shows "\<exists>r'. run_rounds 2 3 (\<lambda>i. agree_random P names i bitlen (r i)) i
    = Return (Inr (xor_bytes (fst (pr_bytes P (bits_to_bytes (nat bitlen)) (r 0))) (fst (pr_bytes P (bits_to_bytes (nat bitlen)) (r 1))), r'))"
    (is ?result)
    and "s < 3 \<Longrightarrow> j < 2 \<Longrightarrow> is_Broadcast (run_rounds 2 s (\<lambda>i. agree_random P names i bitlen (r i)) j)"
proof -
  let ?len = "bits_to_bytes (nat bitlen)" and ?hm = "pr_hmac P" and ?c0 = "com_new_pid (pr_pid P (names ! 0))"
  obtain s0 r0 where s0: "pr_bytes P ?len (r 0) = (s0, r0)" by fastforce
  obtain s1 r1 where s1: "pr_bytes P ?len (r 1) = (s1, r1)" by fastforce
  have len: "length s0 = ?len" "length s1 = ?len" using good_primsD(6) [OF P] s0 s1 by (metis fst_conv)+
  obtain com r2 where com: "com_gen ?hm (pr_bytes P) [VBuf s0] ?c0 r0 = Inr (com, r2)" "length (com_rand com) = 32"
    "com_open ?hm [VBuf s0] (com_set (com_rand com) (com_msg com) ?c0) = success"
    using com_opens [of ?hm "pr_bytes P" ?c0 ?c0 "[VBuf s0]" r0] good_primsD [OF P] by (auto simp: com_new_pid_def same_ids_def)
  let ?ps = "\<lambda>i. agree_random P names i bitlen (r i)"
  let ?x1 = "\<lambda>i :: nat. if i = 0 then s0 else []" and ?com = "\<lambda>i :: nat. if i = 0 then com else ?c0"
  let ?rr = "\<lambda>i. if i = 0 then r2 else r i"
  let ?k3 = "\<lambda>i m r r2 (r1, rd). do_res (if i = 1 then com_open ?hm [VBuf r1] (com_set rd m (?com i)) else success) (\<lambda>_.
      if length r1 \<noteq> ?len then Return (error E_CRYPTO) else if length r2 \<noteq> ?len then Return (error E_CRYPTO)
      else do_res (xor_bufs r1 r2) (\<lambda>out. Return (Inr (out, r))))"
  let ?k2 = "\<lambda>i m r r2. one_way 0 i dec_buf2 [VBuf (?x1 i), VBuf (com_rand (?com i))] (?x1 i, com_rand (?com i)) (?k3 i m r r2)"
  let ?k1 = "\<lambda>i m. do_res (if i = 1 then gen_random_bitlen P bitlen (?rr i) else Inr ([], ?rr i)) (\<lambda>(r2, r).
      one_way 1 i dec_buf [VBuf r2] r2 (?k2 i m r))"
  have zero: "?ps i = one_way 0 i dec_buf [VBuf (com_msg (?com i))] (com_msg (?com i)) (?k1 i)" if "i < 2" for i
    using that t com(1) s0 unfolding agree_random_def by (cases "i = 0") (simp_all add: gen_random_bitlen_def Let_def)
  have one: "run_rounds 2 (Suc 0) ?ps i = ?k1 i (com_msg com)" if "i < 2" for i
    by (rule run_one_way [where m = "\<lambda>i. [VBuf (com_msg (?com i))]" and old = "\<lambda>i. com_msg (?com i)" and k = ?k1 and dec = dec_buf and ?from = 0])
       (use zero that in simp_all)
  let ?y = "\<lambda>i :: nat. if i = 1 then s1 else []" and ?r3 = "\<lambda>i. if i = 1 then r1 else ?rr i"
  have one': "run_rounds 2 (Suc 0) ?ps i = one_way 1 i dec_buf [VBuf (?y i)] (?y i) (?k2 i (com_msg com) (?r3 i))" if "i < 2" for i
    using one [OF that] that t s1 by (cases "i = 1") (simp_all add: gen_random_bitlen_def del: run_rounds.simps)
  have two: "run_rounds 2 (Suc (Suc 0)) ?ps i = ?k2 i (com_msg com) (?r3 i) s1" if "i < 2" for i
    by (rule run_one_way [where m = "\<lambda>i. [VBuf (?y i)]" and old = ?y and dec = dec_buf and ?from = 1, OF one']) (use that in simp_all)
  have three: "run_rounds 2 (Suc (Suc (Suc 0))) ?ps i = ?k3 i (com_msg com) (?r3 i) s1 (s0, com_rand com)"
    by (rule run_one_way [where m = "\<lambda>i. [VBuf (?x1 i), VBuf (com_rand (?com i))]" and old = "\<lambda>i. (?x1 i, com_rand (?com i))"
          and dec = dec_buf2 and ?from = 0, OF two]) (use i com(2) in simp_all)
  then show ?result using com(3) len s0 s1 by (simp add: numeral_3_eq_3 xor_bufs_def del: run_rounds.simps)
  show "is_Broadcast (run_rounds 2 s ?ps j)" if sj: "s < 3" "j < 2"
  proof -
    have "s = 0 \<or> s = Suc 0 \<or> s = Suc (Suc 0)" using sj(1) by linarith
    then show ?thesis
      by (elim disjE) (simp_all only: run_rounds.simps(1) zero [OF sj(2)] one' [OF sj(2)] two [OF sj(2)] one_way_simps)
  qed
qed

text \<open>The weak variants, in which the parties only hash their contributions.\<close>

lemma weak_agree_random_run:
  assumes P: "good_prims P" and b: "SEC_P_COM \<le> bitlen" and i: "i < 2" and f: "first < 2"
  shows "\<exists>r'. run_rounds 2 2 (\<lambda>i. weak_agree_random first P i bitlen (r i)) i
    = Return (Inr (pr_bitlen P [VBuf (fst (pr_bytes P 16 (r first))), VBuf (fst (pr_bytes P 16 (r (1 - first))))] bitlen, r'))"
proof -
  let ?s = "\<lambda>j. fst (pr_bytes P 16 (r j))" and ?g = "1 - first"
  let ?ps = "\<lambda>i. weak_agree_random first P i bitlen (r i)"
  let ?x = "\<lambda>i. if i = first then ?s i else []" and ?rr = "\<lambda>i. if i = first then snd (pr_bytes P 16 (r i)) else r i"
  let ?y = "\<lambda>i. if i = ?g then ?s i else []" and ?r2 = "\<lambda>i. if i = ?g then snd (pr_bytes P 16 (r i)) else ?rr i"
  let ?k2 = "\<lambda>i rnd1 r rnd2. if length rnd1 \<noteq> 16 then Return (error E_CRYPTO) else if length rnd2 \<noteq> 16 then Return (error E_CRYPTO)
      else Return (Inr (pr_bitlen P [VBuf rnd1, VBuf rnd2] bitlen, r))"
  let ?k1 = "\<lambda>i rnd1. one_way ?g i dec_buf [VBuf (?y i)] (?y i) (?k2 i rnd1 (?r2 i))"
  have g: "?g < 2" "?g \<noteq> first" using f by (cases first, simp_all)+
  have zero: "?ps i = one_way first i dec_buf [VBuf (?x i)] (?x i) (?k1 i)" if "i < 2" for i
    unfolding weak_agree_random_def sid_bytes
    using that b f less_2_cases [OF that] less_2_cases [OF f] by (elim disjE) (simp_all add: split_beta cong: if_cong)
  have one: "run_rounds 2 (Suc 0) ?ps i = ?k1 i (?s first)" if "i < 2" for i
    by (rule run_one_way [where m = "\<lambda>i. [VBuf (?x i)]" and old = ?x and k = ?k1 and dec = dec_buf, OF _ f that]) (use zero in simp_all)
  have "run_rounds 2 (Suc (Suc 0)) ?ps i = ?k2 i (?s first) (?r2 i) (?s ?g)"
    by (rule run_one_way [where m = "\<lambda>i. [VBuf (?y i)]" and old = ?y and dec = dec_buf, OF one g(1) i]) simp_all
  then show ?thesis using good_primsD(6) [OF P] by (simp add: numeral_2_eq_2 del: run_rounds.simps)
qed

lemma weak_multi_agree_random_run:
  assumes P: "good_prims P" and b: "SEC_P_COM \<le> t" and i: "i < length names"
  shows "run_rounds (length names) 2 (\<lambda>i. weak_multi_agree_random P names t (r i)) i
    = Return (Inr (pr_bitlen P [VList (map (\<lambda>j. VBuf (fst (pr_bytes P 16 (r j)))) [0..<length names])] t, snd (pr_bytes P 16 (r i))))"
proof -
  let ?n = "length names" and ?s = "\<lambda>j. fst (pr_bytes P 16 (r j))"
  let ?ps = "\<lambda>i. weak_multi_agree_random P names t (r i)"
  let ?h = "\<lambda>rs. pr_bitlen P [VList (map VBuf rs)] t"
  let ?k2 = "\<lambda>i hashed_r hs. do_res (fold_res (\<lambda>i _. if hs ! i \<noteq> hashed_r then error E_CRYPTO else success) [0..<?n] ()) (\<lambda>_.
      Return (Inr (hashed_r, snd (pr_bytes P 16 (r i)))))"
  have one: "run_rounds ?n (Suc 0) ?ps i = bcast dec_buf (\<lambda>_. [VBuf (?h (map ?s [0..<?n]))]) (?k2 i (?h (map ?s [0..<?n])))" if "i < ?n" for i
    by (rule run_bcast [where m = "\<lambda>i _. [VBuf (?s i)]" and k = "\<lambda>i rs. bcast dec_buf (\<lambda>_. [VBuf (?h rs)]) (?k2 i (?h rs))" and dec = dec_buf, OF _ that])
       (use b in \<open>simp_all add: weak_multi_agree_random_def split_beta Let_def\<close>)
  have "run_rounds ?n (Suc (Suc 0)) ?ps i = ?k2 i (?h (map ?s [0..<?n])) (map (\<lambda>_. ?h (map ?s [0..<?n])) [0..<?n])"
    by (rule run_bcast [OF one i]) simp_all
  moreover have "fold_res (\<lambda>l _. if map (\<lambda>_. ?h (map ?s [0..<?n])) [0..<?n] ! l \<noteq> ?h (map ?s [0..<?n]) then error E_CRYPTO else success) [0..<?n] () = success"
    by (rule fold_res_unit) simp
  ultimately show ?thesis by (simp add: numeral_2_eq_2 o_def del: run_rounds.simps)
qed

text \<open>
  A peer that commits to a contribution of another length is not answered by an error: the honest party runs into the assertion of
  the exclusive or.
\<close>

lemma multi_agree_random_assertion:
  fixes P :: "('p, 'r) prims"
  assumes P: "good_prims P" and n: "length names = 2" and t: "0 < t"
  shows "\<exists>envs. against 0 envs (multi_agree_random P names 0 t r) = Some (Inl Assert_Failed)"
proof -
  let ?len = "bits_to_bytes (nat t)" and ?hm = "pr_hmac P" and ?c = "\<lambda>j. com_new_pid (pr_pid P (names ! j))"
  obtain s r0 where s: "pr_bytes P ?len r = (s, r0)" by fastforce
  have len: "length s = ?len" "0 < ?len"
    using good_primsD(6) [OF P] s t by (metis fst_conv, simp add: bits_to_bytes_def)
  have gen: "\<exists>com1 r1. com_gen ?hm (pr_bytes P) args (?c j) r' = Inr (com1, r1) \<and> length (com_rand com1) = 32
      \<and> com_open ?hm args (com_set (com_rand com1) (com_msg com1) (?c j)) = success" for args j r'
    using good_primsD [OF P] by (intro com_opens) (simp_all add: com_new_pid_def same_ids_def)
  obtain com r1 where com: "com_gen ?hm (pr_bytes P) [VBuf s] (?c 0) r0 = Inr (com, r1)" "length (com_rand com) = 32"
    "com_open ?hm [VBuf s] (com_set (com_rand com) (com_msg com) (?c 0)) = success"
    using gen by blast
  obtain com' :: commitment_t where com': "length (com_rand com') = 32"
    "com_open ?hm [VBuf []] (com_set (com_rand com') (com_msg com') (?c 1)) = success"
    using gen [of "[VBuf []]" 1 r0] by blast
  let ?v = "pr_sha P [VList [VBuf (com_msg com), VBuf (com_msg com')]]"
  let ?envs = "[[[], [VBuf (com_msg com')]], [[], [VBuf ?v, VBuf (com_rand com'), VBuf []]]]"
  have "[0..<length names] = [0, Suc 0]" using n by (simp add: upt_rec)
  then have "against 0 ?envs (multi_agree_random P names 0 t r) = Some (Inl Assert_Failed)"
    using com com' len t s good_primsD(3) [OF P]
    by (simp add: multi_agree_random_def committed_group_broadcast_def group_open_def gen_random_bitlen_def bcast_def
        xor_bufs_def the_buf_def Let_def)
  then show ?thesis by blast
qed

text \<open>A protocol that first agrees on its session.\<close>

lemma run_with_sid:
  assumes P: "good_prims P" and i: "i < n" and ps: "\<And>j. j < n \<Longrightarrow> ps j = do_call (generate_sid_fixed_mp P (r j)) (\<lambda>(sid, r). f j sid r)"
  shows "run_rounds n (t + 1) ps i = run_rounds n t (\<lambda>j. f j (session_of P n r) (snd (pr_bytes P 16 (r j)))) i"
proof -
  have "run_rounds n 1 ps j = f j (session_of P n r) (snd (pr_bytes P 16 (r j)))" if "j < n" for j
  proof -
    have "is_Broadcast (run_rounds n s (\<lambda>j. generate_sid_fixed_mp P (r j)) k)" if "s < 1" for s k
      using that by (simp add: generate_sid_fixed_mp_def split_beta)
    then have "run_rounds n 1 ps j = do_call (run_rounds n 1 (\<lambda>j. generate_sid_fixed_mp P (r j)) j) (\<lambda>(sid, r). f j sid r)"
      by (intro run_call ps that)
    then show ?thesis using generate_sid_run [OF P that, of r] by simp
  qed
  then show ?thesis unfolding run_rounds_add by (intro run_rounds_cong i)
qed

end
