(* ===== verification/Key_Share.thy ===== *)
theory Key_Share
  imports Sharing_Exponent
begin

text \<open>
  The multi-party key share and its conversion to an additive share: \<^verbatim>\<open>key_share_mp_t\<close> of
  \<^verbatim>\<open>protocol/ec_dkg.cpp\<close>. A quorum of an access structure turns the shares of its members into
  additive shares of the same key, each member on its own; the public shares are converted alike.
\<close>

section \<open>Conversion to an additive share\<close>

record 'p key_share_mp_t =
  x_share :: int
  key_Q :: 'p
  Qis :: "pname_t \<rightharpoonup> 'p"
  key_curve :: "'p ecurve"
  party_name :: pname_t

text \<open>
  The two recursions \<^verbatim>\<open>reconstruct_additive_share\<close> and \<^verbatim>\<open>reconstruct_pub_additive_shares\<close> run the
  same loops on scalars and on points. A call yields its return code with the output, and the flag
  \<^verbatim>\<open>is_satisfied\<close>, which every caller clears before the call. The exceptions of \<^verbatim>\<open>std::map::at\<close> and
  of \<^verbatim>\<open>reserve\<close> with a negative size are the fault \<^const>\<open>Out_Of_Bounds\<close>.
\<close>

fun additive_or :: "bool \<Rightarrow> ('a::zero res \<times> bool) list \<Rightarrow> 'a res \<times> bool" where
  "additive_or is_satisfied [] = (Inr 0, is_satisfied)"
| "additive_or is_satisfied ((rv, child_is_satisfied) # rs) =
     (let is_satisfied' = (is_satisfied \<or> child_is_satisfied)
      in case rv of
           Inl e \<Rightarrow> if e = Err E_INSUFFICIENT then additive_or is_satisfied' rs else (Inl e, is_satisfied')
         | Inr s \<Rightarrow> if \<not> child_is_satisfied then additive_or is_satisfied' rs else (Inr s, is_satisfied'))"

fun additive_and :: "'a::zero \<Rightarrow> bool \<Rightarrow> ('a res \<times> bool) list \<Rightarrow> 'a res \<times> bool" where
  "additive_and additive_share is_satisfied [] = (Inr additive_share, is_satisfied)"
| "additive_and additive_share is_satisfied ((rv, child_is_satisfied) # rs) =
     (let is_satisfied' = (is_satisfied \<and> child_is_satisfied)
      in case rv of
           Inl e \<Rightarrow> (Inl e, is_satisfied')
         | Inr s \<Rightarrow> additive_and (if s \<noteq> 0 then s else additive_share) is_satisfied' rs)"

record 'a threshold_state =
  interp_pids :: "int list"
  th_share :: 'a
  share_pid :: int
  satisfied_count :: int

fun additive_threshold_loop ::
  "int \<Rightarrow> (('a::zero res \<times> bool) \<times> int) list \<Rightarrow> 'a threshold_state \<Rightarrow> 'a threshold_state res" where
  "additive_threshold_loop th [] st = Inr st"
| "additive_threshold_loop th (((rv, child_is_satisfied), child_pid) # rs) st =
     (case rv of
        Inl e \<Rightarrow> if e = Err E_INSUFFICIENT then additive_threshold_loop th rs st else Inl e
      | Inr s \<Rightarrow>
          if \<not> child_is_satisfied then additive_threshold_loop th rs st
          else let st1 = st\<lparr>satisfied_count := satisfied_count st + 1\<rparr>
               in if \<not> int (length (interp_pids st1)) < th then additive_threshold_loop th rs st1
                  else let st2 = st1\<lparr>interp_pids := interp_pids st1 @ [child_pid]\<rparr>
                       in additive_threshold_loop th rs
                            (if s \<noteq> 0 then st2\<lparr>share_pid := child_pid, th_share := s\<rparr> else st2))"

definition additive_threshold ::
  "int \<Rightarrow> ('a::zero \<Rightarrow> int \<Rightarrow> int list \<Rightarrow> 'a res) \<Rightarrow> (('a res \<times> bool) \<times> int) list \<Rightarrow> 'a res \<times> bool" where
  "additive_threshold th interpolate rs =
     (if th < 0 then (Inl Out_Of_Bounds, False)
      else case additive_threshold_loop th rs
             \<lparr>interp_pids = [], th_share = 0, share_pid = 0, satisfied_count = 0\<rparr> of
             Inl e \<Rightarrow> (Inl e, False)
           | Inr st \<Rightarrow>
               if satisfied_count st < th then (error E_INSUFFICIENT, False)
               else if share_pid st = 0 then (Inr 0, True)
               else (bind_res (cb_assert (int (length (interp_pids st)) = th))
                       (\<lambda>_. interpolate (th_share st) (share_pid st) (interp_pids st)), True))"

definition additive_node ::
  "'a::zero res \<times> bool \<Rightarrow> ('a \<Rightarrow> int \<Rightarrow> int list \<Rightarrow> 'a res) \<Rightarrow> node_e \<Rightarrow> int \<Rightarrow> int list
     \<Rightarrow> ('a res \<times> bool) list \<Rightarrow> 'a res \<times> bool" where
  "additive_node leaf interpolate ty th pids results =
     (case ty of
        LEAF \<Rightarrow> leaf
      | OR \<Rightarrow> additive_or False results
      | AND \<Rightarrow> additive_and 0 True results
      | THRESHOLD \<Rightarrow> additive_threshold th interpolate (zip results pids)
      | NONE \<Rightarrow> (error E_CRYPTO, False)
      | NODE_E_OTHER _ \<Rightarrow> (Inr 0, False))"

fun reconstruct_additive_share ::
  "bn_inverse \<Rightarrow> (pname_t \<Rightarrow> int) \<Rightarrow> 'p key_share_mp_t \<Rightarrow> int \<Rightarrow> pname_t set \<Rightarrow> node_t \<Rightarrow> int res \<times> bool" where
  "reconstruct_additive_share bn_inv pid key q quorum_names (Node ty nm th ch) =
     additive_node (Inr (if nm = party_name key then x_share key else 0), nm \<in> quorum_names)
       (\<lambda>share share_pid interp_pids. lagrange_partial_interpolate False bn_inv q 0 [share] [share_pid] interp_pids)
       ty th (map (\<lambda>c. pid (nname c)) ch)
       (map (reconstruct_additive_share bn_inv pid key q quorum_names) ch)"

fun reconstruct_pub_additive_shares ::
  "bn_inverse \<Rightarrow> (pname_t \<Rightarrow> int) \<Rightarrow> 'p::ab_group_add key_share_mp_t \<Rightarrow> pname_t set \<Rightarrow> pname_t \<Rightarrow> node_t
     \<Rightarrow> 'p res \<times> bool" where
  "reconstruct_pub_additive_shares bn_inv pid key quorum_names target (Node ty nm th ch) =
     additive_node
       (if nm = target then case Qis key nm of None \<Rightarrow> (Inl Out_Of_Bounds, False)
                            | Some Qi \<Rightarrow> (Inr Qi, nm \<in> quorum_names)
        else (Inr 0, nm \<in> quorum_names))
       (\<lambda>share share_pid interp_pids.
          lagrange_partial_interpolate_exponent bn_inv (order (key_curve key)) 0 [share] [share_pid] interp_pids)
       ty th (map (\<lambda>c. pid (nname c)) ch)
       (map (reconstruct_pub_additive_shares bn_inv pid key quorum_names target) ch)"

text \<open>\<open>quorum_names\<close> is the set in its iteration order. A null root is refused by the quorum test.\<close>

definition to_additive_share ::
  "bn_inverse \<Rightarrow> (pname_t \<Rightarrow> int) \<Rightarrow> 'p::ab_group_add ac_t \<Rightarrow> pname_t list \<Rightarrow> 'p key_share_mp_t
     \<Rightarrow> 'p key_share_mp_t res" where
  "to_additive_share bn_inv pid ac quorum_names key =
     bind_res (ac_enough_for_quorum ac (set quorum_names)) (\<lambda>enough.
     if \<not> enough then error E_INSUFFICIENT
     else case root ac of None \<Rightarrow> Inl Out_Of_Bounds
     | Some t \<Rightarrow>
         bind_res (fst (reconstruct_additive_share bn_inv pid key (order (key_curve key)) (set quorum_names) t))
           (\<lambda>new_x_share.
         bind_res (fold_res (\<lambda>name new_Qis.
               bind_res (fst (reconstruct_pub_additive_shares bn_inv pid key (set quorum_names) name t))
                 (\<lambda>new_Qi. Inr (new_Qis(name \<mapsto> new_Qi))))
             quorum_names Map.empty) (\<lambda>new_Qis.
         Inr \<lparr>x_share = new_x_share, key_Q = key_Q key, Qis = new_Qis, key_curve = key_curve key,
              party_name = party_name key\<rparr>)))"

section \<open>The coefficients of a quorum\<close>

text \<open>
  The abstract object: the coefficient with which the share of party \<open>P\<close> enters the key when the
  parties \<open>A\<close> act, a product of Lagrange weights along the path to the leaf of \<open>P\<close>, or zero when the
  leaf is not among the selected ones.
\<close>

fun coefficient :: "(int \<Rightarrow> int) \<Rightarrow> (pname_t \<Rightarrow> int) \<Rightarrow> pname_t set \<Rightarrow> pname_t \<Rightarrow> node_t \<Rightarrow> int" where
  "coefficient iv pid A P (Node ty nm th ch) =
     (let cs = filter fst (map (\<lambda>c. (satisfied A c, pid (nname c), coefficient iv pid A P c)) ch);
          sel = take (nat th) cs
      in case ty of
           LEAF \<Rightarrow> if nm = P \<and> nm \<in> A then 1 else 0
         | OR \<Rightarrow> (case cs of [] \<Rightarrow> 0 | c # _ \<Rightarrow> snd (snd c))
         | AND \<Rightarrow> (\<Sum>c\<leftarrow>cs. snd (snd c))
         | THRESHOLD \<Rightarrow> (\<Sum>(_, p, k)\<leftarrow>sel. weight iv ((fst \<circ> snd) ` set sel) 0 p * k)
         | _ \<Rightarrow> 0)"

lemma coefficient_eqs:
  fixes A P ch
  defines "cs \<equiv> filter (satisfied A) ch"
  shows
  "coefficient iv pid A P (Node LEAF nm th ch) = (if nm = P \<and> nm \<in> A then 1 else 0)"
  "coefficient iv pid A P (Node OR nm th ch) = (case cs of [] \<Rightarrow> 0 | c # _ \<Rightarrow> coefficient iv pid A P c)"
  "coefficient iv pid A P (Node AND nm th ch) = (\<Sum>c\<leftarrow>cs. coefficient iv pid A P c)"
  "coefficient iv pid A P (Node THRESHOLD nm th ch) =
     (\<Sum>c\<leftarrow>take (nat th) cs. weight iv ((\<lambda>c. pid (nname c)) ` set (take (nat th) cs)) 0 (pid (nname c)) * coefficient iv pid A P c)"
  unfolding cs_def
  by (simp_all add: filter_map o_def take_map image_image split: list.split)

declare coefficient.simps [simp del]
declare coefficient_eqs [simp]

lemma sum_list_zero: "(\<And>x. x \<in> set xs \<Longrightarrow> f x = 0) \<Longrightarrow> (\<Sum>x\<leftarrow>xs. f x) = (0 :: 'a::comm_monoid_add)"
  by (induction xs) simp_all

lemma coefficient_support: "coefficient iv pid A P t \<noteq> 0 \<Longrightarrow> P \<in> A \<and> P \<in> list_leaf_names t"
proof (induction t)
  case (Node ty nm th ch)
  have mem: "\<exists>c\<in>set ch. coefficient iv pid A P c \<noteq> 0" if "ty \<noteq> LEAF"
  proof (rule ccontr)
    assume "\<not> ?thesis"
    then have z: "coefficient iv pid A P c = 0" if "c \<in> set ch" for c using that by blast
    have "coefficient iv pid A P (Node ty nm th ch) = 0"
    proof (cases ty)
      case OR
      then show ?thesis by (auto split: list.split intro!: z) (metis filter_is_subset list.set_intros(1) subsetD)
    next
      case AND
      then show ?thesis using z by (auto intro: sum_list_zero)
    next
      case THRESHOLD
      then show ?thesis using z
        by (simp cong: map_cong) (auto intro!: sum_list_zero dest!: in_set_takeD)
    qed (use that in \<open>simp_all add: coefficient.simps\<close>)
    then show False using Node.prems by simp
  qed
  show ?case
  proof (cases "ty = LEAF")
    case True
    then show ?thesis using Node.prems by (auto split: if_splits)
  next
    case False
    from mem [OF this] obtain c where "c \<in> set ch" "coefficient iv pid A P c \<noteq> 0" by blast
    with Node.IH [OF this] False show ?thesis by auto
  qed
qed

lemma coefficient_exclusive:
  "distinct (concat (map node_names ch)) \<Longrightarrow>
     sorted_wrt (\<lambda>c d. coefficient iv pid A P c = 0 \<or> coefficient iv pid A P d = 0) ch"
proof (induction ch)
  case (Cons c ch)
  have "coefficient iv pid A P c = 0 \<or> coefficient iv pid A P d = 0" if "d \<in> set ch" for d
    using Cons.prems that coefficient_support [of iv pid A P c] coefficient_support [of iv pid A P d]
      leaf_names_subset [of c] leaf_names_subset [of d] by fastforce
  with Cons show ?case by simp
qed simp


section \<open>The loops compute the coefficients\<close>

text \<open>
  What a call returns at a node with coefficient \<open>k\<close>, where \<open>V k\<close> is the share times \<open>k\<close>; a call at a
  node that is not satisfied clears the flag, whatever it returns.
\<close>

definition meets :: "(int \<Rightarrow> 'a) \<Rightarrow> bool \<Rightarrow> int \<Rightarrow> 'a res \<times> bool \<Rightarrow> bool" where
  "meets V sat k r \<longleftrightarrow>
     (if sat then r = (Inr (V k), True) else \<not> snd r \<and> (fst r = error E_INSUFFICIENT \<or> (\<exists>y. fst r = Inr y)))"

lemma meets_cases:
  assumes "meets V sat k r"
  obtains "sat" "r = (Inr (V k), True)" | "\<not> sat" "r = (error E_INSUFFICIENT, False)"
    | y where "\<not> sat" "r = (Inr y, False)"
  using assms by (cases r) (auto simp: meets_def split: if_splits)

lemma additive_or_meets:
  assumes "\<And>c. c \<in> set ch \<Longrightarrow> meets V (sat c) (k c) (f c)"
  shows "meets V (list_ex sat ch) (case filter sat ch of [] \<Rightarrow> 0 | c # _ \<Rightarrow> k c) (additive_or False (map f ch))"
  using assms
proof (induction ch)
  case Nil
  then show ?case by (simp add: meets_def)
next
  case (Cons c ch)
  then have IH: "meets V (list_ex sat ch) (case filter sat ch of [] \<Rightarrow> 0 | c # _ \<Rightarrow> k c) (additive_or False (map f ch))"
    by simp
  have "meets V (sat c) (k c) (f c)" using Cons.prems by simp
  then show ?case by (rule meets_cases) (use IH in \<open>simp_all add: meets_def\<close>)
qed

lemma additive_and_unsatisfied:
  assumes "\<And>c. c \<in> set ch \<Longrightarrow> meets V (sat c) (k c) (f c)" "\<not> (flag \<and> list_all sat ch)"
  shows "meets V False k0 (additive_and a flag (map f ch))"
  using assms
proof (induction ch arbitrary: a flag)
  case (Cons c ch)
  have "meets V (sat c) (k c) (f c)" using Cons.prems by simp
  then show ?case
    by (rule meets_cases) (use Cons in \<open>auto simp: meets_def [of _ False] intro: Cons.IH\<close>)
qed (simp add: meets_def)

lemma additive_and_satisfied:
  fixes V :: "int \<Rightarrow> 'a::zero"
  assumes V0: "V 0 = 0" and res: "\<And>c. c \<in> set ch \<Longrightarrow> f c = (Inr (V (k c)), True)"
    and excl: "sorted_wrt (\<lambda>c d. k c = 0 \<or> k d = (0::int)) ch" "a = 0 \<or> (\<forall>c\<in>set ch. k c = 0)"
  shows "additive_and (V a) True (map f ch) = (Inr (V (a + (\<Sum>c\<leftarrow>ch. k c))), True)"
  using res excl
proof (induction ch arbitrary: a)
  case (Cons c ch)
  have "(if V (k c) \<noteq> 0 then V (k c) else V a) = V (a + k c)"
    using Cons.prems(3) V0 by auto
  moreover have "additive_and (V (a + k c)) True (map f ch) = (Inr (V (a + k c + (\<Sum>c\<leftarrow>ch. k c))), True)"
    using Cons.prems by (intro Cons.IH) auto
  ultimately show ?case using Cons.prems(1) by (simp add: add.assoc)
qed simp

text \<open>The threshold loop keeps the first \<open>th\<close> satisfied children and the last non-zero share among them.\<close>

definition pick :: "('c \<Rightarrow> 'a::zero) \<Rightarrow> ('c \<Rightarrow> int) \<Rightarrow> 'c list \<Rightarrow> 'a \<times> int \<Rightarrow> 'a \<times> int" where
  "pick s p cs = fold (\<lambda>c acc. if s c \<noteq> 0 then (s c, p c) else acc) cs"

lemma additive_threshold_loop_meets:
  assumes "\<And>c. c \<in> set ch \<Longrightarrow> meets V (sat c) (k c) (f c)" "int (length ps) \<le> th"
  shows "additive_threshold_loop th (zip (map f ch) (map p ch))
      \<lparr>interp_pids = ps, th_share = s, share_pid = sp, satisfied_count = n\<rparr> =
    (let sel = take (nat th - length ps) (filter sat ch); acc = pick (\<lambda>c. V (k c)) p sel (s, sp)
     in Inr \<lparr>interp_pids = ps @ map p sel, th_share = fst acc, share_pid = snd acc,
             satisfied_count = n + int (length (filter sat ch))\<rparr>)"
  using assms
proof (induction ch arbitrary: ps s sp n)
  case Nil
  then show ?case by (simp add: pick_def)
next
  case (Cons c ch)
  have c: "meets V (sat c) (k c) (f c)" using Cons.prems by simp
  show ?case
  proof (cases "sat c")
    case False
    with c Cons show ?thesis by (auto elim!: meets_cases)
  next
    case True
    then have f: "f c = (Inr (V (k c)), True)" using c by (simp add: meets_def)
    show ?thesis
    proof (cases "int (length ps) < th")
      case True
      then have "nat th - length ps = Suc (nat th - Suc (length ps))" by auto
      with True Cons \<open>sat c\<close> f show ?thesis by (simp add: pick_def Let_def add.assoc)
    next
      case False
      then have "nat th - length ps = 0" by simp
      with False Cons \<open>sat c\<close> f show ?thesis by (simp add: pick_def Let_def add.assoc)
    qed
  qed
qed

lemma pick_exclusive:
  assumes "sorted_wrt (\<lambda>c d. k c = 0 \<or> k d = (0::int)) cs" "V 0 = (0 :: 'a::zero)"
  shows "(pick (\<lambda>c. V (k c)) p cs acc = acc \<and> (\<forall>c\<in>set cs. V (k c) = 0)) \<or>
    (\<exists>c\<in>set cs. pick (\<lambda>c. V (k c)) p cs acc = (V (k c), p c) \<and> V (k c) \<noteq> 0)"
  using assms(1)
proof (induction cs arbitrary: acc)
  case (Cons c cs)
  then show ?case using assms(2) by (auto simp: pick_def)
qed (simp add: pick_def)

lemma sum_exclusive:
  assumes "sorted_wrt (\<lambda>c d. k c = 0 \<or> k d = (0::int)) cs" "c \<in> set cs" "k c \<noteq> 0"
  shows "(\<Sum>c\<leftarrow>cs. w c * k c) = w c * k c"
  using assms
proof (induction cs)
  case (Cons d cs)
  show ?case
  proof (cases "c = d")
    case True
    then have "(\<Sum>c\<leftarrow>cs. w c * k c) = 0" using Cons.prems by (intro sum_list_zero) auto
    with True show ?thesis by simp
  qed (use Cons in auto)
qed simp

lemma additive_threshold_meets:
  fixes V :: "int \<Rightarrow> 'a::zero" and th :: int and p :: "'c \<Rightarrow> int"
  defines "sel \<equiv> \<lambda>ch sat. take (nat th) (filter sat ch)"
  assumes th: "1 \<le> th" and res: "\<And>c. c \<in> set ch \<Longrightarrow> meets V (sat c) (k c) (f c)"
    and pids: "\<And>c. c \<in> set ch \<Longrightarrow> p c \<noteq> 0"
    and excl: "sorted_wrt (\<lambda>c d. k c = 0 \<or> k d = 0) ch"
    and V: "V 0 = 0" "\<And>m k. V k = 0 \<Longrightarrow> V (m * k) = 0"
    and interp: "\<And>c. c \<in> set (sel ch sat) \<Longrightarrow> interp (V (k c)) (p c) (map p (sel ch sat)) = Inr (V (w c * k c))"
  shows "meets V (th \<le> int (length (filter sat ch))) (\<Sum>c\<leftarrow>sel ch sat. w c * k c)
      (additive_threshold th interp (zip (map f ch) (map p ch)))"
proof -
  let ?sel = "sel ch sat" and ?acc = "pick (\<lambda>c. V (k c)) p (sel ch sat) (0, 0)"
  have loop: "additive_threshold_loop th (zip (map f ch) (map p ch))
        \<lparr>interp_pids = [], th_share = 0, share_pid = 0, satisfied_count = 0\<rparr> =
      Inr \<lparr>interp_pids = map p ?sel, th_share = fst ?acc, share_pid = snd ?acc,
           satisfied_count = int (length (filter sat ch))\<rparr>"
    using additive_threshold_loop_meets [where ps = "[]" and th = th and p = p and s = 0 and sp = 0 and n = 0, OF res] th by (simp add: Let_def sel_def)
  have sub: "set ?sel \<subseteq> set ch" unfolding sel_def by (meson filter_is_subset set_take_subset subset_trans)
  have ex: "sorted_wrt (\<lambda>c d. k c = 0 \<or> k d = 0) ?sel"
    using excl by (simp add: sel_def sorted_wrt_filter sorted_wrt_take)
  show ?thesis
  proof (cases "th \<le> int (length (filter sat ch))")
    case False
    then show ?thesis using th by (simp add: additive_threshold_def loop meets_def)
  next
    case True
    then have len: "int (length ?sel) = th" using th by (simp add: sel_def)
    from pick_exclusive [where V = V, OF ex V(1), of p "(0, 0)"]
    consider "?acc = (0, 0)" "\<forall>c\<in>set ?sel. V (k c) = 0"
      | c where "c \<in> set ?sel" "?acc = (V (k c), p c)" "V (k c) \<noteq> 0" by blast
    then have "additive_threshold th interp (zip (map f ch) (map p ch)) = (Inr (V (\<Sum>c\<leftarrow>?sel. w c * k c)), True)"
    proof cases
      case 1
      have "V (\<Sum>c\<leftarrow>?sel. w c * k c) = 0"
      proof (cases "\<exists>c\<in>set ?sel. k c \<noteq> 0")
        case True
        then show ?thesis using sum_exclusive [OF ex] 1(2) V(2) by metis
      next
        case False
        then have "(\<Sum>c\<leftarrow>?sel. w c * k c) = 0" by (intro sum_list_zero) auto
        then show ?thesis by (simp add: V(1))
      qed
      then show ?thesis using th True 1(1) by (simp add: additive_threshold_def loop)
    next
      case 2
      then have "k c \<noteq> 0" using V(1) by auto
      then show ?thesis
        using th True 2 sub pids [of c] len interp [OF 2(1)] sum_exclusive [OF ex 2(1)]
        by (auto simp: additive_threshold_def loop)
    qed
    with True show ?thesis by (simp add: meets_def)
  qed
qed


lemma eqm_sum_list: "(\<And>c. c \<in> set cs \<Longrightarrow> eqm q (f c) (g c)) \<Longrightarrow> eqm q (\<Sum>c\<leftarrow>cs. f c) (\<Sum>c\<leftarrow>cs. g c)"
  by (induction cs) (auto intro: eqm_add)

lemma weighted_swap:
  "(\<Sum>P\<in>A. (\<Sum>c\<leftarrow>cs. w c * g P c) * (v P :: int)) = (\<Sum>c\<leftarrow>cs. w c * (\<Sum>P\<in>A. g P c * v P))"
  by (induction cs) (simp_all add: sum.distrib distrib_left distrib_right sum_distrib_left mult.assoc)

section \<open>Additive shares\<close>

context mod_inverse
begin

lemma partial_exponent_weight:
  assumes q: "field_modulus q" and P: "smul q P = 0" and pids: "good_pids q ps" "p \<in> set ps"
  shows "lagrange_partial_interpolate_exponent bn_inv q x [P] [p] ps
     = Inr (smul (weight (modinv q) (set ps) x p) P)"
proof -
  obtain l where l: "lagrange_basis bn_inv q x ps p = Inr l" "eqm q l (weight (modinv q) (set ps) x p)"
    using lagrange_basis_weight [OF q pids, of x] by auto
  then show ?thesis
    using pids(2) smul_eqm [OF P l(2)]
    by (cases ps) (auto simp: lagrange_partial_interpolate_exponent_def interpolate_exponent_step_def)
qed

lemma additive_node_meets:
  fixes V :: "int \<Rightarrow> 'a::zero"
  assumes wf: "wf_node (Node ty nm th ch)" "distinct (node_names (Node ty nm th ch))" "pids_ok q pid (Node ty nm th ch)"
    and V: "V 0 = 0" "\<And>m k. V k = 0 \<Longrightarrow> V (m * k) = 0"
    and leaf: "meets V (nm \<in> A) (if nm = P \<and> nm \<in> A then 1 else 0) leaf"
    and interp: "\<And>k p ps. good_pids q ps \<Longrightarrow> p \<in> set ps \<Longrightarrow>
        interp (V k) p ps = Inr (V (weight (modinv q) (set ps) 0 p * k))"
    and res: "\<And>c. c \<in> set ch \<Longrightarrow> meets V (satisfied A c) (coefficient (modinv q) pid A P c) (f c)"
  shows "meets V (satisfied A (Node ty nm th ch)) (coefficient (modinv q) pid A P (Node ty nm th ch))
      (additive_node leaf interp ty th (map (\<lambda>c. pid (nname c)) ch) (map f ch))"
proof -
  let ?k = "coefficient (modinv q) pid A P" and ?p = "\<lambda>c. pid (nname c)"
  have excl: "sorted_wrt (\<lambda>c d. ?k c = 0 \<or> ?k d = 0) ch" using wf(2) by (intro coefficient_exclusive) auto
  consider (LEAF) "ty = LEAF" | (OR) "ty = OR" | (AND) "ty = AND" | (THR) "ty = THRESHOLD"
    using wf(1) by (cases ty) auto
  then show ?thesis
  proof cases
    case LEAF
    then show ?thesis using leaf by (simp add: additive_node_def)
  next
    case OR
    then show ?thesis using additive_or_meets [OF res] by (simp add: additive_node_def)
  next
    case AND
    show ?thesis
    proof (cases "list_all (satisfied A) ch")
      case True
      then have "filter (satisfied A) ch = ch" by (simp add: list_all_iff)
      moreover have "f c = (Inr (V (?k c)), True)" if "c \<in> set ch" for c
        using res [OF that] True that by (simp add: meets_def list_all_iff)
      then have "additive_and 0 True (map f ch) = (Inr (V (\<Sum>c\<leftarrow>ch. ?k c)), True)"
        using additive_and_satisfied [where V = V and k = ?k and a = 0, OF V(1) _ excl] V(1) by simp
      ultimately show ?thesis using AND True by (simp add: additive_node_def meets_def)
    next
      case False
      with additive_and_unsatisfied [OF res, where flag = True] AND show ?thesis
        by (simp add: additive_node_def)
    qed
  next
    case THR
    let ?sel = "take (nat th) (filter (satisfied A) ch)"
    have sub: "set ?sel \<subseteq> set ch" by (meson filter_is_subset set_take_subset subset_trans)
    have "good_pids q (map ?p ?sel)"
    proof (rule good_pids_of_range)
      show "distinct (map ?p ?sel)" using wf(3) THR by (simp add: distinct_map_filter flip: take_map)
      show "0 < p \<and> p < q" if "p \<in> set (map ?p ?sel)" for p
        using that wf(3) THR sub by (auto simp: list_all_iff)
    qed
    then have "interp (V (?k c)) (?p c) (map ?p ?sel)
        = Inr (V (weight (modinv q) (?p ` set ?sel) 0 (?p c) * ?k c))" if "c \<in> set ?sel" for c
      using that by (subst interp) auto
    moreover have "?p c \<noteq> 0" if "c \<in> set ch" for c using that wf(3) THR by (auto simp: list_all_iff)
    moreover have "1 \<le> th" using wf(1) THR by simp
    ultimately show ?thesis
      using THR res excl V
      by (simp add: additive_node_def, intro additive_threshold_meets) auto
  qed
qed

lemma reconstruct_additive_share_meets:
  assumes q: "field_modulus q" and x: "is_in_range q (x_share key)"
  shows "wf_node t \<Longrightarrow> distinct (node_names t) \<Longrightarrow> pids_ok q pid t \<Longrightarrow>
    meets (\<lambda>k. k * x_share key mod q) (satisfied A t) (coefficient (modinv q) pid A (party_name key) t)
      (reconstruct_additive_share bn_inv pid key q A t)"
proof (induction t)
  case (Node ty nm th ch)
  let ?V = "\<lambda>k. k * x_share key mod q"
  have q0: "0 < q" using field_modulus_gt [OF q] by simp
  show ?case unfolding reconstruct_additive_share.simps
  proof (rule additive_node_meets [OF Node.prems])
    show "meets ?V (satisfied A c) (coefficient (modinv q) pid A (party_name key) c)
        (reconstruct_additive_share bn_inv pid key q A c)" if "c \<in> set ch" for c
      using that Node.prems by (intro Node.IH) (auto simp: list_all_iff distinct_concat_iff)
    show "?V (m * k) = 0" if "?V k = 0" for m k
      using that by (auto simp: mod_eq_0_iff_dvd mult.assoc)
    show "lagrange_partial_interpolate False bn_inv q 0 [?V k] [p] ps
        = Inr (?V (weight (modinv q) (set ps) 0 p * k))" if "good_pids q ps" "p \<in> set ps" for k p ps
      using that q0 partial_interpolate_weights [OF q that(1), of "[p]" "[?V k]" False 0]
      by (cases ps) (simp_all add: mod_mult_right_eq mult.assoc is_in_range_def)
  qed (use x in \<open>auto simp: meets_def is_in_range_mod\<close>)
qed

lemma reconstruct_pub_additive_shares_meets:
  assumes q: "field_modulus (order (key_curve key))" and Qi: "smul (order (key_curve key)) Qi = 0"
    and at: "target \<in> list_leaf_names t \<Longrightarrow> Qis key target = Some Qi"
  shows "wf_node t \<Longrightarrow> distinct (node_names t) \<Longrightarrow> pids_ok (order (key_curve key)) pid t \<Longrightarrow>
    meets (\<lambda>k. smul k Qi) (satisfied A t) (coefficient (modinv (order (key_curve key))) pid A target t)
      (reconstruct_pub_additive_shares bn_inv pid key A target t)"
  using at
proof (induction t)
  case (Node ty nm th ch)
  let ?V = "\<lambda>k. smul k Qi" and ?q = "order (key_curve key)"
  show ?case
  proof (cases "ty = LEAF")
    case True
    then show ?thesis using Node.prems(4) by (auto simp: meets_def additive_node_def)
  next
    case False
    have node: "additive_node leaf interp ty th ps rs = additive_node (Inr (if nm = target then Qi else 0), nm \<in> A) interp ty th ps rs"
      for leaf interp ps rs
      using False by (cases ty) (simp_all add: additive_node_def)
    show ?thesis unfolding reconstruct_pub_additive_shares.simps
    proof (subst node, rule additive_node_meets [OF Node.prems(1-3)])
      show "meets ?V (satisfied A c) (coefficient (modinv ?q) pid A target c)
          (reconstruct_pub_additive_shares bn_inv pid key A target c)" if "c \<in> set ch" for c
        using that Node.prems False by (intro Node.IH) (auto simp: list_all_iff distinct_concat_iff)
      show "?V (m * k) = 0" if "?V k = 0" for m k
        using that by (simp flip: smul_smul)
      show "lagrange_partial_interpolate_exponent bn_inv ?q 0 [?V k] [p] ps
          = Inr (?V (weight (modinv ?q) (set ps) 0 p * k))" if "good_pids ?q ps" "p \<in> set ps" for k p ps
      proof -
        have "smul ?q (?V k) = 0" using smul_multiple [OF Qi, of k] by (simp add: smul_smul mult.commute)
        from partial_exponent_weight [OF q this that] show ?thesis by (simp add: smul_smul)
      qed
    qed (auto simp: meets_def)
  qed
qed

text \<open>The coefficients recombine the key from the shares of the quorum.\<close>

lemma coefficients_recombine:
  assumes q: "field_modulus q" and A: "finite A"
  shows "wf_node t \<Longrightarrow> pids_ok q pid t \<Longrightarrow> consistent q pid v t \<Longrightarrow> satisfied A t \<Longrightarrow>
    eqm q (\<Sum>P\<in>A. coefficient (modinv q) pid A P t * v P) (v (nname t))"
proof (induction t)
  case (Node ty nm th ch)
  let ?k = "coefficient (modinv q) pid A" and ?p = "\<lambda>c. pid (nname c)" and ?fs = "filter (satisfied A) ch"
  have IH: "eqm q (\<Sum>P\<in>A. ?k P c * v P) (v (nname c))" if "c \<in> set ?fs" for c
    using that Node.prems by (intro Node.IH) (auto simp: list_all_iff)
  consider (LEAF) "ty = LEAF" | (OR) "ty = OR" | (AND) "ty = AND" | (THR) "ty = THRESHOLD"
    using Node.prems(1) by (cases ty) auto
  then show ?case
  proof cases
    case LEAF
    have "(\<Sum>P\<in>A. (if nm = P \<and> nm \<in> A then 1 else 0) * v P) = (\<Sum>P\<in>A. if nm = P then v P else 0)"
      by (intro sum.cong) auto
    then show ?thesis using LEAF A Node.prems(4) by simp
  next
    case OR
    then have "?fs \<noteq> []" using Node.prems(4) by (auto simp: list_ex_iff filter_empty_conv)
    then obtain c cs where c: "?fs = c # cs" by (cases ?fs) auto
    then have m: "c \<in> set ?fs" by simp
    then have "v (nname c) = v nm" using OR Node.prems(3) by (simp add: list_all_iff)
    with IH [OF m] OR c show ?thesis by simp
  next
    case AND
    then have fs: "?fs = ch" using Node.prems(4) by (simp add: list_all_iff)
    have "eqm q (\<Sum>c\<leftarrow>ch. 1 * (\<Sum>P\<in>A. ?k P c * v P)) (\<Sum>c\<leftarrow>ch. v (nname c))"
      using IH fs by (intro eqm_sum_list) simp
    with AND Node.prems(3) weighted_swap [where w = "\<lambda>_. 1" and g = ?k and cs = ch and A = A and v = v]
    show ?thesis by (simp add: fs)
  next
    case THR
    let ?sel = "take (nat th) ?fs"
    let ?w = "\<lambda>c. weight (modinv q) (?p ` set ?sel) 0 (?p c)"
    from Node.prems(3) THR obtain b where b: "length b \<le> nat th" "v nm = poly_eval b 0 mod q"
      "\<And>c. c \<in> set ch \<Longrightarrow> v (nname c) = poly_eval b (?p c) mod q"
      by (auto simp: list_all_iff)
    have sub: "set ?sel \<subseteq> set ?fs" by (rule set_take_subset)
    have dist: "distinct (map ?p ?sel)" using Node.prems(2) THR by (simp add: distinct_map_filter flip: take_map)
    have good: "good_pids q (map ?p ?sel)"
      using Node.prems(2) THR sub by (intro good_pids_of_range dist) (auto simp: list_all_iff)
    have len: "length ?sel = nat th" using Node.prems(4) THR by simp
    have "eqm q (\<Sum>c\<leftarrow>?sel. ?w c * (\<Sum>P\<in>A. ?k P c * v P)) (\<Sum>c\<leftarrow>?sel. ?w c * poly_eval b (?p c))"
    proof (intro eqm_sum_list eqm_mult eqm_refl)
      show "eqm q (\<Sum>P\<in>A. ?k P c * v P) (poly_eval b (?p c))" if "c \<in> set ?sel" for c
        using IH [of c] that sub b(3) [of c] by (auto dest!: in_set_takeD)
    qed
    also have "(\<Sum>c\<leftarrow>?sel. ?w c * poly_eval b (?p c))
        = (\<Sum>p\<in>set (map ?p ?sel). weight (modinv q) (set (map ?p ?sel)) 0 p * poly_eval b p)"
      using sum_list_distinct_conv_sum_set [OF dist, of "\<lambda>p. weight (modinv q) (set (map ?p ?sel)) 0 p * poly_eval b p"]
      by (simp add: o_def)
    also have "eqm q \<dots> (poly_eval b 0)"
      using good_pids_simps [OF good] b(1) len dist
      by (intro interpolation_identity modinv_prime q) (auto simp del: set_map simp: distinct_card)
    finally show ?thesis using THR b(2) by (simp add: weighted_swap)
  qed
qed

end

text \<open>The additive share of party \<open>P\<close>, and what the parts of a quorum add up to.\<close>

definition additive_part :: "int \<Rightarrow> (pname_t \<Rightarrow> int) \<Rightarrow> (pname_t \<Rightarrow> int) \<Rightarrow> pname_t set \<Rightarrow> node_t \<Rightarrow> pname_t \<Rightarrow> int" where
  "additive_part q pid v A t P = coefficient (modinv q) pid A P t * v P mod q"

lemma additive_part_support:
  assumes "0 < q"
  shows "is_in_range q (additive_part q pid v A t P)" "P \<notin> A \<Longrightarrow> additive_part q pid v A t P = 0"
proof -
  show "is_in_range q (additive_part q pid v A t P)" using assms by (simp add: additive_part_def is_in_range_def)
  have "coefficient (modinv q) pid A P t = 0" if "P \<notin> A" using coefficient_support that by blast
  then show "P \<notin> A \<Longrightarrow> additive_part q pid v A t P = 0" by (simp add: additive_part_def)
qed

context mod_inverse
begin

lemma additive_parts_sum:
  assumes "field_modulus q" "finite A" "wf_node t" "pids_ok q pid t" "consistent q pid v t" "satisfied A t"
    "is_in_range q (v (nname t))"
  shows "(\<Sum>P\<in>A. additive_part q pid v A t P) mod q = v (nname t)"
    and "smul q G = 0 \<Longrightarrow> (\<Sum>P\<in>A. smul (additive_part q pid v A t P) G) = smul (v (nname t)) G"
proof -
  have "eqm q (\<Sum>P\<in>A. additive_part q pid v A t P) (\<Sum>P\<in>A. coefficient (modinv q) pid A P t * v P)"
    unfolding additive_part_def by (intro eqm_sum) simp
  also have "eqm q \<dots> (v (nname t))" by (rule coefficients_recombine [OF assms(1-6)])
  finally have eq: "eqm q (\<Sum>P\<in>A. additive_part q pid v A t P) (v (nname t))" .
  then show "(\<Sum>P\<in>A. additive_part q pid v A t P) mod q = v (nname t)"
    using assms(7) by (simp add: eqm_def is_in_range_mod)
  show "(\<Sum>P\<in>A. smul (additive_part q pid v A t P) G) = smul (v (nname t)) G" if "smul q G = 0"
    using smul_eqm [OF that eq] by (simp add: smul_sum)
qed

lemma to_additive_share_correct:
  assumes q: "field_modulus (order c)" and G: "smul (order c) (generator c) = 0" and ac: "root ac = Some t"
    and t: "wf_node t" "distinct (node_names t)" "pids_ok (order c) pid t"
    and key: "key_curve key = c" "x_share key = v (party_name key)" "is_in_range (order c) (x_share key)"
    and pub: "\<And>n. n \<in> list_leaf_names t \<Longrightarrow> Qis key n = Some (smul (v n) (generator c))"
  shows "to_additive_share bn_inv pid ac A key =
    (if satisfied (set A) t then Inr (key\<lparr>x_share := additive_part (order c) pid v (set A) t (party_name key),
        Qis := (\<lambda>n. if n \<in> set A then Some (smul (additive_part (order c) pid v (set A) t n) (generator c)) else None)\<rparr>)
     else error E_INSUFFICIENT)"
proof (cases "satisfied (set A) t")
  case False
  then show ?thesis
    using ac t(1) by (simp add: to_additive_share_def ac_enough_for_quorum_def enough_for_quorum_satisfied)
next
  case A: True
  let ?s = "additive_part (order c) pid v (set A) t" and ?G = "generator c"
  have scalar: "fst (reconstruct_additive_share bn_inv pid key (order c) (set A) t) = Inr (?s (party_name key))"
    using reconstruct_additive_share_meets [OF q key(3) t, of "set A"] A key(2) by (simp add: meets_def additive_part_def)
  have point: "fst (reconstruct_pub_additive_shares bn_inv pid key (set A) n t) = Inr (smul (?s n) ?G)" for n
  proof -
    have "smul (order (key_curve key)) (smul (v n) ?G) = 0"
      using smul_multiple [OF G, of "v n"] key(1) by (simp add: smul_smul mult.commute)
    from reconstruct_pub_additive_shares_meets [where target = n and t = t and A = "set A" and pid = pid, OF _ this] q t A pub key(1)
    show ?thesis by (simp add: meets_def smul_smul additive_part_def smul_mod [OF G])
  qed
  have "fold_res (\<lambda>n m. bind_res (fst (reconstruct_pub_additive_shares bn_inv pid key (set A) n t)) (\<lambda>Qi. Inr (m(n \<mapsto> Qi)))) ns m
      = Inr (\<lambda>n. if n \<in> set ns then Some (smul (?s n) ?G) else m n)" for ns m
    by (induction ns arbitrary: m) (auto simp: point fun_eq_iff)
  with scalar A t(1) ac key(1) show ?thesis
    by (cases key) (simp add: to_additive_share_def ac_enough_for_quorum_def enough_for_quorum_satisfied)
qed

end

text \<open>The key share of a party after one dealer has shared the key \<open>x\<close> over the tree \<open>t\<close>.\<close>

definition dealt_key ::
  "'p::ab_group_add ecurve \<Rightarrow> node_t \<Rightarrow> int \<Rightarrow> ('p, 'r) share_state \<Rightarrow> pname_t \<Rightarrow> 'p key_share_mp_t" where
  "dealt_key c t x st P = \<lparr>x_share = the (ac_shares st P), key_Q = smul x (generator c),
     Qis = ac_internal_pub_shares st |` list_leaf_names t, key_curve = c, party_name = P\<rparr>"

end
