(* ===== verification/Dkg.thy ===== *)
theory Dkg
  imports Agree_Random Key_Share
begin

text \<open>
  Generation and refresh of keys by two and by several parties: \<^verbatim>\<open>dkg_2p_t\<close>, \<^verbatim>\<open>key_share_2p_t\<close> and \<^verbatim>\<open>key_share_mp_t\<close> of
  \<^verbatim>\<open>protocol/ec_dkg.cpp\<close>, with the proofs and commitments modelled before. The index of a party stands for its position in the list of names;
  \<open>vr\<close> is the state of the generator at each verification of a proof.
\<close>

definition dl_prove where
  "dl_prove P c Q w sid aux r = uc_dl_prove (pr_fischlin P) (pr_dl_oracle P) (pr_gen P) c Q w sid aux r"

definition dl_verify where
  "dl_verify P c Q sid aux pf r = uc_dl_verify (pr_fischlin P) (pr_dl_oracle P) (pr_check P) (pr_sigma P) c Q sid aux pf r"

definition uc_dl_empty :: "'p uc_dl" where
  "uc_dl_empty = \<lparr>dl_params = uc_dl_params, dl_A = [], dl_e = [], dl_z = []\<rparr>"

section \<open>Two parties\<close>

record 'p dkg_2p_t =
  dk_sid :: bytes
  dk_sid1 :: bytes
  dk_sid2 :: bytes
  dk_x1 :: int
  dk_x2 :: int
  dk_pi1 :: "'p uc_dl"
  dk_pi2 :: "'p uc_dl"
  dk_Q1 :: 'p
  dk_Q2 :: 'p
  dk_com :: commitment_t

definition dkg_2p_new :: "'p::ab_group_add dkg_2p_t" where
  "dkg_2p_new = \<lparr>dk_sid = [], dk_sid1 = [], dk_sid2 = [], dk_x1 = 0, dk_x2 = 0, dk_pi1 = uc_dl_empty, dk_pi2 = uc_dl_empty,
     dk_Q1 = 0, dk_Q2 = 0, dk_com = com_none\<rparr>"

definition step1_p1_to_p2 ::
  "('p, 'r) prims \<Rightarrow> 'p::ab_group_add ecurve \<Rightarrow> int \<Rightarrow> int \<Rightarrow> 'p dkg_2p_t \<Rightarrow> 'r \<Rightarrow> ('p dkg_2p_t \<times> 'r) res" where
  "step1_p1_to_p2 P c p1_pid x1 d r =
     bind_res (gen_random_bitlen P SEC_P_COM r) (\<lambda>(sid1, r).
     let Q1 = smul x1 (generator c)
     in bind_res (com_gen (pr_hmac P) (pr_bytes P) [VPoint Q1] (com_id sid1 p1_pid (dk_com d)) r) (\<lambda>(com, r).
        Inr (d\<lparr>dk_x1 := x1, dk_sid1 := sid1, dk_Q1 := Q1, dk_com := com\<rparr>, r)))"

definition step2_p2_to_p1 ::
  "('p, 'r) prims \<Rightarrow> 'p::ab_group_add ecurve \<Rightarrow> int \<Rightarrow> 'p dkg_2p_t \<Rightarrow> 'r \<Rightarrow> ('p dkg_2p_t \<times> 'r) res option" where
  "step2_p2_to_p1 P c x2 d r =
     lift_res (gen_random_bitlen P SEC_P_COM r) (\<lambda>(sid2, r).
     let sid = pr_sha P [VBuf (dk_sid1 d), VBuf sid2]; Q2 = smul x2 (generator c)
     in case dl_prove P c Q2 x2 sid 2 r of None \<Rightarrow> None
        | Some rv \<Rightarrow> lift_res rv (\<lambda>(pi_2, r).
            Some (Inr (d\<lparr>dk_x2 := x2, dk_sid2 := sid2, dk_sid := sid, dk_Q2 := Q2, dk_pi2 := pi_2\<rparr>, r))))"

definition step3_p1_to_p2 ::
  "('p, 'r) prims \<Rightarrow> 'p::ab_group_add ecurve \<Rightarrow> 'r \<Rightarrow> 'p dkg_2p_t \<Rightarrow> 'r \<Rightarrow> ('p \<times> 'p dkg_2p_t \<times> 'r) res option" where
  "step3_p1_to_p2 P c vr d r =
     (case pr_check P (dk_Q2 d) of Inl _ \<Rightarrow> Some (error E_CRYPTO)
      | Inr _ \<Rightarrow> let sid = pr_sha P [VBuf (dk_sid1 d), VBuf (dk_sid2 d)]
        in lift_res (dl_verify P c (dk_Q2 d) sid 2 (dk_pi2 d) vr) (\<lambda>_.
           case dl_prove P c (dk_Q1 d) (dk_x1 d) sid 1 r of None \<Rightarrow> None
           | Some rv \<Rightarrow> lift_res rv (\<lambda>(pi_1, r). Some (Inr (dk_Q1 d + dk_Q2 d, d\<lparr>dk_sid := sid, dk_pi1 := pi_1\<rparr>, r)))))"

definition step4_output_p2 :: "('p, 'r) prims \<Rightarrow> 'p::ab_group_add ecurve \<Rightarrow> int \<Rightarrow> 'r \<Rightarrow> 'p dkg_2p_t \<Rightarrow> 'p res" where
  "step4_output_p2 P c p1_pid vr d =
     (case pr_check P (dk_Q1 d) of Inl _ \<Rightarrow> error E_CRYPTO
      | Inr _ \<Rightarrow> bind_res (com_open (pr_hmac P) [VPoint (dk_Q1 d)] (com_id (dk_sid1 d) p1_pid (dk_com d))) (\<lambda>_.
          bind_res (dl_verify P c (dk_Q1 d) (dk_sid d) 1 (dk_pi1 d) vr) (\<lambda>_. Inr (dk_Q1 d + dk_Q2 d))))"

definition dec_msg1 :: "'p val list \<Rightarrow> (bytes \<times> bytes) option" where
  "dec_msg1 m = (case m of [a, b] \<Rightarrow> Option.bind (v_buf a) (\<lambda>a. map_option (Pair a) (v_buf b)) | _ \<Rightarrow> None)"

definition dec_msg2 :: "'p val list \<Rightarrow> (bytes \<times> 'p uc_dl \<times> 'p) option" where
  "dec_msg2 m = (case m of [a, pf, Q] \<Rightarrow>
     Option.bind (v_buf a) (\<lambda>a. Option.bind (v_dl pf) (\<lambda>pf. map_option (\<lambda>Q. (a, pf, Q)) (v_point Q))) | _ \<Rightarrow> None)"

definition dec_msg3 :: "'p val list \<Rightarrow> (bytes \<times> 'p uc_dl \<times> 'p) option" where
  "dec_msg3 m = (case m of [a, pf, Q] \<Rightarrow>
     Option.bind (v_buf256 a) (\<lambda>a. Option.bind (v_dl pf) (\<lambda>pf. map_option (\<lambda>Q. (a, pf, Q)) (v_point Q))) | _ \<Rightarrow> None)"

lemma dec_msgs [simp]:
  "dec_msg1 [VBuf a, VBuf b] = Some (a, b)" "dec_msg2 [VBuf a, VDl pf, VPoint Q] = Some (a, pf, Q)"
  "length a = 32 \<Longrightarrow> dec_msg3 [VBuf a, VDl pf, VPoint Q] = Some (a, pf, Q)"
  by (simp_all add: dec_msg1_def dec_msg2_def dec_msg3_def)

record 'p key_share_2p_t =
  k2_role :: nat
  k2_curve :: "'p ecurve"
  k2_Q :: 'p
  k2_x_share :: int

text \<open>\<^verbatim>\<open>key_share_2p_t::dkg\<close>, from the last message back to the first: each part goes on with a received message.\<close>

definition dkg_2p_finish ::
  "('p, 'r) prims \<Rightarrow> 'p::ab_group_add ecurve \<Rightarrow> int \<Rightarrow> nat \<Rightarrow> int \<Rightarrow> 'r \<Rightarrow> 'p \<Rightarrow> 'p dkg_2p_t \<Rightarrow> 'r \<Rightarrow> bytes \<times> 'p uc_dl \<times> 'p
     \<Rightarrow> ('p, 'p key_share_2p_t \<times> bytes \<times> 'r) protocol" where
  "dkg_2p_finish P c p1_pid me x vr Q d r = (\<lambda>(rd, pi1, Q1).
     let d = d\<lparr>dk_com := (dk_com d)\<lparr>com_rand := rd\<rparr>, dk_pi1 := pi1, dk_Q1 := Q1\<rparr>
     in do_res (if me = 1 then step4_output_p2 P c p1_pid vr d else Inr Q) (\<lambda>Q.
        Return (Inr (\<lparr>k2_role = me, k2_curve = c, k2_Q = Q, k2_x_share = x\<rparr>, dk_sid d, r))))"

definition dkg_2p_third ::
  "('p, 'r) prims \<Rightarrow> 'p::ab_group_add ecurve \<Rightarrow> int \<Rightarrow> nat \<Rightarrow> int \<Rightarrow> 'r \<Rightarrow> 'p dkg_2p_t \<Rightarrow> 'r \<Rightarrow> bytes \<times> 'p uc_dl \<times> 'p
     \<Rightarrow> ('p, 'p key_share_2p_t \<times> bytes \<times> 'r) protocol" where
  "dkg_2p_third P c p1_pid me x vr d r = (\<lambda>(sid2, pi2, Q2).
     let d = d\<lparr>dk_sid2 := sid2, dk_pi2 := pi2, dk_Q2 := Q2\<rparr>
     in do_search (if me = 0 then step3_p1_to_p2 P c vr d r else Some (Inr (0, d, r))) (\<lambda>(Q, d, r).
        one_way 0 me dec_msg3 [VBuf (com_rand (dk_com d)), VDl (dk_pi1 d), VPoint (dk_Q1 d)] (com_rand (dk_com d), dk_pi1 d, dk_Q1 d)
          (dkg_2p_finish P c p1_pid me x vr Q d r)))"

definition dkg_2p_second ::
  "('p, 'r) prims \<Rightarrow> 'p::ab_group_add ecurve \<Rightarrow> int \<Rightarrow> nat \<Rightarrow> int \<Rightarrow> 'r \<Rightarrow> 'p dkg_2p_t \<Rightarrow> 'r \<Rightarrow> bytes \<times> bytes
     \<Rightarrow> ('p, 'p key_share_2p_t \<times> bytes \<times> 'r) protocol" where
  "dkg_2p_second P c p1_pid me x vr d r = (\<lambda>(sid1, m).
     let d = d\<lparr>dk_sid1 := sid1, dk_com := (dk_com d)\<lparr>com_msg := m\<rparr>\<rparr>
     in do_search (if me = 1 then step2_p2_to_p1 P c x d r else Some (Inr (d, r))) (\<lambda>(d, r).
        one_way 1 me dec_msg2 [VBuf (dk_sid2 d), VDl (dk_pi2 d), VPoint (dk_Q2 d)] (dk_sid2 d, dk_pi2 d, dk_Q2 d)
          (dkg_2p_third P c p1_pid me x vr d r)))"

definition key_share_2p_dkg ::
  "('p, 'r) prims \<Rightarrow> 'p::ab_group_add ecurve \<Rightarrow> string list \<Rightarrow> nat \<Rightarrow> 'r \<Rightarrow> 'r \<Rightarrow> ('p, 'p key_share_2p_t \<times> bytes \<times> 'r) protocol" where
  "key_share_2p_dkg P c names me vr r =
     (let p1_pid = pr_pid P (names ! 0); (x, r) = pr_gen P (order c) r
      in do_res (if me = 0 then step1_p1_to_p2 P c p1_pid x dkg_2p_new r else Inr (dkg_2p_new, r)) (\<lambda>(d, r).
         one_way 0 me dec_msg1 [VBuf (dk_sid1 d), VBuf (com_msg (dk_com d))] (dk_sid1 d, com_msg (dk_com d))
           (dkg_2p_second P c p1_pid me x vr d r)))"

definition SEC_P_STAT :: int where "SEC_P_STAT = 64"

definition bn_from_bin :: "bytes \<Rightarrow> int" where "bn_from_bin bs = fold (\<lambda>b acc. 256 * acc + uint b) bs 0"

definition key_share_2p_refresh ::
  "('p, 'r) prims \<Rightarrow> string list \<Rightarrow> nat \<Rightarrow> 'p key_share_2p_t \<Rightarrow> 'r \<Rightarrow> ('p, 'p key_share_2p_t \<times> 'r) protocol" where
  "key_share_2p_refresh P names me key r =
     (let q = order (k2_curve key)
      in do_call (agree_random P names me (int (num_bits (nat q)) + SEC_P_STAT) r) (\<lambda>(rand_bits, r').
         let rr = bn_from_bin rand_bits mod q
         in do_res (if me = 0 then mod_add False q (k2_x_share key) rr
                    else if me = 1 then mod_sub False q (k2_x_share key) rr else Inr (k2_x_share key)) (\<lambda>x.
            Return (Inr (key\<lparr>k2_x_share := x\<rparr>, r')))))"

section \<open>Several parties\<close>

definition dec_dkg1 :: "'p val list \<Rightarrow> (bytes \<times> bytes \<times> bytes) option" where
  "dec_dkg1 m = (case m of [sid, c, h] \<Rightarrow>
     Option.bind (v_buf sid) (\<lambda>sid. Option.bind (v_buf c) (\<lambda>c. map_option (\<lambda>h. (sid, c, h)) (v_buf256 h))) | _ \<Rightarrow> None)"

definition dec_dkg2 :: "'p val list \<Rightarrow> (bytes \<times> bytes \<times> 'p \<times> bytes \<times> 'p uc_dl) option" where
  "dec_dkg2 m = (case m of [sid, h, Q, rho, pf] \<Rightarrow>
     Option.bind (v_buf sid) (\<lambda>sid. Option.bind (v_buf256 h) (\<lambda>h. Option.bind (v_point Q) (\<lambda>Q.
     Option.bind (v_buf256 rho) (\<lambda>rho. map_option (\<lambda>pf. (sid, h, Q, rho, pf)) (v_dl pf))))) | _ \<Rightarrow> None)"

lemma dec_dkgs [simp]:
  "length h = 32 \<Longrightarrow> dec_dkg1 [VBuf sid, VBuf c, VBuf h] = Some (sid, c, h)"
  "length h = 32 \<Longrightarrow> length rho = 32 \<Longrightarrow> dec_dkg2 [VBuf sid, VBuf h, VPoint Q, VBuf rho, VDl pf] = Some (sid, h, Q, rho, pf)"
  by (simp_all add: dec_dkg1_def dec_dkg2_def)

text \<open>\<^verbatim>\<open>SUM\<close> of a map: the names with their points, each name once.\<close>

definition sum_map :: "string list \<Rightarrow> (string \<rightharpoonup> 'p::ab_group_add) \<Rightarrow> 'p" where
  "sum_map names m = (\<Sum>nm\<leftarrow>remdups names. case m nm of None \<Rightarrow> 0 | Some P \<Rightarrow> P)"

definition assign_all :: "string list \<Rightarrow> 'p list \<Rightarrow> (string \<rightharpoonup> 'p)" where
  "assign_all names Ps = fold (\<lambda>(nm, P) m. m(nm \<mapsto> P)) (zip names Ps) Map.empty"

text \<open>The second half of \<^verbatim>\<open>key_share_mp_t::dkg\<close>, after the first and after the second broadcast.\<close>

definition mp_dkg_check ::
  "('p, 'r) prims \<Rightarrow> 'p::ab_group_add ecurve \<Rightarrow> string list \<Rightarrow> nat \<Rightarrow> (nat \<Rightarrow> 'r) \<Rightarrow> (bytes \<times> bytes \<times> bytes) list \<Rightarrow> bytes \<Rightarrow> bytes
     \<Rightarrow> (bytes \<times> bytes \<times> 'p \<times> bytes \<times> 'p uc_dl) list \<Rightarrow> nat \<Rightarrow> unit res" where
  "mp_dkg_check P c names me vr first sid h second j =
     (if j = me then success
      else case (first ! j, second ! j) of ((sid_j, c_j, _), (sid_msg, h_j, Q, rho, pf)) \<Rightarrow>
        if sid_msg \<noteq> sid then error E_CRYPTO
        else if h_j \<noteq> h then error E_CRYPTO
        else bind_res (com_open (pr_hmac P) [VPoint Q] (com_set rho c_j (com_new_sid sid_j (pr_pid P (names ! j))))) (\<lambda>_.
             bind_res (pr_check P Q) (\<lambda>_. dl_verify P c Q sid (word_of_nat j) pf (vr j))))"

definition mp_dkg_finish ::
  "('p, 'r) prims \<Rightarrow> 'p::ab_group_add ecurve \<Rightarrow> string list \<Rightarrow> nat \<Rightarrow> int \<Rightarrow> (nat \<Rightarrow> 'r) \<Rightarrow> (bytes \<times> bytes \<times> bytes) list \<Rightarrow> bytes \<Rightarrow> bytes \<Rightarrow> 'r
     \<Rightarrow> (bytes \<times> bytes \<times> 'p \<times> bytes \<times> 'p uc_dl) list \<Rightarrow> ('p, 'p key_share_mp_t \<times> bytes \<times> 'r) protocol" where
  "mp_dkg_finish P c names me x vr first sid h r second =
     do_res (fold_res (\<lambda>j _. mp_dkg_check P c names me vr first sid h second j) [0..<length names] ()) (\<lambda>_.
     let Qs = assign_all names (map (\<lambda>(_, _, Q, _, _). Q) second)
     in Return (Inr (\<lparr>x_share = x, key_Q = sum_map names Qs, Qis = Qs, key_curve = c, party_name = names ! me\<rparr>, sid, r)))"

definition mp_dkg_second ::
  "('p, 'r) prims \<Rightarrow> 'p::ab_group_add ecurve \<Rightarrow> string list \<Rightarrow> nat \<Rightarrow> int \<Rightarrow> (nat \<Rightarrow> 'r) \<Rightarrow> commitment_t \<Rightarrow> bytes \<Rightarrow> 'r
     \<Rightarrow> (bytes \<times> bytes \<times> bytes) list \<Rightarrow> ('p, 'p key_share_mp_t \<times> bytes \<times> 'r) protocol" where
  "mp_dkg_second P c names me x vr com h_consistency r first =
     (if list_ex (\<lambda>j. j \<noteq> me \<and> snd (snd (first ! j)) \<noteq> h_consistency) [0..<length names] then Return (error E_CRYPTO)
      else let sid = pr_sha P [VList (map (\<lambda>(sid_j, _, _). VBuf sid_j) first)];
               h = pr_sha P [VList (map (\<lambda>(_, c_j, _). VBuf c_j) first)];
               Qi = smul x (generator c)
      in do_search (dl_prove P c Qi x sid (word_of_nat me) r) (\<lambda>(pf, r).
         bcast dec_dkg2 (\<lambda>_. [VBuf sid, VBuf h, VPoint Qi, VBuf (com_rand com), VDl pf])
           (mp_dkg_finish P c names me x vr first sid h r)))"

definition key_share_mp_dkg ::
  "('p, 'r) prims \<Rightarrow> 'p::ab_group_add ecurve \<Rightarrow> string \<Rightarrow> string list \<Rightarrow> nat \<Rightarrow> (nat \<Rightarrow> 'r) \<Rightarrow> 'r \<Rightarrow> ('p, 'p key_share_mp_t \<times> bytes \<times> 'r) protocol" where
  "key_share_mp_dkg P c curve_name names me vr r =
     (let h_consistency = pr_sha P [VStr curve_name]
      in do_res (gen_random_bitlen P SEC_P_COM r) (\<lambda>(sid_i, r).
         let (x, r) = pr_gen P (order c) r
         in do_res (com_gen (pr_hmac P) (pr_bytes P) [VPoint (smul x (generator c))] (com_new_sid sid_i (pr_pid P (names ! me))) r) (\<lambda>(com, r).
            bcast dec_dkg1 (\<lambda>_. [VBuf sid_i, VBuf (com_msg com), VBuf h_consistency])
              (mp_dkg_second P c names me x vr com h_consistency r))))"

section \<open>Honest runs\<close>

text \<open>
  What the proofs of knowledge rely on: a modulus on which the reduction is exact, a generator of the order of the curve, a check that accepts
  every point but the one at infinity, random numbers that are not multiples of the order (with one, the others end with an error), and a search that can
  succeed in some attempt, whatever is proved.
\<close>

definition zk_ready :: "('p, 'r) prims \<Rightarrow> 'p::ab_group_add ecurve \<Rightarrow> bool" where
  "zk_ready P c \<longleftrightarrow> barrett_ok (order c) \<and> order c \<le> BIN_LIMIT \<and> good_gen (pr_gen P) \<and> smul (order c) (generator c) = 0
     \<and> accepts_finite (pr_check P) \<and> finite_gen (pr_gen P) c
     \<and> (\<forall>w sid aux r. \<exists>m. dl_lucky (pr_fischlin P) (pr_dl_oracle P) c w sid aux (nonces (pr_gen P) (order c) 32 m r))"

lemma zk_readyD:
  assumes "zk_ready P c"
  shows "barrett_ok (order c)" "0 < order c" "good_gen (pr_gen P)" "smul (order c) (generator c) = 0" "Q \<noteq> 0 \<Longrightarrow> pr_check P Q = success"
    "is_in_range (order c) (fst (pr_gen P (order c) r))" "smul (fst (pr_gen P (order c) r)) (generator c) \<noteq> 0"
proof -
  show *: "barrett_ok (order c)" "good_gen (pr_gen P)" "smul (order c) (generator c) = 0" "smul (fst (pr_gen P (order c) r)) (generator c) \<noteq> 0"
    using assms by (simp_all add: zk_ready_def finite_gen_def)
  show "Q \<noteq> 0 \<Longrightarrow> pr_check P Q = success" using assms by (simp add: zk_ready_def accepts_finite_def)
  show "0 < order c" using barrett_ok_valid(2) [OF *(1)] by simp
  then show "is_in_range (order c) (fst (pr_gen P (order c) r))" using *(2) by (simp add: good_gen_def)
qed

lemma dl_complete:
  assumes "zk_ready P c" "is_in_range (order c) w" "smul w (generator c) \<noteq> 0"
  shows "\<exists>pf r'. dl_prove P c (smul w (generator c)) w sid aux r = Some (Inr (pf, r'))
    \<and> (\<forall>r''. dl_verify P c (smul w (generator c)) sid aux pf r'' = success)"
proof -
  obtain m where m: "dl_lucky (pr_fischlin P) (pr_dl_oracle P) c w sid aux (nonces (pr_gen P) (order c) 32 m r)"
    using assms(1) unfolding zk_ready_def by blast
  have *: "\<exists>pf r'. dl_prove P c (smul w (generator c)) w sid aux r = Some (Inr (pf, r'))
      \<and> dl_verify P c (smul w (generator c)) sid aux pf r'' = success" for r''
    unfolding dl_prove_def dl_verify_def
    by (rule uc_dl_complete [OF _ _ _ assms(2) _ _ _ assms(3) m]) (use assms(1) in \<open>simp_all add: zk_ready_def\<close>)
  then obtain pf r' where "dl_prove P c (smul w (generator c)) w sid aux r = Some (Inr (pf, r'))" by blast
  with * show ?thesis by auto
qed

lemma assign_all_map_of: "assign_all names Ps = map_of (rev (zip names Ps))"
proof -
  have "fold (\<lambda>(nm, P) m. m(nm \<mapsto> P)) xs m = m ++ map_of (rev xs)" for xs :: "(string \<times> 'a) list" and m
    by (induction xs arbitrary: m) (auto simp: map_add_upd_left map_add_def fun_eq_iff split: option.splits)
  then show ?thesis by (simp add: assign_all_def)
qed

lemma assign_all_nth:
  assumes "distinct names" "length Ps = length names" "j < length names"
  shows "assign_all names Ps (names ! j) = Some (Ps ! j)"
proof -
  have "distinct (map fst (rev (zip names Ps)))" using assms by (simp flip: rev_map)
  moreover have "(names ! j, Ps ! j) \<in> set (rev (zip names Ps))" using assms by (auto simp: in_set_zip)
  ultimately show ?thesis by (simp add: assign_all_map_of del: set_rev)
qed

lemma assign_all_dom: "length Ps = length names \<Longrightarrow> dom (assign_all names Ps) = set names"
  by (simp add: assign_all_map_of dom_map_of_conv_image_fst del: set_map flip: set_map)

lemma sum_map_assign:
  assumes "distinct names" "length Ps = length names"
  shows "sum_map names (assign_all names Ps) = (\<Sum>P\<leftarrow>Ps. P)"
proof -
  have "map (\<lambda>nm. case assign_all names Ps nm of None \<Rightarrow> 0 | Some P \<Rightarrow> P) names = Ps"
    by (rule nth_equalityI) (simp_all add: assms assign_all_nth)
  then show ?thesis using assms by (simp add: sum_map_def distinct_remdups_id)
qed

text \<open>
  The key of several parties: the public key is the sum of the public shares, each party holds its share, and all have the same
  session identifier.
\<close>

lemma mp_dkg_run:
  fixes c :: "'p::ab_group_add ecurve" and P :: "('p, 'r) prims"
  assumes P: "good_prims P" and zk: "zk_ready P c" and names: "distinct names"
  shows "\<exists>x sid. (\<forall>j < length names. is_in_range (order c) (x j))
    \<and> (\<forall>i < length names. \<exists>r'. run_rounds (length names) 2 (\<lambda>i. key_share_mp_dkg P c cn names i (vr i) (r i)) i
      = Return (Inr (\<lparr>x_share = x i, key_Q = smul (\<Sum>j < length names. x j) (generator c),
          Qis = assign_all names (map (\<lambda>j. smul (x j) (generator c)) [0..<length names]), key_curve = c, party_name = names ! i\<rparr>, sid, r')))"
proof -
  let ?n = "length names" and ?q = "order c" and ?G = "generator c" and ?hm = "pr_hmac P"
  let ?ps = "\<lambda>i. key_share_mp_dkg P c cn names i (vr i) (r i)" and ?hc = "pr_sha P [VStr cn]"
  define s where "s = (\<lambda>j. fst (pr_bytes P 16 (r j)))"
  define x where "x = (\<lambda>j. fst (pr_gen P ?q (snd (pr_bytes P 16 (r j)))))"
  define r1 where "r1 = (\<lambda>j. snd (pr_gen P ?q (snd (pr_bytes P 16 (r j)))))"
  let ?c0 = "\<lambda>j. com_new_sid (s j) (pr_pid P (names ! j))" and ?Q = "\<lambda>j. smul (x j) ?G"
  have x: "is_in_range ?q (x j)" "?Q j \<noteq> 0" for j using zk_readyD(6,7) [OF zk] by (simp_all add: x_def)
  have s: "length (s j) = 16" for j using good_primsD(6) [OF P] by (simp add: s_def)
  have "\<exists>com1 r2. com_gen ?hm (pr_bytes P) [VPoint (?Q j)] (?c0 j) (r1 j) = Inr (com1, r2) \<and> length (com_rand com1) = 32
      \<and> com_open ?hm [VPoint (?Q j)] (com_set (com_rand com1) (com_msg com1) (?c0 j)) = success" for j
    using good_primsD [OF P] s [of j] by (intro com_opens) (auto simp: com_new_sid_def same_ids_def)
  then obtain com r2 where com: "\<And>j. com_gen ?hm (pr_bytes P) [VPoint (?Q j)] (?c0 j) (r1 j) = Inr (com j, r2 j)"
    "\<And>j. length (com_rand (com j)) = 32"
    "\<And>j. com_open ?hm [VPoint (?Q j)] (com_set (com_rand (com j)) (com_msg (com j)) (?c0 j)) = success"
    by metis
  let ?first = "map (\<lambda>j. (s j, com_msg (com j), ?hc)) [0..<?n]"
  define sid where "sid = pr_sha P [VList (map (\<lambda>(sid_j, _, _). VBuf sid_j) ?first)]"
  define h where "h = pr_sha P [VList (map (\<lambda>(_, c_j, _). VBuf c_j) ?first)]"
  have "\<exists>pf r'. dl_prove P c (?Q j) (x j) sid (word_of_nat j) (r2 j) = Some (Inr (pf, r'))
      \<and> (\<forall>r''. dl_verify P c (?Q j) sid (word_of_nat j) pf r'' = success)" for j
    by (rule dl_complete [OF zk x])
  then obtain pf r3 where pf: "\<And>j. dl_prove P c (?Q j) (x j) sid (word_of_nat j) (r2 j) = Some (Inr (pf j, r3 j))"
    "\<And>j r''. dl_verify P c (?Q j) sid (word_of_nat j) (pf j) r'' = success"
    by metis
  have one: "run_rounds ?n (Suc 0) ?ps i = mp_dkg_second P c names i (x i) (vr i) (com i) ?hc (r2 i) ?first" if "i < ?n" for i
    by (rule run_bcast [where dec = dec_dkg1 and m = "\<lambda>i _. [VBuf (s i), VBuf (com_msg (com i)), VBuf ?hc]", OF _ that])
       (use com(1) good_primsD(3) [OF P] in \<open>simp_all add: key_share_mp_dkg_def split_beta Let_def s_def x_def r1_def\<close>)
  have one': "run_rounds ?n (Suc 0) ?ps i
      = bcast dec_dkg2 (\<lambda>_. [VBuf sid, VBuf h, VPoint (?Q i), VBuf (com_rand (com i)), VDl (pf i)])
          (mp_dkg_finish P c names i (x i) (vr i) ?first sid h (r3 i))" if "i < ?n" for i
    unfolding one [OF that] mp_dkg_second_def Let_def sid_def [symmetric] h_def [symmetric] pf(1)
    by (simp add: list_ex_iff)
  let ?second = "map (\<lambda>j. (sid, h, ?Q j, com_rand (com j), pf j)) [0..<?n]"
  have two: "run_rounds ?n (Suc (Suc 0)) ?ps i = mp_dkg_finish P c names i (x i) (vr i) ?first sid h (r3 i) ?second" if "i < ?n" for i
    by (rule run_bcast [OF one' that]) (use com(2) good_primsD(3) [OF P] in \<open>simp_all add: h_def\<close>)
  have "fold_res (\<lambda>j _. mp_dkg_check P c names i (vr i) ?first sid h ?second j) [0..<?n] () = success" for i
    by (rule fold_res_unit) (use com(3) pf(2) zk_readyD(5) [OF zk x(2)] in \<open>simp add: mp_dkg_check_def\<close>)
  moreover have "sum_map names (assign_all names (map ?Q [0..<?n])) = smul (\<Sum>j < ?n. x j) ?G"
    using sum_map_assign [OF names, of "map ?Q [0..<?n]"]
    by (simp add: smul_sum sum_list_sum_nth atLeast0LessThan)
  ultimately have "run_rounds ?n 2 ?ps i = Return (Inr (\<lparr>x_share = x i, key_Q = smul (\<Sum>j < ?n. x j) ?G,
      Qis = assign_all names (map ?Q [0..<?n]), key_curve = c, party_name = names ! i\<rparr>, sid, r3 i))" if "i < ?n" for i
    using two [OF that] by (simp add: mp_dkg_finish_def numeral_2_eq_2 o_def del: run_rounds.simps)
  with x(1) show ?thesis by blast
qed

text \<open>
  Whatever the others send, a party that ends with a key has a share that fits the public data it ends with, and every other public share has been checked:
  \<open>share_vouched\<close> says that the messages \<open>m1\<close>, \<open>m2\<close> of party \<open>j\<close> commit to the point \<open>Q\<close> in the first round and open it in the second, that the
  sender names the same session and confirms the commitments \<open>cs\<close> of all parties, and that the proof of knowledge for \<open>Q\<close> verifies.
\<close>

definition share_vouched ::
  "('p, 'r) prims \<Rightarrow> 'p::ab_group_add ecurve \<Rightarrow> string \<Rightarrow> string list \<Rightarrow> (nat \<Rightarrow> 'r) \<Rightarrow> bytes list \<Rightarrow> bytes list \<Rightarrow> bytes
     \<Rightarrow> 'p val list \<Rightarrow> 'p val list \<Rightarrow> nat \<Rightarrow> 'p \<Rightarrow> bool" where
  "share_vouched P c cn names vr sids cs sid m1 m2 j Q \<longleftrightarrow> (\<exists>rho pf.
     dec_dkg1 m1 = Some (sids ! j, cs ! j, pr_sha P [VStr cn])
     \<and> dec_dkg2 m2 = Some (sid, pr_sha P [VList (map VBuf cs)], Q, rho, pf)
     \<and> com_open (pr_hmac P) [VPoint Q] (com_set rho (cs ! j) (com_new_sid (sids ! j) (pr_pid P (names ! j)))) = success
     \<and> pr_check P Q = success \<and> dl_verify P c Q sid (word_of_nat j) pf (vr j) = success)"

lemma fold_res_all: "fold_res (\<lambda>R _. f R) Rs () = success \<Longrightarrow> R \<in> set Rs \<Longrightarrow> f R = success"
  by (induction Rs) (auto simp: bind_res_eq_Inr)

lemma mp_dkg_check_vouched:
  assumes "mp_dkg_check P c names i vr first sid h second j = success" "j \<noteq> i" "snd (snd (first ! j)) = pr_sha P [VStr cn]"
    "dec_dkg1 m1 = Some (first ! j)" "dec_dkg2 m2 = Some (second ! j)" "j < length first"
    "h = pr_sha P [VList (map VBuf (map (fst \<circ> snd) first))]"
  shows "share_vouched P c cn names vr (map fst first) (map (fst \<circ> snd) first) sid m1 m2 j (fst (snd (snd (second ! j))))"
  using assms by (auto simp: mp_dkg_check_def share_vouched_def res_simps split: prod.splits if_splits)

lemma mp_dkg_success:
  fixes c :: "'p::ab_group_add ecurve"
  assumes run: "against i envs (key_share_mp_dkg P c cn names i vr r) = Some (Inr (key, sid, r'))"
    and n: "list_all (\<lambda>e. length e = length names) envs" "i < length names" "distinct names"
  shows "Qis key (names ! i) = Some (smul (x_share key) (generator c)) \<and> dom (Qis key) = set names
    \<and> key_Q key = (\<Sum>nm\<leftarrow>names. the (Qis key nm))
    \<and> (\<exists>e1 e2 rest sids cs. envs = e1 # e2 # rest \<and> sid = pr_sha P [VList (map VBuf sids)]
       \<and> (\<forall>j < length names. j \<noteq> i \<longrightarrow> (\<exists>Q. Qis key (names ! j) = Some Q \<and> share_vouched P c cn names vr sids cs sid (e1 ! j) (e2 ! j) j Q)))"
proof -
  let ?G = "generator c" and ?hc = "pr_sha P [VStr cn]"
  obtain sid_i x com r1 where 1: "against i envs (bcast dec_dkg1 (\<lambda>_. [VBuf sid_i, VBuf (com_msg com), VBuf ?hc])
      (mp_dkg_second P c names i x vr com ?hc r1)) = Some (Inr (key, sid, r'))"
    using run by (auto simp: key_share_mp_dkg_def against_do_res Let_def split_beta)
  obtain e1 envs1 first where 2: "envs = e1 # envs1" "those (map dec_dkg1 (e1[i := [VBuf sid_i, VBuf (com_msg com), VBuf ?hc]])) = Some first"
    "against i envs1 (mp_dkg_second P c names i x vr com ?hc r1 first) = Some (Inr (key, sid, r'))"
    using reaches_bcast [OF 1] by blast
  let ?sid = "pr_sha P [VList (map (\<lambda>(sid_j, _, _). VBuf sid_j) first)]" and ?h = "pr_sha P [VList (map (\<lambda>(_, c_j, _). VBuf c_j) first)]"
  obtain rd pf r2 where 3: "against i envs1 (bcast dec_dkg2 (\<lambda>_. [VBuf ?sid, VBuf ?h, VPoint (smul x ?G), VBuf rd, VDl pf])
      (mp_dkg_finish P c names i x vr first ?sid ?h r2)) = Some (Inr (key, sid, r'))"
    using 2(3) by (auto simp: mp_dkg_second_def against_do_search against_Return Let_def split: if_splits)
  have hc: "snd (snd (first ! j)) = ?hc" if "j < length names" "j \<noteq> i" for j
    using 2(3) that by (auto simp: mp_dkg_second_def against_Return list_ex_iff split: if_splits)
  obtain e2 rest second where 4: "envs1 = e2 # rest"
    "those (map dec_dkg2 (e2[i := [VBuf ?sid, VBuf ?h, VPoint (smul x ?G), VBuf rd, VDl pf]])) = Some second"
    "against i rest (mp_dkg_finish P c names i x vr first ?sid ?h r2 second) = Some (Inr (key, sid, r'))"
    using reaches_bcast [OF 3] by blast
  have len: "length e1 = length names" "length e2 = length names" using n(1) 2(1) 4(1) by simp_all
  note dec = those_map_Some [OF 2(2)] those_map_Some [OF 4(2)]
  have lens: "length first = length names" "length second = length names" using dec len by auto
  have own: "second ! i = (?sid, ?h, smul x ?G, rd, pf)"
  proof -
    have "dec_dkg2 (e2[i := [VBuf ?sid, VBuf ?h, VPoint (smul x ?G), VBuf rd, VDl pf]] ! i) = Some (second ! i)" using dec n(2) len by auto
    then show ?thesis using n(2) len by (auto simp: dec_dkg2_def v_buf256_def split: if_splits)
  qed
  let ?Ps = "map (\<lambda>(_, _, Q, _, _). Q) second"
  have key: "Qis key = assign_all names ?Ps" "x_share key = x" "key_Q key = sum_map names (assign_all names ?Ps)" "sid = ?sid"
    and checks: "fold_res (\<lambda>j _. mp_dkg_check P c names i vr first ?sid ?h second j) [0..<length names] () = success"
    using 4(3) by (auto simp: mp_dkg_finish_def against_do_res against_Return Let_def)
  have at: "assign_all names ?Ps (names ! j) = Some (?Ps ! j)" if "j < length names" for j
    using assign_all_nth [OF n(3) _ that, of ?Ps] lens by simp
  have dom: "dom (assign_all names ?Ps) = set names" by (rule assign_all_dom) (simp add: lens)
  have sum: "sum_map names (assign_all names ?Ps) = (\<Sum>nm\<leftarrow>names. the (assign_all names ?Ps nm))"
    unfolding sum_map_def distinct_remdups_id [OF n(3)]
    by (rule arg_cong [where f = sum_list], rule map_cong) (use dom in \<open>auto split: option.splits\<close>)
  let ?sids = "map fst first" and ?cs = "map (fst \<circ> snd) first"
  have hashes: "?h = pr_sha P [VList (map VBuf ?cs)]" "?sid = pr_sha P [VList (map VBuf ?sids)]" by (simp_all add: o_def case_prod_unfold)
  have "share_vouched P c cn names vr ?sids ?cs ?sid (e1 ! j) (e2 ! j) j (?Ps ! j)" if j: "j < length names" "j \<noteq> i" for j
  proof -
    have "mp_dkg_check P c names i vr first ?sid ?h second j = success" using fold_res_all [OF checks, of j] j(1) by simp
    moreover have "dec_dkg1 (e1 ! j) = Some (first ! j)" "dec_dkg2 (e2 ! j) = Some (second ! j)" using dec j len by auto
    ultimately show ?thesis
      using mp_dkg_check_vouched [OF _ j(2) _ _ _ _ hashes(1)] hc j lens by (simp add: split_beta)
  qed
  then have "\<exists>e1 e2 rest sids cs. envs = e1 # e2 # rest \<and> sid = pr_sha P [VList (map VBuf sids)]
       \<and> (\<forall>j < length names. j \<noteq> i \<longrightarrow> (\<exists>Q. Qis key (names ! j) = Some Q \<and> share_vouched P c cn names vr sids cs sid (e1 ! j) (e2 ! j) j Q))"
    using 2(1) 4(1) at hashes(2) unfolding key by blast
  moreover have "assign_all names ?Ps (names ! i) = Some (smul x ?G)" using at [OF n(2)] own n(2) lens by simp
  ultimately show ?thesis using dom sum unfolding key by blast
qed

text \<open>The key of two parties: the public key belongs to the sum of the shares.\<close>

lemma dkg_2p_run:
  fixes c :: "'p::ab_group_add ecurve" and P :: "('p, 'r) prims"
  assumes P: "good_prims P" and zk: "zk_ready P c"
  shows "\<exists>x1 x2 sid. is_in_range (order c) x1 \<and> is_in_range (order c) x2
    \<and> (\<forall>i < 2. \<exists>r'. run_rounds 2 3 (\<lambda>i. key_share_2p_dkg P c names i (vr i) (r i)) i
      = Return (Inr (\<lparr>k2_role = i, k2_curve = c, k2_Q = smul (x1 + x2) (generator c), k2_x_share = (if i = 0 then x1 else x2)\<rparr>, sid, r')))"
proof -
  let ?q = "order c" and ?G = "generator c" and ?hm = "pr_hmac P" and ?pid = "pr_pid P (names ! 0)"
  let ?ps = "\<lambda>i. key_share_2p_dkg P c names i (vr i) (r i)"
  define x where "x = (\<lambda>i. fst (pr_gen P ?q (r i)))"
  define r1 where "r1 = (\<lambda>i. snd (pr_gen P ?q (r i)))"
  have gen: "pr_gen P ?q (r i) = (x i, r1 i)" for i by (simp add: x_def r1_def)
  have xr: "is_in_range ?q (x i)" "smul (x i) ?G \<noteq> 0" for i using zk_readyD(6,7) [OF zk] by (simp_all add: x_def)
  obtain sid1 ra where sid1: "pr_bytes P 16 (r1 0) = (sid1, ra)" by fastforce
  obtain sid2 rb where sid2: "pr_bytes P 16 (r1 1) = (sid2, rb)" by fastforce
  have "length sid1 = 16" using good_primsD(6) [OF P, of 16 "r1 0"] sid1 by simp
  then obtain com rc where com: "com_gen ?hm (pr_bytes P) [VPoint (smul (x 0) ?G)] (com_id sid1 ?pid com_none) ra = Inr (com, rc)"
    "length (com_rand com) = 32"
    "com_open ?hm [VPoint (smul (x 0) ?G)] (com_set (com_rand com) (com_msg com) (com_id sid1 ?pid com_none)) = success"
    using com_opens [of ?hm "pr_bytes P" "com_id sid1 ?pid com_none" "com_id sid1 ?pid com_none" "[VPoint (smul (x 0) ?G)]" ra]
      good_primsD [OF P] by (auto simp: com_id_def same_ids_def)
  let ?sid = "pr_sha P [VBuf sid1, VBuf sid2]"
  obtain pf2 rd where pf2: "dl_prove P c (smul (x 1) ?G) (x 1) ?sid 2 rb = Some (Inr (pf2, rd))"
    "\<And>r''. dl_verify P c (smul (x 1) ?G) ?sid 2 pf2 r'' = success"
    using dl_complete [OF zk xr, of 1 ?sid 2 rb] by blast
  obtain pf1 re where pf1: "dl_prove P c (smul (x 0) ?G) (x 0) ?sid 1 rc = Some (Inr (pf1, re))"
    "\<And>r''. dl_verify P c (smul (x 0) ?G) ?sid 1 pf1 r'' = success"
    using dl_complete [OF zk xr, of 0 ?sid 1 rc] by blast
  define d0 where "d0 = (\<lambda>i :: nat. if i = 0 then dkg_2p_new\<lparr>dk_x1 := x 0, dk_sid1 := sid1, dk_Q1 := smul (x 0) ?G, dk_com := com\<rparr> else dkg_2p_new)"
  define s0 where "s0 = (\<lambda>i. if i = 0 then rc else r1 i)"
  have zero: "?ps i = one_way 0 i dec_msg1 [VBuf (dk_sid1 (d0 i)), VBuf (com_msg (dk_com (d0 i)))] (dk_sid1 (d0 i), com_msg (dk_com (d0 i)))
      (dkg_2p_second P c ?pid i (x i) (vr i) (d0 i) (s0 i))" if "i < 2" for i
    using sid1 com(1) by (simp add: key_share_2p_dkg_def gen step1_p1_to_p2_def dkg_2p_new_def d0_def s0_def Let_def)
  have one: "run_rounds 2 (Suc 0) ?ps i = dkg_2p_second P c ?pid i (x i) (vr i) (d0 i) (s0 i) (sid1, com_msg com)" if "i < 2" for i
    by (rule run_one_way [where m = "\<lambda>i. [VBuf (dk_sid1 (d0 i)), VBuf (com_msg (dk_com (d0 i)))]"
          and old = "\<lambda>i. (dk_sid1 (d0 i), com_msg (dk_com (d0 i)))" and dec = dec_msg1 and ?from = 0, OF _ _ that])
       (simp_all add: zero, simp_all add: d0_def)
  define d1 where "d1 = (\<lambda>i :: nat. if i = 0 then d0 0 else dkg_2p_new\<lparr>dk_sid1 := sid1, dk_com := com_none\<lparr>com_msg := com_msg com\<rparr>,
      dk_x2 := x 1, dk_sid2 := sid2, dk_sid := ?sid, dk_Q2 := smul (x 1) ?G, dk_pi2 := pf2\<rparr>)"
  define s1 where "s1 = (\<lambda>i :: nat. if i = 0 then rc else rd)"
  have one': "run_rounds 2 (Suc 0) ?ps i = one_way 1 i dec_msg2 [VBuf (dk_sid2 (d1 i)), VDl (dk_pi2 (d1 i)), VPoint (dk_Q2 (d1 i))]
      (dk_sid2 (d1 i), dk_pi2 (d1 i), dk_Q2 (d1 i)) (dkg_2p_third P c ?pid i (x i) (vr i) (d1 i) (s1 i))" if "i < 2" for i
    using one [OF that] less_2_cases [OF that] sid2 pf2(1)
    by (elim disjE) (simp_all add: dkg_2p_second_def step2_p2_to_p1_def d0_def d1_def s0_def s1_def lift_res_def dkg_2p_new_def del: run_rounds.simps)
  have two: "run_rounds 2 (Suc (Suc 0)) ?ps i = dkg_2p_third P c ?pid i (x i) (vr i) (d1 i) (s1 i) (sid2, pf2, smul (x 1) ?G)" if "i < 2" for i
    by (rule run_one_way [where m = "\<lambda>i. [VBuf (dk_sid2 (d1 i)), VDl (dk_pi2 (d1 i)), VPoint (dk_Q2 (d1 i))]"
          and old = "\<lambda>i. (dk_sid2 (d1 i), dk_pi2 (d1 i), dk_Q2 (d1 i))" and dec = dec_msg2 and ?from = 1, OF one' _ that])
       (simp_all add: d1_def)
  define d2 where "d2 = (\<lambda>i :: nat. if i = 0 then (d0 0)\<lparr>dk_sid2 := sid2, dk_pi2 := pf2, dk_Q2 := smul (x 1) ?G, dk_sid := ?sid, dk_pi1 := pf1\<rparr> else d1 1)"
  define Q where "Q = (\<lambda>i :: nat. if i = 0 then smul (x 0) ?G + smul (x 1) ?G else 0)"
  define s2 where "s2 = (\<lambda>i :: nat. if i = 0 then re else rd)"
  have two': "run_rounds 2 (Suc (Suc 0)) ?ps i = one_way 0 i dec_msg3 [VBuf (com_rand (dk_com (d2 i))), VDl (dk_pi1 (d2 i)), VPoint (dk_Q1 (d2 i))]
      (com_rand (dk_com (d2 i)), dk_pi1 (d2 i), dk_Q1 (d2 i)) (dkg_2p_finish P c ?pid i (x i) (vr i) (Q i) (d2 i) (s2 i))" if "i < 2" for i
    using two [OF that] less_2_cases [OF that] pf1(1) pf2(2) zk_readyD(5) [OF zk xr(2)]
    by (elim disjE) (simp_all add: dkg_2p_third_def step3_p1_to_p2_def d0_def d1_def d2_def s1_def s2_def Q_def lift_res_def dkg_2p_new_def
        del: run_rounds.simps)
  have three: "run_rounds 2 (Suc (Suc (Suc 0))) ?ps i = dkg_2p_finish P c ?pid i (x i) (vr i) (Q i) (d2 i) (s2 i) (com_rand com, pf1, smul (x 0) ?G)"
    if "i < 2" for i
    by (rule run_one_way [where m = "\<lambda>i. [VBuf (com_rand (dk_com (d2 i))), VDl (dk_pi1 (d2 i)), VPoint (dk_Q1 (d2 i))]"
          and old = "\<lambda>i. (com_rand (dk_com (d2 i)), dk_pi1 (d2 i), dk_Q1 (d2 i))" and dec = dec_msg3 and ?from = 0, OF two' _ that])
       (simp_all add: d2_def d0_def com(2))
  have "run_rounds 2 (Suc (Suc (Suc 0))) ?ps i
      = Return (Inr (\<lparr>k2_role = i, k2_curve = c, k2_Q = smul (x 0 + x 1) ?G, k2_x_share = (if i = 0 then x 0 else x 1)\<rparr>, ?sid, s2 i))"
    if "i < 2" for i
    using three [OF that] less_2_cases [OF that] com(3) pf1(2) zk_readyD(5) [OF zk xr(2)]
    by (elim disjE) (simp_all add: dkg_2p_finish_def step4_output_p2_def d0_def d1_def d2_def Q_def smul_add com_set_def com_id_def com_none_def dkg_2p_new_def
        del: run_rounds.simps)
  with xr(1) show ?thesis unfolding numeral_3_eq_3 by blast
qed

text \<open>The refresh of two parties moves the agreed number from one share to the other.\<close>

lemma refresh_2p_run:
  fixes key :: "nat \<Rightarrow> 'p key_share_2p_t"
  assumes P: "good_prims P" and q: "barrett_ok q" and key: "\<And>i. i < 2 \<Longrightarrow> is_in_range q (k2_x_share (key i)) \<and> order (k2_curve (key i)) = q"
  shows "\<exists>x'. (x' 0 + x' 1) mod q = (k2_x_share (key 0) + k2_x_share (key 1)) mod q
    \<and> (\<forall>i < 2. is_in_range q (x' i)
      \<and> (\<exists>r'. run_rounds 2 3 (\<lambda>i. key_share_2p_refresh P names i (key i) (r i)) i = Return (Inr ((key i)\<lparr>k2_x_share := x' i\<rparr>, r'))))"
proof -
  let ?b = "int (num_bits (nat q)) + SEC_P_STAT"
  let ?qs = "\<lambda>i. agree_random P names i ?b (r i)"
  let ?f = "\<lambda>i (rand_bits, r'). let rr = bn_from_bin rand_bits mod q
         in do_res (if i = 0 then mod_add False q (k2_x_share (key i)) rr
                    else if i = 1 then mod_sub False q (k2_x_share (key i)) rr else Inr (k2_x_share (key i))) (\<lambda>x.
            Return (Inr ((key i)\<lparr>k2_x_share := x\<rparr>, r')))"
  let ?len = "bits_to_bytes (nat ?b)"
  have b: "0 < ?b" by (simp add: SEC_P_STAT_def)
  have q0: "0 < q" using barrett_ok_valid(2) [OF q] by simp
  define z where "z = xor_bytes (fst (pr_bytes P ?len (r 0))) (fst (pr_bytes P ?len (r 1)))"
  define rr where "rr = bn_from_bin z mod q"
  have rr: "is_in_range q rr" using q0 by (simp add: rr_def is_in_range_def)
  define x' where "x' = (\<lambda>i :: nat. if i = 0 then (k2_x_share (key 0) + rr) mod q else (k2_x_share (key 1) - rr) mod q)"
  have run: "\<exists>r'. run_rounds 2 3 (\<lambda>i. key_share_2p_refresh P names i (key i) (r i)) i = Return (Inr ((key i)\<lparr>k2_x_share := x' i\<rparr>, r'))"
    if i: "i < 2" for i
  proof -
    have "run_rounds 2 3 (\<lambda>i. key_share_2p_refresh P names i (key i) (r i)) i = do_call (run_rounds 2 3 ?qs i) (?f i)"
      by (rule run_call [OF _ i]) (use key in \<open>simp add: key_share_2p_refresh_def\<close>, rule agree_random_run(2) [OF P b i], simp_all)
    moreover obtain r' where "run_rounds 2 3 ?qs i = Return (Inr (z, r'))"
      using agree_random_run(1) [OF P b i] unfolding z_def by blast
    ultimately show ?thesis
      using less_2_cases [OF i] key [OF i] rr by (elim disjE) (simp_all add: rr_def [symmetric] x'_def mod_simps)
  qed
  moreover have "(x' 0 + x' 1) mod q = (k2_x_share (key 0) + k2_x_share (key 1)) mod q"
    by (simp add: x'_def mod_add_eq)
  moreover have "is_in_range q (x' i)" for i using q0 by (simp add: x'_def is_in_range_def)
  ultimately show ?thesis by blast
qed

end
