(* ===== verification/Dkg_Refresh.thy ===== *)
theory Dkg_Refresh
  imports Dkg
begin

text \<open>
  Refresh of the key of several parties: \<^verbatim>\<open>key_share_mp_t::refresh\<close> of \<^verbatim>\<open>protocol/ec_dkg.cpp\<close>. Every pair of parties adds a common random
  number to the share of one and subtracts it from the share of the other; all public shares are updated from the broadcast points.
\<close>

section \<open>The protocol\<close>

text \<open>The random numbers, their points and their proofs, one for each party.\<close>

fun refresh_draw ::
  "('p, 'r) prims \<Rightarrow> 'p::ab_group_add ecurve \<Rightarrow> bytes \<Rightarrow> nat \<Rightarrow> nat \<Rightarrow> nat list \<Rightarrow> 'r \<Rightarrow> ((int \<times> 'p \<times> 'p uc_dl) list \<times> 'r) res option" where
  "refresh_draw P c sid n me [] r = Some (Inr ([], r))"
| "refresh_draw P c sid n me (j # js) r =
     (let (x, r) = pr_gen P (order c) r; R = smul x (generator c)
      in case dl_prove P c R x sid (word_of_nat (me * n + j)) r of None \<Rightarrow> None
         | Some rv \<Rightarrow> lift_res rv (\<lambda>(pf, r).
             case refresh_draw P c sid n me js r of None \<Rightarrow> None
             | Some rv \<Rightarrow> lift_res rv (\<lambda>(rest, r). Some (Inr ((x, R, pf) # rest, r)))))"

definition dec_ref1 :: "'p val list \<Rightarrow> (bytes \<times> bytes) option" where
  "dec_ref1 m = (case m of [c, h] \<Rightarrow> Option.bind (v_buf256 c) (\<lambda>c. map_option (Pair c) (v_buf256 h)) | _ \<Rightarrow> None)"

definition dec_ref2 :: "'p val list \<Rightarrow> (int \<times> bytes \<times> 'p list \<times> 'p uc_dl list \<times> bytes) option" where
  "dec_ref2 m = (case m of [x, h, R, pf, rho] \<Rightarrow>
     Option.bind (v_int x) (\<lambda>x. Option.bind (v_buf256 h) (\<lambda>h. Option.bind (v_list v_point R) (\<lambda>R.
     Option.bind (v_list v_dl pf) (\<lambda>pf. map_option (\<lambda>rho. (x, h, R, pf, rho)) (v_buf256 rho))))) | _ \<Rightarrow> None)"

lemma those_map_id: "(\<And>x. f (g x) = Some x) \<Longrightarrow> those (map f (map g xs)) = Some xs"
  by (induction xs) simp_all

lemma dec_refs [simp]:
  "length c = 32 \<Longrightarrow> length h = 32 \<Longrightarrow> dec_ref1 [VBuf c, VBuf h] = Some (c, h)"
  "length h = 32 \<Longrightarrow> length rho = 32 \<Longrightarrow>
     dec_ref2 [VInt x, VBuf h, VList (map VPoint R), VList (map VDl pf), VBuf rho] = Some (x, h, R, pf, rho)"
  by (simp_all add: dec_ref1_def dec_ref2_def those_map_id del: map_map)

text \<open>The checks of one peer \<open>j\<close>: its hash, sizes, opening, points, proofs, and the number it sent.\<close>

definition refresh_check ::
  "('p, 'r) prims \<Rightarrow> 'p::ab_group_add ecurve \<Rightarrow> string list \<Rightarrow> nat \<Rightarrow> (nat \<Rightarrow> nat \<Rightarrow> 'r) \<Rightarrow> bytes \<Rightarrow> commitment_t \<Rightarrow> bytes list \<Rightarrow> bytes
     \<Rightarrow> (int \<times> bytes \<times> 'p list \<times> 'p uc_dl list \<times> bytes) list \<Rightarrow> nat \<Rightarrow> unit res" where
  "refresh_check P c names me vr sid com_R cs h second j =
     (if j = me then success
      else case second ! j of (r_ji, h_j, R_j, pf_j, rho_j) \<Rightarrow>
        let n = length names
        in if h_j \<noteq> h then error E_CRYPTO
           else if length R_j \<noteq> n then error E_CRYPTO
           else if length pf_j \<noteq> n then error E_CRYPTO
           else bind_res (com_open (pr_hmac P) [VList (map VPoint R_j), VList (map VDl pf_j)]
                  (com_set rho_j (cs ! j) (com_id sid (pr_pid P (names ! j)) com_R))) (\<lambda>_.
                bind_res (fold_res (\<lambda>l _. bind_res (pr_check P (R_j ! l)) (\<lambda>_.
                    if l = j then success else dl_verify P c (R_j ! l) sid (word_of_nat (j * n + l)) (pf_j ! l) (vr j l))) [0..<n] ()) (\<lambda>_.
                if smul r_ji (generator c) \<noteq> R_j ! me then error E_CRYPTO else success)))"

text \<open>The new share: \<open>rs\<close> are the numbers sent, \<open>received\<close> those received.\<close>

definition refresh_share :: "int \<Rightarrow> nat \<Rightarrow> nat \<Rightarrow> int list \<Rightarrow> int list \<Rightarrow> int \<Rightarrow> int res" where
  "refresh_share q n me rs received x =
     fold_res (\<lambda>j x. if j = me then Inr x
       else bind_res (mod_add False q (rs ! j) (received ! j)) (\<lambda>delta_x.
            if j < me then mod_add False q x delta_x else mod_sub False q x delta_x)) [0..<n] x"

text \<open>The new public shares, from the points \<open>R ! j ! l\<close> that party \<open>j\<close> broadcast for \<open>l\<close>.\<close>

definition refresh_point :: "nat \<Rightarrow> 'p::ab_group_add list list \<Rightarrow> nat \<Rightarrow> 'p \<Rightarrow> 'p" where
  "refresh_point n R j Q =
     fold (\<lambda>l Q. if l = j then Q else let R_delta = R ! j ! l + R ! l ! j in if l < j then Q + R_delta else Q - R_delta) [0..<n] Q"

definition refresh_points :: "string list \<Rightarrow> 'p::ab_group_add list list \<Rightarrow> (string \<rightharpoonup> 'p) \<Rightarrow> (string \<rightharpoonup> 'p)" where
  "refresh_points names R Qs =
     fold (\<lambda>j Qs. Qs(names ! j \<mapsto> refresh_point (length names) R j (case Qs (names ! j) of None \<Rightarrow> 0 | Some Q \<Rightarrow> Q))) [0..<length names] Qs"

definition refresh_finish ::
  "('p, 'r) prims \<Rightarrow> string list \<Rightarrow> nat \<Rightarrow> (nat \<Rightarrow> nat \<Rightarrow> 'r) \<Rightarrow> bytes \<Rightarrow> string list \<Rightarrow> 'p::ab_group_add key_share_mp_t \<Rightarrow> int list \<Rightarrow> commitment_t
     \<Rightarrow> bytes list \<Rightarrow> bytes \<Rightarrow> 'r \<Rightarrow> (int \<times> bytes \<times> 'p list \<times> 'p uc_dl list \<times> bytes) list
     \<Rightarrow> ('p, 'p key_share_mp_t \<times> bytes \<times> 'r) protocol" where
  "refresh_finish P names me vr sid keys key rs com_R cs h r second =
     (let n = length names; c = key_curve key
      in do_res (fold_res (\<lambda>j _. refresh_check P c names me vr sid com_R cs h second j) [0..<n] ()) (\<lambda>_.
         do_res (refresh_share (order c) n me rs (map fst second) (x_share key)) (\<lambda>x.
         let Qs = refresh_points names (map (\<lambda>(_, _, R, _, _). R) second) (Qis key)
         in if Qs (names ! me) \<noteq> Some (smul x (generator c)) then Return (error E_CRYPTO)
            else if sum_map (names @ keys) Qs \<noteq> key_Q key then Return (error E_CRYPTO)
            else Return (Inr (key\<lparr>x_share := x, Qis := Qs\<rparr>, sid, r)))))"

definition refresh_second ::
  "('p, 'r) prims \<Rightarrow> string list \<Rightarrow> nat \<Rightarrow> (nat \<Rightarrow> nat \<Rightarrow> 'r) \<Rightarrow> bytes \<Rightarrow> string list \<Rightarrow> 'p::ab_group_add key_share_mp_t
     \<Rightarrow> (int \<times> 'p \<times> 'p uc_dl) list \<Rightarrow> commitment_t \<Rightarrow> bytes \<Rightarrow> 'r \<Rightarrow> (bytes \<times> bytes) list \<Rightarrow> ('p, 'p key_share_mp_t \<times> bytes \<times> 'r) protocol" where
  "refresh_second P names me vr sid keys key rs com_R h_consistency r first =
     (if list_ex (\<lambda>j. j \<noteq> me \<and> snd (first ! j) \<noteq> h_consistency) [0..<length names] then Return (error E_CRYPTO)
      else let h = pr_sha P [VList (map (\<lambda>(c_j, _). VBuf c_j) first)]
      in bcast dec_ref2 (\<lambda>j. [VInt (fst (rs ! j)), VBuf h, VList (map (\<lambda>(_, R, _). VPoint R) rs), VList (map (\<lambda>(_, _, pf). VDl pf) rs),
             VBuf (com_rand com_R)])
           (refresh_finish P names me vr sid keys key (map fst rs) com_R (map fst first) h r))"

text \<open>
  \<open>keys\<close> are the names in \<^verbatim>\<open>current_key.Qis\<close>, in the order of the map. \<^verbatim>\<open>at\<close> throws when the own name is missing.
\<close>

definition refresh_with_sid ::
  "('p, 'r) prims \<Rightarrow> string list \<Rightarrow> nat \<Rightarrow> (nat \<Rightarrow> nat \<Rightarrow> 'r) \<Rightarrow> string list \<Rightarrow> 'p::ab_group_add key_share_mp_t \<Rightarrow> bytes \<Rightarrow> 'r
     \<Rightarrow> ('p, 'p key_share_mp_t \<times> bytes \<times> 'r) protocol" where
  "refresh_with_sid P names me vr keys key sid r =
     (let n = length names; c = key_curve key
      in if party_name key \<noteq> names ! me then Return (error E_BADARG)
         else if length keys \<noteq> n then Return (error E_BADARG)
         else case Qis key (names ! me) of None \<Rightarrow> Return (Inl Out_Of_Bounds)
         | Some Qi \<Rightarrow>
           if smul (x_share key) (generator c) \<noteq> Qi then Return (error E_BADARG)
           else if sum_map keys (Qis key) \<noteq> key_Q key then Return (error E_BADARG)
           else let h_consistency = pr_sha P [VBuf sid, VPoint (key_Q key), VMap (map (\<lambda>nm. (nm, case Qis key nm of None \<Rightarrow> 0 | Some Q \<Rightarrow> Q)) keys)]
           in do_search (refresh_draw P c sid n me [0..<n] r) (\<lambda>(rs, r).
              do_res (com_gen (pr_hmac P) (pr_bytes P) [VList (map (\<lambda>(_, R, _). VPoint R) rs), VList (map (\<lambda>(_, _, pf). VDl pf) rs)]
                  (com_new_sid sid (pr_pid P (names ! me))) r) (\<lambda>(com_R, r).
              do_res (cb_assert (length (com_msg com_R) = 32)) (\<lambda>_.
              bcast dec_ref1 (\<lambda>_. [VBuf (com_msg com_R), VBuf h_consistency])
                (refresh_second P names me vr sid keys key rs com_R h_consistency r)))))"

definition key_share_mp_refresh ::
  "('p, 'r) prims \<Rightarrow> string list \<Rightarrow> nat \<Rightarrow> (nat \<Rightarrow> nat \<Rightarrow> 'r) \<Rightarrow> bytes \<Rightarrow> string list \<Rightarrow> 'p::ab_group_add key_share_mp_t \<Rightarrow> 'r
     \<Rightarrow> ('p, 'p key_share_mp_t \<times> bytes \<times> 'r) protocol" where
  "key_share_mp_refresh P names me vr sid keys key r =
     (if sid = [] then do_call (generate_sid_fixed_mp P r) (\<lambda>(sid, r). refresh_with_sid P names me vr keys key sid r)
      else refresh_with_sid P names me vr keys key sid r)"

section \<open>Shares and points move together\<close>

text \<open>The change of the share of \<open>i\<close> by its pairing with \<open>l\<close>, and in total.\<close>

definition pair_delta :: "(nat \<Rightarrow> nat \<Rightarrow> int) \<Rightarrow> nat \<Rightarrow> nat \<Rightarrow> int" where
  "pair_delta r i l = (if l = i then 0 else if l < i then r i l + r l i else - (r i l + r l i))"

definition delta :: "nat \<Rightarrow> (nat \<Rightarrow> nat \<Rightarrow> int) \<Rightarrow> nat \<Rightarrow> int" where
  "delta n r i = (\<Sum>l < n. pair_delta r i l)"

lemma delta_total: "(\<Sum>i < n. delta n r i) = 0"
proof -
  have "(\<Sum>i < n. \<Sum>l < n. pair_delta r i l) = (\<Sum>i < n. \<Sum>l < n. pair_delta r l i)" by (rule sum.swap)
  also have "\<dots> = (\<Sum>i < n. \<Sum>l < n. - pair_delta r i l)"
    by (intro sum.cong refl) (auto simp: pair_delta_def)
  finally show ?thesis by (simp add: delta_def sum_negf)
qed

lemma refresh_share_value:
  assumes q: "barrett_ok q" and x: "is_in_range q x" and r: "\<And>j l. is_in_range q (r j l)"
  shows "refresh_share q n i (map (r i) [0..<n]) (map (\<lambda>j. r j i) [0..<n]) x = Inr ((x + delta n r i) mod q)"
proof -
  let ?f = "\<lambda>j x. if j = i then Inr x
       else bind_res (mod_add False q (map (r i) [0..<n] ! j) (map (\<lambda>j. r j i) [0..<n] ! j)) (\<lambda>delta_x.
            if j < i then mod_add False q x delta_x else mod_sub False q x delta_x)"
  have q0: "0 < q" using barrett_ok_valid(2) [OF q] by simp
  have step: "?f k (s mod q) = Inr ((s + pair_delta r i k) mod q)" if "k < n" for k s
    using that r q0 by (auto simp: pair_delta_def mod_simps is_in_range_mod) (simp_all add: mod_diff_eq mod_add_eq diff_diff_eq algebra_simps)
  have "fold_res ?f [0..<k] x = Inr ((x + (\<Sum>l < k. pair_delta r i l)) mod q)" if "k \<le> n" for k
    using that
  proof (induction k)
    case 0
    then show ?case using x by (simp add: is_in_range_def)
  next
    case (Suc k)
    then show ?case using step [of k "x + (\<Sum>l < k. pair_delta r i l)"] by (simp add: fold_res_append add.assoc)
  qed
  from this [of n] show ?thesis by (simp add: refresh_share_def delta_def)
qed

lemma refresh_point_value:
  assumes "\<And>j l. j < n \<Longrightarrow> l < n \<Longrightarrow> R ! j ! l = smul (r j l) G" "j < n"
  shows "refresh_point n R j Q = Q + smul (delta n r j) G"
proof -
  let ?f = "\<lambda>l Q. if l = j then Q else let R_delta = R ! j ! l + R ! l ! j in if l < j then Q + R_delta else Q - R_delta"
  have step: "?f k (Q + smul s G) = Q + smul (s + pair_delta r j k) G" if "k < n" for k s
    using that assms by (auto simp: pair_delta_def Let_def smul_add smul_diff smul_minus)
  have "fold ?f [0..<k] Q = Q + smul (\<Sum>l < k. pair_delta r j l) G" if "k \<le> n" for k
    using that
  proof (induction k)
    case (Suc k)
    have "fold ?f [0..<Suc k] Q = ?f k (fold ?f [0..<k] Q)" by simp
    also have "\<dots> = Q + smul (\<Sum>l < Suc k. pair_delta r j l) G"
      using Suc step [of k "\<Sum>l < k. pair_delta r j l"] by (simp only: sum.lessThan_Suc)
    finally show ?case .
  qed simp
  from this [of n] show ?thesis by (simp add: refresh_point_def delta_def)
qed

lemma refresh_points_nth:
  assumes "distinct names" "j < length names"
  shows "refresh_points names R Qs (names ! j)
    = Some (refresh_point (length names) R j (case Qs (names ! j) of None \<Rightarrow> 0 | Some Q \<Rightarrow> Q))"
proof -
  let ?f = "\<lambda>j Qs. Qs(names ! j \<mapsto> refresh_point (length names) R j (case Qs (names ! j) of None \<Rightarrow> 0 | Some Q \<Rightarrow> Q))"
  have "fold ?f [0..<k] Qs (names ! j) = (if j < k then Some (refresh_point (length names) R j (case Qs (names ! j) of None \<Rightarrow> 0 | Some Q \<Rightarrow> Q))
      else Qs (names ! j))" if "k \<le> length names" for k
    using that assms(2) by (induction k) (auto simp: nth_eq_iff_index_eq [OF assms(1)] less_Suc_eq)
  from this [of "length names"] show ?thesis using assms(2) by (simp add: refresh_points_def)
qed

lemma sum_map_same:
  assumes "distinct names" "set names' = set names"
  shows "sum_map names' m = (\<Sum>j < length names. case m (names ! j) of None \<Rightarrow> 0 | Some P \<Rightarrow> P)"
proof -
  let ?g = "\<lambda>nm. case m nm of None \<Rightarrow> 0 | Some P \<Rightarrow> P"
  have "sum_map names' m = sum ?g (set (remdups names'))"
    by (simp add: sum_map_def sum_list_distinct_conv_sum_set del: set_remdups)
  also have "\<dots> = (\<Sum>nm\<leftarrow>names. ?g nm)" using assms by (simp add: sum_list_distinct_conv_sum_set)
  finally show ?thesis by (simp add: sum_list_sum_nth atLeast0LessThan)
qed

lemma refresh_draw_complete:
  assumes zk: "zk_ready P c"
  shows "\<exists>rs r'. refresh_draw P c sid n me js r = Some (Inr (rs, r')) \<and> length rs = length js
    \<and> (\<forall>k < length js. is_in_range (order c) (fst (rs ! k)) \<and> smul (fst (rs ! k)) (generator c) \<noteq> 0 \<and> fst (snd (rs ! k)) = smul (fst (rs ! k)) (generator c)
        \<and> (\<forall>r''. dl_verify P c (smul (fst (rs ! k)) (generator c)) sid (word_of_nat (me * n + js ! k)) (snd (snd (rs ! k))) r'' = success))"
proof (induction js arbitrary: r)
  case (Cons j js)
  let ?x = "fst (pr_gen P (order c) r)"
  have x: "is_in_range (order c) ?x" "smul ?x (generator c) \<noteq> 0" by (rule zk_readyD(6,7) [OF zk])+
  obtain pf r1 where pf: "dl_prove P c (smul ?x (generator c)) ?x sid (word_of_nat (me * n + j)) (snd (pr_gen P (order c) r)) = Some (Inr (pf, r1))"
    "\<forall>r''. dl_verify P c (smul ?x (generator c)) sid (word_of_nat (me * n + j)) pf r'' = success"
    using dl_complete [OF zk x] by blast
  obtain rs r2 where rs: "refresh_draw P c sid n me js r1 = Some (Inr (rs, r2))" "length rs = length js"
    "\<forall>k < length js. is_in_range (order c) (fst (rs ! k)) \<and> smul (fst (rs ! k)) (generator c) \<noteq> 0 \<and> fst (snd (rs ! k)) = smul (fst (rs ! k)) (generator c)
        \<and> (\<forall>r''. dl_verify P c (smul (fst (rs ! k)) (generator c)) sid (word_of_nat (me * n + js ! k)) (snd (snd (rs ! k))) r'' = success)"
    using Cons.IH [of r1] by blast
  have "refresh_draw P c sid n me (j # js) r = Some (Inr ((?x, smul ?x (generator c), pf) # rs, r2))"
    using pf(1) rs(1) by (simp add: Let_def split_beta lift_res_def)
  with x pf(2) rs(2,3) show ?case
    by (intro exI [of _ "(?x, smul ?x (generator c), pf) # rs"] exI [of _ r2]) (auto simp: nth_Cons simp del: of_nat_add of_nat_mult split: nat.splits)
qed simp

text \<open>Before the refresh: \<open>x j\<close> are the shares, and all parties hold the same public data.\<close>

definition additive_key :: "'p::ab_group_add ecurve \<Rightarrow> string list \<Rightarrow> (nat \<Rightarrow> int) \<Rightarrow> (string \<rightharpoonup> 'p) \<Rightarrow> nat \<Rightarrow> 'p key_share_mp_t \<Rightarrow> bool" where
  "additive_key c names x Qs i key \<longleftrightarrow> is_in_range (order c) (x i)
     \<and> (\<forall>j < length names. Qs (names ! j) = Some (smul (x j) (generator c)))
     \<and> key = \<lparr>x_share = x i, key_Q = smul (\<Sum>j < length names. x j) (generator c), Qis = Qs, key_curve = c, party_name = names ! i\<rparr>"

lemma refresh_with_sid_run:
  fixes c :: "'p::ab_group_add ecurve" and P :: "('p, 'r) prims"
  assumes P: "good_prims P" and zk: "zk_ready P c" and names: "distinct names" and keys: "distinct keys" "set keys = set names"
    and sid: "sid \<noteq> []" and key: "\<And>i. i < length names \<Longrightarrow> additive_key c names x Qs i (key i)"
  shows "\<exists>x' Qs'. (\<Sum>j < length names. x' j) mod order c = (\<Sum>j < length names. x j) mod order c
    \<and> (\<forall>i < length names. \<exists>key' r'. additive_key c names x' Qs' i key' \<and> key_Q key' = key_Q (key i)
      \<and> run_rounds (length names) 2 (\<lambda>i. refresh_with_sid P names i (vr i) keys (key i) sid (r i)) i = Return (Inr (key', sid, r')))"
proof -
  let ?n = "length names" and ?q = "order c" and ?G = "generator c" and ?hm = "pr_hmac P"
  let ?ps = "\<lambda>i. refresh_with_sid P names i (vr i) keys (key i) sid (r i)"
  let ?Q = "smul (\<Sum>j < ?n. x j) ?G"
  have q0: "0 < ?q" "barrett_ok ?q" "smul ?q ?G = 0" using zk_readyD [OF zk] by simp_all
  have k: "key i = \<lparr>x_share = x i, key_Q = ?Q, Qis = Qs, key_curve = c, party_name = names ! i\<rparr>"
    "is_in_range ?q (x i)" "Qs (names ! i) = Some (smul (x i) ?G)" if "i < ?n" for i
    using key [OF that] that by (auto simp: additive_key_def)
  have nkeys: "length keys = ?n" using distinct_card [OF names] distinct_card [OF keys(1)] keys(2) by simp
  have sumQ: "sum_map keys Qs = ?Q" using sum_map_same [OF names keys(2), of Qs] k(3) by (simp add: smul_sum)
  let ?hc = "pr_sha P [VBuf sid, VPoint ?Q, VMap (map (\<lambda>nm. (nm, case Qs nm of None \<Rightarrow> 0 | Some Q \<Rightarrow> Q)) keys)]"
  have "\<exists>rs r'. refresh_draw P c sid ?n i [0..<?n] (r i) = Some (Inr (rs, r')) \<and> length rs = ?n
    \<and> (\<forall>k < ?n. is_in_range ?q (fst (rs ! k)) \<and> smul (fst (rs ! k)) ?G \<noteq> 0 \<and> fst (snd (rs ! k)) = smul (fst (rs ! k)) ?G
        \<and> (\<forall>r''. dl_verify P c (smul (fst (rs ! k)) ?G) sid (word_of_nat (i * ?n + k)) (snd (snd (rs ! k))) r'' = success))" for i
    using refresh_draw_complete [OF zk, of sid ?n i "[0..<?n]" "r i"] by (simp del: of_nat_add of_nat_mult)
  then obtain rs r1 where rs: "\<And>i. refresh_draw P c sid ?n i [0..<?n] (r i) = Some (Inr (rs i, r1 i))" "\<And>i. length (rs i) = ?n"
    "\<And>i k. k < ?n \<Longrightarrow> is_in_range ?q (fst (rs i ! k))" "\<And>i k. k < ?n \<Longrightarrow> fst (snd (rs i ! k)) = smul (fst (rs i ! k)) ?G"
    "\<And>i k r''. k < ?n \<Longrightarrow> dl_verify P c (smul (fst (rs i ! k)) ?G) sid (word_of_nat (i * ?n + k)) (snd (snd (rs i ! k))) r'' = success"
    "\<And>i k. k < ?n \<Longrightarrow> smul (fst (rs i ! k)) ?G \<noteq> 0"
    by metis
  define a where "a = (\<lambda>i. [VList (map (\<lambda>(_, R, _). VPoint R) (rs i)), VList (map (\<lambda>(_, _, pf). VDl pf) (rs i))])"
  let ?c0 = "\<lambda>i. com_new_sid sid (pr_pid P (names ! i))"
  have "\<exists>com1 r2. com_gen ?hm (pr_bytes P) (a i) (?c0 i) (r1 i) = Inr (com1, r2) \<and> length (com_rand com1) = 32 \<and> length (com_msg com1) = 32
      \<and> same_ids (?c0 i) com1
      \<and> (\<forall>com. same_ids (?c0 i) com \<longrightarrow> com_open ?hm (a i) (com_set (com_rand com1) (com_msg com1) com) = success)" for i
    using com_gen_opens [OF good_primsD(1,2) [OF P], of "?c0 i" "a i" "r1 i"] sid by (simp add: com_new_sid_def)
  then obtain com r2 where com: "\<And>i. com_gen ?hm (pr_bytes P) (a i) (?c0 i) (r1 i) = Inr (com i, r2 i)"
    "\<And>i. length (com_rand (com i)) = 32" "\<And>i. length (com_msg (com i)) = 32" "\<And>i. same_ids (?c0 i) (com i)"
    "\<And>i com'. same_ids (?c0 i) com' \<Longrightarrow> com_open ?hm (a i) (com_set (com_rand (com i)) (com_msg (com i)) com') = success"
    by metis
  let ?first = "map (\<lambda>j. (com_msg (com j), ?hc)) [0..<?n]"
  define h where "h = pr_sha P [VList (map (\<lambda>(c_j, _). VBuf c_j) ?first)]"
  have one: "run_rounds ?n (Suc 0) ?ps i = refresh_second P names i (vr i) sid keys (key i) (rs i) (com i) ?hc (r2 i) ?first" if "i < ?n" for i
    by (rule run_bcast [where dec = dec_ref1 and m = "\<lambda>i _. [VBuf (com_msg (com i)), VBuf ?hc]"
          and k = "\<lambda>i. refresh_second P names i (vr i) sid keys (key i) (rs i) (com i) ?hc (r2 i)", OF _ that])
       (use com(1,3) k nkeys sumQ rs(1) good_primsD(3) [OF P] in \<open>simp_all add: refresh_with_sid_def a_def Let_def\<close>)
  define Rs where "Rs = (\<lambda>i. map (\<lambda>(_, R, _). R) (rs i))"
  define pfs where "pfs = (\<lambda>i. map (\<lambda>(_, _, pf). pf) (rs i))"
  have a: "a i = [VList (map VPoint (Rs i)), VList (map VDl (pfs i))]" for i
    by (simp add: a_def Rs_def pfs_def o_def split_beta)
  have one': "run_rounds ?n (Suc 0) ?ps i
      = bcast dec_ref2 (\<lambda>j. [VInt (fst (rs i ! j)), VBuf h, VList (map VPoint (Rs i)), VList (map VDl (pfs i)), VBuf (com_rand (com i))])
          (refresh_finish P names i (vr i) sid keys (key i) (map fst (rs i)) (com i) (map (\<lambda>j. com_msg (com j)) [0..<?n]) h (r2 i))" if "i < ?n" for i
    unfolding one [OF that] refresh_second_def Let_def h_def [symmetric]
    by (simp add: list_ex_iff Rs_def pfs_def o_def case_prod_unfold)
  let ?second = "\<lambda>i. map (\<lambda>j. (fst (rs j ! i), h, Rs j, pfs j, com_rand (com j))) [0..<?n]"
  have two: "run_rounds ?n (Suc (Suc 0)) ?ps i = refresh_finish P names i (vr i) sid keys (key i) (map fst (rs i)) (com i)
      (map (\<lambda>j. com_msg (com j)) [0..<?n]) h (r2 i) (?second i)" if "i < ?n" for i
    by (rule run_bcast [OF one' that]) (use com(2) good_primsD(3) [OF P] in \<open>simp_all add: h_def\<close>)
  have nth: "Rs j ! l = smul (fst (rs j ! l)) ?G" "pfs j ! l = snd (snd (rs j ! l))" "length (Rs j) = ?n" "length (pfs j) = ?n" if "l < ?n" for j l
    using that rs(2,4) by (simp_all add: Rs_def pfs_def split_beta)
  have check: "refresh_check P c names i (vr i) sid (com i) (map (\<lambda>j. com_msg (com j)) [0..<?n]) h (?second i) j = success"
    if "i < ?n" "j < ?n" for i j
  proof -
    have ids: "same_ids (?c0 j) (com_id sid (pr_pid P (names ! j)) (com i))"
      using com(4) [of i] by (simp add: same_ids_def com_id_def com_new_sid_def com_none_def)
    have "fold_res (\<lambda>l _. bind_res (pr_check P (Rs j ! l)) (\<lambda>_.
        if l = j then success else dl_verify P c (Rs j ! l) sid (word_of_nat (j * ?n + l)) (pfs j ! l) (vr i j l))) [0..<?n] () = success"
      by (rule fold_res_unit) (use zk_readyD(5) [OF zk rs(6)] rs(5) nth(1,2) in \<open>simp del: of_nat_add of_nat_mult\<close>)
    then show ?thesis
      using that com(5) [OF ids] nth(1,3,4) [OF that(1)] nth(3,4) by (simp add: refresh_check_def Let_def a [symmetric] del: of_nat_add of_nat_mult)
  qed
  define rr where "rr = (\<lambda>j l. if l < ?n then fst (rs j ! l) else 0)"
  have rr: "is_in_range ?q (rr j l)" for j l using rs(3) q0(1) by (simp add: rr_def is_in_range_def)
  define x' where "x' = (\<lambda>i. (x i + delta ?n rr i) mod ?q)"
  have share: "refresh_share ?q ?n i (map fst (rs i)) (map fst (?second i)) (x i) = Inr (x' i)" if "i < ?n" for i
  proof -
    have "map fst (rs i) = map (rr i) [0..<?n]" by (rule nth_equalityI) (simp_all add: rr_def rs(2))
    moreover have "map fst (?second i) = map (\<lambda>j. rr j i) [0..<?n]" using that by (simp add: rr_def o_def)
    ultimately show ?thesis using refresh_share_value [where r = rr and n = ?n and i = i, OF q0(2) k(2) [OF that] rr] by (simp only: x'_def)
  qed
  define Qs' where "Qs' = refresh_points names (map Rs [0..<?n]) Qs"
  have Qs': "Qs' (names ! j) = Some (smul (x' j) ?G)" if "j < ?n" for j
  proof -
    have "refresh_point ?n (map Rs [0..<?n]) j (smul (x j) ?G) = smul (x j) ?G + smul (delta ?n rr j) ?G"
      by (rule refresh_point_value) (use that nth(1) in \<open>simp_all add: rr_def\<close>)
    then show ?thesis using refresh_points_nth [OF names that, of "map Rs [0..<?n]" Qs] k(3) [OF that] q0(3)
      by (simp add: Qs'_def x'_def smul_mod smul_add)
  qed
  have total: "(\<Sum>j < ?n. x' j) mod ?q = (\<Sum>j < ?n. x j) mod ?q"
    unfolding x'_def mod_sum_eq by (simp add: sum.distrib delta_total)
  have Q': "smul (\<Sum>j < ?n. x' j) ?G = ?Q" using total smul_mod [OF q0(3)] by metis
  have sum': "sum_map (names @ keys) Qs' = ?Q"
    using sum_map_same [OF names, of "names @ keys" Qs'] keys(2) Qs' Q' by (simp add: smul_sum)
  have second: "map (\<lambda>(_, _, R, _, _). R) (?second i) = map Rs [0..<?n]" for i by (simp add: o_def)
  let ?key = "\<lambda>i. \<lparr>x_share = x' i, key_Q = ?Q, Qis = Qs', key_curve = c, party_name = names ! i\<rparr>"
  have "run_rounds ?n (Suc (Suc 0)) ?ps i = Return (Inr (?key i, sid, r2 i))" if "i < ?n" for i
  proof -
    have "fold_res (\<lambda>j _. refresh_check P c names i (vr i) sid (com i) (map (\<lambda>j. com_msg (com j)) [0..<?n]) h (?second i) j) [0..<?n] () = success"
      by (rule fold_res_unit) (use check that in simp)
    then show ?thesis
      using two [OF that] share [OF that] Qs' [OF that] sum' k(1) [OF that]
      unfolding refresh_finish_def Let_def second by (simp add: Qs'_def [symmetric])
  qed
  moreover have "additive_key c names x' Qs' i (?key i)" for i
    using Qs' Q' q0(1) by (simp add: additive_key_def x'_def is_in_range_def)
  ultimately show ?thesis using total k(1) by (intro exI [of _ x'] exI [of _ Qs']) (auto simp: numeral_2_eq_2 simp del: run_rounds.simps)
qed

section \<open>The whole call\<close>

text \<open>
  The refresh with a given session, or with one agreed on in a round before: the shares add up to the same key, and every party holds
  its new share and the same new public shares.
\<close>

lemma mp_refresh_run:
  fixes c :: "'p::ab_group_add ecurve" and P :: "('p, 'r) prims"
  assumes P: "good_prims P" and zk: "zk_ready P c" and names: "distinct names" and keys: "distinct keys" "set keys = set names"
    and key: "\<And>i. i < length names \<Longrightarrow> additive_key c names x Qs i (key i)"
  shows "\<exists>x' Qs' sid'. (\<Sum>j < length names. x' j) mod order c = (\<Sum>j < length names. x j) mod order c
    \<and> (\<forall>i < length names. \<exists>key' r'. additive_key c names x' Qs' i key' \<and> key_Q key' = key_Q (key i)
      \<and> run_rounds (length names) (if sid = [] then 3 else 2) (\<lambda>i. key_share_mp_refresh P names i (vr i) sid keys (key i) (r i)) i
        = Return (Inr (key', sid', r')))"
proof (cases "sid = []")
  case False
  then show ?thesis
    using refresh_with_sid_run [OF P zk names keys False key, where r = r and vr = vr] by (simp add: key_share_mp_refresh_def) blast
next
  case True
  let ?n = "length names"
  have "session_of P ?n r \<noteq> []" using session_of_length [OF P, of ?n r] by auto
  note run = refresh_with_sid_run [OF P zk names keys this key, where r = "\<lambda>j. snd (pr_bytes P 16 (r j))" and vr = vr]
  have "run_rounds ?n (2 + 1) (\<lambda>i. key_share_mp_refresh P names i (vr i) sid keys (key i) (r i)) i
      = run_rounds ?n 2 (\<lambda>j. refresh_with_sid P names j (vr j) keys (key j) (session_of P ?n r) (snd (pr_bytes P 16 (r j)))) i" if "i < ?n" for i
    by (rule run_with_sid [OF P that]) (simp add: key_share_mp_refresh_def True)
  then have three: "run_rounds ?n 3 (\<lambda>i. key_share_mp_refresh P names i (vr i) sid keys (key i) (r i)) i
      = run_rounds ?n 2 (\<lambda>j. refresh_with_sid P names j (vr j) keys (key j) (session_of P ?n r) (snd (pr_bytes P 16 (r j)))) i" if "i < ?n" for i
    using that by (simp only: numeral_3_eq_3 numeral_2_eq_2 add_Suc add_0 plus_1_eq_Suc One_nat_def)
  from run obtain x' Qs' where x': "(\<Sum>j < ?n. x' j) mod order c = (\<Sum>j < ?n. x j) mod order c"
    "\<And>i. i < ?n \<Longrightarrow> \<exists>key' r'. additive_key c names x' Qs' i key' \<and> key_Q key' = key_Q (key i)
      \<and> run_rounds ?n 2 (\<lambda>i. refresh_with_sid P names i (vr i) keys (key i) (session_of P ?n r) (snd (pr_bytes P 16 (r i)))) i
        = Return (Inr (key', session_of P ?n r, r'))"
    by blast
  show ?thesis
    by (intro exI [of _ x'] exI [of _ Qs'] exI [of _ "session_of P ?n r"] conjI allI impI) (use x' three True in simp_all)
qed

section \<open>Among arbitrary parties\<close>

lemma refresh_with_sid_reaches:
  assumes "against i envs (refresh_with_sid P names i vr keys key sid r) = Some (Inr y)"
  shows "\<exists>pre e post m rs com cs h r' second. envs = pre @ e # post \<and> those (map dec_ref2 (e[i := m i])) = Some second
    \<and> reaches i pre (refresh_with_sid P names i vr keys key sid r)
        (bcast dec_ref2 m (refresh_finish P names i vr sid keys key rs com cs h r'))
    \<and> refresh_finish P names i vr sid keys key rs com cs h r' second = Return (Inr y)"
proof -
  let ?p = "refresh_with_sid P names i vr keys key sid r"
  obtain rs com h0 r1 where 1: "?p = bcast dec_ref1 (\<lambda>_. [VBuf (com_msg com), VBuf h0]) (refresh_second P names i vr sid keys key rs com h0 r1)"
    using assms by (auto simp: refresh_with_sid_def Let_def against_Return against_do_search against_do_res split: if_splits option.splits)
  obtain e0 post0 first where 2: "envs = e0 # post0" "reaches i [e0] ?p (refresh_second P names i vr sid keys key rs com h0 r1 first)"
    "against i post0 (refresh_second P names i vr sid keys key rs com h0 r1 first) = Some (Inr y)"
    using reaches_bcast [OF assms [unfolded 1]] 1 by auto
  obtain m cs h where 3: "refresh_second P names i vr sid keys key rs com h0 r1 first
      = bcast dec_ref2 m (refresh_finish P names i vr sid keys key (map fst rs) com cs h r1)"
    using 2(3) by (auto simp: refresh_second_def Let_def against_Return split: if_splits)
  obtain e post second where 4: "post0 = e # post" "those (map dec_ref2 (e[i := m i])) = Some second"
    "against i post (refresh_finish P names i vr sid keys key (map fst rs) com cs h r1 second) = Some (Inr y)"
    using reaches_bcast [OF 2(3) [unfolded 3]] by blast
  have "refresh_finish P names i vr sid keys key (map fst rs) com cs h r1 second = Return (Inr y)"
    using 4(3) by (auto simp: refresh_finish_def Let_def against_do_res against_Return split: if_splits)
  moreover have "envs = [e0] @ e # post" using 2(1) 4(1) by simp
  ultimately show ?thesis using 2(2) [unfolded 3] 4(2) by blast
qed

lemma refresh_reaches:
  assumes "against i envs (key_share_mp_refresh P names i vr sid0 keys key r) = Some (Inr y)"
  shows "\<exists>pre e post m sid rs com cs h r' second. envs = pre @ e # post \<and> those (map dec_ref2 (e[i := m i])) = Some second
    \<and> reaches i pre (key_share_mp_refresh P names i vr sid0 keys key r)
        (bcast dec_ref2 m (refresh_finish P names i vr sid keys key rs com cs h r'))
    \<and> refresh_finish P names i vr sid keys key rs com cs h r' second = Return (Inr y) \<and> party_name key = names ! i"
proof -
  let ?p = "key_share_mp_refresh P names i vr sid0 keys key r"
  have "\<exists>pre0 post0 sid r. envs = pre0 @ post0 \<and> reaches i pre0 ?p (refresh_with_sid P names i vr keys key sid r)
      \<and> against i post0 (refresh_with_sid P names i vr keys key sid r) = Some (Inr y)"
  proof (cases "sid0 = []")
    case True
    then show ?thesis using reaches_call [of i envs "generate_sid_fixed_mp P r"] assms by (fastforce simp: key_share_mp_refresh_def)
  next
    case False
    then have "envs = [] @ envs" "reaches i [] ?p (refresh_with_sid P names i vr keys key sid0 r)" "?p = refresh_with_sid P names i vr keys key sid0 r"
      by (simp_all add: key_share_mp_refresh_def reaches_def)
    then show ?thesis using assms by metis
  qed
  then obtain pre0 post0 sid r0 where 1: "envs = pre0 @ post0" "reaches i pre0 ?p (refresh_with_sid P names i vr keys key sid r0)"
    "against i post0 (refresh_with_sid P names i vr keys key sid r0) = Some (Inr y)" by blast
  obtain pre e post m rs com cs h r' second where 2: "post0 = pre @ e # post" "those (map dec_ref2 (e[i := m i])) = Some second"
    "reaches i pre (refresh_with_sid P names i vr keys key sid r0) (bcast dec_ref2 m (refresh_finish P names i vr sid keys key rs com cs h r'))"
    "refresh_finish P names i vr sid keys key rs com cs h r' second = Return (Inr y)"
    using refresh_with_sid_reaches [OF 1(3)] by blast
  have "party_name key = names ! i" using 1(3) by (auto simp: refresh_with_sid_def Let_def against_Return split: if_splits)
  moreover have "envs = (pre0 @ pre) @ e # post" using 1(1) 2(1) by simp
  ultimately show ?thesis using reaches_trans [OF 1(2) 2(3)] 2(2,4) by blast
qed

text \<open>A refresh that ends with a key has kept the public key, and the new share fits the new public shares.\<close>

lemma mp_refresh_success:
  assumes "against i envs (key_share_mp_refresh P names i vr sid keys key r) = Some (Inr (key', sid', r'))"
  shows "key_Q key' = key_Q key \<and> Qis key' (names ! i) = Some (smul (x_share key') (generator (key_curve key)))
    \<and> sum_map (names @ keys) (Qis key') = key_Q key \<and> party_name key' = names ! i"
proof -
  obtain sid1 rs com cs h r1 second where "refresh_finish P names i vr sid1 keys key rs com cs h r1 second = Return (Inr (key', sid', r'))"
    "party_name key = names ! i"
    using refresh_reaches [OF assms] by blast
  then show ?thesis by (auto simp: refresh_finish_def Let_def do_res_def split: sum.splits if_splits)
qed

text \<open>
  The number a peer sends is checked in the exponent only: adding the order to it passes the checks, and the addition of the numbers
  then fails its assertion.
\<close>

lemma refresh_share_fault:
  assumes "j < n" "j \<noteq> i" "\<not> is_in_range q (received ! j)"
  shows "refresh_share q n i rs received x = Inl Assert_Failed"
proof -
  let ?f = "\<lambda>j x. if j = i then Inr x
       else bind_res (mod_add False q (rs ! j) (received ! j)) (\<lambda>delta_x.
            if j < i then mod_add False q x delta_x else mod_sub False q x delta_x)"
  have any: "?f k y = Inl e \<Longrightarrow> e = Assert_Failed" for k y e
    by (auto simp: mod_add_def mod_sub_def mod_check_def cb_assert_def res_simps split: if_splits)
  have bad: "?f j y = Inl Assert_Failed" for y
    using assms(2,3) by (auto simp: mod_add_def mod_check_def cb_assert_def is_in_range_def split: if_splits)
  have "j \<in> set js \<Longrightarrow> fold_res ?f js y = Inl Assert_Failed" for js y
  proof (induction js arbitrary: y)
    case (Cons k js)
    show ?case
    proof (cases "?f k y")
      case (Inl e)
      then show ?thesis using any [OF Inl] by (simp del: if_split)
    next
      case (Inr z)
      then have "k \<noteq> j" using bad [of y] by auto
      then show ?thesis using Inr Cons by (simp del: if_split)
    qed
  qed simp
  from this [of "[0..<n]"] assms(1) show ?thesis by (simp add: refresh_share_def)
qed

lemma refresh_unreduced:
  fixes key :: "'p::ab_group_add key_share_mp_t"
  assumes ok: "refresh_finish P names i vr sid keys key rs com cs h r second = Return (Inr y)"
    and G: "smul (order (key_curve key)) (generator (key_curve key)) = 0" "0 < order (key_curve key)"
    and j: "j < length names" "j \<noteq> i" "length second = length names" "second ! j = (v, rest)" "0 \<le> v"
  shows "refresh_finish P names i vr sid keys key rs com cs h r (second[j := (v + order (key_curve key), rest)]) = Return (Inl Assert_Failed)"
proof -
  let ?c = "key_curve key" and ?s = "second[j := (v + order (key_curve key), rest)]"
  have check: "refresh_check P ?c names i vr sid com cs h ?s l = refresh_check P ?c names i vr sid com cs h second l" for l
    using j G(1) by (cases "l = j") (simp_all add: refresh_check_def smul_add Let_def split_beta)
  have "refresh_share (order ?c) (length names) i rs (map fst ?s) (x_share key) = Inl Assert_Failed"
    by (rule refresh_share_fault [OF j(1,2)]) (use j G(2) in \<open>simp add: is_in_range_def\<close>)
  moreover have "fold_res (\<lambda>l _. refresh_check P ?c names i vr sid com cs h second l) [0..<length names] () = success"
    using ok by (cases "fold_res (\<lambda>l _. refresh_check P ?c names i vr sid com cs h second l) [0..<length names] ()")
      (auto simp: refresh_finish_def Let_def)
  ultimately show ?thesis by (simp add: refresh_finish_def Let_def check)
qed

lemma refresh_unreduced_run:
  fixes key :: "'p::ab_group_add key_share_mp_t"
  assumes run: "against i envs (key_share_mp_refresh P names i vr sid keys key r) = Some (Inr y)"
    and G: "smul (order (key_curve key)) (generator (key_curve key)) = 0" "0 < order (key_curve key)"
    and n: "list_all (\<lambda>e. length e = length names) envs" "j < length names" "j \<noteq> i"
  shows "\<exists>pre e post v m. envs = pre @ e # post \<and> e ! j = VInt v # m
    \<and> against i (pre @ e[j := VInt (v + order (key_curve key)) # m] # post) (key_share_mp_refresh P names i vr sid keys key r)
      = Some (Inl Assert_Failed)"
proof -
  let ?p = "key_share_mp_refresh P names i vr sid keys key r" and ?q = "order (key_curve key)"
  obtain pre e post m sid rs com cs h r' second where 1: "envs = pre @ e # post" "those (map dec_ref2 (e[i := m i])) = Some second"
    "reaches i pre ?p (bcast dec_ref2 m (refresh_finish P names i vr sid keys key rs com cs h r'))"
    "refresh_finish P names i vr sid keys key rs com cs h r' second = Return (Inr y)"
    using refresh_reaches [OF run] by blast
  have len: "length e = length names" using n(1) 1(1) by simp
  note dec = those_map_Some [OF 1(2)]
  have "dec_ref2 (e ! j) = Some (second ! j)" using dec n(2,3) len by auto
  then obtain v ms rest where v: "e ! j = VInt v # ms" "second ! j = (v, rest)"
    "dec_ref2 (VInt (v + ?q) # ms) = Some (v + ?q, rest)"
    by (auto simp: dec_ref2_def v_int_def split: list.splits val.splits option.splits bind_splits) (metis (no_types))
  have "0 \<le> v"
  proof (rule ccontr)
    assume "\<not> 0 \<le> v"
    then have "refresh_share ?q (length names) i rs (map fst second) (x_share key) = Inl Assert_Failed"
      using refresh_share_fault [OF n(2,3), of ?q "map fst second" rs "x_share key"] v(2) dec len n(2) by (simp add: is_in_range_def)
    then show False using 1(4) by (auto simp: refresh_finish_def Let_def do_res_def split: sum.splits)
  qed
  let ?e = "e[j := VInt (v + ?q) # ms]"
  have "those (map dec_ref2 (?e[i := m i])) = Some (second[j := (v + ?q, rest)])"
  proof -
    have "dec_ref2 (?e[i := m i] ! l) = Some (second[j := (v + ?q, rest)] ! l)" if "l < length e" for l
      using dec v(3) that n(2,3) len by (cases "l = j"; cases "l = i") (auto simp: nth_list_update)
    then show ?thesis using dec len by (intro those_nth) simp_all
  qed
  then have "against i (?e # post) (bcast dec_ref2 m (refresh_finish P names i vr sid keys key rs com cs h r')) = Some (Inl Assert_Failed)"
    using refresh_unreduced [OF 1(4) G n(2,3) _ v(2) \<open>0 \<le> v\<close>] dec len by (simp add: bcast_def against_Return)
  then have "against i (pre @ ?e # post) ?p = Some (Inl Assert_Failed)" using 1(3) unfolding reaches_def by simp
  then show ?thesis using 1(1) v(1) by blast
qed

end
