(* ===== verification/Dkg_Ac.thy ===== *)
theory Dkg_Ac
  imports Dkg
begin

text \<open>
  Generation and refresh of a key over an access structure: \<^verbatim>\<open>key_share_mp_t::dkg_or_refresh_ac\<close> of \<^verbatim>\<open>protocol/ec_dkg.cpp\<close> with \<^verbatim>\<open>dkg_ac\<close> and
  \<^verbatim>\<open>refresh_ac\<close>. The parties of a quorum deal: each shares a number over the tree, of a new key or zero for a refresh, publishes the points of all nodes
  with a proof and a commitment, and sends every party its share. All parties add up what they received.
\<close>

section \<open>The protocol\<close>

text \<open>A \<^verbatim>\<open>std::map\<close> is the list of its entries in the order of the keys; a received one has every key once.\<close>

definition dec_map :: "'p val \<Rightarrow> (string \<times> 'p) list option" where
  "dec_map v = Option.bind (v_map v) (\<lambda>m. if distinct (map fst m) then Some (sort_key fst m) else None)"

definition map_entries :: "string list \<Rightarrow> (string \<rightharpoonup> 'a) \<Rightarrow> (string \<times> 'a) list" where
  "map_entries names m = List.map_filter (\<lambda>nm. map_option (Pair nm) (m nm)) (sort (remdups names))"

text \<open>\<^verbatim>\<open>std::map::at\<close> throws on a missing key; assignment through \<^verbatim>\<open>operator[]\<close> replaces or adds an entry.\<close>

definition map_at :: "(string \<times> 'a) list \<Rightarrow> string \<Rightarrow> 'a res" where
  "map_at m nm = (case map_of m nm of None \<Rightarrow> Inl Out_Of_Bounds | Some a \<Rightarrow> Inr a)"

definition map_put :: "string \<Rightarrow> 'a \<Rightarrow> (string \<times> 'a) list \<Rightarrow> (string \<times> 'a) list" where
  "map_put nm a m = (nm, a) # List.filter (\<lambda>(k, _). k \<noteq> nm) m"

definition map_erase :: "string \<Rightarrow> (string \<times> 'a) list \<Rightarrow> (string \<times> 'a) list" where
  "map_erase nm m = List.filter (\<lambda>(k, _). k \<noteq> nm) m"

definition dec_buf256 :: "'p val list \<Rightarrow> bytes option" where
  "dec_buf256 m = (case m of [b] \<Rightarrow> v_buf256 b | _ \<Rightarrow> None)"

definition dec_deal :: "'p val list \<Rightarrow> (bytes \<times> (string \<times> 'p) list \<times> 'p batch_dl \<times> bytes \<times> int) option" where
  "dec_deal m = (case m of [h, pub, pf, rho, x] \<Rightarrow>
     Option.bind (v_buf256 h) (\<lambda>h. Option.bind (dec_map pub) (\<lambda>pub. Option.bind (v_batch pf) (\<lambda>pf.
     Option.bind (v_buf256 rho) (\<lambda>rho. map_option (\<lambda>x. (h, pub, pf, rho, x)) (v_int x))))) | _ \<Rightarrow> None)"

definition batch_prove where
  "batch_prove P c Rs rs sid aux r = batch_dl_prove (pr_fischlin P) (pr_batch_oracle P) (pr_gen P) c Rs rs sid aux r"

definition batch_verify where
  "batch_verify P c Rs sid aux pf = batch_dl_verify (pr_fischlin P) (pr_batch_oracle P) (pr_check P) c Rs sid aux pf"

text \<open>\<^verbatim>\<open>curve.check\<close> where the point at infinity is allowed.\<close>

definition check_inf :: "('p::zero, 'r) prims \<Rightarrow> 'p \<Rightarrow> unit res" where
  "check_inf P Q = (if Q = 0 then success else pr_check P Q)"

text \<open>What a party sends in the second half; a party outside the quorum sends the values of newly constructed objects.\<close>

record 'p deal =
  deal_x :: "int list"
  deal_pub :: "(string \<times> 'p) list"
  deal_pi :: "'p batch_dl"
  deal_com :: commitment_t

definition no_deal :: "nat \<Rightarrow> int \<Rightarrow> 'p deal" where
  "no_deal n pid = \<lparr>deal_x = replicate n 0, deal_pub = [],
     deal_pi = \<lparr>bd_params = \<lparr>fp_rho = 0, fp_b = 0, fp_t = 0\<rparr>, bd_R = [], bd_e = [], bd_z = []\<rparr>, deal_com = com_new_pid pid\<rparr>"

definition root_name :: "'p ac_t \<Rightarrow> string" where
  "root_name ac = (case root ac of None \<Rightarrow> [] | Some t \<Rightarrow> nname t)"

definition ac_names :: "'p ac_t \<Rightarrow> string list" where
  "ac_names ac = (case root ac of None \<Rightarrow> [] | Some t \<Rightarrow> node_names t)"

definition ac_deal ::
  "('p, 'r) prims \<Rightarrow> 'p::ab_group_add ecurve \<Rightarrow> 'p ac_t \<Rightarrow> string list \<Rightarrow> nat \<Rightarrow> bool \<Rightarrow> bytes \<Rightarrow> 'r \<Rightarrow> ('p deal \<times> 'r) res option" where
  "ac_deal P c ac names me is_refresh sid r =
     (let q = order c; (x, r) = (if is_refresh then (0, r) else pr_gen P q r)
      in lift_res (share_with_internals (pr_gen P) (pr_pid P) ac q x r) (\<lambda>st.
         let xs = map (\<lambda>nm. case ac_shares st nm of None \<Rightarrow> 0 | Some x \<Rightarrow> x) names;
             pub = map_entries (ac_names ac) (ac_internal_pub_shares st);
             pub = (if is_refresh then map_erase (root_name ac) pub else pub)
         in lift_res (map_res (\<lambda>(nm, _). case ac_internal_shares st nm of None \<Rightarrow> Inl Out_Of_Bounds | Some s \<Rightarrow> Inr s) pub) (\<lambda>rs.
            case batch_prove P c (map snd pub) rs sid (word_of_nat me) (rng st) of None \<Rightarrow> None
            | Some rv \<Rightarrow> lift_res rv (\<lambda>(pf, r).
                lift_res (com_gen (pr_hmac P) (pr_bytes P) [VList (map (\<lambda>(_, R). VPoint R) pub), VBatch pf]
                    (com_new_pid (pr_pid P (names ! me))) r) (\<lambda>(com, r).
                Some (Inr (\<lparr>deal_x = xs, deal_pub = pub, deal_pi = pf, deal_com = com\<rparr>, r)))))))"

text \<open>The indices of the quorum with their identifiers or with the received commitments, as they are hashed.\<close>

definition quorum_pids :: "('p, 'r) prims \<Rightarrow> string list \<Rightarrow> nat list \<Rightarrow> 'p val" where
  "quorum_pids P names qs = VList (map (\<lambda>j. VList [VInt (int j), VInt (pr_pid P (names ! j))]) qs)"

definition hash_cs :: "('p, 'r) prims \<Rightarrow> string list \<Rightarrow> nat list \<Rightarrow> bytes \<Rightarrow> bytes list \<Rightarrow> bytes" where
  "hash_cs P names qs sid cs =
     pr_sha P [VList (map (\<lambda>j. VList [VInt (int j), VBuf (cs ! j)]) qs), quorum_pids P names qs, VBuf sid]"

text \<open>The checks of the dealing of party \<open>j\<close>, with its points: the root is added to those of a refresh.\<close>

definition ac_check ::
  "('p, 'r) prims \<Rightarrow> 'p::ab_group_add ecurve \<Rightarrow> 'p ac_t \<Rightarrow> string list \<Rightarrow> nat \<Rightarrow> nat list \<Rightarrow> bool \<Rightarrow> bytes \<Rightarrow> bytes list
     \<Rightarrow> (bytes \<times> (string \<times> 'p) list \<times> 'p batch_dl \<times> bytes \<times> int) list \<Rightarrow> nat \<Rightarrow> (string \<times> 'p) list res" where
  "ac_check P c ac names me qs is_refresh sid cs second j =
     (case second ! j of (h_j, pub, pf, rho, x) \<Rightarrow>
        if h_j \<noteq> fst (second ! last qs) then error E_CRYPTO
        else if j = me then Inr pub
        else let Rs = map snd pub
        in bind_res (com_open (pr_hmac P) [VList (map VPoint Rs), VBatch pf] (com_set rho (cs ! j) (com_new_pid (pr_pid P (names ! j))))) (\<lambda>_.
           bind_res (fold_res (\<lambda>R _. pr_check P R) Rs ()) (\<lambda>_.
           bind_res (batch_verify P c Rs sid (word_of_nat j) pf) (\<lambda>_.
           let pub = (if is_refresh then map_put (root_name ac) 0 pub else pub)
           in bind_res (map_at pub (root_name ac)) (\<lambda>Qj.
              bind_res (verify_share_against_ancestors_pub_data (pr_inv P) (pr_pid P) ac (curve ac = Some c) Qj x (map_of pub) (names ! me))
                (\<lambda>_. Inr pub))))))"

text \<open>The sums of the points of the root and of the shares received, and of the points of each party.\<close>

definition ac_sum :: "int \<Rightarrow> string \<Rightarrow> bool \<Rightarrow> ((string \<times> 'p::ab_group_add) list \<times> int) list \<Rightarrow> ('p \<times> int) res" where
  "ac_sum q rt is_refresh deals =
     fold_res (\<lambda>(pub, x) (Q, x_i).
       bind_res (if is_refresh then Inr Q else bind_res (map_at pub rt) (\<lambda>R. Inr (Q + R))) (\<lambda>Q.
       bind_res (mod_add False q x_i x) (\<lambda>x_i. Inr (Q, x_i)))) deals (0, 0)"

definition add_point :: "(string \<times> 'p::ab_group_add) list \<Rightarrow> string \<Rightarrow> (string \<rightharpoonup> 'p) \<Rightarrow> (string \<rightharpoonup> 'p) res" where
  "add_point pub nm Qs = bind_res (map_at pub nm) (\<lambda>R. Inr (Qs(nm \<mapsto> (case Qs nm of None \<Rightarrow> 0 | Some Q \<Rightarrow> Q) + R)))"

definition ac_Qis :: "string list \<Rightarrow> (string \<times> 'p::ab_group_add) list list \<Rightarrow> (string \<rightharpoonup> 'p) res" where
  "ac_Qis names pubs =
     fold_res (\<lambda>pub Qs. fold_res (add_point pub) names Qs) pubs (\<lambda>nm. if nm \<in> set names then Some 0 else None)"

text \<open>The key: \<open>keys\<close> are the names in \<^verbatim>\<open>key.Qis\<close>.\<close>

definition ac_key ::
  "('p, 'r) prims \<Rightarrow> 'p::ab_group_add ecurve \<Rightarrow> 'p ac_t \<Rightarrow> string list \<Rightarrow> nat \<Rightarrow> bool \<Rightarrow> string list \<Rightarrow> 'p key_share_mp_t
     \<Rightarrow> 'p \<Rightarrow> int \<Rightarrow> (string \<rightharpoonup> 'p) \<Rightarrow> 'p key_share_mp_t res" where
  "ac_key P c ac names me is_refresh keys key Q x_i Qs =
     (let reconstruct = (\<lambda>nms Qs. reconstruct_exponent (pr_inv P) (pr_pid P) (check_inf P) ac (sort (remdups nms)) Qs)
      in bind_res (reconstruct names Qs) (\<lambda>reconstructed_Q.
         if reconstructed_Q \<noteq> Q then error E_CRYPTO
         else if Qs (names ! me) \<noteq> Some (smul x_i (generator c)) then error E_CRYPTO
         else if is_refresh
         then bind_res (mod_add False (order c) (x_share key) x_i) (\<lambda>x.
              let new_Qs = fold (\<lambda>nm m. m(nm \<mapsto> (case m nm of None \<Rightarrow> 0 | Some Q \<Rightarrow> Q) + (case Qs nm of None \<Rightarrow> 0 | Some Q \<Rightarrow> Q))) names (Qis key)
              in bind_res (reconstruct (keys @ names) new_Qs) (\<lambda>reconstructed_Q.
                 if reconstructed_Q \<noteq> key_Q key then error E_CRYPTO
                 else Inr (key\<lparr>x_share := x, Qis := new_Qs, party_name := names ! me\<rparr>)))
         else Inr \<lparr>x_share = x_i, key_Q = Q, Qis = Qs |` set names, key_curve = c, party_name = names ! me\<rparr>))"

definition ac_finish ::
  "('p, 'r) prims \<Rightarrow> 'p::ab_group_add ecurve \<Rightarrow> 'p ac_t \<Rightarrow> string list \<Rightarrow> nat \<Rightarrow> nat list \<Rightarrow> bool \<Rightarrow> string list \<Rightarrow> 'p key_share_mp_t \<Rightarrow> bytes
     \<Rightarrow> bytes list \<Rightarrow> 'r \<Rightarrow> (bytes \<times> (string \<times> 'p) list \<times> 'p batch_dl \<times> bytes \<times> int) list \<Rightarrow> ('p, 'p key_share_mp_t \<times> bytes \<times> 'r) protocol" where
  "ac_finish P c ac names me qs is_refresh keys key sid cs r second =
     do_res (map_res (ac_check P c ac names me qs is_refresh sid cs second) qs) (\<lambda>pubs.
     do_res (if me \<in> set qs then success
             else bind_res (cb_assert (qs \<noteq> [])) (\<lambda>_.
                  if fst (second ! last qs) \<noteq> hash_cs P names qs sid cs then error E_CRYPTO else success)) (\<lambda>_.
     do_res (ac_sum (order c) (root_name ac) is_refresh (zip pubs (map (\<lambda>j. snd (snd (snd (snd (second ! j))))) qs))) (\<lambda>(Q, x_i).
     do_res (ac_Qis names pubs) (\<lambda>Qs.
     do_res (ac_key P c ac names me is_refresh keys key Q x_i Qs) (\<lambda>new_key.
     Return (Inr (new_key, sid, r)))))))"

definition ac_third ::
  "('p, 'r) prims \<Rightarrow> 'p::ab_group_add ecurve \<Rightarrow> 'p ac_t \<Rightarrow> string list \<Rightarrow> nat \<Rightarrow> nat list \<Rightarrow> bool \<Rightarrow> string list \<Rightarrow> 'p key_share_mp_t \<Rightarrow> bytes
     \<Rightarrow> 'p deal \<Rightarrow> 'r \<Rightarrow> bytes list \<Rightarrow> ('p, 'p key_share_mp_t \<times> bytes \<times> 'r) protocol" where
  "ac_third P c ac names me qs is_refresh keys key sid d r cs =
     bcast dec_deal (\<lambda>j. [VBuf (hash_cs P names qs sid cs), VMap (deal_pub d), VBatch (deal_pi d), VBuf (com_rand (deal_com d)), VInt (deal_x d ! j)])
       (ac_finish P c ac names me qs is_refresh keys key sid cs r)"

definition ac_second ::
  "('p, 'r) prims \<Rightarrow> 'p::ab_group_add ecurve \<Rightarrow> 'p ac_t \<Rightarrow> string list \<Rightarrow> nat \<Rightarrow> nat list \<Rightarrow> bool \<Rightarrow> string list \<Rightarrow> 'p key_share_mp_t \<Rightarrow> bytes
     \<Rightarrow> bytes \<Rightarrow> 'r \<Rightarrow> bytes list \<Rightarrow> ('p, 'p key_share_mp_t \<times> bytes \<times> 'r) protocol" where
  "ac_second P c ac names me qs is_refresh keys key sid h_consistency r hs =
     (if list_ex (\<lambda>j. j \<noteq> me \<and> hs ! j \<noteq> h_consistency) [0..<length names] then Return (error E_CRYPTO)
      else do_search (if me \<in> set qs then ac_deal P c ac names me is_refresh sid r
                      else Some (Inr (no_deal (length names) (pr_pid P (names ! me)), r))) (\<lambda>(d, r).
           bcast dec_buf (\<lambda>_. [VBuf (com_msg (deal_com d))]) (ac_third P c ac names me qs is_refresh keys key sid d r)))"

definition ac_with_sid ::
  "('p, 'r) prims \<Rightarrow> 'p::ab_group_add ecurve \<Rightarrow> string \<Rightarrow> 'p ac_t \<Rightarrow> string list \<Rightarrow> nat \<Rightarrow> nat list \<Rightarrow> bool \<Rightarrow> string list \<Rightarrow> 'p key_share_mp_t
     \<Rightarrow> bytes \<Rightarrow> 'r \<Rightarrow> ('p, 'p key_share_mp_t \<times> bytes \<times> 'r) protocol" where
  "ac_with_sid P c curve_name ac names me qs is_refresh keys key sid r =
     (let h_consistency = pr_sha P [VStr curve_name, VList (map (\<lambda>nm. VInt (pr_pid P nm)) names), quorum_pids P names qs, VBuf sid]
      in bcast dec_buf256 (\<lambda>_. [VBuf h_consistency]) (ac_second P c ac names me qs is_refresh keys key sid h_consistency r))"

text \<open>\<open>quorum\<close> is \<^verbatim>\<open>quorum_party_set.has\<close>.\<close>

definition dkg_or_refresh_ac ::
  "('p, 'r) prims \<Rightarrow> 'p::ab_group_add ecurve \<Rightarrow> string \<Rightarrow> 'p ac_t \<Rightarrow> string list \<Rightarrow> nat \<Rightarrow> (nat \<Rightarrow> bool) \<Rightarrow> bytes \<Rightarrow> bool \<Rightarrow> string list
     \<Rightarrow> 'p key_share_mp_t \<Rightarrow> 'r \<Rightarrow> ('p, 'p key_share_mp_t \<times> bytes \<times> 'r) protocol" where
  "dkg_or_refresh_ac P c curve_name ac names me quorum sid is_refresh keys key r =
     do_res (ac_validate_tree ac) (\<lambda>_.
     let qs = List.filter quorum [0..<length names]
     in do_res (ac_enough_for_quorum ac (set (map ((!) names) qs))) (\<lambda>enough.
        if \<not> enough then Return (error E_BADARG)
        else if sid = [] then do_call (generate_sid_fixed_mp P r) (\<lambda>(sid, r). ac_with_sid P c curve_name ac names me qs is_refresh keys key sid r)
        else ac_with_sid P c curve_name ac names me qs is_refresh keys key sid r))"

definition new_key_share :: "'p::ab_group_add ecurve \<Rightarrow> 'p key_share_mp_t" where
  "new_key_share c = \<lparr>x_share = 0, key_Q = 0, Qis = Map.empty, key_curve = c, party_name = []\<rparr>"

definition dkg_ac where
  "dkg_ac P c curve_name ac names me quorum sid r =
     dkg_or_refresh_ac P c curve_name ac names me quorum sid False [] (new_key_share c) r"

definition refresh_ac where
  "refresh_ac P c curve_name ac names me quorum sid keys key r =
     dkg_or_refresh_ac P c curve_name ac names me quorum sid True keys key r"

section \<open>Among arbitrary parties\<close>

text \<open>A call that succeeds has checked every dealing of the quorum and ended with the sums.\<close>

lemma ac_success:
  assumes "against i envs (dkg_or_refresh_ac P c cn ac names i quorum sid is_refresh keys key r) = Some (Inr (key', sid', r'))"
  shows "\<exists>sid cs second pubs Q x Qs.
    map_res (ac_check P c ac names i (List.filter quorum [0..<length names]) is_refresh sid cs second) (List.filter quorum [0..<length names]) = Inr pubs
    \<and> ac_Qis names pubs = Inr Qs \<and> ac_key P c ac names i is_refresh keys key Q x Qs = Inr key' \<and> (\<exists>nms. ac_validate_tree ac = Inr nms)"
proof -
  let ?qs = "List.filter quorum [0..<length names]"
  let ?w = "\<lambda>sid r. ac_with_sid P c cn ac names i ?qs is_refresh keys key sid r"
  obtain nms where val: "ac_validate_tree ac = Inr nms"
    using assms by (auto simp: dkg_or_refresh_ac_def against_do_res)
  have "\<exists>envs sid r. against i envs (?w sid r) = Some (Inr (key', sid', r'))"
    using assms reaches_call [of i envs "generate_sid_fixed_mp P r" "\<lambda>(sid, r). ?w sid r"]
    by (auto simp: dkg_or_refresh_ac_def against_do_res against_Return Let_def split: if_splits)
  then obtain envs1 sid1 r1 where 1: "against i envs1 (?w sid1 r1) = Some (Inr (key', sid', r'))" by blast
  then obtain envs2 h hs where 2: "against i envs2 (ac_second P c ac names i ?qs is_refresh keys key sid1 h r1 hs) = Some (Inr (key', sid', r'))"
    using reaches_bcast [OF 1 [unfolded ac_with_sid_def Let_def]] by blast
  then obtain d r2 where 3: "against i envs2 (bcast dec_buf (\<lambda>_. [VBuf (com_msg (deal_com d))])
      (ac_third P c ac names i ?qs is_refresh keys key sid1 d r2)) = Some (Inr (key', sid', r'))"
    by (auto simp: ac_second_def against_do_search against_Return split: if_splits)
  obtain envs3 cs where 4: "against i envs3 (ac_third P c ac names i ?qs is_refresh keys key sid1 d r2 cs) = Some (Inr (key', sid', r'))"
    using reaches_bcast [OF 3] by blast
  obtain envs4 second where "against i envs4 (ac_finish P c ac names i ?qs is_refresh keys key sid1 cs r2 second) = Some (Inr (key', sid', r'))"
    using reaches_bcast [OF 4 [unfolded ac_third_def]] by blast
  then show ?thesis using val by (auto simp: ac_finish_def against_do_res against_Return) blast
qed

lemma add_point_dom: "add_point pub nm Qs = Inr Qs' \<Longrightarrow> dom Qs' = insert nm (dom Qs)"
  by (auto simp: add_point_def bind_res_eq_Inr)

lemma add_points_dom: "fold_res (add_point pub) nms Qs = Inr Qs' \<Longrightarrow> set nms \<subseteq> dom Qs \<Longrightarrow> dom Qs' = dom Qs"
proof (induction nms arbitrary: Qs)
  case (Cons nm nms)
  then obtain Qs1 where Qs1: "add_point pub nm Qs = Inr Qs1" "fold_res (add_point pub) nms Qs1 = Inr Qs'"
    by (auto simp: bind_res_eq_Inr)
  then have "dom Qs1 = dom Qs" using add_point_dom [OF Qs1(1)] Cons.prems(2) by auto
  then show ?case using Cons.IH [OF Qs1(2)] Cons.prems(2) by simp
qed simp

lemma ac_Qis_dom:
  assumes "ac_Qis names pubs = Inr Qs"
  shows "dom Qs = set names"
proof -
  have "dom Qs = set names" if "fold_res (\<lambda>pub Qs. fold_res (add_point pub) names Qs) pubs Qs0 = Inr Qs" "dom Qs0 = set names" for Qs0
    using that
  proof (induction pubs arbitrary: Qs0)
    case (Cons pub pubs)
    from Cons.prems(1) obtain Qs1 where Qs1: "fold_res (add_point pub) names Qs0 = Inr Qs1"
      "fold_res (\<lambda>pub Qs. fold_res (add_point pub) names Qs) pubs Qs1 = Inr Qs"
      by (auto simp: bind_res_eq_Inr)
    from Cons.IH [OF Qs1(2)] add_points_dom [OF Qs1(1)] Cons.prems(2) show ?case by simp
  qed simp
  with assms show ?thesis unfolding ac_Qis_def by (auto simp: dom_def)
qed

lemma dkg_ac_success:
  assumes "against i envs (dkg_ac P c cn ac names i quorum sid r) = Some (Inr (key, sid', r'))"
  shows "Qis key (names ! i) = Some (smul (x_share key) (generator c)) \<and> dom (Qis key) = set names
    \<and> reconstruct_exponent (pr_inv P) (pr_pid P) (check_inf P) ac (sort (remdups names)) (Qis key) = Inr (key_Q key)
    \<and> party_name key = names ! i \<and> key_curve key = c"
proof -
  obtain pubs Q x Qs where Qs: "ac_Qis names pubs = Inr Qs" "ac_key P c ac names i False [] (new_key_share c) Q x Qs = Inr key"
    using ac_success [OF assms [unfolded dkg_ac_def]] by blast
  have dom: "dom Qs = set names" by (rule ac_Qis_dom [OF Qs(1)])
  then have "Qs |` set names = Qs" by (auto simp: restrict_map_def fun_eq_iff) (metis domIff)
  with Qs(2) have "Qs (names ! i) = Some (smul x (generator c))"
    "reconstruct_exponent (pr_inv P) (pr_pid P) (check_inf P) ac (sort (remdups names)) Qs = Inr Q"
    "key = \<lparr>x_share = x, key_Q = Q, Qis = Qs, key_curve = c, party_name = names ! i\<rparr>"
    by (auto simp: ac_key_def Let_def bind_res_eq_Inr split: if_splits)
  with dom show ?thesis by simp
qed

text \<open>A refresh keeps the public key; the share and the own public share move together.\<close>

lemma refresh_ac_success:
  assumes "against i envs (refresh_ac P c cn ac names i quorum sid keys key r) = Some (Inr (key', sid', r'))"
    and G: "smul (order c) (generator c) = 0"
    and key: "Qis key (names ! i) = Some (smul (x_share key) (generator c))" "distinct names" "i < length names"
  shows "Qis key' (names ! i) = Some (smul (x_share key') (generator c)) \<and> key_Q key' = key_Q key
    \<and> reconstruct_exponent (pr_inv P) (pr_pid P) (check_inf P) ac (sort (remdups (keys @ names))) (Qis key') = Inr (key_Q key)
    \<and> party_name key' = names ! i"
proof -
  let ?f = "\<lambda>Qs nm m. m(nm \<mapsto> (case m nm of None \<Rightarrow> 0 | Some Q \<Rightarrow> Q) + (case Qs nm of None \<Rightarrow> 0 | Some Q \<Rightarrow> Q))"
  obtain Q x Qs where Qs: "ac_key P c ac names i True keys key Q x Qs = Inr key'"
    using ac_success [OF assms(1) [unfolded refresh_ac_def]] by blast
  have "fold (?f Qs) nms m nm = (if nm \<in> set nms then Some ((case m nm of None \<Rightarrow> 0 | Some Q \<Rightarrow> Q) + (case Qs nm of None \<Rightarrow> 0 | Some Q \<Rightarrow> Q)) else m nm)"
    if "distinct nms" for nms m nm
    using that by (induction nms arbitrary: m) auto
  from this [OF key(2), of "Qis key" "names ! i"] have own: "fold (?f Qs) names (Qis key) (names ! i)
      = Some (smul (x_share key) (generator c) + (case Qs (names ! i) of None \<Rightarrow> 0 | Some Q \<Rightarrow> Q))" using key(1,3) by simp
  from Qs obtain y where y: "Qs (names ! i) = Some (smul x (generator c))" "mod_add False (order c) (x_share key) x = Inr y"
    "key' = key\<lparr>x_share := y, Qis := fold (?f Qs) names (Qis key), party_name := names ! i\<rparr>"
    "reconstruct_exponent (pr_inv P) (pr_pid P) (check_inf P) ac (sort (remdups (keys @ names))) (fold (?f Qs) names (Qis key)) = Inr (key_Q key)"
    by (auto simp: ac_key_def Let_def bind_res_eq_Inr split: if_splits)
  have "y = (x_share key + x) mod order c" using y(2) by (auto simp: mod_add_def mod_check_def bind_res_eq_Inr cb_assert_def split: if_splits)
  then show ?thesis using y own by (simp add: smul_mod [OF G] smul_add)
qed

section \<open>A refresh below an OR node\<close>

text \<open>
  In a refresh the value of the root is zero, and so is that of the children of a root of type OR. Their points are at infinity, which the check
  of the points refuses: such a structure can generate keys, but not refresh them.
\<close>

lemma find_path_last:
  "find_path t name = Some path \<Longrightarrow> path \<noteq> [] \<and> last path = t"
  "find_path_list ts name = Some path \<Longrightarrow> path \<noteq> [] \<and> last path \<in> set ts"
  by (induction t name and ts name arbitrary: path and path rule: find_path_find_path_list.induct)
     (auto split: option.splits if_splits simp: last_append)

lemma verify_node_value: "verify_node bn_inv pid q pub_data node e = Inr e' \<Longrightarrow> pub_data (nname node) = Some e'"
  by (auto simp: verify_node_def Let_def bind_res_eq_Inr pub_lookup_def split: option.splits)

lemma verify_node_or: "verify_node bn_inv pid q pub_data (Node OR nm th ch) e = Inr e' \<Longrightarrow> e = e'"
  by (auto simp: verify_node_def Let_def bind_res_eq_Inr split: if_splits)

lemma verify_share_or_root:
  assumes run: "verify_share_against_ancestors_pub_data bn_inv pid ac same Q si (map_of (map_put nm 0 pub)) leaf = success"
    and ac: "root ac = Some (Node OR nm th ch)" and t: "distinct (node_names (Node OR nm th ch))"
    and Q: "map_at (map_put nm 0 pub) nm = Inr Q"
  shows "0 \<in> set (map snd pub)"
proof -
  let ?t = "Node OR nm th ch" and ?m = "map_of (map_put nm 0 pub)"
  obtain c :: "_ ecurve" and path where path: "find_path ?t leaf = Some path" "ntype (hd path) = LEAF"
    "fold_res (verify_node bn_inv pid (order c) ?m) path (smul si (generator c)) = Inr Q"
    using run unfolding verify_share_against_ancestors_pub_data_def ac option.case
    by (auto simp: bind_res_eq_Inr simp del: find_path.simps split: option.splits if_splits)
  have "nm \<noteq> leaf" using path(1,2) by auto
  then obtain p where p: "find_path_list ch leaf = Some p" "path = p @ [?t]" using path(1) by (auto split: option.splits)
  obtain ps n where n: "p = ps @ [n]" "n \<in> set ch" using find_path_last(2) [OF p(1)] by (metis append_butlast_last_id)
  have "nname n \<noteq> nm" using t n(2) nname_in_node_names [of n] by force
  obtain e where e: "fold_res (verify_node bn_inv pid (order c) ?m) ps (smul si (generator c)) = Inr e"
    "verify_node bn_inv pid (order c) ?m n e = Inr Q"
    using path(3) p(2) n(1) verify_node_or by (fastforce simp: fold_res_append bind_res_eq_Inr)
  have "Q = 0" using Q by (simp add: map_at_def map_put_def)
  with verify_node_value [OF e(2)] \<open>nname n \<noteq> nm\<close> have "map_of (map_erase nm pub) (nname n) = Some 0" by (simp add: map_put_def map_erase_def)
  then have "(nname n, 0) \<in> set pub" by (auto simp: map_erase_def dest: map_of_SomeD)
  then show ?thesis by force
qed

lemma refresh_ac_or_root:
  assumes run: "against i envs (refresh_ac P c cn ac names i quorum sid keys key r) = Some (Inr y)"
    and ac: "root ac = Some (Node OR nm th ch)" and j: "j < length names" "j \<noteq> i" "quorum j"
  shows "pr_check P 0 = success"
proof -
  let ?qs = "List.filter quorum [0..<length names]"
  obtain sid' cs second pubs nms where ok: "map_res (ac_check P c ac names i ?qs True sid' cs second) ?qs = Inr pubs" "ac_validate_tree ac = Inr nms"
    using run unfolding refresh_ac_def by (metis (no_types) ac_success prod.exhaust)
  have t: "distinct (node_names (Node OR nm th ch))"
    using ok(2) ac validated_root(2) [of False "Node OR nm th ch" nms]
    by (auto simp: ac_validate_tree_def simp del: validate_tree.simps node_names.simps split: option.splits)
  have "j \<in> set ?qs" using j by simp
  then obtain pub' where "ac_check P c ac names i ?qs True sid' cs second j = Inr pub'"
    using ok(1) by (metis (no_types, lifting) in_set_conv_nth map_res_nth map_res_length)
  then obtain pub si Q where *: "fold_res (\<lambda>R _. pr_check P R) (map snd pub) () = success" "map_at (map_put nm 0 pub) nm = Inr Q"
    "verify_share_against_ancestors_pub_data (pr_inv P) (pr_pid P) ac (curve ac = Some c) Q si (map_of (map_put nm 0 pub)) (names ! i) = success"
    using j(2) ac by (auto simp: ac_check_def root_name_def Let_def bind_res_eq_Inr split: prod.splits if_splits)
  show ?thesis using fold_res_all [OF *(1) verify_share_or_root [OF *(3) ac t *(2)]] .
qed

end
