(* ===== verification/Dkg_Ac_Run.thy ===== *)
theory Dkg_Ac_Run
  imports Dkg_Ac
begin

text \<open>
  Honest runs of the key generation and refresh over an access structure. The values that the members of a quorum share add up, node by node, to
  the values of one sharing; every party ends with its share of it. A quorum then turns such shares into additive ones.
\<close>

section \<open>Honest runs\<close>

text \<open>Some attempt of the batched prover can succeed, whatever is proved.\<close>

definition batch_ready :: "('p, 'r) prims \<Rightarrow> 'p::ab_group_add ecurve \<Rightarrow> bool" where
  "batch_ready P c \<longleftrightarrow> (\<forall>w sid aux r. \<exists>m. batch_lucky (pr_fischlin P) (pr_batch_oracle P) c w sid aux
     (nonces (pr_gen P) (order c) (nat (fp_rho (batch_params (int (length w))))) m r))"

text \<open>An access structure over the curve whose parties are the leaves, of a size the batched proof can handle.\<close>

definition ac_ready :: "('p, 'r) prims \<Rightarrow> 'p::ab_group_add ecurve \<Rightarrow> 'p ac_t \<Rightarrow> node_t \<Rightarrow> string list \<Rightarrow> bool" where
  "ac_ready P c ac t names \<longleftrightarrow> root ac = Some t \<and> curve ac = Some c \<and> (\<exists>nms. validate_tree False t {} = Inr nms)
     \<and> pids_ok (order c) (pr_pid P) t \<and> distinct names \<and> set names = list_leaf_names t \<and> nchildren t \<noteq> []
     \<and> int (length (node_names t)) \<le> 2 ^ 20 \<and> int (length (node_names t)) < 2 * order c - 1"

definition dealt_names :: "node_t \<Rightarrow> bool \<Rightarrow> string list" where
  "dealt_names t is_refresh = List.filter (\<lambda>nm. is_refresh \<longrightarrow> nm \<noteq> nname t) (sort (node_names t))"

text \<open>
  No value dealt from the state \<open>r\<close> of the generator is a multiple of the order: \<^verbatim>\<open>curve.check\<close> refuses the point at infinity. Since the root of a refresh
  is not dealt, this can hold there too, except below a root of type OR.
\<close>

definition finite_deal :: "('p, 'r) prims \<Rightarrow> 'p::ab_group_add ecurve \<Rightarrow> 'p ac_t \<Rightarrow> bool \<Rightarrow> 'r \<Rightarrow> bool" where
  "finite_deal P c ac is_refresh r \<longleftrightarrow>
     (let (x, r) = (if is_refresh then (0, r) else pr_gen P (order c) r)
      in \<forall>st. share_with_internals (pr_gen P) (pr_pid P) ac (order c) x r = Inr st
           \<longrightarrow> (\<forall>nm. (is_refresh \<longrightarrow> nm \<noteq> root_name ac) \<longrightarrow> ac_internal_pub_shares st nm \<noteq> Some 0))"

text \<open>The state of the generator when a party deals, after its contribution to the session identifier if none was given.\<close>

definition deal_state :: "('p, 'r) prims \<Rightarrow> bytes \<Rightarrow> 'r \<Rightarrow> 'r" where
  "deal_state P sid r = (if sid = [] then snd (pr_bytes P 16 r) else r)"

text \<open>An honest dealing of the values \<open>v\<close>.\<close>

definition honest_deal ::
  "('p, 'r) prims \<Rightarrow> 'p::ab_group_add ecurve \<Rightarrow> node_t \<Rightarrow> string list \<Rightarrow> nat \<Rightarrow> bool \<Rightarrow> bytes \<Rightarrow> (string \<Rightarrow> int) \<Rightarrow> 'p deal \<Rightarrow> bool" where
  "honest_deal P c t names j is_refresh sid v d \<longleftrightarrow>
     consistent (order c) (pr_pid P) v t \<and> (\<forall>n\<in>set (node_names t). is_in_range (order c) (v n)) \<and> (is_refresh \<longrightarrow> v (nname t) = 0)
     \<and> deal_x d = map v names \<and> deal_pub d = map (\<lambda>nm. (nm, smul (v nm) (generator c))) (dealt_names t is_refresh)
     \<and> 0 \<notin> set (map snd (deal_pub d))
     \<and> batch_verify P c (map snd (deal_pub d)) sid (word_of_nat j) (deal_pi d) = success \<and> length (com_rand (deal_com d)) = 32
     \<and> com_open (pr_hmac P) [VList (map VPoint (map snd (deal_pub d))), VBatch (deal_pi d)]
         (com_set (com_rand (deal_com d)) (com_msg (deal_com d)) (com_new_pid (pr_pid P (names ! j)))) = success"

lemma map_entries_map:
  assumes "distinct nms" "\<And>nm. nm \<in> set nms \<Longrightarrow> m nm = Some (f nm)"
  shows "map_entries nms m = map (\<lambda>nm. (nm, f nm)) (sort nms)"
proof -
  have "List.map_filter (\<lambda>nm. map_option (Pair nm) (m nm)) xs = map (\<lambda>nm. (nm, f nm)) xs" if "set xs \<subseteq> set nms" for xs
    using that assms(2) by (induction xs) (auto simp: List.map_filter_simps)
  from this [of "sort nms"] show ?thesis by (simp add: map_entries_def distinct_remdups_id [OF assms(1)])
qed

lemma dealt_names_facts:
  assumes "ac_ready P c ac t names"
  shows "distinct (dealt_names t b)" "sorted (dealt_names t b)" "set (dealt_names t b) = set (node_names t) - (if b then {nname t} else {})"
    "dealt_names t b \<noteq> []" "length (dealt_names t b) \<le> length (node_names t)"
proof -
  obtain nms where val: "validate_tree False t {} = Inr nms" using assms by (auto simp: ac_ready_def)
  have d: "distinct (node_names t)" by (rule validated_root(2) [OF val])
  show "distinct (dealt_names t b)" "sorted (dealt_names t b)" using d by (simp_all add: dealt_names_def sorted_wrt_filter)
  show set: "set (dealt_names t b) = set (node_names t) - (if b then {nname t} else {})" by (auto simp: dealt_names_def)
  show "length (dealt_names t b) \<le> length (node_names t)" by (simp add: dealt_names_def) (metis length_filter_le length_sort)
  obtain ty nm th x xs where t: "t = Node ty nm th (x # xs)"
    using assms by (cases t; cases "nchildren t") (auto simp: ac_ready_def)
  have "nname x \<in> set (node_names t) - {nname t}" using t d nname_in_node_names [of x] by auto
  then show "dealt_names t b \<noteq> []" using set by (metis (full_types) Diff_iff empty_iff list.set(1))
qed

lemma ac_deal_honest:
  fixes c :: "'p::ab_group_add ecurve" and P :: "('p, 'r) prims"
  assumes P: "good_prims P" "zk_ready P c" "batch_ready P c" and ac: "ac_ready P c ac t names" and fin: "finite_deal P c ac is_refresh r"
  shows "\<exists>d r' v. ac_deal P c ac names j is_refresh sid r = Some (Inr (d, r')) \<and> honest_deal P c t names j is_refresh sid v d"
proof -
  let ?q = "order c" and ?G = "generator c" and ?pid = "pr_pid P" and ?ns = "dealt_names t is_refresh"
  note zk = zk_readyD [OF P(2)]
  obtain x r0 where x: "(if is_refresh then (0, r) else pr_gen P ?q r) = (x, r0)" by fastforce
  have xr: "is_in_range ?q x" using x zk(2) zk(6) [of r] by (auto simp: is_in_range_def split: if_splits)
  obtain nms where val: "validate_tree False t {} = Inr nms" and t: "root ac = Some t" "curve ac = Some c" "pids_ok ?q ?pid t"
    "set names = list_leaf_names t" "int (length (node_names t)) \<le> 2 ^ 20" "int (length (node_names t)) < 2 * ?q - 1"
    using ac by (auto simp: ac_ready_def)
  obtain st v where v: "share_recursive (pr_gen P) ?pid ?q ?G True t x (init_share_state r0) = Inr st"
    "v (nname t) = x" "consistent ?q ?pid v t" "\<forall>n\<in>set (node_names t). is_in_range ?q (v n)"
    "ac_shares st = (\<lambda>n. if n \<in> list_leaf_names t then Some (v n) else None)"
    "ac_internal_shares st = (\<lambda>n. if True \<and> n \<in> set (node_names t) then Some (v n) else None)"
    "ac_internal_pub_shares st = (\<lambda>n. if True \<and> n \<in> set (node_names t) then Some (smul (v n) ?G) else None)"
    using share_root [where G = ?G and out = True, OF zk(3) zk(1) val t(3) xr] by blast
  note ns = dealt_names_facts [OF ac, of is_refresh]
  let ?pub = "map (\<lambda>nm. (nm, smul (v nm) ?G)) ?ns" and ?w = "map v ?ns"
  have entries: "map_entries (ac_names ac) (ac_internal_pub_shares st) = map (\<lambda>nm. (nm, smul (v nm) ?G)) (sort (node_names t))"
    using map_entries_map [OF validated_root(2) [OF val], of "ac_internal_pub_shares st" "\<lambda>nm. smul (v nm) ?G"] t(1)
    by (simp add: ac_names_def v(7))
  have pub: "(if is_refresh then map_erase (root_name ac) (map_entries (ac_names ac) (ac_internal_pub_shares st))
      else map_entries (ac_names ac) (ac_internal_pub_shares st)) = ?pub"
    unfolding entries by (simp add: map_erase_def dealt_names_def root_name_def t(1) filter_map o_def)
  have rs: "map_res (\<lambda>(nm, _). case ac_internal_shares st nm of None \<Rightarrow> Inl Out_Of_Bounds | Some s \<Rightarrow> Inr s) ?pub = Inr ?w"
    by (subst map_res_Inr [where g = "\<lambda>(nm, _). v nm"]) (use ns(3) in \<open>auto simp: v(6)\<close>)
  have w: "map snd ?pub = commitments ?G ?w" by (simp add: commitments_def o_def)
  have sw: "share_with_internals (pr_gen P) ?pid ac ?q x r0 = Inr st" using v(1) t(1,2) by (simp add: share_with_internals_def)
  have "smul (v nm) ?G \<noteq> 0" if "nm \<in> set ?ns" for nm
  proof -
    have "ac_internal_pub_shares st nm \<noteq> Some 0"
      using fin sw ns(3) t(1) that unfolding finite_deal_def x Let_def prod.case by (simp add: root_name_def split: if_splits)
    then show ?thesis using ns(3) that by (simp add: v(7) split: if_splits)
  qed
  then have finite: "0 \<notin> set (map snd ?pub)" by auto
  obtain m where "batch_lucky (pr_fischlin P) (pr_batch_oracle P) c ?w sid (word_of_nat j)
      (nonces (pr_gen P) ?q (nat (fp_rho (batch_params (int (length ?w))))) m (rng st))"
    using P(3) unfolding batch_ready_def by blast
  note luck = this
  have half: "(int (length ?w) + 1) div 2 < ?q" using ns(5) t(6) by auto
  obtain pf r1 where pf: "batch_prove P c (map snd ?pub) ?w sid (word_of_nat j) (rng st) = Some (Inr (pf, r1))"
    "batch_verify P c (map snd ?pub) sid (word_of_nat j) pf = success"
    using batch_dl_complete [OF zk(1) _ zk(3,4) _ _ finite [unfolded w] _ _ _ _ luck, where check = "pr_check P"] P(2) ns(3,4,5) t(5) half v(4)
    unfolding batch_prove_def batch_verify_def w by (auto simp: zk_ready_def list_all_iff split: if_splits)
  obtain com r2 where com: "com_gen (pr_hmac P) (pr_bytes P) [VList (map (\<lambda>(_, R). VPoint R) ?pub), VBatch pf] (com_new_pid (?pid (names ! j))) r1 = Inr (com, r2)"
    "length (com_rand com) = 32"
    "com_open (pr_hmac P) [VList (map (\<lambda>(_, R). VPoint R) ?pub), VBatch pf] (com_set (com_rand com) (com_msg com) (com_new_pid (?pid (names ! j)))) = success"
    using com_opens [of "pr_hmac P" "pr_bytes P" "com_new_pid (?pid (names ! j))" "com_new_pid (?pid (names ! j))"
        "[VList (map (\<lambda>(_, R). VPoint R) ?pub), VBatch pf]" r1] good_primsD [OF P(1)]
    by (auto simp: com_new_pid_def same_ids_def)
  have xs: "map (\<lambda>nm. case ac_shares st nm of None \<Rightarrow> 0 | Some x \<Rightarrow> x) names = map v names" using t(4) by (simp add: v(5))
  have "ac_deal P c ac names j is_refresh sid r = Some (Inr (\<lparr>deal_x = map v names, deal_pub = ?pub, deal_pi = pf, deal_com = com\<rparr>, r2))"
    unfolding ac_deal_def x Let_def prod.case sw lift_res_def sum.case pub xs rs pf(1) option.case com(1) ..
  moreover have "honest_deal P c t names j is_refresh sid v \<lparr>deal_x = map v names, deal_pub = ?pub, deal_pi = pf, deal_com = com\<rparr>"
    using v(2-4) finite pf(2) com(2,3) x by (simp add: honest_deal_def o_def split: if_splits)
  ultimately show ?thesis by blast
qed

text \<open>The points of an honest dealing, as its receivers see them.\<close>

lemma leaf_not_root:
  assumes "ac_ready P c ac t names" "nm \<in> set names"
  shows "nm \<in> set (node_names t)" "nm \<noteq> nname t"
proof -
  obtain nms where val: "validate_tree False t {} = Inr nms" using assms(1) by (auto simp: ac_ready_def)
  obtain ty rn th ch where t: "t = Node ty rn th ch" by (cases t)
  have "ty \<noteq> LEAF" using validated_root(1) [OF val] assms(1) t by (auto simp: ac_ready_def)
  then obtain x where x: "x \<in> set ch" "nm \<in> list_leaf_names x" using assms t by (auto simp: ac_ready_def)
  then have "nm \<in> set (node_names x)" using leaf_names_subset by blast
  then show "nm \<in> set (node_names t)" "nm \<noteq> nname t" using x(1) t validated_root(2) [OF val] by auto
qed

definition seen_pub :: "'p::zero ac_t \<Rightarrow> bool \<Rightarrow> 'p deal \<Rightarrow> (string \<times> 'p) list" where
  "seen_pub ac added d = (if added then map_put (root_name ac) 0 (deal_pub d) else deal_pub d)"

lemma seen_pub_at:
  assumes "ac_ready P c ac t names" "honest_deal P c t names j is_refresh sid v d" "nm \<in> set (node_names t)"
    "nm \<noteq> nname t \<or> \<not> is_refresh \<or> added" "added \<longrightarrow> is_refresh"
  shows "map_of (seen_pub ac added d) nm = Some (smul (v nm) (generator c))"
proof -
  have rt: "root_name ac = nname t" using assms(1) by (simp add: ac_ready_def root_name_def)
  have pub: "map_of (deal_pub d) nm = Some (smul (v nm) (generator c))" if "nm \<noteq> nname t \<or> \<not> is_refresh"
    using assms(2,3) dealt_names_facts(3) [OF assms(1), of is_refresh] that by (auto simp: honest_deal_def map_of_map_restrict)
  have erase: "map_of (List.filter (\<lambda>(k, _). k \<noteq> r) m) nm = (if nm = r then None else map_of m nm)" for r and m :: "(string \<times> 'a) list"
    by (induction m) auto
  show ?thesis using assms(2,4,5) pub by (auto simp: seen_pub_def map_put_def rt honest_deal_def erase)
qed

lemma ac_check_honest:
  fixes c :: "'p::ab_group_add ecurve" and P :: "('p, 'r) prims"
  assumes inv: "mod_inverse (pr_inv P)" and q: "field_modulus (order c)" and zk: "zk_ready P c" and ac: "ac_ready P c ac t names"
    and d: "honest_deal P c t names j is_refresh sid v d" and i: "i < length names"
    and second: "second ! j = (h, deal_pub d, deal_pi d, com_rand (deal_com d), deal_x d ! i)" "fst (second ! last qs) = h"
    and cs: "cs ! j = com_msg (deal_com d)"
  shows "ac_check P c ac names i qs is_refresh sid cs second j = Inr (seen_pub ac (is_refresh \<and> j \<noteq> i) d)"
proof (cases "j = i")
  case False
  let ?pub = "seen_pub ac is_refresh d" and ?G = "generator c"
  obtain nms where val: "validate_tree False t {} = Inr nms" and t: "root ac = Some t" "curve ac = Some c" "pids_ok (order c) (pr_pid P) t"
    "set names = list_leaf_names t"
    using ac by (auto simp: ac_ready_def)
  have leaf: "names ! i \<in> list_leaf_names t" using i t(4) by (metis nth_mem)
  have pub: "map_of ?pub n = Some (smul (v n) ?G)" if "n \<in> set (node_names t)" for n
    by (rule seen_pub_at [OF ac d that]) simp_all
  have Q: "map_at ?pub (root_name ac) = Inr (smul (v (nname t)) ?G)"
    using pub [OF nname_in_node_names] t(1) by (simp add: map_at_def root_name_def)
  obtain path where path: "find_path t (names ! i) = Some path" "ntype (hd path) = LEAF"
    using find_path_leaf [OF validated_root(2) [OF val] leaf] by blast
  have "fold_res (verify_node (pr_inv P) (pr_pid P) (order c) (map_of ?pub)) path (smul (v (names ! i)) ?G) = Inr (smul (v (nname t)) ?G)"
    using d pub by (intro mod_inverse.verify_path_honest(1) [OF inv q zk_readyD(4) [OF zk] path(1) validated_root(1) [OF val] t(3)])
      (simp_all add: honest_deal_def)
  then have verify: "verify_share_against_ancestors_pub_data (pr_inv P) (pr_pid P) ac (curve ac = Some c) (smul (v (nname t)) ?G)
      (v (names ! i)) (map_of ?pub) (names ! i) = success"
    using t(1,2) path by (simp add: verify_share_against_ancestors_pub_data_def)
  have check: "fold_res (\<lambda>R _. pr_check P R) (map snd (deal_pub d)) () = success"
    using d zk unfolding honest_deal_def zk_ready_def by (intro accepts_points) blast+
  have d': "com_open (pr_hmac P) [VList (map VPoint (map snd (deal_pub d))), VBatch (deal_pi d)]
         (com_set (com_rand (deal_com d)) (com_msg (deal_com d)) (com_new_pid (pr_pid P (names ! j)))) = success"
    "batch_verify P c (map snd (deal_pub d)) sid (word_of_nat j) (deal_pi d) = success" "deal_x d ! i = v (names ! i)"
    using d i unfolding honest_deal_def by (blast, blast, simp)
  show ?thesis
    using False Q verify check d' second(2)
    unfolding ac_check_def second(1) cs seen_pub_def by (simp add: Let_def cong: if_cong)
next
  case True
  then show ?thesis using second by (simp add: ac_check_def seen_pub_def)
qed

text \<open>The sums over the dealings.\<close>

lemma ac_sum_value:
  assumes "0 < q" "\<And>j. j \<in> set js \<Longrightarrow> is_in_range q (x j)"
    and "\<And>j. j \<in> set js \<Longrightarrow> \<not> is_refresh \<Longrightarrow> map_at (pub j) rt = Inr (smul (z j) G)"
  shows "ac_sum q rt is_refresh (map (\<lambda>j. (pub j, x j)) js) = Inr (if is_refresh then 0 else smul (\<Sum>j\<leftarrow>js. z j) G, (\<Sum>j\<leftarrow>js. x j) mod q)"
proof -
  let ?f = "\<lambda>(pub, x) (Q, x_i). bind_res (if is_refresh then Inr Q else bind_res (map_at pub rt) (\<lambda>R. Inr (Q + R))) (\<lambda>Q.
       bind_res (mod_add False q x_i x) (\<lambda>x_i. Inr (Q, x_i)))"
  have "fold_res ?f (map (\<lambda>j. (pub j, x j)) js) (Q, s mod q)
      = Inr (if is_refresh then Q else Q + smul (\<Sum>j\<leftarrow>js. z j) G, (s + (\<Sum>j\<leftarrow>js. x j)) mod q)" for Q s
    using assms(2,3)
  proof (induction js arbitrary: Q s)
    case (Cons j js)
    have "?f (pub j, x j) (Q, s mod q) = Inr (if is_refresh then Q else Q + smul (z j) G, (s + x j) mod q)"
      using Cons.prems assms(1) by (simp add: mod_simps is_in_range_mod mod_add_left_eq)
    then show ?case using Cons.IH [of "if is_refresh then Q else Q + smul (z j) G" "s + x j"] Cons.prems
      by (simp add: smul_add add.assoc)
  qed simp
  from this [of 0 0] show ?thesis by (simp add: ac_sum_def)
qed

lemma add_points_value:
  assumes "distinct nms" "\<And>nm. nm \<in> set nms \<Longrightarrow> map_at pub nm = Inr (R nm)"
  shows "fold_res (add_point pub) nms Qs = Inr (\<lambda>nm. if nm \<in> set nms then Some ((case Qs nm of None \<Rightarrow> 0 | Some Q \<Rightarrow> Q) + R nm) else Qs nm)"
  using assms by (induction nms arbitrary: Qs) (auto simp: add_point_def fun_eq_iff)

lemma ac_Qis_value:
  assumes "distinct names" "\<And>j nm. j \<in> set js \<Longrightarrow> nm \<in> set names \<Longrightarrow> map_at (pub j) nm = Inr (smul (z j nm) G)"
  shows "ac_Qis names (map pub js) = Inr (\<lambda>nm. if nm \<in> set names then Some (smul (\<Sum>j\<leftarrow>js. z j nm) G) else None)"
proof -
  have "fold_res (\<lambda>pub Qs. fold_res (add_point pub) names Qs) (map pub js) (\<lambda>nm. if nm \<in> set names then Some (f nm) else None)
      = Inr (\<lambda>nm. if nm \<in> set names then Some (f nm + smul (\<Sum>j\<leftarrow>js. z j nm) G) else None)" for f
    using assms(2)
  proof (induction js arbitrary: f)
    case (Cons j js)
    have "fold_res (add_point (pub j)) names (\<lambda>nm. if nm \<in> set names then Some (f nm) else None)
        = Inr (\<lambda>nm. if nm \<in> set names then Some (f nm + smul (z j nm) G) else None)"
      by (subst add_points_value [OF assms(1), where R = "\<lambda>nm. smul (z j nm) G"]) (use Cons.prems in \<open>auto simp: fun_eq_iff\<close>)
    then show ?case using Cons.IH [of "\<lambda>nm. f nm + smul (z j nm) G"] Cons.prems by (simp add: smul_add add.assoc cong: if_cong)
  qed (simp cong: if_cong)
  from this [of "\<lambda>_. 0"] show ?thesis by (simp add: ac_Qis_def cong: if_cong)
qed

lemma consistent_zero: "consistent q pid (\<lambda>_. 0) t"
proof (induction t)
  case (Node ty nm th ch)
  then show ?case by (auto simp: list_all_iff intro!: exI [of _ "[]"] split: node_e.splits)
qed

lemma consistent_sum:
  "(\<And>j. j \<in> set js \<Longrightarrow> consistent q pid (v j) t) \<Longrightarrow> consistent q pid (\<lambda>n. (\<Sum>j\<leftarrow>js. v j n) mod q) t"
proof (induction js)
  case Nil
  then show ?case by (simp add: consistent_zero)
next
  case (Cons j js)
  then have "consistent q pid (\<lambda>n. (v j n + (\<Sum>j\<leftarrow>js. v j n) mod q) mod q) t" by (intro consistent_add) simp_all
  then show ?case by (simp add: mod_add_right_eq)
qed

text \<open>A key shared over the tree: \<open>v\<close> gives the value of every node.\<close>

definition shared_key ::
  "('p, 'r) prims \<Rightarrow> 'p::ab_group_add ecurve \<Rightarrow> node_t \<Rightarrow> string list \<Rightarrow> (string \<Rightarrow> int) \<Rightarrow> nat \<Rightarrow> 'p key_share_mp_t \<Rightarrow> bool" where
  "shared_key P c t names v i key \<longleftrightarrow> consistent (order c) (pr_pid P) v t \<and> (\<forall>n\<in>set (node_names t). is_in_range (order c) (v n))
     \<and> key = \<lparr>x_share = v (names ! i), key_Q = smul (v (nname t)) (generator c),
         Qis = (\<lambda>n. if n \<in> set names then Some (smul (v n) (generator c)) else None), key_curve = c, party_name = names ! i\<rparr>"

lemma reconstruct_shared:
  assumes inv: "mod_inverse (pr_inv P)" and q: "field_modulus (order c)" and zk: "zk_ready P c" and ac: "ac_ready P c ac t names"
    and v: "consistent (order c) (pr_pid P) v t" and sat: "satisfied (set names) t"
    and Qs: "\<And>n. n \<in> set names \<Longrightarrow> Qs n = Some (smul (v n) (generator c))"
  shows "reconstruct_exponent (pr_inv P) (pr_pid P) (check_inf P) ac nms Qs = Inr (smul (v (nname t)) (generator c))"
proof -
  obtain nms0 where val: "validate_tree False t {} = Inr nms0" and t: "root ac = Some t" "curve ac = Some c" "pids_ok (order c) (pr_pid P) t"
    "set names = list_leaf_names t"
    using ac by (auto simp: ac_ready_def)
  have "fold_res (\<lambda>nm _. case Qs nm of None \<Rightarrow> Inr () | Some P' \<Rightarrow> check_inf P P') nms () = success"
    by (rule fold_res_unit) (auto simp: check_inf_def intro: zk_readyD(5) [OF zk] split: option.splits)
  moreover have "pub_shares_of v (generator c) (set names) t Qs" using Qs t(4) by (simp add: pub_shares_of_def)
  ultimately show ?thesis
    using mod_inverse.reconstruct_exponent_consistent [OF inv q zk_readyD(4) [OF zk] validated_root(1) [OF val] t(3) v] sat t(1,2)
    by (simp add: reconstruct_exponent_def)
qed

lemma shared_key_add:
  assumes "shared_key P c t names v i key" "consistent (order c) (pr_pid P) w t" "0 < order c" "smul (order c) (generator c) = 0"
    "w (nname t) = 0" "set names \<subseteq> set (node_names t)"
  shows "shared_key P c t names (\<lambda>n. (v n + w n) mod order c) i (key\<lparr>x_share := (v (names ! i) + w (names ! i)) mod order c,
      Qis := (\<lambda>n. if n \<in> set names then Some (smul (v n) (generator c) + smul (w n) (generator c)) else None)\<rparr>)"
  using assms consistent_add [of "order c" "pr_pid P" v t w] nname_in_node_names [of t]
  by (auto simp: shared_key_def is_in_range_def smul_mod smul_add fun_eq_iff)

lemma ac_key_dkg:
  assumes inv: "mod_inverse (pr_inv P)" and q: "field_modulus (order c)" and zk: "zk_ready P c" and ac: "ac_ready P c ac t names"
    and v: "consistent (order c) (pr_pid P) v t" "\<And>n. is_in_range (order c) (v n)" and sat: "satisfied (set names) t" and i: "i < length names"
  shows "\<exists>key. ac_key P c ac names i False keys key0 (smul (v (nname t)) (generator c)) (v (names ! i))
      (\<lambda>n. if n \<in> set names then Some (smul (v n) (generator c)) else None) = Inr key \<and> shared_key P c t names v i key"
proof -
  let ?Qs = "\<lambda>n. if n \<in> set names then Some (smul (v n) (generator c)) else None"
  have rec: "reconstruct_exponent (pr_inv P) (pr_pid P) (check_inf P) ac nms ?Qs = Inr (smul (v (nname t)) (generator c))" for nms
    by (rule reconstruct_shared [OF inv q zk ac v(1) sat]) simp
  have res: "?Qs |` set names = ?Qs" by (simp add: restrict_map_def fun_eq_iff)
  show ?thesis using i v by (simp add: ac_key_def rec res shared_key_def)
qed

lemma ac_key_refresh:
  assumes inv: "mod_inverse (pr_inv P)" and q: "field_modulus (order c)" and zk: "zk_ready P c" and ac: "ac_ready P c ac t names"
    and w: "consistent (order c) (pr_pid P) w t" "\<And>n. is_in_range (order c) (w n)" "w (nname t) = 0"
    and sat: "satisfied (set names) t" and i: "i < length names" and key: "shared_key P c t names v i key0"
  shows "\<exists>key. ac_key P c ac names i True keys key0 0 (w (names ! i))
      (\<lambda>n. if n \<in> set names then Some (smul (w n) (generator c)) else None) = Inr key
    \<and> shared_key P c t names (\<lambda>n. (v n + w n) mod order c) i key \<and> key_Q key = key_Q key0"
proof -
  let ?q = "order c" and ?G = "generator c" and ?u = "\<lambda>n. (v n + w n) mod order c"
  let ?Qs = "\<lambda>n. if n \<in> set names then Some (smul (w n) ?G) else None"
  let ?new = "\<lambda>n. if n \<in> set names then Some (smul (v n) ?G + smul (w n) ?G) else None"
  have names: "distinct names" using ac by (simp add: ac_ready_def)
  have k: "x_share key0 = v (names ! i)" "Qis key0 = (\<lambda>n. if n \<in> set names then Some (smul (v n) ?G) else None)"
    "key_Q key0 = smul (v (nname t)) ?G" "party_name key0 = names ! i" "is_in_range ?q (v (names ! i))" "is_in_range ?q (v (nname t))"
    using key i nname_in_node_names leaf_not_root(1) [OF ac nth_mem [OF i]] by (auto simp: shared_key_def)
  have rec: "reconstruct_exponent (pr_inv P) (pr_pid P) (check_inf P) ac nms ?Qs = Inr (smul (w (nname t)) ?G)" for nms
    by (rule reconstruct_shared [OF inv q zk ac w(1) sat]) simp
  have u: "consistent ?q (pr_pid P) ?u t" using key w(1) by (intro consistent_add) (simp_all add: shared_key_def)
  have rec': "reconstruct_exponent (pr_inv P) (pr_pid P) (check_inf P) ac nms ?new = Inr (smul (?u (nname t)) ?G)" for nms
    by (rule reconstruct_shared [OF inv q zk ac u sat]) (simp add: smul_mod [OF zk_readyD(4) [OF zk]] smul_add)
  have "fold (\<lambda>nm m. m(nm \<mapsto> (case m nm of None \<Rightarrow> 0 | Some Q \<Rightarrow> Q) + (case ?Qs nm of None \<Rightarrow> 0 | Some Q \<Rightarrow> Q))) nms m
      = (\<lambda>nm. if nm \<in> set nms then Some ((case m nm of None \<Rightarrow> 0 | Some Q \<Rightarrow> Q) + (case ?Qs nm of None \<Rightarrow> 0 | Some Q \<Rightarrow> Q)) else m nm)"
    if "distinct nms" for nms m
    using that by (induction nms arbitrary: m) (auto simp: fun_eq_iff)
  from this [OF names, of "Qis key0"]
  have new: "fold (\<lambda>nm m. m(nm \<mapsto> (case m nm of None \<Rightarrow> 0 | Some Q \<Rightarrow> Q) + (case ?Qs nm of None \<Rightarrow> 0 | Some Q \<Rightarrow> Q))) names (Qis key0) = ?new"
    unfolding k(2) by (simp add: fun_eq_iff)
  have add: "mod_add False ?q (v (names ! i)) (w (names ! i)) = Inr (?u (names ! i))" using k(5) w(2) by (simp add: mod_simps)
  have Q: "smul (?u (nname t)) ?G = key_Q key0" using w(3) k(3,6) by (simp add: is_in_range_def)
  have "ac_key P c ac names i True keys key0 0 (w (names ! i)) ?Qs = Inr (key0\<lparr>x_share := ?u (names ! i), Qis := ?new, party_name := names ! i\<rparr>)"
    unfolding ac_key_def Let_def rec bind_res.simps new k(1) if_True add rec' Q using i w(3) by simp
  moreover have "shared_key P c t names ?u i (key0\<lparr>x_share := ?u (names ! i), Qis := ?new\<rparr>)"
    using shared_key_add [OF key w(1) _ zk_readyD(4) [OF zk] w(3)] zk_readyD(2) [OF zk] leaf_not_root(1) [OF ac] by blast
  moreover have "key0\<lparr>x_share := ?u (names ! i), Qis := ?new, party_name := names ! i\<rparr> = key0\<lparr>x_share := ?u (names ! i), Qis := ?new\<rparr>"
    using k(4) by (cases key0) simp
  ultimately show ?thesis by simp
qed

lemma dec_deal_simps [simp]:
  "length h = 32 \<Longrightarrow> dec_buf256 [VBuf h] = Some h"
  "length h = 32 \<Longrightarrow> length rho = 32 \<Longrightarrow> distinct (map fst pub) \<Longrightarrow> sorted (map fst pub) \<Longrightarrow>
     dec_deal [VBuf h, VMap pub, VBatch pf, VBuf rho, VInt x] = Some (h, pub, pf, rho, x)"
  by (simp_all add: dec_buf256_def dec_deal_def dec_map_def sort_key_id_if_sorted)

lemma quorum_satisfied:
  assumes ac: "ac_ready P c ac t names" and enough: "enough_for_quorum (set (map ((!) names) qs)) t = Inr True" and qs: "set qs \<subseteq> {..<length names}"
  shows "satisfied (set names) t"
proof -
  obtain nms where val: "validate_tree False t {} = Inr nms" using ac by (auto simp: ac_ready_def)
  have "satisfied (set (map ((!) names) qs)) t" using enough enough_for_quorum_satisfied [OF validated_root(1) [OF val]] by simp
  moreover have "set (map ((!) names) qs) \<subseteq> set names" using qs by auto
  ultimately show ?thesis using satisfied_mono by blast
qed

text \<open>The last part of an honest run: all parties hold the dealings \<open>d\<close> of the quorum.\<close>

lemma ac_finish_honest:
  fixes c :: "'p::ab_group_add ecurve" and P :: "('p, 'r) prims"
  assumes inv: "mod_inverse (pr_inv P)" and q: "field_modulus (order c)" and zk: "zk_ready P c" and ac: "ac_ready P c ac t names"
    and qs: "set qs \<subseteq> {..<length names}" "qs \<noteq> []" and i: "i < length names"
    and d: "\<And>j. j \<in> set qs \<Longrightarrow> honest_deal P c t names j is_refresh sid (v j) (d j)"
    and cs: "cs = map (\<lambda>j. com_msg (deal_com (d j))) [0..<length names]"
    and second: "second = map (\<lambda>j. (hash_cs P names qs sid cs, deal_pub (d j), deal_pi (d j), com_rand (deal_com (d j)), deal_x (d j) ! i)) [0..<length names]"
    and V: "V = (\<lambda>n. (\<Sum>j\<leftarrow>qs. v j n) mod order c)"
  shows "ac_finish P c ac names i qs is_refresh keys key sid cs r second
    = do_res (ac_key P c ac names i is_refresh keys key (smul (V (nname t)) (generator c)) (V (names ! i))
        (\<lambda>n. if n \<in> set names then Some (smul (V n) (generator c)) else None)) (\<lambda>new_key. Return (Inr (new_key, sid, r)))"
    and "consistent (order c) (pr_pid P) V t" "is_in_range (order c) (V n)" "is_refresh \<longrightarrow> V (nname t) = 0"
proof -
  let ?q = "order c" and ?G = "generator c" and ?h = "hash_cs P names qs sid cs"
  let ?pub = "\<lambda>j. seen_pub ac (is_refresh \<and> j \<noteq> i) (d j)"
  note zkD = zk_readyD [OF zk]
  have names: "distinct names" and rt: "root_name ac = nname t" using ac by (simp_all add: ac_ready_def root_name_def)
  have lt: "j < length names" if "j \<in> set qs" for j using that qs(1) by auto
  have last: "fst (second ! last qs) = ?h" using lt [OF last_in_set [OF qs(2)]] by (simp add: second)
  have at: "map_of (?pub j) nm = Some (smul (v j nm) ?G)" if "j \<in> set qs" "nm \<in> set (node_names t)" "nm \<noteq> nname t \<or> \<not> is_refresh" for j nm
    by (rule seen_pub_at [OF ac d [OF that(1)] that(2)]) (use that(3) in auto)
  have check: "map_res (ac_check P c ac names i qs is_refresh sid cs second) qs = Inr (map ?pub qs)"
  proof (rule map_res_Inr)
    fix j assume j: "j \<in> set qs"
    show "ac_check P c ac names i qs is_refresh sid cs second j = Inr (?pub j)"
      by (rule ac_check_honest [OF inv q zk ac d [OF j] i _ last]) (use lt [OF j] in \<open>simp_all add: second cs\<close>)
  qed
  have xs: "deal_x (d j) ! i = v j (names ! i)" "is_in_range ?q (v j (names ! i))" if "j \<in> set qs" for j
    using d [OF that] i leaf_not_root(1) [OF ac nth_mem [OF i]] by (auto simp: honest_deal_def)
  have zip: "zip (map ?pub qs) (map (\<lambda>j. snd (snd (snd (snd (second ! j))))) qs) = map (\<lambda>j. (?pub j, v j (names ! i))) qs"
    using lt xs(1) by (simp add: zip_map_map zip_same_conv_map second)
  have sum: "ac_sum ?q (root_name ac) is_refresh (map (\<lambda>j. (?pub j, v j (names ! i))) qs)
      = Inr (if is_refresh then 0 else smul (\<Sum>j\<leftarrow>qs. v j (nname t)) ?G, (\<Sum>j\<leftarrow>qs. v j (names ! i)) mod ?q)"
    by (rule ac_sum_value [OF zkD(2) xs(2)]) (use at nname_in_node_names in \<open>auto simp: map_at_def rt\<close>)
  have Qis: "ac_Qis names (map ?pub qs) = Inr (\<lambda>nm. if nm \<in> set names then Some (smul (\<Sum>j\<leftarrow>qs. v j nm) ?G) else None)"
    by (rule ac_Qis_value [OF names]) (use at leaf_not_root [OF ac] in \<open>simp add: map_at_def\<close>)
  have V': "smul (V n) ?G = smul (\<Sum>j\<leftarrow>qs. v j n) ?G" for n by (simp add: V smul_mod [OF zkD(4)])
  show zero: "is_refresh \<longrightarrow> V (nname t) = 0"
  proof
    assume "is_refresh"
    then have "map (\<lambda>j. v j (nname t)) qs = map (\<lambda>_. 0) qs" using d by (simp add: honest_deal_def)
    then have "(\<Sum>j\<leftarrow>qs. v j (nname t)) = (\<Sum>_\<leftarrow>qs. 0)" by (rule arg_cong)
    then show "V (nname t) = 0" unfolding V by simp
  qed
  have root: "(if is_refresh then 0 else smul (\<Sum>j\<leftarrow>qs. v j (nname t)) ?G) = smul (V (nname t)) ?G"
    using zero V' [of "nname t"] smul_zero by (metis (full_types))
  have hash: "(if i \<in> set qs then success else bind_res (cb_assert (qs \<noteq> [])) (\<lambda>_.
      if fst (second ! last qs) \<noteq> ?h then error E_CRYPTO else success)) = success" using qs(2) last by simp
  show "ac_finish P c ac names i qs is_refresh keys key sid cs r second
    = do_res (ac_key P c ac names i is_refresh keys key (smul (V (nname t)) ?G) (V (names ! i))
        (\<lambda>n. if n \<in> set names then Some (smul (V n) ?G) else None)) (\<lambda>new_key. Return (Inr (new_key, sid, r)))"
    unfolding ac_finish_def check do_simps hash zip sum root prod.case Qis V' by (simp add: V)
  show "consistent ?q (pr_pid P) V t" unfolding V by (rule consistent_sum) (use d in \<open>simp add: honest_deal_def\<close>)
  show "is_in_range ?q (V n)" using zkD(2) by (simp add: V is_in_range_def)
qed

lemma ac_with_sid_run:
  fixes c :: "'p::ab_group_add ecurve" and P :: "('p, 'r) prims"
  assumes P: "good_prims P" "zk_ready P c" "batch_ready P c" and inv: "mod_inverse (pr_inv P)" and q: "field_modulus (order c)"
    and ac: "ac_ready P c ac t names" and qs: "set qs \<subseteq> {..<length names}" "qs \<noteq> []"
    and fin: "\<And>j. j \<in> set qs \<Longrightarrow> finite_deal P c ac is_refresh (r j)"
  shows "\<exists>V. consistent (order c) (pr_pid P) V t \<and> (\<forall>n. is_in_range (order c) (V n)) \<and> (is_refresh \<longrightarrow> V (nname t) = 0)
    \<and> (\<forall>i < length names. \<exists>r'. run_rounds (length names) 3 (\<lambda>i. ac_with_sid P c cn ac names i qs is_refresh keys (key i) sid (r i)) i
      = do_res (ac_key P c ac names i is_refresh keys (key i) (smul (V (nname t)) (generator c)) (V (names ! i))
          (\<lambda>n. if n \<in> set names then Some (smul (V n) (generator c)) else None)) (\<lambda>new_key. Return (Inr (new_key, sid, r'))))"
proof -
  let ?n = "length names"
  let ?ps = "\<lambda>i. ac_with_sid P c cn ac names i qs is_refresh keys (key i) sid (r i)"
  let ?hc = "pr_sha P [VStr cn, VList (map (\<lambda>nm. VInt (pr_pid P nm)) names), quorum_pids P names qs, VBuf sid]"
  let ?none = "\<lambda>j. no_deal ?n (pr_pid P (names ! j))"
  have deal: "\<exists>d r' v. ac_deal P c ac names j is_refresh sid (r j) = Some (Inr (d, r')) \<and> honest_deal P c t names j is_refresh sid v d"
    if "j \<in> set qs" for j
    by (rule ac_deal_honest [OF P ac fin [OF that]])
  obtain d0 r0 v where d0: "\<And>j. j \<in> set qs \<Longrightarrow> ac_deal P c ac names j is_refresh sid (r j) = Some (Inr (d0 j, r0 j))"
    "\<And>j. j \<in> set qs \<Longrightarrow> honest_deal P c t names j is_refresh sid (v j) (d0 j)"
    using deal by metis
  define d where "d = (\<lambda>j. if j \<in> set qs then d0 j else ?none j)"
  define r1 where "r1 = (\<lambda>j. if j \<in> set qs then r0 j else r j)"
  have d: "(if j \<in> set qs then ac_deal P c ac names j is_refresh sid (r j) else Some (Inr (?none j, r j))) = Some (Inr (d j, r1 j))"
    "j \<in> set qs \<Longrightarrow> honest_deal P c t names j is_refresh sid (v j) (d j)" for j
    using d0 by (simp_all add: d_def r1_def)
  have sizes: "length (com_rand (deal_com (d j))) = 32" "distinct (map fst (deal_pub (d j)))" "sorted (map fst (deal_pub (d j)))" for j
    using d0(2) [of j] dealt_names_facts [OF ac, of is_refresh]
    by (auto simp: d_def no_deal_def com_new_pid_def com_none_def honest_deal_def o_def)
  have hash: "length (pr_sha P us) = 32" for us by (rule good_primsD(3) [OF P(1)])
  have one: "run_rounds ?n (Suc 0) ?ps i = ac_second P c ac names i qs is_refresh keys (key i) sid ?hc (r i) (map (\<lambda>_. ?hc) [0..<?n])" if "i < ?n" for i
    by (rule run_bcast [where dec = dec_buf256 and m = "\<lambda>_ _. [VBuf ?hc]", OF _ that]) (simp_all add: ac_with_sid_def Let_def hash)
  have one': "run_rounds ?n (Suc 0) ?ps i = bcast dec_buf (\<lambda>_. [VBuf (com_msg (deal_com (d i)))])
      (ac_third P c ac names i qs is_refresh keys (key i) sid (d i) (r1 i))" if "i < ?n" for i
    unfolding one [OF that] ac_second_def d(1) by (simp add: list_ex_iff)
  let ?cs = "map (\<lambda>j. com_msg (deal_com (d j))) [0..<?n]"
  let ?h = "hash_cs P names qs sid ?cs"
  have two: "run_rounds ?n (Suc (Suc 0)) ?ps i = ac_third P c ac names i qs is_refresh keys (key i) sid (d i) (r1 i) ?cs" if "i < ?n" for i
    by (rule run_bcast [OF one' that]) simp_all
  let ?second = "\<lambda>i. map (\<lambda>j. (?h, deal_pub (d j), deal_pi (d j), com_rand (deal_com (d j)), deal_x (d j) ! i)) [0..<?n]"
  have three: "run_rounds ?n (Suc (Suc (Suc 0))) ?ps i = ac_finish P c ac names i qs is_refresh keys (key i) sid ?cs (r1 i) (?second i)" if "i < ?n" for i
    by (rule run_bcast [OF two [unfolded ac_third_def] that]) (simp_all add: sizes hash hash_cs_def)
  define V where "V = (\<lambda>n. (\<Sum>j\<leftarrow>qs. v j n) mod order c)"
  note fin = ac_finish_honest [OF inv q P(2) ac qs _ d(2) refl refl V_def]
  have ne: "0 < ?n" using qs by (metis gr0I lessThan_0 set_empty subset_empty)
  show ?thesis
    using fin(2-4) [OF ne] fin(1) three unfolding numeral_3_eq_3 by (intro exI [of _ V]) auto
qed

lemma satisfied_nonempty: "wf_node t \<Longrightarrow> satisfied A t \<Longrightarrow> A \<noteq> {}"
proof (induction t)
  case (Node ty nm th ch)
  show ?case
  proof
    assume A: "A = {}"
    have "\<not> satisfied A x" if "x \<in> set ch" for x using Node.IH [OF that] Node.prems(1) that A by (auto simp: list_all_iff)
    then show False using Node.prems A by (cases ty; cases ch) (auto simp: list_all_iff list_ex_iff filter_False)
  qed
qed

text \<open>The whole call, with a given session or one agreed on in a round before.\<close>

lemma ac_run:
  fixes c :: "'p::ab_group_add ecurve" and P :: "('p, 'r) prims"
  assumes P: "good_prims P" "zk_ready P c" "batch_ready P c" and inv: "mod_inverse (pr_inv P)" and q: "field_modulus (order c)"
    and ac: "ac_ready P c ac t names" and enough: "enough_for_quorum {names ! j | j. j < length names \<and> quorum j} t = Inr True"
    and fin: "\<And>j. j < length names \<Longrightarrow> quorum j \<Longrightarrow> finite_deal P c ac is_refresh (deal_state P sid (r j))"
  shows "\<exists>V sid'. consistent (order c) (pr_pid P) V t \<and> (\<forall>n. is_in_range (order c) (V n)) \<and> (is_refresh \<longrightarrow> V (nname t) = 0)
    \<and> satisfied (set names) t
    \<and> (\<forall>i < length names. \<exists>r'. run_rounds (length names) (if sid = [] then 4 else 3)
        (\<lambda>i. dkg_or_refresh_ac P c cn ac names i quorum sid is_refresh keys (key i) (r i)) i
      = do_res (ac_key P c ac names i is_refresh keys (key i) (smul (V (nname t)) (generator c)) (V (names ! i))
          (\<lambda>n. if n \<in> set names then Some (smul (V n) (generator c)) else None)) (\<lambda>new_key. Return (Inr (new_key, sid', r'))))"
proof -
  let ?n = "length names" and ?qs = "List.filter quorum [0..<length names]"
  let ?ps = "\<lambda>i. dkg_or_refresh_ac P c cn ac names i quorum sid is_refresh keys (key i) (r i)"
  let ?w = "\<lambda>i. ac_with_sid P c cn ac names i ?qs is_refresh keys (key i)"
  obtain nms where val: "validate_tree False t {} = Inr nms" and t: "root ac = Some t" "curve ac = Some c"
    using ac by (auto simp: ac_ready_def)
  have set: "{names ! j | j. j < ?n \<and> quorum j} = set (map ((!) names) ?qs)" by auto
  have qs: "set ?qs \<subseteq> {..<?n}" by auto
  have "satisfied (set (map ((!) names) ?qs)) t"
    using enough unfolding set enough_for_quorum_satisfied [OF validated_root(1) [OF val]] by simp
  then have "set (map ((!) names) ?qs) \<noteq> {}" by (rule satisfied_nonempty [OF validated_root(1) [OF val]])
  then have ne: "?qs \<noteq> []" by (metis list.map_disc_iff set_empty)
  have sat: "satisfied (set names) t" by (rule quorum_satisfied [OF ac enough [unfolded set] qs])
  have ps: "?ps i = (if sid = [] then do_call (generate_sid_fixed_mp P (r i)) (\<lambda>(sid, r). ?w i sid r) else ?w i sid (r i))" for i
    using val t enough unfolding set by (simp add: dkg_or_refresh_ac_def ac_validate_tree_def ac_enough_for_quorum_def del: set_map set_filter)
  note run = ac_with_sid_run [OF P inv q ac qs ne, where is_refresh = is_refresh and cn = cn and keys = keys and key = key]
  show ?thesis
  proof (cases "sid = []")
    case False
    then show ?thesis using run [of r sid] fin sat unfolding ps by (auto simp: deal_state_def)
  next
    case True
    let ?s = "session_of P ?n r" and ?r = "\<lambda>j. snd (pr_bytes P 16 (r j))"
    have four: "(4 :: nat) = 3 + 1" by simp
    have "run_rounds ?n 4 ?ps i = run_rounds ?n 3 (\<lambda>j. ?w j ?s (?r j)) i" if "i < ?n" for i
      unfolding four by (rule run_with_sid [OF P(1) that]) (use ps True in simp)
    then show ?thesis using run [of ?r ?s] fin sat True by (auto simp: deal_state_def)
  qed
qed

lemma dkg_ac_run:
  fixes c :: "'p::ab_group_add ecurve" and P :: "('p, 'r) prims"
  assumes P: "good_prims P" "zk_ready P c" "batch_ready P c" and inv: "mod_inverse (pr_inv P)" and q: "field_modulus (order c)"
    and ac: "ac_ready P c ac t names" and enough: "enough_for_quorum {names ! j | j. j < length names \<and> quorum j} t = Inr True"
    and fin: "\<And>j. j < length names \<Longrightarrow> quorum j \<Longrightarrow> finite_deal P c ac False (deal_state P sid (r j))"
  shows "\<exists>v sid'. \<forall>i < length names. \<exists>key r'.
      run_rounds (length names) (if sid = [] then 4 else 3) (\<lambda>i. dkg_ac P c cn ac names i quorum sid (r i)) i = Return (Inr (key, sid', r'))
      \<and> shared_key P c t names v i key"
proof -
  obtain V sid' where V: "consistent (order c) (pr_pid P) V t" "\<forall>n. is_in_range (order c) (V n)" "satisfied (set names) t"
    "\<And>i. i < length names \<Longrightarrow> \<exists>r'. run_rounds (length names) (if sid = [] then 4 else 3) (\<lambda>i. dkg_ac P c cn ac names i quorum sid (r i)) i
      = do_res (ac_key P c ac names i False [] (new_key_share c) (smul (V (nname t)) (generator c)) (V (names ! i))
          (\<lambda>n. if n \<in> set names then Some (smul (V n) (generator c)) else None)) (\<lambda>new_key. Return (Inr (new_key, sid', r')))"
    using ac_run [OF P inv q ac enough, where is_refresh = False and keys = "[]" and key = "\<lambda>_. new_key_share c" and sid = sid and cn = cn and r = r] fin
    unfolding dkg_ac_def by blast
  show ?thesis
  proof (intro exI [of _ V] exI [of _ sid'] allI impI)
    fix i assume i: "i < length names"
    obtain key where "ac_key P c ac names i False [] (new_key_share c) (smul (V (nname t)) (generator c)) (V (names ! i))
        (\<lambda>n. if n \<in> set names then Some (smul (V n) (generator c)) else None) = Inr key" "shared_key P c t names V i key"
      using ac_key_dkg [OF inv q P(2) ac V(1) _ V(3) i] V(2) by blast
    then show "\<exists>key r'. run_rounds (length names) (if sid = [] then 4 else 3) (\<lambda>i. dkg_ac P c cn ac names i quorum sid (r i)) i = Return (Inr (key, sid', r'))
        \<and> shared_key P c t names V i key" using V(4) [OF i] by auto
  qed
qed

lemma refresh_ac_run:
  fixes c :: "'p::ab_group_add ecurve" and P :: "('p, 'r) prims"
  assumes P: "good_prims P" "zk_ready P c" "batch_ready P c" and inv: "mod_inverse (pr_inv P)" and q: "field_modulus (order c)"
    and ac: "ac_ready P c ac t names" and enough: "enough_for_quorum {names ! j | j. j < length names \<and> quorum j} t = Inr True"
    and fin: "\<And>j. j < length names \<Longrightarrow> quorum j \<Longrightarrow> finite_deal P c ac True (deal_state P sid (r j))"
    and key: "\<And>i. i < length names \<Longrightarrow> shared_key P c t names v i (key i)"
  shows "\<exists>v' sid'. v' (nname t) = v (nname t) \<and> (\<forall>i < length names. \<exists>key' r'.
      run_rounds (length names) (if sid = [] then 4 else 3) (\<lambda>i. refresh_ac P c cn ac names i quorum sid keys (key i) (r i)) i = Return (Inr (key', sid', r'))
      \<and> shared_key P c t names v' i key' \<and> key_Q key' = key_Q (key i))"
proof -
  obtain W sid' where W: "consistent (order c) (pr_pid P) W t" "\<forall>n. is_in_range (order c) (W n)" "W (nname t) = 0" "satisfied (set names) t"
    "\<And>i. i < length names \<Longrightarrow> \<exists>r'. run_rounds (length names) (if sid = [] then 4 else 3) (\<lambda>i. refresh_ac P c cn ac names i quorum sid keys (key i) (r i)) i
      = do_res (ac_key P c ac names i True keys (key i) (smul (W (nname t)) (generator c)) (W (names ! i))
          (\<lambda>n. if n \<in> set names then Some (smul (W n) (generator c)) else None)) (\<lambda>new_key. Return (Inr (new_key, sid', r')))"
    using ac_run [OF P inv q ac enough, where is_refresh = True and keys = keys and key = key and sid = sid and cn = cn and r = r] fin
    unfolding refresh_ac_def by blast
  let ?u = "\<lambda>n. (v n + W n) mod order c"
  have "names \<noteq> []" using W(4) satisfied_nonempty [of t "set names"] ac validated_root(1) by (fastforce simp: ac_ready_def)
  then have "is_in_range (order c) (v (nname t))" using key [of 0] nname_in_node_names by (auto simp: shared_key_def)
  then have root: "?u (nname t) = v (nname t)" using W(3) by (simp add: is_in_range_def)
  show ?thesis
  proof (intro exI [of _ ?u] exI [of _ sid'] conjI root allI impI)
    fix i assume i: "i < length names"
    obtain key' where "ac_key P c ac names i True keys (key i) 0 (W (names ! i))
        (\<lambda>n. if n \<in> set names then Some (smul (W n) (generator c)) else None) = Inr key'" "shared_key P c t names ?u i key'" "key_Q key' = key_Q (key i)"
      using ac_key_refresh [OF inv q P(2) ac W(1) _ W(3,4) i key [OF i]] W(2) by blast
    then show "\<exists>key' r'. run_rounds (length names) (if sid = [] then 4 else 3) (\<lambda>i. refresh_ac P c cn ac names i quorum sid keys (key i) (r i)) i
        = Return (Inr (key', sid', r')) \<and> shared_key P c t names ?u i key' \<and> key_Q key' = key_Q (key i)"
      using W(5) [OF i] by (auto simp: W(3))
  qed
qed

text \<open>A quorum turns the shares of such a key into additive shares of it.\<close>

lemma shared_key_additive:
  assumes zk: "zk_ready P c" and inv: "mod_inverse (pr_inv P)" and q: "field_modulus (order c)" and ac: "ac_ready P c ac t names"
    and enough: "enough_for_quorum (set A) t = Inr True" and key: "\<And>i. i < length names \<Longrightarrow> shared_key P c t names v i (key i)"
  shows "\<exists>s. (\<Sum>nm\<in>set A. s nm) mod order c = v (nname t)
    \<and> (\<forall>i < length names. to_additive_share (pr_inv P) (pr_pid P) ac A (key i) = Inr ((key i)\<lparr>x_share := s (names ! i),
          Qis := (\<lambda>n. if n \<in> set A then Some (smul (s n) (generator c)) else None)\<rparr>))"
proof -
  let ?s = "additive_part (order c) (pr_pid P) v (set A) t"
  obtain nms where val: "validate_tree False t {} = Inr nms" and t: "root ac = Some t" "pids_ok (order c) (pr_pid P) t" "set names = list_leaf_names t"
    "nchildren t \<noteq> []"
    using ac by (auto simp: ac_ready_def)
  note wf = validated_root [OF val]
  have sat: "satisfied (set A) t" using enough enough_for_quorum_satisfied [OF wf(1)] by simp
  have ne: "0 < length names"
  proof -
    have "satisfied (set A \<inter> list_leaf_names t) t" using sat satisfied_leaves by blast
    then have "list_leaf_names t \<noteq> {}" using satisfied_nonempty [OF wf(1)] by fastforce
    then show ?thesis using t(3) by (metis length_greater_0_conv set_empty)
  qed
  have v: "consistent (order c) (pr_pid P) v t" "is_in_range (order c) (v (nname t))"
    using key [OF ne] nname_in_node_names by (auto simp: shared_key_def)
  have sum: "(\<Sum>nm\<in>set A. ?s nm) mod order c = v (nname t)"
    by (rule mod_inverse.additive_parts_sum(1) [OF inv q finite_set wf(1) t(2) v(1) sat v(2)])
  have part: "to_additive_share (pr_inv P) (pr_pid P) ac A (key i) = Inr ((key i)\<lparr>x_share := ?s (names ! i),
          Qis := (\<lambda>n. if n \<in> set A then Some (smul (?s n) (generator c)) else None)\<rparr>)" if "i < length names" for i
  proof -
    have k: "key_curve (key i) = c" "x_share (key i) = v (party_name (key i))" "is_in_range (order c) (x_share (key i))" "party_name (key i) = names ! i"
      "\<And>n. n \<in> list_leaf_names t \<Longrightarrow> Qis (key i) n = Some (smul (v n) (generator c))"
      using key [OF that] leaf_not_root(1) [OF ac nth_mem [OF that]] t(3) by (auto simp: shared_key_def)
    show ?thesis
      using mod_inverse.to_additive_share_correct [OF inv q zk_readyD(4) [OF zk] t(1) wf t(2) k(1-3) k(5), of A] sat k(4) by simp
  qed
  show ?thesis using sum part by blast
qed

end
