(* ===== verification/Examples_Protocol.thy ===== *)
theory Examples_Protocol
  imports Examples_Api Dkg_Refresh Dkg_Ac_Run
begin

text \<open>
  Primitives on which the properties of the protocols are applied: digests that are constant, a generator that counts and never returns zero, a
  check that refuses zero, and the group of eleven elements.
\<close>

definition ex_count :: "nat generator" where
  "ex_count q r = (if q \<le> 1 then 0 else 1 + int (Suc r) mod (q - 1), Suc r)"

definition ex_prims :: "(11, nat) prims" where
  "ex_prims = \<lparr>pr_sha = (\<lambda>_. replicate 32 0), pr_hmac = (\<lambda>_ _. replicate 32 0), pr_bytes = (\<lambda>n r. (replicate n (word_of_nat r), Suc r)),
     pr_pid = ex_pid, pr_bitlen = (\<lambda>_ b. replicate (bits_to_bytes (nat b)) 0), pr_drbg = (\<lambda>_ b. replicate (bits_to_bytes (nat b)) 0),
     pr_gen = ex_count, pr_fischlin = (\<lambda>_. replicate 32 0), pr_dl_oracle = (\<lambda>_ _ _ _ _. []), pr_batch_oracle = (\<lambda>_ _ _ _ _. []),
     pr_check = (\<lambda>Q. if Q = 0 then error E_CRYPTO else success), pr_sigma = (\<lambda>r. (1, r)), pr_inv = scr_checked_inv\<rparr>"

lemma ex_prims_good: "good_prims ex_prims"
  by (simp add: good_prims_def ex_prims_def good_hmac_def good_bytes_def ex_pid_def)

lemma ex_digest: "fischlin_digest (\<lambda>_. replicate 32 0) h i j z = 0"
  by (simp add: fischlin_digest_def be_get_4_def be_get_2_def eval_nat_numeral)

lemma ex_curve_facts: "order ex_curve = 11" "generator ex_curve = 1" "barrett_ok 11"
  by (simp_all add: ex_curve_def field_modulus_barrett [OF field_11])

lemma ex_count_good: "good_gen ex_count"
proof -
  have "1 + int (Suc r) mod (q - 1) < q" if "1 < q" for q r using that pos_mod_bound [of "q - 1" "int (Suc r)"] by linarith
  then show ?thesis by (auto simp: good_gen_def ex_count_def is_in_range_def simp del: of_nat_Suc)
qed

lemma ex_smul: "1 \<le> x \<Longrightarrow> x \<le> 10 \<Longrightarrow> smul x (1 :: 11) \<noteq> 0"
proof -
  assume "1 \<le> x" "x \<le> 10"
  then have "x \<in> {1, 2, 3, 4, 5, 6, 7, 8, 9, 10}" by (simp, presburger)
  then show ?thesis by (auto simp: smul_def eval_nat_numeral)
qed

lemma ex_count_finite: "finite_gen ex_count ex_curve"
proof -
  have "1 + int (Suc r) mod 10 \<le> 10" for r using pos_mod_bound [of 10 "int (Suc r)"] by linarith
  then show ?thesis by (simp add: finite_gen_def ex_count_def ex_curve_facts ex_smul del: of_nat_Suc)
qed

lemma ex_zk_ready: "zk_ready ex_prims ex_curve"
proof -
  have "dl_lucky (\<lambda>_. replicate 32 0) h ex_curve w sid aux rs" for h w sid aux rs
    using ex_digest by (auto simp: dl_lucky_def list_all_iff list_ex_iff intro!: bexI [of _ 0])
  then show ?thesis
    using ex_order ex_count_good ex_count_finite ex_curve_facts by (simp add: zk_ready_def accepts_finite_def ex_prims_def BIN_LIMIT_def)
qed

definition ex_names :: "string list" where "ex_names = [''a'', ''b'', ''d'']"

lemma ex_names_length: "length ex_names = 3" "distinct ex_names"
  by (simp_all add: ex_names_def)

text \<open>The shares 3, 4 and 5 of the key 1.\<close>

definition ex_shares :: "nat \<Rightarrow> int" where "ex_shares i = 3 + int i"

definition ex_Qis :: "string \<rightharpoonup> 11" where "ex_Qis = [''a'' \<mapsto> 3, ''b'' \<mapsto> 4, ''d'' \<mapsto> 5]"

definition ex_key :: "nat \<Rightarrow> 11 key_share_mp_t" where
  "ex_key i = \<lparr>x_share = ex_shares i, key_Q = 1, Qis = ex_Qis, key_curve = ex_curve, party_name = ex_names ! i\<rparr>"

lemma ex_key_additive: "i < 3 \<Longrightarrow> additive_key ex_curve ex_names ex_shares ex_Qis i (ex_key i)"
  by (auto simp: additive_key_def ex_key_def ex_Qis_def ex_names_def ex_shares_def ex_curve_def is_in_range_def smul_def numeral_3_eq_3 less_Suc_eq eval_nat_numeral)

text \<open>An honest run seen by the first party.\<close>

lemma ex_dkg_run:
  "\<exists>envs key sid r'. list_all (\<lambda>e. length e = length ex_names) envs
    \<and> against 0 envs (key_share_mp_dkg ex_prims ex_curve ''c'' ex_names 0 (\<lambda>_. 0) 0) = Some (Inr (key, sid, r'))"
proof -
  let ?ps = "\<lambda>i. key_share_mp_dkg ex_prims ex_curve ''c'' ex_names i (\<lambda>_. 0) i"
  obtain key sid r' where "run_rounds (length ex_names) 2 ?ps 0 = Return (Inr (key, sid, r'))"
    using mp_dkg_run [OF ex_prims_good ex_zk_ready ex_names_length(2), of "''c''" "\<lambda>_ _. 0" "\<lambda>i. i"]
    by (auto simp: ex_names_length dest!: spec [of _ "0 :: nat"])
  then show ?thesis using run_against [of "length ex_names" 2 ?ps 0] by (auto simp: ex_names_length)
qed

lemma ex_refresh_run:
  "\<exists>envs key sid r'. list_all (\<lambda>e. length e = 3) envs
    \<and> against 0 envs (key_share_mp_refresh ex_prims ex_names 0 (\<lambda>_ _. 0) [] ex_names (ex_key 0) 0) = Some (Inr (key, sid, r'))"
proof -
  let ?ps = "\<lambda>i. key_share_mp_refresh ex_prims ex_names i (\<lambda>_ _. 0) [] ex_names (ex_key i) i"
  obtain key sid r' where "run_rounds 3 3 ?ps 0 = Return (Inr (key, sid, r'))"
    using mp_refresh_run [OF ex_prims_good ex_zk_ready ex_names_length(2) ex_names_length(2) refl, of ex_shares ex_Qis ex_key "[]" "\<lambda>_ _ _. 0" "\<lambda>i. i"]
      ex_key_additive by (auto simp: ex_names_length dest!: spec [of _ "0 :: nat"])
  from run_against [OF this] show ?thesis by auto
qed


text \<open>The parties of the access structure \<open>ex_tree\<close>, with the key 5 shared over it.\<close>

definition ex_parties :: "string list" where "ex_parties = [''a'', ''d'', ''e'', ''f'', ''g'']"

definition ex_values :: "string \<Rightarrow> int" where
  "ex_values nm = (if nm = [] then 5 else if nm = ''a'' then 8 else if nm = ''c'' then 3 else if nm = ''e'' then 2 else 1)"

definition ex_shared :: "nat \<Rightarrow> 11 key_share_mp_t" where
  "ex_shared i = \<lparr>x_share = ex_values (ex_parties ! i), key_Q = smul 5 1,
     Qis = (\<lambda>n. if n \<in> set ex_parties then Some (smul (ex_values n) 1) else None), key_curve = ex_curve, party_name = ex_parties ! i\<rparr>"

lemma ex_parties_facts: "length ex_parties = 5" "distinct ex_parties" "ex_parties ! 0 = ''a''"
  by (simp_all add: ex_parties_def)

lemma ex_batch_ready: "batch_ready ex_prims ex_curve"
proof -
  have "0 \<le> (2 :: int) ^ k - 1" for k :: nat by simp
  then have "batch_lucky (\<lambda>_. replicate 32 0) h ex_curve w sid aux rs" for h w sid aux rs
    using ex_digest by (auto simp: batch_lucky_def Let_def list_all_iff list_ex_iff intro!: bexI [of _ 0])
  then show ?thesis by (simp add: batch_ready_def ex_prims_def)
qed

lemma ex_ac_ready: "ac_ready ex_prims ex_curve ex_ac ex_tree ex_parties"
  using ex_valid ex_pids by (auto simp: ac_ready_def ex_ac_def ex_curve_def ex_prims_def ex_parties_def ex_tree_def)

definition ex_quorum_set :: "nat \<Rightarrow> bool" where "ex_quorum_set j \<longleftrightarrow> j = 0 \<or> j = 4"

lemma ex_quorum_enough: "enough_for_quorum {ex_parties ! j | j. j < length ex_parties \<and> ex_quorum_set j} ex_tree = Inr True"
proof -
  have "{ex_parties ! j | j. j < length ex_parties \<and> ex_quorum_set j} = {''a'', ''g''}"
    by (auto simp: ex_quorum_set_def ex_parties_def intro: exI [of _ 0] exI [of _ 4])
  then show ?thesis using ex_quorum(1) by simp
qed

text \<open>The dealings of the two parties of this quorum, in a generation with a session to agree on and in a refresh with one given.\<close>

lemma ex_horner: "is_in_range 11 a \<Longrightarrow> is_in_range 11 b \<Longrightarrow> is_in_range 11 p \<Longrightarrow> horner_poly False 11 [a, b] p = Inr ((a + b * p) mod 11)"
  by (subst horner_poly_correct) (simp_all add: ex_curve_facts algebra_simps)

lemmas ex_sharing = share_with_internals_def ex_ac_def ex_tree_def ex_curve_def init_share_state_def share_recursive.simps get_sorted_children_def Let_def
  share_threshold_def share_and_def ex_count_def ex_pid_def cb_assert_def ex_horner is_in_range_def mod_simps ex_smul

lemma ex_deals:
  "case share_with_internals ex_count ex_pid ex_ac 11 3 2 of Inl _ \<Rightarrow> False | Inr st \<Rightarrow> \<forall>nm. ac_internal_pub_shares st nm \<noteq> Some 0"
  "case share_with_internals ex_count ex_pid ex_ac 11 7 6 of Inl _ \<Rightarrow> False | Inr st \<Rightarrow> \<forall>nm. ac_internal_pub_shares st nm \<noteq> Some 0"
  "case share_with_internals ex_count ex_pid ex_ac 11 0 0 of Inl _ \<Rightarrow> False | Inr st \<Rightarrow> \<forall>nm. nm \<noteq> [] \<longrightarrow> ac_internal_pub_shares st nm \<noteq> Some 0"
  "case share_with_internals ex_count ex_pid ex_ac 11 0 4 of Inl _ \<Rightarrow> False | Inr st \<Rightarrow> \<forall>nm. nm \<noteq> [] \<longrightarrow> ac_internal_pub_shares st nm \<noteq> Some 0"
  by (simp_all add: ex_sharing)

lemma ex_finite_deals:
  assumes "ex_quorum_set j"
  shows "finite_deal ex_prims ex_curve ex_ac False (deal_state ex_prims [] j)" "finite_deal ex_prims ex_curve ex_ac True (deal_state ex_prims [1] j)"
proof -
  have eqs: "pr_gen ex_prims = ex_count" "pr_pid ex_prims = ex_pid" "root_name ex_ac = []" "order ex_curve = 11"
    "ex_count 11 (deal_state ex_prims [] 0) = (3, 2)" "ex_count 11 (deal_state ex_prims [] 4) = (7, 6)"
    "deal_state ex_prims [1] j = j"
    by (simp_all add: ex_prims_def ex_ac_def ex_tree_def root_name_def ex_curve_def ex_count_def deal_state_def)
  show "finite_deal ex_prims ex_curve ex_ac False (deal_state ex_prims [] j)"
    using assms ex_deals(1,2) unfolding ex_quorum_set_def finite_deal_def eqs(1-4) by (auto simp: eqs(5,6) split: sum.splits)
  show "finite_deal ex_prims ex_curve ex_ac True (deal_state ex_prims [1] j)"
    using assms ex_deals(3,4) unfolding ex_quorum_set_def finite_deal_def eqs(1-4,7) by (auto split: sum.splits)
qed

lemma ex_shared_key: "i < 5 \<Longrightarrow> shared_key ex_prims ex_curve ex_tree ex_parties ex_values i (ex_shared i)"
  by (auto simp: shared_key_def ex_shared_def ex_values_def ex_tree_def ex_prims_def ex_curve_def is_in_range_def ex_pid_def intro!: exI [of _ "[5, 1]"])

lemma ex_dkg_ac_run:
  "\<exists>envs key sid r'. against 0 envs (dkg_ac ex_prims ex_curve ''c'' ex_ac ex_parties 0 ex_quorum_set [] 0) = Some (Inr (key, sid, r'))"
proof -
  let ?ps = "\<lambda>i. dkg_ac ex_prims ex_curve ''c'' ex_ac ex_parties i ex_quorum_set [] i"
  have "mod_inverse (pr_inv ex_prims)" "field_modulus (order ex_curve)"
    using scr.mod_inverse_axioms field_11 by (simp_all add: ex_prims_def ex_curve_facts)
  then obtain key sid r' where "run_rounds 5 4 ?ps 0 = Return (Inr (key, sid, r'))"
    using dkg_ac_run [OF ex_prims_good ex_zk_ready ex_batch_ready _ _ ex_ac_ready ex_quorum_enough, where sid = "[]" and cn = "''c''" and r = "\<lambda>i. i"] ex_finite_deals(1)
    by (auto simp: ex_parties_facts dest!: spec [of _ "0 :: nat"])
  then show ?thesis using run_against [of 5 4 ?ps 0] by auto
qed

end
