(* ===== verification/Buf_Rep.thy ===== *)
theory Buf_Rep
  imports Buf
begin

text \<open>
  What a buffer of \<^verbatim>\<open>buf_t\<close> represents and which blocks it owns, and for every operation that it succeeds, acts as
  the operation on byte lists, touches its own blocks only and gives blocks back wiped.
\<close>

section \<open>Ownership\<close>

definition owned :: "buf \<Rightarrow> nat set" where
  "owned b = (if short_size < buf_s b then (case buf_m b of Pointer a \<Rightarrow> {a} | Inline _ \<Rightarrow> {}) else {})"

definition wf_mem :: "memory \<Rightarrow> bool" where
  "wf_mem st \<longleftrightarrow> (\<forall>a \<in> dom (heap st). a < next_addr st)"

text \<open>A buffer represents a byte list.\<close>

definition buf_rep :: "memory \<Rightarrow> buf \<Rightarrow> bytes \<Rightarrow> bool" where
  "buf_rep st b xs \<longleftrightarrow> buf_s b = int (length xs) \<and> length (inline_bytes st (buf_m b)) = 36
     \<and> (if length xs \<le> 36 then take (length xs) (inline_bytes st (buf_m b)) = xs
        else \<exists>a. buf_m b = Pointer a \<and> heap st a = Some xs)"

definition all_zero :: "bytes \<Rightarrow> bool" where "all_zero bs \<longleftrightarrow> set bs \<subseteq> {0}"

lemma all_zero_replicate [simp]: "all_zero (replicate n 0)"
  by (auto simp: all_zero_def set_replicate_conv_if)

text \<open>
  A piece of code that owns the blocks \<open>A\<close> before and \<open>B\<close> after touches no other block, loses none, and gives
  back wiped blocks only.
\<close>

definition mem_step :: "nat set \<Rightarrow> nat set \<Rightarrow> memory \<Rightarrow> memory \<Rightarrow> bool" where
  "mem_step A B st st' \<longleftrightarrow> junk st' = junk st \<and> next_addr st \<le> next_addr st' \<and> wf_mem st'
     \<and> (\<forall>a. a \<notin> A \<and> a < next_addr st \<longrightarrow> heap st' a = heap st a)
     \<and> B \<subseteq> A \<union> {next_addr st..<next_addr st'} \<and> dom (heap st') = (dom (heap st) - A) \<union> B
     \<and> (\<exists>ws. released st' = ws @ released st \<and> list_all all_zero ws)"

lemma mem_step_refl: "wf_mem st \<Longrightarrow> A \<subseteq> dom (heap st) \<Longrightarrow> mem_step A A st st"
  by (auto simp: mem_step_def)

lemma mem_step_wf: "mem_step A B st st' \<Longrightarrow> wf_mem st'"
  by (simp add: mem_step_def)

lemma mem_step_trans:
  assumes "wf_mem st" "mem_step A B st st'" "mem_step B C st' st''"
  shows "mem_step A C st st''"
proof -
  have B: "B \<subseteq> A \<union> {next_addr st..<next_addr st'}" and C: "C \<subseteq> B \<union> {next_addr st'..<next_addr st''}"
    and n: "next_addr st \<le> next_addr st'" "next_addr st' \<le> next_addr st''" using assms(2,3) by (auto simp: mem_step_def)
  have "a \<notin> B" if "a \<in> dom (heap st) - A" for a
    using that B assms(1) by (metis Diff_iff Un_iff atLeastLessThan_iff leD subsetD wf_mem_def)
  then have "(dom (heap st) - A) \<inter> B = {}" by blast
  then have "dom (heap st'') = (dom (heap st) - A) \<union> C" using assms(2,3) by (auto simp: mem_step_def)
  moreover have "heap st'' a = heap st a" if "a \<notin> A" "a < next_addr st" for a
    using that assms(2,3) B by (fastforce simp: mem_step_def)
  moreover obtain ws1 ws2 where "released st'' = (ws2 @ ws1) @ released st" "list_all all_zero (ws2 @ ws1)"
    using assms(2,3) by (auto simp: mem_step_def)
  moreover have "C \<subseteq> A \<union> {next_addr st..<next_addr st''}"
  proof
    fix x assume "x \<in> C"
    then have "x \<in> B \<or> next_addr st' \<le> x \<and> x < next_addr st''" using C by auto
    then have "x \<in> A \<or> next_addr st \<le> x \<and> x < next_addr st'" if "x < next_addr st'" using B n that by auto
    with \<open>x \<in> B \<or> _\<close> show "x \<in> A \<union> {next_addr st..<next_addr st''}" using B n by auto
  qed
  ultimately show ?thesis using assms(2,3) n by (auto simp: mem_step_def)
qed

lemma mem_step_heap:
  assumes "mem_step A B st st'" "wf_mem st" "a \<notin> A" "heap st a = Some x"
  shows "heap st' a = Some x"
proof -
  have "a < next_addr st" using assms(2,4) by (auto simp: wf_mem_def)
  with assms show ?thesis by (simp add: mem_step_def)
qed

lemma mem_step_frame:
  assumes "mem_step A B st st'" "C \<inter> A = {}" "C \<subseteq> dom (heap st)" "wf_mem st"
  shows "mem_step (A \<union> C) (B \<union> C) st st'" "C \<inter> B = {}"
proof -
  have C: "\<forall>a \<in> C. a < next_addr st" using assms(3,4) by (auto simp: wf_mem_def)
  then show "C \<inter> B = {}" using assms(1,2) by (fastforce simp: mem_step_def)
  then show "mem_step (A \<union> C) (B \<union> C) st st'" using assms by (auto simp: mem_step_def)
qed

lemma junk_length [simp]: "length (junk_bytes st n) = n"
  by (simp add: junk_bytes_def)

lemma inline_bytes_junk: "junk st' = junk st \<Longrightarrow> inline_bytes st' x = inline_bytes st x"
  by (cases x) (simp_all add: junk_bytes_def)

lemma mem_step_inline: "mem_step A B st st' \<Longrightarrow> inline_bytes st' x = inline_bytes st x"
  by (rule inline_bytes_junk) (simp add: mem_step_def)

lemma owned_rep:
  assumes "buf_rep st b xs"
  shows "owned b \<subseteq> dom (heap st)" "length xs \<le> 36 \<Longrightarrow> owned b = {}"
    "36 < length xs \<Longrightarrow> \<exists>a. buf_m b = Pointer a \<and> heap st a = Some xs \<and> owned b = {a}"
  using assms by (auto simp: buf_rep_def owned_def short_size_def split: if_splits storage.splits)

text \<open>What the code does elsewhere leaves a buffer alone.\<close>

lemma rep_frame:
  assumes "buf_rep st b xs" "mem_step A B st st'" "owned b \<inter> A = {}" "wf_mem st"
  shows "buf_rep st' b xs"
proof (cases "length xs \<le> 36")
  case True
  then show ?thesis using assms(1) mem_step_inline [OF assms(2)] by (simp add: buf_rep_def)
next
  case False
  then obtain a where a: "buf_m b = Pointer a" "heap st a = Some xs" "owned b = {a}" using owned_rep(3) [OF assms(1)] by auto
  then have "a \<notin> A" "a < next_addr st" using assms(3,4) by (auto simp: wf_mem_def)
  then have "heap st' a = Some xs" using assms(2) a(2) by (simp add: mem_step_def)
  with False a assms(1) show ?thesis by (simp add: buf_rep_def)
qed

section \<open>Memory primitives\<close>

lemma overwrite_ok: "off + length bs \<le> length old \<Longrightarrow> overwrite off bs old = Inr (take off old @ bs @ drop (off + length bs) old)"
  by (simp add: overwrite_def)

lemma new_bytes_step:
  assumes "wf_mem st" "new_bytes n st = (a, st')"
  shows "mem_step {} {a} st st'" "heap st' a = Some (junk_bytes st n)" "a \<notin> dom (heap st)"
  using assms by (auto simp: new_bytes_def mem_step_def wf_mem_def less_Suc_eq)

lemma store_bytes_step:
  assumes "wf_mem st" "heap st a = Some old" "off + length bs \<le> length old"
  shows "\<exists>st'. store_bytes a off bs st = Inr st' \<and> mem_step {a} {a} st st'
    \<and> heap st' a = Some (take off old @ bs @ drop (off + length bs) old)"
  using assms by (auto simp: store_bytes_def overwrite_ok mem_step_def wf_mem_def)

lemma store_whole_step:
  assumes "wf_mem st" "heap st a = Some old" "length bs = length old"
  shows "\<exists>st'. store_bytes a 0 bs st = Inr st' \<and> mem_step {a} {a} st st' \<and> heap st' a = Some bs"
  using store_bytes_step [OF assms(1,2), of 0 bs] assms(3) by simp

lemma delete_bytes_step:
  assumes "wf_mem st" "heap st a = Some old" "all_zero old"
  shows "\<exists>st'. delete_bytes a st = Inr st' \<and> mem_step {a} {} st st'"
  using assms by (auto simp: delete_bytes_def mem_step_def wf_mem_def)

lemma wipe_delete_step:
  assumes "wf_mem st" "heap st a = Some old"
  shows "\<exists>st' st''. store_bytes a 0 (replicate (length old) 0) st = Inr st' \<and> delete_bytes a st' = Inr st'' \<and> mem_step {a} {} st st''"
proof -
  obtain st' where 1: "store_bytes a 0 (replicate (length old) 0) st = Inr st'" "mem_step {a} {a} st st'"
    "heap st' a = Some (replicate (length old) 0)" using store_whole_step [OF assms, of "replicate (length old) 0"] by auto
  obtain st'' where 2: "delete_bytes a st' = Inr st''" "mem_step {a} {} st' st''"
    using delete_bytes_step [OF mem_step_wf [OF 1(2)] 1(3)] by auto
  show ?thesis using 1 2 mem_step_trans [OF assms(1) 1(2) 2(2)] by blast
qed

lemma data_read_rep: "buf_rep st b xs \<Longrightarrow> n \<le> length xs \<Longrightarrow> data_read n st b = Inr (take n xs)"
  by (auto simp: data_read_def buf_rep_def load_bytes_def short_size_def split: if_splits dest: arg_cong [where f = "take n"])

lemma data_write_rep:
  assumes "wf_mem st" "buf_rep st b xs" "off + length bs \<le> length xs"
  shows "\<exists>st' b'. data_write off bs st b = Inr (st', b') \<and> buf_rep st' b' (take off xs @ bs @ drop (off + length bs) xs)
    \<and> mem_step (owned b) (owned b') st st' \<and> buf_s b' = buf_s b \<and> owned b' = owned b"
proof (cases "length xs \<le> 36")
  case True
  let ?old = "inline_bytes st (buf_m b)"
  have r: "buf_s b = int (length xs)" "length ?old = 36" "take (length xs) ?old = xs" using assms(2) True by (simp_all add: buf_rep_def)
  let ?new = "take off ?old @ bs @ drop (off + length bs) ?old"
  have "data_write off bs st b = Inr (st, b\<lparr>buf_m := Inline ?new\<rparr>)"
    using r True assms(3) by (simp add: data_write_def short_size_def overwrite_ok)
  moreover have "take (length xs) ?new = take off xs @ bs @ drop (off + length bs) xs"
  proof -
    have "take off xs = take off ?old" using r(3) assms(3) by (metis le_add1 order_trans min.absorb1 take_take)
    moreover have "drop (off + length bs) xs = take (length xs - (off + length bs)) (drop (off + length bs) ?old)"
      using drop_take [of "off + length bs" "length xs" ?old] r(3) by simp
    ultimately show ?thesis using r assms(3) True by simp
  qed
  ultimately show ?thesis
    using r True assms mem_step_refl [OF assms(1), of "{}"] by (simp add: buf_rep_def owned_def short_size_def)
next
  case False
  then obtain a where a: "buf_m b = Pointer a" "heap st a = Some xs" "owned b = {a}" using owned_rep(3) [OF assms(2)] by auto
  obtain st' where st': "store_bytes a off bs st = Inr st'" "mem_step {a} {a} st st'"
    "heap st' a = Some (take off xs @ bs @ drop (off + length bs) xs)" using store_bytes_step [OF assms(1) a(2) assms(3)] by blast
  have "data_write off bs st b = Inr (st', b)"
    using False a st' assms(2) by (simp add: data_write_def buf_rep_def short_size_def)
  with a st' show ?thesis using False assms mem_step_inline [OF st'(2)] by (simp add: buf_rep_def)
qed


section \<open>The operations on represented buffers\<close>

text \<open>The common shape of a result: a buffer that represents \<open>ys\<close>, made out of the blocks \<open>A\<close>.\<close>

definition made :: "nat set \<Rightarrow> memory \<Rightarrow> (memory \<times> buf) res \<Rightarrow> bytes \<Rightarrow> bool" where
  "made A st r ys \<longleftrightarrow> (\<exists>st' b'. r = Inr (st', b') \<and> buf_rep st' b' ys \<and> mem_step A (owned b') st st')"

lemma madeI: "r = Inr (st', b') \<Longrightarrow> buf_rep st' b' ys \<Longrightarrow> mem_step A (owned b') st st' \<Longrightarrow> made A st r ys"
  by (auto simp: made_def)

lemma made_bind:
  assumes "wf_mem st" "made A st r xs" "\<And>st' b'. buf_rep st' b' xs \<Longrightarrow> wf_mem st' \<Longrightarrow> mem_step A (owned b') st st' \<Longrightarrow> made (owned b') st' (f (st', b')) ys"
  shows "made A st (bind_res r f) ys"
proof -
  obtain st' b' where 1: "r = Inr (st', b')" "buf_rep st' b' xs" "mem_step A (owned b') st st'" using assms(2) by (auto simp: made_def)
  then obtain st'' b'' where 2: "f (st', b') = Inr (st'', b'')" "buf_rep st'' b'' ys" "mem_step (owned b') (owned b'') st' st''"
    using assms(3) [OF 1(2) mem_step_wf [OF 1(3)] 1(3)] by (auto simp: made_def)
  show ?thesis using 1 2 mem_step_trans [OF assms(1) 1(3) 2(3)] by (auto intro!: madeI)
qed

lemma rep_new: "buf_rep st (buf_new st) []" "owned (buf_new st) = {}"
  by (simp_all add: buf_rep_def buf_new_def owned_def short_size_def)

lemma data_write_made:
  assumes "wf_mem st" "buf_rep st b xs" "off + length bs \<le> length xs"
  shows "made (owned b) st (data_write off bs st b) (take off xs @ bs @ drop (off + length bs) xs)"
  using data_write_rep [OF assms] by (auto intro: madeI)

lemma zero_made:
  assumes "wf_mem st" "buf_rep st b xs"
  shows "made (owned b) st (secure_bzero st b) (replicate (length xs) 0)"
proof (cases "xs = []")
  case True
  then show ?thesis using assms mem_step_refl [OF assms(1) owned_rep(1) [OF assms(2)]]
    by (auto simp: secure_bzero_def buf_rep_def intro!: madeI)
next
  case False
  then have "buf_s b > 0" "nat (buf_s b) = length xs" using assms(2) by (simp_all add: buf_rep_def)
  then show ?thesis using data_write_made [OF assms, of 0 "replicate (length xs) 0"] by (simp add: secure_bzero_def)
qed

lemma bzero_made:
  assumes "wf_mem st" "buf_rep st b xs"
  shows "made (owned b) st (buf_bzero st b) (replicate (length xs) 0)"
proof -
  have "0 \<le> buf_s b" using assms(2) by (simp add: buf_rep_def)
  then have "buf_bzero st b = secure_bzero st b" by (simp add: buf_bzero_def secure_bzero_def)
  with zero_made [OF assms] show ?thesis by simp
qed

lemma free_made:
  assumes "wf_mem st" "buf_rep st b xs"
  shows "\<exists>st' b'. buf_free st b = Inr (st', b') \<and> buf_rep st' b' [] \<and> owned b' = {} \<and> mem_step (owned b) {} st st'"
proof -
  obtain st1 b1 where 1: "secure_bzero st b = Inr (st1, b1)" "buf_rep st1 b1 (replicate (length xs) 0)" "mem_step (owned b) (owned b1) st st1"
    using zero_made [OF assms] by (auto simp: made_def)
  note wf1 = mem_step_wf [OF 1(3)]
  have s1: "buf_s b1 = int (length xs)" "length (inline_bytes st1 (buf_m b1)) = 36" using 1(2) by (simp_all add: buf_rep_def)
  show ?thesis
  proof (cases "length xs \<le> 36")
    case True
    then show ?thesis using 1 s1 owned_rep(2) [OF 1(2)]
      by (auto simp: buf_free_def short_size_def buf_rep_def owned_def)
  next
    case False
    then obtain a where a: "buf_m b1 = Pointer a" "heap st1 a = Some (replicate (length xs) 0)" "owned b1 = {a}"
      using owned_rep(3) [OF 1(2)] by auto
    obtain st2 where 2: "delete_bytes a st1 = Inr st2" "mem_step {a} {} st1 st2" using delete_bytes_step [OF wf1 a(2)] by auto
    have "mem_step (owned b) {} st st2" using mem_step_trans [OF assms(1) 1(3)] a(3) 2(2) by simp
    then show ?thesis using False 1 2 a s1 by (simp add: buf_free_def short_size_def buf_rep_def owned_def)
  qed
qed

lemma rep_inline_length: "buf_rep st b xs \<Longrightarrow> length (inline_bytes st (buf_m b)) = 36"
  by (simp add: buf_rep_def)

lemma assign_short_made:
  assumes "wf_mem st" "buf_rep st b []" "length src \<le> 36"
  shows "made {} st (assign_short src st b) src"
  using assms mem_step_refl [of st "{}"]
  by (auto simp: assign_short_def overwrite_ok buf_rep_def owned_def short_size_def intro!: madeI)

lemma assign_long_made:
  assumes "wf_mem st" "36 < length src"
  shows "made {} st (assign_long src st b) src"
proof -
  obtain a st1 where 1: "new_bytes (length src) st = (a, st1)" by fastforce
  note n = new_bytes_step [OF assms(1) 1]
  obtain st2 where 2: "store_bytes a 0 src st1 = Inr st2" "mem_step {a} {a} st1 st2" "heap st2 a = Some src"
    using store_whole_step [OF mem_step_wf [OF n(1)] n(2), of src] by auto
  have "mem_step {} {a} st st2" by (rule mem_step_trans [OF assms(1) n(1) 2(2)])
  with 1 2 assms(2) show ?thesis
    by (auto simp: assign_long_def assign_long_ptr_def set_long_ptr_def buf_rep_def owned_def short_size_def intro!: madeI)
qed

lemma from_made: "wf_mem st \<Longrightarrow> made {} st (buf_from src st) src"
  using assign_short_made [OF _ rep_new(1)] assign_long_made by (simp add: buf_from_def short_size_def)

lemma copy_made:
  assumes "wf_mem st" "buf_rep st src xs" "buf_rep st b []"
  shows "made {} st (buf_copy src st b) xs"
proof (cases "length xs \<le> 36")
  case True
  then show ?thesis using assms mem_step_refl [OF assms(1), of "{}"]
    by (auto simp: buf_copy_def assign_short_buf_def buf_rep_def owned_def short_size_def intro!: madeI)
next
  case False
  then have "buf_copy src st b = assign_long xs st b"
    using assms(2) data_read_rep [OF assms(2), of "length xs"] by (simp add: buf_copy_def buf_rep_def short_size_def)
  then show ?thesis using assign_long_made [OF assms(1)] False by simp
qed

lemma move_made:
  assumes "wf_mem st" "buf_rep st src xs" "buf_rep st b []"
  shows "\<exists>b' src'. buf_move src st b = Inr (st, b', src') \<and> buf_rep st b' xs \<and> owned b' = owned src
    \<and> owned src' = {} \<and> (if length xs \<le> 36 then src' = src else buf_rep st src' [])"
proof (cases "length xs \<le> 36")
  case True
  then show ?thesis using assms
    by (auto simp: buf_move_def assign_short_buf_def buf_rep_def owned_def short_size_def)
next
  case False
  then obtain a where "buf_m src = Pointer a" "heap st a = Some xs" "owned src = {a}" using owned_rep(3) [OF assms(2)] by auto
  then show ?thesis using False assms(2)
    by (auto simp: buf_move_def assign_long_ptr_def set_long_ptr_def buf_rep_def owned_def short_size_def)
qed


lemma assign_made:
  assumes "wf_mem st" "buf_rep st src xs" "buf_rep st b zs" "owned src \<inter> owned b = {}"
  shows "made (owned b) st (buf_assign src st b) xs"
proof -
  obtain st1 b1 where 1: "buf_free st b = Inr (st1, b1)" "buf_rep st1 b1 []" "mem_step (owned b) {} st st1"
    using free_made [OF assms(1,3)] by blast
  have "made {} st1 (buf_copy src st1 b1) xs"
    using copy_made [OF mem_step_wf [OF 1(3)] rep_frame [OF assms(2) 1(3) assms(4,1)] 1(2)] .
  then show ?thesis using 1 mem_step_trans [OF assms(1) 1(3)] by (auto simp: made_def buf_assign_def)
qed

lemma move_assign_made:
  assumes "wf_mem st" "buf_rep st src xs" "buf_rep st b zs" "owned src \<inter> owned b = {}"
  shows "\<exists>st' b' src'. buf_move_assign src st b = Inr (st', b', src') \<and> buf_rep st' b' xs \<and> owned b' = owned src
    \<and> mem_step (owned b \<union> owned src) (owned b') st st' \<and> owned src' = {} \<and> (\<exists>ys. buf_rep st' src' ys)"
proof -
  obtain st1 b1 where 1: "buf_free st b = Inr (st1, b1)" "buf_rep st1 b1 []" "mem_step (owned b) {} st st1"
    using free_made [OF assms(1,3)] by blast
  note src1 = rep_frame [OF assms(2) 1(3) assms(4,1)]
  obtain b2 src2 where 2: "buf_move src st1 b1 = Inr (st1, b2, src2)" "buf_rep st1 b2 xs" "owned b2 = owned src" "owned src2 = {}"
    "if length xs \<le> 36 then src2 = src else buf_rep st1 src2 []"
    using move_made [OF mem_step_wf [OF 1(3)] src1 1(2)] by blast
  have "\<exists>ys. buf_rep st1 src2 ys" using 2(5) src1 by (auto split: if_splits)
  then show ?thesis
    using 1 2 mem_step_frame(1) [OF 1(3) assms(4) owned_rep(1) [OF assms(2)] assms(1)] by (simp add: buf_move_assign_def)
qed

lemma fresh_disjoint: "mem_step {} T st st1 \<Longrightarrow> wf_mem st \<Longrightarrow> C \<subseteq> dom (heap st) \<Longrightarrow> C \<inter> T = {}"
  by (rule mem_step_frame(2)) auto

lemma assign_mem_made:
  assumes "wf_mem st" "buf_rep st b zs" "src st b = Inr xs"
  shows "made (owned b) st (buf_assign_mem False src st b) xs"
proof -
  note ob = owned_rep(1) [OF assms(2)]
  obtain st1 tmp where 1: "buf_from xs st = Inr (st1, tmp)" "buf_rep st1 tmp xs" "mem_step {} (owned tmp) st st1"
    using from_made [OF assms(1), of xs] by (auto simp: made_def)
  note wf1 = mem_step_wf [OF 1(3)]
  have b1: "buf_rep st1 b zs" using rep_frame [OF assms(2) 1(3) _ assms(1)] by simp
  have disj: "owned b \<inter> owned tmp = {}" by (rule fresh_disjoint [OF 1(3) assms(1) ob])
  obtain st2 b2 tmp2 ys where 2: "buf_move_assign tmp st1 b = Inr (st2, b2, tmp2)" "buf_rep st2 b2 xs" "owned b2 = owned tmp"
    "mem_step (owned b \<union> owned tmp) (owned b2) st1 st2" "owned tmp2 = {}" "buf_rep st2 tmp2 ys"
    using move_assign_made [OF wf1 1(2) b1] disj by blast
  obtain st3 tmp3 where 3: "buf_free st2 tmp2 = Inr (st3, tmp3)" "mem_step {} {} st2 st3"
    using free_made [OF mem_step_wf [OF 2(4)] 2(6)] 2(5) by auto
  have "mem_step (owned b) (owned tmp \<union> owned b) st st1" using mem_step_frame(1) [OF 1(3) _ ob assms(1)] by simp
  then have "mem_step (owned b) (owned b2) st st2" using mem_step_trans [OF assms(1)] 2(4) by (simp add: Un_commute)
  moreover have "mem_step (owned b2) (owned b2) st2 st3"
    using mem_step_frame(1) [OF 3(2) _ owned_rep(1) [OF 2(2)] mem_step_wf [OF 2(4)]] by simp
  ultimately have "mem_step (owned b) (owned b2) st st3" by (rule mem_step_trans [OF assms(1)])
  moreover have "buf_rep st3 b2 xs" using rep_frame [OF 2(2) 3(2) _ mem_step_wf [OF 2(4)]] by simp
  ultimately show ?thesis using assms(3) 1 2 3 by (auto simp: buf_assign_mem_def intro!: madeI)
qed

lemma assign_block_made:
  assumes "wf_mem st" "buf_rep st b xs" "length src \<le> 36"
  shows "made (owned b) st (buf_assign_block src st b) src"
proof (cases "length xs \<le> 36")
  case True
  then show ?thesis using assms owned_rep(2) [OF assms(2)] mem_step_refl [OF assms(1), of "{}"]
    by (auto simp: buf_assign_block_def overwrite_ok buf_rep_def owned_def short_size_def intro!: madeI)
next
  case False
  then obtain a where a: "buf_m b = Pointer a" "heap st a = Some xs" "owned b = {a}" using owned_rep(3) [OF assms(2)] by auto
  obtain st1 st2 where w: "store_bytes a 0 (replicate (length xs) 0) st = Inr st1" "delete_bytes a st1 = Inr st2" "mem_step {a} {} st st2"
    using wipe_delete_step [OF assms(1) a(2)] by blast
  have "buf_s b = int (length xs)" using assms(2) by (simp add: buf_rep_def)
  then show ?thesis using False a w assms(3)
    by (auto simp: buf_assign_block_def overwrite_ok buf_rep_def owned_def short_size_def intro!: madeI)
qed

text \<open>Resizing keeps the common prefix; grown bytes are unspecified. One lemma for each of the four cases.\<close>

definition resized :: "nat set \<Rightarrow> memory \<Rightarrow> (memory \<times> buf) res \<Rightarrow> nat \<Rightarrow> bytes \<Rightarrow> bool" where
  "resized A st r n xs \<longleftrightarrow> (\<exists>ys. length (take n xs @ ys) = n \<and> made A st r (take n xs @ ys))"

lemma resizedI: "made A st r (take n xs @ ys) \<Longrightarrow> length (take n xs @ ys) = n \<Longrightarrow> resized A st r n xs"
  by (auto simp: resized_def)

lemma short_to_short_resized:
  assumes "wf_mem st" "buf_rep st b xs" "length xs \<le> 36" "n \<le> 36"
  shows "resized (owned b) st (resize_save_short_to_short (int n) st b) n xs"
proof -
  let ?il = "inline_bytes st (buf_m b)"
  have s: "buf_s b = int (length xs)" "length ?il = 36" "take (length xs) ?il = xs" "owned b = {}"
    using assms(2,3) owned_rep(2) [OF assms(2)] by (simp_all add: buf_rep_def)
  note same = mem_step_refl [OF assms(1), of "{}"]
  show ?thesis
  proof (cases "n < length xs")
    case True
    let ?new = "take n ?il @ replicate (length xs - n) 0 @ drop (length xs) ?il"
    have len: "nat (int (length xs) - int n) = length xs - n" "n + (length xs - n) = length xs" using True by simp_all
    have "take n ?il = take n xs" using s(3) True by (metis less_imp_le min.absorb1 take_take)
    then have "buf_rep st (b\<lparr>buf_m := Inline ?new, buf_s := int n\<rparr>) (take n xs @ [])"
      using True s assms(3) by (simp add: buf_rep_def)
    moreover have "resize_save_short_to_short (int n) st b = Inr (st, b\<lparr>buf_m := Inline ?new, buf_s := int n\<rparr>)"
      using True s assms(3) len by (simp add: resize_save_short_to_short_def overwrite_ok)
    ultimately have "made (owned b) st (resize_save_short_to_short (int n) st b) (take n xs @ [])"
      using same s(4) assms(4) by (auto simp: owned_def short_size_def intro!: madeI)
    then show ?thesis using True by (rule_tac resizedI) simp_all
  next
    case False
    have "take n ?il = xs @ drop (length xs) (take n ?il)"
      using s(3) False append_take_drop_id [of "length xs" "take n ?il"] by (simp add: min_def)
    then have "buf_rep st (b\<lparr>buf_s := int n\<rparr>) (take n xs @ drop (length xs) (take n ?il))"
      using False s(2) assms(4) by (simp add: buf_rep_def)
    then have "made (owned b) st (resize_save_short_to_short (int n) st b) (take n xs @ drop (length xs) (take n ?il))"
      using False s same assms(4) by (auto simp: resize_save_short_to_short_def owned_def short_size_def intro!: madeI)
    then show ?thesis by (rule resizedI) (use False s(2) assms(4) in \<open>simp only: length_append length_take length_drop\<close>)
  qed
qed

lemma short_to_long_resized:
  assumes "wf_mem st" "buf_rep st b xs" "length xs \<le> 36" "36 < n"
  shows "resized (owned b) st (resize_save_short_to_long (int n) st b) n xs"
proof -
  let ?ys = "drop (length xs) (junk_bytes st n)"
  have s: "buf_s b = int (length xs)" "owned b = {}" using assms(2,3) owned_rep(2) [OF assms(2)] by (simp_all add: buf_rep_def)
  obtain a st1 where 1: "new_bytes n st = (a, st1)" by fastforce
  note nb = new_bytes_step [OF assms(1) 1]
  note wf1 = mem_step_wf [OF nb(1)]
  have b1: "buf_rep st1 b xs" using rep_frame [OF assms(2) nb(1) _ assms(1)] by simp
  obtain st2 where 2: "store_bytes a 0 xs st1 = Inr st2" "mem_step {a} {a} st1 st2" "heap st2 a = Some (xs @ ?ys)"
    using store_bytes_step [OF wf1 nb(2), of 0 xs] assms(3,4) by auto
  note wf2 = mem_step_wf [OF 2(2)]
  have b2: "buf_rep st2 b xs" using rep_frame [OF b1 2(2) _ wf1] s(2) by simp
  obtain st3 b3 where 3: "secure_bzero st2 b = Inr (st3, b3)" "mem_step {} (owned b3) st2 st3" "buf_rep st3 b3 (replicate (length xs) 0)"
    using zero_made [OF wf2 b2] s(2) by (auto simp: made_def)
  have o3: "owned b3 = {}" using owned_rep(2) [OF 3(3)] assms(3) by simp
  have a3: "heap st3 a = Some (xs @ ?ys)" using mem_step_heap [OF 3(2) wf2 _ 2(3)] by simp
  have "mem_step {a} {a} st2 st3" using mem_step_frame(1) [OF 3(2), of "{a}"] o3 2(3) wf2 by auto
  then have "mem_step {} {a} st st3" using mem_step_trans [OF assms(1) mem_step_trans [OF assms(1) nb(1) 2(2)]] by simp
  then have "made (owned b) st (resize_save_short_to_long (int n) st b) (take n xs @ ?ys)"
    using assms(3,4) s 1 2(1) 3 data_read_rep [OF b1, of "length xs"] a3
    by (auto simp: resize_save_short_to_long_def short_size_def assign_long_ptr_def set_long_ptr_def buf_rep_def owned_def intro!: madeI)
  then show ?thesis by (rule resizedI) (use assms(3,4) in \<open>simp only: length_append length_take length_drop junk_length\<close>)
qed

lemma long_to_short_resized:
  assumes "wf_mem st" "buf_rep st b xs" "36 < length xs" "n \<le> 36"
  shows "resized (owned b) st (resize_save_long_to_short (int n) st b) n xs"
proof -
  obtain a where a: "buf_m b = Pointer a" "heap st a = Some xs" "owned b = {a}" using owned_rep(3) [OF assms(2,3)] by auto
  obtain st1 st2 where w: "store_bytes a 0 (replicate (length xs) 0) st = Inr st1" "delete_bytes a st1 = Inr st2" "mem_step {a} {} st st2"
    using wipe_delete_step [OF assms(1) a(2)] by blast
  have "made (owned b) st (resize_save_long_to_short (int n) st b) (take n xs @ [])"
    using assms a w by (auto simp: resize_save_long_to_short_def short_size_def load_bytes_def overwrite_ok
        buf_rep_def owned_def intro!: madeI)
  then show ?thesis using assms(3,4) by (rule_tac resizedI) simp_all
qed

lemma long_to_long_resized:
  assumes "wf_mem st" "buf_rep st b xs" "36 < length xs" "36 < n"
  shows "resized (owned b) st (resize_save_long_to_long (int n) st b) n xs"
proof -
  let ?ys = "drop (length xs) (junk_bytes st n)"
  obtain old where old: "buf_m b = Pointer old" "heap st old = Some xs" "owned b = {old}" using owned_rep(3) [OF assms(2,3)] by auto
  obtain a st1 where 1: "new_bytes n st = (a, st1)" by fastforce
  note nb = new_bytes_step [OF assms(1) 1]
  note wf1 = mem_step_wf [OF nb(1)]
  have ne: "a \<noteq> old" using nb(3) old(2) by auto
  have old1: "heap st1 old = Some xs" using rep_frame [OF assms(2) nb(1) _ assms(1)] assms(3) old(1) by (simp add: buf_rep_def)
  obtain st2 where 2: "store_bytes a 0 (take n xs) st1 = Inr st2" "mem_step {a} {a} st1 st2" "heap st2 a = Some (take n xs @ ?ys)"
    using store_bytes_step [OF wf1 nb(2), of 0 "take n xs"] by (cases "length xs \<le> n") auto
  note wf2 = mem_step_wf [OF 2(2)]
  have old2: "heap st2 old = Some xs" using 2(1) ne old1 by (auto simp: store_bytes_def res_simps split: option.splits)
  obtain st3 st4 where w: "store_bytes old 0 (replicate (length xs) 0) st2 = Inr st3" "delete_bytes old st3 = Inr st4" "mem_step {old} {} st2 st4"
    using wipe_delete_step [OF wf2 old2] by blast
  have a4: "heap st4 a = Some (take n xs @ ?ys)" using mem_step_heap [OF w(3) wf2 _ 2(3)] ne by simp
  have "mem_step {} {a} st st2" by (rule mem_step_trans [OF assms(1) nb(1) 2(2)])
  then have "mem_step {old} {a, old} st st2" using mem_step_frame(1) [of "{}" "{a}" st st2 "{old}"] old(2) assms(1) by (auto simp: insert_commute)
  moreover have "mem_step {a, old} {a} st2 st4" using mem_step_frame(1) [OF w(3), of "{a}"] ne 2(3) wf2 by (auto simp: insert_commute)
  ultimately have "mem_step {old} {a} st st4" by (rule mem_step_trans [OF assms(1)])
  then have "made (owned b) st (resize_save_long_to_long (int n) st b) (take n xs @ ?ys)"
    using assms(2-4) old 1 2(1) w old1 a4
    by (auto simp: resize_save_long_to_long_def short_size_def load_bytes_def assign_long_ptr_def
          set_long_ptr_def buf_rep_def owned_def min_def intro!: madeI)
  then show ?thesis by (rule resizedI) (simp add: min_def)
qed

lemma resize_resized:
  assumes "wf_mem st" "buf_rep st b xs"
  shows "resized (owned b) st (buf_resize (int n) st b) n xs"
proof -
  have s: "buf_s b = int (length xs)" using assms(2) by (simp add: buf_rep_def)
  have "resized (owned b) st (Inr (st, b)) n xs" if "length xs = n"
    using that assms mem_step_refl [OF assms(1) owned_rep(1) [OF assms(2)]]
    by (intro resizedI [of _ _ _ _ _ "[]"] madeI) simp_all
  then show ?thesis
    using short_to_short_resized [OF assms] short_to_long_resized [OF assms] long_to_short_resized [OF assms]
      long_to_long_resized [OF assms] s by (simp add: buf_resize_def short_size_def)
qed


lemma sized_made:
  assumes "wf_mem st"
  shows "\<exists>ys. length ys = n \<and> made {} st (buf_sized (int n) st) ys"
proof (cases "n \<le> 36")
  case True
  then have "buf_rep st ((buf_new st)\<lparr>buf_s := int n\<rparr>) (take n (junk_bytes st 36))"
    by (simp add: buf_rep_def buf_new_def short_size_def)
  then have "made {} st (buf_sized (int n) st) (take n (junk_bytes st 36))"
    using True mem_step_refl [OF assms, of "{}"] by (auto simp: buf_sized_def short_size_def owned_def intro!: madeI)
  with True show ?thesis by (intro exI [of _ "take n (junk_bytes st 36)"]) simp
next
  case False
  obtain a st1 where 1: "new_bytes n st = (a, st1)" by fastforce
  with False new_bytes_step [OF assms 1] have "made {} st (buf_sized (int n) st) (junk_bytes st n)"
    by (auto simp: buf_sized_def short_size_def set_long_ptr_def buf_new_def buf_rep_def owned_def intro!: madeI)
  then show ?thesis by (intro exI [of _ "junk_bytes st n"]) simp
qed

lemma sized_negative: "n < 0 \<Longrightarrow> buf_sized n st = Inl Assert_Failed"
  by (simp add: buf_sized_def)

lemma alloc_made:
  assumes "wf_mem st" "buf_rep st b xs"
  shows "\<exists>ys. length ys = n \<and> made (owned b) st (buf_alloc (int n) st b) ys"
proof (cases "length xs = n")
  case True
  then have "made (owned b) st (buf_alloc (int n) st b) xs"
    using assms mem_step_refl [OF assms(1) owned_rep(1) [OF assms(2)]] by (auto simp: buf_alloc_def buf_rep_def intro!: madeI)
  with True show ?thesis by blast
next
  case False
  obtain st1 b1 where 1: "buf_free st b = Inr (st1, b1)" "buf_rep st1 b1 []" "mem_step (owned b) {} st st1"
    using free_made [OF assms] by blast
  note wf1 = mem_step_wf [OF 1(3)]
  show ?thesis
  proof (cases "n \<le> 36")
    case True
    let ?ys = "take n (inline_bytes st1 (buf_m b1))"
    have l: "length ?ys = n" using True rep_inline_length [OF 1(2)] by simp
    then have "made (owned b) st (buf_alloc (int n) st b) ?ys"
      using True False 1 assms(2) rep_inline_length [OF 1(2)]
      by (auto simp: buf_alloc_def buf_rep_def short_size_def owned_def intro!: madeI)
    with l show ?thesis by blast
  next
    case large: False
    obtain a st2 where 2: "new_bytes n st1 = (a, st2)" by fastforce
    note nb = new_bytes_step [OF wf1 2]
    have "mem_step (owned b) {a} st st2" by (rule mem_step_trans [OF assms(1) 1(3) nb(1)])
    then have "made (owned b) st (buf_alloc (int n) st b) (junk_bytes st1 n)"
      using False large 1(1) 2 nb(2) assms(2)
      by (auto simp: buf_alloc_def set_long_ptr_def buf_rep_def short_size_def owned_def intro!: madeI)
    then show ?thesis by (intro exI [of _ "junk_bytes st1 n"]) simp
  qed
qed

lemma index_rep:
  assumes "buf_rep st b xs"
  shows "buf_index i st b = (if 0 \<le> i \<and> i < int (length xs) then Inr (xs ! nat i) else Inl Assert_Failed)"
proof (cases "0 \<le> i \<and> i < int (length xs)")
  case True
  then have "Suc (nat i) \<le> length xs" by linarith
  then show ?thesis using True data_read_rep [OF assms, of "Suc (nat i)"] assms by (simp add: buf_index_def buf_rep_def)
qed (use assms in \<open>auto simp: buf_index_def buf_rep_def\<close>)

lemma set_index_made:
  assumes "wf_mem st" "buf_rep st b xs" "i < length xs"
  shows "made (owned b) st (buf_set_index (int i) v st b) (xs[i := v])"
proof -
  have "buf_set_index (int i) v st b = data_write i [v] st b" using assms(2,3) by (simp add: buf_set_index_def buf_rep_def)
  then show ?thesis using data_write_made [OF assms(1,2), of i "[v]"] assms(3) by (simp add: upd_conv_take_nth_drop)
qed

lemma or_xor_eq_0: "or x (xor a b) = 0 \<longleftrightarrow> x = 0 \<and> a = (b :: u8)"
  by (auto simp: bit_eq_iff bit_or_iff bit_xor_iff)

lemma diff_bytes_fold:
  "length (xs :: bytes) = length ys \<Longrightarrow> fold (\<lambda>(a, b) x. or x (xor a b)) (zip xs ys) x = 0 \<longleftrightarrow> x = 0 \<and> xs = ys"
  by (induction xs ys arbitrary: x rule: list_induct2) (simp_all add: or_xor_eq_0)

lemma diff_bytes_eq_0: "length xs = length ys \<Longrightarrow> diff_bytes xs ys = 0 \<longleftrightarrow> xs = ys"
  by (simp add: diff_bytes_def diff_bytes_fold)

lemma equal_rep:
  assumes "buf_rep st b xs" "buf_rep st src ys"
  shows "buf_equal src st b = Inr (xs = ys)"
proof (cases "length xs = length ys")
  case True
  then show ?thesis
    using assms data_read_rep [OF assms(1), of "length xs"] data_read_rep [OF assms(2), of "length ys"] diff_bytes_eq_0
    by (simp add: buf_equal_def buf_rep_def)
qed (use assms in \<open>auto simp: buf_equal_def buf_rep_def\<close>)

lemma fill_made:
  assumes "wf_mem st" "\<exists>ys. length ys = n \<and> made A st r ys" "length bs = n"
  shows "made A st (bind_res r (\<lambda>(st, b). data_write 0 bs st b)) bs"
proof -
  obtain ys where ys: "length ys = n" "made A st r ys" using assms(2) by blast
  show ?thesis by (rule made_bind [OF assms(1) ys(2)]) (use data_write_made [of _ _ ys 0 bs] ys(1) assms(3) in auto)
qed

lemma xor_made: "wf_mem st \<Longrightarrow> length xs = length ys \<Longrightarrow> made {} st (buf_xor xs ys st) (xor_bytes xs ys)"
  using fill_made [OF _ sized_made [of st "length xs"], of "xor_bytes xs ys"] by (simp add: buf_xor_def)

lemma xor_assign_made:
  assumes "wf_mem st" "buf_rep st b xs" "length xs = length ys"
  shows "made (owned b) st (buf_xor_assign ys st b) (xor_bytes xs ys)"
proof -
  have "buf_xor_assign ys st b = data_write 0 (xor_bytes xs ys) st b"
    using data_read_rep [OF assms(2), of "length ys"] assms(2,3) by (simp add: buf_xor_assign_def buf_rep_def)
  then show ?thesis using data_write_made [OF assms(1,2), of 0 "xor_bytes xs ys"] assms(3) by simp
qed

lemma concat_made:
  assumes "wf_mem st" "int (length xs + length ys) \<le> INT_MAX"
  shows "made {} st (buf_concat xs ys st) (xs @ ys)"
proof -
  obtain zs where zs: "length zs = length xs + length ys" "made {} st (buf_sized (int (length xs + length ys)) st) zs"
    using sized_made [OF assms(1)] by blast
  have "made {} st (bind_res (buf_sized (int (length xs + length ys)) st) (\<lambda>(st, out).
          bind_res (data_write 0 xs st out) (\<lambda>(st, out). data_write (length xs) ys st out))) (xs @ ys)"
  proof (rule made_bind [OF assms(1) zs(2)])
    fix st1 b1 assume 1: "buf_rep st1 b1 zs" "wf_mem st1"
    have "made (owned b1) st1 (data_write 0 xs st1 b1) (xs @ drop (length xs) zs)"
      using data_write_made [OF 1(2,1), of 0 xs] zs(1) by simp
    then show "made (owned b1) st1 (case (st1, b1) of (st, out) \<Rightarrow>
          bind_res (data_write 0 xs st out) (\<lambda>(st, out). data_write (length xs) ys st out)) (xs @ ys)"
      using data_write_made [of _ _ "xs @ drop (length xs) zs" "length xs" ys] zs(1)
      by simp (rule made_bind [OF 1(2)], assumption, simp)
  qed
  then show ?thesis using assms(2) by (simp add: buf_concat_def)
qed

lemma append_made:
  assumes "wf_mem st" "buf_rep st b xs" "src st b = Inr bs" "int (length xs + length bs) \<le> INT_MAX"
  shows "made (owned b) st (buf_append src st b) (xs @ bs)"
proof -
  note ob = owned_rep(1) [OF assms(2)]
  have s: "buf_s b = int (length xs)" using assms(2) by (simp add: buf_rep_def)
  obtain st1 tmp where 1: "buf_from bs st = Inr (st1, tmp)" "buf_rep st1 tmp bs" "mem_step {} (owned tmp) st st1"
    using from_made [OF assms(1), of bs] by (auto simp: made_def)
  let ?T = "owned tmp"
  note wf1 = mem_step_wf [OF 1(3)]
  have T: "buf_s tmp = int (length bs)" "?T \<subseteq> dom (heap st1)" using 1(2) owned_rep(1) [OF 1(2)] by (simp_all add: buf_rep_def)
  have b1: "buf_rep st1 b xs" using rep_frame [OF assms(2) 1(3) _ assms(1)] by simp
  have d1: "owned b \<inter> ?T = {}" by (rule fresh_disjoint [OF 1(3) assms(1) ob])
  obtain ys st2 b2 where 2: "length (xs @ ys) = length xs + length bs" "buf_resize (int (length xs + length bs)) st1 b = Inr (st2, b2)"
    "buf_rep st2 b2 (xs @ ys)" "mem_step (owned b) (owned b2) st1 st2"
    using resize_resized [OF wf1 b1, of "length xs + length bs"] by (auto simp: resized_def made_def)
  note wf2 = mem_step_wf [OF 2(4)]
  note f2 = mem_step_frame [OF 2(4) _ T(2) wf1]
  have tmp2: "buf_rep st2 tmp bs" using rep_frame [OF 1(2) 2(4) _ wf1] d1 by blast
  obtain st3 b3 where 3: "data_write (length xs) bs st2 b2 = Inr (st3, b3)" "buf_rep st3 b3 (xs @ bs)" "mem_step (owned b2) (owned b3) st2 st3"
    using data_write_made [OF wf2 2(3), of "length xs" bs] 2(1) by (auto simp: made_def)
  note wf3 = mem_step_wf [OF 3(3)]
  have d2: "?T \<inter> owned b2 = {}" using f2(2) d1 by blast
  note f3 = mem_step_frame [OF 3(3) d2 owned_rep(1) [OF tmp2] wf2]
  have tmp3: "buf_rep st3 tmp bs" using rep_frame [OF tmp2 3(3) d2 wf2] .
  obtain st4 tmp4 where 4: "buf_free st3 tmp = Inr (st4, tmp4)" "mem_step ?T {} st3 st4" using free_made [OF wf3 tmp3] by blast
  have d3: "owned b3 \<inter> ?T = {}" using f3(2) by blast
  note f4 = mem_step_frame(1) [OF 4(2) d3 owned_rep(1) [OF 3(2)] wf3]
  have "mem_step (owned b) (?T \<union> owned b) st st1" using mem_step_frame(1) [OF 1(3) _ ob assms(1)] by simp
  then have "mem_step (owned b) (owned b2 \<union> ?T) st st2" using mem_step_trans [OF assms(1)] f2(1) d1 by (simp add: Un_commute Int_commute)
  then have "mem_step (owned b) (owned b3 \<union> ?T) st st3" using mem_step_trans [OF assms(1)] f3(1) by blast
  then have "mem_step (owned b) (owned b3) st st4" using mem_step_trans [OF assms(1)] f4 by (simp add: Un_commute)
  moreover have "buf_rep st4 b3 (xs @ bs)" by (rule rep_frame [OF 3(2) 4(2) d3 wf3])
  moreover have "buf_append src st b = Inr (st4, b3)"
    using assms(3,4) s 1(1) T(1) 2(2) 3(1) 4(1) data_read_rep [OF tmp2, of "length bs"] by (simp add: buf_append_def)
  ultimately show ?thesis by (auto intro: madeI)
qed

end
