(* ===== verification/Buf_Programs.thy ===== *)
theory Buf_Programs
  imports Buf_Rep
begin

text \<open>
  Sequences of buffer operations as a step relation on a memory and a set of variables, with its invariant.
\<close>


section \<open>Programs over buffers\<close>

text \<open>
  The states of a program that keeps buffers in variables, and its steps: constructions, assignments,
  updates and the destructor.
\<close>

type_synonym buf_state = "memory \<times> (nat \<rightharpoonup> buf)"

inductive buf_step :: "buf_state \<Rightarrow> buf_state \<Rightarrow> bool" where
  construct: "vs v = None \<Longrightarrow> buf_from xs st = Inr (st', b) \<Longrightarrow> buf_step (st, vs) (st', vs(v \<mapsto> b))"
| construct_sized: "vs v = None \<Longrightarrow> buf_sized n st = Inr (st', b) \<Longrightarrow> buf_step (st, vs) (st', vs(v \<mapsto> b))"
| construct_copy: "vs v = None \<Longrightarrow> vs w = Some src \<Longrightarrow> buf_copy src st (buf_new st) = Inr (st', b) \<Longrightarrow>
    buf_step (st, vs) (st', vs(v \<mapsto> b))"
| construct_move: "vs v = None \<Longrightarrow> vs w = Some src \<Longrightarrow> buf_move src st (buf_new st) = Inr (st', b, src') \<Longrightarrow>
    buf_step (st, vs) (st', vs(v \<mapsto> b, w \<mapsto> src'))"
| construct_concat: "vs v = None \<Longrightarrow> buf_concat xs ys st = Inr (st', b) \<Longrightarrow> buf_step (st, vs) (st', vs(v \<mapsto> b))"
| construct_xor: "vs v = None \<Longrightarrow> buf_xor xs ys st = Inr (st', b) \<Longrightarrow> buf_step (st, vs) (st', vs(v \<mapsto> b))"
| assign: "vs v = Some b \<Longrightarrow> vs w = Some src \<Longrightarrow> v \<noteq> w \<Longrightarrow> buf_assign src st b = Inr (st', b') \<Longrightarrow>
    buf_step (st, vs) (st', vs(v \<mapsto> b'))"
| assign_move: "vs v = Some b \<Longrightarrow> vs w = Some src \<Longrightarrow> v \<noteq> w \<Longrightarrow> buf_move_assign src st b = Inr (st', b', src') \<Longrightarrow>
    buf_step (st, vs) (st', vs(v \<mapsto> b', w \<mapsto> src'))"
| assign_mem: "vs v = Some b \<Longrightarrow> buf_assign_mem same src st b = Inr (st', b') \<Longrightarrow> buf_step (st, vs) (st', vs(v \<mapsto> b'))"
| assign_block: "vs v = Some b \<Longrightarrow> length src = 16 \<or> length src = 32 \<Longrightarrow> buf_assign_block src st b = Inr (st', b') \<Longrightarrow>
    buf_step (st, vs) (st', vs(v \<mapsto> b'))"
| append: "vs v = Some b \<Longrightarrow> buf_append src st b = Inr (st', b') \<Longrightarrow> buf_step (st, vs) (st', vs(v \<mapsto> b'))"
| resize: "vs v = Some b \<Longrightarrow> buf_resize (int n) st b = Inr (st', b') \<Longrightarrow> buf_step (st, vs) (st', vs(v \<mapsto> b'))"
| alloc: "vs v = Some b \<Longrightarrow> buf_alloc (int n) st b = Inr (st', b') \<Longrightarrow> buf_step (st, vs) (st', vs(v \<mapsto> b'))"
| set_index: "vs v = Some b \<Longrightarrow> buf_set_index i x st b = Inr (st', b') \<Longrightarrow> buf_step (st, vs) (st', vs(v \<mapsto> b'))"
| xor_assign: "vs v = Some b \<Longrightarrow> buf_xor_assign xs st b = Inr (st', b') \<Longrightarrow> buf_step (st, vs) (st', vs(v \<mapsto> b'))"
| bzero: "vs v = Some b \<Longrightarrow> buf_bzero st b = Inr (st', b') \<Longrightarrow> buf_step (st, vs) (st', vs(v \<mapsto> b'))"
| destroy: "vs v = Some b \<Longrightarrow> buf_free st b = Inr (st', b') \<Longrightarrow> buf_step (st, vs) (st', vs(v := None))"

text \<open>Every buffer represents some bytes, the blocks of the heap are the blocks of the buffers, one each, and
  whatever was released was wiped.\<close>

definition buf_inv :: "buf_state \<Rightarrow> bool" where
  "buf_inv = (\<lambda>(st, vs). wf_mem st \<and> (\<forall>v b. vs v = Some b \<longrightarrow> (\<exists>xs. buf_rep st b xs))
     \<and> (\<forall>v w b c. vs v = Some b \<longrightarrow> vs w = Some c \<longrightarrow> v \<noteq> w \<longrightarrow> owned b \<inter> owned c = {})
     \<and> dom (heap st) = (\<Union>b \<in> ran vs. owned b) \<and> list_all all_zero (released st))"

lemma buf_invD:
  assumes "buf_inv (st, vs)"
  shows "wf_mem st" "vs v = Some b \<Longrightarrow> \<exists>xs. buf_rep st b xs"
    "vs v = Some b \<Longrightarrow> vs w = Some c \<Longrightarrow> v \<noteq> w \<Longrightarrow> owned b \<inter> owned c = {}"
    "dom (heap st) = (\<Union>b \<in> ran vs. owned b)" "list_all all_zero (released st)"
  using assms by (simp_all add: buf_inv_def)

text \<open>
  The step of some variables: the buffers of \<open>V\<close> owned \<open>A\<close> before and own \<open>B\<close> after.
\<close>

lemma buf_inv_update:
  assumes inv: "buf_inv (st, vs)" and step: "mem_step A B st st'"
    and A: "A = (\<Union>b \<in> ran (vs |` V). owned b)" and B: "B = (\<Union>b \<in> ran (vs' |` V). owned b)"
    and same: "\<And>v. v \<notin> V \<Longrightarrow> vs' v = vs v"
    and rep: "\<And>v b. v \<in> V \<Longrightarrow> vs' v = Some b \<Longrightarrow> \<exists>xs. buf_rep st' b xs"
    and disj: "\<And>v w b c. v \<in> V \<Longrightarrow> w \<in> V \<Longrightarrow> vs' v = Some b \<Longrightarrow> vs' w = Some c \<Longrightarrow> v \<noteq> w \<Longrightarrow> owned b \<inter> owned c = {}"
  shows "buf_inv (st', vs')"
proof -
  note I = buf_invD [OF inv]
  have out: "owned b \<inter> A = {}" "owned b \<inter> B = {}" "\<exists>xs. buf_rep st' b xs" if v: "v \<notin> V" and b: "vs v = Some b" for v b
  proof -
    obtain xs where xs: "buf_rep st b xs" using I(2) b by blast
    show a: "owned b \<inter> A = {}" using I(3) [OF b] v by (auto simp: A ran_def restrict_map_def split: if_splits)
    show "owned b \<inter> B = {}" by (rule mem_step_frame(2) [OF step a owned_rep(1) [OF xs] I(1)])
    show "\<exists>xs. buf_rep st' b xs" using rep_frame [OF xs step a I(1)] by blast
  qed
  have in_B: "owned c \<subseteq> B" if "v \<in> V" "vs' v = Some c" for v c
    using that by (auto simp: B ran_def restrict_map_def)
  have split: "ran f = ran (f |` V) \<union> ran (f |` (- V))" for f :: "nat \<rightharpoonup> buf"
    by (auto simp: ran_def restrict_map_def)
  have rest: "vs' |` (- V) = vs |` (- V)" using same by (auto simp: restrict_map_def)
  have "(\<Union>b \<in> ran (vs |` (- V)). owned b) \<inter> A = {}" using out(1) by (auto simp: ran_def restrict_map_def split: if_splits)
  then have "dom (heap st) - A = (\<Union>b \<in> ran (vs |` (- V)). owned b)"
    using I(4) split [of vs] by (auto simp: A)
  then have dom: "dom (heap st') = (\<Union>b \<in> ran vs'. owned b)"
    using step split [of vs'] rest by (auto simp: mem_step_def B)
  have "owned b \<inter> owned c = {}" if "vs' v = Some b" "vs' w = Some c" "v \<noteq> w" for v w b c
  proof -
    have "vs v = Some b" if "v \<notin> V" using same [OF that] \<open>vs' v = Some b\<close> by simp
    moreover have "vs w = Some c" if "w \<notin> V" using same [OF that] \<open>vs' w = Some c\<close> by simp
    ultimately show ?thesis
      using disj [OF _ _ that] out(2) [of v b] out(2) [of w c] in_B [OF _ that(1)] in_B [OF _ that(2)] I(3) [OF _ _ that(3)]
      by (cases "v \<in> V"; cases "w \<in> V") blast+
  qed
  moreover have "\<exists>xs. buf_rep st' b xs" if "vs' v = Some b" for v b
    using that rep [of v b] out(3) [of v b] same by (cases "v \<in> V") auto
  moreover have "list_all all_zero (released st')" using step I(5) by (auto simp: mem_step_def)
  ultimately show ?thesis using dom mem_step_wf [OF step] by (simp add: buf_inv_def)
qed


lemma restrict_one: "ran (vs |` {v}) = (case vs v of Some b \<Rightarrow> {b} | None \<Rightarrow> {})"
  by (auto simp: ran_def restrict_map_def split: option.splits)

lemma buf_inv_update_one:
  assumes "buf_inv (st, vs)" "made (case vs v of Some b \<Rightarrow> owned b | None \<Rightarrow> {}) st (Inr (st', b')) ys"
  shows "buf_inv (st', vs(v \<mapsto> b'))"
  by (rule buf_inv_update [OF assms(1), where V = "{v}"])
     (use assms(2) in \<open>auto simp: made_def restrict_one split: option.splits\<close>)

lemma buf_inv_update_two:
  assumes "buf_inv (st, vs)" "v \<noteq> w" "vs w = Some src"
    "mem_step ((case vs v of Some b \<Rightarrow> owned b | None \<Rightarrow> {}) \<union> owned src) (owned b') st st'"
    "owned src' = {}" "buf_rep st' b' xs" "buf_rep st' src' ys"
  shows "buf_inv (st', vs(v \<mapsto> b', w \<mapsto> src'))"
proof (rule buf_inv_update [OF assms(1,4), where V = "{v, w}"])
  have "ran (f |` {v, w}) = ran (f |` {v}) \<union> ran (f |` {w})" for f :: "nat \<rightharpoonup> buf"
    by (auto simp: ran_def restrict_map_def)
  then show "(case vs v of Some b \<Rightarrow> owned b | None \<Rightarrow> {}) \<union> owned src = (\<Union>b \<in> ran (vs |` {v, w}). owned b)"
    using assms(3) by (simp add: restrict_one Un_commute split: option.splits)
  have "ran ((vs(v \<mapsto> b', w \<mapsto> src')) |` {v, w}) = {b', src'}"
    using assms(2) by (auto simp: ran_def restrict_map_def)
  then show "owned b' = (\<Union>b \<in> ran ((vs(v \<mapsto> b', w \<mapsto> src')) |` {v, w}). owned b)" using assms(5) by simp
qed (use assms in \<open>auto split: if_splits\<close>)

lemma buf_inv_remove:
  assumes "buf_inv (st, vs)" "vs v = Some b" "mem_step (owned b) {} st st'"
  shows "buf_inv (st', vs(v := None))"
  by (rule buf_inv_update [OF assms(1,3), where V = "{v}"]) (use assms in \<open>auto simp: restrict_one split: if_splits\<close>)

text \<open>What the guards of an update that ran say about its arguments.\<close>

lemma append_Inr: "buf_append src st b = Inr r \<Longrightarrow> \<exists>bs. src st b = Inr bs \<and> buf_s b \<le> INT_MAX - int (length bs)"
  by (auto simp: buf_append_def res_simps)

lemma assign_mem_Inr: "buf_assign_mem same src st b = Inr r \<Longrightarrow> same \<and> r = (st, b) \<or> \<not> same \<and> (\<exists>bs. src st b = Inr bs)"
  by (auto simp: buf_assign_mem_def res_simps split: if_splits)

lemma buf_step_inv:
  assumes "buf_step x y" "buf_inv x"
  shows "buf_inv y"
  using assms
proof cases
  case (construct vs v xs st st' b)
  then show ?thesis using buf_inv_update_one from_made [of st xs] buf_invD(1) assms(2) by fastforce
next
  case (construct_sized vs v n st st' b)
  then obtain k where k: "n = int k" using sized_negative [of n st] nonneg_int_cases [of n] by (cases "n < 0") auto
  obtain ys where "made {} st (buf_sized (int k) st) ys" using sized_made buf_invD(1) assms(2) construct_sized(1) by blast
  then show ?thesis using construct_sized k buf_inv_update_one [of st vs v st' b ys] assms(2) by simp
next
  case (construct_copy vs v w src st st' b)
  then obtain xs where "buf_rep st src xs" using buf_invD(2) assms(2) by blast
  then have "made {} st (buf_copy src st (buf_new st)) xs" using copy_made rep_new(1) buf_invD(1) assms(2) construct_copy(1) by blast
  then show ?thesis using construct_copy buf_inv_update_one [of st vs v st' b xs] assms(2) by simp
next
  case (construct_move vs v w src st st' b src')
  then obtain xs where xs: "buf_rep st src xs" using buf_invD(2) assms(2) by blast
  have wf: "wf_mem st" using buf_invD(1) assms(2) construct_move(1) by blast
  have m: "st' = st" "buf_rep st b xs" "owned b = owned src" "owned src' = {}" "\<exists>ys. buf_rep st src' ys"
    using move_made [OF wf xs rep_new(1)] construct_move(5) xs by (auto split: if_splits)
  have "mem_step (owned src) (owned b) st st" using mem_step_refl [OF wf owned_rep(1) [OF xs]] m(3) by simp
  moreover have "v \<noteq> w" using construct_move by auto
  ultimately show ?thesis using construct_move m buf_inv_update_two [of st vs v w src b st src' xs] assms(2) by fastforce
next
  case (construct_concat vs v xs ys st st' b)
  then have "int (length xs + length ys) \<le> INT_MAX" by (auto simp: buf_concat_def res_simps)
  then have "made {} st (buf_concat xs ys st) (xs @ ys)" using concat_made buf_invD(1) assms(2) construct_concat(1) by blast
  then show ?thesis using construct_concat buf_inv_update_one [of st vs v st' b "xs @ ys"] assms(2) by simp
next
  case (construct_xor vs v xs ys st st' b)
  then have "length xs = length ys" by (auto simp: buf_xor_def res_simps)
  then have "made {} st (buf_xor xs ys st) (xor_bytes xs ys)" using xor_made buf_invD(1) assms(2) construct_xor(1) by blast
  then show ?thesis using construct_xor buf_inv_update_one [of st vs v st' b "xor_bytes xs ys"] assms(2) by simp
next
  case (assign_block vs v b src st st' b')
  then obtain zs where zs: "buf_rep st b zs" using buf_invD(2) assms(2) by blast
  have "made (owned b) st (buf_assign_block src st b) src" using assign_block_made zs buf_invD(1) assms(2) assign_block(1,4) by auto
  then show ?thesis using assign_block buf_inv_update_one [of st vs v st' b' src] assms(2) by simp
next
  case (bzero vs v b st st' b')
  then obtain zs where zs: "buf_rep st b zs" using buf_invD(2) assms(2) by blast
  then have "made (owned b) st (buf_bzero st b) (replicate (length zs) 0)" using bzero_made buf_invD(1) assms(2) bzero(1) by blast
  then show ?thesis using bzero buf_inv_update_one [of st vs v st' b' "replicate (length zs) 0"] assms(2) by simp
next
  case (assign vs v b w src st st' b')
  then obtain xs zs where "buf_rep st src xs" "buf_rep st b zs" using buf_invD(2) assms(2) by blast
  then have "made (owned b) st (buf_assign src st b) xs"
    using assign_made [of st src xs b zs] buf_invD(1) [of st vs] buf_invD(3) [of st vs w src v b] assms(2) assign by simp
  then show ?thesis using assign buf_inv_update_one [of st vs v st' b' xs] assms(2) by simp
next
  case (assign_move vs v b w src st st' b' src')
  then obtain xs zs where "buf_rep st src xs" "buf_rep st b zs" using buf_invD(2) assms(2) by blast
  then obtain ys where "buf_rep st' b' xs" "mem_step (owned b \<union> owned src) (owned b') st st'" "owned src' = {}" "buf_rep st' src' ys"
    using move_assign_made [of st src xs b zs] buf_invD(1) [of st vs] buf_invD(3) [of st vs w src v b] assms(2) assign_move by auto
  then show ?thesis using assign_move buf_inv_update_two [of st vs v w src b' st' src' xs ys] assms(2) by simp
next
  case (assign_mem vs v b same src st st' b')
  then obtain zs where "buf_rep st b zs" using buf_invD(2) assms(2) by blast
  then have "\<exists>ys. made (owned b) st (buf_assign_mem same src st b) ys"
    using assign_mem_made [of st b zs src] assign_mem_Inr [OF assign_mem(4)] buf_invD(1) assms(2) assign_mem
      mem_step_refl [of st "owned b"] owned_rep(1) [of st b zs] by (cases same) (auto intro: madeI)
  then show ?thesis using assign_mem buf_inv_update_one [of st vs v st' b'] assms(2) by auto
next
  case (append vs v b src st st' b')
  then obtain zs where zs: "buf_rep st b zs" using buf_invD(2) assms(2) by blast
  obtain bs where "src st b = Inr bs" "int (length zs + length bs) \<le> INT_MAX"
    using append_Inr [OF append(4)] zs by (auto simp: buf_rep_def)
  then have "made (owned b) st (buf_append src st b) (zs @ bs)" using append_made zs buf_invD(1) assms(2) append(1) by blast
  then show ?thesis using append buf_inv_update_one [of st vs v st' b' "zs @ bs"] assms(2) by simp
next
  case (resize vs v b n st st' b')
  then obtain zs where "buf_rep st b zs" using buf_invD(2) assms(2) by blast
  then obtain ys where "made (owned b) st (buf_resize (int n) st b) ys"
    using resize_resized buf_invD(1) assms(2) resize(1) by (auto simp: resized_def) blast
  then show ?thesis using resize buf_inv_update_one [of st vs v st' b' ys] assms(2) by simp
next
  case (alloc vs v b n st st' b')
  then obtain zs where "buf_rep st b zs" using buf_invD(2) assms(2) by blast
  then obtain ys where "made (owned b) st (buf_alloc (int n) st b) ys" using alloc_made buf_invD(1) assms(2) alloc(1) by blast
  then show ?thesis using alloc buf_inv_update_one [of st vs v st' b' ys] assms(2) by simp
next
  case (set_index vs v b i x st st' b')
  then obtain zs where zs: "buf_rep st b zs" using buf_invD(2) assms(2) by blast
  have "0 \<le> i" "nat i < length zs" "int (nat i) = i" using set_index(4) zs by (auto simp: buf_set_index_def res_simps buf_rep_def)
  then have "made (owned b) st (buf_set_index i x st b) (zs[nat i := x])"
    using set_index_made [of st b zs "nat i" x] zs buf_invD(1) assms(2) set_index(1) by auto
  then show ?thesis using set_index buf_inv_update_one [of st vs v st' b' "zs[nat i := x]"] assms(2) by simp
next
  case (xor_assign vs v b xs st st' b')
  then obtain zs where zs: "buf_rep st b zs" using buf_invD(2) assms(2) by blast
  have "length zs = length xs" using xor_assign(4) zs by (auto simp: buf_xor_assign_def res_simps buf_rep_def)
  then have "made (owned b) st (buf_xor_assign xs st b) (xor_bytes zs xs)" using xor_assign_made zs buf_invD(1) assms(2) xor_assign(1) by blast
  then show ?thesis using xor_assign buf_inv_update_one [of st vs v st' b'] assms(2) by auto
next
  case (destroy vs v b st st' b')
  then obtain zs where "buf_rep st b zs" using buf_invD(2) assms(2) by blast
  then have "mem_step (owned b) {} st st'" using free_made [of st b zs] buf_invD(1) assms(2) destroy by auto
  then show ?thesis using destroy buf_inv_remove assms(2) by blast
qed

inductive buf_reachable :: "(nat \<Rightarrow> u8) \<Rightarrow> buf_state \<Rightarrow> bool" for g where
  init: "buf_reachable g (\<lparr>heap = Map.empty, next_addr = 0, released = [], junk = g\<rparr>, Map.empty)"
| step: "buf_reachable g x \<Longrightarrow> buf_step x y \<Longrightarrow> buf_reachable g y"

lemma buf_reachable_inv: "buf_reachable g x \<Longrightarrow> buf_inv x"
  by (induction rule: buf_reachable.induct) (auto simp: buf_step_inv, simp add: buf_inv_def wf_mem_def)

end
