(* ===== verification/Mem_View.thy ===== *)
theory Mem_View
  imports Buf
begin

text \<open>
  The memory view \<^verbatim>\<open>mem_t\<close> of \<^verbatim>\<open>core/buf.h\<close> and \<^verbatim>\<open>core/buf.cpp\<close>, as the bytes it shows: slices with their assertions, the two
  reversals and the comparison.
\<close>

definition mem_index :: "int \<Rightarrow> bytes \<Rightarrow> u8 res" where
  "mem_index index data = bind_res (cb_assert (0 \<le> index \<and> index < int (length data))) (\<lambda>_. Inr (data ! nat index))"

definition mem_range :: "int \<Rightarrow> int \<Rightarrow> bytes \<Rightarrow> bytes res" where
  "mem_range offset len data =
     bind_res (cb_assert (0 \<le> offset \<and> offset \<le> int (length data))) (\<lambda>_.
     bind_res (cb_assert (0 \<le> len \<and> len \<le> int (length data) - offset)) (\<lambda>_.
       Inr (take (nat len) (drop (nat offset) data))))"

definition mem_skip :: "int \<Rightarrow> bytes \<Rightarrow> bytes res" where
  "mem_skip offset data =
     bind_res (cb_assert (0 \<le> offset \<and> offset \<le> int (length data))) (\<lambda>_. Inr (drop (nat offset) data))"

definition mem_take :: "int \<Rightarrow> bytes \<Rightarrow> bytes res" where
  "mem_take len data = bind_res (cb_assert (0 \<le> len \<and> len \<le> int (length data))) (\<lambda>_. Inr (take (nat len) data))"

definition mem_equal :: "bytes \<Rightarrow> bytes \<Rightarrow> bool" where
  "mem_equal m1 m2 = (if length m1 \<noteq> length m2 then False else diff_bytes m1 m2 = 0)"

text \<open>\<^verbatim>\<open>memmove_reverse\<close> with \<^verbatim>\<open>n\<close> bytes to go: the next source byte goes to the last free place.\<close>

fun memmove_reverse :: "nat \<Rightarrow> bytes \<Rightarrow> bytes \<Rightarrow> bytes res" where
  "memmove_reverse 0 src dst = Inr dst"
| "memmove_reverse (Suc n) src dst =
     (if src = [] \<or> length dst \<le> n then Inl Out_Of_Bounds else memmove_reverse n (tl src) (dst[n := hd src]))"

definition mem_rev :: "(nat \<Rightarrow> u8) \<Rightarrow> bytes \<Rightarrow> bytes res" where
  "mem_rev fill data = memmove_reverse (length data) data (map fill [0..<length data])"

text \<open>The loop of \<^verbatim>\<open>mem_t::reverse\<close> with its two indices.\<close>

function reverse_loop :: "int \<Rightarrow> int \<Rightarrow> bytes \<Rightarrow> bytes" where
  "reverse_loop l r p =
     (if l < r then reverse_loop (l + 1) (r - 1) (p[nat l := p ! nat r, nat r := p ! nat l]) else p)"
  by pat_completeness auto
termination by (relation "measure (\<lambda>(l, r, _). nat (r - l))") auto

declare reverse_loop.simps [simp del]

definition mem_reverse :: "bytes \<Rightarrow> bytes" where
  "mem_reverse data = reverse_loop 0 (int (length data) - 1) data"

lemma memmove_reverse_rev:
  "length src \<le> length dst \<Longrightarrow> memmove_reverse (length src) src dst = Inr (rev src @ drop (length src) dst)"
proof (induction src arbitrary: dst)
  case (Cons x src)
  have "rev src @ drop (length src) (dst[length src := x]) = rev (x # src) @ drop (length (x # src)) dst"
    using Cons.prems by (simp add: Cons_nth_drop_Suc [symmetric])
  then show ?case using Cons.IH [of "dst[length src := x]"] Cons.prems by simp
qed simp

lemma mem_rev_rev: "mem_rev fill data = Inr (rev data)"
  by (simp add: mem_rev_def memmove_reverse_rev)

lemma reverse_loop_length [simp]: "length (reverse_loop l r p) = length p"
  by (induction l r p rule: reverse_loop.induct) (subst reverse_loop.simps, simp)

lemma reverse_loop_nth:
  "0 \<le> l \<Longrightarrow> l + r = int (length p) - 1 \<Longrightarrow> l \<le> r + 1 \<Longrightarrow> i < length p \<Longrightarrow>
     reverse_loop l r p ! i = (if l \<le> int i \<and> int i \<le> r then p ! (length p - 1 - i) else p ! i)"
proof (induction l r p rule: reverse_loop.induct)
  case (1 l r p)
  show ?case
  proof (cases "l < r")
    case True
    obtain a where a: "l = int a" using "1.prems"(1) by (rule nonneg_int_cases)
    obtain b where b: "r = int b" using True "1.prems"(1) by (metis less_imp_le order_trans nonneg_int_cases)
    have ab: "a < b" "length p = a + b + 1" using True a b "1.prems"(2) by simp_all
    let ?q = "p[a := p ! b, b := p ! a]"
    have q: "p[nat l := p ! nat r, nat r := p ! nat l] = ?q" using a b by simp
    have "reverse_loop l r p = reverse_loop (l + 1) (r - 1) ?q" using True by (subst reverse_loop.simps) (simp only: q if_True)
    moreover have "reverse_loop (l + 1) (r - 1) ?q ! i = (if l + 1 \<le> int i \<and> int i \<le> r - 1 then ?q ! (length ?q - 1 - i) else ?q ! i)"
      by (rule "1.IH" [OF True, unfolded q]) (use "1.prems" True in simp_all)
    ultimately have "reverse_loop l r p ! i = (if l + 1 \<le> int i \<and> int i \<le> r - 1 then ?q ! (length p - 1 - i) else ?q ! i)" by simp
    also have "l + 1 \<le> int i \<and> int i \<le> r - 1 \<longleftrightarrow> a < i \<and> i < b" using a b by auto
    also have "(if a < i \<and> i < b then ?q ! (length p - 1 - i) else ?q ! i) = (if a \<le> i \<and> i \<le> b then p ! (length p - 1 - i) else p ! i)"
    proof (cases "a < i \<and> i < b")
      case True
      then have "a + b - i \<noteq> a" "a + b - i \<noteq> b" using ab by auto
      with True ab show ?thesis by simp
    next
      case False
      then consider "i = a" | "i = b" | "\<not> (a \<le> i \<and> i \<le> b)" by linarith
      then show ?thesis using False ab by cases (auto simp: nth_list_update)
    qed
    also have "a \<le> i \<and> i \<le> b \<longleftrightarrow> l \<le> int i \<and> int i \<le> r" using a b by simp
    finally show ?thesis .
  next
    case False
    then have "l \<le> int i \<Longrightarrow> int i \<le> r \<Longrightarrow> length p - 1 - i = i" using "1.prems" by linarith
    with False show ?thesis by (auto simp: reverse_loop.simps [of l r p])
  qed
qed

lemma mem_reverse_rev: "mem_reverse data = rev data"
proof (rule nth_equalityI)
  fix i assume "i < length (mem_reverse data)"
  then show "mem_reverse data ! i = rev data ! i"
    using reverse_loop_nth [of 0 "int (length data) - 1" data i] by (simp add: mem_reverse_def rev_nth)
qed (simp add: mem_reverse_def)

end
