(* ===== verification/Spec2Isabelle.thy ===== *)
theory Spec2Isabelle
  imports Convert_Safe Hash_Encoding Examples_Protocol Buf_Programs Mem_View
begin

text \<open>
  cb-mpc is a C++ library of multi-party computation protocols for threshold signatures. Its layers are: the core
  (\<^verbatim>\<open>src/src/cbmpc/core\<close>: byte buffers, bit vectors, serialization, error values), the cryptographic base
  (\<^verbatim>\<open>src/src/cbmpc/crypto\<close>: big numbers, curves, polynomials, secret sharing), the zero-knowledge proofs (\<^verbatim>\<open>zk\<close>), the
  protocols with their messaging (\<^verbatim>\<open>protocol\<close>), and two interfaces on top (\<^verbatim>\<open>api\<close> in C++, \<^verbatim>\<open>c_api\<close> in C). A protocol runs in a
  job, which knows the parties and a transport; it shares secrets over an access structure, serializes its messages
  and sends them through the transport.

  \<^bold>\<open>Conventions.\<close> A call returns a value of \<open>'a res\<close>: a value, an error code (\<^verbatim>\<open>return E_...\<close>), a failed
  \<^verbatim>\<open>cb_assert\<close>, or the fault \<^verbatim>\<open>Out_Of_Bounds\<close> for what C++ leaves undefined (access outside an object, double release,
  shift by the width). A theorem that a call returns a value excludes all of these. Fixed-width integers are words where
  the code depends on the width, \<^verbatim>\<open>bn_t\<close> is an unbounded integer. Code outside the repository (OpenSSL, the system
  allocator, the callbacks of an integrator, the random generator, the digests and random oracles, the hash behind party identifiers) is a parameter;
  what is used of it is a named hypothesis: \<open>mod_inverse\<close>, \<open>good_gen\<close>, \<open>good_prims\<close> (sizes of digests and of random strings), \<open>zk_ready\<close> and \<open>batch_ready\<close> (the proofs of knowledge can succeed, and the check of a point accepts the points of an honest run), \<open>ac_ready\<close> (what an honest run over an access structure starts from), \<open>good_alloc\<close>, \<open>frees\<close>, \<open>handed_over\<close>, \<open>covers\<close>, \<open>delivers\<close>.

  \<^bold>\<open>Theories and what they model.\<close>
  \<^item> \<open>Prelude\<close>: \<^verbatim>\<open>core/error.h\<close>, the result type, loops that may fail.
  \<^item> \<open>Modular\<close>, \<open>Barrett\<close>, \<open>Limbs\<close>: \<^verbatim>\<open>mod_t\<close> of \<^verbatim>\<open>crypto/base_mod.cpp\<close>, first on values, then on arrays of 64-bit words (masked
    selection, conditional swap, addition and subtraction, the SCR inversion, Barrett reduction). The word routines refine
    the routines on values; \<open>barrett_ok\<close> is the condition on the modulus under which the reduction is exact, and one
    property exhibits a valid modulus for which it is not.
  \<^item> \<open>Lagrange\<close>: \<^verbatim>\<open>crypto/lagrange.cpp\<close>, evaluation and interpolation of scalars and of points. Points are an abelian group; the curve
    is a record of its order and generator.
  \<^item> \<open>Secret_Sharing\<close>, \<open>Sharing_Correct\<close>, \<open>Sharing_Exponent\<close>: \<^verbatim>\<open>node_t\<close> and \<^verbatim>\<open>ac_t\<close> of \<^verbatim>\<open>crypto/secret_sharing.cpp\<close>. The abstract side is the monotone
    formula \<open>satisfied\<close> of a tree; sharing, reconstruction, reconstruction in the exponent and the verification of shares are
    shown against it.
  \<^item> \<open>Key_Share\<close>: \<^verbatim>\<open>key_share_mp_t\<close> of \<^verbatim>\<open>protocol/ec_dkg.cpp\<close> and its conversion to an additive share for a quorum. The abstract side is
    \<open>coefficient\<close>, the product of Lagrange weights on the path to a party's leaf; the two recursions compute it on scalars and on
    points, and the coefficients of a quorum recombine the key.
  \<^item> \<open>Fischlin\<close>, \<open>Finite_Difference\<close>, \<open>Zk_Ec\<close>, \<open>Zk_Dl\<close>: \<^verbatim>\<open>zk/fischlin.cpp\<close> and \<^verbatim>\<open>zk/zk_ec.cpp\<close>, the proofs of knowledge of discrete logarithms. The locale
    \<open>fischlin_prover\<close> states what the callbacks of a prover promise to the search loop; the single and the batched prover
    provide it. \<open>Finite_Difference\<close> shows that the table of the batched prover holds the forward differences of the response
    polynomial; completeness is shown against the verifiers, and for the proof of equal logarithms that a false statement has one challenge for each pair of commitments.
  \<^item> \<open>Convert\<close>, \<open>Convert_Types\<close>, \<open>Convert_Containers\<close>, \<open>Convert_Maps\<close>, \<open>Tree_Convert\<close>: \<^verbatim>\<open>converter_t\<close> of \<^verbatim>\<open>core/convert.h\<close> and \<^verbatim>\<open>core/convert.cpp\<close>, and the
    serialization of access structures. The locale \<open>codec\<close> states what the \<^verbatim>\<open>convert\<close> of a type promises to \<^verbatim>\<open>ser\<close> and
    \<^verbatim>\<open>deser\<close>; every routine is an interpretation, and composite messages are built from interpretations.
  \<^item> \<open>Convert_Safe\<close>: reading of untrusted bytes. The locale \<open>reads_inside\<close> states what a routine promises on any input; every routine has
    it and the templates keep it, also those without a codec (bit vectors, flags, the rest of the input).
  \<^item> \<open>Buf\<close>, \<open>Buf_Rep\<close>, \<open>Buf_Programs\<close>, \<open>Mem_View\<close>: \<^verbatim>\<open>buf_t\<close> and \<^verbatim>\<open>mem_t\<close> of \<^verbatim>\<open>core/buf.cpp\<close>. A buffer keeps 36 bytes in place or owns a heap block; the operations refine
    operations on byte lists, and a step relation over programs with several variables keeps ownership and wiping.
  \<^item> \<open>Bits\<close>, \<open>Bits_Rep\<close>: \<^verbatim>\<open>bits_t\<close> of \<^verbatim>\<open>core/buf.cpp\<close>, 64-bit limbs against lists of bits.
  \<^item> \<open>Buf_Fixed\<close>: \<^verbatim>\<open>core/buf128.cpp\<close> and \<^verbatim>\<open>core/buf256.cpp\<close>. The locale \<open>fixed_buf\<close> states that a buffer is a word of its width; both buffers provide it, the
    larger one from the laws of the smaller. The carry-less product has two branches, the loop and the one over the instruction of the
    processor (a parameter); both are the product of polynomials over two elements.
  \<^item> \<open>Access_Api\<close>: access structures of the public interface (\<^verbatim>\<open>core/access_structure.h\<close>, \<^verbatim>\<open>api/access_structure_util.h\<close>).
  \<^item> \<open>Access_C\<close>: the flat arrays of the C interface (\<^verbatim>\<open>c_api/access_structure_adapter.h\<close>); \<open>c_tree\<close> says which tree they denote, type by type.
  \<^item> \<open>Jobs\<close>: party sets, public jobs, quorum names (\<^verbatim>\<open>protocol/mpc_job.h\<close>, \<^verbatim>\<open>api/job_util.h\<close>).
  \<^item> \<open>C_Memory\<close>, \<open>C_Transport\<close>: memory handed across the C boundary, the transport adapter and the C jobs (\<^verbatim>\<open>c_api/util.h\<close>,
    \<^verbatim>\<open>c_api/common.cpp\<close>, \<^verbatim>\<open>c_api/transport_adapter.h\<close>), over a heap that records what is released.
  \<^item> \<open>Messages\<close>: jobs, message containers and rounds (\<^verbatim>\<open>protocol/mpc_job.h\<close>, \<^verbatim>\<open>protocol/mpc_job.cpp\<close>). The locale \<open>mpc_msg\<close> states what a
    container promises to a round; the uniform and the nonuniform container provide it over every codec. The transport is a
    parameter, \<open>delivers\<close> says what a round relies on: channels that keep order and lose nothing.
  \<^item> \<open>Commitment\<close>, \<open>Hash_Encoding\<close>: \<^verbatim>\<open>crypto/commitment.h\<close>, and the bytes that \<^verbatim>\<open>encode_and_update\<close> of \<^verbatim>\<open>crypto/ro.h\<close> hashes. The protocols take the HMAC as a function of
    the hashed values; \<open>hmac_of\<close> is its instance on bytes. What was committed opens; two openings are a collision of the HMAC of bytes.
  \<^item> \<open>Rounds\<close>: protocols as programs that broadcast values and go on with what they receive. \<open>run_rounds\<close> runs all parties in lockstep, which is what
    \<open>broadcast_delivers\<close> and \<open>exchange_delivers\<close> show of the rounds of \<open>Messages\<close>; \<open>against\<close> runs one party against messages chosen by
    anyone. Deserialization is the step from values to the types of a call, with \<^verbatim>\<open>E_FORMAT\<close> when they differ.
  \<^item> \<open>Agree_Random\<close>: \<^verbatim>\<open>protocol/sid.h\<close>, \<^verbatim>\<open>protocol/committed_broadcast.h\<close> and \<^verbatim>\<open>protocol/agree_random.cpp\<close>. Honest parties agree on the exclusive or of their
    contributions, respectively on the digest of all of them.
  \<^item> \<open>Dkg\<close>, \<open>Dkg_Refresh\<close>: generation and refresh of keys by two and by several parties (\<^verbatim>\<open>dkg_2p_t\<close>, \<^verbatim>\<open>key_share_2p_t\<close>, \<^verbatim>\<open>key_share_mp_t\<close> of
    \<^verbatim>\<open>protocol/ec_dkg.cpp\<close>). A call is split at its broadcasts, each part continuing with the messages received. Honest runs end with a key
    whose parts fit; whatever others send, a run that succeeds ends with public data that fit the share. The key object passed to the
    generation is taken to be newly constructed.
  \<^item> \<open>Dkg_Ac\<close>, \<open>Dkg_Ac_Run\<close>: generation and refresh over an access structure (\<^verbatim>\<open>dkg_or_refresh_ac\<close>, \<^verbatim>\<open>dkg_ac\<close>, \<^verbatim>\<open>refresh_ac\<close>), where the parties of a quorum deal
    sharings over the tree and everyone adds them up. The first theory has the definitions and what a party that succeeds knows whatever the
    others send, among it that a refresh below a root of type OR cannot succeed; the second shows that an honest run ends with one
    sharing of the key (\<open>shared_key\<close>), which \<open>Key_Share\<close> turns into additive shares for any quorum.
  \<^item> \<open>Examples\<close>, \<open>Examples_Api\<close>, \<open>Examples_Protocol\<close>: the concrete data of the witnesses.

  \<^bold>\<open>Termination and fuel.\<close> Every loop is a total function except the search of \<^verbatim>\<open>fischlin_prove\<close>, which draws again until it succeeds: it is a
    partial function with the value \<^const>\<open>None\<close> when it runs forever, and it is shown to return when some attempt can succeed. The only fuel is in \<open>gen_name_loop\<close>, which looks for an unused name:
    one more step than there are used names is enough, since the candidate names are distinct (\<open>gen_internal_node_name_ok\<close>). The
    recursion of the C adapter is bounded by the depth limit, and the stack of \<^verbatim>\<open>collect_leaf_names\<close> by the nodes left.

  \<^bold>\<open>Not modelled.\<close> OpenSSL and what only forwards to it (\<^verbatim>\<open>base_bn.cpp\<close>, \<^verbatim>\<open>base_hash.cpp\<close>, \<^verbatim>\<open>base_rsa.cpp\<close>, \<^verbatim>\<open>drbg.cpp\<close>, \<^verbatim>\<open>mlkem768.cpp\<close>),
  the curve arithmetic (\<^verbatim>\<open>base_ecc.cpp\<close>, \<^verbatim>\<open>ec25519_core.cpp\<close>, the vendored secp256k1), encryption schemes, the other
  zero-knowledge proofs and the signing protocols built on them, whose security is a matter of probability and not of the functional behaviour treated
  here; logging, tests, demos, tools and vendored code.
\<close>

section \<open>Secret sharing over access structures\<close>

text \<open>
  C1. Sharing and reconstruction: for every validated access structure, every secret in range and any
  generator of reduced scalars, \<^verbatim>\<open>ac_t::share\<close> succeeds and gives exactly the leaves a share, and for
  every set of participants \<^verbatim>\<open>reconstruct_recursive\<close> on their shares returns the secret when
  \<^verbatim>\<open>enough_for_quorum\<close> accepts the set and \<^verbatim>\<open>E_INSUFFICIENT\<close> when it does not.
\<close>

theorem share_reconstruct_roundtrip:
  assumes "mod_inverse bn_inv" "field_modulus q" "good_gen gen" "validate_tree False t {} = Inr names"
    "pids_ok q pid t" "is_in_range q x"
  shows "\<exists>shares. ac_share gen pid TYPE('p::ab_group_add) t q x r = Inr shares
     \<and> dom shares = list_leaf_names t
     \<and> (\<forall>A. reconstruct_recursive bn_inv pid q (shares |` A) t =
          (if enough_for_quorum A t = Inr True then Inr x else error E_INSUFFICIENT))"
proof -
  obtain st v where st: "share_recursive gen pid q (0::'p) False t x (init_share_state r) = Inr st"
    "ac_shares st = (\<lambda>n. if n \<in> list_leaf_names t then Some (v n) else None)"
    using share_root [OF assms(3) field_modulus_barrett [OF assms(2)] assms(4-6)] by blast
  then have s: "ac_share gen pid TYPE('p) t q x r = Inr (ac_shares st)" by (simp add: ac_share_def)
  moreover have "dom (ac_shares st) = list_leaf_names t" by (auto simp: st(2) split: if_splits)
  moreover note mod_inverse.share_reconstruct [OF assms(1-6) s]
    enough_for_quorum_satisfied [OF validated_root(1) [OF assms(4)]]
  ultimately show ?thesis by simp
qed

theorem share_reconstruct_roundtrip_witness:
  "\<exists>shares. ac_share ex_gen ex_pid TYPE(11) ex_tree 11 8 0 = Inr shares
     \<and> reconstruct_recursive scr_checked_inv ex_pid 11 (shares |` {''a'', ''g''}) ex_tree = Inr 8
     \<and> reconstruct_recursive scr_checked_inv ex_pid 11 (shares |` {''a'', ''d''}) ex_tree = error E_INSUFFICIENT"
proof -
  obtain names where names: "validate_tree False ex_tree {} = Inr names" using ex_valid by blast
  show ?thesis
    using share_reconstruct_roundtrip [OF scr.mod_inverse_axioms field_11 ex_good names ex_pids, of 8, where 'p = 11 and r = 0]
    by (auto simp: is_in_range_def ex_quorum)
qed

text \<open>
  C12. \<^verbatim>\<open>validate_tree\<close> accepts exactly the well-formed trees: an unnamed root and named inner nodes,
  pairwise distinct names, thresholds between one and the number of children, gates with children and
  leaves without; it returns the names it has seen. Every other tree is \<^verbatim>\<open>E_BADARG\<close>.
\<close>

theorem validate_tree_characterisation:
  "validate_tree False t {} =
     (if wf_node t \<and> nname t = [] \<and> distinct (node_names t) then Inr (set (node_names t)) else error E_BADARG)"
  using validate_tree_iff [of False t "{}"] validate_tree_error [of False t "{}"]
  by (cases "validate_tree False t {}") auto

text \<open>
  C2. Reconstruction in the exponent: sharing with internals succeeds, and from the public shares of the
  leaves of any set of participants \<^verbatim>\<open>ac_t::reconstruct_exponent\<close> returns the public key \<open>x * G\<close> when the
  set is a quorum and \<^verbatim>\<open>E_INSUFFICIENT\<close> otherwise.
\<close>

theorem share_reconstruct_exponent_roundtrip:
  fixes c :: "'p::ab_group_add ecurve"
  assumes "mod_inverse bn_inv" "field_modulus (order c)" "smul (order c) (generator c) = 0" "good_gen gen"
    "root ac = Some t" "curve ac = Some c" "validate_tree False t {} = Inr names" "pids_ok (order c) pid t"
    "is_in_range (order c) x" "\<And>P. check P = success"
  shows "\<exists>st. share_with_internals gen pid ac (order c) x r = Inr st
     \<and> (\<forall>A. reconstruct_exponent bn_inv pid check ac ns (ac_internal_pub_shares st |` (A \<inter> list_leaf_names t)) =
          (if enough_for_quorum A t = Inr True then Inr (smul x (generator c)) else error E_INSUFFICIENT))"
proof -
  have wf: "wf_node t" using validated_root [OF assms(7)] by simp
  obtain st v where st: "share_recursive gen pid (order c) (generator c) True t x (init_share_state r) = Inr st"
    "v (nname t) = x" "consistent (order c) pid v t"
    "ac_internal_pub_shares st = (\<lambda>n. if True \<and> n \<in> set (node_names t) then Some (smul (v n) (generator c)) else None)"
    using share_root [OF assms(4) field_modulus_barrett [OF assms(2)] assms(7-9)] by blast
  have run: "share_with_internals gen pid ac (order c) x r = Inr st"
    using st(1) assms(5,6) by (simp add: share_with_internals_def)
  have ok: "fold_res (\<lambda>nm _. case shares nm of None \<Rightarrow> success | Some P \<Rightarrow> check P) ns () = success" for shares
    by (induction ns) (simp_all add: assms(10) split: option.splits)
  have pub: "pub_shares_of v (generator c) A t (ac_internal_pub_shares st |` (A \<inter> list_leaf_names t))" for A
    using leaf_names_subset [of t] by (auto simp: pub_shares_of_def st(4) restrict_map_def)
  have "reconstruct_exponent bn_inv pid check ac ns (ac_internal_pub_shares st |` (A \<inter> list_leaf_names t)) =
      (if enough_for_quorum A t = Inr True then Inr (smul x (generator c)) else error E_INSUFFICIENT)" for A
    using mod_inverse.reconstruct_exponent_consistent [OF assms(1-3) wf assms(8) st(3) pub] assms(5,6) ok st(2)
    by (simp add: reconstruct_exponent_def enough_for_quorum_satisfied [OF wf])
  with run show ?thesis by blast
qed

theorem share_reconstruct_exponent_roundtrip_witness:
  "\<exists>st. share_with_internals ex_gen ex_pid ex_ac 11 8 0 = Inr st
     \<and> reconstruct_exponent scr_checked_inv ex_pid (\<lambda>P. success) ex_ac []
         (ac_internal_pub_shares st |` ({''a'', ''g''} \<inter> list_leaf_names ex_tree)) = Inr (smul 8 1)"
proof -
  obtain names where names: "validate_tree False ex_tree {} = Inr names" using ex_valid by blast
  have c: "order ex_curve = 11" "generator ex_curve = 1" by (simp_all add: ex_curve_def)
  from share_reconstruct_exponent_roundtrip [OF scr.mod_inverse_axioms, of ex_curve ex_gen ex_ac ex_tree names ex_pid 8
      "\<lambda>P. success" 0 "[]"] field_11 ex_order ex_good names ex_pids
  show ?thesis unfolding c by (auto simp: is_in_range_def ex_quorum ex_ac_def)
qed

text \<open>
  Honest shares verify: after sharing with internals, the share of every leaf passes
  \<^verbatim>\<open>verify_share_against_ancestors_pub_data\<close> against the public data of its ancestors.
\<close>

lemma verify_share_accepts_honest:
  fixes c :: "'p::ab_group_add ecurve"
  assumes "mod_inverse bn_inv" "field_modulus (order c)" "smul (order c) (generator c) = 0"
    "root ac = Some t" "curve ac = Some c" "validate_tree False t {} = Inr names" "pids_ok (order c) pid t"
    "good_gen gen" "is_in_range (order c) x"
  shows "\<exists>st. share_with_internals gen pid ac (order c) x r = Inr st
     \<and> (\<forall>leaf si. ac_shares st leaf = Some si \<longrightarrow>
          verify_share_against_ancestors_pub_data bn_inv pid ac True (smul x (generator c)) si
            (ac_internal_pub_shares st) leaf = success)
     \<and> dom (ac_shares st) = list_leaf_names t"
proof -
  obtain st v where st: "share_recursive gen pid (order c) (generator c) True t x (init_share_state r) = Inr st"
    "ac_shares st = (\<lambda>n. if n \<in> list_leaf_names t then Some (v n) else None)"
    using share_root [OF assms(8) field_modulus_barrett [OF assms(2)] assms(6,7,9)] by blast
  then have run: "share_with_internals gen pid ac (order c) x r = Inr st"
    using assms(4,5) by (simp add: share_with_internals_def)
  moreover note mod_inverse.verify_share_honest [OF assms(1-9) run]
  moreover have "dom (ac_shares st) = list_leaf_names t" by (auto simp: st(2) split: if_splits)
  ultimately show ?thesis by blast
qed

text \<open>
  Sharings add up: the leaf-wise sum of two sharings of \<open>x\<close> and \<open>y\<close> over the same structure
  reconstructs to \<open>x + y\<close> for every quorum. Refresh adds a sharing of zero this way.
\<close>

lemma sharings_add:
  assumes "mod_inverse bn_inv" "field_modulus q" "good_gen gen" "validate_tree False t {} = Inr names"
    "pids_ok q pid t" "is_in_range q x" "is_in_range q y"
    "ac_share gen pid TYPE('p::ab_group_add) t q x r = Inr shares"
    "ac_share gen pid TYPE('p) t q y r' = Inr shares'" "enough_for_quorum A t = Inr True"
  shows "reconstruct_recursive bn_inv pid q
       (\<lambda>n. if n \<in> A \<inter> list_leaf_names t then Some ((the (shares n) + the (shares' n)) mod q) else None) t
     = Inr ((x + y) mod q)"
proof -
  note ok = field_modulus_barrett [OF assms(2)]
  have wf: "wf_node t" using validated_root [OF assms(4)] by simp
  obtain st v where v: "share_recursive gen pid q (0::'p) False t x (init_share_state r) = Inr st"
    "v (nname t) = x" "consistent q pid v t" "\<forall>n\<in>set (node_names t). is_in_range q (v n)"
    "ac_shares st = (\<lambda>n. if n \<in> list_leaf_names t then Some (v n) else None)"
    using share_root [OF assms(3) ok assms(4-6)] by blast
  obtain st' w where w: "share_recursive gen pid q (0::'p) False t y (init_share_state r') = Inr st'"
    "w (nname t) = y" "consistent q pid w t" "\<forall>n\<in>set (node_names t). is_in_range q (w n)"
    "ac_shares st' = (\<lambda>n. if n \<in> list_leaf_names t then Some (w n) else None)"
    using share_root [OF assms(3) ok assms(4,5,7)] by blast
  let ?u = "\<lambda>n. (v n + w n) mod q"
  have q0: "0 < q" using barrett_ok_valid(2) [OF ok] by simp
  have "shares = ac_shares st" "shares' = ac_shares st'" using assms(8,9) v(1) w(1) by (simp_all add: ac_share_def)
  then have "shares_of ?u A t
      (\<lambda>n. if n \<in> A \<inter> list_leaf_names t then Some ((the (shares n) + the (shares' n)) mod q) else None)"
    by (simp add: shares_of_def v(5) w(5))
  from mod_inverse.reconstruct_consistent [OF assms(1,2) wf assms(5) consistent_add [OF v(3) w(3)] _ this] q0
  show ?thesis
    using assms(10) v(2) w(2) by (simp add: enough_for_quorum_satisfied [OF wf])
qed

text \<open>
  The quorum test is monotone: a set of names that contains a quorum of a validated structure is a
  quorum, and only the names of leaves count.
\<close>

lemma quorum_monotone:
  assumes "validate_tree False t {} = Inr names" "enough_for_quorum A t = Inr True" "A \<inter> list_leaf_names t \<subseteq> B"
  shows "enough_for_quorum B t = Inr True"
  using assms satisfied_mono [of "A \<inter> list_leaf_names t" B t] satisfied_leaves [of A t]
  by (simp add: enough_for_quorum_satisfied [OF validated_root(1) [OF assms(1)]])

section \<open>Key shares\<close>

text \<open>
  C3. Additive shares of a quorum: after a dealer has shared the key \<open>x\<close> with internals, every party of a quorum that calls
  \<^verbatim>\<open>key_share_mp_t::to_additive_share\<close> gets a share \<open>s P\<close> such that the shares of the quorum add up to \<open>x\<close> modulo the order, a party
  outside the quorum gets zero, and all parties compute the same public shares \<open>s P * G\<close>, which add up to the public key. When the
  parties are no quorum the call returns \<^verbatim>\<open>E_INSUFFICIENT\<close>.
\<close>

theorem additive_shares_correct:
  fixes c :: "'p::ab_group_add ecurve"
  assumes "mod_inverse bn_inv" "field_modulus (order c)" "smul (order c) (generator c) = 0" "good_gen gen"
    "root ac = Some t" "curve ac = Some c" "validate_tree False t {} = Inr names" "pids_ok (order c) pid t"
    "is_in_range (order c) x"
  shows "\<exists>st. share_with_internals gen pid ac (order c) x r = Inr st
     \<and> (\<forall>A. if enough_for_quorum (set A) t = Inr True
        then \<exists>s. (\<Sum>P\<in>set A. s P) mod order c = x \<and> (\<Sum>P\<in>set A. smul (s P) (generator c)) = smul x (generator c)
           \<and> (\<forall>P\<in>list_leaf_names t. is_in_range (order c) (s P) \<and> (P \<notin> set A \<longrightarrow> s P = 0)
              \<and> to_additive_share bn_inv pid ac A (dealt_key c t x st P) = Inr ((dealt_key c t x st P)\<lparr>x_share := s P,
                    Qis := (\<lambda>n. if n \<in> set A then Some (smul (s n) (generator c)) else None)\<rparr>))
        else \<forall>P\<in>list_leaf_names t. to_additive_share bn_inv pid ac A (dealt_key c t x st P) = error E_INSUFFICIENT)"
proof -
  let ?q = "order c" and ?G = "generator c"
  have wf: "wf_node t" "distinct (node_names t)" using validated_root [OF assms(7)] by simp_all
  have q0: "0 < ?q" using field_modulus_gt [OF assms(2)] by simp
  obtain st v where st: "share_recursive gen pid ?q ?G True t x (init_share_state r) = Inr st"
    "v (nname t) = x" "consistent ?q pid v t" "\<forall>n\<in>set (node_names t). is_in_range ?q (v n)"
    "ac_shares st = (\<lambda>n. if n \<in> list_leaf_names t then Some (v n) else None)"
    "ac_internal_pub_shares st = (\<lambda>n. if True \<and> n \<in> set (node_names t) then Some (smul (v n) ?G) else None)"
    using share_root [OF assms(4) field_modulus_barrett [OF assms(2)] assms(7-9)] by blast
  have run: "share_with_internals gen pid ac ?q x r = Inr st"
    using st(1) assms(5,6) by (simp add: share_with_internals_def)
  have part: "to_additive_share bn_inv pid ac A (dealt_key c t x st P) =
      (if satisfied (set A) t then Inr ((dealt_key c t x st P)\<lparr>x_share := additive_part ?q pid v (set A) t P,
        Qis := (\<lambda>n. if n \<in> set A then Some (smul (additive_part ?q pid v (set A) t n) ?G) else None)\<rparr>)
      else error E_INSUFFICIENT)" if "P \<in> list_leaf_names t" for A P
  proof -
    have leaf: "n \<in> list_leaf_names t \<Longrightarrow> n \<in> set (node_names t)" for n using leaf_names_subset [of t] by blast
    show ?thesis
      using mod_inverse.to_additive_share_correct [OF assms(1-3,5) wf assms(8), of "dealt_key c t x st P" v A] leaf that st(4-6)
      by (simp add: dealt_key_def)
  qed
  note sums = mod_inverse.additive_parts_sum [OF assms(1,2) finite_set wf(1) assms(8) st(3), unfolded st(2), OF _ assms(9)]
  show ?thesis
    by (intro exI [of _ st] conjI run allI)
       (use part sums(1) sums(2) [OF _ assms(3)] additive_part_support [OF q0] in
         \<open>auto simp: enough_for_quorum_satisfied [OF wf(1)] intro!: exI [of _ "additive_part ?q pid v (set _) t"]\<close>)
qed

theorem additive_shares_correct_witness:
  "\<exists>st s. share_with_internals ex_gen ex_pid ex_ac 11 8 0 = Inr st \<and> (s ''a'' + s ''g'') mod 11 = 8
     \<and> (\<forall>P\<in>{''a'', ''g''}. to_additive_share scr_checked_inv ex_pid ex_ac [''a'', ''g''] (dealt_key ex_curve ex_tree 8 st P)
          = Inr ((dealt_key ex_curve ex_tree 8 st P)\<lparr>x_share := s P,
              Qis := (\<lambda>n. if n \<in> {''a'', ''g''} then Some (smul (s n) 1) else None)\<rparr>))
     \<and> to_additive_share scr_checked_inv ex_pid ex_ac [''a'', ''d''] (dealt_key ex_curve ex_tree 8 st ''a'') = error E_INSUFFICIENT"
proof -
  obtain names where names: "validate_tree False ex_tree {} = Inr names" using ex_valid by blast
  have c: "order ex_curve = 11" "generator ex_curve = 1" by (simp_all add: ex_curve_def)
  have leaves: "''a'' \<in> list_leaf_names ex_tree" "''g'' \<in> list_leaf_names ex_tree" by (simp_all add: ex_tree_def)
  obtain st where st: "share_with_internals ex_gen ex_pid ex_ac 11 8 0 = Inr st"
    and all: "\<And>A. if enough_for_quorum (set A) ex_tree = Inr True
        then \<exists>s. (\<Sum>P\<in>set A. s P) mod 11 = 8 \<and> (\<Sum>P\<in>set A. smul (s P) 1) = (smul 8 1 :: 11)
           \<and> (\<forall>P\<in>list_leaf_names ex_tree. is_in_range 11 (s P) \<and> (P \<notin> set A \<longrightarrow> s P = 0)
              \<and> to_additive_share scr_checked_inv ex_pid ex_ac A (dealt_key ex_curve ex_tree 8 st P) = Inr ((dealt_key ex_curve ex_tree 8 st P)\<lparr>x_share := s P,
                    Qis := (\<lambda>n. if n \<in> set A then Some (smul (s n) 1) else None)\<rparr>))
        else \<forall>P\<in>list_leaf_names ex_tree. to_additive_share scr_checked_inv ex_pid ex_ac A (dealt_key ex_curve ex_tree 8 st P) = error E_INSUFFICIENT"
    using additive_shares_correct [OF scr.mod_inverse_axioms, of ex_curve ex_gen ex_ac ex_tree names ex_pid 8 0] field_11 ex_order ex_good
      names ex_pids unfolding c by (auto simp: is_in_range_def ex_ac_def)
  have bad: "to_additive_share scr_checked_inv ex_pid ex_ac [''a'', ''d''] (dealt_key ex_curve ex_tree 8 st ''a'') = error E_INSUFFICIENT"
    using all [of "[''a'', ''d'']"] ex_quorum(2) leaves by simp
  from all [of "[''a'', ''g'']"] ex_quorum(1) obtain s where "(\<Sum>P\<in>{''a'', ''g''}. s P) mod 11 = 8"
    "\<forall>P\<in>list_leaf_names ex_tree. to_additive_share scr_checked_inv ex_pid ex_ac [''a'', ''g''] (dealt_key ex_curve ex_tree 8 st P)
       = Inr ((dealt_key ex_curve ex_tree 8 st P)\<lparr>x_share := s P,
           Qis := (\<lambda>n. if n \<in> {''a'', ''g''} then Some (smul (s n) 1) else None)\<rparr>)"
    by auto
  with st leaves bad show ?thesis by (intro exI [of _ st] exI [of _ s]) (simp add: add.commute)
qed

section \<open>Polynomials\<close>

text \<open>
  C15. \<^verbatim>\<open>lagrange_interpolate\<close> evaluates the polynomial through the shares: on the values of a polynomial of
  degree below the number of points, at distinct positive points, it returns the value at \<open>x\<close>.
\<close>

theorem lagrange_interpolate_evaluates:
  assumes "mod_inverse bn_inv" "field_modulus q" "good_pids q pids" "length b \<le> length pids"
  shows "lagrange_interpolate vt bn_inv q x (map (\<lambda>p. poly_eval b p mod q) pids) pids = Inr (poly_eval b x mod q)"
  using mod_inverse.interpolate_polynomial [OF assms refl] .

theorem lagrange_interpolate_evaluates_witness:
  "lagrange_interpolate False scr_checked_inv 11 0 (map (\<lambda>p. poly_eval [8, 3] p mod 11) [1, 5]) [1, 5] = Inr 8"
  using lagrange_interpolate_evaluates [OF scr.mod_inverse_axioms field_11, of "[1, 5]" "[8, 3]" False 0]
  by (simp add: good_pids_def)

text \<open>
  \<^verbatim>\<open>horner_poly\<close> on reduced coefficients and a reduced point is the value of the polynomial, and it
  rejects an empty coefficient list.
\<close>

lemma horner_poly_evaluates:
  assumes "barrett_ok q" "list_all (is_in_range q) a" "is_in_range q x"
  shows "horner_poly vt q a x = (if a = [] then Inl Assert_Failed else Inr ((\<Sum>k<length a. a ! k * x ^ k) mod q))"
  using horner_poly_correct [of q vt a x] barrett_ok_valid(2) [OF assms(1)] assms horner_poly_reject_empty
  by (auto simp: poly_eval_monomials)

text \<open>
  \<^verbatim>\<open>horner_poly_small_vartime\<close> agrees with \<^verbatim>\<open>horner_poly\<close> on points for every C \<^verbatim>\<open>int\<close>, \<^verbatim>\<open>INT_MIN\<close> included.
\<close>

lemma horner_small_agrees: "horner_poly_small_vartime A x = horner_poly_point A (sint x)"
  by (rule horner_poly_small_vartime_eq)

section \<open>Zero-knowledge proofs\<close>

text \<open>
  C16. Completeness of the batched proof of knowledge of discrete logarithms: when some attempt of the prover has nonces for which every index
  has a challenge whose response hashes to trailing zeros, where the response is the value of the polynomial of the secrets, then
  \<^verbatim>\<open>uc_batch_dl_t::prove\<close> returns, although it computes the responses by finite differences, and \<^verbatim>\<open>verify\<close> accepts the proof. The check of points refuses the
  point at infinity, so neither the secrets nor the numbers drawn may be multiples of the order.
\<close>

theorem batch_dl_proof_accepted:
  assumes "barrett_ok (order c)" "order c \<le> BIN_LIMIT" "good_gen gen" "smul (order c) (generator c) = 0"
    "accepts_finite check" "finite_gen gen c" "0 \<notin> set (commitments (generator c) w)"
    "w \<noteq> []" "int (length w) \<le> 2 ^ 20" "(int (length w) + 1) div 2 < order c" "list_all (is_in_range (order c)) w"
    "batch_lucky sha hash_string c w session_id aux (nonces gen (order c) (nat (fp_rho (batch_params (int (length w))))) m r)"
  shows "\<exists>pf r'. batch_dl_prove sha hash_string gen c (commitments (generator c) w) w session_id aux r = Some (Inr (pf, r'))
    \<and> batch_dl_verify sha hash_string check c (commitments (generator c) w) session_id aux pf = success"
  by (rule batch_dl_complete [OF assms])

theorem batch_dl_proof_accepted_witness:
  "\<exists>pf r'. batch_dl_prove (\<lambda>_. replicate 32 0) (\<lambda>_ _ _ _ _. []) ex_count ex_curve (commitments 1 [3, 5]) [3, 5] [] 0 (0 :: nat) = Some (Inr (pf, r'))
    \<and> batch_dl_verify (\<lambda>_. replicate 32 0) (\<lambda>_ _ _ _ _. []) (\<lambda>P. if P = 0 then error E_CRYPTO else success) ex_curve (commitments 1 [3, 5]) [] 0 pf = success"
proof -
  have c: "order ex_curve = 11" "generator ex_curve = 1" by (simp_all add: ex_curve_def)
  have p: "0 < fp_rho (batch_params 2)" "(1 :: int) \<le> 2 ^ nat (fp_t (batch_params 2))" by (simp_all add: batch_params_def Let_def)
  have "fischlin_digest (\<lambda>_. replicate 32 0) h i j z = 0" for h i j z
    by (simp add: fischlin_digest_def be_get_4_def be_get_2_def eval_nat_numeral)
  then have luck: "batch_lucky (\<lambda>_. replicate 32 0) (\<lambda>_ _ _ _ _. []) ex_curve [3, 5] [] 0 rs" for rs
    using p by (auto simp: batch_lucky_def Let_def list_all_iff list_ex_iff intro!: bexI [of _ 0])
  show ?thesis
    using batch_dl_proof_accepted [where c = ex_curve and gen = ex_count and check = "\<lambda>P. if P = 0 then error E_CRYPTO else success" and w = "[3, 5]" and
        sha = "\<lambda>_. replicate 32 0" and hash_string = "\<lambda>_ _ _ _ _. []" and session_id = "[]" and aux = 0 and m = 0 and r = 0]
      luck field_modulus_barrett [OF field_11] ex_order ex_count_good ex_count_finite ex_smul [of 3] ex_smul [of 5]
    unfolding c by (simp add: BIN_LIMIT_def is_in_range_def accepts_finite_def commitments_def)
qed

text \<open>
  C17. Soundness of the proof of equal discrete logarithms: if \<open>A\<close> and \<open>B\<close> are not the same multiple of the generator and of \<open>Q\<close>, then for all points
  \<open>X\<close>, \<open>Y\<close> there is only one challenge: \<^verbatim>\<open>dh_t::verify\<close> accepts a proof that yields these commitments only under an oracle that answers it
  with exactly that challenge, whatever the session and the auxiliary input.
\<close>

theorem dh_proof_sound:
  assumes "field_modulus (order c)" "smul (order c) A = 0" "smul (order c) B = 0" "\<nexists>w. A = smul w (generator c) \<and> B = smul w Q"
  shows "\<exists>e. \<forall>hash_mod check sid aux pf. dh_verify hash_mod check c Q A B sid aux pf = success
    \<longrightarrow> dh_X (generator c) A pf = X \<longrightarrow> dh_X Q B pf = Y \<longrightarrow> hash_mod (order c) [generator c, Q, A, B, X, Y] sid aux = e"
  by (rule dh_sound [OF assms])

theorem dh_proof_sound_witness:
  "dh_verify (\<lambda>_ _ _ _. 1) (\<lambda>_. success) ex_curve 2 3 7 [] 0 \<lparr>dh_e = 1, dh_z = 7\<rparr> = success
    \<and> (\<nexists>pf. dh_verify (\<lambda>_ _ _ _. 2) (\<lambda>_. success) ex_curve 2 3 7 [] 0 pf = success
      \<and> dh_X 1 3 pf = (4 :: 11) \<and> dh_X 2 7 pf = (7 :: 11))"
proof -
  have c: "order ex_curve = 11" "generator ex_curve = 1" by (simp_all add: ex_curve_def)
  have z: "smul 11 (3 :: 11) = 0" "smul 11 (7 :: 11) = 0" by (simp_all add: smul_def eval_nat_numeral)
  have no: "\<nexists>w. (3 :: 11) = smul w 1 \<and> (7 :: 11) = smul w 2"
  proof
    assume "\<exists>w. (3 :: 11) = smul w 1 \<and> (7 :: 11) = smul w 2"
    then obtain w where "(3 :: 11) = smul w 1" "(7 :: 11) = smul w (1 + 1)" by auto
    then have "(7 :: 11) = 3 + 3" by (simp only: smul_plus)
    then show False by simp
  qed
  have one: "dh_verify (\<lambda>_ _ _ _. 1) (\<lambda>_. success) ex_curve 2 3 7 [] 0 \<lparr>dh_e = 1, dh_z = 7\<rparr> = success"
    "dh_X 1 (3 :: 11) \<lparr>dh_e = 1, dh_z = 7\<rparr> = 4" "dh_X 2 (7 :: 11) \<lparr>dh_e = 1, dh_z = 7\<rparr> = 7"
    by (simp_all add: dh_verify_def c Let_def check_right_open_range_def dh_X_def smul_def eval_nat_numeral)
  obtain e where e: "\<And>hash_mod check sid aux pf. dh_verify hash_mod check ex_curve 2 3 7 sid aux pf = success
      \<Longrightarrow> dh_X 1 3 pf = (4 :: 11) \<Longrightarrow> dh_X 2 7 pf = (7 :: 11) \<Longrightarrow> hash_mod 11 [1, 2, 3, 7, 4, 7] sid aux = e"
    using dh_proof_sound [of ex_curve 3 7 2 4 7] z no field_11 unfolding c by blast
  have "1 = e" by (rule e [OF one])
  then show ?thesis using one(1) e [where hash_mod = "\<lambda>_ _ _ _. 2"] by fastforce
qed

section \<open>Modular arithmetic\<close>

text \<open>
  C14. \<^verbatim>\<open>scr_inv\<close> terminates without an assertion for every valid modulus and reduced operand, its result is
  reduced, and it is the inverse whenever operand and modulus are coprime.
\<close>

theorem scr_inv_inverts:
  assumes "is_valid_modulus m" "is_in_range m x"
  shows "\<exists>r. scr_inv m x = Inr r \<and> is_in_range m r \<and> (coprime x m \<longrightarrow> (x * r) mod m = 1)"
proof -
  obtain r where r: "scr_inv m x = Inr r" "is_in_range m r" "eqm m (r * x) (gcd x m)"
    using scr_inv_gcd [OF assms] by blast
  have "(x * r) mod m = 1" if "coprime x m"
    using r(3) that assms(1) by (simp add: eqm_def mult.commute is_valid_modulus_def)
  with r show ?thesis by blast
qed

theorem scr_inv_inverts_witness: "\<exists>r. scr_inv 11 7 = Inr r \<and> is_in_range 11 r \<and> (7 * r) mod 11 = 1"
proof -
  have "coprime (7::int) 11" by code_simp
  with scr_inv_inverts [OF valid_11, of 7] show ?thesis by (auto simp: is_in_range_def)
qed

text \<open>
  C13. The constant-time reduction \<^verbatim>\<open>mod_t::_mod\<close>, on words, returns the remainder for every modulus in
  \<open>barrett_ok\<close> and every operand of at most twice its words, whatever the multiplication it calls as long
  as that multiplies.
\<close>

theorem barrett_words_reduces:
  assumes "word_mul bn_mul_normal" "barrett_ok (lval mm)" "length mm = bn_top (lval mm)"
    "length mu = length mm + 1" "lval mu = 2 ^ (64 * (2 * length mm)) div lval mm"
    "length mm \<le> length x" "length x \<le> 2 * length mm"
  shows "length (barrett_words bn_mul_normal mm mu x) = length mm
     \<and> lval (barrett_words bn_mul_normal mm mu x) = lval x mod lval mm"
proof -
  have "0 < lval mm" using barrett_ok_valid(2) [OF assms(2)] by simp
  then have k: "0 < length mm" using bn_top_bounds(3) assms(3) by simp
  have "lval x < 2 ^ (64 * (2 * length mm))"
    by (rule order_less_le_trans [OF lval_less]) (use assms(7) in \<open>auto intro: power_increasing\<close>)
  with barrett_tail_exact [OF assms(2,3), of "lval x"]
    word_mul.barrett_words_refines [OF assms(1) refl k assms(6,4)] assms(5) show ?thesis by simp
qed

theorem barrett_words_reduces_witness:
  "lval (barrett_words (\<lambda>a b. barrett_partial_mul (length a + length b) a b) [11] (to_limbs 2 (2 ^ 128 div 11)) [7, 5])
     = (7 + 2 ^ 64 * 5) mod 11"
proof -
  have "bn_top 11 = 1" using bn_top_eqI [of 0 11] by simp
  with barrett_words_reduces [OF full_mul.word_mul_axioms, of "[11]" "to_limbs 2 (2 ^ 128 div 11)" "[7, 5]"]
    field_modulus_barrett [OF field_11] show ?thesis by (simp add: lval_to_limbs)
qed

text \<open>
  Modular multiplication outside a vartime scope: for a modulus in \<open>barrett_ok\<close> the product of
  reduced operands is exact, and an operand out of range is always caught by an assertion.
\<close>

lemma mod_mul_constant_time:
  assumes "barrett_ok m"
  shows "mod_mul False m a b =
     (if is_in_range m a \<and> is_in_range m b then Inr ((a * b) mod m) else Inl Assert_Failed)"
  using mod_mul_in_range [of False m a b] mod_ops_reject_unreduced(3) [of m a b] assms by auto

text \<open>
  C21. For a valid modulus outside \<open>barrett_ok\<close> the constant-time multiplication can be wrong: modulo
  \<open>m = 2^192 - 2^96 + 1\<close> the product of \<open>m - 2\<close> and \<open>m - 2^96 + 1\<close> comes out as \<open>2^96 - 1\<close> where the
  remainder is \<open>2^97 - 2\<close>, because the second conditional subtraction ignores the word above the modulus.
\<close>

theorem mod_mul_barrett_defect:
  "is_valid_modulus (2 ^ 192 - 2 ^ 96 + 1)
   \<and> mod_mul False (2 ^ 192 - 2 ^ 96 + 1) (2 ^ 192 - 2 ^ 96 - 1) (2 ^ 192 - 2 ^ 97 + 2) = Inr (2 ^ 96 - 1)
   \<and> mod_mul True (2 ^ 192 - 2 ^ 96 + 1) (2 ^ 192 - 2 ^ 96 - 1) (2 ^ 192 - 2 ^ 97 + 2) = Inr (2 ^ 97 - 2)"
proof (intro conjI)
  show "is_valid_modulus (2 ^ 192 - 2 ^ 96 + 1)" by (rule barrett_defect_valid)
  have r: "is_in_range (2 ^ 192 - 2 ^ 96 + 1) (2 ^ 192 - 2 ^ 96 - 1)"
    "is_in_range (2 ^ 192 - 2 ^ 96 + 1) (2 ^ 192 - 2 ^ 97 + 2)" by (simp_all add: is_in_range_def)
  have t: "bn_top (2 ^ 192 - 2 ^ 96 - 1) + bn_top (2 ^ 192 - 2 ^ 97 + 2) \<le> 2 * MAX_MODULUS_WORDS"
    using bn_top_in_range [OF r(1)] bn_top_in_range [OF r(2)] valid_modulus_words [OF barrett_defect_valid] by linarith
  have z: "(2 ^ 192 - 2 ^ 96 - 1 :: int) \<noteq> 0" "(2 ^ 192 - 2 ^ 97 + 2 :: int) \<noteq> 0" by simp_all
  show "mod_mul False (2 ^ 192 - 2 ^ 96 + 1) (2 ^ 192 - 2 ^ 96 - 1) (2 ^ 192 - 2 ^ 97 + 2) = Inr (2 ^ 96 - 1)"
    unfolding mod_mul_def
    by (simp only: r t z mod_check_simps bind_res.simps cb_assert_simps if_False disj_not1 simp_thms barrett_defect_value)
  have "((2 ^ 192 - 2 ^ 96 - 1) * (2 ^ 192 - 2 ^ 97 + 2)) mod (2 ^ 192 - 2 ^ 96 + 1) = (2 ^ 97 - 2 :: int)"
    by (rule int_mod_pos_eq [where q = "2 ^ 192 - 2 ^ 97"]) simp_all
  then show "mod_mul True (2 ^ 192 - 2 ^ 96 + 1) (2 ^ 192 - 2 ^ 96 - 1) (2 ^ 192 - 2 ^ 97 + 2) = Inr (2 ^ 97 - 2)"
    by (simp only: mod_mul_def if_True)
qed

section \<open>Serialization\<close>

text \<open>
  C22. A message of an integer, a vector of buffers and an ordered map of named buffers, within the
  limits of the serializer, survives \<^verbatim>\<open>ser\<close> and \<^verbatim>\<open>deser\<close>, whatever the output buffer held before and
  whatever the destination held; the same bytes with anything appended are rejected with \<^verbatim>\<open>E_BADARG\<close>.
\<close>

theorem ser_deser_roundtrip:
  assumes "message_fits x" "int (length (message_enc x)) \<le> INT_MAX"
  shows "\<exists>bin. ser fill message_conv x = Inr bin \<and> deser message_conv d bin = Inr x
    \<and> (\<forall>r. r \<noteq> [] \<and> int (length (bin @ r)) \<le> INT_MAX \<longrightarrow> deser message_conv d (bin @ r) = error E_BADARG)"
proof -
  have "ser fill message_conv x = Inr (message_enc x)" by (rule c_message.ser_encodes [OF assms])
  moreover have "deser message_conv d (message_enc x) = Inr x"
    using c_message.deser_encoding(1) [OF assms(1), of "[]"] assms(2) by simp
  moreover have "deser message_conv d (message_enc x @ r) = error E_BADARG"
    if "r \<noteq> []" "int (length (message_enc x @ r)) \<le> INT_MAX" for r
    using c_message.deser_encoding(1) [OF assms(1) that(2)] that(1) by simp
  ultimately show ?thesis by blast
qed

theorem ser_deser_roundtrip_witness:
  "\<exists>bin. ser (\<lambda>_. 0) message_conv ex_message = Inr bin \<and> deser message_conv (0, [], []) bin = Inr ex_message"
  using ser_deser_roundtrip [OF ex_message_fits, of "\<lambda>_. 0" "(0, [], [])"] by (auto simp: ex_message_length INT_MAX_def)

text \<open>
  C23. Deserializing any bytes ends with a value or an error code: no read outside the buffer, no failed assertion. This
  holds for every type whose \<^verbatim>\<open>convert\<close> routine has the contract \<open>reads_inside\<close>; the contract holds for each basic
  routine of the serializer (integers, length prefixes, buffers, strings, the rest of the input, enumerations, code types, fewer than 64
  flags, \<^verbatim>\<open>std::vector<bool>\<close>, bit vectors, the 128-bit and 256-bit buffers, curves, party names, nodes and access structures), and the
  templates for sequences, arrays, vectors and ordered maps keep it, so it holds for all messages composed of them.
\<close>

theorem deser_stays_inside:
  assumes "reads_inside P conv" "reads_inside Q other" "reads_inside R keys" "P init" "Q inst" "R key0"
  shows "(\<forall>d bin. P d \<and> int (length bin) \<le> INT_MAX \<longrightarrow>
      (\<exists>x. deser conv d bin = Inr x \<and> P x) \<or> (\<exists>e. deser conv d bin = error e))
    \<and> reads_inside (\<lambda>(x, y). P x \<and> Q y) (convert_pair conv other)
    \<and> reads_inside (list_all P) (convert_array conv)
    \<and> reads_inside (list_all P) (convert_vector init conv max_elements)
    \<and> reads_inside (list_all (\<lambda>(k, v). R k \<and> Q v)) (convert_with_instance key0 keys inst other)
    \<and> reads_inside (\<lambda>_. True) convert_bool
    \<and> reads_inside (\<lambda>_. True) convert_u8 \<and> reads_inside (\<lambda>_. True) convert_u16
    \<and> reads_inside (\<lambda>_. True) convert_u32 \<and> reads_inside (\<lambda>_. True) convert_u64
    \<and> reads_inside (\<lambda>_. True) convert_i8 \<and> reads_inside (\<lambda>_. True) convert_i16
    \<and> reads_inside (\<lambda>_. True) convert_i32 \<and> reads_inside (\<lambda>_. True) convert_i64
    \<and> reads_inside (\<lambda>_. True) convert_len \<and> reads_inside (\<lambda>_. True) convert_buf
    \<and> reads_inside (\<lambda>_. True) (convert_fixed_size fixed_size) \<and> reads_inside (\<lambda>_. True) convert_last
    \<and> reads_inside (\<lambda>_. True) convert_string \<and> reads_inside (\<lambda>_. True) (convert_enum to from)
    \<and> reads_inside (\<lambda>_. True) (\<lambda>_. convert_code_type code_type others)
    \<and> reads_inside (\<lambda>args. length args < 64) convert_flags
    \<and> reads_inside (\<lambda>_. True) convert_vector_bool \<and> reads_inside wf_bits (convert_bits fill)
    \<and> reads_inside (\<lambda>_. True) u128_convert \<and> reads_inside (\<lambda>_. True) b128_convert \<and> reads_inside (\<lambda>_. True) b256_convert
    \<and> reads_inside (\<lambda>_. True) convert_name \<and> reads_inside (\<lambda>_. True) (convert_node level)
    \<and> reads_inside (\<lambda>_. True) (convert_curve code curves) \<and> reads_inside (\<lambda>_. True) (ac_convert ac_code ac_curves)"
proof -
  note conv = assms(1)
  have "\<forall>d bin. P d \<and> int (length bin) \<le> INT_MAX \<longrightarrow>
      (\<exists>x. deser conv d bin = Inr x \<and> P x) \<or> (\<exists>e. deser conv d bin = error e)"
    using reads_inside.deser_reads [OF conv] by blast
  moreover note pair_reads [OF conv assms(2)] reads_inside.array_reads [OF conv]
    reads_inside.vector_reads [OF conv assms(4), of max_elements] map_reads [OF assms(3,2,6,5)]
  moreover note c_bool.any.reads_inside_axioms c_u8.any.reads_inside_axioms c_u16.any.reads_inside_axioms
    c_u32.any.reads_inside_axioms c_u64.any.reads_inside_axioms c_i8.any.reads_inside_axioms c_i16.any.reads_inside_axioms
    c_i32.any.reads_inside_axioms c_i64.any.reads_inside_axioms c_len.any.reads_inside_axioms c_buf.any.reads_inside_axioms
    c_fixed_size.any.reads_inside_axioms [of fixed_size] r_last.reads_inside_axioms c_string.any.reads_inside_axioms
    codec_reads [OF enum_codec [of to "from"]] r_code_type.reads_inside_axioms [of code_type others]
    r_flags.reads_inside_axioms r_vector_bool.reads_inside_axioms r_bits.reads_inside_axioms [of fill]
    c_u128.any.reads_inside_axioms c_b128.any.reads_inside_axioms c_b256.any.reads_inside_axioms
    c_name.any.reads_inside_axioms r_node.reads_inside_axioms [of level]
    codec_reads [OF curve_codec [of code curves]] codec_reads [OF ac_codec [of ac_code ac_curves]]
  ultimately show ?thesis by (intro conjI)
qed

theorem deser_stays_inside_witness:
  "(\<exists>x. deser (convert_vector bits_empty (convert_bits (\<lambda>_. 0)) 4) [] [2, 7, 127, 255] = Inr x \<and> list_all wf_bits x)
     \<or> (\<exists>e. deser (convert_vector bits_empty (convert_bits (\<lambda>_. 0)) 4) [] [2, 7, 127, 255] = error e)"
proof -
  let ?bits = "convert_bits (\<lambda>_. 0)"
  have e: "wf_bits bits_empty" by (simp add: wf_bits_def bits_empty_def bits_to_limbs_def)
  note s = c_string.any.reads_inside_axioms
  have v: "reads_inside (list_all wf_bits) (convert_vector bits_empty ?bits 4)"
    using deser_stays_inside [OF r_bits.reads_inside_axioms s s e TrueI TrueI, where max_elements = 4] by blast
  have nil: "list_all wf_bits []" by simp
  show ?thesis
    using deser_stays_inside [OF v s s nil TrueI TrueI, THEN conjunct1, rule_format, of "[]" "[2, 7, 127, 255]"]
    by (simp add: INT_MAX_def)
qed

text \<open>
  C24. An access structure over a known curve with a validated tree of at most 64 levels, names and
  counts within the limits, survives \<^verbatim>\<open>ser\<close> and \<^verbatim>\<open>deser\<close>.
\<close>

theorem access_structure_roundtrip:
  assumes "ac_fits code curves ac" "int (length (enc_ac code ac)) \<le> INT_MAX"
  shows "\<exists>bin. ser fill (ac_convert code curves) ac = Inr bin \<and> deser (ac_convert code curves) d bin = Inr ac"
  by (rule codec.roundtrip [OF ac_codec assms])

theorem access_structure_roundtrip_witness:
  "\<exists>bin. ser (\<lambda>_. 0) (ac_convert ex_ac_code [(415, ex_curve)]) ex_ac = Inr bin
     \<and> deser (ac_convert ex_ac_code [(415, ex_curve)]) \<lparr>root = None, curve = None\<rparr> bin = Inr ex_ac"
  by (rule access_structure_roundtrip [OF ex_ac_fits ex_ac_length])

text \<open>
  C25. Whatever bytes are deserialized, an access structure that comes out is empty or has a curve and
  a well-formed tree: \<^verbatim>\<open>ac_owned_t::convert\<close> lets no other one in.
\<close>

theorem access_structure_deser_type:
  assumes "int (length bin) \<le> INT_MAX" "deser (ac_convert code curves) d bin = Inr ac"
  shows "root ac = None \<and> curve ac = None
     \<or> (\<exists>t k. root ac = Some t \<and> curve ac = Some k \<and> wf_node t \<and> nname t = [] \<and> distinct (node_names t))"
proof -
  have wf: "wf_reader (converter_in bin)"
    using assms(1) by (simp add: wf_reader_def converter_in_def)
  from ac_read_any [OF this, of code curves d] assms(2) show ?thesis
    by (auto simp: deser_def validate_tree_iff is_error_def split: option.splits if_splits)
qed

theorem access_structure_deser_type_witness:
  "\<exists>ac bin. deser (ac_convert ex_ac_code [(415, ex_curve)]) ex_ac bin = Inr ac
     \<and> (root ac = None \<and> curve ac = None
       \<or> (\<exists>t k. root ac = Some t \<and> curve ac = Some k \<and> wf_node t \<and> nname t = [] \<and> distinct (node_names t)))"
proof -
  have d: "deser (ac_convert ex_ac_code [(415, ex_curve)]) ex_ac (enc_ac ex_ac_code ex_ac @ []) = Inr ex_ac"
    using codec.deser_encoding(1) [OF ac_codec ex_ac_fits, of "[]"] ex_ac_length by simp
  from access_structure_deser_type [OF _ this] d ex_ac_length show ?thesis by auto
qed

text \<open>
  C27. The count of a \<^verbatim>\<open>std::vector<bool>\<close> is cut to 16 bits without a check: a vector of \<open>2 ^ 16 + k\<close>
  elements is serialized as its first \<open>k\<close> elements, and deserialized as them without an error.
\<close>

theorem vector_bool_truncates:
  assumes "length xs = 2 ^ 16 + k" "k \<le> SHRT_MAX"
  shows "\<exists>bin. ser fill convert_vector_bool xs = Inr bin \<and> deser convert_vector_bool d bin = Inr (take k xs)"
proof -
  let ?e = "enc_vector_bool (take k xs)"
  have k: "length xs mod 2 ^ 16 = k" "length (take k xs) = k" using assms by (simp_all add: SHRT_MAX_def)
  have len: "int (length ?e) \<le> INT_MAX" using k(2) assms(2) by (simp add: enc_vector_bool_def INT_MAX_def SHRT_MAX_def)
  have "ser fill convert_vector_bool xs = Inr ?e" using vector_bool_write [OF k(1) assms(2)] len by (intro ser_of_write) auto
  moreover have "convert_vector_bool d (converter_in ?e) = Inr (take k xs, advance (length ?e) (converter_in ?e))"
    by (rule vector_bool_read [where r = "[]"]) (use k(2) assms(2) len in \<open>simp_all add: wf_reader_def converter_in_def unread_def is_error_def\<close>)
  ultimately show ?thesis by (simp add: deser_def converter_in_def)
qed

theorem vector_bool_truncates_witness:
  "\<exists>bin. ser (\<lambda>_. 0) convert_vector_bool (replicate (2 ^ 16 + 1) True) = Inr bin
     \<and> deser convert_vector_bool [] bin = Inr [True]"
  using vector_bool_truncates [of "replicate (2 ^ 16 + 1) True" 1 "\<lambda>_. 0" "[]"] 
  by (simp add: SHRT_MAX_def min_def)


text \<open>
  The limit on the number of elements of a vector holds for readers only: a vector of bytes above
  \<^verbatim>\<open>MAX_CONTAINER_ELEMENTS\<close> and up to \<^verbatim>\<open>MAX_CONVERT_LEN\<close> is serialized and then rejected with \<^verbatim>\<open>E_FORMAT\<close>.
\<close>

lemma vector_limit_one_sided:
  assumes "MAX_CONTAINER_ELEMENTS < length xs" "length xs \<le> MAX_CONVERT_LEN"
  shows "\<exists>bin. ser fill (convert_vector 0 convert_u8 MAX_CONTAINER_ELEMENTS) xs = Inr bin
    \<and> deser (convert_vector 0 convert_u8 MAX_CONTAINER_ELEMENTS) d bin = error E_FORMAT"
proof -
  let ?conv = "convert_vector 0 convert_u8 MAX_CONTAINER_ELEMENTS" let ?e = "enc_vector (\<lambda>v. [v]) xs"
  have valid: "list_all (\<lambda>_. True) xs" by (simp add: list_all_iff)
  have "length (write_len n) \<le> 4" for n by (simp add: write_len_def)
  then have "length ?e \<le> 4 + MAX_CONVERT_LEN"
    using assms(2) by (simp add: enc_vector_def add_mono)
  then have len: "int (length ?e) \<le> INT_MAX" by (simp add: MAX_CONVERT_LEN_def INT_MAX_def)
  have "ser fill ?conv xs = Inr ?e"
    using n_u8.vector_write [OF valid assms(2), of _ 0 MAX_CONTAINER_ELEMENTS] len by (intro ser_of_write) auto
  moreover obtain c' where "?conv d (converter_in ?e) = Inr ([], c')" "rv_error c' = Some E_FORMAT"
    using n_u8.vector_too_long [OF valid assms, of "converter_in ?e" "[]" 0 MAX_CONTAINER_ELEMENTS d] c_u8.deser_in [OF len] by auto
  ultimately show ?thesis by (simp add: deser_def)
qed

text \<open>
  C26. A length read from any bytes is at most \<^verbatim>\<open>MAX_CONVERT_LEN\<close>, is zero when the read failed, and the
  offset moves forward and stays inside the buffer.
\<close>

theorem convert_len_bounded:
  assumes "wf_reader c" "convert_len d c = Inr (len, c')"
  shows "unat len \<le> MAX_CONVERT_LEN \<and> coffset c \<le> coffset c' \<and> coffset c' \<le> csize c \<and> (is_error c' \<longrightarrow> len = 0)"
proof -
  have "reader_step c c'" using convert_len_safe [OF assms(1), of d] assms(2) by simp
  then have "coffset c \<le> coffset c'" "coffset c' \<le> csize c"
    using wf_reader_fields(3) [of c'] by (auto simp: reader_step_def)
  moreover have "unat len \<le> MAX_CONVERT_LEN \<and> (is_error c' \<longrightarrow> len = 0)"
    using assms(2) wf_reader_fields(1) [OF assms(1)]
    by (auto simp: convert_len_def read_len_byte_def res_simps split: if_splits dest!: finish_len_le)
  ultimately show ?thesis by simp
qed

theorem convert_len_bounded_witness:
  "\<exists>len c'. convert_len 0 (converter_in [0x80, 0x81]) = Inr (len, c') \<and> unat len \<le> MAX_CONVERT_LEN"
proof -
  have wf: "wf_reader (converter_in [0x80, 0x81])" by (simp add: wf_reader_def converter_in_def INT_MAX_def)
  obtain len c' where "convert_len 0 (converter_in [0x80, 0x81]) = Inr (len, c')" using convert_len_safe [OF wf] by blast
  with convert_len_bounded [OF wf this] show ?thesis by blast
qed

section \<open>Buffers and bit vectors\<close>

text \<open>
  C28. In every state a program over \<^verbatim>\<open>buf_t\<close> variables can reach by constructing, copying, moving, assigning,
  appending, resizing, updating and destroying buffers, the heap blocks are exactly those of the live buffers, no two
  buffers share one, every buffer represents some bytes, and every block given back to the allocator was wiped.
\<close>

theorem buffers_owned_and_wiped:
  assumes "buf_reachable g (st, vs)"
  shows "dom (heap st) = (\<Union>b \<in> ran vs. owned b)
    \<and> (\<forall>v w b c. vs v = Some b \<and> vs w = Some c \<and> v \<noteq> w \<longrightarrow> owned b \<inter> owned c = {})
    \<and> (\<forall>v b. vs v = Some b \<longrightarrow> (\<exists>xs. buf_rep st b xs))
    \<and> (\<forall>block \<in> set (released st). set block \<subseteq> {0})"
proof (intro conjI allI impI)
  note inv = buf_invD [OF buf_reachable_inv [OF assms]]
  show "dom (heap st) = (\<Union>b \<in> ran vs. owned b)" by (rule inv(4))
  show "owned b \<inter> owned c = {}" if "vs v = Some b \<and> vs w = Some c \<and> v \<noteq> w" for v w b c using inv(3) that by blast
  show "\<exists>xs. buf_rep st b xs" if "vs v = Some b" for v b by (rule inv(2) [OF that])
  show "\<forall>block \<in> set (released st). set block \<subseteq> {0}" using inv(5) by (simp add: list_all_iff all_zero_def)
qed

theorem buffers_owned_and_wiped_witness:
  "\<exists>st vs. buf_reachable (\<lambda>_. 5) (st, vs) \<and> length (released st) = 1 \<and> (\<forall>block \<in> set (released st). set block \<subseteq> {0})"
proof -
  let ?init = "\<lparr>heap = Map.empty, next_addr = 0, released = [], junk = \<lambda>_. 5\<rparr>" let ?xs = "replicate 40 (7 :: u8)"
  let ?vs = "Map.empty :: nat \<rightharpoonup> buf"
  obtain st1 b1 where 1: "buf_from ?xs ?init = Inr (st1, b1)" "heap st1 0 = Some ?xs" "buf_m b1 = Pointer 0" "buf_s b1 = 40" "released st1 = []"
    by (rule that [of "\<lparr>heap = [0 \<mapsto> ?xs], next_addr = 1, released = [], junk = \<lambda>_. 5\<rparr>" "(buf_new ?init)\<lparr>buf_m := Pointer 0, buf_s := 40\<rparr>"])
      (auto simp: buf_from_def short_size_def assign_long_def new_bytes_def store_bytes_def overwrite_def assign_long_ptr_def set_long_ptr_def)
  have r1: "buf_reachable (\<lambda>_. 5) (st1, ?vs(0 \<mapsto> b1))"
    by (rule buf_reachable.step [OF buf_reachable.init buf_step.construct [OF _ 1(1)]]) simp
  obtain st2 b2 where 2: "buf_free st1 b1 = Inr (st2, b2)" "length (released st2) = 1"
    using 1 by (auto simp: buf_free_def secure_bzero_def data_write_def short_size_def store_bytes_def overwrite_def delete_bytes_def)
  have "buf_reachable (\<lambda>_. 5) (st2, (?vs(0 \<mapsto> b1))(0 := None))"
    by (rule buf_reachable.step [OF r1 buf_step.destroy [OF _ 2(1)]]) simp
  with buffers_owned_and_wiped [OF this] 2(2) show ?thesis by blast
qed

text \<open>
  C29. On a buffer that represents \<open>xs\<close>, inline or on the heap, resizing keeps the common prefix, assigning a part of
  the buffer to itself and appending a part of it are right although the view aliases the storage, comparison is
  equality of the contents, and copy assignment copies; each touches the blocks of the buffer only.
\<close>

theorem buf_operations_refine:
  assumes "wf_mem st" "buf_rep st b xs"
  shows "(\<forall>n. \<exists>ys. length (take n xs @ ys) = n \<and> made (owned b) st (buf_resize (int n) st b) (take n xs @ ys))
    \<and> (\<forall>k \<le> length xs. made (owned b) st (buf_assign_mem False (data_read k) st b) (take k xs))
    \<and> (\<forall>k \<le> length xs. int (length xs + k) \<le> INT_MAX \<longrightarrow> made (owned b) st (buf_append (data_read k) st b) (xs @ take k xs))
    \<and> (\<forall>src ys. buf_rep st src ys \<longrightarrow> buf_equal src st b = Inr (xs = ys))
    \<and> (\<forall>src ys. buf_rep st src ys \<and> owned src \<inter> owned b = {} \<longrightarrow> made (owned b) st (buf_assign src st b) ys)"
proof -
  have "made (owned b) st (buf_assign_mem False (data_read k) st b) (take k xs)" if "k \<le> length xs" for k
    using assign_mem_made [OF assms, of "data_read k"] data_read_rep [OF assms(2) that] by simp
  moreover have "made (owned b) st (buf_append (data_read k) st b) (xs @ take k xs)" if "k \<le> length xs" "int (length xs + k) \<le> INT_MAX" for k
    using append_made [OF assms, of "data_read k"] data_read_rep [OF assms(2) that(1)] that by simp
  ultimately show ?thesis
    using resize_resized [OF assms] equal_rep [OF assms(2)] assign_made [OF assms(1) _ assms(2)]
    unfolding resized_def by blast
qed

theorem buf_operations_refine_witness:
  "\<exists>st b. made (owned b) st (buf_append (data_read 3) st b) ([1, 2, 3, 4] @ [1, 2, 3])"
proof -
  let ?st = "\<lparr>heap = Map.empty, next_addr = 0, released = [], junk = \<lambda>_. 5\<rparr>"
  let ?b = "\<lparr>buf_m = Inline ([1, 2, 3, 4] @ replicate 32 0), buf_s = 4\<rparr>"
  have rep: "buf_rep ?st ?b [1, 2, 3, 4]" by (simp add: buf_rep_def)
  have wf: "wf_mem ?st" by (simp add: wf_mem_def)
  have "made (owned ?b) ?st (buf_append (data_read 3) ?st ?b) ([1, 2, 3, 4] @ take 3 [1, 2, 3, 4])"
    using buf_operations_refine [OF wf rep, THEN conjunct2, THEN conjunct2, THEN conjunct1, rule_format, of 3] by (simp add: INT_MAX_def)
  then show ?thesis by (intro exI) simp
qed

text \<open>
  C30. Concatenation, appending another vector or the vector itself, resizing and the exclusive or of \<^verbatim>\<open>bits_t\<close>
  act on the lists of bits, for byte-aligned and other counts, whatever the unused bits of the last limbs are.
\<close>

theorem bits_operations_refine:
  assumes "wf_bits a" "wf_bits b" "int (bits a + bits b) \<le> INT_MAX"
  shows "(\<exists>r a' b'. bits_concat a b = Inr (r, a', b') \<and> wf_bits r \<and> bit_list r = bit_list a @ bit_list b)
    \<and> (\<exists>a' b'. bits_append_bits b a = Inr (a', b') \<and> wf_bits a' \<and> bit_list a' = bit_list a @ bit_list b)
    \<and> (int (bits a + bits a) \<le> INT_MAX \<longrightarrow>
         (\<exists>a'. bits_append_self a = Inr a' \<and> wf_bits a' \<and> bit_list a' = bit_list a @ bit_list a))
    \<and> (\<forall>n. \<exists>a'. bits_resize n a = Inr a' \<and> wf_bits a' \<and> bit_list a' = take n (bit_list a) @ replicate (n - bits a) False)
    \<and> (bits a = bits b \<longrightarrow> (\<exists>a'. bits_xor_assign b a = Inr a' \<and> wf_bits a' \<and> bit_list a' = map2 (\<noteq>) (bit_list a) (bit_list b)))"
  using concat_ok [OF assms] append_bits_ok [OF assms] append_self_ok [OF assms(1)] resize_ok [OF assms(1)]
    xor_assign_ok [OF assms(1,2)] by (intro conjI allI impI) (blast | metis)+

theorem bits_operations_refine_witness:
  "\<exists>r a' b'. bits_concat \<lparr>limbs = [0xff], bits = 3\<rparr> \<lparr>limbs = [0xfa], bits = 2\<rparr> = Inr (r, a', b')
     \<and> bit_list r = [True, True, True, False, True]"
proof -
  let ?a = "\<lparr>limbs = [0xff], bits = 3\<rparr>" let ?b = "\<lparr>limbs = [0xfa], bits = 2\<rparr>"
  have wf: "wf_bits ?a" "wf_bits ?b" by (simp_all add: wf_bits_def bits_to_limbs_def)
  have "bit_list ?a = [True, True, True]" "bit_list ?b = [False, True]" by (simp_all add: bit_list_def bit_at_def upt_rec)
  then show ?thesis using bits_operations_refine [OF wf] by (auto simp: INT_MAX_def)
qed

text \<open>
  A bit vector of at most \<^verbatim>\<open>MAX_CONVERT_LEN\<close> bits is serialized and deserialized to a vector with the same
  bits, also when its storage holds garbage above the count.
\<close>

lemma bits_convert_roundtrip:
  assumes "wf_bits b" "wf_bits d" "bits b \<le> MAX_CONVERT_LEN"
  shows "\<exists>bin b'. ser junk_byte (convert_bits fill) b = Inr bin \<and> deser (convert_bits fill) d bin = Inr b' \<and> bit_list b' = bit_list b"
proof -
  obtain bs where bs: "bits_bin (bit_list b) bs" using bits_bin_exists by blast
  let ?e = "write_len (word_of_nat (bits b)) @ bs"
  have "length (write_len n) \<le> 4" for n by (simp add: write_len_def)
  moreover have "length bs \<le> MAX_CONVERT_LEN + 8"
    using bs assms(3) bits_to_bytes_bound(2) [of "bits b"] by (simp add: bits_bin_def)
  ultimately have "length ?e \<le> 4 + (MAX_CONVERT_LEN + 8)" by (simp only: length_append add_mono)
  then have len: "int (length ?e) \<le> INT_MAX" by (simp add: MAX_CONVERT_LEN_def INT_MAX_def)
  have "ser junk_byte (convert_bits fill) b = Inr ?e"
    by (rule ser_of_write [OF _ len]) (use convert_bits_write [OF assms(1,3) bs] in blast)
  moreover obtain b' where "convert_bits fill d (converter_in ?e) = Inr (b', advance (length ?e) (converter_in ?e))" "bit_list b' = bit_list b"
    using convert_bits_read [OF assms(2) _ bs, of "converter_in ?e" "[]" fill] c_u8.deser_in [OF len] assms(3) by auto
  ultimately show ?thesis by (auto simp: deser_def converter_in_def)
qed

text \<open>
  C33. The loop of \<^verbatim>\<open>mem_t::reverse\<close>, which swaps from both ends, terminates and gives the same bytes as \<^verbatim>\<open>mem_t::rev\<close>,
  which copies backwards, and reversing twice is the identity.
\<close>

theorem mem_reversals_agree: "mem_rev fill data = Inr (mem_reverse data) \<and> mem_reverse (mem_reverse data) = data"
  by (simp add: mem_rev_rev mem_reverse_rev)

section \<open>Buffers of fixed size\<close>

text \<open>
  C31. The 256-bit buffer, two 128-bit buffers of two limbs each, is a 256-bit word: shifts carry bits across the three boundaries between
  limbs, bits are read and written at their index, the bitwise operators and the comparison are those of words, an index or a distance
  outside the width fails the assertion, and \<^verbatim>\<open>reverse_bytes\<close> reverses the bytes in memory.
\<close>

theorem fixed_buffers_are_words:
  "(\<forall>w. word256 (of_word256 w) = w) \<and> of_word256 (word256 b) = b
   \<and> b256_shl n b = (if n < 256 then Inr (of_word256 (push_bit n (word256 b))) else Inl Assert_Failed)
   \<and> b256_shr n b = (if n < 256 then Inr (of_word256 (drop_bit n (word256 b))) else Inl Assert_Failed)
   \<and> b256_get_bit i b = (if 0 \<le> i \<and> i < 256 then Inr (bit (word256 b) (nat i)) else Inl Assert_Failed)
   \<and> b256_set_bit i v b = (if 0 \<le> i \<and> i < 256
        then Inr (of_word256 ((if v then set_bit else unset_bit) (nat i) (word256 b))) else Inl Assert_Failed)
   \<and> word256 (b256_xor b c) = xor (word256 b) (word256 c) \<and> word256 (b256_or b c) = or (word256 b) (word256 c)
   \<and> word256 (b256_and b c) = and (word256 b) (word256 c) \<and> word256 (b256_not b) = not (word256 b)
   \<and> (b256_equ b c \<longleftrightarrow> b = c)
   \<and> b256_save (b256_reverse_bytes b) = rev (b256_save b)"
  by (simp add: b256.shl_law b256.shr_law b256.get_law b256.set_law b256.xor_law b256.or_law b256.and_law b256.not_law
      b256.equ_iff b256_reverse)

text \<open>
  C32. The two branches of \<^verbatim>\<open>caryless_mul\<close> agree: when the instruction of the processor multiplies two limbs without carries, four products
  put together limb by limb are the result of the portable loop, and bit \<open>n\<close> of it is the parity of the pairs of set bits whose positions add up to \<open>n\<close>.
\<close>

theorem caryless_mul_branches_agree:
  assumes "\<And>x y. word128 (cl x y) = clmul x y"
  shows "caryless_mul a b = Inr (caryless_mul_accel cl a b)
    \<and> (bit (word256 (caryless_mul_accel cl a b)) n
      \<longleftrightarrow> odd (card {i. i < 128 \<and> i \<le> n \<and> bit (word128 b) i \<and> bit (word128 a) (n - i)}) \<and> n < 256)"
proof -
  have w: "word256 (caryless_mul_accel cl a b) = clmul (word128 a) (word128 b)" by (rule caryless_accel_word [OF assms])
  then show ?thesis
    using caryless_mul_word [of a b] b256.of_wd [of "caryless_mul_accel cl a b"] by (simp add: w bit_clmul conj_commute)
qed

theorem caryless_mul_branches_agree_witness:
  "(\<forall>x y. word128 (of_word128 (clmul x y)) = clmul x y)
   \<and> caryless_mul (b128_make 3 5) (b128_make 7 1) = Inr (b256_make (b128_make 9 24) (b128_make 5 0))"
  using caryless_mul_branches_agree [of "\<lambda>x y. of_word128 (clmul x y)" "b128_make 3 5" "b128_make 7 1"]
  unfolding caryless_example by simp

section \<open>Public and C interfaces\<close>

text \<open>
  C34. The public interface accepts an access structure exactly when the curve is given, every node has the fields of its kind (named leaves, gates with children, thresholds between one and the number of children), the tree has at most 128 levels below the root and 4096 nodes, the root is a gate, and the leaves carry each party name of the job once.
\<close>

theorem api_access_structure_accepted:
  fixes k :: "'p ecurve option"
  shows "(\<exists>ac. to_internal_access_structure a names k = Inr ac) \<longleftrightarrow>
     k \<noteq> None \<and> as_shape a \<and> as_height a \<le> MAX_DEPTH \<and> as_size a \<le> MAX_NODES \<and> as_kind a \<noteq> as_leaf
     \<and> set (as_leaves a) = set names \<and> distinct (as_leaves a)"
  by (rule to_internal_iff(1))

text \<open>
  C35. An accepted access structure becomes a tree that \<^verbatim>\<open>validate_tree\<close> accepts, over the given curve, whose leaves are the party names and whose quorum test decides, for every set of parties, the formula that the public structure denotes.
\<close>

theorem api_access_structure_refines:
  assumes "to_internal_access_structure a names k = Inr ac"
  shows "\<exists>t. root ac = Some t \<and> curve ac = k \<and> (\<exists>ns. validate_tree False t {} = Inr ns)
     \<and> list_leaf_names t = set names \<and> (\<forall>A. enough_for_quorum A t = Inr (as_satisfied A a))"
  by (rule to_internal_iff(2) [OF assms])

theorem api_access_structure_refines_witness:
  "\<exists>ac t. to_internal_access_structure ex_as [''d'', ''c'', ''b'', ''a''] (Some ex_curve) = Inr ac \<and> root ac = Some t
     \<and> enough_for_quorum {''a'', ''d''} t = Inr True \<and> enough_for_quorum {''a'', ''b''} t = Inr False"
proof -
  obtain ac where ac: "to_internal_access_structure ex_as [''d'', ''c'', ''b'', ''a''] (Some ex_curve) = Inr ac"
    using to_internal_iff(1) [of ex_as "[''d'', ''c'', ''b'', ''a'']" "Some ex_curve"] ex_as_facts by auto
  obtain t where t: "root ac = Some t" "\<forall>A. enough_for_quorum A t = Inr (as_satisfied A ex_as)"
    using api_access_structure_refines [OF ac] by blast
  have "as_satisfied {''a'', ''d''} ex_as" "\<not> as_satisfied {''a'', ''b''} ex_as"
    by (simp_all add: ex_as_def as_Threshold_def as_Leaf_def as_And_def)
  then show ?thesis using ac t by auto
qed

text \<open>
  C36. The C interface accepts flat arrays exactly when the header is in its limits and the arrays denote, from the root index, a tree that visits every node once, is at most 128 deep and has a gate at its root; the result is that tree.
  What the arrays denote is given by \<open>c_tree\<close>, with one rule for each type of node.
\<close>

theorem c_access_structure_accepted:
  "to_cpp_access_structure (Some inp) = Inr t \<longleftrightarrow> c_header_ok inp \<and>
     (\<exists>vs. c_tree inp True (root_index inp) t vs \<and> distinct vs \<and> set vs = {0..<nodes_count inp} \<and> as_height t \<le> MAX_DEPTH)"
  by (rule to_cpp_iff)

text \<open>
  An access structure that came through the C interface is accepted for a validated job as soon as its leaves are the party names, each once: none of the shape checks of the public interface can fail on it.
\<close>

lemma c_access_structure_pipeline:
  assumes "to_cpp_access_structure p = Inr a" "validate_job_mp job = success"
  shows "(\<exists>ac. to_internal_access_structure a (mp_party_names job) (Some k) = Inr ac) \<longleftrightarrow>
     set (as_leaves a) = set (mp_party_names job) \<and> distinct (as_leaves a)"
  using to_cpp_valid [OF assms(1)] unfolding to_internal_iff(1) validate_node_iff by simp

text \<open>
  C37. For a validated job, a list of quorum names without repetition, drawn from the party names, becomes a party set that holds exactly the indices of these names; every other list is rejected with \<^verbatim>\<open>E_BADARG\<close>. In particular no undefined shift happens.
\<close>

theorem quorum_party_set_correct:
  assumes "validate_job_mp job = success"
  shows "if qs \<noteq> [] \<and> distinct qs \<and> set qs \<subseteq> set (mp_party_names job)
     then \<exists>p. to_internal_party_set (mp_party_names job) qs = Inr p
          \<and> (\<forall>i < length (mp_party_names job). ps_has p (int i) = Inr (mp_party_names job ! i \<in> set qs))
     else to_internal_party_set (mp_party_names job) qs = error E_BADARG"
proof -
  let ?ns = "mp_party_names job"
  have ns: "valid_names ?ns" using assms validate_job_mp_iff by blast
  obtain p where p: "to_internal_party_set ?ns qs = (if qs \<noteq> [] \<and> distinct qs \<and> set qs \<subseteq> set ?ns then Inr p else error E_BADARG)"
      "distinct qs \<and> set qs \<subseteq> set ?ns \<longrightarrow> ps_members p = name_indices ?ns (set qs)"
    using to_internal_party_set_eq [OF ns] by blast
  have "ps_has p (int i) = Inr (?ns ! i \<in> set qs)" if "distinct qs \<and> set qs \<subseteq> set ?ns" "i < length ?ns" for i
    using that p(2) ns ps_has_iff [of "int i" p] by (auto simp: name_indices_def valid_names_def)
  then show ?thesis using p(1) by auto
qed

theorem quorum_party_set_correct_witness:
  "\<exists>p. to_internal_party_set [''a'', ''b'', ''c''] [''c'', ''a''] = Inr p \<and> ps_has p 0 = Inr True \<and> ps_has p 1 = Inr False \<and> ps_has p 2 = Inr True"
proof -
  let ?job = "\<lparr>self_mp = 2, mp_party_names = [''a'', ''b'', ''c'']\<rparr>"
  have v: "validate_job_mp ?job = success" by (simp add: validate_job_mp_iff valid_names_def)
  obtain p where p: "to_internal_party_set [''a'', ''b'', ''c''] [''c'', ''a''] = Inr p"
      "\<forall>i < 3. ps_has p (int i) = Inr ([''a'', ''b'', ''c''] ! i \<in> {''c'', ''a''})"
    using quorum_party_set_correct [OF v, of "[''c'', ''a'']"] by (auto simp: numeral_3_eq_3)
  show ?thesis using p(1) spec [OF p(2), of 0] spec [OF p(2), of 1] spec [OF p(2), of 2] by auto
qed

text \<open>
  A multi-party job that the C interface validates is a job that the public interface validates, with the same number of parties, and its transport has every callback that the protocols call.
\<close>

lemma c_job_validation_sound:
  assumes "validate_mp_job (Some job) = success"
  shows "\<exists>j t. job_mp_cpp_ctx job = Inr j \<and> validate_job_mp j = success \<and> int (length (mp_party_names j)) = cm_party_names_count job
     \<and> cm_transport job = Some t \<and> ct_send t \<noteq> None \<and> ct_receive t \<noteq> None \<and> ct_receive_all t \<noteq> None"
  using validate_mp_job_cpp [OF assms] assms by (auto simp: validate_mp_job_def Let_def res_simps split: if_splits option.splits)

text \<open>
  Buffers copied to C memory by \<^verbatim>\<open>alloc_cmems_from_bufs\<close> are read back by \<^verbatim>\<open>view_cmems\<close> as they were, and \<^verbatim>\<open>cbmpc_cmems_free\<close> releases exactly the memory that was allocated, each byte of it zeroed before, with and without \<^verbatim>\<open>malloc_usable_size\<close>.
\<close>

lemma cmems_roundtrip:
  assumes "good_alloc al" "bufs \<noteq> []" "alloc_cmems_from_bufs al bufs True h = Inr (None, m, h')"
  shows "(\<exists>vs. view_cmems m h' = Inr vs \<and> map_res (view_bytes h') vs = Inr bufs)
    \<and> (\<exists>h'' rel. cbmpc_cmems_free platform m h' = Inr h'' \<and> live h'' = live h \<and> freed h'' = freed h @ rel
      \<and> (\<forall>bs. Bytes bs \<in> set rel \<longrightarrow> set bs \<subseteq> {0}))"
proof -
  have s: "stored h' m bufs" "fresh_for h m h'" "int (length (concat bufs)) \<le> INT_MAX"
    using alloc_cmems_cases [OF assms(1,2), of True h] assms(3) by auto
  then have v: "\<exists>vs. view_cmems m h' = Inr vs \<and> map_res (view_bytes h') vs = Inr bufs"
    using view_stored [OF _ assms(2)] by blast
  obtain h'' where f: "cbmpc_cmems_free platform m h' = Inr h''"
      "\<forall>a. live h'' a = (if Some a = cs_data m \<or> Some a = cs_sizes m then None else live h' a)"
      "freed h'' = freed h' @ (if concat bufs = [] then [] else [Bytes (replicate (length (concat bufs)) 0)]) @ [Ints (map (\<lambda>b. int (length b)) bufs)]"
    using free_stored [OF s(1) assms(2)] by blast
  have "live h'' = live h" using f(2) s(2) by (auto simp: fresh_for_def fun_eq_iff)
  moreover have "\<exists>rel. freed h'' = freed h @ rel \<and> (\<forall>bs. Bytes bs \<in> set rel \<longrightarrow> set bs \<subseteq> {0})"
    using f(1,3) s(2) by (auto simp: fresh_for_def set_replicate_conv_if simp del: concat_eq_Nil_conv split: if_splits)
  ultimately show ?thesis using v f(1) by blast
qed

text \<open>
  C38. Whatever a \<^verbatim>\<open>receive_all\<close> callback answers, as long as the pointers it hands over are null or fresh distinct blocks that cover the sizes it announces, the adapter ends without touching memory out of bounds, releases every block once and leaves the heap as it was; it succeeds only with one message for each sender.
\<close>

theorem receive_all_owns_buffers:
  assumes "Option.bind t ct_receive_all = Some f" "f senders h w = (rv, out, h1, w1)" "int (length senders) \<le> INT_MAX"
    "frees t" "handed_over h [cs_data out, cs_sizes out] h1" "covers h1 out (length senders)"
  shows "\<exists>e msgs' h2. adapter_receive_all t senders msgs h w = Inr (e, msgs', h2, w1) \<and> live h2 = live h
     \<and> (if e = None then rv = None \<and> length msgs' = length senders else msgs' = msgs)"
  using receive_all_owned [OF assms] unfolding owned_result_def .

theorem receive_all_owns_buffers_witness:
  "\<exists>e msgs h2. adapter_receive_all (Some ex_transport) [0, 2] [] ex_heap () = Inr (e, msgs, h2, ()) \<and> live h2 = live ex_heap"
  using receive_all_owns_buffers [of "Some ex_transport" "\<lambda>senders h w. (None, ex_answer, ex_answer_heap h, w)" "[0, 2]" ex_heap "()" None ex_answer
      "ex_answer_heap ex_heap" "()" "[]"] ex_transport_frees ex_transport_contract
  by (auto simp: ex_transport_def INT_MAX_def numeral_2_eq_2)

text \<open>
  C39. When the callback succeeds with a wrong count and the same block for \<^verbatim>\<open>data\<close> and \<^verbatim>\<open>sizes\<close>, the adapter releases that block twice; the path for a failed callback guards against it.
\<close>

theorem receive_all_aliased_double_free:
  assumes "Option.bind t ct_receive_all = Some f" "f senders h w = (None, out, h1, w1)" "int (length senders) \<le> INT_MAX"
    "frees t" "cs_sizes out = Some a" "cs_data out = Some a" "live h1 a = Some b" "cs_count out \<noteq> int (length senders)"
  shows "adapter_receive_all t senders msgs h w = Inl Out_Of_Bounds"
  using take_over_aliased(2) [OF assms(5-7,4,8)] assms(1-3) by (simp add: adapter_receive_all_def)

theorem receive_all_aliased_double_free_witness:
  "adapter_receive_all (Some (ex_transport\<lparr>ct_receive_all := Some (\<lambda>s h w. (None, \<lparr>cs_count = 0, cs_data = Some 5, cs_sizes = Some 5\<rparr>, ex_answer_heap h, w))\<rparr>))
     [1] [] ex_heap () = Inl Out_Of_Bounds"
  by (rule receive_all_aliased_double_free [of _ "\<lambda>s h w. (None, \<lparr>cs_count = 0, cs_data = Some 5, cs_sizes = Some 5\<rparr>, ex_answer_heap h, w)" _ _ _
        "\<lparr>cs_count = 0, cs_data = Some 5, cs_sizes = Some 5\<rparr>" "ex_answer_heap ex_heap" "()" 5 "Bytes [1, 2]"])
     (simp_all add: ex_transport_def ex_answer_heap_def INT_MAX_def frees_def transport_free_def)

section \<open>Messaging\<close>

text \<open>
  C40. Once the messages of its peers are in their channels, a party's \<^verbatim>\<open>plain_broadcast\<close> of a buffer completes: \<^verbatim>\<open>received(i)\<close> is the buffer of party \<open>i\<close> for every party, its own included, one message was sent to each peer and one taken from each.
\<close>

theorem broadcast_delivers:
  assumes "delivers t self chan" "job_ready job self n t" "uniform_new [] self n (xs ! nat self) = Inr m" "length xs = n"
    "\<forall>x \<in> set xs. length x \<le> MAX_CONVERT_LEN"
    "\<forall>i. 0 \<le> i \<and> i < int n \<and> i \<noteq> self \<longrightarrow> (\<exists>q. chan w i self = enc_buf (xs ! nat i) # q)"
  shows "\<exists>m' w'. plain_broadcast fill job (uniform_ops convert_buf self) m w = Inr (m', w')
     \<and> (\<forall>i < n. uniform_received self n m' (int i) = Inr (xs ! i))
     \<and> (\<forall>i. 0 \<le> i \<and> i < int n \<and> i \<noteq> self \<longrightarrow>
          chan w' self i = chan w self i @ [enc_buf (xs ! nat self)] \<and> chan w' i self = tl (chan w i self))"
  using buf_msg.broadcast_round [OF assms(1-4), of w fill] assms(5,6) enc_buf_fits by auto

theorem broadcast_delivers_witness:
  "\<exists>j m m' w'. to_internal_job_mp length \<lparr>self_mp = 1, mp_party_names = [''a'', ''b'', ''c'']\<rparr> (net_transport 1) = Inr j
     \<and> uniform_new [] 1 3 [7] = Inr m
     \<and> plain_broadcast (\<lambda>_. 0) j (uniform_ops convert_buf 1) m (\<lambda>a b. if b = 1 then [enc_buf (if a = 0 then [1, 2] else [])] else []) = Inr (m', w')
     \<and> uniform_received 1 3 m' 0 = Inr [1, 2] \<and> uniform_received 1 3 m' 1 = Inr [7] \<and> uniform_received 1 3 m' 2 = Inr []"
proof -
  let ?xs = "[[1, 2], [7], []] :: bytes list"
  let ?w = "\<lambda>a b. if b = 1 then [enc_buf (if a = 0 then [1, 2] else [])] else [] :: bytes list"
  obtain j where j: "to_internal_job_mp length \<lparr>self_mp = 1, mp_party_names = [''a'', ''b'', ''c'']\<rparr> (net_transport 1) = Inr j" "job_ready j 1 3 (net_transport 1)"
    using new_job_ready [of "\<lparr>self_mp = 1, mp_party_names = [''a'', ''b'', ''c'']\<rparr>" length "net_transport 1"]
    by (auto simp: validate_job_mp_iff valid_names_def numeral_3_eq_3)
  obtain m where m: "uniform_new [] 1 3 (?xs ! nat 1) = Inr m" by (simp add: uniform_new_def)
  have "i = 0 \<or> i = 2" if "0 \<le> i" "i < int 3" "i \<noteq> 1" for i :: int using that by auto
  then have "(if i = 0 then [1, 2] else []) = ?xs ! nat i" if "0 \<le> i" "i < int 3" "i \<noteq> 1" for i :: int using that by fastforce
  then have q: "\<forall>i. 0 \<le> i \<and> i < int 3 \<and> i \<noteq> 1 \<longrightarrow> (\<exists>q. ?w i 1 = enc_buf (?xs ! nat i) # q)" by simp
  obtain m' w' where "plain_broadcast (\<lambda>_. 0) j (uniform_ops convert_buf 1) m ?w = Inr (m', w')" "\<forall>i < 3. uniform_received 1 3 m' (int i) = Inr (?xs ! i)"
    using broadcast_delivers [of "net_transport 1" 1 "\<lambda>w. w" j 3 ?xs m ?w "\<lambda>_. 0"] net_delivers j(2) m q by (auto simp: MAX_CONVERT_LEN_def)
  then show ?thesis using j(1) m by (auto simp: numeral_3_eq_3 All_less_Suc)
qed

text \<open>
  In a round with a nonuniform message every party receives from each peer the buffer that the peer addressed to it and sends each peer the buffer addressed to that peer; its own slot is left as it was.
\<close>

lemma exchange_delivers:
  assumes "delivers t self chan" "job_ready job self n t" "m = \<lparr>nm_msgs = ys, nm_inbox = replicate n [], is_inplace = False\<rparr>" "length ys = n"
    "\<forall>y \<in> set ys. length y \<le> MAX_CONVERT_LEN"
    "\<forall>i < n. int i \<noteq> self \<longrightarrow> length (xs i) \<le> MAX_CONVERT_LEN \<and> (\<exists>q. chan w (int i) self = enc_buf (xs i) # q)"
  shows "\<exists>m' w'. group_message fill job (nonuniform_ops convert_buf self) ps_all ps_all m w = Inr (m', w')
     \<and> (\<forall>i < n. nonuniform_received self n m' (int i) = Inr (if int i = self then ys ! i else xs i))
     \<and> (\<forall>i < n. int i \<noteq> self \<longrightarrow> chan w' self (int i) = chan w self (int i) @ [enc_buf (ys ! i)])"
proof -
  have "nonuniform_ok (\<lambda>v. length v \<le> MAX_CONVERT_LEN) self n m"
    using assms(2-5) by (auto simp: nonuniform_ok_def list_all_iff job_ready_def)
  then show ?thesis using buf_msg.exchange_round [OF assms(1,2), of m xs w fill] assms(3,5,6) enc_buf_fits by auto
qed

text \<open>
  The constructor of \<^verbatim>\<open>job_mp_t\<close> reports a party index outside of the list of names and goes on: the job is built, and asking it for its own identifier or name reads outside of the vectors.
\<close>

lemma job_constructor_accepts_bad_index:
  assumes "2 \<le> length names" "length names \<le> 64" "i < 0 \<or> int (length names) \<le> i"
  shows "\<exists>j. new_job pid_from_name i names t = Inr j \<and> party_index j = i \<and> get_pid j (party_index j) = Inl Out_Of_Bounds
     \<and> get_name j (party_index j) = Inl Out_Of_Bounds"
  by (rule new_job_any_index [OF assms])

section \<open>Key generation and refresh\<close>

text \<open>
  C7. When all parties follow \<^verbatim>\<open>key_share_mp_t::dkg\<close>, every one ends after two broadcasts, with the same session identifier, the same public
  shares and the same public key; its share belongs to its public share, and the public key belongs to the sum of the shares.
\<close>

theorem key_generation_agrees:
  fixes P :: "('p::ab_group_add, 'r) prims"
  assumes "good_prims P" "zk_ready P c" "distinct names"
  shows "\<exists>x Qs sid. \<forall>i < length names. \<exists>key r'.
      run_rounds (length names) 2 (\<lambda>i. key_share_mp_dkg P c cn names i (vr i) (r i)) i = Return (Inr (key, sid, r'))
      \<and> additive_key c names x Qs i key"
proof -
  obtain x sid where x: "\<forall>j < length names. is_in_range (order c) (x j)"
    "\<And>i. i < length names \<Longrightarrow> \<exists>r'. run_rounds (length names) 2 (\<lambda>i. key_share_mp_dkg P c cn names i (vr i) (r i)) i
      = Return (Inr (\<lparr>x_share = x i, key_Q = smul (\<Sum>j < length names. x j) (generator c),
          Qis = assign_all names (map (\<lambda>j. smul (x j) (generator c)) [0..<length names]), key_curve = c, party_name = names ! i\<rparr>, sid, r'))"
    using mp_dkg_run [OF assms, where vr = vr and r = r] by blast
  let ?Qs = "assign_all names (map (\<lambda>j. smul (x j) (generator c)) [0..<length names])"
  have "\<forall>j < length names. ?Qs (names ! j) = Some (smul (x j) (generator c))"
    by (simp add: assign_all_nth [OF assms(3)])
  with x show ?thesis
    by (intro exI [of _ x] exI [of _ ?Qs] exI [of _ sid]) (fastforce simp: additive_key_def)
qed

theorem key_generation_agrees_witness:
  "\<exists>x Qs sid. \<forall>i < 3. \<exists>key r'.
      run_rounds 3 2 (\<lambda>i. key_share_mp_dkg ex_prims ex_curve ''c'' ex_names i (\<lambda>_. 0) i) i = Return (Inr (key, sid, r'))
      \<and> additive_key ex_curve ex_names x Qs i key"
  using key_generation_agrees [OF ex_prims_good ex_zk_ready, of ex_names "''c''" "\<lambda>_ _. 0" "\<lambda>i. i"] by (simp add: ex_names_length)

text \<open>
  C8. When all parties follow \<^verbatim>\<open>key_share_mp_t::refresh\<close> on such a key, every one ends after two broadcasts, or three when no session identifier is given,
  with new shares of the same public key: the sum of the shares is unchanged modulo the order and all hold the same new public shares.
\<close>

theorem refresh_keeps_key:
  fixes P :: "('p::ab_group_add, 'r) prims"
  assumes "good_prims P" "zk_ready P c" "distinct names" "distinct keys" "set keys = set names"
    "\<And>i. i < length names \<Longrightarrow> additive_key c names x Qs i (key i)"
  shows "\<exists>x' Qs' sid'. (\<Sum>j < length names. x' j) mod order c = (\<Sum>j < length names. x j) mod order c
    \<and> (\<forall>i < length names. \<exists>key' r'. additive_key c names x' Qs' i key' \<and> key_Q key' = key_Q (key i)
      \<and> run_rounds (length names) (if sid = [] then 3 else 2) (\<lambda>i. key_share_mp_refresh P names i (vr i) sid keys (key i) (r i)) i
        = Return (Inr (key', sid', r')))"
  using mp_refresh_run [OF assms] .

theorem refresh_keeps_key_witness:
  "\<exists>x' Qs' sid'. (\<Sum>j < 3. x' j) mod 11 = 1
    \<and> (\<forall>i < 3. \<exists>key' r'. additive_key ex_curve ex_names x' Qs' i key' \<and> key_Q key' = 1
      \<and> run_rounds 3 3 (\<lambda>i. key_share_mp_refresh ex_prims ex_names i (\<lambda>_ _. 0) [] ex_names (ex_key i) i) i = Return (Inr (key', sid', r')))"
  using refresh_keeps_key [OF ex_prims_good ex_zk_ready, of ex_names ex_names ex_shares ex_Qis ex_key "[]" "\<lambda>_ _ _. 0" "\<lambda>i. i"]
    ex_key_additive
  by (simp add: ex_names_def ex_key_def ex_shares_def ex_curve_facts eval_nat_numeral)

text \<open>
  C9. Whatever the other parties send, a party that \<^verbatim>\<open>key_share_mp_t::dkg\<close> ends with success holds a share that belongs to its own public share, public shares
  for exactly the parties, and a public key that is their sum; and the public share of every other party was committed to in its first message, opened in its
  second, passed the check of points and came with a proof of knowledge that verifies in a session made of the contributions of all, the sender having confirmed the
  commitments of all parties.
\<close>

theorem key_share_fits_public_data:
  fixes c :: "'p::ab_group_add ecurve"
  assumes "against i envs (key_share_mp_dkg P c cn names i vr r) = Some (Inr (key, sid, r'))"
    "list_all (\<lambda>e. length e = length names) envs" "i < length names" "distinct names"
  shows "Qis key (names ! i) = Some (smul (x_share key) (generator c)) \<and> dom (Qis key) = set names
    \<and> key_Q key = (\<Sum>nm\<leftarrow>names. the (Qis key nm))
    \<and> (\<exists>e1 e2 rest sids cs. envs = e1 # e2 # rest \<and> sid = pr_sha P [VList (map VBuf sids)]
       \<and> (\<forall>j < length names. j \<noteq> i \<longrightarrow> (\<exists>Q. Qis key (names ! j) = Some Q \<and> share_vouched P c cn names vr sids cs sid (e1 ! j) (e2 ! j) j Q)))"
  using mp_dkg_success [OF assms] .

theorem key_share_fits_public_data_witness:
  "\<exists>envs key sid r'. against 0 envs (key_share_mp_dkg ex_prims ex_curve ''c'' ex_names 0 (\<lambda>_. 0) 0) = Some (Inr (key, sid, r'))
    \<and> Qis key ''a'' = Some (smul (x_share key) 1) \<and> key_Q key = (\<Sum>nm\<leftarrow>ex_names. the (Qis key nm))
    \<and> (\<exists>e1 e2 rest sids cs Q. envs = e1 # e2 # rest \<and> Qis key ''b'' = Some Q
       \<and> share_vouched ex_prims ex_curve ''c'' ex_names (\<lambda>_. 0) sids cs sid (e1 ! 1) (e2 ! 1) 1 Q)"
proof -
  obtain key sid r' envs where run: "list_all (\<lambda>e. length e = length ex_names) envs"
    "against 0 envs (key_share_mp_dkg ex_prims ex_curve ''c'' ex_names 0 (\<lambda>_. 0) 0) = Some (Inr (key, sid, r'))"
    using ex_dkg_run by blast
  have names: "distinct ex_names" "0 < length ex_names" "ex_names ! 0 = ''a''" "1 < length ex_names" "ex_names ! 1 = ''b''"
    by (simp_all add: ex_names_def)
  note fits = key_share_fits_public_data [OF run(2,1) names(2,1), unfolded names(3) ex_curve_facts(2)]
  from fits obtain e1 e2 rest sids cs where "envs = e1 # e2 # rest"
    "\<forall>j < length ex_names. j \<noteq> 0 \<longrightarrow> (\<exists>Q. Qis key (ex_names ! j) = Some Q
       \<and> share_vouched ex_prims ex_curve ''c'' ex_names (\<lambda>_. 0) sids cs sid (e1 ! j) (e2 ! j) j Q)" by blast
  with names(4,5) have "\<exists>Q. envs = e1 # e2 # rest \<and> Qis key ''b'' = Some Q
       \<and> share_vouched ex_prims ex_curve ''c'' ex_names (\<lambda>_. 0) sids cs sid (e1 ! 1) (e2 ! 1) 1 Q" by (metis one_neq_zero)
  then show ?thesis using fits run(2) by blast
qed

text \<open>
  C10. Whatever the other parties send, a party that \<^verbatim>\<open>key_share_mp_t::refresh\<close> ends with success has kept the public key, its new share belongs to its new
  public share, and the new public shares add up to the public key.
\<close>

theorem refresh_fits_public_data:
  assumes "against i envs (key_share_mp_refresh P names i vr sid keys key r) = Some (Inr (key', sid', r'))"
  shows "key_Q key' = key_Q key \<and> Qis key' (names ! i) = Some (smul (x_share key') (generator (key_curve key)))
    \<and> sum_map (names @ keys) (Qis key') = key_Q key \<and> party_name key' = names ! i"
  using mp_refresh_success [OF assms] .

theorem refresh_fits_public_data_witness:
  "\<exists>envs key sid r'. against 0 envs (key_share_mp_refresh ex_prims ex_names 0 (\<lambda>_ _. 0) [] ex_names (ex_key 0) 0) = Some (Inr (key, sid, r'))
    \<and> key_Q key = 1 \<and> Qis key ''a'' = Some (smul (x_share key) 1)"
proof -
  obtain key sid r' envs where run:
    "against 0 envs (key_share_mp_refresh ex_prims ex_names 0 (\<lambda>_ _. 0) [] ex_names (ex_key 0) 0) = Some (Inr (key, sid, r'))"
    using ex_refresh_run by blast
  have "key_Q (ex_key 0) = 1" "key_curve (ex_key 0) = ex_curve" "ex_names ! 0 = ''a''" by (simp_all add: ex_key_def ex_names_def)
  with refresh_fits_public_data [OF run] run show ?thesis unfolding ex_curve_facts(2) by (metis (no_types) ex_curve_facts(2))
qed

text \<open>
  C19. The number that a peer sends in a refresh is checked in the exponent only. In every run that ends with success, adding the order to the number of one peer makes
  the party end in a failed assertion of the modular addition instead of an error.
\<close>

theorem refresh_unreduced_asserts:
  fixes key :: "'p::ab_group_add key_share_mp_t"
  assumes "against i envs (key_share_mp_refresh P names i vr sid keys key r) = Some (Inr y)"
    "smul (order (key_curve key)) (generator (key_curve key)) = 0" "0 < order (key_curve key)"
    "list_all (\<lambda>e. length e = length names) envs" "j < length names" "j \<noteq> i"
  shows "\<exists>pre e post v m. envs = pre @ e # post \<and> e ! j = VInt v # m
    \<and> against i (pre @ e[j := VInt (v + order (key_curve key)) # m] # post) (key_share_mp_refresh P names i vr sid keys key r)
      = Some (Inl Assert_Failed)"
  using refresh_unreduced_run [OF assms] .

theorem refresh_unreduced_asserts_witness:
  "\<exists>envs. against 0 envs (key_share_mp_refresh ex_prims ex_names 0 (\<lambda>_ _. 0) [] ex_names (ex_key 0) 0) = Some (Inl Assert_Failed)"
proof -
  obtain y envs where "list_all (\<lambda>e. length e = 3) envs"
    "against 0 envs (key_share_mp_refresh ex_prims ex_names 0 (\<lambda>_ _. 0) [] ex_names (ex_key 0) 0) = Some (Inr y)"
    using ex_refresh_run by blast
  moreover have "key_curve (ex_key 0) = ex_curve" by (simp add: ex_key_def)
  ultimately show ?thesis
    using refresh_unreduced_asserts [of 0 envs ex_prims ex_names "\<lambda>_ _. 0" "[]" ex_names "ex_key 0" 0 y 1] ex_order
    by (auto simp: ex_names_length ex_curve_facts)
qed

text \<open>
  C11. When both parties follow \<^verbatim>\<open>key_share_2p_t::dkg\<close>, both end with the same public key, which belongs to the sum of their shares; a
  \<^verbatim>\<open>refresh\<close> of these keys ends with new shares of the same public key.
\<close>

theorem two_party_key_lifecycle:
  fixes P :: "('p::ab_group_add, 'r) prims"
  assumes "good_prims P" "zk_ready P c"
  shows "\<exists>key sid. (\<forall>i < 2. \<exists>r'. run_rounds 2 3 (\<lambda>i. key_share_2p_dkg P c names i (vr i) (r i)) i = Return (Inr (key i, sid, r')))
    \<and> k2_Q (key 0) = k2_Q (key 1) \<and> k2_Q (key 0) = smul (k2_x_share (key 0) + k2_x_share (key 1)) (generator c)
    \<and> (\<exists>x'. (\<forall>i < 2. \<exists>r'. run_rounds 2 3 (\<lambda>i. key_share_2p_refresh P names i (key i) (s i)) i
          = Return (Inr ((key i)\<lparr>k2_x_share := x' i\<rparr>, r')))
        \<and> k2_Q (key 0) = smul (x' 0 + x' 1) (generator c))"
proof -
  let ?q = "order c" and ?G = "generator c"
  obtain x1 x2 sid where x: "is_in_range ?q x1" "is_in_range ?q x2"
    "\<forall>i < 2. \<exists>r'. run_rounds 2 3 (\<lambda>i. key_share_2p_dkg P c names i (vr i) (r i)) i
      = Return (Inr (\<lparr>k2_role = i, k2_curve = c, k2_Q = smul (x1 + x2) ?G, k2_x_share = (if i = 0 then x1 else x2)\<rparr>, sid, r'))"
    using dkg_2p_run [OF assms, where names = names and vr = vr and r = r] by blast
  define key where "key = (\<lambda>i :: nat. \<lparr>k2_role = i, k2_curve = c, k2_Q = smul (x1 + x2) ?G, k2_x_share = (if i = 0 then x1 else x2)\<rparr>)"
  have share: "is_in_range ?q (k2_x_share (key i)) \<and> order (k2_curve (key i)) = ?q" for i using x(1,2) by (simp add: key_def)
  have key0: "k2_x_share (key 0) = x1" "k2_x_share (key (Suc 0)) = x2" by (simp_all add: key_def)
  obtain x' where x': "(x' 0 + x' 1) mod ?q = (x1 + x2) mod ?q"
    "\<forall>i < 2. \<exists>r'. run_rounds 2 3 (\<lambda>i. key_share_2p_refresh P names i (key i) (s i)) i = Return (Inr ((key i)\<lparr>k2_x_share := x' i\<rparr>, r'))"
    using refresh_2p_run [OF assms(1) zk_readyD(1) [OF assms(2)], where key = key and names = names and r = s] share by (auto simp: key0)
  have "smul (x1 + x2) ?G = smul (x' 0 + x' 1) ?G" using x'(1) smul_mod [OF zk_readyD(4) [OF assms(2)]] by metis
  with x(3) x'(2) show ?thesis
    by (intro exI [of _ key] exI [of _ sid] conjI exI [of _ x']) (simp_all add: key_def)
qed

theorem two_party_key_lifecycle_witness:
  "\<exists>key sid. (\<forall>i < 2. \<exists>r'. run_rounds 2 3 (\<lambda>i. key_share_2p_dkg ex_prims ex_curve [''a'', ''b''] i 0 i) i = Return (Inr (key i, sid, r')))
    \<and> k2_Q (key 0) = k2_Q (key 1) \<and> k2_Q (key 0) = smul (k2_x_share (key 0) + k2_x_share (key 1)) 1
    \<and> (\<exists>x'. (\<forall>i < 2. \<exists>r'. run_rounds 2 3 (\<lambda>i. key_share_2p_refresh ex_prims [''a'', ''b''] i (key i) (5 + i)) i
          = Return (Inr ((key i)\<lparr>k2_x_share := x' i\<rparr>, r')))
        \<and> k2_Q (key 0) = smul (x' 0 + x' 1) 1)"
  using two_party_key_lifecycle [OF ex_prims_good ex_zk_ready, of "[''a'', ''b'']" "\<lambda>_. 0" "\<lambda>i. i" "\<lambda>i. 5 + i"]
  unfolding ex_curve_facts(2) .

text \<open>
  C18. Whoever opens one commitment to two lists of arguments of the same types that differ has two different byte strings with the same HMAC, each under the
  randomness of its opening: the sizes in front of the encoded arguments let them be read back, whatever identifiers follow. The
  compressed form of a point must be injective. Numbers count as different when their magnitudes differ, proofs of knowledge when their serializations
  do; the sign of a number is not bound, since the encoding drops it.
\<close>

theorem commitment_binding:
  assumes "com_open (hmac_of E H) args com = success" "com_open (hmac_of E H) args' com' = success" "com_msg com = com_msg com'"
    "inj (compressed E)" "list_all2 (arg_ok E) ts args" "list_all2 (arg_ok E) ts args'" "\<not> list_all2 (same_bound E) args args'"
  shows "com_input E args com \<noteq> com_input E args' com'
    \<and> H (com_rand com) (com_input E args com) = H (com_rand com') (com_input E args' com')
    \<and> (\<forall>n c. com_open (hmac_of E H) [VInt (- n)] c = com_open (hmac_of E H) [VInt n] c)"
  using com_input_differs [OF assms(4-7)] hmac_of_open [OF assms(1)] hmac_of_open [OF assms(2)] assms(3)
  by (simp add: sign_not_bound)

theorem commitment_binding_witness:
  "com_input \<lparr>compressed = \<lambda>p :: u8. [2, p], curve_code = 714\<rparr> [VList [VPoint 1, VPoint 7], VInt 300] (com_new_sid [1] 3)
     \<noteq> com_input \<lparr>compressed = \<lambda>p :: u8. [2, p], curve_code = 714\<rparr> [VList [VPoint 1], VInt 300] (com_new_sid [1] 3)"
proof -
  let ?E = "\<lparr>compressed = \<lambda>p :: u8. [2, p], curve_code = 714\<rparr>" and ?H = "\<lambda>_ _ :: bytes. replicate 32 0 :: bytes"
  let ?com = "com_set [] (replicate 32 0) (com_new_sid [1] 3)"
  have opens: "com_open (hmac_of ?E ?H) args ?com = success" for args
    by (simp add: com_open_def com_final_def com_set_def com_new_sid_def com_none_def hmac_of_def HASH_SIZE_def)
  have inj: "inj (compressed ?E)" by (simp add: inj_def)
  have "length (bn_to_bin 300) \<le> 2" using bn_bytes_length [of 300 2] by (simp add: bn_to_bin_def)
  then have ok: "list_all2 (arg_ok ?E) [T_vector T_point, T_bn] [VList (map VPoint ps), VInt 300]" if "length ps \<le> 2" for ps
    using that by (simp add: arg_ok_iff sized_def INT_MAX_def list_all_iff)
  have "com_input ?E args ?com = com_input ?E args (com_new_sid [1] 3)" for args
    by (simp add: com_input_def com_view_def com_set_def com_new_sid_def com_none_def com_tail_def)
  then show ?thesis
    using commitment_binding [OF opens opens refl inj ok [of "[1, 7]"] ok [of "[1]"]] by simp
qed

section \<open>Key generation over an access structure\<close>

text \<open>
  C4. When all parties follow \<^verbatim>\<open>dkg_ac\<close> and a quorum deals, every party ends after three broadcasts, or four when no session identifier is given, with its share of
  one sharing \<open>v\<close> over the tree, the public shares of all parties and the public key. Every quorum then turns these keys by \<^verbatim>\<open>to_additive_share\<close> into
  additive shares of the key with matching public shares. The values dealt must not be multiples of the order, since the check of points refuses the
  point at infinity.
\<close>

theorem threshold_key_generated:
  fixes P :: "('p::ab_group_add, 'r) prims"
  assumes "good_prims P" "zk_ready P c" "batch_ready P c" "mod_inverse (pr_inv P)" "field_modulus (order c)" "ac_ready P c ac t names"
    "enough_for_quorum {names ! j | j. j < length names \<and> quorum j} t = Inr True"
    "\<And>j. j < length names \<Longrightarrow> quorum j \<Longrightarrow> finite_deal P c ac False (deal_state P sid (r j))"
  shows "\<exists>v sid' key. (\<forall>i < length names. shared_key P c t names v i (key i)
        \<and> (\<exists>r'. run_rounds (length names) (if sid = [] then 4 else 3) (\<lambda>i. dkg_ac P c cn ac names i quorum sid (r i)) i = Return (Inr (key i, sid', r'))))
    \<and> (\<forall>A. enough_for_quorum (set A) t = Inr True \<longrightarrow> (\<exists>s. (\<Sum>nm\<in>set A. s nm) mod order c = v (nname t)
        \<and> (\<forall>i < length names. to_additive_share (pr_inv P) (pr_pid P) ac A (key i) = Inr ((key i)\<lparr>x_share := s (names ! i),
              Qis := (\<lambda>n. if n \<in> set A then Some (smul (s n) (generator c)) else None)\<rparr>))))"
proof -
  let ?run = "\<lambda>i. run_rounds (length names) (if sid = [] then 4 else 3) (\<lambda>i. dkg_ac P c cn ac names i quorum sid (r i)) i"
  obtain v sid' where "\<forall>i < length names. \<exists>key r'. ?run i = Return (Inr (key, sid', r')) \<and> shared_key P c t names v i key"
    using dkg_ac_run [OF assms(1-7), where sid = sid and cn = cn and r = r] assms(8) by blast
  then have "\<forall>i. \<exists>key. i < length names \<longrightarrow> shared_key P c t names v i key \<and> (\<exists>r'. ?run i = Return (Inr (key, sid', r')))" by blast
  from choice [OF this] obtain key where
    key: "\<forall>i. i < length names \<longrightarrow> shared_key P c t names v i (key i) \<and> (\<exists>r'. ?run i = Return (Inr (key i, sid', r')))" by blast
  have parts: "\<exists>s. (\<Sum>nm\<in>set A. s nm) mod order c = v (nname t)
        \<and> (\<forall>i < length names. to_additive_share (pr_inv P) (pr_pid P) ac A (key i) = Inr ((key i)\<lparr>x_share := s (names ! i),
              Qis := (\<lambda>n. if n \<in> set A then Some (smul (s n) (generator c)) else None)\<rparr>))"
    if "enough_for_quorum (set A) t = Inr True" for A
    by (rule shared_key_additive [OF assms(2,4-6) that]) (use key in blast)
  show ?thesis using key parts by blast
qed

theorem threshold_key_generated_witness:
  "\<exists>v sid' key. (\<forall>i < 5. shared_key ex_prims ex_curve ex_tree ex_parties v i (key i)
        \<and> (\<exists>r'. run_rounds 5 4 (\<lambda>i. dkg_ac ex_prims ex_curve ''c'' ex_ac ex_parties i ex_quorum_set [] i) i = Return (Inr (key i, sid', r'))))
    \<and> (\<exists>s. (\<Sum>nm\<in>{''a'', ''g''}. s nm) mod 11 = v (nname ex_tree)
        \<and> (\<forall>i < 5. to_additive_share scr_checked_inv ex_pid ex_ac [''a'', ''g''] (key i) = Inr ((key i)\<lparr>x_share := s (ex_parties ! i),
              Qis := (\<lambda>n. if n \<in> {''a'', ''g''} then Some (smul (s n) 1) else None)\<rparr>)))"
proof -
  have inv: "mod_inverse (pr_inv ex_prims)" "field_modulus (order ex_curve)"
    using scr.mod_inverse_axioms field_11 by (simp_all add: ex_prims_def ex_curve_facts)
  have eqs: "pr_inv ex_prims = scr_checked_inv" "pr_pid ex_prims = ex_pid" "set [''a'', ''g''] = {''a'', ''g''}" by (simp_all add: ex_prims_def)
  obtain v sid' key where *: "\<forall>i < 5. shared_key ex_prims ex_curve ex_tree ex_parties v i (key i)
        \<and> (\<exists>r'. run_rounds 5 4 (\<lambda>i. dkg_ac ex_prims ex_curve ''c'' ex_ac ex_parties i ex_quorum_set [] i) i = Return (Inr (key i, sid', r')))"
    "\<And>A. enough_for_quorum (set A) ex_tree = Inr True \<Longrightarrow> \<exists>s. (\<Sum>nm\<in>set A. s nm) mod 11 = v (nname ex_tree)
        \<and> (\<forall>i < 5. to_additive_share scr_checked_inv ex_pid ex_ac A (key i) = Inr ((key i)\<lparr>x_share := s (ex_parties ! i),
              Qis := (\<lambda>n. if n \<in> set A then Some (smul (s n) 1) else None)\<rparr>))"
    using threshold_key_generated [OF ex_prims_good ex_zk_ready ex_batch_ready inv ex_ac_ready ex_quorum_enough, where sid = "[]" and cn = "''c''" and r = "\<lambda>i. i"]
      ex_finite_deals(1) unfolding ex_curve_facts ex_parties_facts(1) eqs(1,2) by auto
  from *(2) [of "[''a'', ''g'']"] *(1) ex_quorum(1) show ?thesis unfolding eqs(3) by blast
qed

text \<open>
  C5. When all parties follow \<^verbatim>\<open>refresh_ac\<close> on such a key and a quorum deals, every party ends with its share of a new sharing of the same key, and the same public key,
  when no value dealt below the root is a multiple of the order (\<open>finite_deal\<close>). Random values satisfy this except with negligible probability, unless the root is of type OR, has
  threshold 1 or only one child: there the children carry the value zero of the root, the check of points refuses them, and the refresh cannot succeed.
\<close>

theorem threshold_refresh_keeps_key:
  fixes P :: "('p::ab_group_add, 'r) prims"
  assumes "good_prims P" "zk_ready P c" "batch_ready P c" "mod_inverse (pr_inv P)" "field_modulus (order c)" "ac_ready P c ac t names"
    "enough_for_quorum {names ! j | j. j < length names \<and> quorum j} t = Inr True"
    "\<And>j. j < length names \<Longrightarrow> quorum j \<Longrightarrow> finite_deal P c ac True (deal_state P sid (r j))"
    "\<And>i. i < length names \<Longrightarrow> shared_key P c t names v i (key i)"
  shows "\<exists>v' sid'. v' (nname t) = v (nname t) \<and> (\<forall>i < length names. \<exists>key' r'.
      run_rounds (length names) (if sid = [] then 4 else 3) (\<lambda>i. refresh_ac P c cn ac names i quorum sid keys (key i) (r i)) i = Return (Inr (key', sid', r'))
      \<and> shared_key P c t names v' i key' \<and> key_Q key' = key_Q (key i))"
  using refresh_ac_run [OF assms] .

theorem threshold_refresh_keeps_key_witness:
  "\<exists>v' sid'. v' (nname ex_tree) = 5 \<and> (\<forall>i < 5. \<exists>key' r'.
      run_rounds 5 3 (\<lambda>i. refresh_ac ex_prims ex_curve ''c'' ex_ac ex_parties i ex_quorum_set [1] ex_parties (ex_shared i) i) i = Return (Inr (key', sid', r'))
      \<and> shared_key ex_prims ex_curve ex_tree ex_parties v' i key' \<and> key_Q key' = smul 5 1)"
proof -
  have "pr_inv ex_prims = scr_checked_inv" "ex_values (nname ex_tree) = 5" "\<And>i. key_Q (ex_shared i) = smul 5 1"
    by (simp_all add: ex_prims_def ex_values_def ex_tree_def ex_shared_def)
  with threshold_refresh_keeps_key [OF ex_prims_good ex_zk_ready ex_batch_ready _ _ ex_ac_ready ex_quorum_enough,
      where v = ex_values and key = ex_shared and sid = "[1]" and cn = "''c''" and keys = ex_parties and r = "\<lambda>i. i"]
  show ?thesis using scr.mod_inverse_axioms field_11 ex_shared_key ex_finite_deals(2) unfolding ex_curve_facts ex_parties_facts(1) by simp
qed

text \<open>
  C6. Whatever the other parties send, a party that \<^verbatim>\<open>dkg_ac\<close> ends with success holds a share that belongs to its public share, public shares of exactly the
  parties, and a public key that these public shares reconstruct.
\<close>

theorem threshold_key_fits_public_data:
  assumes "against i envs (dkg_ac P c cn ac names i quorum sid r) = Some (Inr (key, sid', r'))"
  shows "Qis key (names ! i) = Some (smul (x_share key) (generator c)) \<and> dom (Qis key) = set names
    \<and> reconstruct_exponent (pr_inv P) (pr_pid P) (check_inf P) ac (sort (remdups names)) (Qis key) = Inr (key_Q key)
    \<and> party_name key = names ! i \<and> key_curve key = c"
  using dkg_ac_success [OF assms] .

theorem threshold_key_fits_public_data_witness:
  "\<exists>envs key sid' r'. against 0 envs (dkg_ac ex_prims ex_curve ''c'' ex_ac ex_parties 0 ex_quorum_set [] 0) = Some (Inr (key, sid', r'))
    \<and> Qis key ''a'' = Some (smul (x_share key) 1) \<and> dom (Qis key) = set ex_parties"
proof -
  obtain envs key sid' r' where run: "against 0 envs (dkg_ac ex_prims ex_curve ''c'' ex_ac ex_parties 0 ex_quorum_set [] 0) = Some (Inr (key, sid', r'))"
    using ex_dkg_ac_run by blast
  from threshold_key_fits_public_data [OF run] show ?thesis using run unfolding ex_curve_facts(2) ex_parties_facts(3) by blast
qed

text \<open>
  C20. When the root of the access structure is of type OR and another party deals, \<^verbatim>\<open>refresh_ac\<close> never ends with success, whatever the others send, honest dealings included: the
  children of the root carry the value zero, and the check of points refuses the point at infinity.
\<close>

theorem refresh_below_or_fails:
  assumes "pr_check P 0 \<noteq> success" "root ac = Some (Node node_e.OR nm th ch)" "j < length names" "j \<noteq> i" "quorum j"
  shows "against i envs (refresh_ac P c cn ac names i quorum sid keys key r) \<noteq> Some (Inr y)"
proof
  assume "against i envs (refresh_ac P c cn ac names i quorum sid keys key r) = Some (Inr y)"
  from refresh_ac_or_root [OF this assms(2,3,4)] assms(1,5) show False by simp
qed

theorem refresh_below_or_fails_witness:
  "\<forall>envs y. against 0 envs (refresh_ac ex_prims ex_curve ''c''
     \<lparr>root = Some (Node node_e.OR [] 0 [Node LEAF ''a'' 0 [], Node LEAF ''d'' 0 []]), curve = Some ex_curve\<rparr> [''a'', ''d''] 0 (\<lambda>_. True) [] [''a'', ''d'']
     (ex_shared 0) 0) \<noteq> Some (Inr y)"
  by (intro allI, rule refresh_below_or_fails [where j = 1]) (simp_all add: ex_prims_def)

end
